(* ===== verification/Prelude.thy ===== *)
theory Prelude
  imports
    Main
    "HOL-Library.Word"
    "HOL-Library.AList"
    "HOL-Library.List_Lexorder"
    "HOL-Library.Product_Lexorder"
    "HOL-Library.Char_ord"
    "HOL-Library.Multiset"
begin

section \<open>Prelude: Python's data and the lemmas the components share\<close>

text \<open>
  What every component of the model uses: bytes and strings, big-endian integers, decimal and
  hexadecimal printing, dictionaries in insertion order, results that carry an error, the
  stable sort \<open>sorted(xs, key=f)\<close>, and the \<open>named_theorems\<close> collections of the
  development.

  A Python \<open>bytes\<close> is a list of 8-bit words, compared lexicographically. A Python
  \<open>str\<close> is a \<open>string\<close>: a list of code points below 256. A Python \<open>int\<close> is an
  \<open>int\<close>, or a \<open>nat\<close> where the code only ever holds a non-negative one.
\<close>

named_theorems result_simps \<open>how results with errors compute and are inverted\<close>
named_theorems dict_simps \<open>what a dictionary returns after an update\<close>
named_theorems sort_simps \<open>facts on the stable sort\<close>

subsection \<open>Bytes and strings\<close>

type_synonym byte = "8 word"
type_synonym bytes = "byte list"

definition ascii :: "string \<Rightarrow> bytes" where
  \<comment> \<open>A bytes literal such as \<open>b"EZCHAIN"\<close>.\<close>
  "ascii s = map of_char s"

definition utf8_char :: "char \<Rightarrow> bytes" where
  "utf8_char c =
     (let n = (of_char c :: nat)
      in if n < 128 then [word_of_nat n]
         else [word_of_nat (192 + n div 64), word_of_nat (128 + n mod 64)])"

definition utf8 :: "string \<Rightarrow> bytes" where
  \<comment> \<open>\<open>s.encode("utf-8")\<close> for code points below 256.\<close>
  "utf8 s = concat (map utf8_char s)"

definition hex_digit :: "nat \<Rightarrow> char" where
  "hex_digit n = (if n < 10 then char_of (48 + n) else char_of (87 + n))"

definition hex :: "bytes \<Rightarrow> string" where
  \<comment> \<open>\<open>b.hex()\<close>\<close>
  "hex b = concat (map (\<lambda>x. [hex_digit (unat x div 16), hex_digit (unat x mod 16)]) b)"

fun str_nat :: "nat \<Rightarrow> string" where
  "str_nat n = (if n < 10 then [char_of (48 + n)] else str_nat (n div 10) @ [char_of (48 + n mod 10)])"

declare str_nat.simps [simp del]

definition str_int :: "int \<Rightarrow> string" where
  \<comment> \<open>\<open>str(n)\<close>\<close>
  "str_int n = (if n < 0 then ''-'' @ str_nat (nat (- n)) else str_nat (nat n))"

subsection \<open>Big-endian integers\<close>

definition from_bytes :: "bytes \<Rightarrow> nat" where
  \<comment> \<open>\<open>int.from_bytes(b, byteorder="big", signed=False)\<close>\<close>
  "from_bytes b = foldl (\<lambda>n x. 256 * n + unat x) 0 b"

fun be_bytes :: "nat \<Rightarrow> nat \<Rightarrow> bytes" where
  \<comment> \<open>\<open>n.to_bytes(k, byteorder="big")\<close> where \<open>n < 256 ^ k\<close>.\<close>
  "be_bytes 0 n = []"
| "be_bytes (Suc k) n = be_bytes k (n div 256) @ [word_of_nat n]"

fun bit_length :: "nat \<Rightarrow> nat" where
  \<comment> \<open>\<open>n.bit_length()\<close>\<close>
  "bit_length n = (if n = 0 then 0 else Suc (bit_length (n div 2)))"

declare bit_length.simps [simp del]

lemma length_be_bytes [simp]: "length (be_bytes k n) = k"
  by (induction k arbitrary: n) auto

lemma from_bytes_Nil [simp]: "from_bytes [] = 0"
  by (simp add: from_bytes_def)

lemma from_bytes_snoc [simp]: "from_bytes (b @ [x]) = 256 * from_bytes b + unat x"
  by (simp add: from_bytes_def)

lemma unat_byte_less [simp]: "unat (x :: byte) < 256"
proof -
  have "unat x < 2 ^ LENGTH(8)" by (rule unsigned_less)
  then show ?thesis by simp
qed

lemma from_bytes_less: "from_bytes b < 256 ^ length b"
proof (induction b rule: rev_induct)
  case Nil
  then show ?case by simp
next
  case (snoc x b)
  have "256 * from_bytes b + unat x < 256 * (from_bytes b + 1)"
    using unat_byte_less [of x] by (simp add: algebra_simps)
  also have "\<dots> \<le> 256 * 256 ^ length b"
    using snoc.IH by (intro mult_le_mono2) simp
  finally show ?case by simp
qed

lemma from_bytes_be_bytes: "n < 256 ^ k \<Longrightarrow> from_bytes (be_bytes k n) = n"
proof (induction k arbitrary: n)
  case 0
  then show ?case by simp
next
  case (Suc k)
  then have "n div 256 < 256 ^ k"
    by (simp add: less_mult_imp_div_less mult.commute)
  then have "from_bytes (be_bytes k (n div 256)) = n div 256"
    by (rule Suc.IH)
  then show ?case
    by (simp add: unat_of_nat take_bit_eq_mod)
qed

lemma be_bytes_from_bytes: "be_bytes (length b) (from_bytes b) = b"
proof (induction b rule: rev_induct)
  case Nil
  then show ?case by simp
next
  case (snoc x b)
  have "(256 * from_bytes b + unat x) div 256 = from_bytes b"
    using unat_byte_less [of x] by simp
  moreover have "word_of_nat (256 * from_bytes b + unat x) = x"
  proof -
    have z: "(256 :: byte) = 0" by simp
    show ?thesis
      by (simp only: of_nat_add of_nat_mult of_nat_numeral z mult_zero_left add_0_left) simp
  qed
  ultimately show ?case
    using snoc by simp
qed

lemma from_bytes_inj: "length a = length b \<Longrightarrow> from_bytes a = from_bytes b \<Longrightarrow> a = b"
  by (metis be_bytes_from_bytes)

lemma bit_length_bound: "n < 2 ^ bit_length n"
proof (induction n rule: bit_length.induct)
  case (1 n)
  show ?case
  proof (cases "n = 0")
    case False
    with "1.IH" have "n div 2 < 2 ^ bit_length (n div 2)" by simp
    then have "n < 2 * 2 ^ bit_length (n div 2)" by linarith
    with False show ?thesis by (simp add: bit_length.simps [of n])
  qed (simp add: bit_length.simps)
qed

lemma bit_length_le: "n < 2 ^ k \<Longrightarrow> bit_length n \<le> k"
proof (induction k arbitrary: n)
  case 0
  then show ?case by (simp add: bit_length.simps)
next
  case (Suc k)
  then have "n div 2 < 2 ^ k" by simp
  then have "bit_length (n div 2) \<le> k" by (rule Suc.IH)
  then show ?case by (subst bit_length.simps) simp
qed

lemma bit_length_bytes: "n < 256 ^ ((bit_length n + 7) div 8)"
proof -
  have "n < 2 ^ bit_length n" by (rule bit_length_bound)
  also have "\<dots> \<le> 2 ^ (8 * ((bit_length n + 7) div 8))"
    by (intro power_increasing) auto
  also have "\<dots> = 256 ^ ((bit_length n + 7) div 8)"
    by (simp add: power_mult)
  finally show ?thesis .
qed

subsection \<open>Text encodings are injective\<close>

lemma of_char_less_256 [simp]: "(of_char c :: nat) < 256"
  by (metis char_of_mod_256 of_char_of mod_less_divisor of_char_mod_256 zero_less_numeral)

lemma of_char_byte: "(of_char c :: byte) = word_of_nat (of_char c)"
  by (simp add: of_char_def)

lemma unat_of_char_byte [simp]: "unat (of_char c :: byte) = of_char c"
proof -
  have "unat (word_of_nat (of_char c) :: byte) = of_char c mod 256"
    by (simp add: unat_of_nat take_bit_eq_mod)
  then show ?thesis
    by (simp add: of_char_byte)
qed

lemma inj_of_char_byte: "inj (of_char :: char \<Rightarrow> byte)"
  by (rule injI) (metis char_of_char unat_of_char_byte)

lemma ascii_inject [simp]: "ascii s = ascii t \<longleftrightarrow> s = t"
  unfolding ascii_def using inj_of_char_byte by (simp add: inj_map_eq_map)

lemma length_ascii [simp]: "length (ascii s) = length s"
  by (simp add: ascii_def)

lemma utf8_Nil [simp]: "utf8 [] = []"
  by (simp add: utf8_def)

lemma utf8_Cons [simp]: "utf8 (c # s) = utf8_char c @ utf8 s"
  by (simp add: utf8_def)

lemma utf8_char_not_Nil [simp]: "utf8_char c \<noteq> []"
  by (simp add: utf8_char_def Let_def)

lemma utf8_lead_byte: "n < 256 \<Longrightarrow> 192 + n div 64 < (256 :: nat)"
  using less_mult_imp_div_less [of n 4 64] by simp

lemma utf8_trail_byte: "128 + n mod 64 < (256 :: nat)"
  using mod_less_divisor [of 64 n] by linarith

lemma utf8_char_prefix_free:
  assumes "utf8_char c @ x = utf8_char d @ y"
  shows "c = d \<and> x = y"
proof -
  let ?m = "of_char c :: nat" and ?n = "of_char d :: nat"
  have b: "?m < 256" "?n < 256" by simp_all
  have u: "unat (word_of_nat k :: byte) = k" if "k < 256" for k
    using that by (simp add: unat_of_nat take_bit_eq_mod)
  have eq: "word_of_nat k = (word_of_nat l :: byte) \<longleftrightarrow> k = l" if "k < 256" "l < 256" for k l
    using u [OF that(1)] u [OF that(2)] by metis
  have "?m = ?n \<and> x = y"
  proof (cases "?m < 128"; cases "?n < 128")
    assume "?m < 128" "?n < 128"
    with assms eq [of ?m ?n] b show ?thesis by (simp add: utf8_char_def)
  next
    assume c: "?m < 128" "\<not> ?n < 128"
    then have "word_of_nat ?m = (word_of_nat (192 + ?n div 64) :: byte)"
      using assms by (simp add: utf8_char_def Let_def)
    moreover have "192 + ?n div 64 < 256" using b by (simp add: utf8_lead_byte)
    ultimately have "?m = 192 + ?n div 64" using eq b by blast
    with c show ?thesis by simp
  next
    assume c: "\<not> ?m < 128" "?n < 128"
    then have "word_of_nat (192 + ?m div 64) = (word_of_nat ?n :: byte)"
      using assms by (simp add: utf8_char_def Let_def)
    moreover have "192 + ?m div 64 < 256" using b by (simp add: utf8_lead_byte)
    ultimately have "192 + ?m div 64 = ?n" using eq b by blast
    with c show ?thesis by simp
  next
    assume "\<not> ?m < 128" "\<not> ?n < 128"
    then have "word_of_nat (192 + ?m div 64) = (word_of_nat (192 + ?n div 64) :: byte)"
      "word_of_nat (128 + ?m mod 64) = (word_of_nat (128 + ?n mod 64) :: byte)" "x = y"
      using assms by (simp_all add: utf8_char_def Let_def del: of_nat_add)
    moreover have "192 + ?m div 64 < 256" "192 + ?n div 64 < 256"
      "128 + ?m mod 64 < 256" "128 + ?n mod 64 < 256" using b by (simp_all add: utf8_lead_byte utf8_trail_byte)
    ultimately have "192 + ?m div 64 = 192 + ?n div 64" "128 + ?m mod 64 = 128 + ?n mod 64"
      using eq by blast+
    then have "?m div 64 = ?n div 64" "?m mod 64 = ?n mod 64" by simp_all
    then have "?m = ?n" by (metis div_mult_mod_eq)
    with \<open>x = y\<close> show ?thesis by simp
  qed
  then show ?thesis by (metis char_of_char)
qed

lemma utf8_inject [simp]: "utf8 s = utf8 t \<longleftrightarrow> s = t"
proof
  assume "utf8 s = utf8 t"
  then show "s = t"
  proof (induction s arbitrary: t)
    case Nil
    then show ?case by (cases t) simp_all
  next
    case (Cons c s)
    then obtain d u where t: "t = d # u" by (cases t) simp_all
    with Cons.prems have "c = d \<and> utf8 s = utf8 u"
      by (intro utf8_char_prefix_free) simp
    with t Cons.IH show ?case by simp
  qed
qed simp

lemma of_char_hex_digit: "n < 16 \<Longrightarrow> (of_char (hex_digit n) :: nat) = (if n < 10 then 48 + n else 87 + n)"
  by (simp add: hex_digit_def)

lemma hex_digit_inject: "m < 16 \<Longrightarrow> n < 16 \<Longrightarrow> hex_digit m = hex_digit n \<longleftrightarrow> m = n"
proof
  assume mn: "m < 16" "n < 16" "hex_digit m = hex_digit n"
  then have "(if m < 10 then 48 + m else 87 + m) = (if n < 10 then 48 + n else 87 + n)"
    by (metis of_char_hex_digit)
  with mn(1,2) show "m = n" by (simp split: if_splits)
qed simp

lemma hex_Nil [simp]: "hex [] = []"
  by (simp add: hex_def)

lemma hex_Cons [simp]: "hex (x # b) = hex_digit (unat x div 16) # hex_digit (unat x mod 16) # hex b"
  by (simp add: hex_def)

lemma byte_halves: "unat (x :: byte) div 16 = unat y div 16 \<Longrightarrow> unat x mod 16 = unat y mod 16 \<Longrightarrow> x = (y :: byte)"
  by (metis div_mult_mod_eq unsigned_word_eqI)

lemma hex_inject [simp]: "hex a = hex b \<longleftrightarrow> a = b"
proof
  show "hex a = hex b \<Longrightarrow> a = b"
  proof (induction a arbitrary: b)
    case Nil
    then show ?case by (cases b) simp_all
  next
    case (Cons x a)
    then obtain y c where b: "b = y # c" by (cases b) simp_all
    have *: "unat (z :: byte) div 16 < 16" for z using unat_byte_less [of z] by linarith
    from Cons.prems b have "unat x div 16 = unat y div 16" "unat x mod 16 = unat y mod 16" "hex a = hex c"
      using * by (auto simp: hex_digit_inject)
    with b Cons.IH show ?case by (auto intro: byte_halves)
  qed
qed simp

lemma hex_digit_not_colon: "n < 16 \<Longrightarrow> hex_digit n \<noteq> CHR '':''"
proof
  assume n: "n < 16" and "hex_digit n = CHR '':''"
  then have "(of_char (CHR '':'') :: nat) = (if n < 10 then 48 + n else 87 + n)"
    by (metis of_char_hex_digit)
  with n show False by (simp split: if_splits)
qed

lemma colon_notin_hex [simp]: "CHR '':'' \<notin> set (hex b)"
proof -
  have "unat (z :: byte) div 16 < 16" for z using unat_byte_less [of z] by linarith
  then show ?thesis
    by (induction b) (auto simp del: unat_byte_less simp: eq_commute [of "CHR '':''"] hex_digit_not_colon)
qed

lemma of_char_decimal: "n < (10 :: nat) \<Longrightarrow> (of_char (char_of (48 + n) :: char) :: nat) = 48 + n"
  by simp

lemma decimal_inject: "m < (10 :: nat) \<Longrightarrow> n < 10 \<Longrightarrow> (char_of (48 + m) :: char) = char_of (48 + n) \<longleftrightarrow> m = n"
proof
  assume mn: "m < 10" "n < 10" "(char_of (48 + m) :: char) = char_of (48 + n)"
  from mn(3) have "(of_char (char_of (48 + m) :: char) :: nat) = of_char (char_of (48 + n) :: char)"
    by (rule arg_cong)
  then show "m = n"
    by (simp only: of_char_decimal [OF mn(1)] of_char_decimal [OF mn(2)] add_left_cancel)
qed simp

lemma str_nat_not_Nil [simp]: "str_nat n \<noteq> []" "[] \<noteq> str_nat n"
  by (subst str_nat.simps, simp)+

lemma str_nat_inject [simp]: "str_nat m = str_nat n \<longleftrightarrow> m = n"
proof
  show "str_nat m = str_nat n \<Longrightarrow> m = n"
  proof (induction m arbitrary: n rule: str_nat.induct)
    case (1 m)
    show ?case
    proof (cases "m < 10"; cases "n < 10")
      assume "m < 10" "n < 10"
      with "1.prems" show ?thesis
        by (simp add: str_nat.simps [of m] str_nat.simps [of n] decimal_inject del: char_of_eq_iff)
    next
      assume "m < 10" "\<not> n < 10"
      with "1.prems" show ?thesis
        by (simp add: str_nat.simps [of m] str_nat.simps [of n])
    next
      assume "\<not> m < 10" "n < 10"
      with "1.prems" show ?thesis
        by (simp add: str_nat.simps [of m] str_nat.simps [of n])
    next
      assume a: "\<not> m < 10" "\<not> n < 10"
      with "1.prems" have "str_nat (m div 10) = str_nat (n div 10)"
        "(char_of (48 + m mod 10) :: char) = char_of (48 + n mod 10)"
        by (simp_all add: str_nat.simps [of m] str_nat.simps [of n])
      with "1.IH" a(1) have "m div 10 = n div 10" "m mod 10 = n mod 10"
        by (auto simp: decimal_inject simp del: char_of_eq_iff)
      then show ?thesis by (metis div_mult_mod_eq)
    qed
  qed
qed simp

lemma colon_notin_str_nat [simp]: "CHR '':'' \<notin> set (str_nat n)"
proof (induction n rule: str_nat.induct)
  case (1 n)
  have *: "(char_of (48 + k) :: char) \<noteq> CHR '':''" if "k < 10" for k :: nat
  proof
    assume "(char_of (48 + k) :: char) = CHR '':''"
    then have "(of_char (char_of (48 + k) :: char) :: nat) = of_char (CHR '':'')"
      by (rule arg_cong)
    with that show False by (simp only: of_char_decimal [OF that]) simp
  qed
  show ?case
    using * [of n] * [of "n mod 10"] "1.IH"
    by (subst str_nat.simps) (auto simp: eq_commute [of "CHR '':''"] simp del: char_of_eq_iff)
qed

lemma colon_split_unique:
  assumes "a @ CHR '':'' # b = c @ CHR '':'' # d" "CHR '':'' \<notin> set a" "CHR '':'' \<notin> set c"
  shows "a = c \<and> b = d"
  using assms
proof (induction a arbitrary: c)
  case Nil
  then show ?case by (cases c) auto
next
  case (Cons x a)
  then show ?case by (cases c) auto
qed

subsection \<open>Dictionaries in insertion order\<close>

text \<open>
  A Python \<open>dict\<close> keeps its items in insertion order, and assigning to a key that is
  present keeps the item's place. That is \<open>AList.update\<close> on an association list with
  distinct keys; \<open>d.get(k)\<close> is \<open>map_of d k\<close> and \<open>d.pop(k, None)\<close> is
  \<open>AList.delete k d\<close>. The locale is the interface the components use: what a look-up
  returns after an update or a removal, and what both keep of the key order.
\<close>

type_synonym ('k, 'v) dict = "('k \<times> 'v) list"

definition dict_ok :: "('k, 'v) dict \<Rightarrow> bool" where
  "dict_ok d \<longleftrightarrow> distinct (map fst d)"

abbreviation dict_get :: "('k, 'v) dict \<Rightarrow> 'k \<Rightarrow> 'v option" where
  "dict_get d k \<equiv> map_of d k"

abbreviation dict_set :: "'k \<Rightarrow> 'v \<Rightarrow> ('k, 'v) dict \<Rightarrow> ('k, 'v) dict" where
  "dict_set \<equiv> AList.update"

abbreviation dict_pop :: "'k \<Rightarrow> ('k, 'v) dict \<Rightarrow> ('k, 'v) dict" where
  "dict_pop \<equiv> AList.delete"

definition dict_get_default :: "('k, 'v) dict \<Rightarrow> 'k \<Rightarrow> 'v \<Rightarrow> 'v" where
  \<comment> \<open>\<open>d.get(k, default)\<close>, and what \<open>d.setdefault(k, default)\<close> returns.\<close>
  "dict_get_default d k v = (case dict_get d k of None \<Rightarrow> v | Some w \<Rightarrow> w)"

locale dictionary =
  fixes empty :: 'd
    and get :: "'d \<Rightarrow> 'k \<Rightarrow> 'v option"
    and put :: "'k \<Rightarrow> 'v \<Rightarrow> 'd \<Rightarrow> 'd"
    and pop :: "'k \<Rightarrow> 'd \<Rightarrow> 'd"
    and ok :: "'d \<Rightarrow> bool"
  assumes get_empty: "get empty k = None"
    and get_put: "get (put k v d) = (get d)(k \<mapsto> v)"
    and get_pop: "get (pop k d) = (get d)(k := None)"
    and ok_empty: "ok empty"
    and ok_put: "ok d \<Longrightarrow> ok (put k v d)"
    and ok_pop: "ok d \<Longrightarrow> ok (pop k d)"
begin

lemma get_put_same: "get (put k v d) k = Some v"
  by (simp add: get_put)

lemma get_put_other: "k \<noteq> j \<Longrightarrow> get (put k v d) j = get d j"
  by (simp add: get_put)

lemma get_pop_Some: "get (pop k d) j = Some v \<Longrightarrow> j \<noteq> k \<and> get d j = Some v"
  by (auto simp: get_pop split: if_splits)

lemma dom_put: "dom (get (put k v d)) = insert k (dom (get d))"
  by (simp add: get_put)

lemma dom_pop: "dom (get (pop k d)) = dom (get d) - {k}"
  by (auto simp: get_pop split: if_splits)

lemma put_all_but:
  assumes "\<And>j w. j \<noteq> k \<Longrightarrow> get d j = Some w \<Longrightarrow> P j w" and "P k v"
  shows "get (put k v d) j = Some w \<Longrightarrow> P j w"
  using assms by (auto simp: get_put split: if_splits)

end

lemma dict_ok_update [simp, intro]: "dict_ok d \<Longrightarrow> dict_ok (dict_set k v d)"
  by (simp add: dict_ok_def distinct_update)

lemma dict_ok_delete [simp, intro]: "dict_ok d \<Longrightarrow> dict_ok (dict_pop k d)"
  by (simp add: dict_ok_def distinct_delete)

lemma dict_set_subset: "set (dict_set k v d) \<subseteq> insert (k, v) (set d)"
  by (induction d) auto

lemma dict_pop_subset: "set (dict_pop k d) \<subseteq> set d"
  by (simp add: AList.delete_eq)

lemma dict_ok_Nil [simp]: "dict_ok []"
  by (simp add: dict_ok_def)

interpretation pydict: dictionary "[]" map_of AList.update AList.delete dict_ok
  by unfold_locales (auto simp: update_conv' delete_conv')

lemmas [dict_simps] = pydict.get_put_same pydict.get_put_other pydict.get_put pydict.get_pop
  pydict.dom_put pydict.dom_pop

subsection \<open>Results\<close>

text \<open>
  An operation that can raise returns \<open>Inl\<close> of its error or \<open>Inr\<close> of its value.
  Chains of checks are written as the code's \<open>if\<close>s; \<open>res_bind\<close> passes a value on.
\<close>

definition res_bind :: "'e + 'a \<Rightarrow> ('a \<Rightarrow> 'e + 'b) \<Rightarrow> 'e + 'b" where
  "res_bind r f = (case r of Inl e \<Rightarrow> Inl e | Inr a \<Rightarrow> f a)"

definition is_ok :: "'e + 'a \<Rightarrow> bool" where
  "is_ok r = (case r of Inl _ \<Rightarrow> False | Inr _ \<Rightarrow> True)"

fun res_map :: "('a \<Rightarrow> 'e + 'b) \<Rightarrow> 'a list \<Rightarrow> 'e + 'b list" where
  \<comment> \<open>A list comprehension whose element expression can raise.\<close>
  "res_map f [] = Inr []"
| "res_map f (x # xs) =
     (case f x of Inl e \<Rightarrow> Inl e
      | Inr y \<Rightarrow> (case res_map f xs of Inl e \<Rightarrow> Inl e | Inr ys \<Rightarrow> Inr (y # ys)))"

lemma res_bind_simps [simp, result_simps]:
  "res_bind (Inl e) f = Inl e" "res_bind (Inr a) f = f a"
  by (simp_all add: res_bind_def)

lemma is_ok_simps [simp, result_simps]: "\<not> is_ok (Inl e)" "is_ok (Inr a)"
  by (simp_all add: is_ok_def)

lemma res_bind_Inr [result_simps]: "res_bind r f = Inr b \<longleftrightarrow> (\<exists>a. r = Inr a \<and> f a = Inr b)"
  by (cases r) simp_all

lemma res_bind_Inl [result_simps]:
  "res_bind r f = Inl e \<longleftrightarrow> r = Inl e \<or> (\<exists>a. r = Inr a \<and> f a = Inl e)"
  by (cases r) simp_all

lemma is_ok_iff: "is_ok r \<longleftrightarrow> (\<exists>a. r = Inr a)"
  by (cases r) simp_all

lemma if_Inl_Inr: "(if c then Inl e else r) = Inr s \<longleftrightarrow> \<not> c \<and> r = Inr s"
  by simp

lemma case_sum_Inr: "(case x of Inl e \<Rightarrow> Inl (f e) | Inr y \<Rightarrow> g y) = Inr s \<longleftrightarrow> (\<exists>y. x = Inr y \<and> g y = Inr s)"
  by (cases x) simp_all

lemma case_sum_bool_Inr: "(case b of True \<Rightarrow> r | False \<Rightarrow> Inl e) = Inr s \<longleftrightarrow> b \<and> r = Inr s"
  by (cases b) simp_all

lemma case_option_Inr: "(case x of None \<Rightarrow> Inl e | Some y \<Rightarrow> g y) = Inr s \<longleftrightarrow> (\<exists>y. x = Some y \<and> g y = Inr s)"
  by (cases x) simp_all

lemma res_map_Inr [result_simps]: "res_map f xs = Inr ys \<longleftrightarrow> list_all2 (\<lambda>x y. f x = Inr y) xs ys"
proof (induction xs arbitrary: ys)
  case (Cons x xs)
  show ?case
    by (cases ys; cases "f x"; cases "res_map f xs") (auto simp flip: Cons.IH)
qed auto

lemma res_map_total: "(\<And>x. x \<in> set xs \<Longrightarrow> f x = Inr (g x)) \<Longrightarrow> res_map f xs = Inr (map g xs)"
  by (induction xs) simp_all

subsection \<open>The stable sort and neighbouring elements\<close>

fun adjacent_any :: "('a \<Rightarrow> 'a \<Rightarrow> bool) \<Rightarrow> 'a list \<Rightarrow> bool" where
  \<comment> \<open>The loop \<open>for i in range(len(xs) - 1): if P(xs[i], xs[i + 1])\<close>.\<close>
  "adjacent_any P (x # y # ys) = (P x y \<or> adjacent_any P (y # ys))"
| "adjacent_any P xs = False"

lemma sort_key_sorted [sort_simps]: "sorted (map f xs) \<Longrightarrow> sort_key f xs = xs"
proof (induction xs)
  case (Cons x xs)
  then have "sort_key f xs = xs" by simp
  moreover have "insort_key f x xs = x # xs"
    using Cons.prems by (cases xs) simp_all
  ultimately show ?case by simp
qed simp

lemma sort_key_idem [sort_simps]: "sort_key f (sort_key f xs) = sort_key f xs"
  by (rule sort_key_sorted) simp

lemma mset_eq_sort_key:
  assumes "mset xs = mset ys" "inj_on f (set xs)"
  shows "sort_key f xs = sort_key f ys"
proof (rule map_inj_on [of f])
  have "mset (map f (sort_key f xs)) = mset (map f (sort_key f ys))"
    using assms(1) by (simp add: image_mset.compositionality)
  then show "map f (sort_key f xs) = map f (sort_key f ys)"
    by (metis properties_for_sort sorted_sort_key)
  show "inj_on f (set (sort_key f xs) \<union> set (sort_key f ys))"
    using assms mset_eq_setD by fastforce
qed

lemma distinct_map_sort_key [sort_simps]: "distinct (map f (sort_key k xs)) = distinct (map f xs)"
  by (metis mset_eq_imp_distinct_iff mset_map mset_sort)

lemma map_sort_key_distinct: "distinct (map f xs) \<Longrightarrow> distinct (map f (sort_key f xs))"
  by (metis mset_eq_imp_distinct_iff mset_map mset_sort)

lemma sorted_distinct_strict:
  "sorted xs \<Longrightarrow> distinct xs \<Longrightarrow> sorted_wrt (<) xs"
  by (simp add: strict_sorted_iff)

end
