(* ===== verification/Values.thy ===== *)
theory Values
  imports Prelude
begin

section \<open>Value ranges (\<open>EZ_V2/values.py\<close>)\<close>

text \<open>
  A value is a closed range of unit indices. \<open>value_range\<close> is the frozen dataclass
  \<open>ValueRange\<close>; \<open>make_value_range\<close> is its constructor with the checks of
  \<open>__post_init__\<close>, and \<open>vr_ok\<close> says that they passed. \<open>vr_set\<close> is the set of
  units a range stands for, the abstract meaning against which the operations are specified.
\<close>

datatype value_range = ValueRange (vr_begin: int) (vr_end: int)

datatype value_error =
    NegativeValueRange
  | EndBeforeBegin
  | TargetNotContained

datatype local_value_status =
    VERIFIED_SPENDABLE
  | PENDING_BUNDLE
  | PENDING_CONFIRMATION
  | RECEIPT_PENDING
  | RECEIPT_MISSING
  | LOCKED_FOR_VERIFICATION
  | ARCHIVED

definition all_statuses :: "local_value_status list" where
  \<comment> \<open>The iteration order of \<open>for status in LocalValueStatus\<close>.\<close>
  "all_statuses = [VERIFIED_SPENDABLE, PENDING_BUNDLE, PENDING_CONFIRMATION, RECEIPT_PENDING,
     RECEIPT_MISSING, LOCKED_FOR_VERIFICATION, ARCHIVED]"

definition vr_ok :: "value_range \<Rightarrow> bool" where
  "vr_ok v \<longleftrightarrow> 0 \<le> vr_begin v \<and> vr_begin v \<le> vr_end v"

definition make_value_range :: "int \<Rightarrow> int \<Rightarrow> value_error + value_range" where
  "make_value_range b e =
     (if b < 0 \<or> e < 0 then Inl NegativeValueRange
      else if e < b then Inl EndBeforeBegin
      else Inr (ValueRange b e))"

definition vr_size :: "value_range \<Rightarrow> int" where
  "vr_size v = vr_end v - vr_begin v + 1"

definition vr_intersects :: "value_range \<Rightarrow> value_range \<Rightarrow> bool" where
  "vr_intersects v w \<longleftrightarrow> vr_begin v \<le> vr_end w \<and> vr_begin w \<le> vr_end v"

definition vr_contains_value :: "value_range \<Rightarrow> int \<Rightarrow> bool" where
  "vr_contains_value v n \<longleftrightarrow> vr_begin v \<le> n \<and> n \<le> vr_end v"

definition vr_contains_range :: "value_range \<Rightarrow> value_range \<Rightarrow> bool" where
  "vr_contains_range v w \<longleftrightarrow> vr_begin v \<le> vr_begin w \<and> vr_end w \<le> vr_end v"

definition vr_intersection :: "value_range \<Rightarrow> value_range \<Rightarrow> value_error + value_range option" where
  "vr_intersection v w =
     (if \<not> vr_intersects v w then Inr None
      else res_bind (make_value_range (max (vr_begin v) (vr_begin w)) (min (vr_end v) (vr_end w)))
             (\<lambda>x. Inr (Some x)))"

definition vr_split_out ::
    "value_range \<Rightarrow> value_range \<Rightarrow> value_error + (value_range \<times> value_range list)" where
  "vr_split_out v t =
     (if \<not> vr_contains_range v t then Inl TargetNotContained
      else
        res_bind
          (if vr_begin v < vr_begin t
           then res_bind (make_value_range (vr_begin v) (vr_begin t - 1)) (\<lambda>x. Inr [x])
           else Inr [])
          (\<lambda>left.
        res_bind
          (if vr_end t < vr_end v
           then res_bind (make_value_range (vr_end t + 1) (vr_end v)) (\<lambda>x. Inr [x])
           else Inr [])
          (\<lambda>right. Inr (t, left @ right))))"

subsection \<open>The order used for sorting\<close>

text \<open>The sort key \<open>(item.begin, item.end)\<close> of the code, and the linear order it gives.\<close>

definition vr_key :: "value_range \<Rightarrow> int \<times> int" where
  "vr_key v = (vr_begin v, vr_end v)"

lemma vr_key_inject [simp]: "vr_key v = vr_key w \<longleftrightarrow> v = w"
  by (cases v; cases w) (simp add: vr_key_def)

lemma inj_vr_key: "inj_on vr_key A"
  by (rule inj_onI) simp

instantiation value_range :: linorder
begin

definition less_eq_value_range :: "value_range \<Rightarrow> value_range \<Rightarrow> bool" where
  "v \<le> w \<longleftrightarrow> vr_key v \<le> vr_key w"

definition less_value_range :: "value_range \<Rightarrow> value_range \<Rightarrow> bool" where
  "v < w \<longleftrightarrow> vr_key v < vr_key w"

instance
  by standard (auto simp: less_eq_value_range_def less_value_range_def order.strict_iff_order [of "vr_key _"])

end

lemma sort_key_vr_key [sort_simps]: "sort_key vr_key vs = sort vs"
proof -
  have "insort_key vr_key x xs = insort x xs" for x xs
    by (induction xs) (simp_all add: less_eq_value_range_def)
  then show ?thesis
    by (induction vs) simp_all
qed

lemma le_vr_iff: "v \<le> w \<longleftrightarrow> vr_begin v < vr_begin w \<or> vr_begin v = vr_begin w \<and> vr_end v \<le> vr_end w"
  by (auto simp: less_eq_value_range_def vr_key_def)

subsection \<open>Ranges as sets of units\<close>

definition vr_set :: "value_range \<Rightarrow> int set" where
  "vr_set v = {vr_begin v..vr_end v}"

lemma mem_vr_set [simp]: "n \<in> vr_set v \<longleftrightarrow> vr_begin v \<le> n \<and> n \<le> vr_end v"
  by (simp add: vr_set_def)

lemma finite_vr_set [simp]: "finite (vr_set v)"
  by (simp add: vr_set_def)

lemma card_vr_set: "vr_ok v \<Longrightarrow> int (card (vr_set v)) = vr_size v"
  by (simp add: vr_set_def vr_ok_def vr_size_def)

lemma vr_size_pos: "vr_ok v \<Longrightarrow> 0 < vr_size v"
  by (simp add: vr_ok_def vr_size_def)

lemma vr_intersects_iff: "vr_ok v \<Longrightarrow> vr_ok w \<Longrightarrow> vr_intersects v w \<longleftrightarrow> vr_set v \<inter> vr_set w \<noteq> {}"
  by (auto simp: vr_intersects_def vr_ok_def vr_set_def)

lemma vr_intersects_sym: "vr_intersects v w \<longleftrightarrow> vr_intersects w v"
  by (auto simp: vr_intersects_def)

lemma vr_contains_range_iff: "vr_ok w \<Longrightarrow> vr_contains_range v w \<longleftrightarrow> vr_set w \<subseteq> vr_set v"
  by (auto simp: vr_contains_range_def vr_ok_def vr_set_def)

lemma vr_contains_value_iff: "vr_contains_value v n \<longleftrightarrow> n \<in> vr_set v"
  by (simp add: vr_contains_value_def)

lemma vr_contains_imp_intersects: "vr_ok w \<Longrightarrow> vr_contains_range v w \<Longrightarrow> vr_intersects v w"
  by (auto simp: vr_contains_range_def vr_ok_def vr_intersects_def)

lemma make_value_range_Inr [result_simps]:
  "make_value_range b e = Inr v \<longleftrightarrow> v = ValueRange b e \<and> vr_ok v"
  by (auto simp: make_value_range_def vr_ok_def)

lemma make_value_range_ok: "0 \<le> b \<Longrightarrow> b \<le> e \<Longrightarrow> make_value_range b e = Inr (ValueRange b e)"
  by (simp add: make_value_range_def)

lemma vr_set_inject: "vr_ok v \<Longrightarrow> vr_ok w \<Longrightarrow> vr_set v = vr_set w \<longleftrightarrow> v = w"
  by (cases v; cases w) (auto simp: vr_set_def vr_ok_def)

text \<open>\<open>ValueRange.intersection\<close> never raises on valid ranges, and what it returns is exactly
  the set of common units: nothing when there is none.
\<close>
theorem vr_intersection_exact:
  assumes "vr_ok v" "vr_ok w"
  shows "case vr_intersection v w of
      Inl e \<Rightarrow> False
    | Inr None \<Rightarrow> vr_set v \<inter> vr_set w = {}
    | Inr (Some x) \<Rightarrow> vr_ok x \<and> vr_set x = vr_set v \<inter> vr_set w"
proof (cases "vr_intersects v w")
  case True
  have "make_value_range (max (vr_begin v) (vr_begin w)) (min (vr_end v) (vr_end w))
      = Inr (ValueRange (max (vr_begin v) (vr_begin w)) (min (vr_end v) (vr_end w)))"
    using assms True by (intro make_value_range_ok) (auto simp: vr_ok_def vr_intersects_def)
  with assms True show ?thesis
    by (auto simp: vr_intersection_def vr_ok_def vr_intersects_def vr_set_def)
next
  case False
  with assms show ?thesis by (simp add: vr_intersection_def vr_intersects_iff)
qed

theorem vr_intersection_exact_witness:
  "vr_intersection (ValueRange 0 9) (ValueRange 5 20) = Inr (Some (ValueRange 5 9)) \<and>
   vr_set (ValueRange 5 9) = vr_set (ValueRange 0 9) \<inter> vr_set (ValueRange 5 20)"
proof -
  have ok: "vr_ok (ValueRange 0 9)" "vr_ok (ValueRange 5 20)" by (simp_all add: vr_ok_def)
  have i: "vr_intersection (ValueRange 0 9) (ValueRange 5 20) = Inr (Some (ValueRange 5 9))"
    by (simp add: vr_intersection_def vr_intersects_def make_value_range_def)
  from vr_intersection_exact [OF ok] i show ?thesis by simp
qed

text \<open>\<open>ValueRange.split_out\<close> succeeds exactly when the target lies inside the source; then
  target and remainders are valid ranges that partition the source, so no unit is lost,
  duplicated or created, and at most two remainders are left.
\<close>
theorem vr_split_out_partition:
  assumes "vr_ok v" "vr_ok t"
  shows "case vr_split_out v t of
      Inl e \<Rightarrow> \<not> vr_set t \<subseteq> vr_set v
    | Inr (x, rs) \<Rightarrow> x = t \<and> (\<forall>r\<in>set rs. vr_ok r) \<and> length rs \<le> 2 \<and>
        (\<Union>r\<in>set (t # rs). vr_set r) = vr_set v \<and>
        sorted_wrt (\<lambda>r s. vr_set r \<inter> vr_set s = {}) (t # rs) \<and>
        vr_size t + sum_list (map vr_size rs) = vr_size v"
proof (cases "vr_contains_range v t")
  case False
  with assms show ?thesis by (simp add: vr_split_out_def vr_contains_range_iff)
next
  case True
  have l: "vr_begin v < vr_begin t \<Longrightarrow>
      make_value_range (vr_begin v) (vr_begin t - 1) = Inr (ValueRange (vr_begin v) (vr_begin t - 1))"
    using assms by (intro make_value_range_ok) (auto simp: vr_ok_def)
  have r: "vr_end t < vr_end v \<Longrightarrow>
      make_value_range (vr_end t + 1) (vr_end v) = Inr (ValueRange (vr_end t + 1) (vr_end v))"
    using assms by (intro make_value_range_ok) (auto simp: vr_ok_def)
  show ?thesis
    using True assms
    by (cases "vr_begin v < vr_begin t"; cases "vr_end t < vr_end v")
       (auto simp: vr_split_out_def l r vr_contains_range_def vr_ok_def vr_set_def vr_size_def)
qed

theorem vr_split_out_partition_witness:
  "vr_split_out (ValueRange 0 9) (ValueRange 3 5) =
     Inr (ValueRange 3 5, [ValueRange 0 2, ValueRange 6 9]) \<and>
   vr_size (ValueRange 3 5) + sum_list (map vr_size [ValueRange 0 2, ValueRange 6 9])
     = vr_size (ValueRange 0 9)"
proof -
  have ok: "vr_ok (ValueRange 0 9)" "vr_ok (ValueRange 3 5)" by (simp_all add: vr_ok_def)
  have s: "vr_split_out (ValueRange 0 9) (ValueRange 3 5) =
      Inr (ValueRange 3 5, [ValueRange 0 2, ValueRange 6 9])"
    by (simp add: vr_split_out_def vr_contains_range_def make_value_range_def)
  from vr_split_out_partition [OF ok] s show ?thesis by simp
qed

end
