(* ===== verification/Types.thy ===== *)
theory Types
  imports Values
begin

section \<open>The protocol's data (\<open>EZ_V2/types.py\<close>)\<close>

text \<open>
  Every dataclass of \<open>types.py\<close> is a record with the class's fields in the class's order.
  Its \<open>__post_init__\<close> is a function \<open>..._init\<close> that returns the object or the error of
  the first check that fails. \<open>..._ok\<close> is what every object of the running program
  satisfies: its own checks and those of the objects inside it. \<open>WitnessV2\<close> refers to itself
  through its anchor, so it and the anchors are mutually recursive datatypes.
\<close>

datatype type_error =
    NotHash32
  | BadNumericField
  | MissingField
  | EmptyValueList
  | UnsortedValueList
  | OverlappingValues
  | TxCountMismatch
  | SidecarSenderMismatch
  | UnnormalizedClaimRanges
  | NotBinaryPrefix
  | KeyLengthMismatch
  | WrongProofForm
  | InvalidRange
  | DiffLengthMismatch

definition hash32 :: "bytes \<Rightarrow> bool" where
  "hash32 b \<longleftrightarrow> length b = 32"

definition hash32_opt :: "bytes option \<Rightarrow> bool" where
  "hash32_opt b = (case b of None \<Rightarrow> True | Some h \<Rightarrow> hash32 h)"

subsection \<open>Bundles\<close>

record bundle_ref =
  br_height :: int
  br_block_hash :: bytes
  br_bundle_hash :: bytes
  br_seq :: int

definition bundle_ref_init :: "bundle_ref \<Rightarrow> type_error + bundle_ref" where
  "bundle_ref_init r =
     (if \<not> hash32 (br_block_hash r) then Inl NotHash32
      else if \<not> hash32 (br_bundle_hash r) then Inl NotHash32
      else if br_height r < 0 \<or> br_seq r \<le> 0 then Inl BadNumericField
      else Inr r)"

definition bundle_ref_ok :: "bundle_ref \<Rightarrow> bool" where
  "bundle_ref_ok r \<longleftrightarrow> is_ok (bundle_ref_init r)"

record offchain_tx =
  tx_sender :: string
  tx_recipient :: string
  tx_values :: "value_range list"
  tx_local_index :: int
  tx_time :: int
  tx_extra :: bytes

definition offchain_tx_init :: "offchain_tx \<Rightarrow> type_error + offchain_tx" where
  "offchain_tx_init t =
     (if tx_sender t = [] \<or> tx_recipient t = [] then Inl MissingField
      else if tx_local_index t < 0 then Inl BadNumericField
      else if tx_values t = [] then Inl EmptyValueList
      else if sort_key vr_key (tx_values t) \<noteq> tx_values t then Inl UnsortedValueList
      else if adjacent_any vr_intersects (tx_values t) then Inl OverlappingValues
      else Inr t)"

definition offchain_tx_ok :: "offchain_tx \<Rightarrow> bool" where
  "offchain_tx_ok t \<longleftrightarrow> is_ok (offchain_tx_init t) \<and> list_all vr_ok (tx_values t)"

record bundle_envelope =
  env_version :: int
  env_chain_id :: int
  env_seq :: int
  env_expiry_height :: int
  env_fee :: int
  env_nonce :: int
  env_bundle_hash :: bytes
  env_claim_set_hash :: "bytes option"
  env_sig :: bytes

definition bundle_envelope_init :: "bundle_envelope \<Rightarrow> type_error + bundle_envelope" where
  "bundle_envelope_init e =
     (if \<not> hash32 (env_bundle_hash e) then Inl NotHash32
      else if \<not> hash32_opt (env_claim_set_hash e) then Inl NotHash32
      else if env_version e < 0 \<or> env_chain_id e < 0 \<or> env_seq e \<le> 0 then Inl BadNumericField
      else if env_expiry_height e < 0 \<or> env_fee e < 0 \<or> env_nonce e < 0 then Inl BadNumericField
      else Inr e)"

definition bundle_envelope_ok :: "bundle_envelope \<Rightarrow> bool" where
  "bundle_envelope_ok e \<longleftrightarrow> is_ok (bundle_envelope_init e)"

definition with_signature :: "bundle_envelope \<Rightarrow> bytes \<Rightarrow> bundle_envelope" where
  "with_signature e s = e\<lparr>env_sig := s\<rparr>"

record bundle_sidecar =
  sc_sender :: string
  sc_txs :: "offchain_tx list"
  sc_tx_count :: int

definition bundle_sidecar_init :: "bundle_sidecar \<Rightarrow> type_error + bundle_sidecar" where
  "bundle_sidecar_init s =
     (if sc_sender s = [] then Inl MissingField
      else
        let s' = (if sc_tx_count s = 0 then s\<lparr>sc_tx_count := int (length (sc_txs s))\<rparr> else s)
        in if sc_tx_count s' \<noteq> int (length (sc_txs s')) then Inl TxCountMismatch
           else if \<exists>t\<in>set (sc_txs s'). tx_sender t \<noteq> sc_sender s' then Inl SidecarSenderMismatch
           else Inr s')"

definition bundle_sidecar_ok :: "bundle_sidecar \<Rightarrow> bool" where
  "bundle_sidecar_ok s \<longleftrightarrow> bundle_sidecar_init s = Inr s \<and> list_all offchain_tx_ok (sc_txs s)"

record bundle_submission =
  sub_envelope :: bundle_envelope
  sub_sidecar :: bundle_sidecar
  sub_pubkey :: bytes

definition bundle_submission_ok :: "bundle_submission \<Rightarrow> bool" where
  "bundle_submission_ok s \<longleftrightarrow> bundle_envelope_ok (sub_envelope s) \<and> bundle_sidecar_ok (sub_sidecar s)"

record pending_bundle_context =
  pbc_sender :: string
  pbc_bundle_hash :: bytes
  pbc_seq :: int
  pbc_envelope :: bundle_envelope
  pbc_sidecar :: bundle_sidecar
  pbc_pubkey :: bytes
  pbc_pending_ids :: "string list"
  pbc_outgoing_ids :: "string list"
  pbc_outgoing_values :: "value_range list"
  pbc_created_at :: int

definition pending_bundle_context_init ::
    "pending_bundle_context \<Rightarrow> type_error + pending_bundle_context" where
  "pending_bundle_context_init c =
     (if pbc_sender c = [] then Inl MissingField
      else if \<not> hash32 (pbc_bundle_hash c) then Inl NotHash32
      else if pbc_seq c \<le> 0 then Inl BadNumericField
      else Inr c)"

subsection \<open>Account leaves and their proofs\<close>

record account_leaf =
  leaf_addr :: string
  leaf_head_ref :: "bundle_ref option"
  leaf_prev_ref :: "bundle_ref option"
  leaf_claim_set_hash :: "bytes option"

definition account_leaf_init :: "account_leaf \<Rightarrow> type_error + account_leaf" where
  "account_leaf_init l =
     (if leaf_addr l = [] then Inl MissingField
      else if \<not> hash32_opt (leaf_claim_set_hash l) then Inl NotHash32
      else Inr l)"

definition account_leaf_ok :: "account_leaf \<Rightarrow> bool" where
  "account_leaf_ok l \<longleftrightarrow> is_ok (account_leaf_init l) \<and>
     pred_option bundle_ref_ok (leaf_head_ref l) \<and> pred_option bundle_ref_ok (leaf_prev_ref l)"

record diff_entry =
  de_addr_key :: bytes
  de_new_leaf :: account_leaf
  de_envelope :: bundle_envelope
  de_bundle_hash :: bytes

definition diff_entry_init :: "diff_entry \<Rightarrow> type_error + diff_entry" where
  "diff_entry_init d =
     (if \<not> hash32 (de_addr_key d) then Inl NotHash32
      else if \<not> hash32 (de_bundle_hash d) then Inl NotHash32
      else Inr d)"

definition diff_entry_ok :: "diff_entry \<Rightarrow> bool" where
  "diff_entry_ok d \<longleftrightarrow> is_ok (diff_entry_init d) \<and> account_leaf_ok (de_new_leaf d) \<and>
     bundle_envelope_ok (de_envelope d)"

record smt_proof =
  pf_siblings :: "bytes list"
  pf_existence :: bool

definition smt_proof_init :: "smt_proof \<Rightarrow> type_error + smt_proof" where
  "smt_proof_init p = (if list_all hash32 (pf_siblings p) then Inr p else Inl NotHash32)"

definition smt_proof_ok :: "smt_proof \<Rightarrow> bool" where
  "smt_proof_ok p \<longleftrightarrow> is_ok (smt_proof_init p)"

record claim_range_set =
  crs_ranges :: "value_range list"

definition claim_range_set_init :: "claim_range_set \<Rightarrow> type_error + claim_range_set" where
  "claim_range_set_init c =
     (if adjacent_any (\<lambda>previous item. vr_begin item \<le> vr_end previous + 1) (crs_ranges c)
      then Inl UnnormalizedClaimRanges else Inr c)"

definition claim_range_set_ok :: "claim_range_set \<Rightarrow> bool" where
  "claim_range_set_ok c \<longleftrightarrow> is_ok (claim_range_set_init c) \<and> list_all vr_ok (crs_ranges c)"

record multiproof_node =
  mn_prefix :: string
  mn_hash :: bytes

definition multiproof_node_init :: "multiproof_node \<Rightarrow> type_error + multiproof_node" where
  "multiproof_node_init n =
     (if \<exists>b\<in>set (mn_prefix n). b \<noteq> CHR ''0'' \<and> b \<noteq> CHR ''1'' then Inl NotBinaryPrefix
      else if \<not> hash32 (mn_hash n) then Inl NotHash32
      else Inr n)"

record multiproof =
  mp_depth :: nat
  mp_keys :: "bytes list"
  mp_nodes :: "multiproof_node list"

definition multiproof_init :: "multiproof \<Rightarrow> type_error + multiproof" where
  "multiproof_init m =
     (if mp_depth m \<le> 0 then Inl BadNumericField
      else if \<exists>k\<in>set (mp_keys m). length k * 8 \<noteq> mp_depth m then Inl KeyLengthMismatch
      else Inr m)"

subsection \<open>Receipts\<close>

record receipt_proof_batch =
  rpb_batch_id :: string
  rpb_state_root :: bytes
  rpb_multi_proof :: multiproof

definition receipt_proof_batch_init :: "receipt_proof_batch \<Rightarrow> type_error + receipt_proof_batch" where
  "receipt_proof_batch_init b =
     (if rpb_batch_id b = [] then Inl MissingField
      else if \<not> hash32 (rpb_state_root b) then Inl NotHash32
      else Inr b)"

record receipt_proof_ref =
  rpr_batch_id :: string
  rpr_key :: bytes

definition receipt_proof_ref_init :: "receipt_proof_ref \<Rightarrow> type_error + receipt_proof_ref" where
  "receipt_proof_ref_init r =
     (if rpr_batch_id r = [] then Inl MissingField
      else if \<not> hash32 (rpr_key r) then Inl NotHash32
      else Inr r)"

record header_lite =
  hl_height :: int
  hl_block_hash :: bytes
  hl_state_root :: bytes

definition header_lite_init :: "header_lite \<Rightarrow> type_error + header_lite" where
  "header_lite_init h =
     (if hl_height h < 0 then Inl BadNumericField
      else if \<not> hash32 (hl_block_hash h) then Inl NotHash32
      else if \<not> hash32 (hl_state_root h) then Inl NotHash32
      else Inr h)"

definition header_lite_ok :: "header_lite \<Rightarrow> bool" where
  "header_lite_ok h \<longleftrightarrow> is_ok (header_lite_init h)"

record receipt =
  rc_header :: header_lite
  rc_seq :: int
  rc_prev_ref :: "bundle_ref option"
  rc_claim_set_hash :: "bytes option"
  rc_proof :: "smt_proof option"
  rc_batch_ref :: "receipt_proof_ref option"

definition receipt_init :: "receipt \<Rightarrow> type_error + receipt" where
  "receipt_init r =
     (if rc_seq r \<le> 0 then Inl BadNumericField
      else if \<not> hash32_opt (rc_claim_set_hash r) then Inl NotHash32
      else if (rc_proof r = None) = (rc_batch_ref r = None) then Inl WrongProofForm
      else Inr r)"

definition receipt_ok :: "receipt \<Rightarrow> bool" where
  "receipt_ok r \<longleftrightarrow> is_ok (receipt_init r) \<and> header_lite_ok (rc_header r) \<and>
     pred_option bundle_ref_ok (rc_prev_ref r) \<and> pred_option smt_proof_ok (rc_proof r)"

record confirmed_unit =
  cu_receipt :: receipt
  cu_sidecar :: bundle_sidecar

definition confirmed_unit_ok :: "confirmed_unit \<Rightarrow> bool" where
  "confirmed_unit_ok u \<longleftrightarrow> receipt_ok (cu_receipt u) \<and> bundle_sidecar_ok (cu_sidecar u)"

subsection \<open>Witnesses\<close>

record checkpoint =
  cp_value_begin :: int
  cp_value_end :: int
  cp_owner :: string
  cp_height :: int
  cp_block_hash :: bytes
  cp_bundle_hash :: bytes

definition checkpoint_init :: "checkpoint \<Rightarrow> type_error + checkpoint" where
  "checkpoint_init c =
     (if cp_value_begin c < 0 \<or> cp_value_end c < cp_value_begin c then Inl InvalidRange
      else if cp_owner c = [] then Inl MissingField
      else if cp_height c < 0 then Inl BadNumericField
      else if \<not> hash32 (cp_block_hash c) then Inl NotHash32
      else if \<not> hash32 (cp_bundle_hash c) then Inl NotHash32
      else Inr c)"

definition checkpoint_matches :: "checkpoint \<Rightarrow> value_range \<Rightarrow> string \<Rightarrow> bool" where
  "checkpoint_matches c v owner \<longleftrightarrow>
     cp_owner c = owner \<and> cp_value_begin c = vr_begin v \<and> cp_value_end c = vr_end v"

record genesis_anchor =
  ga_block_hash :: bytes
  ga_owner :: string
  ga_value_begin :: int
  ga_value_end :: int

definition genesis_anchor_init :: "genesis_anchor \<Rightarrow> type_error + genesis_anchor" where
  "genesis_anchor_init g =
     (if \<not> hash32 (ga_block_hash g) then Inl NotHash32
      else if ga_owner g = [] then Inl MissingField
      else if ga_value_end g < ga_value_begin g then Inl InvalidRange
      else Inr g)"

datatype witness =
    WitnessV2 (w_value: value_range) (w_owner: string) (w_chain: "confirmed_unit list") (w_anchor: anchor)
and anchor =
    GenesisAnchor genesis_anchor
  | CheckpointAnchor checkpoint
  | PriorWitnessLink offchain_tx witness

record transfer_package =
  tp_target_tx :: offchain_tx
  tp_target_value :: value_range
  tp_witness :: witness

record local_value_record =
  lvr_id :: string
  lvr_value :: value_range
  lvr_witness :: witness
  lvr_status :: local_value_status
  lvr_height :: int

datatype response_status = ResponseOk | ResponseMissing

record receipt_response =
  rr_status :: response_status
  rr_receipt :: "receipt option"
  rr_proof_batch :: "receipt_proof_batch option"

subsection \<open>Blocks\<close>

record block_header =
  bh_version :: int
  bh_chain_id :: int
  bh_height :: int
  bh_prev_block_hash :: bytes
  bh_state_root :: bytes
  bh_diff_root :: bytes
  bh_timestamp :: int
  bh_proposer_sig :: bytes
  bh_consensus_extra :: bytes

definition block_header_init :: "block_header \<Rightarrow> type_error + block_header" where
  "block_header_init h =
     (if bh_version h < 0 \<or> bh_chain_id h < 0 \<or> bh_height h < 0 \<or> bh_timestamp h < 0
      then Inl BadNumericField
      else if \<not> hash32 (bh_prev_block_hash h) then Inl NotHash32
      else if \<not> hash32 (bh_state_root h) then Inl NotHash32
      else if \<not> hash32 (bh_diff_root h) then Inl NotHash32
      else Inr h)"

record diff_package =
  dp_entries :: "diff_entry list"
  dp_sidecars :: "bundle_sidecar list"
  dp_pubkeys :: "bytes list"

definition diff_package_init :: "diff_package \<Rightarrow> type_error + diff_package" where
  "diff_package_init d =
     (if length (dp_entries d) \<noteq> length (dp_sidecars d) then Inl DiffLengthMismatch
      else if dp_pubkeys d \<noteq> [] \<and> length (dp_pubkeys d) \<noteq> length (dp_entries d)
      then Inl DiffLengthMismatch
      else Inr d)"

record block =
  blk_hash :: bytes
  blk_header :: block_header
  blk_diff :: diff_package

definition block_init :: "block \<Rightarrow> type_error + block" where
  "block_init b = (if \<not> hash32 (blk_hash b) then Inl NotHash32 else Inr b)"

definition block_ok :: "block \<Rightarrow> bool" where
  "block_ok b \<longleftrightarrow> is_ok (block_init b) \<and> is_ok (block_header_init (blk_header b)) \<and>
     is_ok (diff_package_init (blk_diff b)) \<and> list_all diff_entry_ok (dp_entries (blk_diff b)) \<and>
     list_all bundle_sidecar_ok (dp_sidecars (blk_diff b))"

subsection \<open>What the checks give\<close>

lemma bundle_ref_ok_iff:
  "bundle_ref_ok r \<longleftrightarrow> hash32 (br_block_hash r) \<and> hash32 (br_bundle_hash r) \<and> 0 \<le> br_height r \<and> 0 < br_seq r"
  by (auto simp: bundle_ref_ok_def bundle_ref_init_def)

lemma bundle_envelope_ok_iff:
  "bundle_envelope_ok e \<longleftrightarrow> hash32 (env_bundle_hash e) \<and> hash32_opt (env_claim_set_hash e) \<and>
     0 \<le> env_version e \<and> 0 \<le> env_chain_id e \<and> 0 < env_seq e \<and>
     0 \<le> env_expiry_height e \<and> 0 \<le> env_fee e \<and> 0 \<le> env_nonce e"
  by (auto simp: bundle_envelope_ok_def bundle_envelope_init_def)

lemma bundle_sidecar_ok_iff:
  "bundle_sidecar_ok s \<longleftrightarrow> sc_sender s \<noteq> [] \<and> sc_tx_count s = int (length (sc_txs s)) \<and>
     (\<forall>t\<in>set (sc_txs s). tx_sender t = sc_sender s \<and> offchain_tx_ok t)"
  by (cases s) (auto simp: bundle_sidecar_ok_def bundle_sidecar_init_def Let_def list_all_iff)

text \<open>
  The loop over neighbours in \<open>OffChainTx.__post_init__\<close> is enough: in a sorted list of valid
  ranges, if no two neighbours overlap then no two ranges overlap at all.
\<close>

lemma sorted_adjacent_disjoint:
  assumes "sorted vs" "\<not> adjacent_any vr_intersects vs" "list_all vr_ok vs"
  shows "sorted_wrt (\<lambda>v w. vr_end v < vr_begin w) vs"
  using assms
proof (induction vs rule: induct_list012)
  case (3 v w vs)
  then have s: "sorted_wrt (\<lambda>v w. vr_end v < vr_begin w) (w # vs)" by simp
  from 3 have "v \<le> w" "\<not> vr_intersects v w" "vr_ok v" "vr_ok w" by simp_all
  then have vw: "vr_end v < vr_begin w"
    by (auto simp: le_vr_iff vr_intersects_def vr_ok_def)
  have "vr_end v < vr_begin x" if "x \<in> set vs" for x
    using that s vw \<open>vr_ok w\<close> by (fastforce simp: vr_ok_def)
  with s vw show ?case by simp
qed simp_all

lemma offchain_tx_ok_disjoint:
  assumes "offchain_tx_ok t"
  shows "sorted_wrt (\<lambda>v w. vr_end v < vr_begin w) (tx_values t)"
proof -
  from assms have "sort (tx_values t) = tx_values t" "\<not> adjacent_any vr_intersects (tx_values t)"
    "list_all vr_ok (tx_values t)"
    by (auto simp: offchain_tx_ok_def offchain_tx_init_def sort_simps split: if_splits)
  then show ?thesis
    by (metis sorted_adjacent_disjoint sorted_sort)
qed

lemma gaps_imp_disjoint:
  "sorted_wrt (\<lambda>v w. vr_end v < vr_begin w) vs \<Longrightarrow> sorted_wrt (\<lambda>v w. vr_set v \<inter> vr_set w = {}) vs"
  by (induction vs) (auto simp: vr_set_def)

end
