(* ===== verification/Crypto.thy ===== *)
theory Crypto
  imports Types
begin

section \<open>Hashes, DER signatures and addresses (\<open>EZ_V2/crypto.py\<close>)\<close>

text \<open>
  The primitives the code calls outside this repository are the fields of one record: keccak-256
  (pycryptodome or OpenSSL), SHA-256, PBKDF2 and base64 (C code behind \<open>hashlib\<close> and
  \<open>binascii\<close>), and the \<open>openssl pkeyutl\<close> subprocess that signs and verifies. Every
  definition that uses one takes the record as its first argument. What the repository itself
  implements on top is modelled in full: the DER reader and writer, low-s normalisation, the PEM
  reader and the derivation of addresses and private keys.
\<close>

record crypto =
  keccak256 :: "bytes \<Rightarrow> bytes"
  sha256 :: "bytes \<Rightarrow> bytes"
  pbkdf2 :: "bytes \<Rightarrow> bytes \<Rightarrow> bytes"
  b64decode :: "bytes \<Rightarrow> bytes option"
  b64encode :: "bytes \<Rightarrow> bytes"
  openssl_sign :: "bytes \<Rightarrow> bytes \<Rightarrow> bytes"
  openssl_verify :: "bytes \<Rightarrow> bytes \<Rightarrow> bytes \<Rightarrow> bool"

text \<open>The documented output size of the two hash functions: 32 bytes.\<close>

definition digests32 :: "crypto \<Rightarrow> bool" where
  "digests32 C \<longleftrightarrow> (\<forall>x. length (keccak256 C x) = 32) \<and> (\<forall>x. length (sha256 C x) = 32)"

lemma keccak_length: "digests32 C \<Longrightarrow> length (keccak256 C x) = 32"
  by (simp add: digests32_def)

lemma keccak_hash32: "digests32 C \<Longrightarrow> hash32 (keccak256 C x)"
  by (simp add: digests32_def hash32_def)

definition SECP256K1_ORDER :: nat where
  "SECP256K1_ORDER = 0xFFFFFFFFFFFFFFFFFFFFFFFFFFFFFFFEBAAEDCE6AF48A03BBFD25E8CD0364141"

definition LOW_S_MAX :: nat where
  "LOW_S_MAX = SECP256K1_ORDER div 2"

datatype crypto_error =
    DerValueError
  | DerIndexError
  | DerOverflowError
  | InvalidPem
  | Base64Error
  | DigestLength

subsection \<open>Reading DER\<close>

definition byte_at :: "bytes \<Rightarrow> nat \<Rightarrow> crypto_error + nat" where
  \<comment> \<open>\<open>data[i]\<close> for a non-negative index: IndexError past the end.\<close>
  "byte_at b i = (if i < length b then Inr (unat (b ! i)) else Inl DerIndexError)"

definition slice :: "bytes \<Rightarrow> nat \<Rightarrow> nat \<Rightarrow> bytes" where
  \<comment> \<open>\<open>data[i:i + n]\<close>: a slice stops at the end without an error.\<close>
  "slice b i n = take n (drop i b)"

definition der_read_length :: "bytes \<Rightarrow> nat \<Rightarrow> crypto_error + (nat \<times> nat)" where
  "der_read_length data offset =
     (if offset \<ge> length data then Inl DerValueError
      else
        let first = unat (data ! offset); offset = offset + 1
        in if first < 0x80 then Inr (first, offset)
           else
             let octets = first mod 128
             in if octets = 0 \<or> offset + octets > length data then Inl DerValueError
                else Inr (from_bytes (slice data offset octets), offset + octets))"

definition parse_ecdsa_der :: "bytes \<Rightarrow> crypto_error + (nat \<times> nat)" where
  "parse_ecdsa_der signature =
     (if length signature < 8 \<or> signature ! 0 \<noteq> 0x30 then Inl DerValueError
      else
        res_bind (der_read_length signature 1) (\<lambda>(seq_len, offset).
        if offset + seq_len \<noteq> length signature then Inl DerValueError
        else
        res_bind (byte_at signature offset) (\<lambda>tag.
        if tag \<noteq> 0x02 then Inl DerValueError
        else
        res_bind (der_read_length signature (offset + 1)) (\<lambda>(r_len, offset).
        let r = from_bytes (slice signature offset r_len); offset = offset + r_len
        in
        res_bind (byte_at signature offset) (\<lambda>tag.
        if tag \<noteq> 0x02 then Inl DerValueError
        else
        res_bind (der_read_length signature (offset + 1)) (\<lambda>(s_len, offset).
        let s = from_bytes (slice signature offset s_len); offset = offset + s_len
        in if offset \<noteq> length signature then Inl DerValueError
           else Inr (r, s)))))))"

subsection \<open>Writing DER\<close>

definition der_encode_length :: "nat \<Rightarrow> bytes" where
  "der_encode_length n =
     (if n < 0x80 then [word_of_nat n]
      else let raw = be_bytes ((bit_length n + 7) div 8) n
           in word_of_nat (128 + length raw) # raw)"

definition encode_der_integer :: "nat \<Rightarrow> bytes" where
  "encode_der_integer v =
     (let raw = be_bytes (max 1 ((bit_length v + 7) div 8)) v;
          raw = (if unat (raw ! 0) \<ge> 128 then 0 # raw else raw)
      in 0x02 # der_encode_length (length raw) @ raw)"

definition encode_ecdsa_der :: "nat \<Rightarrow> nat \<Rightarrow> bytes" where
  "encode_ecdsa_der r s =
     (let body = encode_der_integer r @ encode_der_integer s
      in 0x30 # der_encode_length (length body) @ body)"

definition encode_octet_string :: "bytes \<Rightarrow> bytes" where
  "encode_octet_string d = 0x04 # der_encode_length (length d) @ d"

definition encode_sequence :: "bytes list \<Rightarrow> bytes" where
  "encode_sequence parts = (let body = concat parts in 0x30 # der_encode_length (length body) @ body)"

definition encode_explicit :: "nat \<Rightarrow> bytes \<Rightarrow> bytes" where
  "encode_explicit tag payload = word_of_nat (0xA0 + tag) # der_encode_length (length payload) @ payload"

subsection \<open>Low-s signatures\<close>

text \<open>
  Above the group order \<open>ORDER - s\<close> is negative and \<open>to_bytes\<close> raises \<open>OverflowError\<close>.
\<close>

definition normalize_low_s :: "bytes \<Rightarrow> crypto_error + bytes" where
  "normalize_low_s signature =
     res_bind (parse_ecdsa_der signature) (\<lambda>(r, s).
     if s > SECP256K1_ORDER then Inl DerOverflowError
     else let s = (if s > LOW_S_MAX then SECP256K1_ORDER - s else s)
          in Inr (encode_ecdsa_der r s))"

definition is_low_s_signature :: "bytes \<Rightarrow> crypto_error + bool" where
  "is_low_s_signature signature =
     res_bind (parse_ecdsa_der signature) (\<lambda>(_, s). Inr (0 < s \<and> s \<le> LOW_S_MAX))"

definition sign_digest_secp256k1 :: "crypto \<Rightarrow> bytes \<Rightarrow> bytes \<Rightarrow> crypto_error + bytes" where
  "sign_digest_secp256k1 C private_key digest =
     (if length digest \<noteq> 32 then Inl DigestLength
      else normalize_low_s (openssl_sign C private_key digest))"

definition sign_message_secp256k1 :: "crypto \<Rightarrow> bytes \<Rightarrow> bytes \<Rightarrow> bytes \<Rightarrow> crypto_error + bytes" where
  "sign_message_secp256k1 C private_key message domain =
     sign_digest_secp256k1 C private_key (sha256 C (domain @ message))"

text \<open>
  \<open>except ValueError\<close> catches the reader's own errors; an \<open>IndexError\<close> of the reader is not
  a \<open>ValueError\<close> and leaves the function.
\<close>

definition verify_digest_secp256k1 :: "crypto \<Rightarrow> bytes \<Rightarrow> bytes \<Rightarrow> bytes \<Rightarrow> crypto_error + bool" where
  "verify_digest_secp256k1 C public_key digest signature =
     (if length digest \<noteq> 32 then Inr False
      else
        case is_low_s_signature signature of
          Inl DerIndexError \<Rightarrow> Inl DerIndexError
        | Inl _ \<Rightarrow> Inr False
        | Inr False \<Rightarrow> Inr False
        | Inr True \<Rightarrow> Inr (openssl_verify C public_key digest signature))"

definition verify_message_secp256k1 ::
    "crypto \<Rightarrow> bytes \<Rightarrow> bytes \<Rightarrow> bytes \<Rightarrow> bytes \<Rightarrow> crypto_error + bool" where
  "verify_message_secp256k1 C public_key message signature domain =
     verify_digest_secp256k1 C public_key (sha256 C (domain @ message)) signature"

subsection \<open>PEM keys and addresses\<close>

definition is_space :: "byte \<Rightarrow> bool" where
  "is_space x \<longleftrightarrow> x \<in> {0x20, 0x09, 0x0A, 0x0D, 0x0B, 0x0C}"

definition strip_bytes :: "bytes \<Rightarrow> bytes" where
  "strip_bytes b = rev (dropWhile is_space (rev (dropWhile is_space b)))"

fun splitlines_from :: "bytes \<Rightarrow> bytes \<Rightarrow> bytes list" where
  "splitlines_from cur [] = (if cur = [] then [] else [cur])"
| "splitlines_from cur (x # xs) =
     (if x = 0x0A then cur # splitlines_from [] xs
      else if x = 0x0D then
        cur # (case xs of y # ys \<Rightarrow> if y = 0x0A then splitlines_from [] ys else splitlines_from [] xs
               | [] \<Rightarrow> [])
      else splitlines_from (cur @ [x]) xs)"

definition startswith :: "bytes \<Rightarrow> bytes \<Rightarrow> bool" where
  "startswith b p \<longleftrightarrow> take (length p) b = p"

definition pem_to_der :: "crypto \<Rightarrow> bytes \<Rightarrow> crypto_error + bytes" where
  "pem_to_der C pem =
     (let lines = filter (\<lambda>line. \<not> (line = [] \<or> startswith line (ascii ''-----'')))
                    (map strip_bytes (splitlines_from [] (strip_bytes pem)))
      in if lines = [] then Inl InvalidPem
         else case b64decode C (concat lines) of None \<Rightarrow> Inl Base64Error | Some d \<Rightarrow> Inr d)"

definition last_bytes :: "nat \<Rightarrow> bytes \<Rightarrow> bytes" where
  "last_bytes n b = drop (length b - n) b"

definition address_from_public_key_pem :: "crypto \<Rightarrow> bytes \<Rightarrow> crypto_error + string" where
  "address_from_public_key_pem C pem =
     res_bind (pem_to_der C pem) (\<lambda>der. Inr (''0x'' @ hex (last_bytes 20 (keccak256 C der))))"

fun chunks :: "nat \<Rightarrow> 'a list \<Rightarrow> 'a list list" where
  "chunks 0 xs = []"
| "chunks (Suc n) [] = []"
| "chunks (Suc n) xs = take (Suc n) xs # chunks (Suc n) (drop (Suc n) xs)"

fun join_bytes :: "bytes \<Rightarrow> bytes list \<Rightarrow> bytes" where
  "join_bytes sep [] = []"
| "join_bytes sep [b] = b"
| "join_bytes sep (b # bs) = b @ sep @ join_bytes sep bs"

definition pem_wrap :: "crypto \<Rightarrow> string \<Rightarrow> bytes \<Rightarrow> bytes" where
  "pem_wrap C label der =
     (let encoded = filter (\<lambda>x. x \<noteq> 0x0A) (b64encode C der);
          body = join_bytes [0x0A] (chunks 64 encoded)
      in ascii ''-----BEGIN '' @ ascii label @ ascii ''-----'' @ [0x0A] @ body @ [0x0A]
         @ ascii ''-----END '' @ ascii label @ ascii ''-----'' @ [0x0A])"

definition SECP256K1_OID_DER :: bytes where
  "SECP256K1_OID_DER = [0x06, 0x05, 0x2B, 0x81, 0x04, 0x00, 0x0A]"

definition seed_from_mnemonic :: "crypto \<Rightarrow> string \<Rightarrow> string \<Rightarrow> bytes" where
  "seed_from_mnemonic C mnemonic passphrase =
     pbkdf2 C (utf8 mnemonic) (utf8 (''ezchain-v2-mnemonic-'' @ passphrase))"

definition secret_from_seed :: "bytes \<Rightarrow> nat" where
  "secret_from_seed seed = from_bytes seed mod (SECP256K1_ORDER - 1) + 1"

definition derive_private_key_pem :: "crypto \<Rightarrow> string \<Rightarrow> string \<Rightarrow> bytes" where
  "derive_private_key_pem C mnemonic passphrase =
     (let secret = secret_from_seed (seed_from_mnemonic C mnemonic passphrase);
          der = encode_sequence [encode_der_integer 1, encode_octet_string (be_bytes 32 secret),
                  encode_explicit 0 SECP256K1_OID_DER]
      in pem_wrap C ''EC PRIVATE KEY'' der)"

subsection \<open>The DER reader inverts the DER writer\<close>

lemma unat_small: "n < 256 \<Longrightarrow> unat (word_of_nat n :: byte) = n"
  by (simp add: unat_of_nat take_bit_eq_mod)

lemma slice_middle: "slice (a @ b @ c) (length a) (length b) = b"
  by (simp add: slice_def)

lemma der_read_length_encode:
  assumes "(bit_length n + 7) div 8 < 128"
  shows "der_read_length (pre @ der_encode_length n @ rest) (length pre) =
    Inr (n, length pre + length (der_encode_length n))"
proof (cases "n < 0x80")
  case True
  then show ?thesis
    by (simp add: der_read_length_def der_encode_length_def nth_append unat_small)
next
  case False
  let ?k = "(bit_length n + 7) div 8"
  have k0: "?k \<noteq> 0"
    using False by (auto simp: bit_length.simps [of n])
  have b: "unat (word_of_nat (128 + ?k) :: byte) = 128 + ?k"
    using assms by (intro unat_small) simp
  have raw: "slice (pre @ word_of_nat (128 + ?k) # be_bytes ?k n @ rest) (length pre + 1) ?k = be_bytes ?k n"
    by (simp add: slice_def)
  have "from_bytes (be_bytes ?k n) = n"
    by (rule from_bytes_be_bytes) (rule bit_length_bytes)
  with False k0 b raw assms show ?thesis
    by (simp add: der_read_length_def der_encode_length_def nth_append Let_def del: of_nat_add)
qed

definition integer_raw :: "nat \<Rightarrow> bytes" where
  "integer_raw v =
     (let raw = be_bytes (max 1 ((bit_length v + 7) div 8)) v
      in if unat (raw ! 0) \<ge> 128 then 0 # raw else raw)"

lemma encode_der_integer_raw:
  "encode_der_integer v = 0x02 # der_encode_length (length (integer_raw v)) @ integer_raw v"
  by (simp add: encode_der_integer_def integer_raw_def Let_def)

lemma from_bytes_zero_prefix: "from_bytes (0 # b) = from_bytes b"
  by (simp add: from_bytes_def)

lemma from_bytes_integer_raw: "from_bytes (integer_raw v) = v"
proof -
  have "v < 256 ^ ((bit_length v + 7) div 8)" by (rule bit_length_bytes)
  also have "\<dots> \<le> 256 ^ max 1 ((bit_length v + 7) div 8)"
    by (intro power_increasing) simp_all
  finally show ?thesis
    by (simp add: integer_raw_def Let_def from_bytes_zero_prefix from_bytes_be_bytes)
qed

lemma length_integer_raw_pos: "0 < length (integer_raw v)"
  by (simp add: integer_raw_def Let_def less_max_iff_disj length_greater_0_conv [symmetric] del: length_greater_0_conv)

lemma length_integer_raw: "v < 2 ^ 256 \<Longrightarrow> length (integer_raw v) \<le> 33"
proof -
  assume "v < 2 ^ 256"
  then have "bit_length v \<le> 256" by (rule bit_length_le)
  then have "(bit_length v + 7) div 8 \<le> 32"
    using div_le_mono [of "bit_length v + 7" 263 8] by simp
  then show ?thesis by (simp add: integer_raw_def Let_def)
qed

lemma small_length_octets: "n < 256 \<Longrightarrow> (bit_length n + 7) div 8 < 128"
  using bit_length_le [of n 8] by simp

lemma length_der_encode_length: "length (der_encode_length n) \<ge> 1"
  by (simp add: der_encode_length_def Let_def)

lemma read_integer_at:
  assumes "data = pre @ encode_der_integer v @ rest" "length (integer_raw v) < 256"
  shows "byte_at data (length pre) = Inr 2"
    and "der_read_length data (length pre + 1) =
      Inr (length (integer_raw v), length (pre @ 0x02 # der_encode_length (length (integer_raw v))))"
    and "slice data (length (pre @ 0x02 # der_encode_length (length (integer_raw v)))) (length (integer_raw v))
      = integer_raw v"
proof -
  let ?l = "der_encode_length (length (integer_raw v))"
  have data: "data = (pre @ [0x02]) @ ?l @ integer_raw v @ rest"
    using assms(1) by (simp add: encode_der_integer_raw)
  show "byte_at data (length pre) = Inr 2"
    unfolding data by (simp add: byte_at_def nth_append)
  show "der_read_length data (length pre + 1) = Inr (length (integer_raw v), length (pre @ 0x02 # ?l))"
    using der_read_length_encode [of "length (integer_raw v)" "pre @ [0x02]" "integer_raw v @ rest"]
      small_length_octets [OF assms(2)] unfolding data by simp
  have "data = (pre @ 0x02 # ?l) @ integer_raw v @ rest"
    unfolding data by simp
  then show "slice data (length (pre @ 0x02 # ?l)) (length (integer_raw v)) = integer_raw v"
    by (simp only: slice_middle)
qed

lemma ecdsa_der_roundtrip_aux:
  assumes "r < 2 ^ 256" "s < 2 ^ 256"
  shows "parse_ecdsa_der (encode_ecdsa_der r s) = Inr (r, s)"
proof -
  let ?R = "encode_der_integer r" and ?S = "encode_der_integer s"
  let ?n = "length (?R @ ?S)"
  let ?pre = "0x30 # der_encode_length ?n"
  let ?d = "encode_ecdsa_der r s"
  have lr: "length (integer_raw r) \<le> 33" and ls: "length (integer_raw s) \<le> 33"
    using assms by (simp_all add: length_integer_raw)
  then have lR: "length ?R = length (integer_raw r) + 2" "length ?S = length (integer_raw s) + 2"
    by (simp_all add: encode_der_integer_raw der_encode_length_def)
  moreover have "1 \<le> length (integer_raw r)" "1 \<le> length (integer_raw s)"
    using length_integer_raw_pos [of r] length_integer_raw_pos [of s] by linarith+
  ultimately have n: "?n < 256" "?n \<ge> 6"
    using lr ls by simp_all
  have d: "?d = [0x30] @ der_encode_length ?n @ ?R @ ?S"
    by (simp add: encode_ecdsa_der_def Let_def)
  then have d1: "?d = ?pre @ ?R @ ?S" and d2: "?d = (?pre @ ?R) @ ?S @ []" by simp_all
  have len: "length ?d = 1 + length (der_encode_length ?n) + ?n"
    by (simp add: d)
  have rl: "der_read_length ?d 1 = Inr (?n, length ?pre)"
    using der_read_length_encode [of ?n "[0x30]" "?R @ ?S"] small_length_octets [OF n(1)]
    by (simp add: d)
  have R: "length (?pre @ 0x02 # der_encode_length (length (integer_raw r))) + length (integer_raw r) = length (?pre @ ?R)"
    by (simp add: encode_der_integer_raw)
  have S: "length ((?pre @ ?R) @ 0x02 # der_encode_length (length (integer_raw s))) + length (integer_raw s) = length ?d"
    unfolding d by (simp add: encode_der_integer_raw)
  note ri = read_integer_at [OF d1] and si = read_integer_at [OF d2]
  have hd: "(length ?d < 8) = False" "?d ! 0 = 0x30"
    using len n length_der_encode_length [of ?n] by (simp_all add: d)
  have tot: "length ?pre + ?n = length ?d" using len by simp
  show ?thesis
    unfolding parse_ecdsa_der_def
    using hd lr ls tot
    by (simp only: rl ri si R S from_bytes_integer_raw res_bind_simps Let_def case_prod_conv
        if_False if_True simp_thms le_less_trans [of _ 33 256] numeral_less_iff)
qed

text \<open>
  \<open>parse_ecdsa_der\<close> reads back what \<open>encode_ecdsa_der\<close> writes, for all \<open>r\<close> and \<open>s\<close>
  below \<open>2 ^ 256\<close>, that is for every pair of secp256k1 scalars.
\<close>
theorem ecdsa_der_roundtrip:
  assumes "r < 2 ^ 256" "s < 2 ^ 256"
  shows "parse_ecdsa_der (encode_ecdsa_der r s) = Inr (r, s)"
  using assms by (rule ecdsa_der_roundtrip_aux)

theorem ecdsa_der_roundtrip_witness:
  "(200 :: nat) < 2 ^ 256 \<and> (7 :: nat) < 2 ^ 256 \<and>
   parse_ecdsa_der (encode_ecdsa_der 200 7) = Inr (200, 7)"
proof -
  have b: "(200 :: nat) < 2 ^ 256" "(7 :: nat) < 2 ^ 256" by simp_all
  from ecdsa_der_roundtrip [OF b] b show ?thesis by simp
qed

lemma order_bound: "SECP256K1_ORDER < 2 ^ 256" "0 < SECP256K1_ORDER"
  by (simp_all add: SECP256K1_ORDER_def)

lemma low_s_complement: "LOW_S_MAX < s \<Longrightarrow> s < SECP256K1_ORDER \<Longrightarrow>
    0 < SECP256K1_ORDER - s \<and> SECP256K1_ORDER - s \<le> LOW_S_MAX"
  unfolding LOW_S_MAX_def by (auto simp: SECP256K1_ORDER_def)

text \<open>Normalisation accepts every signature that parses to a scalar pair, and its result passes
  the low-s check, keeps \<open>r\<close>, carries \<open>s\<close> or \<open>ORDER - s\<close>, and is a fixed point: so
  exactly one of the two equivalent ECDSA signatures is ever stored.
\<close>
theorem normalize_low_s_canonical:
  assumes "parse_ecdsa_der sig = Inr (r, s)" "r < 2 ^ 256" "0 < s" "s < SECP256K1_ORDER"
  shows "\<exists>sig'. normalize_low_s sig = Inr sig' \<and> is_low_s_signature sig' = Inr True \<and>
    (parse_ecdsa_der sig' = Inr (r, s) \<or> parse_ecdsa_der sig' = Inr (r, SECP256K1_ORDER - s)) \<and>
    normalize_low_s sig' = Inr sig'"
proof -
  let ?s = "if s > LOW_S_MAX then SECP256K1_ORDER - s else s"
  have low: "0 < ?s" "?s \<le> LOW_S_MAX"
    using assms(3,4) low_s_complement [of s] by auto
  have max: "LOW_S_MAX < SECP256K1_ORDER" unfolding LOW_S_MAX_def by (simp add: SECP256K1_ORDER_def)
  with low have "?s < 2 ^ 256" using order_bound(1) by linarith
  with assms(2) have rt: "parse_ecdsa_der (encode_ecdsa_der r ?s) = Inr (r, ?s)"
    by (rule ecdsa_der_roundtrip_aux)
  have "normalize_low_s sig = Inr (encode_ecdsa_der r ?s)"
    using assms by (simp add: normalize_low_s_def Let_def)
  moreover have "is_low_s_signature (encode_ecdsa_der r ?s) = Inr True"
    using low by (simp only: is_low_s_signature_def rt res_bind_simps case_prod_conv simp_thms)
  moreover have "normalize_low_s (encode_ecdsa_der r ?s) = Inr (encode_ecdsa_der r ?s)"
  proof -
    have n: "\<not> ?s > LOW_S_MAX" "\<not> ?s > SECP256K1_ORDER" using low max by linarith+
    show ?thesis
      by (simp only: normalize_low_s_def rt res_bind_simps case_prod_conv Let_def n if_False)
  qed
  ultimately show ?thesis using rt by (auto split: if_splits)
qed

theorem normalize_low_s_canonical_witness:
  "\<exists>sig'. normalize_low_s (encode_ecdsa_der 5 (SECP256K1_ORDER - 1)) = Inr sig' \<and>
     is_low_s_signature sig' = Inr True"
proof -
  have b: "(5 :: nat) < 2 ^ 256" "SECP256K1_ORDER - 1 < 2 ^ 256" "0 < SECP256K1_ORDER - 1"
    "SECP256K1_ORDER - 1 < SECP256K1_ORDER"
    by (simp_all add: SECP256K1_ORDER_def)
  from normalize_low_s_canonical [OF ecdsa_der_roundtrip_aux [OF b(1,2)] b(1,3,4)]
  show ?thesis by blast
qed

text \<open>The signature check is not total: on this eight-byte signature, whose inner length points
  past its end, the DER reader fails with \<open>IndexError\<close>, which the handler for
  \<open>ValueError\<close> lets through, so verification raises where it means to return \<open>False\<close>.
\<close>
theorem verify_digest_index_error:
  "verify_digest_secp256k1 C public_key (replicate 32 0) [0x30, 6, 2, 6, 1, 1, 1, 1] = Inl DerIndexError"
  by (simp add: verify_digest_secp256k1_def is_low_s_signature_def parse_ecdsa_der_def
      der_read_length_def byte_at_def Let_def)

text \<open>The private scalar derived from a mnemonic is in the range of valid secp256k1 keys.\<close>

lemma secret_from_seed_range: "0 < secret_from_seed seed \<and> secret_from_seed seed < SECP256K1_ORDER"
  unfolding secret_from_seed_def
  using mod_less_divisor [of "SECP256K1_ORDER - 1" "from_bytes seed"]
  by (simp add: SECP256K1_ORDER_def)

subsection \<open>Two concrete instances\<close>

text \<open>
  Instances of the parameter to evaluate examples with. \<open>flat_crypto\<close> maps every input to
  one digest and accepts every signature; the digest of \<open>level_crypto\<close> counts how deeply
  32-byte digests are nested behind the 19-byte tag of a tree node. Neither models the security
  of the real functions: they show that the hypotheses on the parameter can hold together.
\<close>

definition flat_crypto :: crypto where
  "flat_crypto = \<lparr>keccak256 = \<lambda>_. replicate 32 0, sha256 = \<lambda>_. replicate 32 0,
     pbkdf2 = \<lambda>_ _. replicate 64 0, b64decode = Some, b64encode = \<lambda>b. b,
     openssl_sign = \<lambda>_ _. encode_ecdsa_der 1 1, openssl_verify = \<lambda>_ _ _. True\<rparr>"

definition level_digest :: "bytes \<Rightarrow> bytes" where
  "level_digest b = replicate 31 0 @ [if length b = 83 then b ! 50 + 1 else 1]"

definition level_crypto :: crypto where
  "level_crypto = flat_crypto\<lparr>keccak256 := level_digest\<rparr>"

lemma digests32_instances [simp]: "digests32 flat_crypto" "digests32 level_crypto"
  by (simp_all add: digests32_def flat_crypto_def level_crypto_def level_digest_def)

lemma flat_keccak [simp]: "keccak256 flat_crypto x = replicate 32 0"
  by (simp add: flat_crypto_def)

end
