(* ===== verification/Smt.thy ===== *)
theory Smt
  imports Crypto
begin

section \<open>The sparse Merkle tree (\<open>EZ_V2/smt.py\<close>)\<close>

text \<open>
  A tree holds its depth, its values by key in insertion order and the list of default hashes.
  \<open>subtree_hash\<close> and \<open>prove_recursive\<close> are \<open>_subtree_hash\<close> and
  \<open>_prove_recursive\<close> by recursion on the depth that remains, \<open>remaining = depth - node_depth\<close>,
  which is the code's \<open>remaining_depth\<close> and one more than its \<open>bit_index\<close>. A multiproof
  is the batch form of a set of proofs, its nodes filed under the path bits that lead to them.

  The reference is \<open>full_hash\<close>, the hash of the complete binary tree over all keys with no
  short cut for empty subtrees. The theory shows that the tree's root is that hash and never
  raises, that its proofs verify (presence and absence), that a verifying proof fixes the value
  unless two explicit inputs collide, and that a batch gives back the proofs it was made from.
\<close>

datatype smt_error = DepthNotPositive | KeyLengthNotDepth | ValueHashNotHash32 | LeafNotSingle

definition EMPTY_LEAF_INPUT :: bytes where
  "EMPTY_LEAF_INPUT = ascii ''EZCHAIN_SMT_EMPTY_LEAF_V2''"

definition EMPTY_LEAF_HASH :: "crypto \<Rightarrow> bytes" where
  "EMPTY_LEAF_HASH C = keccak256 C EMPTY_LEAF_INPUT"

definition node_input :: "bytes \<Rightarrow> bytes \<Rightarrow> bytes" where
  "node_input left right = ascii ''EZCHAIN_SMT_NODE_V2'' @ left @ right"

definition node_hash :: "crypto \<Rightarrow> bytes \<Rightarrow> bytes \<Rightarrow> bytes" where
  "node_hash C left right = keccak256 C (node_input left right)"

definition leaf_input :: "bytes \<Rightarrow> bytes \<Rightarrow> bytes" where
  "leaf_input key value_hash = ascii ''EZCHAIN_SMT_LEAF_V2'' @ key @ value_hash"

definition leaf_node_hash :: "crypto \<Rightarrow> bytes \<Rightarrow> bytes \<Rightarrow> bytes" where
  "leaf_node_hash C key value_hash = keccak256 C (leaf_input key value_hash)"

subsection \<open>The tree\<close>

record smt =
  smt_depth :: nat
  smt_values :: "(nat, bytes) dict"
  smt_defaults :: "bytes list"

definition default_hashes :: "crypto \<Rightarrow> nat \<Rightarrow> bytes list" where
  "default_hashes C depth =
     fold (\<lambda>_ defaults. let previous = last defaults in defaults @ [node_hash C previous previous])
       [0..<depth] [EMPTY_LEAF_HASH C]"

definition smt_new :: "crypto \<Rightarrow> int \<Rightarrow> smt_error + smt" where
  "smt_new C depth =
     (if depth \<le> 0 then Inl DepthNotPositive
      else Inr \<lparr>smt_depth = nat depth, smt_values = [], smt_defaults = default_hashes C (nat depth)\<rparr>)"

definition smt_copy :: "crypto \<Rightarrow> smt \<Rightarrow> smt_error + smt" where
  "smt_copy C t = res_bind (smt_new C (int (smt_depth t))) (\<lambda>cloned. Inr (cloned\<lparr>smt_values := smt_values t\<rparr>))"

definition smt_get :: "smt \<Rightarrow> bytes \<Rightarrow> bytes option" where
  "smt_get t key = dict_get (smt_values t) (from_bytes key)"

definition smt_set :: "smt \<Rightarrow> bytes \<Rightarrow> bytes \<Rightarrow> smt_error + smt" where
  "smt_set t key value_hash =
     (if length key * 8 \<noteq> smt_depth t then Inl KeyLengthNotDepth
      else if length value_hash \<noteq> 32 then Inl ValueHashNotHash32
      else Inr (t\<lparr>smt_values := dict_set (from_bytes key) value_hash (smt_values t)\<rparr>))"

definition split_items :: "nat \<Rightarrow> (nat, bytes) dict \<Rightarrow> (nat, bytes) dict \<times> (nat, bytes) dict" where
  \<comment> \<open>The items of distinct keys, each side in the order of the whole.\<close>
  "split_items bit_index items =
     (filter (\<lambda>(key_int, _). key_int div 2 ^ bit_index mod 2 = 0) items,
      filter (\<lambda>(key_int, _). key_int div 2 ^ bit_index mod 2 \<noteq> 0) items)"

fun subtree_hash :: "crypto \<Rightarrow> smt \<Rightarrow> nat \<Rightarrow> (nat, bytes) dict \<Rightarrow> smt_error + bytes" where
  "subtree_hash C t 0 items =
     (case items of
        [] \<Rightarrow> Inr (smt_defaults t ! 0)
      | [(key_int, value_hash)] \<Rightarrow> Inr (leaf_node_hash C (be_bytes (smt_depth t div 8) key_int) value_hash)
      | _ \<Rightarrow> Inl LeafNotSingle)"
| "subtree_hash C t (Suc bit_index) items =
     (if items = [] then Inr (smt_defaults t ! Suc bit_index)
      else
        let (left_items, right_items) = split_items bit_index items
        in res_bind (subtree_hash C t bit_index left_items) (\<lambda>left_hash.
           res_bind (subtree_hash C t bit_index right_items) (\<lambda>right_hash.
           Inr (node_hash C left_hash right_hash))))"

definition smt_root :: "crypto \<Rightarrow> smt \<Rightarrow> smt_error + bytes" where
  "smt_root C t = subtree_hash C t (smt_depth t) (smt_values t)"

fun prove_recursive ::
    "crypto \<Rightarrow> smt \<Rightarrow> nat \<Rightarrow> nat \<Rightarrow> (nat, bytes) dict \<Rightarrow> smt_error + bytes list" where
  "prove_recursive C t 0 key_int items = Inr []"
| "prove_recursive C t (Suc bit_index) key_int items =
     (let (left_items, right_items) = split_items bit_index items;
          target_bit = key_int div 2 ^ bit_index mod 2;
          (path_items, other_items) =
            (if target_bit = 0 then (left_items, right_items) else (right_items, left_items))
      in res_bind (subtree_hash C t bit_index other_items) (\<lambda>sibling_hash.
         res_bind (prove_recursive C t bit_index key_int path_items) (\<lambda>proof.
         Inr (proof @ [sibling_hash]))))"

definition smt_prove :: "crypto \<Rightarrow> smt \<Rightarrow> bytes \<Rightarrow> smt_error + smt_proof" where
  "smt_prove C t key =
     (if length key * 8 \<noteq> smt_depth t then Inl KeyLengthNotDepth
      else
        let key_int = from_bytes key
        in res_bind (prove_recursive C t (smt_depth t) key_int (smt_values t)) (\<lambda>siblings.
           Inr \<lparr>pf_siblings = siblings, pf_existence = dict_get (smt_values t) key_int \<noteq> None\<rparr>))"

fun fold_siblings :: "crypto \<Rightarrow> nat \<Rightarrow> nat \<Rightarrow> bytes \<Rightarrow> bytes list \<Rightarrow> bytes" where
  \<comment> \<open>The loop of \<open>verify_proof\<close> from \<open>level\<close> on.\<close>
  "fold_siblings C key_int level current [] = current"
| "fold_siblings C key_int level current (sibling # siblings) =
     fold_siblings C key_int (Suc level)
       (if key_int div 2 ^ level mod 2 = 0 then node_hash C current sibling
        else node_hash C sibling current) siblings"

definition verify_proof :: "crypto \<Rightarrow> bytes \<Rightarrow> bytes \<Rightarrow> bytes \<Rightarrow> smt_proof \<Rightarrow> nat \<Rightarrow> bool" where
  "verify_proof C root key value_hash proof depth =
     (if length root \<noteq> 32 \<or> length key * 8 \<noteq> depth \<or> length value_hash \<noteq> 32 then False
      else if length (pf_siblings proof) \<noteq> depth then False
      else
        fold_siblings C (from_bytes key) 0
          (if pf_existence proof then leaf_node_hash C key value_hash else EMPTY_LEAF_HASH C)
          (pf_siblings proof) = root)"

subsection \<open>Batches of proofs\<close>

definition key_bits :: "bytes \<Rightarrow> nat \<Rightarrow> string" where
  "key_bits key depth =
     map (\<lambda>index. if unat (key ! (index div 8)) div 2 ^ (7 - index mod 8) mod 2 = 1
                   then CHR ''1'' else CHR ''0'') [0..<depth]"

definition sibling_prefix_for_level :: "string \<Rightarrow> nat \<Rightarrow> string" where
  "sibling_prefix_for_level bits level =
     (let split_index = length bits - level - 1;
          target_bit = bits ! split_index;
          sibling_bit = (if target_bit = CHR ''0'' then CHR ''1'' else CHR ''0'')
      in take split_index bits @ [sibling_bit])"

definition dict_setdefault :: "'k \<Rightarrow> 'v \<Rightarrow> ('k, 'v) dict \<Rightarrow> ('k, 'v) dict" where
  "dict_setdefault k v d = (if dict_get d k = None then dict_set k v d else d)"

fun build_nodes ::
    "crypto \<Rightarrow> smt \<Rightarrow> bytes list \<Rightarrow> (string, bytes) dict \<Rightarrow> smt_error + (string, bytes) dict" where
  \<comment> \<open>The loop of \<open>build_multiproof\<close> over the keys.\<close>
  "build_nodes C t [] nodes = Inr nodes"
| "build_nodes C t (key # keys) nodes =
     res_bind (smt_prove C t key) (\<lambda>proof.
       let bits = key_bits key (smt_depth t)
       in build_nodes C t keys
            (fold (\<lambda>(level, sibling). dict_setdefault (sibling_prefix_for_level bits level) sibling)
              (enumerate 0 (pf_siblings proof)) nodes))"

definition build_multiproof :: "crypto \<Rightarrow> smt \<Rightarrow> bytes list \<Rightarrow> smt_error + multiproof" where
  "build_multiproof C t keys =
     res_bind (build_nodes C t keys []) (\<lambda>nodes.
       Inr \<lparr>mp_depth = smt_depth t, mp_keys = keys,
            mp_nodes = map (\<lambda>(prefix_bits, h). \<lparr>mn_prefix = prefix_bits, mn_hash = h\<rparr>)
              (sort_key (\<lambda>item. (length (fst item), fst item)) nodes)\<rparr>)"

definition materialize_proof :: "crypto \<Rightarrow> multiproof \<Rightarrow> bytes \<Rightarrow> smt_error + smt_proof" where
  "materialize_proof C mp key =
     (if length key * 8 \<noteq> mp_depth mp then Inl KeyLengthNotDepth
      else
        let node_map = fold (\<lambda>n. dict_set (mn_prefix n) (mn_hash n)) (mp_nodes mp) [];
            defaults = default_hashes C (mp_depth mp);
            bits = key_bits key (mp_depth mp)
        in Inr \<lparr>pf_siblings =
                  map (\<lambda>level. dict_get_default node_map (sibling_prefix_for_level bits level) (defaults ! level))
                    [0..<mp_depth mp],
                pf_existence = key \<in> set (mp_keys mp)\<rparr>)"

definition verify_multiproof :: "crypto \<Rightarrow> bytes \<Rightarrow> bytes \<Rightarrow> bytes \<Rightarrow> multiproof \<Rightarrow> smt_error + bool" where
  "verify_multiproof C root key value_hash mp =
     res_bind (materialize_proof C mp key) (\<lambda>proof.
       Inr (verify_proof C root key value_hash proof (mp_depth mp)))"

subsection \<open>The complete tree as reference\<close>

fun full_hash :: "crypto \<Rightarrow> nat \<Rightarrow> (nat \<Rightarrow> bytes option) \<Rightarrow> nat \<Rightarrow> nat \<Rightarrow> bytes" where
  \<comment> \<open>The hash of the node \<open>p\<close> that has \<open>n\<close> levels below it, every leaf hashed.\<close>
  "full_hash C key_length m 0 p =
     (case m p of None \<Rightarrow> EMPTY_LEAF_HASH C
      | Some value_hash \<Rightarrow> leaf_node_hash C (be_bytes key_length p) value_hash)"
| "full_hash C key_length m (Suc n) p =
     node_hash C (full_hash C key_length m n (2 * p)) (full_hash C key_length m n (2 * p + 1))"

definition smt_ok :: "crypto \<Rightarrow> smt \<Rightarrow> bool" where
  "smt_ok C t \<longleftrightarrow> 0 < smt_depth t \<and> dict_ok (smt_values t) \<and>
     list_all (\<lambda>(key_int, value_hash). key_int < 2 ^ smt_depth t \<and> length value_hash = 32) (smt_values t) \<and>
     smt_defaults t = default_hashes C (smt_depth t)"

abbreviation smt_map :: "smt \<Rightarrow> nat \<Rightarrow> bytes option" where
  "smt_map t \<equiv> map_of (smt_values t)"

abbreviation tree_hash :: "crypto \<Rightarrow> smt \<Rightarrow> nat \<Rightarrow> nat \<Rightarrow> bytes" where
  "tree_hash C t \<equiv> full_hash C (smt_depth t div 8) (smt_map t)"

lemma default_hashes_simps [simp]:
  "default_hashes C 0 = [EMPTY_LEAF_HASH C]"
  "default_hashes C (Suc n) = default_hashes C n @
     [node_hash C (last (default_hashes C n)) (last (default_hashes C n))]"
  by (simp_all add: default_hashes_def Let_def)

lemma length_default_hashes [simp]: "length (default_hashes C n) = Suc n"
  by (induction n) (simp_all add: Let_def)

lemma last_default_hashes: "last (default_hashes C n) = default_hashes C n ! n"
  by (cases n) (simp_all add: Let_def nth_append)

lemma default_hashes_nth: "n \<le> d \<Longrightarrow> default_hashes C d ! n = default_hashes C n ! n"
proof (induction d)
  case (Suc d)
  show ?case
  proof (cases "n = Suc d")
    case False
    with Suc.prems have "n \<le> d" by simp
    with Suc.IH show ?thesis by (simp add: Let_def nth_append del: default_hashes_simps(1))
  qed (simp only:)
qed (simp only: le_zero_eq)

lemma default_hashes_full: "n \<le> d \<Longrightarrow> default_hashes C d ! n = full_hash C k Map.empty n p"
proof (induction n arbitrary: p)
  case 0
  then show ?case using default_hashes_nth [of 0 d C] by simp
next
  case (Suc n)
  have "default_hashes C d ! Suc n = default_hashes C (Suc n) ! Suc n"
    using Suc.prems by (rule default_hashes_nth)
  also have "\<dots> = node_hash C (default_hashes C n ! n) (default_hashes C n ! n)"
    by (simp add: Let_def nth_append last_default_hashes)
  also have "default_hashes C n ! n = default_hashes C d ! n"
    using Suc.prems by (intro default_hashes_nth [symmetric]) simp
  finally show ?case using Suc.IH [of "2 * p"] Suc.IH [of "2 * p + 1"] Suc.prems by simp
qed

lemma div_pow_Suc: "k div 2 ^ Suc n = (p :: nat) \<longleftrightarrow> k div 2 ^ n = 2 * p \<or> k div 2 ^ n = 2 * p + 1"
  unfolding power_Suc2 div_mult2_eq by linarith

lemma full_hash_cong:
  "(\<And>k. k div 2 ^ n = p \<Longrightarrow> m k = m' k) \<Longrightarrow> full_hash C kl m n p = full_hash C kl m' n p"
proof (induction n arbitrary: p)
  case (Suc n)
  have "full_hash C kl m n q = full_hash C kl m' n q" if "q = 2 * p \<or> q = 2 * p + 1" for q
    using that Suc.IH [of q] Suc.prems by (metis div_pow_Suc)
  then show ?case by simp
qed simp

lemma map_of_filter_side:
  assumes "dict_ok items"
  shows "map_of (filter (\<lambda>(k, _). P k) items) k = (if P k then map_of items k else None)"
  by (induction items) auto

lemma dict_ok_filter [simp]: "dict_ok items \<Longrightarrow> dict_ok (filter P items)"
  by (induction items) (auto simp: dict_ok_def)

lemma subtree_hash_full:
  assumes "dict_ok items" "smt_defaults t = default_hashes C (smt_depth t)" "n \<le> smt_depth t"
    and "\<And>k v. (k, v) \<in> set items \<Longrightarrow> k div 2 ^ n = p"
  shows "subtree_hash C t n items = Inr (full_hash C (smt_depth t div 8) (map_of items) n p)"
  using assms
proof (induction n arbitrary: items p)
  case 0
  show ?case
  proof (cases items rule: remdups_adj.cases)
    case (3 x y xs)
    have "fst x = p" "fst y = p"
      using 0(4) [of "fst x" "snd x"] 0(4) [of "fst y" "snd y"] 3 by simp_all
    with 0(1) 3 show ?thesis by (simp add: dict_ok_def)
  next
    case (2 x)
    with 0 show ?thesis by (cases x) auto
  qed (use 0 in \<open>auto simp: default_hashes_full [where p = p, symmetric] default_hashes_nth\<close>)
next
  case (Suc n)
  show ?case
  proof (cases "items = []")
    case True
    with Suc.prems show ?thesis
      by (simp add: default_hashes_full [of "Suc n" "smt_depth t" C "smt_depth t div 8" p])
  next
    case False
    let ?l = "filter (\<lambda>(k, _). k div 2 ^ n mod 2 = 0) items"
    let ?r = "filter (\<lambda>(k, _). k div 2 ^ n mod 2 \<noteq> 0) items"
    have side: "k div 2 ^ n = 2 * p \<or> k div 2 ^ n = 2 * p + 1" if "(k, v) \<in> set items" for k v
      using Suc.prems(4) [OF that] by (metis div_pow_Suc)
    have l: "subtree_hash C t n ?l = Inr (full_hash C (smt_depth t div 8) (map_of ?l) n (2 * p))"
      using Suc.prems side by (intro Suc.IH) (auto dest!: side)
    have r: "subtree_hash C t n ?r = Inr (full_hash C (smt_depth t div 8) (map_of ?r) n (2 * p + 1))"
      using Suc.prems side by (intro Suc.IH) (auto dest!: side)
    have "full_hash C (smt_depth t div 8) (map_of ?l) n (2 * p) =
          full_hash C (smt_depth t div 8) (map_of items) n (2 * p)"
      using Suc.prems(1) by (intro full_hash_cong) (simp add: map_of_filter_side)
    moreover have "full_hash C (smt_depth t div 8) (map_of ?r) n (2 * p + 1) =
          full_hash C (smt_depth t div 8) (map_of items) n (2 * p + 1)"
      using Suc.prems(1) by (intro full_hash_cong) (simp add: map_of_filter_side)
    ultimately show ?thesis using False l r by (simp add: split_items_def)
  qed
qed

lemma smt_root_full:
  assumes "smt_ok C t"
  shows "smt_root C t = Inr (tree_hash C t (smt_depth t) 0)"
  unfolding smt_root_def
  using assms by (intro subtree_hash_full) (auto simp: smt_ok_def list_all_iff)

subsection \<open>Proofs\<close>

definition sibling_index :: "nat \<Rightarrow> nat" where
  "sibling_index q = (if q mod 2 = 0 then q + 1 else q - 1)"

lemma sibling_index_div_mod: "sibling_index r div 2 = r div 2" "sibling_index r mod 2 = 1 - r mod 2"
  unfolding sibling_index_def by (cases "even r"; auto elim!: evenE oddE)+

lemma sibling_index_iff: "q = sibling_index r \<longleftrightarrow> q div 2 = r div 2 \<and> q mod 2 \<noteq> r mod 2"
proof
  assume a: "q div 2 = r div 2 \<and> q mod 2 \<noteq> r mod 2"
  then have "q mod 2 = 1 - r mod 2" by linarith
  with a show "q = sibling_index r"
    using sibling_index_div_mod [of r] by (metis div_mult_mod_eq)
next
  assume "q = sibling_index r"
  moreover have "1 - r mod 2 \<noteq> r mod 2" by (cases "even r") (auto simp: odd_iff_mod_2_eq_one)
  ultimately show "q div 2 = r div 2 \<and> q mod 2 \<noteq> r mod 2"
    by (simp only: sibling_index_div_mod simp_thms)
qed

lemma sibling_halves:
  "r mod 2 = 0 \<Longrightarrow> 2 * (r div 2) = r \<and> sibling_index r = r + 1"
  "r mod 2 \<noteq> 0 \<Longrightarrow> 2 * (r div 2) = sibling_index r \<and> sibling_index r + 1 = r"
  using div_mult_mod_eq [of r 2] by (simp_all add: sibling_index_def)

lemma prove_recursive_full:
  assumes "dict_ok items" "smt_defaults t = default_hashes C (smt_depth t)" "n \<le> smt_depth t"
    and "\<And>k v. (k, v) \<in> set items \<Longrightarrow> k div 2 ^ n = key div 2 ^ n"
  shows "prove_recursive C t n key items =
    Inr (map (\<lambda>l. full_hash C (smt_depth t div 8) (map_of items) l (sibling_index (key div 2 ^ l))) [0..<n])"
  using assms
proof (induction n arbitrary: items)
  case (Suc n)
  let ?b = "key div 2 ^ n mod 2"
  let ?path = "filter (\<lambda>(k, _). k div 2 ^ n mod 2 = ?b) items"
  let ?other = "filter (\<lambda>(k, _). k div 2 ^ n mod 2 \<noteq> ?b) items"
  let ?H = "\<lambda>m l. full_hash C (smt_depth t div 8) m l (sibling_index (key div 2 ^ l))"
  have half: "k div 2 ^ n div 2 = key div 2 ^ n div 2" if "(k, v) \<in> set items" for k v
    using Suc.prems(4) [OF that] by (simp only: power_Suc2 div_mult2_eq)
  have path: "k div 2 ^ n = key div 2 ^ n" if "(k, v) \<in> set ?path" for k v
  proof -
    have "k div 2 ^ n div 2 = key div 2 ^ n div 2" "k div 2 ^ n mod 2 = ?b"
      using half [of k v] that by simp_all
    then show ?thesis by (metis div_mult_mod_eq)
  qed
  have other: "k div 2 ^ n = sibling_index (key div 2 ^ n)" if "(k, v) \<in> set ?other" for k v
  proof -
    have "k div 2 ^ n div 2 = key div 2 ^ n div 2" "k div 2 ^ n mod 2 \<noteq> ?b"
      using half [of k v] that by simp_all
    then show ?thesis unfolding sibling_index_iff by simp
  qed
  have s: "subtree_hash C t n ?other = Inr (?H (map_of ?other) n)"
    using Suc.prems by (intro subtree_hash_full other) auto
  have r: "prove_recursive C t n key ?path = Inr (map (?H (map_of ?path)) [0..<n])"
    using Suc.prems by (intro Suc.IH path) auto
  have split: "prove_recursive C t (Suc n) key items =
      res_bind (subtree_hash C t n ?other) (\<lambda>h. res_bind (prove_recursive C t n key ?path) (\<lambda>p. Inr (p @ [h])))"
  proof (cases "?b = 0")
    case False
    then have b: "?b = 1" by simp
    have "(k div 2 ^ n mod 2 = 1) = (k div 2 ^ n mod 2 \<noteq> 0)" for k :: nat by simp
    with b show ?thesis by (simp add: split_items_def)
  qed (simp add: split_items_def)
  have sib: "(k div 2 ^ n) mod 2 \<noteq> ?b" if "k div 2 ^ n = sibling_index (key div 2 ^ n)" for k :: nat
    using that unfolding sibling_index_iff by simp
  have "?H (map_of ?other) n = ?H (map_of items) n"
    using Suc.prems(1) sib by (intro full_hash_cong) (simp add: map_of_filter_side del: not_mod_2_eq_0_eq_1)
  moreover have "?H (map_of ?path) l = ?H (map_of items) l" if l: "l < n" for l
  proof (intro full_hash_cong)
    fix k assume k: "k div 2 ^ l = sibling_index (key div 2 ^ l)"
    have "k div 2 ^ l div 2 = key div 2 ^ l div 2" using k unfolding sibling_index_iff by simp
    then have "k div 2 ^ Suc l = key div 2 ^ Suc l" by (simp only: power_Suc2 div_mult2_eq)
    then have "k div 2 ^ Suc l div 2 ^ (n - Suc l) = key div 2 ^ Suc l div 2 ^ (n - Suc l)" by simp
    then have "k div 2 ^ n = key div 2 ^ n"
      using l by (simp only: div_mult2_eq [symmetric] power_add [symmetric] le_add_diff_inverse Suc_leI)
    then show "map_of ?path k = map_of items k" using Suc.prems(1) by (simp add: map_of_filter_side)
  qed
  ultimately show ?case using s r split by simp
qed simp

lemma smt_ok_below: "smt_ok C t \<Longrightarrow> (k, v) \<in> set (smt_values t) \<Longrightarrow> k div 2 ^ smt_depth t = 0"
  by (auto simp: smt_ok_def list_all_iff)

lemma key_below: "length key * 8 = d \<Longrightarrow> from_bytes key < 2 ^ d"
  using from_bytes_less [of key] by (auto simp: mult.commute [of _ 8] power_mult)

lemma key_below_div: "length key * 8 = d \<Longrightarrow> from_bytes key div 2 ^ d = 0"
  using key_below [of key d] by simp

lemma be_bytes_key: "length key * 8 = d \<Longrightarrow> be_bytes (d div 8) (from_bytes key) = key"
  using be_bytes_from_bytes [of key] by auto

lemma smt_prove_full:
  assumes "smt_ok C t" "length key * 8 = smt_depth t"
  shows "smt_prove C t key =
    Inr \<lparr>pf_siblings = map (\<lambda>l. tree_hash C t l (sibling_index (from_bytes key div 2 ^ l))) [0..<smt_depth t],
         pf_existence = (smt_get t key \<noteq> None)\<rparr>"
proof -
  have "prove_recursive C t (smt_depth t) (from_bytes key) (smt_values t) =
    Inr (map (\<lambda>l. tree_hash C t l (sibling_index (from_bytes key div 2 ^ l))) [0..<smt_depth t])"
    using assms(1) by (intro prove_recursive_full)
      (auto simp: smt_ok_def smt_ok_below [OF assms(1)] key_below_div [OF assms(2)])
  with assms(2) show ?thesis by (simp add: smt_prove_def smt_get_def Let_def)
qed

lemma fold_siblings_full:
  assumes "l \<le> n"
  shows "fold_siblings C key l (full_hash C kl m l (key div 2 ^ l))
    (map (\<lambda>l. full_hash C kl m l (sibling_index (key div 2 ^ l))) [l..<n]) = full_hash C kl m n (key div 2 ^ n)"
  using assms
proof (induction l rule: inc_induct)
  case (step l)
  let ?q = "key div 2 ^ l"
  have q: "key div 2 ^ Suc l = ?q div 2" by (simp only: power_Suc2 div_mult2_eq)
  have "full_hash C kl m (Suc l) (?q div 2) =
    (if ?q mod 2 = 0 then node_hash C (full_hash C kl m l ?q) (full_hash C kl m l (sibling_index ?q))
     else node_hash C (full_hash C kl m l (sibling_index ?q)) (full_hash C kl m l ?q))"
    by (cases "?q mod 2 = 0") (simp_all add: sibling_halves del: One_nat_def)
  then show ?case using step by (simp add: upt_conv_Cons [of l n] q del: power_Suc full_hash.simps)
qed simp

definition leaf_of :: "crypto \<Rightarrow> bytes \<Rightarrow> bytes option \<Rightarrow> bytes" where
  "leaf_of C key v = (case v of None \<Rightarrow> EMPTY_LEAF_HASH C | Some value_hash \<Rightarrow> leaf_node_hash C key value_hash)"

lemma honest_path:
  assumes "smt_ok C t" "length key * 8 = smt_depth t" "smt_prove C t key = Inr p"
  shows "fold_siblings C (from_bytes key) 0 (leaf_of C key (smt_get t key)) (pf_siblings p) =
    tree_hash C t (smt_depth t) 0"
proof -
  have "leaf_of C key (smt_get t key) = tree_hash C t 0 (from_bytes key div 2 ^ 0)"
    using be_bytes_key [OF assms(2)] by (simp add: leaf_of_def smt_get_def split: option.splits)
  then show ?thesis
    using fold_siblings_full [of 0 "smt_depth t" C "from_bytes key" "smt_depth t div 8" "smt_map t"]
      smt_prove_full [OF assms(1,2)] assms(3) by (simp add: key_below_div [OF assms(2)])
qed

lemma tree_hash_length: "digests32 C \<Longrightarrow> length (full_hash C kl m n p) = 32"
  by (cases n) (auto simp: EMPTY_LEAF_HASH_def leaf_node_hash_def node_hash_def keccak_length split: option.splits)

lemma smt_get_length: "smt_ok C t \<Longrightarrow> smt_get t key = Some v \<Longrightarrow> length v = 32"
  by (auto simp: smt_ok_def smt_get_def list_all_iff dest: map_of_SomeD)

lemma smt_proofs_complete:
  assumes "digests32 C" "smt_ok C t" "length key * 8 = smt_depth t"
  shows "\<exists>root p. smt_root C t = Inr root \<and> smt_prove C t key = Inr p \<and>
    pf_existence p = (smt_get t key \<noteq> None) \<and>
    (\<forall>v. smt_get t key = Some v \<longrightarrow> verify_proof C root key v p (smt_depth t)) \<and>
    (smt_get t key = None \<longrightarrow> (\<forall>v. length v = 32 \<longrightarrow> verify_proof C root key v p (smt_depth t)))"
proof -
  note p = smt_prove_full [OF assms(2,3)]
  have path: "fold_siblings C (from_bytes key) 0 (leaf_of C key (smt_get t key))
    (map (\<lambda>l. tree_hash C t l (sibling_index (from_bytes key div 2 ^ l))) [0..<smt_depth t]) =
    tree_hash C t (smt_depth t) 0"
    using honest_path [OF assms(2,3) p] by simp
  show ?thesis
    using p smt_root_full [OF assms(2)] path assms(3) tree_hash_length [OF assms(1)] smt_get_length [OF assms(2)]
    by (auto simp: verify_proof_def leaf_of_def)
qed

text \<open>C17. Proofs are complete: in a well-formed tree the root never raises, and for every key of the
  tree's width \<open>prove\<close> returns a proof that \<open>verify_proof\<close> accepts, with the key's value when
  it has one and as a proof of absence (whatever value hash is named) when it has none.\<close>

theorem smt_proofs_verify:
  assumes "digests32 C" "smt_ok C t" "length key * 8 = smt_depth t"
  shows "\<exists>root p. smt_root C t = Inr root \<and> smt_prove C t key = Inr p \<and>
    pf_existence p = (smt_get t key \<noteq> None) \<and>
    (\<forall>v. smt_get t key = Some v \<longrightarrow> verify_proof C root key v p (smt_depth t)) \<and>
    (smt_get t key = None \<longrightarrow> (\<forall>v. length v = 32 \<longrightarrow> verify_proof C root key v p (smt_depth t)))"
  using assms by (rule smt_proofs_complete)

subsection \<open>A verifying proof fixes the value\<close>

text \<open>
  The inputs hashed along the path of a proof, from the leaf to the root. Two proofs for one key
  that lead to one root hash the same leaf input, unless an input of one path and a different
  input of the other have the same digest.
\<close>

fun fold_inputs :: "crypto \<Rightarrow> nat \<Rightarrow> nat \<Rightarrow> bytes \<Rightarrow> bytes list \<Rightarrow> bytes list" where
  "fold_inputs C key_int level current [] = []"
| "fold_inputs C key_int level current (sibling # siblings) =
     (let input = (if key_int div 2 ^ level mod 2 = 0 then node_input current sibling
                   else node_input sibling current)
      in input # fold_inputs C key_int (Suc level) (keccak256 C input) siblings)"

definition leaf_input_of :: "bytes \<Rightarrow> bytes option \<Rightarrow> bytes" where
  "leaf_input_of key v = (case v of None \<Rightarrow> EMPTY_LEAF_INPUT | Some value_hash \<Rightarrow> leaf_input key value_hash)"

definition proof_inputs :: "crypto \<Rightarrow> bytes \<Rightarrow> bytes option \<Rightarrow> smt_proof \<Rightarrow> bytes list" where
  "proof_inputs C key v proof =
     leaf_input_of key v # fold_inputs C (from_bytes key) 0 (leaf_of C key v) (pf_siblings proof)"

definition no_collision :: "crypto \<Rightarrow> bytes list \<Rightarrow> bytes list \<Rightarrow> bool" where
  "no_collision C xs ys \<longleftrightarrow> list_all (\<lambda>x. list_all (\<lambda>y. keccak256 C x = keccak256 C y \<longrightarrow> x = y) ys) xs"

lemma no_collisionD: "no_collision C xs ys \<Longrightarrow> x \<in> set xs \<Longrightarrow> y \<in> set ys \<Longrightarrow> keccak256 C x = keccak256 C y \<Longrightarrow> x = y"
  by (auto simp: no_collision_def list_all_iff)

lemma no_collision_Cons: "no_collision C (x # xs) (y # ys) \<Longrightarrow> no_collision C xs ys"
  by (auto simp: no_collision_def list_all_iff)

lemma leaf_of_input: "leaf_of C key v = keccak256 C (leaf_input_of key v)"
  by (simp add: leaf_of_def leaf_input_of_def EMPTY_LEAF_HASH_def leaf_node_hash_def split: option.split)

lemma leaf_input_of_inject:
  assumes "leaf_input_of key v = leaf_input_of key w" "pred_option (\<lambda>x. length x = n) v" "pred_option (\<lambda>x. length x = n) w"
  shows "v = w"
proof -
  have *: "EMPTY_LEAF_INPUT \<noteq> leaf_input key x" for x
    by (simp add: EMPTY_LEAF_INPUT_def leaf_input_def ascii_def)
  show ?thesis using assms * [symmetric] * by (cases v; cases w) (auto simp: leaf_input_of_def leaf_input_def)
qed

lemma fold_siblings_inject:
  assumes "digests32 C" "length ss = length ss'" "length c = 32" "length c' = 32"
    and "fold_siblings C k l c ss = fold_siblings C k l c' ss'"
    and "no_collision C (fold_inputs C k l c ss) (fold_inputs C k l c' ss')"
  shows "c = c'"
  using assms(2-)
proof (induction ss ss' arbitrary: l c c' rule: list_induct2)
  case (Cons s ss s' ss')
  let ?in = "\<lambda>c s. if k div 2 ^ l mod 2 = 0 then node_input c s else node_input s c"
  have "keccak256 C (?in c s) = keccak256 C (?in c' s')"
  proof (rule Cons.IH [where l = "Suc l"])
    show "fold_siblings C k (Suc l) (keccak256 C (?in c s)) ss = fold_siblings C k (Suc l) (keccak256 C (?in c' s')) ss'"
      using Cons.prems(3) by (simp add: node_hash_def split: if_splits)
    show "no_collision C (fold_inputs C k (Suc l) (keccak256 C (?in c s)) ss)
      (fold_inputs C k (Suc l) (keccak256 C (?in c' s')) ss')"
      using Cons.prems(4) by (simp only: fold_inputs.simps Let_def no_collision_Cons)
  qed (simp_all add: keccak_length [OF assms(1)])
  then have "?in c s = ?in c' s'"
    by (rule no_collisionD [OF Cons.prems(4), rotated 2]) (simp_all add: Let_def)
  then show "c = c'"
    using Cons.prems(1,2) append_eq_append_conv [of s s' c c'] append_eq_append_conv [of c c' s s']
    by (auto simp: node_input_def split: if_splits)
qed simp

definition claimed_value :: "bytes \<Rightarrow> smt_proof \<Rightarrow> bytes option" where
  "claimed_value value_hash proof = (if pf_existence proof then Some value_hash else None)"

text \<open>C6. Proofs are sound: when \<open>verify_proof\<close> accepts a proof for a key against the root of a
  well-formed tree, a proof of existence names the value hash the tree stores under that key and a
  proof of absence is for a key the tree does not hold, as long as no input hashed along that proof
  collides with a different input hashed along the tree's own proof.\<close>

theorem verify_proof_sound:
  assumes "digests32 C" "smt_ok C t" "smt_root C t = Inr root" "smt_prove C t key = Inr honest"
    and "verify_proof C root key v p (smt_depth t)"
    and "no_collision C (proof_inputs C key (claimed_value v p) p) (proof_inputs C key (smt_get t key) honest)"
  shows "smt_get t key = claimed_value v p"
proof -
  have len: "length key * 8 = smt_depth t" "length v = 32" "length (pf_siblings p) = smt_depth t"
    using assms(5) by (auto simp: verify_proof_def split: if_splits)
  have hl: "length (pf_siblings honest) = smt_depth t"
    using assms(4) smt_prove_full [OF assms(2) len(1)] by auto
  have "fold_siblings C (from_bytes key) 0 (leaf_of C key (claimed_value v p)) (pf_siblings p) =
    fold_siblings C (from_bytes key) 0 (leaf_of C key (smt_get t key)) (pf_siblings honest)"
    using assms(3,5) honest_path [OF assms(2) len(1) assms(4)] smt_root_full [OF assms(2)]
    by (auto simp: verify_proof_def claimed_value_def leaf_of_def split: if_splits)
  moreover have "no_collision C (fold_inputs C (from_bytes key) 0 (leaf_of C key (claimed_value v p)) (pf_siblings p))
    (fold_inputs C (from_bytes key) 0 (leaf_of C key (smt_get t key)) (pf_siblings honest))"
    using assms(6) unfolding proof_inputs_def by (rule no_collision_Cons)
  ultimately have "leaf_of C key (claimed_value v p) = leaf_of C key (smt_get t key)"
    by (rule fold_siblings_inject [OF assms(1), rotated 3])
      (simp_all add: len hl leaf_of_input keccak_length [OF assms(1)])
  then have "keccak256 C (leaf_input_of key (claimed_value v p)) = keccak256 C (leaf_input_of key (smt_get t key))"
    by (simp only: leaf_of_input)
  then have "leaf_input_of key (claimed_value v p) = leaf_input_of key (smt_get t key)"
    by (rule no_collisionD [OF assms(6), rotated 2]) (simp_all add: proof_inputs_def)
  moreover have "pred_option (\<lambda>x. length x = 32) (claimed_value v p)"
    using len(2) by (simp add: claimed_value_def)
  moreover have "pred_option (\<lambda>x. length x = 32) (smt_get t key)"
    using smt_get_length [OF assms(2)] by (cases "smt_get t key") auto
  ultimately show ?thesis by (metis leaf_input_of_inject)
qed

subsection \<open>The tree as an authenticated map\<close>

text \<open>
  The contract the ledger relies on: a put is seen by the look-up, keeps the tree well formed, and
  the root and every proof are functions of the map alone, whatever the order of the puts.
\<close>

locale authenticated_map =
  fixes valid :: "'k \<Rightarrow> bool"
    and storable :: "'v \<Rightarrow> bool"
    and ok :: "'t \<Rightarrow> bool"
    and get :: "'t \<Rightarrow> 'k \<Rightarrow> 'v option"
    and put :: "'t \<Rightarrow> 'k \<Rightarrow> 'v \<Rightarrow> 't"
    and root :: "'t \<Rightarrow> 'r"
    and prove :: "'t \<Rightarrow> 'k \<Rightarrow> 'p"
  assumes ok_put: "ok t \<Longrightarrow> valid k \<Longrightarrow> storable v \<Longrightarrow> ok (put t k v)"
    and get_put: "ok t \<Longrightarrow> valid k \<Longrightarrow> valid j \<Longrightarrow> get (put t k v) j = (if j = k then Some v else get t j)"
    and root_ext: "ok t \<Longrightarrow> ok u \<Longrightarrow> (\<And>k. valid k \<Longrightarrow> get t k = get u k) \<Longrightarrow> root t = root u"
    and prove_ext: "ok t \<Longrightarrow> ok u \<Longrightarrow> (\<And>k. valid k \<Longrightarrow> get t k = get u k) \<Longrightarrow> valid j \<Longrightarrow> prove t j = prove u j"
begin

definition puts :: "'t \<Rightarrow> ('k \<times> 'v) list \<Rightarrow> 't" where
  "puts t kvs = fold (\<lambda>(k, v) t. put t k v) kvs t"

lemma puts_simps: "puts t [] = t" "puts t ((k, v) # kvs) = puts (put t k v) kvs"
  by (simp_all add: puts_def)

lemma ok_puts: "ok t \<Longrightarrow> list_all (\<lambda>(k, v). valid k \<and> storable v) kvs \<Longrightarrow> ok (puts t kvs)"
  by (induction kvs arbitrary: t) (auto simp: puts_simps ok_put)

lemma get_puts:
  "ok t \<Longrightarrow> list_all (\<lambda>(k, v). valid k \<and> storable v) kvs \<Longrightarrow> distinct (map fst kvs) \<Longrightarrow> valid j \<Longrightarrow>
   get (puts t kvs) j = (case map_of kvs j of None \<Rightarrow> get t j | Some v \<Rightarrow> Some v)"
proof (induction kvs arbitrary: t)
  case (Cons kv kvs)
  obtain k v where kv: "kv = (k, v)" by fastforce
  have "map_of kvs k = None" using Cons.prems(3) kv by (simp add: map_of_eq_None_iff)
  then show ?case using Cons.prems Cons.IH [of "put t k v"] kv
    by (auto simp: puts_simps ok_put get_put split: option.split)
qed (simp add: puts_simps)

lemma root_puts_order:
  assumes "ok t" "list_all (\<lambda>(k, v). valid k \<and> storable v) kvs" "distinct (map fst kvs)" "mset kvs = mset kvs'"
  shows "root (puts t kvs) = root (puts t kvs')"
proof -
  have d: "distinct (map fst kvs')"
    using assms(3,4) by (metis distinct_count_atmost_1 mset_map set_mset_mset)
  have s: "set kvs = set kvs'" using assms(4) by (rule mset_eq_setD)
  then have a: "list_all (\<lambda>(k, v). valid k \<and> storable v) kvs'" using assms(2) by (simp add: list_all_iff)
  have "map_of kvs = map_of kvs'" using assms(3) d s by (simp add: map_of_inject_set)
  then show ?thesis
    using assms(1-3) d a by (intro root_ext ok_puts) (simp_all add: get_puts)
qed

lemma root_put_same: "ok t \<Longrightarrow> valid k \<Longrightarrow> storable v \<Longrightarrow> get t k = Some v \<Longrightarrow> root (put t k v) = root t"
  by (rule root_ext) (auto simp: ok_put get_put)

end

definition smt_put :: "smt \<Rightarrow> bytes \<Rightarrow> bytes \<Rightarrow> smt" where
  \<comment> \<open>What \<open>set\<close> leaves behind when its checks pass.\<close>
  "smt_put t key value_hash = t\<lparr>smt_values := dict_set (from_bytes key) value_hash (smt_values t)\<rparr>"

lemma smt_set_put:
  "smt_set t key v = (if length key * 8 \<noteq> smt_depth t then Inl KeyLengthNotDepth
     else if length v \<noteq> 32 then Inl ValueHashNotHash32 else Inr (smt_put t key v))"
  by (simp add: smt_set_def smt_put_def)

lemma smt_put_ok: "smt_ok C t \<Longrightarrow> length key * 8 = smt_depth t \<Longrightarrow> length v = 32 \<Longrightarrow> smt_ok C (smt_put t key v)"
  using dict_set_subset [of "from_bytes key" v "smt_values t"] key_below [of key "smt_depth t"]
  by (auto simp: smt_ok_def smt_put_def list_all_iff)

lemma smt_put_depth [simp]: "smt_depth (smt_put t key v) = smt_depth t"
  by (simp add: smt_put_def)

lemma smt_get_put: "length k = length j \<Longrightarrow> smt_get (smt_put t k v) j = (if j = k then Some v else smt_get t j)"
  using from_bytes_inj [of j k] by (auto simp: smt_get_def smt_put_def dict_simps)

lemma nat_as_key:
  assumes "d mod 8 = 0" "n < 2 ^ d"
  obtains key where "length key * 8 = d" "from_bytes key = n"
proof
  have "8 * (d div 8) = d" using assms(1) by auto
  then have "(2 ^ 8 :: nat) ^ (d div 8) = 2 ^ d" by (simp only: power_mult [symmetric])
  then have "(2 :: nat) ^ d = 256 ^ (d div 8)" by simp
  with assms(2) show "from_bytes (be_bytes (d div 8) n) = n" by (simp add: from_bytes_be_bytes)
qed (use assms(1) in auto)

lemma smt_map_ext:
  assumes "smt_ok C t" "smt_ok C u" "smt_depth t = d" "smt_depth u = d" "d mod 8 = 0"
    and "\<And>k. length k * 8 = d \<Longrightarrow> smt_get t k = smt_get u k"
  shows "smt_map t = smt_map u"
proof
  fix n
  show "smt_map t n = smt_map u n"
  proof (cases "n < 2 ^ d")
    case True
    with assms(5) obtain key where "length key * 8 = d" "from_bytes key = n" by (rule nat_as_key)
    with assms(6) [of key] show ?thesis by (simp add: smt_get_def)
  next
    case False
    then have "smt_map t n = None" "smt_map u n = None"
      using assms(1-4) by (auto simp: smt_ok_def list_all_iff map_of_eq_None_iff)
    then show ?thesis by simp
  qed
qed

lemma smt_root_ext:
  assumes "smt_ok C t" "smt_ok C u" "smt_depth t = d" "smt_depth u = d" "d mod 8 = 0"
    and "\<And>k. length k * 8 = d \<Longrightarrow> smt_get t k = smt_get u k"
  shows "smt_root C t = smt_root C u"
  using smt_map_ext [OF assms] assms(1-4) by (simp add: smt_root_full)

lemma smt_prove_ext:
  assumes "smt_ok C t" "smt_ok C u" "smt_depth t = d" "smt_depth u = d" "d mod 8 = 0"
    and "\<And>k. length k * 8 = d \<Longrightarrow> smt_get t k = smt_get u k" "length key * 8 = d"
  shows "smt_prove C t key = smt_prove C u key"
  using smt_map_ext [OF assms(1-6)] assms by (simp add: smt_prove_full)

interpretation smt256: authenticated_map
  "\<lambda>k. length k = 32" "\<lambda>v. length v = 32" "\<lambda>t. smt_ok C t \<and> smt_depth t = 256" smt_get smt_put "smt_root C" "smt_prove C" for C
proof unfold_locales
  show "smt_prove C t j = smt_prove C u j"
    if "smt_ok C t \<and> smt_depth t = 256" "smt_ok C u \<and> smt_depth u = 256"
      "\<And>k. length k = 32 \<Longrightarrow> smt_get t k = smt_get u k" "length j = 32" for t u j
    using that by (intro smt_prove_ext [where d = 256]) auto
  show "smt_root C t = smt_root C u"
    if "smt_ok C t \<and> smt_depth t = 256" "smt_ok C u \<and> smt_depth u = 256"
      "\<And>k. length k = 32 \<Longrightarrow> smt_get t k = smt_get u k" for t u
    using that by (intro smt_root_ext [where d = 256]) auto
qed (auto simp: smt_put_ok smt_get_put)

lemma smt_new_ok: "smt_new C d = Inr t \<Longrightarrow> smt_ok C t \<and> smt_depth t = nat d \<and> (\<forall>k. smt_get t k = None)"
  by (auto simp: smt_new_def smt_ok_def smt_get_def split: if_splits)

lemma smt_copy_same: "smt_ok C t \<Longrightarrow> smt_copy C t = Inr t"
  by (cases t) (auto simp: smt_copy_def smt_new_def smt_ok_def)

subsection \<open>A batch gives back its proofs\<close>

text \<open>The path bits of a key are the binary digits of its number, so a prefix names a tree node.\<close>

definition bits_value :: "string \<Rightarrow> nat" where
  "bits_value bits = foldl (\<lambda>n b. 2 * n + (if b = CHR ''1'' then 1 else 0)) 0 bits"

lemma bits_value_snoc [simp]:
  "bits_value [] = 0" "bits_value (bits @ [b]) = 2 * bits_value bits + (if b = CHR ''1'' then 1 else 0)"
  by (simp_all add: bits_value_def)

lemma from_bytes_nth: "i < length b \<Longrightarrow> from_bytes b div 256 ^ (length b - 1 - i) mod 256 = unat (b ! i)"
proof (induction b rule: rev_induct)
  case (snoc x b)
  show ?case
  proof (cases "i = length b")
    case False
    with snoc.prems have i: "i < length b" by simp
    then have e: "length (b @ [x]) - 1 - i = Suc (length b - 1 - i)" by simp
    have "from_bytes (b @ [x]) div 256 = from_bytes b" using unat_byte_less [of x] by simp
    then show ?thesis unfolding e power_Suc div_mult2_eq using snoc.IH [OF i] i by (simp add: nth_append)
  qed (simp add: nth_append)
qed simp

lemma mod_256_bit: "r < 8 \<Longrightarrow> (n :: nat) mod 256 div 2 ^ r mod 2 = n div 2 ^ r mod 2"
proof -
  assume "r < 8"
  then have "bit (take_bit 8 n) r = bit n r" by (simp add: bit_take_bit_iff)
  then have "odd (n mod 256 div 2 ^ r) = odd (n div 2 ^ r)" by (simp add: bit_iff_odd take_bit_eq_mod)
  then show ?thesis by (simp add: mod2_eq_if)
qed

lemma key_bits_nth:
  assumes "length key * 8 = d" "i < d"
  shows "key_bits key d ! i = CHR ''1'' \<longleftrightarrow> from_bytes key div 2 ^ (d - 1 - i) mod 2 = 1"
    and "key_bits key d ! i = CHR ''0'' \<longleftrightarrow> from_bytes key div 2 ^ (d - 1 - i) mod 2 \<noteq> 1"
proof -
  let ?q = "i div 8" and ?r = "7 - i mod 8"
  have q: "?q < length key" using assms by linarith
  have "8 * ?q + i mod 8 = i" "i mod 8 < 8" by simp_all
  then have e: "d - 1 - i = 8 * (length key - 1 - ?q) + ?r" using assms q by linarith
  have "from_bytes key div 2 ^ (d - 1 - i) mod 2 =
    from_bytes key div 256 ^ (length key - 1 - ?q) mod 256 div 2 ^ ?r mod 2"
    unfolding e power_add div_mult2_eq by (simp add: power_mult mod_256_bit)
  also have "\<dots> = unat (key ! ?q) div 2 ^ ?r mod 2" unfolding from_bytes_nth [OF q] ..
  finally show "key_bits key d ! i = CHR ''1'' \<longleftrightarrow> from_bytes key div 2 ^ (d - 1 - i) mod 2 = 1"
    "key_bits key d ! i = CHR ''0'' \<longleftrightarrow> from_bytes key div 2 ^ (d - 1 - i) mod 2 \<noteq> 1"
    using assms(2) by (simp_all add: key_bits_def del: not_mod_2_eq_0_eq_1)
qed

lemma length_key_bits [simp]: "length (key_bits key d) = d"
  by (simp add: key_bits_def)

lemma double_half: "(n :: nat) mod 2 = 1 \<Longrightarrow> Suc (2 * (n div 2)) = n" "(n :: nat) mod 2 \<noteq> 1 \<Longrightarrow> 2 * (n div 2) = n"
  using div_mult_mod_eq [of n 2] by linarith+

lemma bits_value_take:
  assumes "length key * 8 = d" "j \<le> d"
  shows "bits_value (take j (key_bits key d)) = from_bytes key div 2 ^ (d - j)"
  using assms(2)
proof (induction j)
  case 0
  then show ?case using key_below [OF assms(1)] by simp
next
  case (Suc j)
  then have j: "j < d" by simp
  have "from_bytes key div 2 ^ (d - j) = from_bytes key div 2 ^ (d - Suc j) div 2"
    using j by (simp only: div_mult2_eq [symmetric] power_Suc2 [symmetric] Suc_diff_Suc)
  moreover have "d - 1 - j = d - Suc j" by simp
  ultimately show ?case
    using Suc j key_bits_nth(1) [OF assms(1) j] double_half [of "from_bytes key div 2 ^ (d - Suc j)"]
    by (cases "from_bytes key div 2 ^ (d - Suc j) mod 2 = 1")
      (simp_all add: take_Suc_conv_app_nth del: not_mod_2_eq_0_eq_1)
qed

lemma sibling_prefix:
  assumes "length key * 8 = d" "l < d"
  shows "length (sibling_prefix_for_level (key_bits key d) l) = d - l"
    and "bits_value (sibling_prefix_for_level (key_bits key d) l) = sibling_index (from_bytes key div 2 ^ l)"
    and "set (sibling_prefix_for_level (key_bits key d) l) \<subseteq> {CHR ''0'', CHR ''1''}"
proof -
  let ?i = "d - l - 1" and ?q = "from_bytes key div 2 ^ l"
  have i: "?i < d" "d - 1 - ?i = l" "d - ?i = Suc l" using assms(2) by simp_all
  show "length (sibling_prefix_for_level (key_bits key d) l) = d - l"
    using i by (simp add: sibling_prefix_for_level_def Let_def)
  have "bits_value (take ?i (key_bits key d)) = ?q div 2"
    using bits_value_take [OF assms(1), of ?i] i by (simp only: power_Suc2 div_mult2_eq less_imp_le)
  moreover have "key_bits key d ! ?i = CHR ''0'' \<longleftrightarrow> ?q mod 2 \<noteq> 1"
    using key_bits_nth(2) [OF assms(1) i(1)] i(2) by simp
  ultimately show "bits_value (sibling_prefix_for_level (key_bits key d) l) = sibling_index ?q"
    using double_half [of ?q]
    by (cases "?q mod 2 = 1") (simp_all add: sibling_prefix_for_level_def Let_def sibling_index_def
      del: not_mod_2_eq_0_eq_1)
  show "set (sibling_prefix_for_level (key_bits key d) l) \<subseteq> {CHR ''0'', CHR ''1''}"
    using set_take_subset [of ?i "key_bits key d"]
    by (auto simp: sibling_prefix_for_level_def Let_def key_bits_def split: if_splits)
qed

definition node_at :: "crypto \<Rightarrow> smt \<Rightarrow> string \<Rightarrow> bytes" where
  "node_at C t bits = tree_hash C t (smt_depth t - length bits) (bits_value bits)"

definition binary :: "string \<Rightarrow> bool" where
  "binary bits \<longleftrightarrow> set bits \<subseteq> {CHR ''0'', CHR ''1''}"

definition nodes_ok :: "crypto \<Rightarrow> smt \<Rightarrow> (string, bytes) dict \<Rightarrow> bool" where
  "nodes_ok C t nodes \<longleftrightarrow> dict_ok nodes \<and> list_all (\<lambda>(bits, h). h = node_at C t bits \<and> binary bits) nodes"

lemma honest_sibling:
  assumes "length key * 8 = smt_depth t" "l < smt_depth t"
  shows "node_at C t (sibling_prefix_for_level (key_bits key (smt_depth t)) l) =
    tree_hash C t l (sibling_index (from_bytes key div 2 ^ l))"
  using assms sibling_prefix [OF assms] by (simp add: node_at_def)

lemma nodes_ok_setdefault:
  "nodes_ok C t nodes \<Longrightarrow> h = node_at C t bits \<Longrightarrow> binary bits \<Longrightarrow> nodes_ok C t (dict_setdefault bits h nodes)"
  using dict_set_subset [of bits h nodes] by (auto simp: nodes_ok_def dict_setdefault_def list_all_iff)

lemma dom_setdefault: "dom (dict_get (dict_setdefault k v d)) = insert k (dom (dict_get d))"
  by (auto simp: dict_setdefault_def dict_simps)

lemma nodes_fold:
  assumes "nodes_ok C t nodes"
    and "\<And>l h. (l, h) \<in> set ls \<Longrightarrow> h = node_at C t (pre l) \<and> binary (pre l)"
  shows "nodes_ok C t (fold (\<lambda>(l, h). dict_setdefault (pre l) h) ls nodes) \<and>
    dom (dict_get (fold (\<lambda>(l, h). dict_setdefault (pre l) h) ls nodes)) =
      dom (dict_get nodes) \<union> pre ` fst ` set ls"
  using assms
proof (induction ls arbitrary: nodes)
  case (Cons x ls)
  obtain l h where x: "x = (l, h)" by fastforce
  have "nodes_ok C t (dict_setdefault (pre l) h nodes)"
    using Cons.prems x by (intro nodes_ok_setdefault) auto
  moreover have "k = node_at C t (pre j) \<and> binary (pre j)" if "(j, k) \<in> set ls" for j k
    using Cons.prems(2) [of j k] that by simp
  ultimately show ?case using Cons.IH [of "dict_setdefault (pre l) h nodes"] by (simp add: x dom_setdefault)
qed simp

abbreviation sibling_prefixes :: "bytes \<Rightarrow> nat \<Rightarrow> string set" where
  "sibling_prefixes key d \<equiv> sibling_prefix_for_level (key_bits key d) ` {0..<d}"

lemma build_nodes_ok:
  assumes "smt_ok C t" "list_all (\<lambda>key. length key * 8 = smt_depth t) keys" "nodes_ok C t nodes"
  shows "\<exists>nodes'. build_nodes C t keys nodes = Inr nodes' \<and> nodes_ok C t nodes' \<and>
    dom (dict_get nodes') = dom (dict_get nodes) \<union> (\<Union>key\<in>set keys. sibling_prefixes key (smt_depth t))"
  using assms(2,3)
proof (induction keys arbitrary: nodes)
  case (Cons key keys)
  let ?d = "smt_depth t" and ?pre = "sibling_prefix_for_level (key_bits key (smt_depth t))"
  let ?S = "map (\<lambda>l. tree_hash C t l (sibling_index (from_bytes key div 2 ^ l))) [0..<?d]"
  let ?N = "fold (\<lambda>(l, h). dict_setdefault (?pre l) h) (enumerate 0 ?S) nodes"
  have key: "length key * 8 = ?d" using Cons.prems by simp
  have e: "fst ` set (enumerate 0 ?S) = {0..<?d}" by (simp flip: set_map)
  have "h = node_at C t (?pre l) \<and> binary (?pre l)" if "(l, h) \<in> set (enumerate 0 ?S)" for l h
    using that honest_sibling [OF key, of l C] sibling_prefix(3) [OF key, of l]
    by (auto simp: in_set_enumerate_eq binary_def)
  from nodes_fold [where pre = ?pre and ls = "enumerate 0 ?S", OF Cons.prems(2) this] have N: "nodes_ok C t ?N"
    "dom (dict_get ?N) = dom (dict_get nodes) \<union> ?pre ` {0..<?d}"
    unfolding e by simp_all
  from Cons.IH [OF _ N(1)] Cons.prems(1) obtain nodes' where
    "build_nodes C t keys ?N = Inr nodes'" "nodes_ok C t nodes'"
    "dom (dict_get nodes') = dom (dict_get ?N) \<union> (\<Union>key\<in>set keys. sibling_prefixes key ?d)" by auto
  moreover have "build_nodes C t (key # keys) nodes = build_nodes C t keys ?N"
    using smt_prove_full [OF assms(1) key] by (simp add: Let_def)
  ultimately show ?case using N(2) by auto
qed simp

lemma map_of_fold_set: "distinct (map fst kvs) \<Longrightarrow> dict_get (fold (\<lambda>(k, v). dict_set k v) kvs d) k =
    (case map_of kvs k of None \<Rightarrow> dict_get d k | Some v \<Rightarrow> Some v)"
proof (induction kvs arbitrary: d)
  case (Cons kv kvs)
  obtain a v where kv: "kv = (a, v)" by fastforce
  have "map_of kvs a = None" using Cons.prems kv by (simp add: map_of_eq_None_iff)
  then show ?case using Cons kv by (simp add: dict_simps split: option.split)
qed simp

lemma build_multiproof_ok:
  assumes "smt_ok C t" "list_all (\<lambda>key. length key * 8 = smt_depth t) keys"
  shows "\<exists>mp. build_multiproof C t keys = Inr mp \<and> mp_depth mp = smt_depth t \<and> mp_keys mp = keys \<and>
    list_all (\<lambda>n. mn_hash n = node_at C t (mn_prefix n) \<and> binary (mn_prefix n)) (mp_nodes mp) \<and>
    (\<forall>key\<in>set keys. \<forall>l < smt_depth t. \<exists>h.
      dict_get (fold (\<lambda>n. dict_set (mn_prefix n) (mn_hash n)) (mp_nodes mp) [])
        (sibling_prefix_for_level (key_bits key (smt_depth t)) l) = Some h \<and>
      h = tree_hash C t l (sibling_index (from_bytes key div 2 ^ l)))"
proof -
  obtain nodes where n: "build_nodes C t keys [] = Inr nodes" "nodes_ok C t nodes"
    "dom (dict_get nodes) = (\<Union>key\<in>set keys. sibling_prefixes key (smt_depth t))"
    using build_nodes_ok [OF assms, of "[]"] by (auto simp: nodes_ok_def)
  let ?sorted = "sort_key (\<lambda>item. (length (fst item), fst item)) nodes"
  let ?nodes = "map (\<lambda>(prefix_bits, h). \<lparr>mn_prefix = prefix_bits, mn_hash = h\<rparr>) ?sorted"
  have d: "distinct (map fst nodes)" "distinct (map fst ?sorted)"
    using n(2) distinct_map [of fst ?sorted] distinct_map [of fst nodes] by (auto simp: nodes_ok_def dict_ok_def)
  have "fold (\<lambda>n. dict_set (mn_prefix n) (mn_hash n)) ?nodes [] = fold (\<lambda>(k, v). dict_set k v) ?sorted []"
    by (simp add: fold_map comp_def case_prod_unfold)
  moreover have "map_of ?sorted = map_of nodes" using d by (simp add: map_of_inject_set)
  ultimately have get: "dict_get (fold (\<lambda>n. dict_set (mn_prefix n) (mn_hash n)) ?nodes []) k = dict_get nodes k" for k
    using d(2) by (simp add: map_of_fold_set split: option.split)
  have "dict_get nodes (sibling_prefix_for_level (key_bits key (smt_depth t)) l) =
      Some (tree_hash C t l (sibling_index (from_bytes key div 2 ^ l)))"
    if k: "key \<in> set keys" "l < smt_depth t" for key l
  proof -
    have len: "length key * 8 = smt_depth t" using k assms(2) by (simp add: list_all_iff)
    from n(3) k obtain h where h: "dict_get nodes (sibling_prefix_for_level (key_bits key (smt_depth t)) l) = Some h"
      by fastforce
    then have "h = node_at C t (sibling_prefix_for_level (key_bits key (smt_depth t)) l)"
      using n(2) by (auto simp: nodes_ok_def list_all_iff dest!: map_of_SomeD)
    with h honest_sibling [OF len k(2), of C] show ?thesis by simp
  qed
  moreover have "list_all (\<lambda>n. mn_hash n = node_at C t (mn_prefix n) \<and> binary (mn_prefix n)) ?nodes"
    using n(2) by (auto simp: nodes_ok_def list_all_iff)
  ultimately show ?thesis using n(1) get by (simp add: build_multiproof_def)
qed

lemma materialize_is_prove:
  assumes "smt_ok C t" "list_all (\<lambda>key. length key * 8 = smt_depth t) keys" "build_multiproof C t keys = Inr mp"
    and "key \<in> set keys" "smt_get t key \<noteq> None"
  shows "materialize_proof C mp key = smt_prove C t key"
proof -
  have len: "length key * 8 = smt_depth t" using assms(2,4) by (simp add: list_all_iff)
  have mp: "mp_depth mp = smt_depth t" "mp_keys mp = keys"
    and get: "\<forall>key\<in>set keys. \<forall>l < smt_depth t. \<exists>h.
      dict_get (fold (\<lambda>n. dict_set (mn_prefix n) (mn_hash n)) (mp_nodes mp) [])
        (sibling_prefix_for_level (key_bits key (smt_depth t)) l) = Some h \<and>
      h = tree_hash C t l (sibling_index (from_bytes key div 2 ^ l))"
    using build_multiproof_ok [OF assms(1,2)] assms(3) by auto
  have "dict_get_default (fold (\<lambda>n. dict_set (mn_prefix n) (mn_hash n)) (mp_nodes mp) [])
        (sibling_prefix_for_level (key_bits key (smt_depth t)) l) v =
      tree_hash C t l (sibling_index (from_bytes key div 2 ^ l))" if "l < smt_depth t" for l v
    using get assms(4) that by (fastforce simp: dict_get_default_def)
  then show ?thesis
    using assms(4,5) len by (simp add: materialize_proof_def mp smt_prove_full [OF assms(1) len] Let_def)
qed

text \<open>A multiproof is as good as the proofs it replaces: for keys of the tree's width
  \<open>build_multiproof\<close> succeeds with an object that passes its own constructor check, its nodes are
  binary prefixes with 32-byte hashes, and for every key of the batch that the tree holds,
  \<open>materialize_proof\<close> returns exactly \<open>prove\<close>'s proof and \<open>verify_multiproof\<close> accepts the
  stored value against the root.\<close>

theorem multiproof_complete:
  assumes "digests32 C" "smt_ok C t" "list_all (\<lambda>key. length key * 8 = smt_depth t) keys"
  shows "\<exists>mp root. build_multiproof C t keys = Inr mp \<and> smt_root C t = Inr root \<and> multiproof_init mp = Inr mp \<and>
    (\<forall>n\<in>set (mp_nodes mp). multiproof_node_init n = Inr n) \<and>
    (\<forall>key\<in>set keys. \<forall>v. smt_get t key = Some v \<longrightarrow>
      materialize_proof C mp key = smt_prove C t key \<and> verify_multiproof C root key v mp = Inr True)"
proof -
  obtain mp where mp: "build_multiproof C t keys = Inr mp" "mp_depth mp = smt_depth t" "mp_keys mp = keys"
    "list_all (\<lambda>n. mn_hash n = node_at C t (mn_prefix n) \<and> binary (mn_prefix n)) (mp_nodes mp)"
    using build_multiproof_ok [OF assms(2,3)] by blast
  have "multiproof_node_init n = Inr n" if "n \<in> set (mp_nodes mp)" for n
    using mp(4) that tree_hash_length [OF assms(1)]
    by (auto simp: list_all_iff multiproof_node_init_def hash32_def node_at_def binary_def)
  moreover have "verify_multiproof C (tree_hash C t (smt_depth t) 0) key v mp = Inr True"
    if k: "key \<in> set keys" "smt_get t key = Some v" for key v
  proof -
    have len: "length key * 8 = smt_depth t" using k assms(3) by (simp add: list_all_iff)
    have "materialize_proof C mp key = smt_prove C t key"
      using materialize_is_prove [OF assms(2,3) mp(1)] k by simp
    then show ?thesis
      using smt_proofs_complete [OF assms(1,2) len] k smt_root_full [OF assms(2)]
      by (auto simp: verify_multiproof_def mp(2))
  qed
  moreover have "multiproof_init mp = Inr mp"
    using mp(2,3) assms(2,3) by (auto simp: multiproof_init_def smt_ok_def list_all_iff)
  ultimately show ?thesis
    using mp(1) smt_root_full [OF assms(2)] materialize_is_prove [OF assms(2,3) mp(1)] by auto
qed

definition sample_tree :: "crypto \<Rightarrow> smt" where
  "sample_tree C = \<lparr>smt_depth = 8, smt_values = [(3, replicate 32 7)], smt_defaults = default_hashes C 8\<rparr>"

lemma sample_tree_ok: "smt_ok C (sample_tree C)"
  by (simp add: smt_ok_def sample_tree_def dict_ok_def)

lemma sample_tree_get: "smt_get (sample_tree C) [3] = Some (replicate 32 7)" "smt_depth (sample_tree C) = 8"
  by (simp_all add: sample_tree_def smt_get_def from_bytes_def)

theorem smt_proofs_verify_witness:
  "\<exists>root p. smt_root level_crypto (sample_tree level_crypto) = Inr root \<and>
     smt_prove level_crypto (sample_tree level_crypto) [3] = Inr p \<and>
     verify_proof level_crypto root [3] (replicate 32 7) p 8"
  using smt_proofs_verify [OF _ sample_tree_ok, of level_crypto "[3]"]
  unfolding sample_tree_get by auto

lemma sample_tree_no_collision:
  "no_collision level_crypto
     (proof_inputs level_crypto [3] (Some (replicate 32 7)) (projr (smt_prove level_crypto (sample_tree level_crypto) [3])))
     (proof_inputs level_crypto [3] (Some (replicate 32 7)) (projr (smt_prove level_crypto (sample_tree level_crypto) [3])))"
  by code_simp

theorem verify_proof_sound_witness:
  "\<exists>p. smt_prove level_crypto (sample_tree level_crypto) [3] = Inr p \<and>
     smt_get (sample_tree level_crypto) [3] = claimed_value (replicate 32 7) p"
proof -
  obtain root p where r: "smt_root level_crypto (sample_tree level_crypto) = Inr root"
    and p: "smt_prove level_crypto (sample_tree level_crypto) [3] = Inr p" "pf_existence p"
    and v: "verify_proof level_crypto root [3] (replicate 32 7) p (smt_depth (sample_tree level_crypto))"
    using smt_proofs_complete [OF _ sample_tree_ok, of level_crypto "[3]"]
    unfolding sample_tree_get by auto
  have "no_collision level_crypto (proof_inputs level_crypto [3] (claimed_value (replicate 32 7) p) p)
    (proof_inputs level_crypto [3] (smt_get (sample_tree level_crypto) [3]) p)"
    using sample_tree_no_collision p by (simp add: claimed_value_def sample_tree_get)
  with verify_proof_sound [OF _ sample_tree_ok r p(1) v] p(1) show ?thesis by simp
qed

theorem multiproof_complete_witness:
  "\<exists>mp root. build_multiproof level_crypto (sample_tree level_crypto) [[3], [200]] = Inr mp \<and>
     smt_root level_crypto (sample_tree level_crypto) = Inr root \<and>
     verify_multiproof level_crypto root [3] (replicate 32 7) mp = Inr True"
proof -
  have "list_all (\<lambda>key. length key * 8 = smt_depth (sample_tree level_crypto)) [[3], [200]]"
    by (simp add: sample_tree_get)
  from multiproof_complete [OF _ sample_tree_ok this] show ?thesis
    using sample_tree_get by auto
qed

end
