(* ===== verification/Encoding.thy ===== *)
theory Encoding
  imports Types
begin

section \<open>Canonical encoding (\<open>EZ_V2/encoding.py\<close>)\<close>

text \<open>
  \<open>pyobj\<close> is the universe of the objects the code encodes: the scalars, lists and tuples
  (\<open>PList\<close>, which \<open>canonicalize\<close> does not tell apart), dicts with string keys, enum members,
  dataclasses as their fields in order, and objects with a \<open>to_canonical\<close> method as what that
  method returns. \<open>Chain_Hash\<close> holds the encoders of the protocol's records into \<open>pyobj\<close>.

  A length is written in four bytes, so \<open>canonical_encode\<close> raises \<open>OverflowError\<close> for an
  object with a part of 4 GiB or more; \<open>canonical_bytes\<close> is its result below that bound, and
  what the hash functions of the other theories use.
\<close>

datatype pyobj =
    PNone
  | PBool bool
  | PInt int
  | PStr string
  | PBytes bytes
  | PList "pyobj list"
  | PDict "(string \<times> pyobj) list"
  | PEnum pyobj
  | PData "(string \<times> pyobj) list"
  | PCanonical pyobj

datatype encoding_error = OverflowError | UnsupportedObject

definition encode_length :: "nat \<Rightarrow> encoding_error + bytes" where
  "encode_length n = (if n < 256 ^ 4 then Inr (be_bytes 4 n) else Inl OverflowError)"

definition length_bytes :: "nat \<Rightarrow> bytes" where
  "length_bytes n = be_bytes 4 n"

definition magnitude_bytes :: "nat \<Rightarrow> bytes" where
  "magnitude_bytes m = (if m = 0 then [0] else be_bytes ((bit_length m + 7) div 8) m)"

definition encode_int :: "int \<Rightarrow> bytes" where
  "encode_int i =
     (let sign = (if i < 0 then [1] else [0]); raw = magnitude_bytes (nat \<bar>i\<bar>)
      in ascii ''I'' @ sign @ length_bytes (length raw) @ raw)"

fun canonicalize :: "pyobj \<Rightarrow> pyobj" where
  "canonicalize PNone = PNone"
| "canonicalize (PEnum v) = v"
| "canonicalize (PBool b) = PBool b"
| "canonicalize (PInt i) = PInt i"
| "canonicalize (PStr s) = PStr s"
| "canonicalize (PBytes b) = PBytes b"
| "canonicalize (PCanonical v) = canonicalize v"
| "canonicalize (PData fs) = PDict (map (\<lambda>(k, v). (k, canonicalize v)) fs)"
| "canonicalize (PList xs) = PList (map canonicalize xs)"
| "canonicalize (PDict d) = PDict (sort_key fst (map (\<lambda>(k, v). (k, canonicalize v)) d))"

definition encode_str :: "string \<Rightarrow> bytes" where
  "encode_str s = ascii ''S'' @ length_bytes (length (utf8 s)) @ utf8 s"

fun encode_value :: "pyobj \<Rightarrow> bytes" where
  "encode_value PNone = ascii ''N''"
| "encode_value (PBool b) = (if b then ascii ''T'' else ascii ''F'')"
| "encode_value (PInt i) = encode_int i"
| "encode_value (PBytes b) = ascii ''Y'' @ length_bytes (length b) @ b"
| "encode_value (PStr s) = encode_str s"
| "encode_value (PList xs) = ascii ''L'' @ length_bytes (length xs) @ concat (map encode_value xs)"
| "encode_value (PDict d) = ascii ''D'' @ length_bytes (length d) @
     concat (map (\<lambda>(k, b). encode_str k @ b)
       (sort_key fst (map (\<lambda>(k, v). (k, encode_value v)) d)))"
| "encode_value _ = []"

text \<open>
  \<open>encodable\<close>: every length fits its four bytes and every node is one that
  \<open>_encode_value\<close> accepts.
\<close>

fun encodable :: "pyobj \<Rightarrow> bool" where
  "encodable PNone = True"
| "encodable (PBool b) = True"
| "encodable (PInt i) = (length (magnitude_bytes (nat \<bar>i\<bar>)) < 256 ^ 4)"
| "encodable (PBytes b) = (length b < 256 ^ 4)"
| "encodable (PStr s) = (length (utf8 s) < 256 ^ 4)"
| "encodable (PList xs) = (length xs < 256 ^ 4 \<and> (\<forall>x\<in>set xs. encodable x))"
| "encodable (PDict d) = (length d < 256 ^ 4 \<and>
     (\<forall>(k, v)\<in>set d. length (utf8 k) < 256 ^ 4 \<and> encodable v))"
| "encodable _ = False"

fun supported :: "pyobj \<Rightarrow> bool" where
  "supported (PList xs) = (\<forall>x\<in>set xs. supported x)"
| "supported (PDict d) = (\<forall>(k, v)\<in>set d. supported v)"
| "supported (PEnum _) = False"
| "supported (PData _) = False"
| "supported (PCanonical _) = False"
| "supported _ = True"

definition canonical_bytes :: "pyobj \<Rightarrow> bytes" where
  "canonical_bytes v = encode_value (canonicalize v)"

definition canonical_encode :: "pyobj \<Rightarrow> encoding_error + bytes" where
  "canonical_encode v =
     (if \<not> supported (canonicalize v) then Inl UnsupportedObject
      else if \<not> encodable (canonicalize v) then Inl OverflowError
      else Inr (canonical_bytes v))"

subsection \<open>The encoding is prefix-free\<close>

text \<open>
  \<open>sort_dicts\<close> sorts the items of every dict, as \<open>_encode_value\<close> does while it writes; two
  values are the same up to the order of dict items when their \<open>sort_dicts\<close> agree.
\<close>

fun sort_dicts :: "pyobj \<Rightarrow> pyobj" where
  "sort_dicts (PList xs) = PList (map sort_dicts xs)"
| "sort_dicts (PDict d) = PDict (sort_key fst (map (\<lambda>(k, v). (k, sort_dicts v)) d))"
| "sort_dicts v = v"

fun dicts_sorted :: "pyobj \<Rightarrow> bool" where
  "dicts_sorted (PList xs) = (\<forall>x\<in>set xs. dicts_sorted x)"
| "dicts_sorted (PDict d) = (sorted (map fst d) \<and> (\<forall>(k, v)\<in>set d. dicts_sorted v))"
| "dicts_sorted _ = True"

lemma length_length_bytes [simp]: "length (length_bytes n) = 4"
  by (simp add: length_bytes_def)

lemma length_bytes_inject:
  "m < 256 ^ 4 \<Longrightarrow> n < 256 ^ 4 \<Longrightarrow> length_bytes m = length_bytes n \<Longrightarrow> m = n"
  unfolding length_bytes_def by (metis from_bytes_be_bytes)

lemma tagged_inject:
  assumes "ascii t @ length_bytes (length a) @ a @ r = ascii t @ length_bytes (length b) @ b @ s"
    and "length a < 256 ^ 4" "length b < 256 ^ 4"
  shows "a = b \<and> r = s"
proof -
  from assms(1) have "length_bytes (length a) = length_bytes (length b)" "a @ r = b @ s"
    by simp_all
  with assms(2,3) show ?thesis
    by (metis append_eq_append_conv length_bytes_inject)
qed

lemma magnitude_bytes_not_Nil: "magnitude_bytes m \<noteq> []"
proof (cases "m = 0")
  case False
  then have "bit_length m \<noteq> 0" by (simp add: bit_length.simps [of m])
  then have "(bit_length m + 7) div 8 \<noteq> 0" by simp
  with False show ?thesis
    by (metis length_be_bytes list.size(3) magnitude_bytes_def)
qed (simp add: magnitude_bytes_def)

lemma from_bytes_magnitude: "from_bytes (magnitude_bytes m) = m"
  by (simp add: magnitude_bytes_def from_bytes_be_bytes bit_length_bytes)
     (simp add: from_bytes_def)

lemma magnitude_small [simp]: "m < 2 ^ 64 \<Longrightarrow> length (magnitude_bytes m) < 4294967296"
proof -
  assume "m < 2 ^ 64"
  then have "bit_length m \<le> 64" by (rule bit_length_le)
  then have "(bit_length m + 7) div 8 < 4294967296" by linarith
  then show ?thesis by (simp add: magnitude_bytes_def)
qed

lemma encode_int_inject:
  assumes "encode_int i @ r = encode_int j @ s" "encodable (PInt i)" "encodable (PInt j)"
  shows "i = j \<and> r = s"
proof -
  let ?a = "magnitude_bytes (nat \<bar>i\<bar>)" and ?b = "magnitude_bytes (nat \<bar>j\<bar>)"
  from assms(1) have sign: "(i < 0) = (j < 0)"
    and "ascii [] @ length_bytes (length ?a) @ ?a @ r = ascii [] @ length_bytes (length ?b) @ ?b @ s"
    by (auto simp: encode_int_def Let_def ascii_def split: if_splits)
  then have "?a = ?b \<and> r = s"
    using assms(2,3) by (intro tagged_inject) simp_all
  then have "nat \<bar>i\<bar> = nat \<bar>j\<bar>" "r = s" by (metis from_bytes_magnitude)+
  with sign show ?thesis by auto
qed

lemma encode_str_inject:
  assumes "encode_str a @ r = encode_str b @ s" "length (utf8 a) < 256 ^ 4" "length (utf8 b) < 256 ^ 4"
  shows "a = b \<and> r = s"
  using tagged_inject [of "''S''" "utf8 a" r "utf8 b" s] assms by (simp add: encode_str_def)

lemma concat_prefix_free:
  assumes "\<And>x y r s. x \<in> set xs \<Longrightarrow> P x \<Longrightarrow> P y \<Longrightarrow> f x @ r = f y @ s \<Longrightarrow> x = y \<and> r = s"
    and "length xs = length ys" "\<forall>x\<in>set xs. P x" "\<forall>y\<in>set ys. P y"
    and "concat (map f xs) @ r = concat (map f ys) @ s"
  shows "xs = ys \<and> r = s"
  using assms(2,1,3-)
proof (induction xs ys rule: list_induct2)
  case (Cons x xs y ys)
  have "x = y \<and> concat (map f xs) @ r = concat (map f ys) @ s"
    by (rule Cons.prems(1)) (use Cons.prems(2-) in simp_all)
  moreover have "xs = ys \<and> r = s"
  proof (rule Cons.IH)
    show "x' = y' \<and> r' = s'" if "x' \<in> set xs" "P x'" "P y'" "f x' @ r' = f y' @ s'" for x' y' r' s'
      using that by (intro Cons.prems(1)) simp_all
  qed (use Cons.prems(2-) calculation in simp_all)
  ultimately show ?case by simp
qed simp

lemma sort_key_map_snd:
  "sort_key fst (map (\<lambda>(k, v). (k, f v)) d) = map (\<lambda>(k, v). (k, f v)) (sort_key fst d)"
proof -
  have ins: "insort_key fst (k, f v) (map (\<lambda>(k, v). (k, f v)) d)
      = map (\<lambda>(k, v). (k, f v)) (insort_key fst (k, v) d)" for k v d
    by (induction d) auto
  show ?thesis
    by (induction d) (auto simp: ins)
qed

lemma encode_dict_sorted:
  assumes "sorted (map fst d)"
  shows "encode_value (PDict d) = ascii ''D'' @ length_bytes (length d) @
     concat (map (\<lambda>(k, v). encode_str k @ encode_value v) d)"
proof -
  have "sort_key fst (map (\<lambda>(k, v). (k, encode_value v)) d) = map (\<lambda>(k, v). (k, encode_value v)) d"
    by (rule sort_key_sorted) (use assms in \<open>simp add: comp_def case_prod_unfold\<close>)
  then show ?thesis
    by (simp add: comp_def case_prod_unfold)
qed

lemma counted_prefix:
  assumes "ascii t @ length_bytes m @ a = ascii t @ length_bytes n @ b" "m < 256 ^ 4" "n < 256 ^ 4"
  shows "m = n \<and> a = b"
  using assms(1) length_bytes_inject [OF assms(2,3)] by simp

fun type_tag :: "pyobj \<Rightarrow> byte" where
  "type_tag PNone = of_char (CHR ''N'')"
| "type_tag (PBool b) = (if b then of_char (CHR ''T'') else of_char (CHR ''F''))"
| "type_tag (PInt i) = of_char (CHR ''I'')"
| "type_tag (PBytes b) = of_char (CHR ''Y'')"
| "type_tag (PStr s) = of_char (CHR ''S'')"
| "type_tag (PList xs) = of_char (CHR ''L'')"
| "type_tag _ = of_char (CHR ''D'')"

lemma encode_value_tag: "encodable v \<Longrightarrow> \<exists>t. encode_value v = type_tag v # t"
  by (cases v rule: encodable.cases) (simp_all add: ascii_def encode_int_def encode_str_def Let_def)

lemma same_type_tag:
  "encodable v \<Longrightarrow> encodable w \<Longrightarrow> encode_value v @ r = encode_value w @ s \<Longrightarrow> type_tag v = type_tag w"
  by (metis append_Cons encode_value_tag list.inject)

lemma encode_value_prefix_free:
  assumes "encodable v" "encodable w" "dicts_sorted v" "dicts_sorted w"
    and "encode_value v @ r = encode_value w @ s"
  shows "v = w \<and> r = s"
  using assms
proof (induction v arbitrary: w r s rule: encodable.induct)
  case 1
  then show ?case
    using same_type_tag [OF 1(1,2,5)] by (cases w) (auto split: if_splits)
next
  case (2 b)
  then show ?case
    using same_type_tag [OF 2(1,2,5)] by (cases w) (auto split: if_splits)
next
  case (3 i)
  show ?case
  proof (cases w)
    case (PInt j)
    with 3 encode_int_inject [of i r j s] show ?thesis by simp
  qed (use 3 same_type_tag [OF 3(1,2,5)] in \<open>auto split: if_splits\<close>)
next
  case (4 b)
  show ?case
  proof (cases w)
    case (PBytes c)
    with 4 tagged_inject [of "''Y''" b r c s] show ?thesis by simp
  qed (use 4(2) same_type_tag [OF 4(1,2,5)] in \<open>auto split: if_splits\<close>)
next
  case (5 a)
  show ?case
  proof (cases w)
    case (PStr b)
    with 5 encode_str_inject [of a r b s] show ?thesis by simp
  qed (use 5(2) same_type_tag [OF 5(1,2,5)] in \<open>auto split: if_splits\<close>)
next
  case (6 xs)
  show ?case
  proof (cases w)
    case (PList ys)
    with 6 have "length xs = length ys \<and>
        concat (map encode_value xs) @ r = concat (map encode_value ys) @ s"
      by (intro counted_prefix [of "''L''"]) simp_all
    then have "xs = ys \<and> r = s"
      using 6 PList
      by (intro concat_prefix_free [where P = "\<lambda>x. encodable x \<and> dicts_sorted x" and f = encode_value])
         auto
    with PList show ?thesis by simp
  qed (use 6(3) same_type_tag [OF 6(2,3,6)] in \<open>auto split: if_splits\<close>)
next
  case (7 d)
  show ?case
  proof (cases w)
    case (PDict e)
    let ?f = "\<lambda>(k, v). encode_str k @ encode_value v"
    let ?P = "\<lambda>x. length (utf8 (fst x)) < 256 ^ 4 \<and> encodable (snd x) \<and> dicts_sorted (snd x)"
    from 7 PDict have len: "length d = length e \<and> concat (map ?f d) @ r = concat (map ?f e) @ s"
      by (intro counted_prefix [of "''D''"])
         (simp_all add: encode_dict_sorted del: encode_value.simps)
    have item: "x = y \<and> r' = s'"
      if x: "x \<in> set d" and P: "?P x" "?P y" and eq: "?f x @ r' = ?f y @ s'" for x y r' s'
    proof -
      obtain k v l u where xy: "x = (k, v)" "y = (l, u)" by (cases x; cases y)
      with eq P encode_str_inject [of k "encode_value v @ r'" l "encode_value u @ s'"]
      have kl: "k = l" "encode_value v @ r' = encode_value u @ s'" by simp_all
      with 7(1) [OF x, of k v u r' s'] P xy show ?thesis by simp
    qed
    have "d = e \<and> r = s"
    proof (rule concat_prefix_free [where f = ?f and P = ?P])
      show "\<forall>x\<in>set d. ?P x" "\<forall>x\<in>set e. ?P x"
        using 7(2-5) PDict by (simp_all add: case_prod_unfold)
      show "x = y \<and> r' = s'" if "x \<in> set d" "?P x" "?P y" "?f x @ r' = ?f y @ s'" for x y r' s'
        using that by (rule item)
    qed (use len in simp_all)
    with PDict show ?thesis by simp
  qed (use 7(3) same_type_tag [OF 7(2,3,6)] in \<open>auto split: if_splits\<close>)
qed simp_all

lemma encode_value_sort_dicts: "encode_value (sort_dicts v) = encode_value v"
proof (induction v rule: sort_dicts.induct)
  case (1 xs)
  then show ?case
    by (simp add: comp_def cong: map_cong)
next
  case (2 d)
  have "sort_key fst (map (\<lambda>(k, v). (k, encode_value v)) (sort_key fst (map (\<lambda>(k, v). (k, sort_dicts v)) d)))
      = sort_key fst (map (\<lambda>(k, v). (k, encode_value v)) d)"
    (is "sort_key fst (map ?E (sort_key fst (map ?S d))) = _")
  proof -
    have "sort_key fst (map ?E (sort_key fst (map ?S d))) = sort_key fst (map ?E (map ?S d))"
      by (simp only: sort_key_map_snd sort_key_idem)
    also have "map ?E (map ?S d) = map ?E d"
      using 2 by (auto simp: case_prod_unfold)
    finally show ?thesis .
  qed
  then show ?case by simp
qed simp_all

lemma dicts_sorted_sort_dicts: "dicts_sorted (sort_dicts v)"
  by (induction v rule: sort_dicts.induct) auto

lemma encodable_sort_dicts: "encodable (sort_dicts v) \<longleftrightarrow> encodable v"
proof (induction v rule: sort_dicts.induct)
  case (2 d)
  then show ?case by (fastforce simp: case_prod_unfold)
qed auto

text \<open>
  C18. The canonical encoding is injective: if two objects have the same canonical bytes, their
  canonical forms are the same, up to the order in which the items of a dict are listed. So a
  hash of \<open>canonical_encode\<close> commits to the whole object and not only to its bytes.
\<close>
theorem canonical_encode_injective:
  assumes "canonical_encode a = Inr x" "canonical_encode b = Inr x"
  shows "sort_dicts (canonicalize a) = sort_dicts (canonicalize b)"
proof -
  from assms have "encodable (canonicalize a)" "encodable (canonicalize b)"
    and "encode_value (canonicalize a) = encode_value (canonicalize b)"
    by (auto simp: canonical_encode_def canonical_bytes_def split: if_splits)
  then have "encode_value (sort_dicts (canonicalize a)) @ [] = encode_value (sort_dicts (canonicalize b)) @ []"
    by (simp add: encode_value_sort_dicts)
  then show ?thesis
    using \<open>encodable (canonicalize a)\<close> \<open>encodable (canonicalize b)\<close>
      encode_value_prefix_free [of "sort_dicts (canonicalize a)" "sort_dicts (canonicalize b)"]
    by (simp add: encodable_sort_dicts dicts_sorted_sort_dicts)
qed

theorem canonical_encode_injective_witness:
  "canonical_encode (PDict [(''b'', PInt 7), (''a'', PNone)]) =
     canonical_encode (PData [(''a'', PNone), (''b'', PInt 7)]) \<and>
   sort_dicts (canonicalize (PDict [(''b'', PInt 7), (''a'', PNone)])) =
     sort_dicts (canonicalize (PData [(''a'', PNone), (''b'', PInt 7)]))"
proof -
  have bytes: "canonical_encode (PDict [(''b'', PInt 7), (''a'', PNone)]) =
      Inr (canonical_bytes (PData [(''a'', PNone), (''b'', PInt 7)]))"
    "canonical_encode (PData [(''a'', PNone), (''b'', PInt 7)]) =
      Inr (canonical_bytes (PData [(''a'', PNone), (''b'', PInt 7)]))"
    by (simp_all add: canonical_encode_def canonical_bytes_def utf8_char_def magnitude_bytes_def bit_length.simps)
  from canonical_encode_injective [OF bytes] bytes show ?thesis by simp
qed

text \<open>
  A record encoder lists its fields under fixed, distinct keys: equal encodings then have equal
  field values.
\<close>

lemma sort_key_fields_inject:
  assumes "sort_key fst d = sort_key fst e" "map fst d = map fst e" "distinct (map fst d)"
  shows "d = e"
proof -
  from assms have "map_of d = map_of e"
    by (metis distinct_map map_of_inject_set mset_eq_imp_distinct_iff mset_sort set_sort)
  moreover have "map (\<lambda>k. (k, the (map_of d k))) (map fst d) = d" if "distinct (map fst d)" for d :: "('a \<times> 'b) list"
    unfolding map_map by (rule map_idI) (use that in auto)
  ultimately show ?thesis
    using assms(2,3) by metis
qed

text \<open>
  What the encoding depends on: the canonical form with the items of every dict in key order. Two
  records with the same field names have one canonical form only if all their fields agree.
\<close>

definition canon :: "pyobj \<Rightarrow> pyobj" where
  "canon v = sort_dicts (canonicalize v)"

lemma canon_simps [simp]:
  "canon PNone = PNone" "canon (PBool c) = PBool c" "canon (PInt i) = PInt i" "canon (PStr s) = PStr s"
  "canon (PBytes b) = PBytes b" "canon (PCanonical v) = canon v" "canon (PList xs) = PList (map canon xs)"
  by (simp_all add: canon_def)

lemma canon_PData: "canon (PData d) = PDict (sort_key fst (map (\<lambda>(k, v). (k, canon v)) d))"
  by (simp add: canon_def comp_def case_prod_unfold)

lemma canon_PDict: "canon (PDict d) = PDict (sort_key fst (map (\<lambda>(k, v). (k, canon v)) d))"
proof -
  have "canon (PDict d) = PDict (sort_key fst (sort_key fst
      (map (\<lambda>(k, v). (k, sort_dicts v)) (map (\<lambda>(k, v). (k, canonicalize v)) d))))"
    by (simp only: canon_def canonicalize.simps sort_dicts.simps sort_key_map_snd)
  then show ?thesis by (simp add: sort_simps canon_def comp_def case_prod_unfold)
qed

lemma canon_fields_inject:
  assumes "sort_key fst (map (\<lambda>(k, v). (k, canon v)) d) = sort_key fst (map (\<lambda>(k, v). (k, canon v)) e)"
    and "map fst d = map fst e" "distinct (map fst d)"
  shows "map (canon \<circ> snd) d = map (canon \<circ> snd) e"
proof -
  have "map (\<lambda>(k, v). (k, canon v)) d = map (\<lambda>(k, v). (k, canon v)) e"
    by (rule sort_key_fields_inject [OF assms(1)]) (use assms in \<open>simp_all add: comp_def case_prod_unfold\<close>)
  then show ?thesis by (auto simp: comp_def case_prod_unfold list_eq_iff_nth_eq)
qed

lemma canonical_bytes_inject:
  assumes "encodable (canonicalize a)" "encodable (canonicalize b)" "canonical_bytes a = canonical_bytes b"
  shows "canon a = canon b"
proof -
  have "encode_value (canon a) = encode_value (canon b)"
    using assms(3) by (simp add: canonical_bytes_def canon_def encode_value_sort_dicts)
  then show ?thesis
    using encode_value_prefix_free [of "canon a" "canon b" "[]" "[]"] assms(1,2)
    by (simp add: canon_def encodable_sort_dicts dicts_sorted_sort_dicts)
qed

end
