(* ===== verification/Claim_Set.thy ===== *)
theory Claim_Set
  imports Crypto Encoding
begin

section \<open>Claim range sets (\<open>EZ_V2/claim_set.py\<close>)\<close>

text \<open>
  A bundle commits to the units it spends by the hash of its claim range set: the ranges of all
  its transactions, sorted and merged until no two touch. \<open>units\<close> is the set of units a list
  of ranges covers. The theory shows that the merge keeps exactly these units, that its result
  always passes the checks of \<open>ClaimRangeSet\<close>, and that it is a normal form: it depends on
  the covered units only.
\<close>

definition merge_step :: "value_range list \<Rightarrow> value_range \<Rightarrow> value_range list" where
  \<comment> \<open>One round of the loop over \<open>ordered[1:]\<close>.\<close>
  "merge_step merged item =
     (let previous = last merged
      in if vr_begin item \<le> vr_end previous + 1
         then butlast merged @ [ValueRange (vr_begin previous) (max (vr_end previous) (vr_end item))]
         else merged @ [item])"

definition build_claim_range_set :: "value_range list \<Rightarrow> claim_range_set" where
  "build_claim_range_set values =
     (case sort_key vr_key values of
        [] \<Rightarrow> \<lparr>crs_ranges = []\<rparr>
      | first # rest \<Rightarrow> \<lparr>crs_ranges = foldl merge_step [first] rest\<rparr>)"

definition claim_range_set_from_sidecar :: "bundle_sidecar \<Rightarrow> claim_range_set" where
  "claim_range_set_from_sidecar sidecar =
     build_claim_range_set (concat (map tx_values (sc_txs sidecar)))"

definition value_range_obj :: "value_range \<Rightarrow> pyobj" where
  \<comment> \<open>\<open>ValueRange.to_canonical\<close>\<close>
  "value_range_obj v = PDict [(''begin'', PInt (vr_begin v)), (''end'', PInt (vr_end v))]"

definition claim_range_set_hash :: "crypto \<Rightarrow> claim_range_set \<Rightarrow> bytes" where
  "claim_range_set_hash C c =
     keccak256 C (ascii ''EZCHAIN_CLAIM_SET_V1'' @
       canonical_bytes (PList (map value_range_obj (crs_ranges c))))"

definition claim_range_set_intersects :: "claim_range_set \<Rightarrow> value_range \<Rightarrow> bool" where
  "claim_range_set_intersects c v \<longleftrightarrow>
     list_ex (\<lambda>item. vr_intersects item v \<or> vr_contains_range item v \<or> vr_contains_range v item)
       (crs_ranges c)"

definition claim_range_set_json_obj :: "claim_range_set \<Rightarrow> pyobj" where
  "claim_range_set_json_obj c = PList (map value_range_obj (crs_ranges c))"

text \<open>
  Reading a claim set back from a decoded JSON value. \<open>int(item["begin"])\<close> is modelled on the
  integers the writer produces; a dict without the key is a \<open>KeyError\<close>, a value that is not
  a list a \<open>ValueError\<close>.
\<close>

datatype claim_json_error = NotAList | MissingKey | NotAnInteger | ClaimRangeError value_error | ClaimSetError type_error

definition json_int_field :: "(string \<times> pyobj) list \<Rightarrow> string \<Rightarrow> claim_json_error + int" where
  "json_int_field d k =
     (case map_of d k of None \<Rightarrow> Inl MissingKey | Some (PInt i) \<Rightarrow> Inr i | Some _ \<Rightarrow> Inl NotAnInteger)"

definition json_value_range :: "(string \<times> pyobj) list \<Rightarrow> claim_json_error + value_range" where
  "json_value_range d =
     res_bind (json_int_field d ''begin'') (\<lambda>b.
     res_bind (json_int_field d ''end'') (\<lambda>e.
     case make_value_range b e of Inl x \<Rightarrow> Inl (ClaimRangeError x) | Inr v \<Rightarrow> Inr v))"

fun dict_items :: "pyobj list \<Rightarrow> (string \<times> pyobj) list list" where
  \<comment> \<open>The items of the payload that are dicts; the others are skipped.\<close>
  "dict_items [] = []"
| "dict_items (PDict d # xs) = d # dict_items xs"
| "dict_items (_ # xs) = dict_items xs"

definition claim_range_set_from_json_obj :: "pyobj \<Rightarrow> claim_json_error + claim_range_set" where
  "claim_range_set_from_json_obj payload =
     (case payload of
        PList xs \<Rightarrow>
          res_bind (res_map json_value_range (dict_items xs)) (\<lambda>ranges.
          case claim_range_set_init \<lparr>crs_ranges = ranges\<rparr> of
            Inl x \<Rightarrow> Inl (ClaimSetError x) | Inr c \<Rightarrow> Inr c)
      | _ \<Rightarrow> Inl NotAList)"

subsection \<open>Normalised lists of ranges\<close>

definition units :: "value_range list \<Rightarrow> int set" where
  "units vs = (\<Union>v\<in>set vs. vr_set v)"

definition gapped :: "value_range list \<Rightarrow> bool" where
  "gapped vs \<longleftrightarrow> sorted_wrt (\<lambda>v w. vr_end v + 1 < vr_begin w) vs"

lemma units_simps [simp]:
  "units [] = {}" "units (v # vs) = vr_set v \<union> units vs" "units (vs @ ws) = units vs \<union> units ws"
  by (auto simp: units_def)

lemma units_mset: "mset vs = mset ws \<Longrightarrow> units vs = units ws"
  by (metis units_def set_mset_mset)

lemma finite_units [simp]: "finite (units vs)"
  by (simp add: units_def)

lemma adjacent_gapped:
  assumes "list_all vr_ok vs"
  shows "adjacent_any (\<lambda>v w. vr_begin w \<le> vr_end v + 1) vs \<longleftrightarrow> \<not> gapped vs"
  using assms
proof (induction vs rule: induct_list012)
  case (3 v w vs)
  then have IH: "adjacent_any (\<lambda>v w. vr_begin w \<le> vr_end v + 1) (w # vs) \<longleftrightarrow> \<not> gapped (w # vs)"
    by simp
  show ?case
  proof (cases "gapped (w # vs) \<and> vr_end v + 1 < vr_begin w")
    case True
    then have "vr_end v + 1 < vr_begin x" if "x \<in> set vs" for x
      using that "3.prems" by (fastforce simp: gapped_def vr_ok_def)
    with True IH show ?thesis by (auto simp: gapped_def)
  next
    case False
    with IH show ?thesis by (auto simp: gapped_def)
  qed
qed (simp_all add: gapped_def)

lemma claim_range_set_ok_iff: "claim_range_set_ok c \<longleftrightarrow> gapped (crs_ranges c) \<and> list_all vr_ok (crs_ranges c)"
  by (auto simp: claim_range_set_ok_def claim_range_set_init_def adjacent_gapped)

text \<open>One merge round adds the units of the item and keeps the list normalised.\<close>

definition merge_inv :: "value_range list \<Rightarrow> int \<Rightarrow> bool" where
  "merge_inv m b \<longleftrightarrow> m \<noteq> [] \<and> gapped m \<and> list_all vr_ok m \<and> vr_begin (last m) \<le> b"

lemma merge_step_inv:
  assumes "merge_inv m (vr_begin item)" "vr_ok item"
  shows "merge_inv (merge_step m item) (vr_begin item)"
    and "units (merge_step m item) = units m \<union> vr_set item"
proof -
  from assms(1) obtain ms p where m: "m = ms @ [p]"
    unfolding merge_inv_def by (metis rev_exhaust)
  with assms have p: "vr_ok p" "vr_begin p \<le> vr_begin item" and ms: "list_all vr_ok ms" "gapped (ms @ [p])"
    by (simp_all add: merge_inv_def)
  show "merge_inv (merge_step m item) (vr_begin item)"
  proof (cases "vr_begin item \<le> vr_end p + 1")
    case True
    with m p ms assms show ?thesis
      by (auto simp: merge_step_def merge_inv_def gapped_def sorted_wrt_append vr_ok_def)
  next
    case False
    with m p ms assms show ?thesis
      by (fastforce simp: merge_step_def merge_inv_def gapped_def sorted_wrt_append vr_ok_def)
  qed
  show "units (merge_step m item) = units m \<union> vr_set item"
    using m p assms(2) by (auto simp: merge_step_def Let_def vr_ok_def)
qed

lemma foldl_merge_step:
  assumes "merge_inv m b" "sorted vs" "list_all vr_ok vs" "\<forall>v\<in>set vs. b \<le> vr_begin v"
  shows "gapped (foldl merge_step m vs) \<and> list_all vr_ok (foldl merge_step m vs) \<and>
    units (foldl merge_step m vs) = units m \<union> units vs"
  using assms
proof (induction vs arbitrary: m b)
  case Nil
  then show ?case by (simp add: merge_inv_def)
next
  case (Cons v vs)
  then have "merge_inv m (vr_begin v)"
    by (auto simp: merge_inv_def)
  with Cons.prems have step: "merge_inv (merge_step m v) (vr_begin v)"
    "units (merge_step m v) = units m \<union> vr_set v"
    by (simp_all add: merge_step_inv)
  moreover have "\<forall>w\<in>set vs. vr_begin v \<le> vr_begin w"
    using Cons.prems(2) by (auto simp: le_vr_iff)
  ultimately show ?case
    using Cons.IH [of "merge_step m v" "vr_begin v"] Cons.prems by auto
qed

lemma build_claim_range_set_spec:
  assumes "list_all vr_ok vs"
  shows "gapped (crs_ranges (build_claim_range_set vs))"
    and "list_all vr_ok (crs_ranges (build_claim_range_set vs))"
    and "units (crs_ranges (build_claim_range_set vs)) = units vs"
proof -
  let ?c = "crs_ranges (build_claim_range_set vs)"
  have "gapped ?c \<and> list_all vr_ok ?c \<and> units ?c = units vs"
  proof (cases "sort_key vr_key vs")
    case Nil
    then have "vs = []" by (metis length_0_conv length_sort)
    then show ?thesis by (simp add: build_claim_range_set_def gapped_def)
  next
    case (Cons v ws)
    have ok: "list_all vr_ok (v # ws)"
      using assms by (metis Cons list.pred_set set_sort)
    have s: "sorted (v # ws)"
      by (metis Cons sort_key_vr_key sorted_sort)
    have u: "units vs = units (v # ws)"
      by (metis Cons mset_sort units_mset)
    have "merge_inv [v] (vr_begin v)"
      using ok by (simp add: merge_inv_def gapped_def)
    moreover have "\<forall>w\<in>set ws. vr_begin v \<le> vr_begin w"
      using s by (auto simp: le_vr_iff)
    ultimately show ?thesis
      using foldl_merge_step [of "[v]" "vr_begin v" ws] ok s u Cons
      by (simp add: build_claim_range_set_def)
  qed
  then show "gapped ?c" "list_all vr_ok ?c" "units ?c = units vs" by simp_all
qed

lemma gapped_bounds:
  assumes "gapped (v # vs)" "list_all vr_ok (v # vs)"
  shows "n \<in> units vs \<Longrightarrow> vr_end v + 1 < n" and "n \<in> units (v # vs) \<Longrightarrow> vr_begin v \<le> n"
proof -
  show *: "vr_end v + 1 < n" if "n \<in> units vs" for n
    using assms that by (fastforce simp: gapped_def units_def)
  show "n \<in> units (v # vs) \<Longrightarrow> vr_begin v \<le> n"
    using * [of n] assms by (auto simp: vr_ok_def)
qed

lemma gapped_unique:
  assumes "gapped vs" "gapped ws" "list_all vr_ok vs" "list_all vr_ok ws" "units vs = units ws"
  shows "vs = ws"
  using assms
proof (induction vs arbitrary: ws)
  case Nil
  then show ?case
    by (cases ws) (auto simp: vr_ok_def vr_set_def)
next
  case (Cons v vs)
  have "vr_ok v" using Cons.prems(3) by simp
  then have "vr_begin v \<in> units (v # vs)" by (simp add: vr_ok_def)
  then have "ws \<noteq> []"
    unfolding Cons.prems(5) by (metis empty_iff units_simps(1))
  then obtain w ws' where ws: "ws = w # ws'"
    by (meson neq_Nil_conv)
  note bv = gapped_bounds [OF Cons.prems(1,3)]
  note bw = gapped_bounds [OF Cons.prems(2,4) [unfolded ws]]
  note same = Cons.prems(5) [unfolded ws]
  have okv: "vr_begin v \<le> vr_end v" and okw: "vr_begin w \<le> vr_end w"
    using Cons.prems ws by (simp_all add: vr_ok_def)
  have "vr_begin w \<in> units (w # ws')" using okw by simp
  then have "vr_begin v \<le> vr_begin w" unfolding same [symmetric] by (rule bv(2))
  moreover have "vr_begin w \<le> vr_begin v"
    using \<open>vr_begin v \<in> units (v # vs)\<close> unfolding same by (rule bw(2))
  ultimately have b: "vr_begin v = vr_begin w" by simp
  have "vr_end v + 1 \<notin> units (v # vs)" "vr_end w + 1 \<notin> units (w # ws')"
    using bv(1) [of "vr_end v + 1"] bw(1) [of "vr_end w + 1"] by auto
  then have "vr_end v + 1 \<notin> units (w # ws')" "vr_end w + 1 \<notin> units (v # vs)"
    by (simp_all only: same not_False_eq_True)
  then have "vr_end v + 1 \<notin> vr_set w" "vr_end w + 1 \<notin> vr_set v" by simp_all
  then have e: "vr_end v = vr_end w" using b okv okw by auto
  have vw: "v = w" using b e by (simp add: value_range.expand)
  have "units vs = units (v # vs) - vr_set v" "units ws' = units (w # ws') - vr_set w"
    using bv(1) bw(1) by fastforce+
  then have "units vs = units ws'" using same vw by simp
  moreover have "gapped vs" "gapped ws'" using Cons.prems(1,2) ws by (simp_all add: gapped_def)
  ultimately have "vs = ws'" using Cons.IH [of ws'] Cons.prems(3,4) ws by simp
  with ws vw show ?case by simp
qed

lemma claim_range_set_intersects_iff:
  assumes "list_all vr_ok (crs_ranges c)" "vr_ok v"
  shows "claim_range_set_intersects c v \<longleftrightarrow> units (crs_ranges c) \<inter> vr_set v \<noteq> {}"
proof -
  have "vr_intersects x v \<or> vr_contains_range x v \<or> vr_contains_range v x \<longleftrightarrow> vr_set x \<inter> vr_set v \<noteq> {}"
    if "x \<in> set (crs_ranges c)" for x
    using that assms vr_contains_imp_intersects [of v x] vr_contains_imp_intersects [of x v]
    by (auto simp: vr_intersects_iff [symmetric] vr_intersects_sym list_all_iff)
  then show ?thesis
    by (auto simp: claim_range_set_intersects_def list_ex_iff units_def)
qed

text \<open>
  C19. The claim range set is a normal form of the units a bundle spends. For valid ranges the
  constructor's check never fails, the set covers exactly the units of the input, and two inputs
  give the same claim set if and only if they cover the same units, whatever their order,
  overlaps and adjacencies.
\<close>
theorem claim_range_set_normal_form:
  assumes "list_all vr_ok vs" "list_all vr_ok ws"
  shows "claim_range_set_init (build_claim_range_set vs) = Inr (build_claim_range_set vs) \<and>
    units (crs_ranges (build_claim_range_set vs)) = units vs \<and>
    (build_claim_range_set vs = build_claim_range_set ws \<longleftrightarrow> units vs = units ws)"
proof (intro conjI)
  note v = build_claim_range_set_spec [OF assms(1)] and w = build_claim_range_set_spec [OF assms(2)]
  show "claim_range_set_init (build_claim_range_set vs) = Inr (build_claim_range_set vs)"
    using v by (simp add: claim_range_set_init_def adjacent_gapped)
  show "units (crs_ranges (build_claim_range_set vs)) = units vs" by (rule v)
  show "build_claim_range_set vs = build_claim_range_set ws \<longleftrightarrow> units vs = units ws"
  proof
    assume "build_claim_range_set vs = build_claim_range_set ws"
    with v w show "units vs = units ws" by metis
  next
    assume "units vs = units ws"
    with v w have "crs_ranges (build_claim_range_set vs) = crs_ranges (build_claim_range_set ws)"
      by (intro gapped_unique) simp_all
    then show "build_claim_range_set vs = build_claim_range_set ws"
      by (cases "build_claim_range_set vs"; cases "build_claim_range_set ws") simp
  qed
qed

theorem claim_range_set_normal_form_witness:
  "build_claim_range_set [ValueRange 5 9, ValueRange 0 4, ValueRange 20 30] =
     build_claim_range_set [ValueRange 0 7, ValueRange 6 9, ValueRange 20 30, ValueRange 21 22]"
proof -
  have ok: "list_all vr_ok [ValueRange 5 9, ValueRange 0 4, ValueRange 20 30]"
    "list_all vr_ok [ValueRange 0 7, ValueRange 6 9, ValueRange 20 30, ValueRange 21 22]"
    by (simp_all add: vr_ok_def)
  have "units [ValueRange 5 9, ValueRange 0 4, ValueRange 20 30] =
      units [ValueRange 0 7, ValueRange 6 9, ValueRange 20 30, ValueRange 21 22]"
    by (auto simp: vr_set_def)
  with claim_range_set_normal_form [OF ok] show ?thesis by blast
qed

text \<open>A claim set survives the round trip through its JSON form: reading the object that
  \<open>claim_range_set_json_obj\<close> writes gives the same claim set and no error.
\<close>
theorem claim_range_set_json_roundtrip:
  assumes "claim_range_set_ok c"
  shows "claim_range_set_from_json_obj (claim_range_set_json_obj c) = Inr c"
proof -
  let ?f = "\<lambda>v. [(''begin'', PInt (vr_begin v)), (''end'', PInt (vr_end v))]"
  have items: "dict_items (map value_range_obj vs) = map ?f vs" for vs
    by (induction vs) (simp_all add: value_range_obj_def)
  have parse: "json_value_range (?f v) = Inr v" if "vr_ok v" for v
    using that by (cases v) (simp add: json_value_range_def json_int_field_def make_value_range_def vr_ok_def)
  have "res_map json_value_range (map ?f vs) = Inr vs" if "list_all vr_ok vs" for vs
    using that by (induction vs) (simp_all add: parse)
  then have "res_map json_value_range (map ?f (crs_ranges c)) = Inr (crs_ranges c)"
    using assms by (simp add: claim_range_set_ok_iff)
  then show ?thesis
    using assms
    by (cases c)
       (auto simp: claim_range_set_from_json_obj_def claim_range_set_json_obj_def items
         claim_range_set_init_def claim_range_set_ok_def split: if_splits)
qed

theorem claim_range_set_json_roundtrip_witness:
  "claim_range_set_from_json_obj (claim_range_set_json_obj \<lparr>crs_ranges = [ValueRange 0 4, ValueRange 6 9]\<rparr>)
     = Inr \<lparr>crs_ranges = [ValueRange 0 4, ValueRange 6 9]\<rparr>"
proof -
  have "claim_range_set_ok \<lparr>crs_ranges = [ValueRange 0 4, ValueRange 6 9]\<rparr>"
    by (simp add: claim_range_set_ok_iff gapped_def vr_ok_def)
  then show ?thesis by (rule claim_range_set_json_roundtrip)
qed

end
