(* ===== verification/Chain_Hash.thy ===== *)
theory Chain_Hash
  imports Smt Claim_Set
begin

section \<open>What the ledger hashes (\<open>EZ_V2/chain.py\<close>, first part)\<close>

text \<open>
  The encoders of the protocol's records into the universe of \<open>Encoding\<close>, the hash functions
  at the head of \<open>chain.py\<close> and its Merkle tree. The theory shows what each hash commits to:
  two objects with one hash are equal unless the two inputs collide.
\<close>

subsection \<open>Records as objects\<close>

definition bytes_opt_obj :: "bytes option \<Rightarrow> pyobj" where
  "bytes_opt_obj b = (case b of None \<Rightarrow> PNone | Some h \<Rightarrow> PBytes h)"

definition bundle_ref_obj :: "bundle_ref \<Rightarrow> pyobj" where
  "bundle_ref_obj r = PData [(''height'', PInt (br_height r)), (''block_hash'', PBytes (br_block_hash r)),
     (''bundle_hash'', PBytes (br_bundle_hash r)), (''seq'', PInt (br_seq r))]"

definition bundle_ref_opt_obj :: "bundle_ref option \<Rightarrow> pyobj" where
  "bundle_ref_opt_obj r = (case r of None \<Rightarrow> PNone | Some x \<Rightarrow> bundle_ref_obj x)"

definition offchain_tx_obj :: "offchain_tx \<Rightarrow> pyobj" where
  "offchain_tx_obj t = PData [(''sender_addr'', PStr (tx_sender t)), (''recipient_addr'', PStr (tx_recipient t)),
     (''value_list'', PList (map (\<lambda>v. PCanonical (value_range_obj v)) (tx_values t))),
     (''tx_local_index'', PInt (tx_local_index t)), (''tx_time'', PInt (tx_time t)),
     (''extra_data'', PBytes (tx_extra t))]"

definition bundle_sidecar_obj :: "bundle_sidecar \<Rightarrow> pyobj" where
  "bundle_sidecar_obj s = PData [(''sender_addr'', PStr (sc_sender s)),
     (''tx_list'', PList (map offchain_tx_obj (sc_txs s))), (''tx_count'', PInt (sc_tx_count s))]"

definition bundle_envelope_obj :: "bundle_envelope \<Rightarrow> pyobj" where
  "bundle_envelope_obj e = PData [(''version'', PInt (env_version e)), (''chain_id'', PInt (env_chain_id e)),
     (''seq'', PInt (env_seq e)), (''expiry_height'', PInt (env_expiry_height e)), (''fee'', PInt (env_fee e)),
     (''anti_spam_nonce'', PInt (env_nonce e)), (''bundle_hash'', PBytes (env_bundle_hash e)),
     (''claim_set_hash'', bytes_opt_obj (env_claim_set_hash e)), (''sig'', PBytes (env_sig e))]"

definition claim_set_hash_item :: "bytes option \<Rightarrow> (string \<times> pyobj) list" where
  "claim_set_hash_item b = (case b of None \<Rightarrow> [] | Some h \<Rightarrow> [(''claim_set_hash'', PBytes h)])"

definition signing_payload :: "bundle_envelope \<Rightarrow> pyobj" where
  "signing_payload e = PDict ([(''version'', PInt (env_version e)), (''chain_id'', PInt (env_chain_id e)),
     (''seq'', PInt (env_seq e)), (''expiry_height'', PInt (env_expiry_height e)), (''fee'', PInt (env_fee e)),
     (''anti_spam_nonce'', PInt (env_nonce e)), (''bundle_hash'', PBytes (env_bundle_hash e))]
     @ claim_set_hash_item (env_claim_set_hash e))"

definition account_leaf_obj :: "account_leaf \<Rightarrow> pyobj" where
  "account_leaf_obj l = PData [(''addr'', PStr (leaf_addr l)), (''head_ref'', bundle_ref_opt_obj (leaf_head_ref l)),
     (''prev_ref'', bundle_ref_opt_obj (leaf_prev_ref l)),
     (''claim_set_hash'', bytes_opt_obj (leaf_claim_set_hash l))]"

definition account_leaf_payload :: "account_leaf \<Rightarrow> pyobj" where
  "account_leaf_payload l = PDict ([(''addr'', PStr (leaf_addr l)),
     (''head_ref'', bundle_ref_opt_obj (leaf_head_ref l)),
     (''prev_ref'', bundle_ref_opt_obj (leaf_prev_ref l))] @ claim_set_hash_item (leaf_claim_set_hash l))"

subsection \<open>Hashes\<close>

definition ZERO_HASH32 :: bytes where
  "ZERO_HASH32 = replicate 32 0"

definition EMPTY_DIFF_ROOT :: "crypto \<Rightarrow> bytes" where
  "EMPTY_DIFF_ROOT C = keccak256 C (ascii ''EZCHAIN_EMPTY_DIFF_ROOT_V2'')"

definition MERKLE_EMPTY :: "crypto \<Rightarrow> bytes" where
  "MERKLE_EMPTY C = keccak256 C (ascii ''EZCHAIN_EMPTY_MERKLE_V2'')"

fun next_level :: "crypto \<Rightarrow> bytes \<Rightarrow> bytes list \<Rightarrow> bytes list" where
  "next_level C domain [] = []"
| "next_level C domain [left] = [keccak256 C (domain @ left @ left)]"
| "next_level C domain (left # right # level) = keccak256 C (domain @ left @ right) # next_level C domain level"

lemma length_next_level [simp]: "length (next_level C domain level) = (length level + 1) div 2"
  by (induction level rule: next_level.induct [of _ C domain]) simp_all

function merkle_loop :: "crypto \<Rightarrow> bytes \<Rightarrow> bytes list \<Rightarrow> bytes list" where
  "merkle_loop C domain level =
     (if length level > 1 then merkle_loop C domain (next_level C domain level) else level)"
  by pat_completeness auto
termination by (relation "measure (\<lambda>(C, domain, level). length level)") auto

declare merkle_loop.simps [simp del]

datatype hash_error = LeafHashNotHash32

definition merkle_root :: "crypto \<Rightarrow> bytes list \<Rightarrow> bytes \<Rightarrow> hash_error + bytes" where
  "merkle_root C leaf_hashes domain =
     (if leaf_hashes = [] then Inr (MERKLE_EMPTY C)
      else if list_ex (\<lambda>item. length item \<noteq> 32) leaf_hashes then Inl LeafHashNotHash32
      else Inr (hd (merkle_loop C domain leaf_hashes)))"

definition addr_key_input :: "string \<Rightarrow> bytes" where
  "addr_key_input addr = ascii ''EZCHAIN_ADDR_KEY_V2'' @ utf8 addr"

definition compute_addr_key :: "crypto \<Rightarrow> string \<Rightarrow> bytes" where
  "compute_addr_key C addr = keccak256 C (addr_key_input addr)"

definition bundle_hash_input :: "bundle_sidecar \<Rightarrow> bytes" where
  "bundle_hash_input sidecar = ascii ''EZCHAIN_BUNDLE_BODY_V2'' @ canonical_bytes (bundle_sidecar_obj sidecar)"

definition compute_bundle_hash :: "crypto \<Rightarrow> bundle_sidecar \<Rightarrow> bytes" where
  "compute_bundle_hash C sidecar = keccak256 C (bundle_hash_input sidecar)"

definition sighash_input :: "bundle_envelope \<Rightarrow> bytes" where
  "sighash_input e = ascii ''EZCHAIN_BUNDLE_V2'' @ canonical_bytes (signing_payload e)"

definition compute_bundle_sighash :: "crypto \<Rightarrow> bundle_envelope \<Rightarrow> bytes" where
  "compute_bundle_sighash C e = keccak256 C (sighash_input e)"

definition sign_bundle_envelope :: "crypto \<Rightarrow> bundle_envelope \<Rightarrow> bytes \<Rightarrow> crypto_error + bundle_envelope" where
  "sign_bundle_envelope C e private_key_pem =
     res_bind (sign_digest_secp256k1 C private_key_pem (compute_bundle_sighash C e)) (\<lambda>signature.
     Inr (with_signature e signature))"

definition verify_bundle_envelope :: "crypto \<Rightarrow> bundle_envelope \<Rightarrow> bytes \<Rightarrow> crypto_error + bool" where
  "verify_bundle_envelope C e public_key_pem =
     (if env_sig e = [] then Inr False
      else verify_digest_secp256k1 C public_key_pem (compute_bundle_sighash C e) (env_sig e))"

definition leaf_hash_input :: "account_leaf \<Rightarrow> bytes" where
  "leaf_hash_input l = ascii ''EZCHAIN_ACCOUNT_LEAF_V2'' @ canonical_bytes (account_leaf_payload l)"

definition hash_account_leaf :: "crypto \<Rightarrow> account_leaf \<Rightarrow> bytes" where
  "hash_account_leaf C l = keccak256 C (leaf_hash_input l)"

definition compute_diff_leaf_hash :: "crypto \<Rightarrow> diff_entry \<Rightarrow> bytes" where
  "compute_diff_leaf_hash C entry =
     (let envelope_hash = keccak256 C (canonical_bytes (bundle_envelope_obj (de_envelope entry)));
          leaf_hash = keccak256 C (canonical_bytes (account_leaf_obj (de_new_leaf entry)))
      in keccak256 C (ascii ''EZCHAIN_DIFF_LEAF_V2'' @
           canonical_bytes (PDict [(''addr_key'', PBytes (de_addr_key entry)), (''new_leaf_hash'', PBytes leaf_hash),
             (''bundle_envelope_hash'', PBytes envelope_hash), (''bundle_hash'', PBytes (de_bundle_hash entry))])))"

definition compute_diff_root :: "crypto \<Rightarrow> diff_entry list \<Rightarrow> hash_error + bytes" where
  "compute_diff_root C entries =
     (if entries = [] then Inr (EMPTY_DIFF_ROOT C)
      else merkle_root C (map (compute_diff_leaf_hash C) entries) (ascii ''EZCHAIN_DIFF_NODE_V2''))"

record block_id =
  bi_version :: int
  bi_chain_id :: int
  bi_height :: int
  bi_prev_block_hash :: bytes
  bi_timestamp :: int
  bi_proposer_sig :: bytes
  bi_consensus_extra :: bytes
  bi_addr_keys :: "bytes list"
  bi_bundle_hashes :: "bytes list"

definition block_id_fields :: "block_id \<Rightarrow> (string \<times> pyobj) list" where
  "block_id_fields b = [(''version'', PInt (bi_version b)), (''chain_id'', PInt (bi_chain_id b)),
     (''height'', PInt (bi_height b)), (''prev_block_hash'', PBytes (bi_prev_block_hash b)),
     (''timestamp'', PInt (bi_timestamp b)), (''proposer_sig'', PBytes (bi_proposer_sig b)),
     (''consensus_extra'', PBytes (bi_consensus_extra b)),
     (''addr_keys'', PList (map PBytes (bi_addr_keys b))),
     (''bundle_hashes'', PList (map PBytes (bi_bundle_hashes b)))]"

definition block_id_obj :: "block_id \<Rightarrow> pyobj" where
  "block_id_obj b = PDict (block_id_fields b)"

definition block_id_input :: "block_id \<Rightarrow> bytes" where
  "block_id_input b = ascii ''EZCHAIN_BLOCK_ID_V2'' @ canonical_bytes (block_id_obj b)"

definition derive_block_hash ::
    "crypto \<Rightarrow> int \<Rightarrow> int \<Rightarrow> int \<Rightarrow> bytes \<Rightarrow> int \<Rightarrow> bytes \<Rightarrow> bytes \<Rightarrow> diff_entry list \<Rightarrow> bytes" where
  "derive_block_hash C version chain_id height prev_block_hash timestamp proposer_sig consensus_extra ordered_entries =
     keccak256 C (block_id_input \<lparr>bi_version = version, bi_chain_id = chain_id, bi_height = height,
       bi_prev_block_hash = prev_block_hash, bi_timestamp = timestamp, bi_proposer_sig = proposer_sig,
       bi_consensus_extra = consensus_extra, bi_addr_keys = map de_addr_key ordered_entries,
       bi_bundle_hashes = map de_bundle_hash ordered_entries\<rparr>)"

definition confirmed_ref :: "crypto \<Rightarrow> confirmed_unit \<Rightarrow> bundle_ref" where
  "confirmed_ref C unit = \<lparr>br_height = hl_height (rc_header (cu_receipt unit)),
     br_block_hash = hl_block_hash (rc_header (cu_receipt unit)),
     br_bundle_hash = compute_bundle_hash C (cu_sidecar unit), br_seq = rc_seq (cu_receipt unit)\<rparr>"

definition reconstructed_leaf :: "crypto \<Rightarrow> confirmed_unit \<Rightarrow> account_leaf" where
  "reconstructed_leaf C unit = \<lparr>leaf_addr = sc_sender (cu_sidecar unit),
     leaf_head_ref = Some (confirmed_ref C unit), leaf_prev_ref = rc_prev_ref (cu_receipt unit),
     leaf_claim_set_hash = rc_claim_set_hash (cu_receipt unit)\<rparr>"

lemma reconstructed_leaf_ok:
  assumes "digests32 C" "confirmed_unit_ok u"
  shows "account_leaf_ok (reconstructed_leaf C u)"
  using assms by (auto simp: confirmed_unit_ok_def reconstructed_leaf_def confirmed_ref_def account_leaf_ok_def
      account_leaf_init_def bundle_ref_ok_iff receipt_ok_def receipt_init_def header_lite_ok_def header_lite_init_def
      bundle_sidecar_ok_iff compute_bundle_hash_def keccak_hash32 split: if_splits)

subsection \<open>Objects with one canonical form are equal\<close>

lemma canon_data_inject:
  assumes "canon (PData d) = canon (PData e)" "map fst d = map fst e" "distinct (map fst d)"
  shows "map (canon \<circ> snd) d = map (canon \<circ> snd) e"
  by (rule canon_fields_inject [OF _ assms(2,3)]) (use assms(1) in \<open>simp add: canon_PData\<close>)

lemma canon_dict_inject:
  assumes "canon (PDict d) = canon (PDict e)" "map fst d = map fst e" "distinct (map fst d)"
  shows "map (canon \<circ> snd) d = map (canon \<circ> snd) e"
  by (rule canon_fields_inject [OF _ assms(2,3)]) (use assms(1) in \<open>simp add: canon_PDict\<close>)

lemma canon_dict_length: "canon (PDict d) = canon (PDict e) \<Longrightarrow> length d = length e"
  by (auto simp: canon_PDict dest: arg_cong [of _ _ length])

lemma canon_dict_optional:
  assumes "canon (PDict (d @ claim_set_hash_item a)) = canon (PDict (e @ claim_set_hash_item b))"
    and "map fst d = map fst e" "distinct (map fst d @ [''claim_set_hash''])"
  shows "map (canon \<circ> snd) d = map (canon \<circ> snd) e \<and> a = b"
proof -
  have "length d = length e" using assms(2) by (metis length_map)
  then have "length (claim_set_hash_item a) = length (claim_set_hash_item b)"
    using canon_dict_length [OF assms(1)] by simp
  then have k: "map fst (claim_set_hash_item a) = map fst (claim_set_hash_item b)"
    by (simp add: claim_set_hash_item_def split: option.splits)
  have "map (canon \<circ> snd) (d @ claim_set_hash_item a) = map (canon \<circ> snd) (e @ claim_set_hash_item b)"
    by (rule canon_dict_inject [OF assms(1)])
      (use assms(2,3) k in \<open>auto simp: claim_set_hash_item_def split: option.splits\<close>)
  then show ?thesis
    using \<open>length d = length e\<close> by (auto simp: claim_set_hash_item_def split: option.splits)
qed

lemma list_map_inject: "(\<And>x y. f x = f y \<Longrightarrow> x = y) \<Longrightarrow> map f xs = map f ys \<Longrightarrow> xs = ys"
  by (metis injI inj_map_eq_map)

lemma bytes_opt_inject: "canon (bytes_opt_obj a) = canon (bytes_opt_obj b) \<Longrightarrow> a = b"
  by (simp add: bytes_opt_obj_def split: option.splits)

lemma bundle_ref_inject: "canon (bundle_ref_obj a) = canon (bundle_ref_obj b) \<Longrightarrow> a = b"
  unfolding bundle_ref_obj_def by (drule canon_data_inject) (simp_all add: bundle_ref.equality)

lemma bundle_ref_opt_inject: "canon (bundle_ref_opt_obj a) = canon (bundle_ref_opt_obj b) \<Longrightarrow> a = b"
  by (auto simp: bundle_ref_opt_obj_def bundle_ref_obj_def canon_PData split: option.splits
      dest!: bundle_ref_inject [unfolded bundle_ref_obj_def canon_PData])

lemma value_range_inject: "canon (value_range_obj a) = canon (value_range_obj b) \<Longrightarrow> a = b"
  unfolding value_range_obj_def by (drule canon_dict_inject) (simp_all add: value_range.expand)

lemma offchain_tx_inject: "canon (offchain_tx_obj a) = canon (offchain_tx_obj b) \<Longrightarrow> a = b"
  unfolding offchain_tx_obj_def
  by (drule canon_data_inject)
    (auto intro!: offchain_tx.equality list_map_inject [of "canon \<circ> (\<lambda>v. PCanonical (value_range_obj v))"]
      dest: value_range_inject simp: comp_def)

lemma bundle_sidecar_inject: "canon (bundle_sidecar_obj a) = canon (bundle_sidecar_obj b) \<Longrightarrow> a = b"
  unfolding bundle_sidecar_obj_def
  by (drule canon_data_inject)
    (auto intro!: bundle_sidecar.equality list_map_inject [of "canon \<circ> offchain_tx_obj"]
      dest: offchain_tx_inject simp: comp_def)

lemma signing_payload_inject:
  "canon (signing_payload a) = canon (signing_payload b) \<Longrightarrow> with_signature a [] = with_signature b []"
  unfolding signing_payload_def
  by (drule canon_dict_optional) (simp_all add: with_signature_def bundle_envelope.equality)

lemma account_leaf_payload_inject:
  "canon (account_leaf_payload a) = canon (account_leaf_payload b) \<Longrightarrow> a = b"
  unfolding account_leaf_payload_def
  by (drule canon_dict_optional) (auto intro!: account_leaf.equality dest: bundle_ref_opt_inject)

definition encodes :: "pyobj \<Rightarrow> bool" where
  \<comment> \<open>Every part of the object is shorter than 4 GiB.\<close>
  "encodes v \<longleftrightarrow> encodable (canonicalize v)"

lemma prefixed_hash_inject:
  assumes "no_collision C [ascii tag @ canonical_bytes a] [ascii tag @ canonical_bytes b]"
    and "keccak256 C (ascii tag @ canonical_bytes a) = keccak256 C (ascii tag @ canonical_bytes b)"
    and "encodes a" "encodes b"
  shows "canon a = canon b"
  using no_collisionD [OF assms(1) _ _ assms(2)] assms(3,4) canonical_bytes_inject [of a b]
  by (simp add: encodes_def)

text \<open>A bundle hash commits to the whole bundle: two sidecars with one hash are equal in every
  field of every transaction, if their encodings stay below the 4 GiB limit and the two inputs do
  not collide.\<close>

theorem bundle_hash_binds:
  assumes "compute_bundle_hash C s = compute_bundle_hash C s'"
    and "encodes (bundle_sidecar_obj s)" "encodes (bundle_sidecar_obj s')"
    and "no_collision C [bundle_hash_input s] [bundle_hash_input s']"
  shows "s = s'"
  using assms unfolding compute_bundle_hash_def bundle_hash_input_def
  by (intro bundle_sidecar_inject prefixed_hash_inject)

text \<open>The hash of an account leaf commits to the account, its claim set and both references.\<close>

lemma account_leaf_hash_binds:
  assumes "hash_account_leaf C l = hash_account_leaf C l'"
    and "encodes (account_leaf_payload l)" "encodes (account_leaf_payload l')"
    and "no_collision C [leaf_hash_input l] [leaf_hash_input l']"
  shows "l = l'"
  using assms unfolding hash_account_leaf_def leaf_hash_input_def
  by (intro account_leaf_payload_inject prefixed_hash_inject)

text \<open>The digest a sender signs commits to every field of the envelope but the signature.\<close>

theorem sighash_binds:
  assumes "compute_bundle_sighash C e = compute_bundle_sighash C e'"
    and "encodes (signing_payload e)" "encodes (signing_payload e')"
    and "no_collision C [sighash_input e] [sighash_input e']"
  shows "with_signature e sig = with_signature e' sig"
proof -
  have "with_signature e [] = with_signature e' []"
    using assms unfolding compute_bundle_sighash_def sighash_input_def
    by (intro signing_payload_inject prefixed_hash_inject)
  then show ?thesis by (cases e; cases e') (simp add: with_signature_def)
qed

text \<open>A block hash commits to the block's number, parent, time, proposer data, and the ordered keys
  and bundle hashes of its entries.\<close>

theorem block_hash_binds:
  assumes "derive_block_hash C v c h p t sg x es = derive_block_hash C v' c' h' p' t' sg' x' es'"
    and "b = \<lparr>bi_version = v, bi_chain_id = c, bi_height = h, bi_prev_block_hash = p, bi_timestamp = t,
      bi_proposer_sig = sg, bi_consensus_extra = x, bi_addr_keys = map de_addr_key es,
      bi_bundle_hashes = map de_bundle_hash es\<rparr>"
    and "b' = \<lparr>bi_version = v', bi_chain_id = c', bi_height = h', bi_prev_block_hash = p', bi_timestamp = t',
      bi_proposer_sig = sg', bi_consensus_extra = x', bi_addr_keys = map de_addr_key es',
      bi_bundle_hashes = map de_bundle_hash es'\<rparr>"
    and "encodes (block_id_obj b)" "encodes (block_id_obj b')"
    and "no_collision C [block_id_input b] [block_id_input b']"
  shows "v = v' \<and> c = c' \<and> h = h' \<and> p = p' \<and> t = t' \<and> sg = sg' \<and> x = x' \<and>
    map de_addr_key es = map de_addr_key es' \<and> map de_bundle_hash es = map de_bundle_hash es'"
proof -
  have "canon (block_id_obj b) = canon (block_id_obj b')"
    using assms(1,4-) unfolding derive_block_hash_def assms(2,3) [symmetric] block_id_input_def
    by (intro prefixed_hash_inject)
  then have "map (canon \<circ> snd) (block_id_fields b) = map (canon \<circ> snd) (block_id_fields b')"
    unfolding block_id_obj_def by (rule canon_dict_inject) (simp_all add: block_id_fields_def)
  then show ?thesis
    by (auto simp: block_id_fields_def assms(2,3) comp_def intro!: list_map_inject [of PBytes]
        list_map_inject [of PBytes "map de_addr_key es"])
qed

subsection \<open>The Merkle tree over the diff entries\<close>

fun level_inputs :: "bytes \<Rightarrow> bytes list \<Rightarrow> bytes list" where
  "level_inputs domain [] = []"
| "level_inputs domain [left] = [domain @ left @ left]"
| "level_inputs domain (left # right # level) = (domain @ left @ right) # level_inputs domain level"

lemma next_level_inputs: "next_level C domain level = map (keccak256 C) (level_inputs domain level)"
  by (induction level rule: next_level.induct [of _ C domain]) simp_all

function merkle_inputs :: "crypto \<Rightarrow> bytes \<Rightarrow> bytes list \<Rightarrow> bytes list" where
  "merkle_inputs C domain level =
     (if length level > 1 then level_inputs domain level @ merkle_inputs C domain (next_level C domain level) else [])"
  by pat_completeness auto
termination by (relation "measure (\<lambda>(C, domain, level). length level)") auto

declare merkle_inputs.simps [simp del]

lemma no_collision_append:
  "no_collision C (xs @ xs') (ys @ ys') \<Longrightarrow> no_collision C xs ys \<and> no_collision C xs' ys'"
  by (auto simp: no_collision_def list_all_iff)

lemma no_collision_map:
  assumes "no_collision C xs ys" "map (keccak256 C) xs = map (keccak256 C) ys"
  shows "xs = ys"
proof -
  have "length xs = length ys" using assms(2) by (rule map_eq_imp_length_eq)
  then show ?thesis using assms
    by (induction xs ys rule: list_induct2) (auto simp: no_collision_def list_all_iff)
qed

lemma level_inputs_inject:
  "length xs = length ys \<Longrightarrow> list_all (\<lambda>x. length x = 32) (xs @ ys) \<Longrightarrow>
   level_inputs domain xs = level_inputs domain ys \<Longrightarrow> xs = ys"
proof (induction domain xs arbitrary: ys rule: level_inputs.induct)
  case (2 domain l)
  then show ?case by (cases ys) auto
next
  case (3 domain l r xs)
  then obtain l' r' ys' where ys: "ys = l' # r' # ys'" by (metis length_Suc_conv list.size(4))
  from 3 ys have "l @ r = l' @ r'" "length l = length l'" "xs = ys'" by simp_all
  then show ?case using ys by simp
qed simp

lemma merkle_loop_inject:
  assumes "length xs = length ys" "list_all (\<lambda>x. length x = 32) (xs @ ys)" "xs \<noteq> []"
    and "hd (merkle_loop C domain xs) = hd (merkle_loop C domain ys)"
    and "no_collision C (merkle_inputs C domain xs) (merkle_inputs C domain ys)"
    and "digests32 C"
  shows "xs = ys"
  using assms
proof (induction C domain xs arbitrary: ys rule: merkle_loop.induct)
  case (1 C domain xs)
  show ?case
  proof (cases "length xs > 1")
    case True
    let ?xs = "next_level C domain xs" and ?ys = "next_level C domain ys"
    have nc: "no_collision C (level_inputs domain xs) (level_inputs domain ys)"
      "no_collision C (merkle_inputs C domain ?xs) (merkle_inputs C domain ?ys)"
      using no_collision_append [of C "level_inputs domain xs" "merkle_inputs C domain ?xs"] "1.prems"(1,5) True
      unfolding merkle_inputs.simps [of C domain xs] merkle_inputs.simps [of C domain ys] by simp_all
    have "?xs = ?ys"
    proof (rule "1.IH" [OF True _ _ _ _ nc(2) "1.prems"(6)])
      show "list_all (\<lambda>x. length x = 32) (?xs @ ?ys)"
        using "1.prems"(6) by (auto simp: list_all_iff next_level_inputs keccak_length)
      show "?xs \<noteq> []" using True by (cases xs; cases "tl xs") auto
      show "hd (merkle_loop C domain ?xs) = hd (merkle_loop C domain ?ys)"
        using "1.prems"(1,4) True by (simp add: merkle_loop.simps [of C domain xs] merkle_loop.simps [of C domain ys])
    qed (simp add: "1.prems"(1))
    then have "level_inputs domain xs = level_inputs domain ys"
      using nc(1) by (simp add: next_level_inputs no_collision_map)
    with "1.prems"(1,2) show ?thesis by (rule level_inputs_inject)
  next
    case False
    with "1.prems"(1,3) obtain x y where "xs = [x]" "ys = [y]"
      by (cases xs; cases ys) auto
    with "1.prems"(4) show ?thesis by (simp add: merkle_loop.simps)
  qed
qed


text \<open>The diff root commits to the hashes of the entries: two lists of 32-byte leaves of one length
  with one Merkle root are equal, unless inputs hashed in the two trees collide; and the root of a
  list of such leaves is never an error.\<close>

theorem merkle_root_binds:
  assumes "digests32 C" "length xs = length ys" "list_all (\<lambda>x. length x = 32) (xs @ ys)"
    and "merkle_root C xs domain = merkle_root C ys domain"
    and "no_collision C (merkle_inputs C domain xs) (merkle_inputs C domain ys)"
  shows "xs = ys \<and> is_ok (merkle_root C xs domain)"
proof (cases "xs = []")
  case False
  have ok: "\<not> list_ex (\<lambda>x. length x \<noteq> 32) xs" "\<not> list_ex (\<lambda>x. length x \<noteq> 32) ys" "ys \<noteq> []"
    using assms(2,3) False by (auto simp: list_all_iff list_ex_iff)
  have "hd (merkle_loop C domain xs) = hd (merkle_loop C domain ys)"
    using assms(4) False ok by (simp add: merkle_root_def)
  then have "xs = ys" by (rule merkle_loop_inject [OF assms(2,3) False _ assms(5,1)])
  with False ok show ?thesis by (simp add: merkle_root_def)
qed (use assms(2) in \<open>simp add: merkle_root_def\<close>)

text \<open>
  The length matters: a level of odd length hashes its last node with itself, so repeating the
  last leaf of such a list does not change the root. The ledger is safe from that ambiguity only
  because \<open>apply_block\<close> refuses two entries with one address key.
\<close>

lemma next_level_repeat_last:
  "odd (length xs) \<Longrightarrow> next_level C domain (xs @ [last xs]) = next_level C domain xs"
  by (induction xs rule: next_level.induct [of _ C domain]) auto

text \<open>Repeating the last of an odd number of leaves (three or more) leaves the Merkle root
  unchanged.\<close>

theorem merkle_root_repeat_last:
  assumes "odd (length xs)" "1 < length xs"
  shows "merkle_root C (xs @ [last xs]) domain = merkle_root C xs domain"
proof -
  have "xs \<noteq> []" using assms by auto
  then have "list_ex (\<lambda>x. length x \<noteq> 32) (xs @ [last xs]) = list_ex (\<lambda>x. length x \<noteq> 32) xs"
    by (auto simp: list_ex_iff)
  moreover have "merkle_loop C domain (xs @ [last xs]) = merkle_loop C domain xs"
    using assms \<open>xs \<noteq> []\<close> next_level_repeat_last [OF assms(1), of C domain]
    by (simp add: merkle_loop.simps [of C domain xs] merkle_loop.simps [of C domain "xs @ [last xs]"])
  ultimately show ?thesis using \<open>xs \<noteq> []\<close> by (simp add: merkle_root_def)
qed

lemma compute_diff_root_total: "digests32 C \<Longrightarrow> \<exists>h. compute_diff_root C es = Inr h"
  by (auto simp: compute_diff_root_def merkle_root_def compute_diff_leaf_hash_def Let_def keccak_length list_ex_iff)

subsection \<open>Examples\<close>

definition sample_tx :: offchain_tx where
  "sample_tx = \<lparr>tx_sender = ''alice'', tx_recipient = ''bob'', tx_values = [ValueRange 0 4, ValueRange 6 9],
     tx_local_index = 0, tx_time = 1, tx_extra = []\<rparr>"

definition sample_sidecar :: bundle_sidecar where
  "sample_sidecar = \<lparr>sc_sender = ''alice'', sc_txs = [sample_tx], sc_tx_count = 1\<rparr>"

definition sample_envelope :: bundle_envelope where
  "sample_envelope = \<lparr>env_version = 2, env_chain_id = 1, env_seq = 1, env_expiry_height = 9, env_fee = 3,
     env_nonce = 0, env_bundle_hash = replicate 32 0, env_claim_set_hash = None, env_sig = []\<rparr>"

lemmas encodes_simps = encodes_def sample_tx_def sample_sidecar_def sample_envelope_def bundle_sidecar_obj_def
  offchain_tx_obj_def value_range_obj_def signing_payload_def claim_set_hash_item_def block_id_obj_def
  block_id_fields_def utf8_def utf8_char_def

lemma sample_encodes: "encodes (bundle_sidecar_obj sample_sidecar)" "encodes (signing_payload sample_envelope)"
  by (simp_all add: encodes_simps)

lemma no_collision_same: "no_collision C [x] [x]"
  by (simp add: no_collision_def)

theorem bundle_hash_binds_witness:
  "\<exists>s. bundle_sidecar_init (sample_sidecar\<lparr>sc_tx_count := 0\<rparr>) = Inr s \<and> s = sample_sidecar"
proof -
  have i: "bundle_sidecar_init (sample_sidecar\<lparr>sc_tx_count := 0\<rparr>) = Inr sample_sidecar"
    by (simp add: bundle_sidecar_init_def sample_sidecar_def sample_tx_def)
  show ?thesis
    using bundle_hash_binds [of flat_crypto sample_sidecar "projr (bundle_sidecar_init (sample_sidecar\<lparr>sc_tx_count := 0\<rparr>))"]
    by (simp add: i sample_encodes no_collision_same)
qed

theorem sighash_binds_witness:
  "with_signature (with_signature sample_envelope [1]) [2] = with_signature sample_envelope [2]"
proof (rule sighash_binds [of flat_crypto])
  have "signing_payload (with_signature sample_envelope [1]) = signing_payload sample_envelope"
    by (simp add: signing_payload_def with_signature_def)
  then show "encodes (signing_payload (with_signature sample_envelope [1]))"
    "no_collision flat_crypto [sighash_input (with_signature sample_envelope [1])] [sighash_input sample_envelope]"
    by (simp_all add: sample_encodes sighash_input_def no_collision_same)
qed (simp_all add: sample_encodes compute_bundle_sighash_def)

definition sample_entry :: diff_entry where
  "sample_entry = \<lparr>de_addr_key = replicate 32 0, de_new_leaf = \<lparr>leaf_addr = ''alice'', leaf_head_ref = None,
     leaf_prev_ref = None, leaf_claim_set_hash = None\<rparr>, de_envelope = sample_envelope,
     de_bundle_hash = replicate 32 0\<rparr>"

definition sample_block_id :: "diff_entry list \<Rightarrow> block_id" where
  "sample_block_id es = \<lparr>bi_version = 2, bi_chain_id = 1, bi_height = 1, bi_prev_block_hash = ZERO_HASH32,
     bi_timestamp = 7, bi_proposer_sig = [], bi_consensus_extra = [5], bi_addr_keys = map de_addr_key es,
     bi_bundle_hashes = map de_bundle_hash es\<rparr>"

theorem block_hash_binds_witness:
  "map de_addr_key [sample_entry] = map de_addr_key [sample_entry\<lparr>de_envelope := with_signature sample_envelope [1]\<rparr>]"
proof -
  let ?e = "sample_entry\<lparr>de_envelope := with_signature sample_envelope [1]\<rparr>"
  have h: "derive_block_hash level_crypto 2 1 1 ZERO_HASH32 7 [] [5] [sample_entry] =
    derive_block_hash level_crypto 2 1 1 ZERO_HASH32 7 [] [5] [?e]"
    by (simp add: derive_block_hash_def)
  have same: "sample_block_id [?e] = sample_block_id [sample_entry]"
    by (simp add: sample_block_id_def)
  have enc: "encodes (block_id_obj (sample_block_id [sample_entry]))"
    by (simp add: encodes_simps sample_block_id_def sample_entry_def ZERO_HASH32_def)
  note b = block_hash_binds [OF h sample_block_id_def sample_block_id_def, unfolded same, OF enc enc no_collision_same]
  from b show ?thesis by blast
qed

definition sample_leaves :: "bytes list" where
  "sample_leaves = [replicate 32 1, replicate 32 2, replicate 32 3]"

lemma sample_leaves_no_collision:
  "no_collision level_crypto (merkle_inputs level_crypto (replicate 19 0) sample_leaves) (merkle_inputs level_crypto (replicate 19 0) sample_leaves)"
  by code_simp

theorem merkle_root_binds_witness:
  "is_ok (merkle_root level_crypto sample_leaves (replicate 19 0)) \<and> length sample_leaves = 3"
proof -
  have "list_all (\<lambda>x. length x = 32) (sample_leaves @ sample_leaves)" "length sample_leaves = 3"
    by (simp_all add: sample_leaves_def)
  with merkle_root_binds [OF _ refl _ refl sample_leaves_no_collision] show ?thesis by simp
qed

theorem merkle_root_repeat_last_witness:
  "merkle_root level_crypto [replicate 32 1, replicate 32 2, replicate 32 3, replicate 32 3] [] =
   merkle_root level_crypto [replicate 32 1, replicate 32 2, replicate 32 3] []"
  using merkle_root_repeat_last [of "[replicate 32 1, replicate 32 2, replicate 32 3]" level_crypto "[]"] by simp

subsection \<open>How long the Merkle loop runs\<close>

lemma length_next_levels: "length ((next_level C domain ^^ k) level) = (length level + 2 ^ k - 1) div 2 ^ k"
proof (induction k)
  case (Suc k)
  have "((n + 2 ^ k - 1) div 2 ^ k + 1) div 2 = (n + 2 * 2 ^ k - 1) div (2 * 2 ^ k)" for n :: nat
  proof -
    have "(n + 2 ^ k - 1) div 2 ^ k + 1 = (n + 2 ^ k - 1 + 2 ^ k) div 2 ^ k"
      using div_add_self2 [of "2 ^ k" "n + 2 ^ k - 1"] by simp
    moreover have "n + 2 ^ k - 1 + 2 ^ k = n + 2 * 2 ^ k - 1" using one_le_power [of "2 :: nat" k] by linarith
    ultimately show ?thesis by (simp add: div_mult2_eq [symmetric] mult.commute)
  qed
  then show ?case using Suc by simp
qed simp

lemma next_levels_single: "level \<noteq> [] \<Longrightarrow> length ((next_level C domain ^^ k) level) = 1 \<longleftrightarrow> length level \<le> 2 ^ k"
proof -
  assume "level \<noteq> []"
  then have n: "0 < length level" by simp
  have one: "m div 2 ^ k = 1 \<longleftrightarrow> 2 ^ k \<le> m \<and> m < 2 * 2 ^ k" for m :: nat
    using less_eq_div_iff_mult_less_eq [of "2 ^ k" 1 m] div_less_iff_less_mult [of "2 ^ k" m 2] by auto
  show ?thesis unfolding length_next_levels one using n by linarith
qed

text \<open>C40. The Merkle loop ends after a logarithmic number of rounds. For n valid leaves it runs k rounds, where 2 ^ k is the first power of two
  not below n: before that more than one digest is left, and after it exactly one, the root.\<close>

theorem merkle_loop_rounds:
  assumes "leaves \<noteq> []" "\<forall>leaf\<in>set leaves. length leaf = 32"
  shows "\<exists>k. length leaves \<le> 2 ^ k \<and> (\<forall>j<k. 2 ^ j < length leaves \<and> 1 < length ((next_level C domain ^^ j) leaves)) \<and>
    length ((next_level C domain ^^ k) leaves) = 1 \<and> merkle_root C leaves domain = Inr (hd ((next_level C domain ^^ k) leaves))"
proof -
  define k where "k = (LEAST k. length leaves \<le> 2 ^ k)"
  have k: "length leaves \<le> 2 ^ k" unfolding k_def by (rule LeastI [of _ "length leaves"]) simp
  have least: "2 ^ j < length leaves" if "j < k" for j
    using not_less_Least [of j "\<lambda>k. length leaves \<le> 2 ^ k"] that by (simp add: k_def)
  have more: "1 < length ((next_level C domain ^^ j) leaves)" if "j < k" for j
  proof -
    have "length ((next_level C domain ^^ j) leaves) \<noteq> 1" using next_levels_single [OF assms(1)] least [OF that] by simp
    moreover have "0 < length ((next_level C domain ^^ j) leaves)"
      using assms(1) least [OF that] by (simp add: length_next_levels div_greater_zero_iff)
    ultimately show ?thesis by linarith
  qed
  have one: "length ((next_level C domain ^^ k) leaves) = 1" using next_levels_single [OF assms(1)] k by simp
  have "merkle_loop C domain leaves = merkle_loop C domain ((next_level C domain ^^ j) leaves)" if "j \<le> k" for j
    using that
  proof (induction j)
    case (Suc j)
    then show ?case using more [of j] merkle_loop.simps [of C domain "(next_level C domain ^^ j) leaves"] by simp
  qed simp
  from this [of k] have "merkle_loop C domain leaves = (next_level C domain ^^ k) leaves"
    using one merkle_loop.simps [of C domain "(next_level C domain ^^ k) leaves"] by simp
  then have "merkle_root C leaves domain = Inr (hd ((next_level C domain ^^ k) leaves))"
    using assms by (auto simp: merkle_root_def list_ex_iff)
  then show ?thesis using k least more one by blast
qed

theorem merkle_loop_rounds_witness:
  "\<exists>k. 3 \<le> (2 :: nat) ^ k \<and> (\<forall>j<k. (2 :: nat) ^ j < 3) \<and>
     merkle_root level_crypto [replicate 32 1, replicate 32 2, replicate 32 3] [] =
       Inr (hd ((next_level level_crypto [] ^^ k) [replicate 32 1, replicate 32 2, replicate 32 3]))"
proof -
  let ?leaves = "[replicate 32 1, replicate 32 2, replicate 32 3] :: bytes list"
  have "?leaves \<noteq> []" "\<forall>leaf\<in>set ?leaves. length leaf = 32" "length ?leaves = 3" by simp_all
  with merkle_loop_rounds [of ?leaves level_crypto "[]"] show ?thesis by metis
qed

end
