(* ===== verification/Receipt_Cache.thy ===== *)
theory Receipt_Cache
  imports Chain_Hash
begin

section \<open>The receipt cache (\<open>ReceiptCache\<close> in \<open>EZ_V2/chain.py\<close>)\<close>

text \<open>
  A cache keeps the receipts of the newest \<open>max_blocks\<close> heights, found by sender and sequence
  number or by bundle reference, and the proof batches of the same heights. The indexes are
  separate dicts that \<open>_prune\<close> has to keep in step. The specification is the set of cached
  entries by height: an addition inserts one entry and drops the oldest heights, and both indexes
  show exactly what is left.
\<close>

type_synonym cached = "string \<times> receipt \<times> bundle_ref"
type_synonym ref_key = "int \<times> bytes \<times> bytes \<times> int"

record receipt_cache =
  rca_max_blocks :: int
  rca_by_height :: "(int, cached list) dict"
  rca_by_addr_seq :: "(string \<times> int, receipt) dict"
  rca_by_ref :: "(ref_key, receipt) dict"
  rca_batches_by_height :: "(int, string list) dict"
  rca_batches :: "(string, receipt_proof_batch) dict"

definition receipt_cache_new :: "int \<Rightarrow> receipt_cache" where
  "receipt_cache_new max_blocks = \<lparr>rca_max_blocks = max 1 max_blocks, rca_by_height = [], rca_by_addr_seq = [],
     rca_by_ref = [], rca_batches_by_height = [], rca_batches = []\<rparr>"

definition addr_seq_key :: "cached \<Rightarrow> string \<times> int" where
  "addr_seq_key e = (case e of (sender, r, _) \<Rightarrow> (sender, rc_seq r))"

definition ref_key :: "bundle_ref \<Rightarrow> ref_key" where
  "ref_key r = (br_height r, br_block_hash r, br_bundle_hash r, br_seq r)"

definition cached_ref_key :: "cached \<Rightarrow> ref_key" where
  "cached_ref_key e = (case e of (_, _, ref) \<Rightarrow> ref_key ref)"

definition prune_height :: "int \<Rightarrow> receipt_cache \<Rightarrow> receipt_cache" where
  \<comment> \<open>The body of the loop of \<open>_prune\<close>.\<close>
  "prune_height height c =
     (let entries = dict_get_default (rca_by_height c) height [];
          batch_ids = dict_get_default (rca_batches_by_height c) height []
      in c\<lparr>rca_by_height := dict_pop height (rca_by_height c),
           rca_by_addr_seq := fold (\<lambda>e. dict_pop (addr_seq_key e)) entries (rca_by_addr_seq c),
           rca_by_ref := fold (\<lambda>e. dict_pop (cached_ref_key e)) entries (rca_by_ref c),
           rca_batches_by_height := dict_pop height (rca_batches_by_height c),
           rca_batches := fold dict_pop batch_ids (rca_batches c)\<rparr>)"

fun prune_heights :: "int list \<Rightarrow> receipt_cache \<Rightarrow> receipt_cache" where
  "prune_heights [] c = c"
| "prune_heights (height # heights) c =
     (if int (length (height # heights)) > rca_max_blocks c
      then prune_heights heights (prune_height height c) else c)"

definition receipt_cache_prune :: "receipt_cache \<Rightarrow> receipt_cache" where
  "receipt_cache_prune c =
     (if rca_by_height c = [] then c else prune_heights (sort (map fst (rca_by_height c))) c)"

definition receipt_cache_add :: "receipt_cache \<Rightarrow> string \<Rightarrow> receipt \<Rightarrow> bundle_ref \<Rightarrow> receipt_cache" where
  "receipt_cache_add c sender r ref =
     (let height = hl_height (rc_header r)
      in receipt_cache_prune (c\<lparr>
           rca_by_addr_seq := dict_set (sender, rc_seq r) r (rca_by_addr_seq c),
           rca_by_ref := dict_set (ref_key ref) r (rca_by_ref c),
           rca_by_height :=
             dict_set height (dict_get_default (rca_by_height c) height [] @ [(sender, r, ref)]) (rca_by_height c)\<rparr>))"

definition receipt_cache_add_proof_batch :: "receipt_cache \<Rightarrow> int \<Rightarrow> receipt_proof_batch \<Rightarrow> receipt_cache" where
  "receipt_cache_add_proof_batch c height batch =
     (let height_batches = dict_get_default (rca_batches_by_height c) height []
      in receipt_cache_prune (c\<lparr>
           rca_batches := dict_set (rpb_batch_id batch) batch (rca_batches c),
           rca_batches_by_height := dict_set height
             (if rpb_batch_id batch \<in> set height_batches then height_batches
              else height_batches @ [rpb_batch_id batch]) (rca_batches_by_height c)\<rparr>))"

definition get_proof_batch :: "receipt_cache \<Rightarrow> string \<Rightarrow> receipt_proof_batch option" where
  "get_proof_batch c batch_id = dict_get (rca_batches c) batch_id"

definition receipt_response_of :: "receipt option \<Rightarrow> receipt_response" where
  "receipt_response_of r = \<lparr>rr_status = (if r \<noteq> None then ResponseOk else ResponseMissing),
     rr_receipt = r, rr_proof_batch = None\<rparr>"

definition get_receipt :: "receipt_cache \<Rightarrow> string \<Rightarrow> int \<Rightarrow> receipt_response" where
  "get_receipt c sender seq = receipt_response_of (dict_get (rca_by_addr_seq c) (sender, seq))"

definition get_receipt_by_ref :: "receipt_cache \<Rightarrow> bundle_ref \<Rightarrow> receipt_response" where
  "get_receipt_by_ref c ref = receipt_response_of (dict_get (rca_by_ref c) (ref_key ref))"

subsection \<open>The entries of a cache\<close>

definition cached_at :: "receipt_cache \<Rightarrow> int \<Rightarrow> cached set" where
  "cached_at c h = set (dict_get_default (rca_by_height c) h [])"

definition cached_in :: "receipt_cache \<Rightarrow> cached set" where
  "cached_in c = (\<Union>h. cached_at c h)"

definition receipt_of :: "cached \<Rightarrow> receipt" where
  "receipt_of e = fst (snd e)"

definition height_of :: "cached \<Rightarrow> int" where
  "height_of e = hl_height (rc_header (receipt_of e))"

text \<open>
  \<open>indexed key val d E\<close>: the dict \<open>d\<close> finds, by key, the values of the entries \<open>E\<close>, which
  have distinct keys. Both indexes are instances, and both are kept in step by the same lemmas.
\<close>

definition indexed :: "('e \<Rightarrow> 'k) \<Rightarrow> ('e \<Rightarrow> 'v) \<Rightarrow> ('k, 'v) dict \<Rightarrow> 'e set \<Rightarrow> bool" where
  "indexed key val d E \<longleftrightarrow> inj_on key E \<and> (\<forall>k r. dict_get d k = Some r \<longleftrightarrow> (\<exists>e\<in>E. key e = k \<and> val e = r))"

lemma indexed_get: "indexed key val d E \<Longrightarrow> dict_get d k = Some r \<longleftrightarrow> (\<exists>e\<in>E. key e = k \<and> val e = r)"
  by (simp add: indexed_def)

lemma indexed_insert:
  assumes "indexed key val d E" "key e \<notin> key ` E"
  shows "indexed key val (dict_set (key e) (val e) d) (insert e E)"
proof -
  have "inj_on key (insert e E)" using assms by (auto simp: indexed_def)
  moreover have "(dict_get (dict_set (key e) (val e) d) k = Some r) = (\<exists>x\<in>insert e E. key x = k \<and> val x = r)" for k r
  proof (cases "k = key e")
    case True
    with assms(2) show ?thesis by (auto simp: dict_simps image_iff)
  next
    case False
    then show ?thesis using indexed_get [OF assms(1), of k r] by (auto simp: dict_simps)
  qed
  ultimately show ?thesis by (simp add: indexed_def)
qed

lemma map_of_fold_pop: "dict_get (fold (\<lambda>e. dict_pop (f e)) es d) k = (if k \<in> f ` set es then None else dict_get d k)"
  by (induction es arbitrary: d) (auto simp: dict_simps)

lemma indexed_remove:
  assumes "indexed key val d E" "set es = {e \<in> E. P e}"
  shows "indexed key val (fold (\<lambda>e. dict_pop (key e)) es d) {e \<in> E. \<not> P e}"
proof -
  have inj: "inj_on key E" using assms(1) by (simp add: indexed_def)
  have "key e \<in> key ` {e \<in> E. P e} \<longleftrightarrow> P e" if "e \<in> E" for e
    using that inj by (auto dest: inj_onD)
  then have "(dict_get (fold (\<lambda>e. dict_pop (key e)) es d) k = Some r) = (\<exists>x\<in>{e \<in> E. \<not> P e}. key x = k \<and> val x = r)"
    for k r using assms(1) by (auto simp: map_of_fold_pop assms(2) indexed_def)
  moreover have "inj_on key {e \<in> E. \<not> P e}" using inj by (rule inj_on_subset) auto
  ultimately show ?thesis by (simp add: indexed_def)
qed

lemma indexed_None:
  assumes "indexed key val d E"
  shows "dict_get d k = None \<longleftrightarrow> k \<notin> key ` E"
proof -
  have "dict_get d k = None \<longleftrightarrow> (\<forall>r. dict_get d k \<noteq> Some r)" by simp
  also have "\<dots> \<longleftrightarrow> k \<notin> key ` E" unfolding indexed_get [OF assms] by auto
  finally show ?thesis .
qed

lemma indexed_kept:
  assumes "indexed key val d E" "indexed key val d' {x \<in> insert e E. P (val x)}"
  shows "dict_get d' k = Some r \<longleftrightarrow> P r \<and> ((k, r) = (key e, val e) \<or> dict_get d k = Some r)"
  using assms unfolding indexed_def by auto

text \<open>Every entry is filed under its receipt's height, and the indexes agree with the entries.\<close>

definition indexes_ok :: "receipt_cache \<Rightarrow> bool" where
  "indexes_ok c \<longleftrightarrow> dict_ok (rca_by_height c) \<and> (\<forall>h. \<forall>e\<in>cached_at c h. height_of e = h) \<and>
     indexed addr_seq_key receipt_of (rca_by_addr_seq c) (cached_in c) \<and>
     indexed cached_ref_key receipt_of (rca_by_ref c) (cached_in c)"

definition receipt_cache_ok :: "receipt_cache \<Rightarrow> bool" where
  "receipt_cache_ok c \<longleftrightarrow> indexes_ok c \<and> 1 \<le> rca_max_blocks c \<and>
     int (length (rca_by_height c)) \<le> rca_max_blocks c"

lemma receipt_cache_new_ok: "receipt_cache_ok (receipt_cache_new n)"
  by (simp add: receipt_cache_ok_def receipt_cache_new_def indexes_ok_def cached_at_def cached_in_def
      dict_get_default_def indexed_def)

lemma cached_at_pop: "cached_at (prune_height h c) j = (if j = h then {} else cached_at c j)"
  by (simp add: cached_at_def prune_height_def Let_def dict_get_default_def dict_simps)

lemma cached_at_iff: "indexes_ok c \<Longrightarrow> e \<in> cached_at c h \<longleftrightarrow> e \<in> cached_in c \<and> height_of e = h"
  by (auto simp: indexes_ok_def cached_in_def)

lemma cached_in_pop: "indexes_ok c \<Longrightarrow> cached_in (prune_height h c) = {e \<in> cached_in c. height_of e \<noteq> h}"
  unfolding cached_in_def [of "prune_height h c"] cached_at_pop
  by (auto simp: cached_at_iff split: if_splits)

lemma indexes_ok_prune:
  assumes "indexes_ok c"
  shows "indexes_ok (prune_height h c)"
proof -
  have E: "set (dict_get_default (rca_by_height c) h []) = {e \<in> cached_in c. height_of e = h}"
    using cached_at_iff [OF assms] by (auto simp: cached_at_def)
  note ok = assms [unfolded indexes_ok_def]
  have "indexed addr_seq_key receipt_of (rca_by_addr_seq (prune_height h c)) (cached_in (prune_height h c))"
    using indexed_remove [OF _ E, of addr_seq_key receipt_of "rca_by_addr_seq c"] ok
    unfolding cached_in_pop [OF assms] by (simp add: prune_height_def Let_def)
  moreover have "indexed cached_ref_key receipt_of (rca_by_ref (prune_height h c)) (cached_in (prune_height h c))"
    using indexed_remove [OF _ E, of cached_ref_key receipt_of "rca_by_ref c"] ok
    unfolding cached_in_pop [OF assms] by (simp add: prune_height_def Let_def)
  moreover have "dict_ok (rca_by_height (prune_height h c))"
    using ok by (simp add: prune_height_def Let_def)
  ultimately show ?thesis
    using ok by (simp add: indexes_ok_def cached_at_pop)
qed

subsection \<open>Pruning keeps the newest heights\<close>

abbreviation heights :: "receipt_cache \<Rightarrow> int list" where
  "heights c \<equiv> sort (map fst (rca_by_height c))"

definition newest :: "int \<Rightarrow> int list \<Rightarrow> int list" where
  "newest n hs = drop (length hs - nat n) hs"

lemma prune_height_fields [simp]:
  "rca_max_blocks (prune_height h c) = rca_max_blocks c"
  "map fst (rca_by_height (prune_height h c)) = filter (\<lambda>x. x \<noteq> h) (map fst (rca_by_height c))"
  by (auto simp: prune_height_def Let_def AList.delete_eq filter_map intro!: arg_cong [of _ _ "map fst"] filter_cong)

lemma heights_prune_first:
  assumes "heights c = h # hs" "dict_ok (rca_by_height c)"
  shows "heights (prune_height h c) = hs"
proof -
  have "distinct (h # hs)" using assms by (metis dict_ok_def distinct_sort)
  then have "filter (\<lambda>x. x \<noteq> h) (heights c) = hs"
    unfolding assms(1) by (auto simp: filter_id_conv)
  then show ?thesis by (simp add: filter_sort)
qed

lemma prune_heights_spec:
  assumes "indexes_ok c" "heights c = hs" "0 \<le> rca_max_blocks c"
  shows "indexes_ok (prune_heights hs c) \<and> rca_max_blocks (prune_heights hs c) = rca_max_blocks c \<and>
    heights (prune_heights hs c) = newest (rca_max_blocks c) hs \<and>
    cached_in (prune_heights hs c) =
      {e \<in> cached_in c. height_of e \<in> set (newest (rca_max_blocks c) hs)}"
  using assms
proof (induction hs c rule: prune_heights.induct)
  case (1 c)
  then have "rca_by_height c = []" by (metis map_is_Nil_conv set_empty set_sort)
  then show ?case using 1 by (simp add: newest_def cached_in_def cached_at_def dict_get_default_def)
next
  case (2 h hs c)
  have inh: "height_of e \<in> set (h # hs)" if "e \<in> cached_in c" for e
  proof -
    from that 2(2) have "dict_get_default (rca_by_height c) (height_of e) [] \<noteq> []"
      using cached_at_iff [OF 2(2), of e "height_of e"] by (auto simp: cached_at_def)
    then have "height_of e \<in> set (heights c)"
      by (force simp: dict_get_default_def dest: map_of_SomeD split: option.splits)
    then show ?thesis using 2(3) by simp
  qed
  have d: "distinct (h # hs)" using 2(2,3) by (metis dict_ok_def distinct_sort indexes_ok_def)
  show ?case
  proof (cases "int (length (h # hs)) > rca_max_blocks c")
    case True
    have hs: "heights (prune_height h c) = hs" using heights_prune_first [OF 2(3)] 2(2) by (simp add: indexes_ok_def)
    have n: "newest (rca_max_blocks c) (h # hs) = newest (rca_max_blocks c) hs"
      using True 2(4) by (auto simp: newest_def Suc_diff_le)
    have "h \<notin> set (newest (rca_max_blocks c) hs)"
      using d by (auto simp: newest_def dest: in_set_dropD)
    moreover have "prune_heights (h # hs) c = prune_heights hs (prune_height h c)" using True by simp
    ultimately show ?thesis
      using 2(1) [OF True indexes_ok_prune [OF 2(2)] hs] 2(4) unfolding n cached_in_pop [OF 2(2)] by auto
  next
    case False
    then have "newest (rca_max_blocks c) (h # hs) = h # hs" by (simp add: newest_def)
    with False 2 inh show ?thesis by auto
  qed
qed

lemma prune_spec:
  assumes "indexes_ok c" "1 \<le> rca_max_blocks c"
  shows "receipt_cache_ok (receipt_cache_prune c) \<and>
    cached_in (receipt_cache_prune c) =
      {e \<in> cached_in c. height_of e \<in> set (newest (rca_max_blocks c) (heights c))}"
proof -
  have p: "receipt_cache_prune c = prune_heights (heights c) c"
    by (simp add: receipt_cache_prune_def)
  note spec = prune_heights_spec [OF assms(1) refl, folded p]
  have "length (rca_by_height (receipt_cache_prune c)) = length (heights (receipt_cache_prune c))" by simp
  also have "int \<dots> \<le> rca_max_blocks c" using spec assms(2) by (simp add: newest_def)
  finally show ?thesis using spec assms(2) by (simp add: receipt_cache_ok_def)
qed

lemma indexes_ok_insert:
  assumes "indexes_ok c" "h = height_of e"
    and "addr_seq_key e \<notin> addr_seq_key ` cached_in c" "cached_ref_key e \<notin> cached_ref_key ` cached_in c"
    and "c' = c\<lparr>rca_by_addr_seq := dict_set (addr_seq_key e) (receipt_of e) (rca_by_addr_seq c),
      rca_by_ref := dict_set (cached_ref_key e) (receipt_of e) (rca_by_ref c),
      rca_by_height := dict_set h (dict_get_default (rca_by_height c) h [] @ [e]) (rca_by_height c)\<rparr>"
  shows "indexes_ok c' \<and> cached_in c' = insert e (cached_in c)"
proof -
  have at: "cached_at c' j = (if j = h then insert e (cached_at c j) else cached_at c j)" for j
    by (auto simp: assms(5) cached_at_def dict_get_default_def dict_simps)
  have all: "cached_in c' = insert e (cached_in c)"
    unfolding cached_in_def at by (auto split: if_splits)
  note ok = assms(1) [unfolded indexes_ok_def]
  have "indexed addr_seq_key receipt_of (rca_by_addr_seq c') (cached_in c')"
    "indexed cached_ref_key receipt_of (rca_by_ref c') (cached_in c')"
    using ok assms(3,4) unfolding all by (simp_all add: assms(5) indexed_insert)
  then show ?thesis
    using ok all assms(2) unfolding indexes_ok_def at by (simp add: assms(5))
qed

text \<open>Adding a receipt under fresh keys keeps the cache well formed and bounded by
  \<open>max_blocks\<close> heights, and afterwards a look-up by sender and sequence number (or by bundle
  reference) finds exactly the old receipts and the new one whose heights are among the
  \<open>max_blocks\<close> newest.\<close>

theorem receipt_cache_add_spec:
  assumes "receipt_cache_ok c" "h = hl_height (rc_header r)"
    and "rr_receipt (get_receipt c s (rc_seq r)) = None" "rr_receipt (get_receipt_by_ref c ref) = None"
    and "kept = newest (rca_max_blocks c) (sort (map fst (dict_set h [] (rca_by_height c))))"
  shows "receipt_cache_ok (receipt_cache_add c s r ref) \<and>
    (\<forall>s' q x. rr_receipt (get_receipt (receipt_cache_add c s r ref) s' q) = Some x \<longleftrightarrow>
      hl_height (rc_header x) \<in> set kept \<and>
      ((s', q, x) = (s, rc_seq r, r) \<or> rr_receipt (get_receipt c s' q) = Some x)) \<and>
    (\<forall>ref' x. rr_receipt (get_receipt_by_ref (receipt_cache_add c s r ref) ref') = Some x \<longleftrightarrow>
      hl_height (rc_header x) \<in> set kept \<and>
      ((ref_key ref', x) = (ref_key ref, r) \<or> rr_receipt (get_receipt_by_ref c ref') = Some x))"
proof -
  have ok: "indexes_ok c" "1 \<le> rca_max_blocks c" using assms(1) by (simp_all add: receipt_cache_ok_def)
  let ?e = "(s, r, ref)"
  have e: "addr_seq_key ?e = (s, rc_seq r)" "cached_ref_key ?e = ref_key ref" "receipt_of ?e = r" "h = height_of ?e"
    using assms(2) by (simp_all add: addr_seq_key_def cached_ref_key_def receipt_of_def height_of_def)
  have ix: "indexed addr_seq_key receipt_of (rca_by_addr_seq c) (cached_in c)" "indexed cached_ref_key receipt_of (rca_by_ref c) (cached_in c)"
    using ok(1) by (simp_all add: indexes_ok_def)
  have fresh: "addr_seq_key ?e \<notin> addr_seq_key ` cached_in c" "cached_ref_key ?e \<notin> cached_ref_key ` cached_in c"
    using indexed_None [OF ix(1)] indexed_None [OF ix(2)] assms(3,4)
    by (simp_all add: e get_receipt_def get_receipt_by_ref_def receipt_response_of_def)
  define c1 where "c1 = c\<lparr>rca_by_addr_seq := dict_set (addr_seq_key ?e) (receipt_of ?e) (rca_by_addr_seq c),
      rca_by_ref := dict_set (cached_ref_key ?e) (receipt_of ?e) (rca_by_ref c),
      rca_by_height := dict_set h (dict_get_default (rca_by_height c) h [] @ [?e]) (rca_by_height c)\<rparr>"
  have add: "receipt_cache_add c s r ref = receipt_cache_prune c1"
    by (simp add: receipt_cache_add_def c1_def assms(2) e Let_def)
  from indexes_ok_insert [OF ok(1) e(4) fresh c1_def]
  have c1: "indexes_ok c1" "cached_in c1 = insert ?e (cached_in c)" by auto
  have m: "rca_max_blocks c1 = rca_max_blocks c" "heights c1 = sort (map fst (dict_set h [] (rca_by_height c)))"
    by (simp_all add: c1_def update_keys)
  from prune_spec [OF c1(1)] ok(2) m have p: "receipt_cache_ok (receipt_cache_prune c1)"
    "cached_in (receipt_cache_prune c1) = {x \<in> insert ?e (cached_in c). height_of x \<in> set kept}"
    by (simp_all add: assms(5) c1(2))
  then have px: "indexed addr_seq_key receipt_of (rca_by_addr_seq (receipt_cache_prune c1)) {x \<in> insert ?e (cached_in c). height_of x \<in> set kept}"
    "indexed cached_ref_key receipt_of (rca_by_ref (receipt_cache_prune c1)) {x \<in> insert ?e (cached_in c). height_of x \<in> set kept}"
    by (simp_all add: receipt_cache_ok_def indexes_ok_def)
  have "\<forall>k x. dict_get (rca_by_addr_seq (receipt_cache_prune c1)) k = Some x \<longleftrightarrow> hl_height (rc_header x) \<in> set kept \<and>
      ((k, x) = (addr_seq_key ?e, receipt_of ?e) \<or> dict_get (rca_by_addr_seq c) k = Some x)"
    "\<forall>k x. dict_get (rca_by_ref (receipt_cache_prune c1)) k = Some x \<longleftrightarrow> hl_height (rc_header x) \<in> set kept \<and>
      ((k, x) = (cached_ref_key ?e, receipt_of ?e) \<or> dict_get (rca_by_ref c) k = Some x)"
    using indexed_kept [OF ix(1) px(1) [unfolded height_of_def]] indexed_kept [OF ix(2) px(2) [unfolded height_of_def]] by blast+
  then show ?thesis using p(1)
    unfolding add get_receipt_def get_receipt_by_ref_def receipt_response_of_def e
    by (simp del: split_paired_All)
qed

definition sample_receipt :: "int \<Rightarrow> int \<Rightarrow> receipt" where
  "sample_receipt height seq = \<lparr>rc_header = \<lparr>hl_height = height, hl_block_hash = replicate 32 0,
     hl_state_root = replicate 32 0\<rparr>, rc_seq = seq, rc_prev_ref = None, rc_claim_set_hash = None,
     rc_proof = Some \<lparr>pf_siblings = [], pf_existence = True\<rparr>, rc_batch_ref = None\<rparr>"

definition sample_ref :: "int \<Rightarrow> int \<Rightarrow> bundle_ref" where
  "sample_ref height seq = \<lparr>br_height = height, br_block_hash = replicate 32 0,
     br_bundle_hash = replicate 32 0, br_seq = seq\<rparr>"

lemma sample_receipt_simps [simp]:
  "rc_seq (sample_receipt h q) = q" "hl_height (rc_header (sample_receipt h q)) = h"
  "ref_key (sample_ref h q) = ref_key (sample_ref h' q') \<longleftrightarrow> h = h' \<and> q = q'"
  "sample_receipt h q = sample_receipt h' q' \<longleftrightarrow> h = h' \<and> q = q'"
  by (auto simp: sample_receipt_def sample_ref_def ref_key_def)

definition sample_cache :: receipt_cache where
  "sample_cache = receipt_cache_add (receipt_cache_new 1) ''alice'' (sample_receipt 1 1) (sample_ref 1 1)"

lemma sample_cache_fields:
  "rca_by_height sample_cache = [(1, [(''alice'', sample_receipt 1 1, sample_ref 1 1)])]"
  "rca_by_addr_seq sample_cache = [((''alice'', 1), sample_receipt 1 1)]"
  "rca_by_ref sample_cache = [(ref_key (sample_ref 1 1), sample_receipt 1 1)]"
  "rca_max_blocks sample_cache = 1"
  by (simp_all add: sample_cache_def receipt_cache_add_def receipt_cache_prune_def receipt_cache_new_def Let_def
      dict_get_default_def)

lemma sample_cache_ok: "receipt_cache_ok sample_cache"
proof -
  have "cached_at sample_cache h = (if h = 1 then {(''alice'', sample_receipt 1 1, sample_ref 1 1)} else {})" for h
    by (simp add: cached_at_def sample_cache_fields dict_get_default_def)
  moreover from this have "cached_in sample_cache = {(''alice'', sample_receipt 1 1, sample_ref 1 1)}"
    by (auto simp: cached_in_def split: if_splits)
  ultimately show ?thesis
    by (auto simp: receipt_cache_ok_def indexes_ok_def indexed_def sample_cache_fields dict_ok_def
        addr_seq_key_def cached_ref_key_def height_of_def receipt_of_def)
qed

theorem receipt_cache_add_spec_witness:
  "let c' = receipt_cache_add sample_cache ''alice'' (sample_receipt 2 2) (sample_ref 2 2)
   in receipt_cache_ok c' \<and> rr_receipt (get_receipt c' ''alice'' 2) = Some (sample_receipt 2 2) \<and>
      rr_receipt (get_receipt c' ''alice'' 1) \<noteq> Some (sample_receipt 1 1)"
  unfolding Let_def
  using receipt_cache_add_spec [OF sample_cache_ok, of 2 "sample_receipt 2 2" "''alice''" "sample_ref 2 2" "[2]"]
  by (simp add: get_receipt_def get_receipt_by_ref_def receipt_response_of_def sample_cache_fields newest_def)

end
