(* ===== verification/Bundle_Pool.thy ===== *)
theory Bundle_Pool
  imports Chain_Hash
begin

section \<open>The bundle pool (\<open>BundlePool\<close> in \<open>EZ_V2/chain.py\<close>)\<close>

text \<open>
  The pool holds at most one pending submission per sender. \<open>pool_submit\<close> is \<open>submit\<close> with
  its checks in the code's order; every error leaves the pool as it was, so the result is an error
  or the new pool with the sender's address. The invariant is what the checks establish for every
  pending submission.
\<close>

datatype pool_error =
    PoolCryptoError crypto_error
  | PoolChainId
  | PoolSidecarSender
  | PoolExpired
  | PoolBundleHash
  | PoolClaimSetHash
  | PoolSignature
  | PoolSizeLimit
  | PoolTxCountLimit
  | PoolValueEntryLimit
  | PoolSeqNotExecutable
  | PoolDifferentPending
  | PoolFeeTooLow

record bundle_pool =
  bp_chain_id :: int
  bp_max_bundle_bytes :: int
  bp_max_tx :: int
  bp_max_values :: int
  bp_pending :: "(string, bundle_submission) dict"

definition bundle_pool_new :: "int \<Rightarrow> int \<Rightarrow> int \<Rightarrow> int \<Rightarrow> bundle_pool" where
  "bundle_pool_new chain_id max_bundle_bytes max_tx max_values = \<lparr>bp_chain_id = chain_id,
     bp_max_bundle_bytes = max_bundle_bytes, bp_max_tx = max_tx, bp_max_values = max_values, bp_pending = []\<rparr>"

definition computed_claim_set_hash :: "crypto \<Rightarrow> bundle_sidecar \<Rightarrow> bytes" where
  "computed_claim_set_hash C sidecar = claim_range_set_hash C (claim_range_set_from_sidecar sidecar)"

definition pool_check_limits :: "bundle_pool \<Rightarrow> bundle_submission \<Rightarrow> pool_error + unit" where
  "pool_check_limits p sub =
     (if int (length (canonical_bytes (bundle_sidecar_obj (sub_sidecar sub)))) > bp_max_bundle_bytes p
      then Inl PoolSizeLimit
      else if int (length (sc_txs (sub_sidecar sub))) > bp_max_tx p then Inl PoolTxCountLimit
      else if list_ex (\<lambda>tx. int (length (tx_values tx)) > bp_max_values p) (sc_txs (sub_sidecar sub))
      then Inl PoolValueEntryLimit
      else Inr ())"

definition pool_enter :: "bundle_pool \<Rightarrow> string \<Rightarrow> bundle_submission \<Rightarrow> int \<Rightarrow> pool_error + (bundle_pool \<times> string)" where
  \<comment> \<open>\<open>submit\<close> from \<open>expected_seq = confirmed_seq + 1\<close> on.\<close>
  "pool_enter p sender sub confirmed_seq =
     (let existing = dict_get (bp_pending p) sender;
          accept = Inr (p\<lparr>bp_pending := dict_set sender sub (bp_pending p)\<rparr>, sender)
      in if env_seq (sub_envelope sub) \<noteq> confirmed_seq + 1 \<and>
            (case existing of None \<Rightarrow> True | Some e \<Rightarrow> env_seq (sub_envelope e) \<noteq> env_seq (sub_envelope sub))
         then Inl PoolSeqNotExecutable
         else
           case existing of
             None \<Rightarrow> accept
           | Some e \<Rightarrow>
               if env_seq (sub_envelope e) \<noteq> env_seq (sub_envelope sub) then Inl PoolDifferentPending
               else if env_bundle_hash (sub_envelope e) \<noteq> env_bundle_hash (sub_envelope sub)
               then Inl PoolDifferentPending
               else if sub_envelope e = sub_envelope sub \<and> sub_sidecar e = sub_sidecar sub \<and>
                       sub_pubkey e = sub_pubkey sub
               then Inr (p, sender)
               else if env_fee (sub_envelope sub) \<le> env_fee (sub_envelope e) then Inl PoolFeeTooLow
               else accept)"

definition pool_submit ::
    "crypto \<Rightarrow> bundle_pool \<Rightarrow> bundle_submission \<Rightarrow> int \<Rightarrow> int \<Rightarrow> pool_error + (bundle_pool \<times> string)" where
  "pool_submit C p sub current_height confirmed_seq =
     (case address_from_public_key_pem C (sub_pubkey sub) of
        Inl e \<Rightarrow> Inl (PoolCryptoError e)
      | Inr sender \<Rightarrow>
          let envelope = sub_envelope sub; sidecar = sub_sidecar sub
          in if env_chain_id envelope \<noteq> bp_chain_id p then Inl PoolChainId
             else if sc_sender sidecar \<noteq> sender then Inl PoolSidecarSender
             else if env_expiry_height envelope < current_height then Inl PoolExpired
             else if compute_bundle_hash C sidecar \<noteq> env_bundle_hash envelope then Inl PoolBundleHash
             else if env_claim_set_hash envelope \<noteq> None \<and>
                     env_claim_set_hash envelope \<noteq> Some (computed_claim_set_hash C sidecar)
             then Inl PoolClaimSetHash
             else
               case verify_bundle_envelope C envelope (sub_pubkey sub) of
                 Inl e \<Rightarrow> Inl (PoolCryptoError e)
               | Inr False \<Rightarrow> Inl PoolSignature
               | Inr True \<Rightarrow>
                   res_bind (pool_check_limits p sub) (\<lambda>_. pool_enter p sender sub confirmed_seq))"

definition py_take :: "int \<Rightarrow> 'a list \<Rightarrow> 'a list" where
  \<comment> \<open>\<open>xs[:n]\<close>: a negative bound counts from the end.\<close>
  "py_take n xs = (if 0 \<le> n then take (nat n) xs else take (length xs - nat (- n)) xs)"

definition pool_snapshot :: "crypto \<Rightarrow> bundle_pool \<Rightarrow> int option \<Rightarrow> bundle_submission list" where
  "pool_snapshot C p limit =
     (let ordered = sort_key (\<lambda>item. compute_addr_key C (sc_sender (sub_sidecar item))) (map snd (bp_pending p))
      in case limit of None \<Rightarrow> ordered | Some n \<Rightarrow> py_take n ordered)"

definition pool_remove_sender :: "bundle_pool \<Rightarrow> string \<Rightarrow> bundle_pool" where
  "pool_remove_sender p sender = p\<lparr>bp_pending := dict_pop sender (bp_pending p)\<rparr>"

definition pool_remove_finalized :: "bundle_pool \<Rightarrow> string \<Rightarrow> int \<Rightarrow> bytes \<Rightarrow> bundle_pool \<times> bool" where
  "pool_remove_finalized p sender seq bundle_hash =
     (case dict_get (bp_pending p) sender of
        None \<Rightarrow> (p, False)
      | Some existing \<Rightarrow>
          let existing_seq = env_seq (sub_envelope existing)
          in if existing_seq > seq then (p, False)
             else if existing_seq < seq \<or> env_bundle_hash (sub_envelope existing) = bundle_hash \<or> existing_seq = seq
             then (p\<lparr>bp_pending := dict_pop sender (bp_pending p)\<rparr>, True)
             else (p, False))"

subsection \<open>The pool's invariant\<close>

definition admissible :: "crypto \<Rightarrow> bundle_pool \<Rightarrow> string \<Rightarrow> bundle_submission \<Rightarrow> bool" where
  "admissible C p sender sub \<longleftrightarrow>
     address_from_public_key_pem C (sub_pubkey sub) = Inr sender \<and>
     sc_sender (sub_sidecar sub) = sender \<and>
     env_chain_id (sub_envelope sub) = bp_chain_id p \<and>
     env_bundle_hash (sub_envelope sub) = compute_bundle_hash C (sub_sidecar sub) \<and>
     (env_claim_set_hash (sub_envelope sub) = None \<or>
      env_claim_set_hash (sub_envelope sub) = Some (computed_claim_set_hash C (sub_sidecar sub))) \<and>
     verify_bundle_envelope C (sub_envelope sub) (sub_pubkey sub) = Inr True \<and>
     pool_check_limits p sub = Inr ()"

definition pool_ok :: "crypto \<Rightarrow> bundle_pool \<Rightarrow> bool" where
  "pool_ok C p \<longleftrightarrow> dict_ok (bp_pending p) \<and>
     (\<forall>sender sub. dict_get (bp_pending p) sender = Some sub \<longrightarrow> admissible C p sender sub)"

lemma admissible_same_limits [simp]: "admissible C (p\<lparr>bp_pending := d\<rparr>) sender sub = admissible C p sender sub"
  by (simp add: admissible_def pool_check_limits_def)

lemma pool_new_ok: "pool_ok C (bundle_pool_new c b t v)"
  by (simp add: pool_ok_def bundle_pool_new_def)

lemma pool_submit_checks:
  assumes "pool_submit C p sub h seq = Inr r"
  shows "\<exists>sender. admissible C p sender sub \<and> h \<le> env_expiry_height (sub_envelope sub) \<and>
    pool_enter p sender sub seq = Inr r"
  using assms unfolding pool_submit_def admissible_def
  by (auto simp: Let_def res_bind_Inr split: sum.splits if_splits bool.splits)

lemma pool_enter_cases:
  assumes "pool_enter p sender sub seq = Inr r"
  shows "snd r = sender \<and>
    (case dict_get (bp_pending p) sender of
       None \<Rightarrow> fst r = p\<lparr>bp_pending := dict_set sender sub (bp_pending p)\<rparr> \<and> env_seq (sub_envelope sub) = seq + 1
     | Some old \<Rightarrow> env_seq (sub_envelope old) = env_seq (sub_envelope sub) \<and>
         env_bundle_hash (sub_envelope old) = env_bundle_hash (sub_envelope sub) \<and>
         (fst r = p \<and> old = sub \<or>
          fst r = p\<lparr>bp_pending := dict_set sender sub (bp_pending p)\<rparr> \<and>
          env_fee (sub_envelope old) < env_fee (sub_envelope sub)))"
  using assms unfolding pool_enter_def
  by (auto simp: Let_def split: option.splits if_splits intro: bundle_submission.equality)

lemma pool_submit_spec:
  assumes "pool_ok C p" "pool_submit C p sub current_height confirmed_seq = Inr (p', sender)"
  shows "pool_ok C p' \<and> admissible C p' sender sub \<and> current_height \<le> env_expiry_height (sub_envelope sub) \<and>
    dict_get (bp_pending p') = (dict_get (bp_pending p))(sender \<mapsto> sub) \<and>
    (case dict_get (bp_pending p) sender of
       None \<Rightarrow> env_seq (sub_envelope sub) = confirmed_seq + 1
     | Some old \<Rightarrow> env_seq (sub_envelope old) = env_seq (sub_envelope sub) \<and>
         env_bundle_hash (sub_envelope old) = env_bundle_hash (sub_envelope sub) \<and>
         (old = sub \<or> env_fee (sub_envelope old) < env_fee (sub_envelope sub)))"
proof -
  from pool_submit_checks [OF assms(2)] obtain x where
    x: "admissible C p x sub" "current_height \<le> env_expiry_height (sub_envelope sub)"
      "pool_enter p x sub confirmed_seq = Inr (p', sender)" by blast
  note r = pool_enter_cases [OF x(3)]
  then have s: "x = sender" by simp
  note x = x [unfolded s]
  have p': "p' = p \<and> dict_get (bp_pending p) sender = Some sub \<or>
    p' = p\<lparr>bp_pending := dict_set sender sub (bp_pending p)\<rparr>"
    using r unfolding s by (auto split: option.splits)
  then have "dict_get (bp_pending p') = (dict_get (bp_pending p))(sender \<mapsto> sub)"
    by (auto simp: dict_simps)
  moreover have "dict_ok (bp_pending p')" using p' assms(1) by (auto simp: pool_ok_def)
  moreover have "admissible C p' t u = admissible C p t u" for t u using p' by auto
  ultimately show ?thesis
    using r x assms(1) unfolding s pool_ok_def by (auto split: option.splits)
qed

text \<open>C20. The pool admits only what its checks establish: an accepted submission is signed by the key
  its sender's address comes from, matches its bundle hash and claim set, and keeps within the
  limits, for every pending bundle of the resulting pool; the sender's entry is the new submission,
  every other sender's is untouched, and an existing entry is replaced only by one with the same
  sequence number and bundle hash and a strictly higher fee.\<close>

theorem pool_submit_invariant:
  assumes "pool_ok C p" "pool_submit C p sub current_height confirmed_seq = Inr (p', sender)"
  shows "pool_ok C p' \<and> admissible C p' sender sub \<and> current_height \<le> env_expiry_height (sub_envelope sub) \<and>
    dict_get (bp_pending p') = (dict_get (bp_pending p))(sender \<mapsto> sub) \<and>
    (case dict_get (bp_pending p) sender of
       None \<Rightarrow> env_seq (sub_envelope sub) = confirmed_seq + 1
     | Some old \<Rightarrow> env_seq (sub_envelope old) = env_seq (sub_envelope sub) \<and>
         env_bundle_hash (sub_envelope old) = env_bundle_hash (sub_envelope sub) \<and>
         (old = sub \<or> env_fee (sub_envelope old) < env_fee (sub_envelope sub)))"
  using assms by (rule pool_submit_spec)

text \<open>
  The three-way test of \<open>remove_finalized_bundle\<close> comes down to one comparison: the pending
  bundle goes exactly when its sequence number is not above the finalized one, whatever the hash.
\<close>

lemma pool_remove_finalized_iff:
  "pool_remove_finalized p sender seq h =
     (case dict_get (bp_pending p) sender of
        None \<Rightarrow> (p, False)
      | Some old \<Rightarrow> if env_seq (sub_envelope old) \<le> seq then (pool_remove_sender p sender, True) else (p, False))"
  by (auto simp: pool_remove_finalized_def pool_remove_sender_def Let_def split: option.splits)

lemma pool_remove_finalized_get:
  "dict_get (bp_pending (fst (pool_remove_finalized p sender seq h))) t =
     (case dict_get (bp_pending p) t of
        None \<Rightarrow> None
      | Some old \<Rightarrow> if t = sender \<and> env_seq (sub_envelope old) \<le> seq then None else Some old)"
  by (auto simp: pool_remove_finalized_iff pool_remove_sender_def dict_simps split: option.splits)

lemma pool_remove_finalized_ok:
  assumes "pool_ok C p"
  shows "pool_ok C (fst (pool_remove_finalized p sender seq h))"
proof -
  have "dict_ok (bp_pending (fst (pool_remove_finalized p sender seq h)))"
    using assms by (auto simp: pool_ok_def pool_remove_finalized_iff pool_remove_sender_def split: option.splits)
  moreover have "admissible C (fst (pool_remove_finalized p sender seq h)) t u = admissible C p t u" for t u
    by (auto simp: pool_remove_finalized_iff pool_remove_sender_def split: option.splits)
  ultimately show ?thesis
    using assms by (auto simp: pool_ok_def pool_remove_finalized_get split: option.splits if_splits)
qed

text \<open>Finalising a bundle keeps the pool's invariant and removes a pending bundle exactly when it
  belongs to that sender and its sequence number is at most the finalised one; every other pending
  bundle stays.\<close>

theorem pool_remove_finalized_invariant:
  assumes "pool_ok C p"
  shows "pool_ok C (fst (pool_remove_finalized p sender seq h)) \<and>
    (\<forall>t. dict_get (bp_pending (fst (pool_remove_finalized p sender seq h))) t =
      (case dict_get (bp_pending p) t of
         None \<Rightarrow> None
       | Some old \<Rightarrow> if t = sender \<and> env_seq (sub_envelope old) \<le> seq then None else Some old))"
  using pool_remove_finalized_ok [OF assms] by (simp add: pool_remove_finalized_get)

subsection \<open>The snapshot\<close>

lemma set_py_take: "set (py_take n xs) \<subseteq> set xs"
  by (auto simp: py_take_def dest: in_set_takeD)

lemma sorted_py_take: "sorted (map f xs) \<Longrightarrow> sorted (map f (py_take n xs))"
  by (auto simp: py_take_def take_map [symmetric] sorted_wrt_take)

lemma distinct_py_take: "distinct (map f xs) \<Longrightarrow> distinct (map f (py_take n xs))"
  by (auto simp: py_take_def take_map [symmetric] distinct_take)

lemma snapshot_limit: "pool_snapshot C p limit =
    (case limit of None \<Rightarrow> pool_snapshot C p None | Some n \<Rightarrow> py_take n (pool_snapshot C p None))"
  by (simp add: pool_snapshot_def Let_def split: option.splits)

lemma set_pool_snapshot: "set (pool_snapshot C p None) = snd ` set (bp_pending p)"
  by (simp add: pool_snapshot_def)

lemma snapshot_subset: "set (pool_snapshot C p limit) \<subseteq> snd ` set (bp_pending p)"
  unfolding snapshot_limit [of C p limit] using set_py_take set_pool_snapshot [of C p] by (fastforce split: option.splits)

lemma pending_get: "pool_ok C p \<Longrightarrow> (sender, sub) \<in> set (bp_pending p) \<longleftrightarrow> dict_get (bp_pending p) sender = Some sub"
  by (auto simp: pool_ok_def dict_ok_def)

lemma pending_sender: "pool_ok C p \<Longrightarrow> (sender, sub) \<in> set (bp_pending p) \<Longrightarrow> admissible C p sender sub"
  by (auto simp: pending_get pool_ok_def)

lemma snapshot_admissible:
  assumes "pool_ok C p" "sub \<in> set (pool_snapshot C p limit)"
  shows "admissible C p (sc_sender (sub_sidecar sub)) sub"
proof -
  from assms(2) snapshot_subset obtain sender where "(sender, sub) \<in> set (bp_pending p)" by fastforce
  then have "admissible C p sender sub" by (rule pending_sender [OF assms(1)])
  moreover from this have "sc_sender (sub_sidecar sub) = sender" by (simp add: admissible_def)
  ultimately show ?thesis by simp
qed

lemma snapshot_senders_distinct:
  assumes "pool_ok C p"
  shows "distinct (map (\<lambda>sub. sc_sender (sub_sidecar sub)) (pool_snapshot C p limit))"
proof -
  have "map (\<lambda>sub. sc_sender (sub_sidecar sub)) (map snd (bp_pending p)) = map fst (bp_pending p)"
    using pending_sender [OF assms] by (auto simp: admissible_def)
  then have "distinct (map (\<lambda>sub. sc_sender (sub_sidecar sub)) (map snd (bp_pending p)))"
    using assms by (simp only: pool_ok_def dict_ok_def)
  then have "distinct (map (\<lambda>sub. sc_sender (sub_sidecar sub)) (pool_snapshot C p None))"
    by (simp only: pool_snapshot_def Let_def option.case distinct_map_sort_key)
  then show ?thesis
    unfolding snapshot_limit [of C p limit] by (auto simp: distinct_py_take split: option.splits)
qed

lemma snapshot_sorted:
  "sorted (map (\<lambda>sub. compute_addr_key C (sc_sender (sub_sidecar sub))) (pool_snapshot C p limit))"
  unfolding snapshot_limit [of C p limit]
  by (auto simp: pool_snapshot_def sorted_py_take split: option.splits)

subsection \<open>Examples\<close>

definition sample_pem :: bytes where
  "sample_pem = [65]"

definition zero_addr :: string where
  "zero_addr = ''0x0000000000000000000000000000000000000000''"

definition sample_submission :: "int \<Rightarrow> bundle_submission" where
  "sample_submission fee = \<lparr>
     sub_envelope = \<lparr>env_version = 2, env_chain_id = 1, env_seq = 1, env_expiry_height = 9, env_fee = fee,
       env_nonce = 0, env_bundle_hash = replicate 32 0, env_claim_set_hash = None,
       env_sig = [0x30, 6, 2, 1, 1, 2, 1, 1]\<rparr>,
     sub_sidecar = \<lparr>sc_sender = zero_addr, sc_txs = [], sc_tx_count = 0\<rparr>,
     sub_pubkey = sample_pem\<rparr>"

lemma hex_zeros: "hex (replicate 20 0) = ''0000000000000000000000000000000000000000''"
  by code_simp

lemma sample_address: "address_from_public_key_pem flat_crypto sample_pem = Inr zero_addr"
  by (simp add: address_from_public_key_pem_def pem_to_der_def sample_pem_def strip_bytes_def is_space_def
      startswith_def ascii_def flat_crypto_def last_bytes_def zero_addr_def hex_zeros Let_def)

lemma sample_signature: "is_low_s_signature [0x30, 6, 2, 1, 1, 2, 1, 1] = Inr True"
  by (simp add: is_low_s_signature_def parse_ecdsa_der_def der_read_length_def byte_at_def slice_def
      from_bytes_def LOW_S_MAX_def SECP256K1_ORDER_def Let_def)

lemma sample_submission_verifies:
  "verify_bundle_envelope flat_crypto (sub_envelope (sample_submission fee)) pk = Inr True"
  by (simp add: verify_bundle_envelope_def sample_submission_def verify_digest_secp256k1_def sample_signature
      compute_bundle_sighash_def) (simp add: flat_crypto_def)

definition sample_pool :: bundle_pool where
  "sample_pool = bundle_pool_new 1 32768 128 64"

lemma sample_submit:
  "pool_submit flat_crypto sample_pool (sample_submission fee) 0 0 =
     Inr (sample_pool\<lparr>bp_pending := [(zero_addr, sample_submission fee)]\<rparr>, zero_addr)"
proof -
  have "int (length (canonical_bytes (bundle_sidecar_obj (sub_sidecar (sample_submission fee))))) \<le> 32768"
    by (simp add: canonical_bytes_def bundle_sidecar_obj_def sample_submission_def zero_addr_def encode_str_def
        encode_int_def magnitude_bytes_def utf8_char_def)
  then show ?thesis
    using sample_submission_verifies [of fee]
    by (simp add: pool_submit_def sample_submission_def sample_address pool_check_limits_def pool_enter_def
        sample_pool_def bundle_pool_new_def compute_bundle_hash_def Let_def)
qed

theorem pool_submit_invariant_witness:
  "pool_ok flat_crypto (sample_pool\<lparr>bp_pending := [(zero_addr, sample_submission 3)]\<rparr>)"
  using pool_submit_invariant [OF _ sample_submit] by (simp add: sample_pool_def pool_new_ok)

theorem pool_remove_finalized_invariant_witness:
  "dict_get (bp_pending (fst (pool_remove_finalized (sample_pool\<lparr>bp_pending := [(zero_addr, sample_submission 3)]\<rparr>)
     zero_addr 1 (replicate 32 9)))) zero_addr = None"
proof -
  have "pool_ok flat_crypto sample_pool" by (simp add: sample_pool_def pool_new_ok)
  then have "pool_ok flat_crypto (sample_pool\<lparr>bp_pending := [(zero_addr, sample_submission 3)]\<rparr>)"
    using pool_submit_spec [OF _ sample_submit] by blast
  from pool_remove_finalized_invariant [OF this] show ?thesis
    by (simp add: sample_submission_def)
qed

end
