(* ===== verification/Chain_State.thy ===== *)
theory Chain_State
  imports Receipt_Cache Bundle_Pool
begin

section \<open>The ledger state machine (\<open>ChainStateV2\<close> in \<open>EZ_V2/chain.py\<close>)\<close>

text \<open>
  The state of a node's ledger and the operations that build, preview and apply blocks. Every
  operation computes on copies and assigns the fields of the state last, so a call that raises
  leaves the state as it was, and the model returns an error or the result with the new state.
  The only errors behind an assignment (the receipt cache is filled before the last check) are
  shown to be unreachable. \<open>None.bundle_hash\<close> on an absent head reference is
  \<open>MissingHeadRef\<close>, the code's \<open>AttributeError\<close>.
\<close>

datatype chain_error =
    ChainCrypto crypto_error
  | ChainPool pool_error
  | ChainSmt smt_error
  | ChainHash hash_error
  | ChainType type_error
  | VersionMismatch
  | UnexpectedHeight
  | PrevHashMismatch
  | EntriesNotSorted
  | DuplicateAddrKey
  | SidecarsLength
  | MissingPublicKeys
  | BlockHashMismatch
  | DuplicateSender
  | SenderMismatch
  | BundleHashMismatch
  | ClaimSetHashMismatch
  | LeafClaimSetHash
  | SignatureInvalid
  | BundleExpired
  | PrevRefMismatch
  | FirstSeqNotOne
  | SeqDiscontinuity
  | MissingHeadRef
  | HeadRefBundleHash
  | HeadRefBlockHash
  | DiffRootMismatch
  | StateRootMismatch
  | ReceiptProofInvalid

definition map_err :: "('e \<Rightarrow> 'f) \<Rightarrow> 'e + 'a \<Rightarrow> 'f + 'a" where
  "map_err f r = (case r of Inl e \<Rightarrow> Inl (f e) | Inr a \<Rightarrow> Inr a)"

lemma map_err_simps [simp]: "map_err f (Inl e) = Inl (f e)" "map_err f (Inr a) = Inr a"
  by (simp_all add: map_err_def)

lemma map_err_Inr [result_simps]: "map_err f r = Inr a \<longleftrightarrow> r = Inr a"
  by (cases r) simp_all

record chain_state =
  cs_version :: int
  cs_chain_id :: int
  cs_height :: int
  cs_block_hash :: bytes
  cs_tree :: smt
  cs_leaves :: "(string, account_leaf) dict"
  cs_blocks :: "block list"
  cs_cache :: receipt_cache
  cs_pool :: bundle_pool

type_synonym receipts = "(string, receipt) dict"

definition chain_new ::
    "crypto \<Rightarrow> int \<Rightarrow> int \<Rightarrow> int \<Rightarrow> int \<Rightarrow> int \<Rightarrow> int \<Rightarrow> bytes \<Rightarrow> chain_state" where
  "chain_new C version chain_id receipt_cache_blocks max_bundle_bytes max_tx max_values genesis_block_hash =
     \<lparr>cs_version = version, cs_chain_id = chain_id, cs_height = 0, cs_block_hash = genesis_block_hash,
      cs_tree = \<lparr>smt_depth = 256, smt_values = [], smt_defaults = default_hashes C 256\<rparr>,
      cs_leaves = [], cs_blocks = [], cs_cache = receipt_cache_new receipt_cache_blocks,
      cs_pool = bundle_pool_new chain_id max_bundle_bytes max_tx max_values\<rparr>"

definition chain_copy :: "crypto \<Rightarrow> chain_state \<Rightarrow> chain_error + chain_state" where
  "chain_copy C st =
     res_bind (map_err ChainSmt (smt_copy C (cs_tree st))) (\<lambda>tree.
     Inr ((chain_new C (cs_version st) (cs_chain_id st) (rca_max_blocks (cs_cache st)) 32768 128 64
             (cs_block_hash st))
           \<lparr>cs_height := cs_height st, cs_block_hash := cs_block_hash st, cs_tree := tree,
            cs_leaves := cs_leaves st\<rparr>))"

definition head_ref_of :: "account_leaf option \<Rightarrow> bundle_ref option" where
  \<comment> \<open>\<open>old_leaf.head_ref if old_leaf else None\<close>\<close>
  "head_ref_of leaf = (case leaf of None \<Rightarrow> None | Some l \<Rightarrow> leaf_head_ref l)"

definition confirmed_seq :: "chain_state \<Rightarrow> string \<Rightarrow> int" where
  "confirmed_seq st sender =
     (case head_ref_of (dict_get (cs_leaves st) sender) of None \<Rightarrow> 0 | Some r \<Rightarrow> br_seq r)"

definition submit_bundle ::
    "crypto \<Rightarrow> chain_state \<Rightarrow> bundle_submission \<Rightarrow> chain_error + (chain_state \<times> string)" where
  "submit_bundle C st sub =
     res_bind (map_err ChainCrypto (address_from_public_key_pem C (sub_pubkey sub))) (\<lambda>sender.
     res_bind (map_err ChainPool (pool_submit C (cs_pool st) sub (cs_height st) (confirmed_seq st sender)))
       (\<lambda>(pool, addr). Inr (st\<lparr>cs_pool := pool\<rparr>, addr)))"

subsection \<open>Building a block\<close>

definition new_leaf :: "chain_state \<Rightarrow> bundle_submission \<Rightarrow> int \<Rightarrow> bytes \<Rightarrow> account_leaf" where
  "new_leaf st sub height block_hash =
     \<lparr>leaf_addr = sc_sender (sub_sidecar sub),
      leaf_head_ref = Some \<lparr>br_height = height, br_block_hash = block_hash,
        br_bundle_hash = env_bundle_hash (sub_envelope sub), br_seq = env_seq (sub_envelope sub)\<rparr>,
      leaf_prev_ref = head_ref_of (dict_get (cs_leaves st) (sc_sender (sub_sidecar sub))),
      leaf_claim_set_hash = env_claim_set_hash (sub_envelope sub)\<rparr>"

definition prepare_entry :: "crypto \<Rightarrow> chain_state \<Rightarrow> int \<Rightarrow> bytes \<Rightarrow> bundle_submission \<Rightarrow> diff_entry" where
  "prepare_entry C st height block_hash sub =
     \<lparr>de_addr_key = compute_addr_key C (sc_sender (sub_sidecar sub)),
      de_new_leaf = new_leaf st sub height block_hash, de_envelope = sub_envelope sub,
      de_bundle_hash = env_bundle_hash (sub_envelope sub)\<rparr>"

definition prepare_entries ::
    "crypto \<Rightarrow> chain_state \<Rightarrow> bundle_submission list \<Rightarrow> int \<Rightarrow> bytes \<Rightarrow>
     diff_entry list \<times> (string, bundle_ref option) dict" where
  "prepare_entries C st submissions height block_hash =
     (map (prepare_entry C st height block_hash) submissions,
      fold (\<lambda>sub. dict_set (sc_sender (sub_sidecar sub))
                  (head_ref_of (dict_get (cs_leaves st) (sc_sender (sub_sidecar sub))))) submissions [])"

fun set_leaves ::
    "crypto \<Rightarrow> diff_entry list \<Rightarrow> smt \<Rightarrow> (string, account_leaf) dict \<Rightarrow>
     chain_error + (smt \<times> (string, account_leaf) dict)" where
  "set_leaves C [] tree leaves = Inr (tree, leaves)"
| "set_leaves C (entry # entries) tree leaves =
     res_bind (map_err ChainSmt (smt_set tree (de_addr_key entry) (hash_account_leaf C (de_new_leaf entry))))
       (\<lambda>tree. set_leaves C entries tree (dict_set (leaf_addr (de_new_leaf entry)) (de_new_leaf entry) leaves))"

definition batch_id :: "int \<Rightarrow> bytes \<Rightarrow> string" where
  "batch_id height block_hash = str_int height @ '':'' @ hex block_hash"

definition add_batch ::
    "crypto \<Rightarrow> smt \<Rightarrow> int \<Rightarrow> bytes \<Rightarrow> bytes \<Rightarrow> diff_entry list \<Rightarrow> receipt_cache \<Rightarrow>
     chain_error + receipt_cache" where
  "add_batch C tree height block_hash state_root entries cache =
     (if entries = [] then Inr cache
      else
        res_bind (map_err ChainSmt (build_multiproof C tree (map de_addr_key entries))) (\<lambda>mp.
        Inr (receipt_cache_add_proof_batch cache height
               \<lparr>rpb_batch_id = batch_id height block_hash, rpb_state_root = state_root, rpb_multi_proof = mp\<rparr>)))"

definition make_receipt :: "header_lite \<Rightarrow> diff_entry \<Rightarrow> bundle_ref option \<Rightarrow> smt_proof \<Rightarrow> receipt" where
  "make_receipt header entry prev_ref proof =
     \<lparr>rc_header = header, rc_seq = env_seq (de_envelope entry), rc_prev_ref = prev_ref,
      rc_claim_set_hash = leaf_claim_set_hash (de_new_leaf entry), rc_proof = Some proof, rc_batch_ref = None\<rparr>"

fun build_receipts ::
    "crypto \<Rightarrow> smt \<Rightarrow> header_lite \<Rightarrow> (string, bundle_ref option) dict \<Rightarrow> diff_entry list \<Rightarrow>
     receipts \<Rightarrow> receipt_cache \<Rightarrow> chain_error + (receipts \<times> receipt_cache)" where
  "build_receipts C tree header prev_refs [] rs cache = Inr (rs, cache)"
| "build_receipts C tree header prev_refs (entry # entries) rs cache =
     res_bind (map_err ChainSmt (smt_prove C tree (de_addr_key entry))) (\<lambda>proof.
       let addr = leaf_addr (de_new_leaf entry);
           r = make_receipt header entry (dict_get_default prev_refs addr None) proof
       in case leaf_head_ref (de_new_leaf entry) of
            None \<Rightarrow> Inl MissingHeadRef
          | Some ref \<Rightarrow>
              build_receipts C tree header prev_refs entries (dict_set addr r rs) (receipt_cache_add cache addr r ref))"

definition finalize_all :: "(string \<times> int \<times> bytes) list \<Rightarrow> bundle_pool \<Rightarrow> bundle_pool" where
  "finalize_all fs pool = fold (\<lambda>(addr, seq, h) p. fst (pool_remove_finalized p addr seq h)) fs pool"

definition execute_submissions ::
    "crypto \<Rightarrow> chain_state \<Rightarrow> bundle_submission list \<Rightarrow> int \<Rightarrow> bytes \<Rightarrow> bytes \<Rightarrow> bool \<Rightarrow>
     chain_error + (block \<times> receipts \<times> chain_state)" where
  "execute_submissions C st submissions timestamp proposer_sig consensus_extra remove_from_pool =
     (let height = cs_height st + 1;
          provisional = sort_key de_addr_key (fst (prepare_entries C st submissions height ZERO_HASH32));
          block_hash = derive_block_hash C (cs_version st) (cs_chain_id st) height (cs_block_hash st) timestamp
            proposer_sig consensus_extra provisional;
          ordered = sort_key (\<lambda>sub. compute_addr_key C (sc_sender (sub_sidecar sub))) submissions;
          (unsorted, prev_refs) = prepare_entries C st ordered height block_hash;
          entries = sort_key de_addr_key unsorted
      in res_bind (map_err ChainSmt (smt_copy C (cs_tree st))) (\<lambda>copied.
         res_bind (set_leaves C entries copied (cs_leaves st)) (\<lambda>(tree, leaves).
         res_bind (map_err ChainSmt (smt_root C tree)) (\<lambda>state_root.
         res_bind (map_err ChainHash (compute_diff_root C entries)) (\<lambda>diff_root.
         res_bind (map_err ChainType (block_header_init \<lparr>bh_version = cs_version st, bh_chain_id = cs_chain_id st,
             bh_height = height, bh_prev_block_hash = cs_block_hash st, bh_state_root = state_root,
             bh_diff_root = diff_root, bh_timestamp = timestamp, bh_proposer_sig = proposer_sig,
             bh_consensus_extra = consensus_extra\<rparr>)) (\<lambda>header.
         let block = \<lparr>blk_hash = block_hash, blk_header = header,
               blk_diff = \<lparr>dp_entries = entries, dp_sidecars = map sub_sidecar ordered,
                          dp_pubkeys = map sub_pubkey ordered\<rparr>\<rparr>;
             header_lite = \<lparr>hl_height = height, hl_block_hash = block_hash, hl_state_root = state_root\<rparr>
         in res_bind (add_batch C tree height block_hash state_root entries (cs_cache st)) (\<lambda>cache.
            res_bind (build_receipts C tree header_lite prev_refs entries [] cache) (\<lambda>(rs, cache).
            Inr (block, rs, st\<lparr>cs_height := height, cs_block_hash := block_hash, cs_tree := tree,
              cs_leaves := leaves, cs_blocks := cs_blocks st @ [block], cs_cache := cache,
              cs_pool := (if remove_from_pool
                 then finalize_all (map (\<lambda>sub. (sc_sender (sub_sidecar sub), env_seq (sub_envelope sub),
                        env_bundle_hash (sub_envelope sub))) submissions) (cs_pool st)
                 else cs_pool st)\<rparr>)))))))))"

definition build_block ::
    "crypto \<Rightarrow> chain_state \<Rightarrow> int \<Rightarrow> bytes \<Rightarrow> bytes \<Rightarrow> int option \<Rightarrow>
     chain_error + (block \<times> receipts \<times> chain_state)" where
  "build_block C st timestamp proposer_sig consensus_extra limit =
     execute_submissions C st (pool_snapshot C (cs_pool st) limit) timestamp proposer_sig consensus_extra True"

definition preview_block ::
    "crypto \<Rightarrow> chain_state \<Rightarrow> int \<Rightarrow> bytes \<Rightarrow> bytes \<Rightarrow> int option \<Rightarrow> chain_error + (block \<times> receipts)" where
  "preview_block C st timestamp proposer_sig consensus_extra limit =
     res_bind (chain_copy C st) (\<lambda>preview.
     res_bind (build_block C (preview\<lparr>cs_pool := (cs_pool preview)\<lparr>bp_pending := bp_pending (cs_pool st)\<rparr>\<rparr>)
       timestamp proposer_sig consensus_extra limit) (\<lambda>(block, rs, _). Inr (block, rs)))"

subsection \<open>Applying a block\<close>

definition check_entry ::
    "crypto \<Rightarrow> chain_state \<Rightarrow> block \<Rightarrow> string list \<Rightarrow> diff_entry \<Rightarrow> bundle_sidecar \<Rightarrow> bytes \<Rightarrow>
     chain_error + string" where
  \<comment> \<open>The checks of one round of \<open>apply_block\<close>'s loop; the result is the sender.\<close>
  "check_entry C st block seen entry sidecar public_key =
     (case address_from_public_key_pem C public_key of
        Inl e \<Rightarrow> Inl (ChainCrypto e)
      | Inr sender \<Rightarrow>
          let envelope = de_envelope entry; leaf = de_new_leaf entry; old_leaf = dict_get (cs_leaves st) sender
          in if sender \<in> set seen then Inl DuplicateSender
             else if sender \<noteq> sc_sender sidecar \<or> sender \<noteq> leaf_addr leaf then Inl SenderMismatch
             else if compute_bundle_hash C sidecar \<noteq> de_bundle_hash entry \<or>
                     de_bundle_hash entry \<noteq> env_bundle_hash envelope then Inl BundleHashMismatch
             else if env_claim_set_hash envelope \<noteq> None \<and>
                     env_claim_set_hash envelope \<noteq> Some (computed_claim_set_hash C sidecar)
             then Inl ClaimSetHashMismatch
             else if leaf_claim_set_hash leaf \<noteq> env_claim_set_hash envelope then Inl LeafClaimSetHash
             else
               case verify_bundle_envelope C envelope public_key of
                 Inl e \<Rightarrow> Inl (ChainCrypto e)
               | Inr False \<Rightarrow> Inl SignatureInvalid
               | Inr True \<Rightarrow>
                   if env_expiry_height envelope < bh_height (blk_header block) then Inl BundleExpired
                   else if leaf_prev_ref leaf \<noteq> head_ref_of old_leaf then Inl PrevRefMismatch
                   else if old_leaf = None \<and> env_seq envelope \<noteq> 1 then Inl FirstSeqNotOne
                   else if old_leaf \<noteq> None \<and> head_ref_of old_leaf = None then Inl MissingHeadRef
                   else if old_leaf \<noteq> None \<and> env_seq envelope \<noteq> br_seq (the (head_ref_of old_leaf)) + 1
                   then Inl SeqDiscontinuity
                   else
                     case leaf_head_ref leaf of
                       None \<Rightarrow> Inl MissingHeadRef
                     | Some ref \<Rightarrow>
                         if br_bundle_hash ref \<noteq> de_bundle_hash entry then Inl HeadRefBundleHash
                         else if br_block_hash ref \<noteq> blk_hash block then Inl HeadRefBlockHash
                         else Inr sender)"

fun apply_entries ::
    "crypto \<Rightarrow> chain_state \<Rightarrow> block \<Rightarrow> (diff_entry \<times> bundle_sidecar \<times> bytes) list \<Rightarrow> string list \<Rightarrow>
     smt \<Rightarrow> (string, account_leaf) dict \<Rightarrow> chain_error + (smt \<times> (string, account_leaf) dict)" where
  "apply_entries C st block [] seen tree leaves = Inr (tree, leaves)"
| "apply_entries C st block ((entry, sidecar, public_key) # es) seen tree leaves =
     res_bind (check_entry C st block seen entry sidecar public_key) (\<lambda>sender.
     res_bind (map_err ChainSmt (smt_set tree (de_addr_key entry) (hash_account_leaf C (de_new_leaf entry))))
       (\<lambda>tree. apply_entries C st block es (sender # seen) tree (dict_set sender (de_new_leaf entry) leaves)))"

fun apply_receipts ::
    "crypto \<Rightarrow> chain_state \<Rightarrow> smt \<Rightarrow> header_lite \<Rightarrow> diff_entry list \<Rightarrow> receipts \<Rightarrow> receipt_cache \<Rightarrow>
     chain_error + (receipts \<times> receipt_cache)" where
  "apply_receipts C st tree header [] rs cache = Inr (rs, cache)"
| "apply_receipts C st tree header (entry # entries) rs cache =
     res_bind (map_err ChainSmt (smt_prove C tree (de_addr_key entry))) (\<lambda>proof.
       let addr = leaf_addr (de_new_leaf entry);
           r = make_receipt header entry (head_ref_of (dict_get (cs_leaves st) addr)) proof
       in if \<not> verify_proof C (hl_state_root header) (de_addr_key entry) (hash_account_leaf C (de_new_leaf entry)) proof 256
          then Inl ReceiptProofInvalid
          else
            case leaf_head_ref (de_new_leaf entry) of
              None \<Rightarrow> Inl MissingHeadRef
            | Some ref \<Rightarrow>
                apply_receipts C st tree header entries (dict_set addr r rs) (receipt_cache_add cache addr r ref))"

definition apply_block :: "crypto \<Rightarrow> chain_state \<Rightarrow> block \<Rightarrow> chain_error + (receipts \<times> chain_state)" where
  "apply_block C st block =
     (let header = blk_header block; diff = blk_diff block; entries = dp_entries diff
      in if bh_version header \<noteq> cs_version st \<or> bh_chain_id header \<noteq> cs_chain_id st then Inl VersionMismatch
         else if bh_height header \<noteq> cs_height st + 1 then Inl UnexpectedHeight
         else if bh_prev_block_hash header \<noteq> cs_block_hash st then Inl PrevHashMismatch
         else if entries \<noteq> sort_key de_addr_key entries then Inl EntriesNotSorted
         else if \<not> distinct (map de_addr_key entries) then Inl DuplicateAddrKey
         else if length entries \<noteq> length (dp_sidecars diff) then Inl SidecarsLength
         else if length entries \<noteq> length (dp_pubkeys diff) then Inl MissingPublicKeys
         else if derive_block_hash C (bh_version header) (bh_chain_id header) (bh_height header)
                  (bh_prev_block_hash header) (bh_timestamp header) (bh_proposer_sig header)
                  (bh_consensus_extra header) entries \<noteq> blk_hash block then Inl BlockHashMismatch
         else
           res_bind (map_err ChainSmt (smt_copy C (cs_tree st))) (\<lambda>copied.
           res_bind (apply_entries C st block (zip entries (zip (dp_sidecars diff) (dp_pubkeys diff))) [] copied
             (cs_leaves st)) (\<lambda>(tree, leaves).
           res_bind (map_err ChainHash (compute_diff_root C entries)) (\<lambda>diff_root.
           if diff_root \<noteq> bh_diff_root header then Inl DiffRootMismatch
           else
           res_bind (map_err ChainSmt (smt_root C tree)) (\<lambda>state_root.
           if state_root \<noteq> bh_state_root header then Inl StateRootMismatch
           else
           res_bind (add_batch C tree (bh_height header) (blk_hash block) (bh_state_root header) entries (cs_cache st))
             (\<lambda>cache.
           res_bind (apply_receipts C st tree \<lparr>hl_height = bh_height header, hl_block_hash = blk_hash block,
             hl_state_root = bh_state_root header\<rparr> entries [] cache) (\<lambda>(rs, cache).
           Inr (rs, st\<lparr>cs_height := bh_height header, cs_block_hash := blk_hash block, cs_tree := tree,
             cs_leaves := leaves, cs_blocks := cs_blocks st @ [block], cs_cache := cache,
             cs_pool := finalize_all (map (\<lambda>e. (leaf_addr (de_new_leaf e), env_seq (de_envelope e),
               de_bundle_hash e)) entries) (cs_pool st)\<rparr>))))))))"

end
