(* ===== verification/Chain_Safety.thy ===== *)
theory Chain_Safety
  imports Chain_State
begin

section \<open>What the ledger guarantees\<close>

text \<open>
  The invariant of a ledger state and what building and applying a block do to it. The main
  result is agreement: the block an honest proposer builds is accepted by every replica in the
  same state, which issues the same receipts and ends in the same state.
\<close>

subsection \<open>The invariant\<close>

abbreviation tree_ok :: "crypto \<Rightarrow> smt \<Rightarrow> bool" where
  "tree_ok C t \<equiv> smt_ok C t \<and> smt_depth t = 256"

definition leaves_ok :: "(string, account_leaf) dict \<Rightarrow> bool" where
  "leaves_ok leaves \<longleftrightarrow> dict_ok leaves \<and>
     (\<forall>addr leaf. dict_get leaves addr = Some leaf \<longrightarrow> leaf_addr leaf = addr \<and> leaf_head_ref leaf \<noteq> None)"

definition mirrors :: "crypto \<Rightarrow> smt \<Rightarrow> (string, account_leaf) dict \<Rightarrow> bool" where
  \<comment> \<open>The tree holds, under each account's key, the hash of the account's leaf.\<close>
  "mirrors C t leaves \<longleftrightarrow> (\<forall>addr leaf. dict_get leaves addr = Some leaf \<longrightarrow>
     smt_get t (compute_addr_key C addr) = Some (hash_account_leaf C leaf))"

definition pending_next :: "chain_state \<Rightarrow> bool" where
  \<comment> \<open>Every pending bundle carries its sender's next sequence number.\<close>
  "pending_next st \<longleftrightarrow> (\<forall>sender sub. dict_get (bp_pending (cs_pool st)) sender = Some sub \<longrightarrow>
     env_seq (sub_envelope sub) = confirmed_seq st sender + 1)"

definition numbers_ok :: "chain_state \<Rightarrow> bool" where
  "numbers_ok st \<longleftrightarrow> 0 \<le> cs_height st \<and> 0 \<le> cs_version st \<and> 0 \<le> cs_chain_id st \<and> hash32 (cs_block_hash st)"

definition chain_ok :: "crypto \<Rightarrow> chain_state \<Rightarrow> bool" where
  "chain_ok C st \<longleftrightarrow> tree_ok C (cs_tree st) \<and> leaves_ok (cs_leaves st) \<and> mirrors C (cs_tree st) (cs_leaves st) \<and>
     pool_ok C (cs_pool st) \<and> pending_next st \<and> numbers_ok st"

lemma chain_new_ok:
  assumes "0 \<le> v" "0 \<le> c" "hash32 g"
  shows "chain_ok C (chain_new C v c n b t m g)"
  using assms by (simp add: chain_ok_def numbers_ok_def chain_new_def smt_ok_def leaves_ok_def mirrors_def pool_new_ok pending_next_def)
    (simp add: bundle_pool_new_def)

definition same_ledger :: "chain_state \<Rightarrow> chain_state \<Rightarrow> bool" where
  \<comment> \<open>Two nodes that agree on the chain; their pools and caches may differ.\<close>
  "same_ledger a b \<longleftrightarrow> cs_version a = cs_version b \<and> cs_chain_id a = cs_chain_id b \<and> cs_height a = cs_height b \<and>
     cs_block_hash a = cs_block_hash b \<and> dict_get (cs_leaves a) = dict_get (cs_leaves b) \<and>
     (\<forall>k. length k = 32 \<longrightarrow> smt_get (cs_tree a) k = smt_get (cs_tree b) k)"

lemma length_addr_key [simp]: "digests32 C \<Longrightarrow> length (compute_addr_key C a) = 32"
  by (simp add: compute_addr_key_def keccak_length)

lemma length_leaf_hash [simp]: "digests32 C \<Longrightarrow> length (hash_account_leaf C l) = 32"
  by (simp add: hash_account_leaf_def keccak_length)

subsection \<open>Writing leaves\<close>

definition leaf_puts :: "crypto \<Rightarrow> diff_entry list \<Rightarrow> (bytes \<times> bytes) list" where
  "leaf_puts C es = map (\<lambda>e. (de_addr_key e, hash_account_leaf C (de_new_leaf e))) es"

definition put_leaves :: "diff_entry list \<Rightarrow> (string, account_leaf) dict \<Rightarrow> (string, account_leaf) dict" where
  "put_leaves es leaves = fold (\<lambda>e. dict_set (leaf_addr (de_new_leaf e)) (de_new_leaf e)) es leaves"

abbreviation keys32 :: "diff_entry list \<Rightarrow> bool" where
  "keys32 es \<equiv> list_all (\<lambda>e. length (de_addr_key e) = 32) es"

lemma leaf_puts_valid: "digests32 C \<Longrightarrow> keys32 es \<Longrightarrow> list_all (\<lambda>(k, v). length k = 32 \<and> length v = 32) (leaf_puts C es)"
  by (auto simp: leaf_puts_def list_all_iff)

lemma map_fst_leaf_puts: "map fst (leaf_puts C es) = map de_addr_key es"
  by (simp add: leaf_puts_def)

lemma set_leaves_spec:
  "digests32 C \<Longrightarrow> tree_ok C t \<Longrightarrow> keys32 es \<Longrightarrow>
   set_leaves C es t leaves = Inr (smt256.puts t (leaf_puts C es), put_leaves es leaves)"
proof (induction es arbitrary: t leaves)
  case (Cons e es)
  then show ?case
    using smt_put_ok [of C t "de_addr_key e" "hash_account_leaf C (de_new_leaf e)"]
    by (simp add: smt_set_put leaf_puts_def put_leaves_def smt256.puts_simps)
qed (simp add: leaf_puts_def put_leaves_def smt256.puts_simps)

lemma tree_after:
  assumes "digests32 C" "tree_ok C t" "keys32 es"
  shows "tree_ok C (smt256.puts t (leaf_puts C es))"
  using smt256.ok_puts [OF assms(2) leaf_puts_valid [OF assms(1,3)]] by simp

lemma get_after:
  assumes "digests32 C" "tree_ok C t" "keys32 es" "distinct (map de_addr_key es)" "length k = 32"
  shows "smt_get (smt256.puts t (leaf_puts C es)) k =
    (case map_of (leaf_puts C es) k of None \<Rightarrow> smt_get t k | Some v \<Rightarrow> Some v)"
  by (rule smt256.get_puts [OF assms(2) leaf_puts_valid [OF assms(1,3)]])
    (use assms in \<open>simp_all add: map_fst_leaf_puts\<close>)

lemma get_after_entry:
  assumes "digests32 C" "tree_ok C t" "keys32 es" "distinct (map de_addr_key es)" "e \<in> set es"
  shows "smt_get (smt256.puts t (leaf_puts C es)) (de_addr_key e) = Some (hash_account_leaf C (de_new_leaf e))"
proof -
  have "map_of (leaf_puts C es) (de_addr_key e) = Some (hash_account_leaf C (de_new_leaf e))"
    using assms(4,5) by (intro map_of_is_SomeI) (auto simp: leaf_puts_def comp_def)
  moreover have "length (de_addr_key e) = 32" using assms(3,5) by (auto simp: list_all_iff)
  ultimately show ?thesis using get_after [OF assms(1-4)] by simp
qed

lemma put_leaves_get:
  "dict_get (put_leaves es leaves) a =
     (case map_of (rev (map (\<lambda>e. (leaf_addr (de_new_leaf e), de_new_leaf e)) es)) a of
        None \<Rightarrow> dict_get leaves a | Some l \<Rightarrow> Some l)"
  unfolding put_leaves_def
  by (induction es arbitrary: leaves) (auto simp: dict_simps map_add_def split: option.splits)

lemma put_leaves_cong: "dict_get l = dict_get l' \<Longrightarrow> dict_get (put_leaves es l) = dict_get (put_leaves es l')"
  by (rule ext) (simp add: put_leaves_get split: option.split)

lemma put_leaves_dict_ok: "dict_ok leaves \<Longrightarrow> dict_ok (put_leaves es leaves)"
  unfolding put_leaves_def by (induction es arbitrary: leaves) auto

lemma put_leaves_member:
  assumes "distinct (map (\<lambda>e. leaf_addr (de_new_leaf e)) es)" "e \<in> set es"
  shows "dict_get (put_leaves es leaves) (leaf_addr (de_new_leaf e)) = Some (de_new_leaf e)"
proof -
  have "map_of (rev (map (\<lambda>e. (leaf_addr (de_new_leaf e), de_new_leaf e)) es)) (leaf_addr (de_new_leaf e)) = Some (de_new_leaf e)"
    using assms by (intro map_of_is_SomeI) (auto simp: comp_def simp flip: rev_map)
  then show ?thesis by (simp add: put_leaves_get)
qed

lemma put_leaves_other:
  "a \<notin> (\<lambda>e. leaf_addr (de_new_leaf e)) ` set es \<Longrightarrow> dict_get (put_leaves es leaves) a = dict_get leaves a"
  by (auto simp: put_leaves_get map_of_eq_None_iff split: option.splits dest!: map_of_SomeD)

lemma put_leaves_cases:
  assumes "dict_get (put_leaves es leaves) a = Some l"
  shows "(\<exists>e\<in>set es. l = de_new_leaf e \<and> leaf_addr l = a) \<or>
    a \<notin> (\<lambda>e. leaf_addr (de_new_leaf e)) ` set es \<and> dict_get leaves a = Some l"
  using assms unfolding put_leaves_get
  by (auto split: option.splits dest!: map_of_SomeD simp: map_of_eq_None_iff image_image)

subsection \<open>Receipts\<close>

definition receipt_for :: "crypto \<Rightarrow> smt \<Rightarrow> header_lite \<Rightarrow> (string \<Rightarrow> bundle_ref option) \<Rightarrow> diff_entry \<Rightarrow> receipt" where
  "receipt_for C tree header prev e = make_receipt header e (prev (leaf_addr (de_new_leaf e)))
     (projr (smt_prove C tree (de_addr_key e)))"

definition all_receipts ::
    "crypto \<Rightarrow> smt \<Rightarrow> header_lite \<Rightarrow> (string \<Rightarrow> bundle_ref option) \<Rightarrow> diff_entry list \<Rightarrow> receipts \<Rightarrow> receipts" where
  "all_receipts C tree header prev es rs =
     fold (\<lambda>e. dict_set (leaf_addr (de_new_leaf e)) (receipt_for C tree header prev e)) es rs"

lemma prove_total: "tree_ok C t \<Longrightarrow> length k = 32 \<Longrightarrow> \<exists>p. smt_prove C t k = Inr p"
  by (simp add: smt_prove_full)

definition receipts_cache ::
    "crypto \<Rightarrow> smt \<Rightarrow> header_lite \<Rightarrow> (string \<Rightarrow> bundle_ref option) \<Rightarrow> diff_entry list \<Rightarrow> receipt_cache \<Rightarrow> receipt_cache" where
  "receipts_cache C tree header prev es cache =
     fold (\<lambda>e c. receipt_cache_add c (leaf_addr (de_new_leaf e)) (receipt_for C tree header prev e) (the (leaf_head_ref (de_new_leaf e))))
       es cache"

lemma build_receipts_spec:
  assumes "tree_ok C t" "keys32 es" "\<forall>e\<in>set es. leaf_head_ref (de_new_leaf e) \<noteq> None"
  shows "build_receipts C t header prs es rs cache =
    Inr (all_receipts C t header (\<lambda>a. dict_get_default prs a None) es rs,
      receipts_cache C t header (\<lambda>a. dict_get_default prs a None) es cache)"
  using assms(2,3)
proof (induction es arbitrary: rs cache)
  case (Cons e es)
  obtain p where "smt_prove C t (de_addr_key e) = Inr p"
    using prove_total [OF assms(1)] Cons.prems(1) by fastforce
  with Cons show ?case by (auto simp: all_receipts_def receipts_cache_def receipt_for_def Let_def)
qed (simp add: all_receipts_def receipts_cache_def)

lemma apply_receipts_spec:
  assumes "tree_ok C t" "keys32 es" "\<forall>e\<in>set es. leaf_head_ref (de_new_leaf e) \<noteq> None"
    and "\<forall>e\<in>set es. verify_proof C (hl_state_root header) (de_addr_key e) (hash_account_leaf C (de_new_leaf e))
      (projr (smt_prove C t (de_addr_key e))) 256"
  shows "apply_receipts C st t header es rs cache =
    Inr (all_receipts C t header (\<lambda>a. head_ref_of (dict_get (cs_leaves st) a)) es rs,
      receipts_cache C t header (\<lambda>a. head_ref_of (dict_get (cs_leaves st) a)) es cache)"
  using assms(2-)
proof (induction es arbitrary: rs cache)
  case (Cons e es)
  obtain p where "smt_prove C t (de_addr_key e) = Inr p"
    using prove_total [OF assms(1)] Cons.prems(1) by fastforce
  with Cons show ?case by (auto simp: all_receipts_def receipts_cache_def receipt_for_def Let_def)
qed (simp add: all_receipts_def receipts_cache_def)

lemma receipts_cache_cong:
  assumes "\<forall>e\<in>set es. prev (leaf_addr (de_new_leaf e)) = prev' (leaf_addr (de_new_leaf e))"
  shows "receipts_cache C t header prev es cache = receipts_cache C t header prev' es cache"
  using assms unfolding receipts_cache_def by (induction es arbitrary: cache) (simp_all add: receipt_for_def)

lemma all_receipts_cong:
  assumes "\<forall>e\<in>set es. prev (leaf_addr (de_new_leaf e)) = prev' (leaf_addr (de_new_leaf e))"
    and "\<forall>e\<in>set es. smt_prove C t (de_addr_key e) = smt_prove C u (de_addr_key e)"
  shows "all_receipts C t header prev es rs = all_receipts C u header prev' es rs"
  using assms unfolding all_receipts_def by (induction es arbitrary: rs) (simp_all add: receipt_for_def)

lemma add_batch_total:
  assumes "digests32 C" "tree_ok C t" "keys32 es"
  shows "\<exists>cache'. add_batch C t h bh root es cache = Inr cache'"
proof -
  have "list_all (\<lambda>k. length k * 8 = smt_depth t) (map de_addr_key es)"
    using assms(2,3) by (auto simp: list_all_iff)
  from build_multiproof_ok [OF conjunct1 [OF assms(2)] this] show ?thesis by (auto simp: add_batch_def)
qed

lemma prev_refs_get:
  "dict_get_default (snd (prepare_entries C st subs h bh)) a None =
     (if a \<in> (\<lambda>sub. sc_sender (sub_sidecar sub)) ` set subs then head_ref_of (dict_get (cs_leaves st) a) else None)"
proof -
  have "dict_get_default (fold (\<lambda>sub. dict_set (sc_sender (sub_sidecar sub))
      (head_ref_of (dict_get (cs_leaves st) (sc_sender (sub_sidecar sub))))) subs d) a None =
    (if a \<in> (\<lambda>sub. sc_sender (sub_sidecar sub)) ` set subs then head_ref_of (dict_get (cs_leaves st) a)
     else dict_get_default d a None)" for d
    by (induction subs arbitrary: d) (auto simp: dict_get_default_def dict_simps)
  then show ?thesis by (simp add: prepare_entries_def dict_get_default_def)
qed

subsection \<open>What building a block does\<close>

abbreviation sub_key :: "crypto \<Rightarrow> bundle_submission \<Rightarrow> bytes" where
  "sub_key C sub \<equiv> compute_addr_key C (sc_sender (sub_sidecar sub))"

lemma merkle_loop_32:
  "list_all (\<lambda>x. length x = 32) xs \<Longrightarrow> xs \<noteq> [] \<Longrightarrow> digests32 C \<Longrightarrow> length (hd (merkle_loop C d xs)) = 32"
proof (induction C d xs rule: merkle_loop.induct)
  case (1 C d xs)
  show ?case
  proof (cases "length xs > 1")
    case True
    then have "next_level C d xs \<noteq> []" by (cases xs; cases "tl xs") auto
    moreover have "list_all (\<lambda>x. length x = 32) (next_level C d xs)"
      using "1.prems"(3) by (auto simp: list_all_iff next_level_inputs keccak_length)
    ultimately show ?thesis using "1.IH" True "1.prems"(3) by (subst merkle_loop.simps) simp
  next
    case False
    with "1.prems" show ?thesis by (cases xs) (simp_all add: merkle_loop.simps)
  qed
qed

lemma diff_root_32: "digests32 C \<Longrightarrow> \<exists>d. compute_diff_root C es = Inr d \<and> length d = 32"
proof (cases "es = []")
  case False
  assume C: "digests32 C"
  have l: "list_all (\<lambda>x. length x = 32) (map (compute_diff_leaf_hash C) es)"
    by (auto simp: list_all_iff compute_diff_leaf_hash_def Let_def keccak_length [OF C])
  then have "\<not> list_ex (\<lambda>x. length x \<noteq> 32) (map (compute_diff_leaf_hash C) es)"
    by (auto simp: list_all_iff list_ex_iff)
  with False merkle_loop_32 [OF l _ C] show ?thesis by (simp add: compute_diff_root_def merkle_root_def)
qed (simp add: compute_diff_root_def EMPTY_DIFF_ROOT_def keccak_length)

lemma derive_block_hash_cong:
  "map de_addr_key es = map de_addr_key es' \<Longrightarrow> map de_bundle_hash es = map de_bundle_hash es' \<Longrightarrow>
   derive_block_hash C v c h p t sg x es = derive_block_hash C v c h p t sg x es'"
  by (simp add: derive_block_hash_def)

lemma map_prepare_keys [simp]:
  "map de_addr_key (map (prepare_entry C st h bh) subs) = map (sub_key C) subs"
  "map de_bundle_hash (map (prepare_entry C st h bh) subs) = map (\<lambda>sub. env_bundle_hash (sub_envelope sub)) subs"
  "map (\<lambda>e. leaf_addr (de_new_leaf e)) (map (prepare_entry C st h bh) subs) = map (\<lambda>sub. sc_sender (sub_sidecar sub)) subs"
  by (simp_all add: prepare_entry_def new_leaf_def)

text \<open>The block an honest proposer builds from \<open>subs\<close>, and the parts it is made of.\<close>

definition built_hash :: "crypto \<Rightarrow> chain_state \<Rightarrow> bundle_submission list \<Rightarrow> int \<Rightarrow> bytes \<Rightarrow> bytes \<Rightarrow> bytes" where
  "built_hash C st subs ts sg x = derive_block_hash C (cs_version st) (cs_chain_id st) (cs_height st + 1)
     (cs_block_hash st) ts sg x (map (prepare_entry C st (cs_height st + 1) ZERO_HASH32) subs)"

definition built_entries ::
    "crypto \<Rightarrow> chain_state \<Rightarrow> bundle_submission list \<Rightarrow> int \<Rightarrow> bytes \<Rightarrow> bytes \<Rightarrow> diff_entry list" where
  "built_entries C st subs ts sg x =
     map (prepare_entry C st (cs_height st + 1) (built_hash C st subs ts sg x)) subs"

definition built_tree :: "crypto \<Rightarrow> chain_state \<Rightarrow> bundle_submission list \<Rightarrow> int \<Rightarrow> bytes \<Rightarrow> bytes \<Rightarrow> smt" where
  "built_tree C st subs ts sg x = smt256.puts (cs_tree st) (leaf_puts C (built_entries C st subs ts sg x))"

definition built_block ::
    "crypto \<Rightarrow> chain_state \<Rightarrow> bundle_submission list \<Rightarrow> int \<Rightarrow> bytes \<Rightarrow> bytes \<Rightarrow> block" where
  "built_block C st subs ts sg x =
     \<lparr>blk_hash = built_hash C st subs ts sg x,
      blk_header = \<lparr>bh_version = cs_version st, bh_chain_id = cs_chain_id st, bh_height = cs_height st + 1,
        bh_prev_block_hash = cs_block_hash st, bh_state_root = projr (smt_root C (built_tree C st subs ts sg x)),
        bh_diff_root = projr (compute_diff_root C (built_entries C st subs ts sg x)),
        bh_timestamp = ts, bh_proposer_sig = sg, bh_consensus_extra = x\<rparr>,
      blk_diff = \<lparr>dp_entries = built_entries C st subs ts sg x, dp_sidecars = map sub_sidecar subs,
        dp_pubkeys = map sub_pubkey subs\<rparr>\<rparr>"

lemma built_block_simps [simp]:
  "blk_hash (built_block C st subs ts sg x) = built_hash C st subs ts sg x"
  "bh_version (blk_header (built_block C st subs ts sg x)) = cs_version st"
  "bh_chain_id (blk_header (built_block C st subs ts sg x)) = cs_chain_id st"
  "bh_height (blk_header (built_block C st subs ts sg x)) = cs_height st + 1"
  "bh_prev_block_hash (blk_header (built_block C st subs ts sg x)) = cs_block_hash st"
  "bh_timestamp (blk_header (built_block C st subs ts sg x)) = ts"
  "bh_proposer_sig (blk_header (built_block C st subs ts sg x)) = sg"
  "bh_consensus_extra (blk_header (built_block C st subs ts sg x)) = x"
  "dp_entries (blk_diff (built_block C st subs ts sg x)) = built_entries C st subs ts sg x"
  "dp_sidecars (blk_diff (built_block C st subs ts sg x)) = map sub_sidecar subs"
  "dp_pubkeys (blk_diff (built_block C st subs ts sg x)) = map sub_pubkey subs"
  by (simp_all add: built_block_def)

definition block_header_lite :: "block \<Rightarrow> header_lite" where
  "block_header_lite b = \<lparr>hl_height = bh_height (blk_header b), hl_block_hash = blk_hash b,
     hl_state_root = bh_state_root (blk_header b)\<rparr>"

definition built_receipts ::
    "crypto \<Rightarrow> chain_state \<Rightarrow> bundle_submission list \<Rightarrow> int \<Rightarrow> bytes \<Rightarrow> bytes \<Rightarrow> receipts" where
  "built_receipts C st subs ts sg x =
     all_receipts C (built_tree C st subs ts sg x) (block_header_lite (built_block C st subs ts sg x))
       (\<lambda>a. head_ref_of (dict_get (cs_leaves st) a)) (built_entries C st subs ts sg x) []"

lemma built_entries_facts:
  "map de_addr_key (built_entries C st subs ts sg x) = map (sub_key C) subs"
  "map (\<lambda>e. leaf_addr (de_new_leaf e)) (built_entries C st subs ts sg x) = map (\<lambda>sub. sc_sender (sub_sidecar sub)) subs"
  "\<forall>e\<in>set (built_entries C st subs ts sg x). leaf_head_ref (de_new_leaf e) \<noteq> None"
  "digests32 C \<Longrightarrow> keys32 (built_entries C st subs ts sg x)"
  "derive_block_hash C (cs_version st) (cs_chain_id st) (cs_height st + 1) (cs_block_hash st) ts sg x
     (built_entries C st subs ts sg x) = built_hash C st subs ts sg x"
  unfolding built_entries_def built_hash_def
  by (simp_all only: map_prepare_keys)
    (auto simp: prepare_entry_def new_leaf_def list_all_iff intro!: derive_block_hash_cong)

definition block_cache :: "crypto \<Rightarrow> chain_state \<Rightarrow> smt \<Rightarrow> block \<Rightarrow> receipt_cache" where
  \<comment> \<open>The receipt cache after a block on top of \<open>st\<close> with the tree \<open>t\<close>\<close>
  "block_cache C st t b = receipts_cache C t (block_header_lite b) (\<lambda>a. head_ref_of (dict_get (cs_leaves st) a)) (dp_entries (blk_diff b))
     (projr (add_batch C t (bh_height (blk_header b)) (blk_hash b) (bh_state_root (blk_header b)) (dp_entries (blk_diff b)) (cs_cache st)))"

lemma execute_submissions_spec:
  assumes "digests32 C" "tree_ok C (cs_tree st)" "numbers_ok st" "0 \<le> ts"
    and "sorted (map (sub_key C) subs)" "distinct (map (sub_key C) subs)"
  shows "execute_submissions C st subs ts sg x rm =
    Inr (built_block C st subs ts sg x, built_receipts C st subs ts sg x,
      st\<lparr>cs_height := cs_height st + 1, cs_block_hash := built_hash C st subs ts sg x,
         cs_tree := built_tree C st subs ts sg x,
         cs_leaves := put_leaves (built_entries C st subs ts sg x) (cs_leaves st),
         cs_blocks := cs_blocks st @ [built_block C st subs ts sg x],
         cs_cache := block_cache C st (built_tree C st subs ts sg x) (built_block C st subs ts sg x),
         cs_pool := (if rm then finalize_all (map (\<lambda>sub. (sc_sender (sub_sidecar sub), env_seq (sub_envelope sub),
             env_bundle_hash (sub_envelope sub))) subs) (cs_pool st) else cs_pool st)\<rparr>)"
proof -
  let ?es = "built_entries C st subs ts sg x" and ?t = "built_tree C st subs ts sg x"
  let ?b = "built_block C st subs ts sg x" and ?h = "cs_height st + 1"
  have st: "tree_ok C (cs_tree st)" "0 \<le> cs_height st" "0 \<le> cs_version st" "0 \<le> cs_chain_id st" "hash32 (cs_block_hash st)"
    using assms(2,3) by (simp_all add: numbers_ok_def)
  note es = built_entries_facts [where C = C and st = st and subs = subs and ts = ts and sg = sg and x = x]
  have k: "keys32 ?es" using es(4) assms(1) by simp
  have t: "tree_ok C ?t" unfolding built_tree_def by (rule tree_after [OF assms(1) st(1) k])
  obtain r where r: "smt_root C ?t = Inr r" "length r = 32"
    using smt_root_full t tree_hash_length [OF assms(1)] by metis
  obtain d where d: "compute_diff_root C ?es = Inr d" "length d = 32" using diff_root_32 [OF assms(1)] by blast
  have o: "sort_key (sub_key C) subs = subs" using assms(5) by (simp add: sort_simps)
  have srt: "sort_key de_addr_key (map (prepare_entry C st ?h bh) subs) = map (prepare_entry C st ?h bh) subs" for bh
    by (rule sort_key_sorted) (simp only: map_prepare_keys assms(5))
  have prep: "fst (prepare_entries C st subs ?h bh) = map (prepare_entry C st ?h bh) subs" for bh
    by (simp add: prepare_entries_def)
  obtain c1 where c1: "add_batch C ?t ?h (blk_hash ?b) r ?es (cs_cache st) = Inr c1"
    using add_batch_total [OF assms(1) t k] by blast
  let ?prs = "snd (prepare_entries C st subs ?h (built_hash C st subs ts sg x))"
  have same: "dict_get_default ?prs (leaf_addr (de_new_leaf e)) None = head_ref_of (dict_get (cs_leaves st) (leaf_addr (de_new_leaf e)))"
    if "e \<in> set ?es" for e
  proof -
    have "leaf_addr (de_new_leaf e) \<in> (\<lambda>sub. sc_sender (sub_sidecar sub)) ` set subs"
      using es(2) that by (metis (no_types, lifting) image_eqI list.set_map)
    then show ?thesis by (simp add: prev_refs_get)
  qed
  have "receipts_cache C ?t (block_header_lite ?b) (\<lambda>a. dict_get_default ?prs a None) ?es c1 = block_cache C st ?t ?b"
    unfolding block_cache_def using c1 r receipts_cache_cong [of ?es] same by (simp add: built_block_def)
  moreover have "all_receipts C ?t (block_header_lite ?b) (\<lambda>a. dict_get_default ?prs a None) ?es [] = built_receipts C st subs ts sg x"
    unfolding built_receipts_def by (intro all_receipts_cong ballI) (simp_all add: same)
  ultimately have c2: "build_receipts C ?t (block_header_lite ?b) ?prs ?es [] c1 =
      Inr (built_receipts C st subs ts sg x, block_cache C st ?t ?b)"
    using build_receipts_spec [OF t k es(3), of "block_header_lite ?b" ?prs "[]" c1] by simp
  have hash: "derive_block_hash C (cs_version st) (cs_chain_id st) ?h (cs_block_hash st) ts sg x
      (map (prepare_entry C st ?h ZERO_HASH32) subs) = built_hash C st subs ts sg x"
    by (simp add: built_hash_def)
  have bt: "set_leaves C ?es (cs_tree st) (cs_leaves st) = Inr (?t, put_leaves ?es (cs_leaves st))"
    unfolding built_tree_def by (rule set_leaves_spec [OF assms(1) st(1) k])
  have es_def: "map (prepare_entry C st ?h (built_hash C st subs ts sg x)) subs = ?es"
    by (simp add: built_entries_def)
  have hd: "block_header_init \<lparr>bh_version = cs_version st, bh_chain_id = cs_chain_id st, bh_height = ?h,
      bh_prev_block_hash = cs_block_hash st, bh_state_root = r, bh_diff_root = d, bh_timestamp = ts,
      bh_proposer_sig = sg, bh_consensus_extra = x\<rparr> = Inr (blk_header ?b)"
    using st assms(4) r d by (simp add: block_header_init_def hash32_def built_block_def)
  have bh: "blk_hash ?b = built_hash C st subs ts sg x" by (simp add: built_block_def)
  have hl: "\<lparr>hl_height = ?h, hl_block_hash = built_hash C st subs ts sg x, hl_state_root = r\<rparr> = block_header_lite ?b"
    using r by (simp add: block_header_lite_def built_block_def)
  have blk: "\<lparr>blk_hash = built_hash C st subs ts sg x, blk_header = blk_header ?b, blk_diff = \<lparr>dp_entries = ?es,
      dp_sidecars = map sub_sidecar subs, dp_pubkeys = map sub_pubkey subs\<rparr>\<rparr> = ?b"
    by (simp add: built_block_def)
  have se: "sort_key de_addr_key ?es = ?es" unfolding built_entries_def by (rule srt)
  show ?thesis
    unfolding execute_submissions_def Let_def o prep srt hash case_prod_unfold es_def se smt_copy_same [OF conjunct1 [OF st(1)]]
      map_err_simps res_bind_simps bt fst_conv snd_conv r(1) d(1) hd c1 [unfolded bh] hl blk c2
    by simp
qed

subsection \<open>What applying a block checks\<close>

definition entry_valid ::
    "crypto \<Rightarrow> chain_state \<Rightarrow> block \<Rightarrow> diff_entry \<Rightarrow> bundle_sidecar \<Rightarrow> bytes \<Rightarrow> bool" where
  "entry_valid C st b e sidecar pk \<longleftrightarrow>
     (let sender = leaf_addr (de_new_leaf e); old = dict_get (cs_leaves st) sender
      in address_from_public_key_pem C pk = Inr sender \<and> sc_sender sidecar = sender \<and>
         compute_bundle_hash C sidecar = de_bundle_hash e \<and> env_bundle_hash (de_envelope e) = de_bundle_hash e \<and>
         (env_claim_set_hash (de_envelope e) = None \<or>
          env_claim_set_hash (de_envelope e) = Some (computed_claim_set_hash C sidecar)) \<and>
         leaf_claim_set_hash (de_new_leaf e) = env_claim_set_hash (de_envelope e) \<and>
         verify_bundle_envelope C (de_envelope e) pk = Inr True \<and>
         bh_height (blk_header b) \<le> env_expiry_height (de_envelope e) \<and>
         leaf_prev_ref (de_new_leaf e) = head_ref_of old \<and>
         (old = None \<and> env_seq (de_envelope e) = 1 \<or>
          (\<exists>r. old \<noteq> None \<and> head_ref_of old = Some r \<and> env_seq (de_envelope e) = br_seq r + 1)) \<and>
         (\<exists>ref. leaf_head_ref (de_new_leaf e) = Some ref \<and> br_bundle_hash ref = de_bundle_hash e \<and>
            br_block_hash ref = blk_hash b))"

lemma check_entry_Inr:
  "check_entry C st b seen e sidecar pk = Inr s \<longleftrightarrow>
     s = leaf_addr (de_new_leaf e) \<and> s \<notin> set seen \<and> entry_valid C st b e sidecar pk"
  unfolding check_entry_def entry_valid_def Let_def case_sum_Inr if_Inl_Inr case_sum_bool_Inr case_option_Inr
  by (cases "dict_get (cs_leaves st) (leaf_addr (de_new_leaf e))") (auto simp: head_ref_of_def)

abbreviation entry_addr :: "diff_entry \<times> 'a \<Rightarrow> string" where
  "entry_addr x \<equiv> leaf_addr (de_new_leaf (fst x))"

lemma apply_entries_Inr:
  assumes "digests32 C" "tree_ok C t" "keys32 (map fst xs)"
  shows "apply_entries C st b xs seen t leaves = Inr r \<longleftrightarrow>
    (\<forall>(e, sidecar, pk)\<in>set xs. entry_valid C st b e sidecar pk) \<and>
    distinct (map entry_addr xs) \<and> set seen \<inter> entry_addr ` set xs = {} \<and>
    r = (smt256.puts t (leaf_puts C (map fst xs)), put_leaves (map fst xs) leaves)"
  using assms(2,3)
proof (induction xs arbitrary: t leaves seen)
  case (Cons x xs)
  obtain e sidecar pk where x: "x = (e, sidecar, pk)" by (cases x) auto
  have len: "length (de_addr_key e) = 32" using Cons.prems(2) x by simp
  let ?t = "smt_put t (de_addr_key e) (hash_account_leaf C (de_new_leaf e))"
  have ok: "tree_ok C ?t" using smt_put_ok [of C t] Cons.prems(1) len assms(1) by simp
  have "apply_entries C st b (x # xs) seen t leaves = Inr r \<longleftrightarrow>
    entry_valid C st b e sidecar pk \<and> leaf_addr (de_new_leaf e) \<notin> set seen \<and>
    apply_entries C st b xs (leaf_addr (de_new_leaf e) # seen) ?t
      (dict_set (leaf_addr (de_new_leaf e)) (de_new_leaf e) leaves) = Inr r"
    using Cons.prems(1) len assms(1) x
    by (auto simp: res_bind_Inr check_entry_Inr smt_set_put)
  also have "\<dots> \<longleftrightarrow> (\<forall>(e, sidecar, pk)\<in>set (x # xs). entry_valid C st b e sidecar pk) \<and>
    distinct (map entry_addr (x # xs)) \<and> set seen \<inter> entry_addr ` set (x # xs) = {} \<and>
    r = (smt256.puts t (leaf_puts C (map fst (x # xs))), put_leaves (map fst (x # xs)) leaves)"
    unfolding Cons.IH [OF ok Cons.prems(2) [simplified, THEN conjunct2]]
    using x by (auto simp: leaf_puts_def put_leaves_def smt256.puts_simps image_image)
  finally show ?case .
qed (auto simp: leaf_puts_def put_leaves_def smt256.puts_simps)

text \<open>The conditions a block must meet to be applied, and what applying it does.\<close>

definition block_entries :: "block \<Rightarrow> (diff_entry \<times> bundle_sidecar \<times> bytes) list" where
  "block_entries b = zip (dp_entries (blk_diff b)) (zip (dp_sidecars (blk_diff b)) (dp_pubkeys (blk_diff b)))"

definition applied_tree :: "crypto \<Rightarrow> chain_state \<Rightarrow> block \<Rightarrow> smt" where
  "applied_tree C st b = smt256.puts (cs_tree st) (leaf_puts C (dp_entries (blk_diff b)))"

definition block_valid :: "crypto \<Rightarrow> chain_state \<Rightarrow> block \<Rightarrow> bool" where
  "block_valid C st b \<longleftrightarrow>
     (let h = blk_header b; es = dp_entries (blk_diff b)
      in bh_version h = cs_version st \<and> bh_chain_id h = cs_chain_id st \<and> bh_height h = cs_height st + 1 \<and>
         bh_prev_block_hash h = cs_block_hash st \<and> sort_key de_addr_key es = es \<and> distinct (map de_addr_key es) \<and>
         length (dp_sidecars (blk_diff b)) = length es \<and> length (dp_pubkeys (blk_diff b)) = length es \<and>
         derive_block_hash C (bh_version h) (bh_chain_id h) (bh_height h) (bh_prev_block_hash h) (bh_timestamp h)
           (bh_proposer_sig h) (bh_consensus_extra h) es = blk_hash b \<and>
         (\<forall>(e, sidecar, pk)\<in>set (block_entries b). entry_valid C st b e sidecar pk) \<and>
         distinct (map (\<lambda>e. leaf_addr (de_new_leaf e)) es) \<and>
         compute_diff_root C es = Inr (bh_diff_root h) \<and>
         smt_root C (applied_tree C st b) = Inr (bh_state_root h))"

definition block_receipts :: "crypto \<Rightarrow> chain_state \<Rightarrow> block \<Rightarrow> receipts" where
  "block_receipts C st b = all_receipts C (applied_tree C st b) (block_header_lite b)
     (\<lambda>a. head_ref_of (dict_get (cs_leaves st) a)) (dp_entries (blk_diff b)) []"

lemma block_entries_fst:
  assumes "length (dp_sidecars (blk_diff b)) = length (dp_entries (blk_diff b))"
    "length (dp_pubkeys (blk_diff b)) = length (dp_entries (blk_diff b))"
  shows "map fst (block_entries b) = dp_entries (blk_diff b)"
  using assms by (simp add: block_entries_def)

lemma block_entry_valid:
  assumes "block_valid C st b" "e \<in> set (dp_entries (blk_diff b))"
  obtains s pk where "(e, s, pk) \<in> set (block_entries b)" "entry_valid C st b e s pk"
proof -
  have len: "length (dp_sidecars (blk_diff b)) = length (dp_entries (blk_diff b))"
    "length (dp_pubkeys (blk_diff b)) = length (dp_entries (blk_diff b))"
    using assms(1) by (simp_all add: block_valid_def Let_def)
  from assms(2) obtain s pk where x: "(e, s, pk) \<in> set (block_entries b)"
    unfolding block_entries_fst [OF len, symmetric] by auto
  moreover from this assms(1) have "entry_valid C st b e s pk" unfolding block_valid_def Let_def by blast
  ultimately show ?thesis by (rule that)
qed

lemma proofs_verify:
  assumes "digests32 C" "tree_ok C t" "length k = 32" "smt_get t k = Some v" "smt_root C t = Inr root"
  shows "verify_proof C root k v (projr (smt_prove C t k)) 256"
  using smt_proofs_complete [OF assms(1) conjunct1 [OF assms(2)], of k] assms by auto

definition applied_state :: "crypto \<Rightarrow> chain_state \<Rightarrow> block \<Rightarrow> receipt_cache \<Rightarrow> chain_state" where
  "applied_state C st b cache = st\<lparr>cs_height := bh_height (blk_header b), cs_block_hash := blk_hash b,
     cs_tree := applied_tree C st b, cs_leaves := put_leaves (dp_entries (blk_diff b)) (cs_leaves st),
     cs_blocks := cs_blocks st @ [b], cs_cache := cache,
     cs_pool := finalize_all (map (\<lambda>e. (leaf_addr (de_new_leaf e), env_seq (de_envelope e), de_bundle_hash e))
       (dp_entries (blk_diff b))) (cs_pool st)\<rparr>"

lemma entry_addr_map: "map entry_addr xs = map (\<lambda>e. leaf_addr (de_new_leaf e)) (map fst xs)"
  by simp

lemma apply_block_valid:
  assumes "digests32 C" "tree_ok C (cs_tree st)" "keys32 (dp_entries (blk_diff b))"
    and "apply_block C st b = Inr r"
  shows "block_valid C st b"
proof -
  let ?es = "dp_entries (blk_diff b)"
  have len: "length (dp_sidecars (blk_diff b)) = length ?es" "length (dp_pubkeys (blk_diff b)) = length ?es"
    using assms(4) unfolding apply_block_def Let_def if_Inl_Inr by auto
  note fst = block_entries_fst [OF len]
  have "apply_entries C st b (block_entries b) [] (cs_tree st) (cs_leaves st) = Inr r \<longleftrightarrow>
    (\<forall>(e, sidecar, pk)\<in>set (block_entries b). entry_valid C st b e sidecar pk) \<and>
    distinct (map (\<lambda>e. leaf_addr (de_new_leaf e)) ?es) \<and>
    r = (applied_tree C st b, put_leaves ?es (cs_leaves st))" for r
    using apply_entries_Inr [OF assms(1,2), of "block_entries b"] assms(3)
    unfolding entry_addr_map fst applied_tree_def by simp
  then show ?thesis
    using assms(4) len smt_copy_same [OF conjunct1 [OF assms(2)]]
    unfolding apply_block_def Let_def if_Inl_Inr res_bind_Inr case_prod_unfold block_entries_def [symmetric] block_valid_def
    by (auto simp: map_err_Inr)
qed

lemma apply_block_accepts:
  assumes "digests32 C" "tree_ok C (cs_tree st)" "keys32 (dp_entries (blk_diff b))" "block_valid C st b"
  shows "apply_block C st b = Inr (block_receipts C st b, applied_state C st b (block_cache C st (applied_tree C st b) b))"
proof -
  let ?es = "dp_entries (blk_diff b)" and ?t = "applied_tree C st b" and ?h = "blk_header b"
  note bv = assms(4) [unfolded block_valid_def Let_def]
  have len: "length (dp_sidecars (blk_diff b)) = length ?es" "length (dp_pubkeys (blk_diff b)) = length ?es"
    using bv by simp_all
  note fst = block_entries_fst [OF len]
  have t: "tree_ok C ?t" unfolding applied_tree_def by (rule tree_after [OF assms(1-3)])
  have ae: "apply_entries C st b (block_entries b) [] (cs_tree st) (cs_leaves st) =
      Inr (?t, put_leaves ?es (cs_leaves st))"
    using apply_entries_Inr [OF assms(1,2), of "block_entries b"] assms(3) bv
    unfolding entry_addr_map fst applied_tree_def by simp
  obtain c1 where c1: "add_batch C ?t (bh_height ?h) (blk_hash b) (bh_state_root ?h) ?es (cs_cache st) = Inr c1"
    using add_batch_total [OF assms(1) t assms(3)] by blast
  have hr: "\<forall>e\<in>set ?es. leaf_head_ref (de_new_leaf e) \<noteq> None"
  proof
    fix e assume "e \<in> set ?es"
    with assms(4) obtain s pk where "entry_valid C st b e s pk" by (rule block_entry_valid)
    then show "leaf_head_ref (de_new_leaf e) \<noteq> None" by (auto simp: entry_valid_def Let_def)
  qed
  have "verify_proof C (bh_state_root ?h) (de_addr_key e) (hash_account_leaf C (de_new_leaf e))
      (projr (smt_prove C ?t (de_addr_key e))) 256" if "e \<in> set ?es" for e
  proof (rule proofs_verify [OF assms(1) t])
    show "smt_get ?t (de_addr_key e) = Some (hash_account_leaf C (de_new_leaf e))"
      unfolding applied_tree_def using bv that by (intro get_after_entry [OF assms(1-3)]) simp_all
    show "length (de_addr_key e) = 32" using assms(3) that by (simp add: list_all_iff)
  qed (use bv in simp)
  then have "apply_receipts C st ?t (block_header_lite b) ?es [] c1 =
      Inr (block_receipts C st b, receipts_cache C ?t (block_header_lite b) (\<lambda>a. head_ref_of (dict_get (cs_leaves st) a)) ?es c1)"
    using apply_receipts_spec [OF t assms(3) hr, of "block_header_lite b" st "[]" c1]
    unfolding block_receipts_def block_header_lite_def by simp
  then have c2: "apply_receipts C st ?t (block_header_lite b) ?es [] c1 = Inr (block_receipts C st b, block_cache C st ?t b)"
    using c1 by (simp add: block_cache_def)
  have dh: "derive_block_hash C (cs_version st) (cs_chain_id st) (cs_height st + 1) (cs_block_hash st) (bh_timestamp ?h)
      (bh_proposer_sig ?h) (bh_consensus_extra ?h) ?es = blk_hash b"
    using bv by (elim conjE) simp
  show ?thesis
    using bv dh smt_copy_same [OF conjunct1 [OF assms(2)]] ae c1 c2
    unfolding apply_block_def Let_def block_entries_def [symmetric] block_header_lite_def applied_state_def by simp
qed

subsection \<open>Applying keeps the invariant\<close>

lemma finalize_all_ok: "pool_ok C p \<Longrightarrow> pool_ok C (finalize_all fs p)"
  unfolding finalize_all_def by (induction fs arbitrary: p) (auto simp: pool_remove_finalized_ok)

lemma finalize_all_get:
  "dict_get (bp_pending (finalize_all fs p)) t = Some sub \<longleftrightarrow>
     dict_get (bp_pending p) t = Some sub \<and> (\<forall>(a, s, h)\<in>set fs. a = t \<longrightarrow> s < env_seq (sub_envelope sub))"
  unfolding finalize_all_def
proof (induction fs arbitrary: p)
  case (Cons f fs)
  then show ?case
    by (cases f) (auto simp: pool_remove_finalized_get split: option.splits if_splits)
qed simp

definition entries_faithful :: "crypto \<Rightarrow> diff_entry list \<Rightarrow> bool" where
  \<comment> \<open>What an honest proposer writes and \<open>apply_block\<close> does not check.\<close>
  "entries_faithful C es \<longleftrightarrow> (\<forall>e\<in>set es. de_addr_key e = compute_addr_key C (leaf_addr (de_new_leaf e)) \<and>
     (\<exists>ref. leaf_head_ref (de_new_leaf e) = Some ref \<and> br_seq ref = env_seq (de_envelope e)))"

definition accounts :: "chain_state \<Rightarrow> string set" where
  "accounts st = dom (dict_get (cs_leaves st)) \<union> dom (dict_get (bp_pending (cs_pool st)))"

abbreviation entry_accounts :: "diff_entry list \<Rightarrow> string set" where
  "entry_accounts es \<equiv> (\<lambda>e. leaf_addr (de_new_leaf e)) ` set es"

lemma entry_valid_seq:
  assumes "entry_valid C st b e s pk"
  shows "env_seq (de_envelope e) = confirmed_seq st (leaf_addr (de_new_leaf e)) + 1"
  using assms by (auto simp: entry_valid_def confirmed_seq_def Let_def head_ref_of_def)

lemma applied_leaf_cases:
  assumes "dict_get (put_leaves es leaves) a = Some l"
  obtains (new) e where "e \<in> set es" "l = de_new_leaf e" "leaf_addr (de_new_leaf e) = a"
  | (old) "a \<notin> entry_accounts es" "dict_get leaves a = Some l"
  using put_leaves_cases [OF assms] by blast

lemma applied_mirrors:
  assumes "digests32 C" "tree_ok C t" "mirrors C t leaves" "entries_faithful C es" "distinct (map de_addr_key es)"
    and "inj_on (compute_addr_key C) (dom (dict_get leaves) \<union> entry_accounts es)"
  shows "mirrors C (smt256.puts t (leaf_puts C es)) (put_leaves es leaves)"
  unfolding mirrors_def
proof (intro allI impI)
  fix a l assume l: "dict_get (put_leaves es leaves) a = Some l"
  have k: "keys32 es" using assms(1,4) by (auto simp: list_all_iff entries_faithful_def)
  show "smt_get (smt256.puts t (leaf_puts C es)) (compute_addr_key C a) = Some (hash_account_leaf C l)"
    using l
  proof (cases rule: applied_leaf_cases)
    case (new e)
    then show ?thesis
      using get_after_entry [OF assms(1,2) k assms(5) new(1)] assms(4) by (simp add: entries_faithful_def)
  next
    case old
    have "map_of (leaf_puts C es) (compute_addr_key C a) = None"
      using old assms(4,6) by (auto simp: map_of_eq_None_iff leaf_puts_def entries_faithful_def inj_on_def image_iff)
        (metis (no_types, lifting) UnI1 UnI2 domI image_eqI)
    then show ?thesis
      using get_after [OF assms(1,2) k assms(5)] assms(1,3) old(2) by (simp add: mirrors_def)
  qed
qed

lemma applied_chain_ok:
  assumes "digests32 C" "chain_ok C st" "block_valid C st b" "entries_faithful C (dp_entries (blk_diff b))"
    and "inj_on (compute_addr_key C) (dom (dict_get (cs_leaves st)) \<union> entry_accounts (dp_entries (blk_diff b)))"
  shows "chain_ok C (applied_state C st b cache)"
proof -
  let ?es = "dp_entries (blk_diff b)" and ?st = "applied_state C st b cache"
  note st = assms(2) [unfolded chain_ok_def]
  note bv = assms(3) [unfolded block_valid_def Let_def]
  have k: "keys32 ?es" using assms(1,4) by (auto simp: list_all_iff entries_faithful_def)
  have "leaves_ok (cs_leaves ?st)"
    unfolding leaves_ok_def
  proof (intro conjI allI impI)
    show "dict_ok (cs_leaves ?st)" using st by (simp add: applied_state_def put_leaves_dict_ok leaves_ok_def)
    fix a l assume "dict_get (cs_leaves ?st) a = Some l"
    then have l: "dict_get (put_leaves ?es (cs_leaves st)) a = Some l" by (simp add: applied_state_def)
    show "leaf_addr l = a" "leaf_head_ref l \<noteq> None"
      using st assms(4) by (cases rule: applied_leaf_cases [OF l]; auto simp: leaves_ok_def entries_faithful_def)+
  qed
  moreover have "tree_ok C (cs_tree ?st)"
    using tree_after [OF assms(1) _ k] st by (simp add: applied_state_def applied_tree_def)
  moreover have "mirrors C (cs_tree ?st) (cs_leaves ?st)"
    using applied_mirrors [OF assms(1) _ _ assms(4) _ assms(5)] st bv
    by (simp add: applied_state_def applied_tree_def)
  moreover have "pool_ok C (cs_pool ?st)" using st by (simp add: applied_state_def finalize_all_ok)
  moreover have "pending_next ?st"
    unfolding pending_next_def
  proof (intro allI impI)
    fix sender sub assume "dict_get (bp_pending (cs_pool ?st)) sender = Some sub"
    then have p: "dict_get (bp_pending (cs_pool st)) sender = Some sub"
      and f: "\<forall>e\<in>set ?es. leaf_addr (de_new_leaf e) = sender \<longrightarrow> env_seq (de_envelope e) < env_seq (sub_envelope sub)"
      by (auto simp: applied_state_def finalize_all_get)
    have seq: "env_seq (sub_envelope sub) = confirmed_seq st sender + 1" using p st by (simp add: pending_next_def)
    have "sender \<notin> entry_accounts ?es"
    proof
      assume "sender \<in> entry_accounts ?es"
      then obtain e where e: "e \<in> set ?es" "leaf_addr (de_new_leaf e) = sender" by auto
      from assms(3) e(1) obtain s pk where "entry_valid C st b e s pk" by (rule block_entry_valid)
      from entry_valid_seq [OF this] e(2) bspec [OF f e(1)] seq show False by simp
    qed
    then show "env_seq (sub_envelope sub) = confirmed_seq ?st sender + 1"
      using seq by (simp add: applied_state_def confirmed_seq_def put_leaves_other)
  qed
  moreover have "hash32 (blk_hash b)"
    using bv keccak_hash32 [OF assms(1)] by (metis derive_block_hash_def)
  ultimately show ?thesis using st bv by (simp add: chain_ok_def numbers_ok_def applied_state_def)
qed

subsection \<open>Agreement\<close>

lemma zip3_map: "zip (map f xs) (zip (map g xs) (map h xs)) = map (\<lambda>x. (f x, g x, h x)) xs"
  by (induction xs) simp_all

lemma built_entries_faithful: "entries_faithful C (built_entries C st subs ts sg x)"
  by (auto simp: entries_faithful_def built_entries_def prepare_entry_def new_leaf_def)

lemma same_ledger_confirmed: "same_ledger a b \<Longrightarrow> confirmed_seq a s = confirmed_seq b s"
  by (simp add: same_ledger_def confirmed_seq_def)

lemma same_trees:
  assumes "digests32 C" "tree_ok C t" "tree_ok C u" "\<forall>k. length k = 32 \<longrightarrow> smt_get t k = smt_get u k"
    and "keys32 es" "distinct (map de_addr_key es)"
  shows "\<And>k. length k = 32 \<Longrightarrow> smt_get (smt256.puts t (leaf_puts C es)) k = smt_get (smt256.puts u (leaf_puts C es)) k"
    and "smt_root C (smt256.puts t (leaf_puts C es)) = smt_root C (smt256.puts u (leaf_puts C es))"
    and "\<And>k. length k = 32 \<Longrightarrow> smt_prove C (smt256.puts t (leaf_puts C es)) k = smt_prove C (smt256.puts u (leaf_puts C es)) k"
proof -
  show g: "smt_get (smt256.puts t (leaf_puts C es)) k = smt_get (smt256.puts u (leaf_puts C es)) k"
    if "length k = 32" for k
    using that assms by (simp add: get_after split: option.split)
  note ok = tree_after [OF assms(1,2,5)] tree_after [OF assms(1,3,5)]
  show "smt_root C (smt256.puts t (leaf_puts C es)) = smt_root C (smt256.puts u (leaf_puts C es))"
    by (rule smt256.root_ext [OF ok g])
  show "smt_prove C (smt256.puts t (leaf_puts C es)) k = smt_prove C (smt256.puts u (leaf_puts C es)) k"
    if "length k = 32" for k by (rule smt256.prove_ext [OF ok g that])
qed

text \<open>A bundle an honest proposer may put in the next block.\<close>

definition includable :: "crypto \<Rightarrow> chain_state \<Rightarrow> bundle_submission \<Rightarrow> bool" where
  "includable C st sub \<longleftrightarrow> (\<exists>p. admissible C p (sc_sender (sub_sidecar sub)) sub) \<and>
     env_seq (sub_envelope sub) = confirmed_seq st (sc_sender (sub_sidecar sub)) + 1 \<and>
     cs_height st < env_expiry_height (sub_envelope sub)"

lemma built_entry_valid:
  assumes "leaves_ok (cs_leaves st)" "same_ledger st st'" "includable C st sub"
  shows "entry_valid C st' (built_block C st subs ts sg x)
    (prepare_entry C st (cs_height st + 1) (built_hash C st subs ts sg x) sub) (sub_sidecar sub) (sub_pubkey sub)"
proof -
  let ?a = "sc_sender (sub_sidecar sub)"
  have same: "dict_get (cs_leaves st') ?a = dict_get (cs_leaves st) ?a" using assms(2) by (simp add: same_ledger_def)
  have seq: "env_seq (sub_envelope sub) = confirmed_seq st ?a + 1" using assms(3) by (simp add: includable_def)
  have "dict_get (cs_leaves st) ?a = None \<and> env_seq (sub_envelope sub) = 1 \<or>
    (\<exists>r. dict_get (cs_leaves st) ?a \<noteq> None \<and> head_ref_of (dict_get (cs_leaves st) ?a) = Some r \<and>
      env_seq (sub_envelope sub) = br_seq r + 1)"
  proof (cases "dict_get (cs_leaves st) ?a")
    case None
    then show ?thesis using seq by (simp add: confirmed_seq_def head_ref_of_def)
  next
    case (Some l)
    then obtain r where "leaf_head_ref l = Some r" using assms(1) by (auto simp: leaves_ok_def)
    then show ?thesis using seq Some by (simp add: confirmed_seq_def head_ref_of_def)
  qed
  then show ?thesis
    using assms(3) unfolding entry_valid_def Let_def includable_def admissible_def
    by (auto simp: prepare_entry_def new_leaf_def same built_block_def)
qed

lemma built_block_valid:
  assumes "digests32 C" "chain_ok C st" "tree_ok C (cs_tree st')" "same_ledger st st'"
    and "sorted (map (sub_key C) subs)" "distinct (map (sub_key C) subs)" "\<forall>sub\<in>set subs. includable C st sub"
  shows "block_valid C st' (built_block C st subs ts sg x)"
proof -
  let ?b = "built_block C st subs ts sg x" and ?es = "built_entries C st subs ts sg x"
  note es = built_entries_facts [where C = C and st = st and subs = subs and ts = ts and sg = sg and x = x]
  have st: "tree_ok C (cs_tree st)" "leaves_ok (cs_leaves st)" using assms(2) by (simp_all add: chain_ok_def)
  have sl: "cs_version st' = cs_version st" "cs_chain_id st' = cs_chain_id st" "cs_height st' = cs_height st"
    "cs_block_hash st' = cs_block_hash st"
    using assms(4) by (simp_all add: same_ledger_def)
  have k: "keys32 ?es" "distinct (map de_addr_key ?es)" using es(1,4) assms(1,6) by simp_all
  have "sort_key de_addr_key ?es = ?es" by (rule sort_key_sorted) (simp only: es(1) assms(5))
  moreover have "distinct (map (\<lambda>e. leaf_addr (de_new_leaf e)) ?es)"
    using assms(6) unfolding es(2) by (auto simp: distinct_map inj_on_def)
  moreover have "\<forall>(e, sidecar, pk)\<in>set (block_entries ?b). entry_valid C st' ?b e sidecar pk"
    using built_entry_valid [OF st(2) assms(4)] assms(7)
    by (auto simp: block_entries_def built_block_def built_entries_def zip3_map)
  moreover have "smt_root C (applied_tree C st' ?b) = Inr (bh_state_root (blk_header ?b))"
  proof -
    have "smt_root C (applied_tree C st' ?b) = smt_root C (built_tree C st subs ts sg x)"
      using same_trees(2) [OF assms(1) assms(3) st(1) _ k] assms(4)
      by (simp add: applied_tree_def built_tree_def built_block_def same_ledger_def)
    moreover have "tree_ok C (built_tree C st subs ts sg x)"
      unfolding built_tree_def by (rule tree_after [OF assms(1) st(1) k(1)])
    ultimately show ?thesis by (simp add: built_block_def smt_root_full)
  qed
  moreover have "compute_diff_root C ?es = Inr (bh_diff_root (blk_header ?b))"
    using diff_root_32 [OF assms(1), of ?es] by (auto simp: built_block_def)
  ultimately show ?thesis
    using k(2) es(5) unfolding block_valid_def Let_def built_block_simps sl
    by (simp add: built_entries_def)
qed

lemma execute_submissions_applied:
  assumes "digests32 C" "tree_ok C (cs_tree st)" "numbers_ok st" "0 \<le> ts"
    and "sorted (map (sub_key C) subs)" "distinct (map (sub_key C) subs)"
  shows "execute_submissions C st subs ts sg x True =
    Inr (built_block C st subs ts sg x, built_receipts C st subs ts sg x,
      applied_state C st (built_block C st subs ts sg x)
        (block_cache C st (applied_tree C st (built_block C st subs ts sg x)) (built_block C st subs ts sg x)))"
  using execute_submissions_spec [OF assms, of sg x True]
  by (simp add: applied_state_def applied_tree_def built_tree_def)
    (simp add: built_entries_def prepare_entry_def new_leaf_def comp_def)

lemma pending_of_snapshot:
  assumes "chain_ok C st" "sub \<in> set (pool_snapshot C (cs_pool st) limit)"
  shows "admissible C (cs_pool st) (sc_sender (sub_sidecar sub)) sub"
    and "dict_get (bp_pending (cs_pool st)) (sc_sender (sub_sidecar sub)) = Some sub"
    and "env_seq (sub_envelope sub) = confirmed_seq st (sc_sender (sub_sidecar sub)) + 1"
proof -
  have p: "pool_ok C (cs_pool st)" "pending_next st" using assms(1) by (simp_all add: chain_ok_def)
  show a: "admissible C (cs_pool st) (sc_sender (sub_sidecar sub)) sub"
    by (rule snapshot_admissible [OF p(1) assms(2)])
  obtain s where s: "(s, sub) \<in> set (bp_pending (cs_pool st))"
    using snapshot_subset [of C "cs_pool st" limit] assms(2) by auto
  then have "sc_sender (sub_sidecar sub) = s" using pending_sender [OF p(1) s] by (simp add: admissible_def)
  then show g: "dict_get (bp_pending (cs_pool st)) (sc_sender (sub_sidecar sub)) = Some sub"
    using s pending_get [OF p(1)] by simp
  then show "env_seq (sub_envelope sub) = confirmed_seq st (sc_sender (sub_sidecar sub)) + 1"
    using p(2) by (simp add: pending_next_def)
qed

lemma snapshot_keys:
  assumes "chain_ok C st" "inj_on (compute_addr_key C) (accounts st)"
  shows "sorted (map (sub_key C) (pool_snapshot C (cs_pool st) limit))"
    and "distinct (map (sub_key C) (pool_snapshot C (cs_pool st) limit))"
proof -
  let ?subs = "pool_snapshot C (cs_pool st) limit"
  show "sorted (map (sub_key C) ?subs)" by (rule snapshot_sorted)
  have d: "distinct (map (\<lambda>sub. sc_sender (sub_sidecar sub)) ?subs)"
    using assms(1) by (simp add: chain_ok_def snapshot_senders_distinct)
  have "inj_on (compute_addr_key C) (set (map (\<lambda>sub. sc_sender (sub_sidecar sub)) ?subs))"
    using assms(2) by (rule inj_on_subset) (auto simp: accounts_def dest: pending_of_snapshot(2) [OF assms(1)])
  with d have "distinct (map (compute_addr_key C) (map (\<lambda>sub. sc_sender (sub_sidecar sub)) ?subs))"
    by (simp only: distinct_map)
  then show "distinct (map (sub_key C) ?subs)" by (simp add: comp_def)
qed

lemma built_accounts:
  "entry_accounts (built_entries C st subs ts sg x) = (\<lambda>sub. sc_sender (sub_sidecar sub)) ` set subs"
  by (auto simp: built_entries_def prepare_entry_def new_leaf_def image_image)

lemma built_chain_ok:
  assumes "digests32 C" "chain_ok C st" "inj_on (compute_addr_key C) (accounts st)"
    and "block_valid C st' (built_block C st (pool_snapshot C (cs_pool st) limit) ts sg x)"
    and "chain_ok C st'" "same_ledger st st'"
  shows "chain_ok C (applied_state C st' (built_block C st (pool_snapshot C (cs_pool st) limit) ts sg x) cache)"
proof (rule applied_chain_ok [OF assms(1,5,4)])
  show "entries_faithful C (dp_entries (blk_diff (built_block C st (pool_snapshot C (cs_pool st) limit) ts sg x)))"
    by (simp add: built_entries_faithful)
  have "dict_get (cs_leaves st') = dict_get (cs_leaves st)" using assms(6) by (simp add: same_ledger_def)
  then show "inj_on (compute_addr_key C) (dom (dict_get (cs_leaves st')) \<union>
      entry_accounts (dp_entries (blk_diff (built_block C st (pool_snapshot C (cs_pool st) limit) ts sg x))))"
    using assms(3) by (rule_tac inj_on_subset)
      (auto simp: accounts_def built_accounts dest: pending_of_snapshot(2) [OF assms(2)])
qed

lemma built_block_agreed:
  assumes "digests32 C" "chain_ok C st" "chain_ok C st'" "same_ledger st st'" "0 \<le> ts"
    and "inj_on (compute_addr_key C) (accounts st)"
    and "\<forall>sub\<in>set (pool_snapshot C (cs_pool st) limit). cs_height st < env_expiry_height (sub_envelope sub)"
  shows "\<exists>b rs st1 st2. build_block C st ts sg x limit = Inr (b, rs, st1) \<and> apply_block C st' b = Inr (rs, st2) \<and>
    same_ledger st1 st2 \<and> chain_ok C st1 \<and> chain_ok C st2 \<and> cs_height st1 = cs_height st + 1"
proof -
  let ?subs = "pool_snapshot C (cs_pool st) limit"
  let ?b = "built_block C st ?subs ts sg x" and ?es = "built_entries C st ?subs ts sg x"
  have t: "tree_ok C (cs_tree st)" "tree_ok C (cs_tree st')" and num: "numbers_ok st"
    using assms(2,3) by (simp_all add: chain_ok_def)
  note keys = snapshot_keys [OF assms(2,6), of limit]
  have inc: "\<forall>sub\<in>set ?subs. includable C st sub"
    using pending_of_snapshot [OF assms(2)] assms(7) by (auto simp: includable_def)
  have self: "same_ledger st st" by (simp add: same_ledger_def)
  note bv = built_block_valid [OF assms(1,2) t(2) assms(4) keys inc, of ts sg x]
  note bv0 = built_block_valid [OF assms(1,2) t(1) self keys inc, of ts sg x]
  note es = built_entries_facts [where C = C and st = st and subs = ?subs and ts = ts and sg = sg and x = x]
  have k: "keys32 ?es" "distinct (map de_addr_key ?es)" using es(1,4) assms(1) keys(2) by simp_all
  obtain c1 where c1: "build_block C st ts sg x limit = Inr (?b, built_receipts C st ?subs ts sg x, applied_state C st ?b c1)"
    using execute_submissions_applied [OF assms(1) t(1) num assms(5) keys] by (auto simp: build_block_def)
  obtain c2 where c2: "apply_block C st' ?b = Inr (block_receipts C st' ?b, applied_state C st' ?b c2)"
    using apply_block_accepts [OF assms(1) t(2) _ bv] k(1) by auto
  note same = same_trees [OF assms(1) t(1,2) _ k]
  have get: "\<forall>k. length k = 32 \<longrightarrow> smt_get (cs_tree st) k = smt_get (cs_tree st') k"
    and leaves: "dict_get (cs_leaves st) = dict_get (cs_leaves st')"
    using assms(4) by (simp_all add: same_ledger_def)
  have "block_receipts C st' ?b = built_receipts C st ?subs ts sg x"
    unfolding block_receipts_def built_receipts_def applied_tree_def built_tree_def built_block_simps leaves
    by (rule all_receipts_cong) (use same(3) [OF get] k(1) in \<open>auto simp: list_all_iff\<close>)
  moreover have "same_ledger (applied_state C st ?b c1) (applied_state C st' ?b c2)"
    using assms(4) same(1) [OF get] put_leaves_cong [OF leaves] unfolding same_ledger_def
    by (simp add: applied_state_def applied_tree_def)
  moreover have "chain_ok C (applied_state C st ?b c1)"
    by (rule built_chain_ok [OF assms(1,2,6) bv0 assms(2) self])
  moreover have "chain_ok C (applied_state C st' ?b c2)"
    by (rule built_chain_ok [OF assms(1,2,6) bv assms(3,4)])
  moreover have "cs_height (applied_state C st ?b c1) = cs_height st + 1" by (simp add: applied_state_def)
  ultimately show ?thesis using c1 c2 by auto
qed

text \<open>C2. Agreement. From a well-formed state, with no two accounts' addresses colliding under the key
  hash and no pending bundle about to expire, \<open>build_block\<close> never raises, and every well-formed
  replica that agrees with the proposer on the ledger accepts the block with \<open>apply_block\<close>, issues
  the very same receipts, and agrees with the proposer afterwards; both states stay well formed.\<close>

theorem built_block_is_accepted:
  assumes "digests32 C" "chain_ok C st" "chain_ok C st'" "same_ledger st st'" "0 \<le> ts"
    and "inj_on (compute_addr_key C) (accounts st)"
    and "\<forall>sub\<in>set (pool_snapshot C (cs_pool st) limit). cs_height st < env_expiry_height (sub_envelope sub)"
  shows "\<exists>b rs st1 st2. build_block C st ts sg x limit = Inr (b, rs, st1) \<and> apply_block C st' b = Inr (rs, st2) \<and>
    same_ledger st1 st2 \<and> chain_ok C st1 \<and> chain_ok C st2 \<and> cs_height st1 = cs_height st + 1"
  using assms by (rule built_block_agreed)

definition sample_chain :: chain_state where
  "sample_chain = (chain_new flat_crypto 2 1 32 32768 128 64 ZERO_HASH32)
     \<lparr>cs_pool := sample_pool\<lparr>bp_pending := [(zero_addr, sample_submission 3)]\<rparr>\<rparr>"

lemma sample_pool_ok: "pool_ok flat_crypto (sample_pool\<lparr>bp_pending := [(zero_addr, sample_submission 3)]\<rparr>)"
proof -
  have "pool_ok flat_crypto sample_pool" by (simp add: sample_pool_def pool_new_ok)
  from pool_submit_spec [OF this sample_submit] show ?thesis by blast
qed

lemma sample_chain_ok: "chain_ok flat_crypto sample_chain"
proof -
  have "pending_next sample_chain"
    by (simp add: pending_next_def sample_chain_def chain_new_def sample_submission_def confirmed_seq_def head_ref_of_def)
  then show ?thesis
    using sample_pool_ok chain_new_ok [of 2 1 ZERO_HASH32 flat_crypto 32 32768 128 64]
    by (simp add: chain_ok_def numbers_ok_def sample_chain_def hash32_def ZERO_HASH32_def chain_new_def)
qed

lemma sample_chain_accounts: "accounts sample_chain = {zero_addr}"
  by (auto simp: accounts_def sample_chain_def chain_new_def split: if_splits)

lemma sample_chain_snapshot: "pool_snapshot flat_crypto (cs_pool sample_chain) None = [sample_submission 3]"
  by (simp add: pool_snapshot_def sample_chain_def)

theorem built_block_is_accepted_witness:
  "\<exists>b rs st1 st2. build_block flat_crypto sample_chain 7 [] [] None = Inr (b, rs, st1) \<and>
     apply_block flat_crypto (sample_chain\<lparr>cs_pool := sample_pool\<rparr>) b = Inr (rs, st2) \<and> cs_height st1 = 1"
proof -
  have "chain_ok flat_crypto (sample_chain\<lparr>cs_pool := sample_pool\<rparr>)"
    using sample_chain_ok pool_new_ok [of flat_crypto 1 32768 128 64]
    by (simp add: chain_ok_def numbers_ok_def pending_next_def sample_pool_def) (simp add: bundle_pool_new_def)
  moreover have "same_ledger sample_chain (sample_chain\<lparr>cs_pool := sample_pool\<rparr>)"
    by (simp add: same_ledger_def)
  ultimately show ?thesis
    using built_block_is_accepted [OF _ sample_chain_ok, of "sample_chain\<lparr>cs_pool := sample_pool\<rparr>" 7 None "[]" "[]"]
    by (simp add: sample_chain_accounts sample_chain_snapshot)
      (auto simp: sample_chain_def chain_new_def sample_submission_def)
qed

subsection \<open>Preview\<close>

lemma built_copy:
  assumes "cs_version a = cs_version b" "cs_chain_id a = cs_chain_id b" "cs_height a = cs_height b"
    "cs_block_hash a = cs_block_hash b" "cs_leaves a = cs_leaves b" "cs_tree a = cs_tree b"
  shows "built_block C a subs ts sg x = built_block C b subs ts sg x"
    "built_receipts C a subs ts sg x = built_receipts C b subs ts sg x"
proof -
  have p: "prepare_entry C a h bh = prepare_entry C b h bh" for h bh
    by (rule ext) (simp add: prepare_entry_def new_leaf_def assms)
  have "built_hash C a subs ts sg x = built_hash C b subs ts sg x" by (simp add: built_hash_def p assms)
  then have e: "built_entries C a subs ts sg x = built_entries C b subs ts sg x"
    "built_hash C a subs ts sg x = built_hash C b subs ts sg x" by (simp_all add: built_entries_def p assms)
  then show bb: "built_block C a subs ts sg x = built_block C b subs ts sg x"
    by (simp add: built_block_def built_tree_def assms)
  show "built_receipts C a subs ts sg x = built_receipts C b subs ts sg x"
    unfolding built_receipts_def bb by (simp add: built_tree_def e assms)
qed

text \<open>C21. \<open>preview_block\<close> shows the block \<open>build_block\<close> would build, with the same receipts, although it
  works on a copy with an empty cache and default pool limits.\<close>

theorem preview_is_build:
  assumes "digests32 C" "chain_ok C st" "0 \<le> ts" "inj_on (compute_addr_key C) (accounts st)"
  shows "\<exists>b rs st1. build_block C st ts sg x limit = Inr (b, rs, st1) \<and>
    preview_block C st ts sg x limit = Inr (b, rs)"
proof -
  let ?subs = "pool_snapshot C (cs_pool st) limit"
  note keys = snapshot_keys [OF assms(2,4), of limit]
  have t: "tree_ok C (cs_tree st)" and num: "numbers_ok st" using assms(2) by (simp_all add: chain_ok_def)
  obtain c where c: "chain_copy C st = Inr c" "cs_version c = cs_version st" "cs_chain_id c = cs_chain_id st"
    "cs_height c = cs_height st" "cs_block_hash c = cs_block_hash st" "cs_leaves c = cs_leaves st" "cs_tree c = cs_tree st"
    using smt_copy_same [OF conjunct1 [OF t]] by (simp add: chain_copy_def chain_new_def)
  let ?p = "c\<lparr>cs_pool := (cs_pool c)\<lparr>bp_pending := bp_pending (cs_pool st)\<rparr>\<rparr>"
  have snap: "pool_snapshot C (cs_pool ?p) limit = ?subs" by (simp add: pool_snapshot_def)
  have p: "tree_ok C (cs_tree ?p)" "numbers_ok ?p" using t num c by (simp_all add: numbers_ok_def)
  have same: "built_block C ?p ?subs ts sg x = built_block C st ?subs ts sg x"
    "built_receipts C ?p ?subs ts sg x = built_receipts C st ?subs ts sg x"
    by (rule built_copy; simp add: c)+
  have "\<exists>st1. build_block C st ts sg x limit = Inr (built_block C st ?subs ts sg x, built_receipts C st ?subs ts sg x, st1)"
    using execute_submissions_applied [OF assms(1) t num assms(3) keys] by (auto simp: build_block_def)
  moreover have "preview_block C st ts sg x limit = Inr (built_block C st ?subs ts sg x, built_receipts C st ?subs ts sg x)"
    using execute_submissions_applied [OF assms(1) p assms(3) keys, of sg x]
    unfolding preview_block_def c(1) res_bind_simps build_block_def snap same by auto
  ultimately show ?thesis by blast
qed

theorem preview_is_build_witness:
  "\<exists>b rs st1. build_block flat_crypto sample_chain 7 [] [] None = Inr (b, rs, st1) \<and>
     preview_block flat_crypto sample_chain 7 [] [] None = Inr (b, rs)"
  by (rule preview_is_build) (simp_all add: sample_chain_ok sample_chain_accounts)

end
