(* ===== verification/Chain_Steps.thy ===== *)
theory Chain_Steps
  imports Chain_Safety
begin

section \<open>Runs of a ledger\<close>

text \<open>
  What an accepted block guarantees, what a receipt proves, and what holds in every state a node
  reaches by submitting bundles, building its own blocks and applying the blocks of others. The
  theory ends with two blocks that \<open>apply_block\<close> accepts although no honest proposer writes
  them: an entry under another account's key, and a head reference with a forged sequence number.
\<close>

subsection \<open>Accepted blocks\<close>

text \<open>\<open>DiffEntry.__post_init__\<close> makes the keys 32 bytes long.\<close>

lemma block_ok_keys: "block_ok b \<Longrightarrow> keys32 (dp_entries (blk_diff b))"
  by (auto simp: block_ok_def list_all_iff diff_entry_ok_def diff_entry_init_def hash32_def split: if_splits)

lemma apply_block_cases:
  assumes "digests32 C" "tree_ok C (cs_tree st)" "keys32 (dp_entries (blk_diff b))"
    and "apply_block C st b = Inr (rs, st')"
  obtains cache where "block_valid C st b" "rs = block_receipts C st b" "st' = applied_state C st b cache"
  using apply_block_valid [OF assms] apply_block_accepts [OF assms(1-3)] assms(4) by fastforce

lemma applied_leaves:
  assumes "block_valid C st b" "e \<in> set (dp_entries (blk_diff b))"
  shows "dict_get (cs_leaves (applied_state C st b cache)) (leaf_addr (de_new_leaf e)) = Some (de_new_leaf e)"
  using assms put_leaves_member [of "dp_entries (blk_diff b)" e "cs_leaves st"]
  by (simp add: block_valid_def Let_def applied_state_def)

lemma applied_root:
  "block_valid C st b \<Longrightarrow> smt_root C (cs_tree (applied_state C st b cache)) = Inr (bh_state_root (blk_header b))"
  by (simp add: block_valid_def Let_def applied_state_def)

text \<open>C3. Safety of \<open>apply_block\<close>: a block is accepted only on top of the current one, and each of its
  entries carries a bundle signed by the key of the account it changes, not expired, matching its
  hash, numbered one above the account's last confirmed bundle and linked to it. The accounts in
  the block get exactly the entries' leaves, all others keep theirs, and the new state root is the
  header's.\<close>

theorem apply_block_sound:
  assumes "digests32 C" "chain_ok C st" "keys32 (dp_entries (blk_diff b))" "apply_block C st b = Inr (rs, st')"
  shows "bh_prev_block_hash (blk_header b) = cs_block_hash st \<and> cs_height st' = cs_height st + 1 \<and>
    cs_block_hash st' = blk_hash b \<and> cs_blocks st' = cs_blocks st @ [b] \<and>
    smt_root C (cs_tree st') = Inr (bh_state_root (blk_header b)) \<and>
    (\<forall>e\<in>set (dp_entries (blk_diff b)). \<exists>sidecar pk. (e, sidecar, pk) \<in> set (block_entries b) \<and>
      address_from_public_key_pem C pk = Inr (leaf_addr (de_new_leaf e)) \<and>
      verify_bundle_envelope C (de_envelope e) pk = Inr True \<and>
      env_bundle_hash (de_envelope e) = compute_bundle_hash C sidecar \<and>
      bh_height (blk_header b) \<le> env_expiry_height (de_envelope e) \<and>
      env_seq (de_envelope e) = confirmed_seq st (leaf_addr (de_new_leaf e)) + 1 \<and>
      leaf_prev_ref (de_new_leaf e) = head_ref_of (dict_get (cs_leaves st) (leaf_addr (de_new_leaf e))) \<and>
      dict_get (cs_leaves st') (leaf_addr (de_new_leaf e)) = Some (de_new_leaf e)) \<and>
    (\<forall>a. a \<notin> entry_accounts (dp_entries (blk_diff b)) \<longrightarrow> dict_get (cs_leaves st') a = dict_get (cs_leaves st) a)"
proof -
  have "tree_ok C (cs_tree st)" using assms(2) by (simp add: chain_ok_def)
  from apply_block_cases [OF assms(1) this assms(3,4)] obtain cache where
    b: "block_valid C st b" and st': "st' = applied_state C st b cache" by blast
  have "\<exists>sidecar pk. (e, sidecar, pk) \<in> set (block_entries b) \<and>
      address_from_public_key_pem C pk = Inr (leaf_addr (de_new_leaf e)) \<and>
      verify_bundle_envelope C (de_envelope e) pk = Inr True \<and>
      env_bundle_hash (de_envelope e) = compute_bundle_hash C sidecar \<and>
      bh_height (blk_header b) \<le> env_expiry_height (de_envelope e) \<and>
      env_seq (de_envelope e) = confirmed_seq st (leaf_addr (de_new_leaf e)) + 1 \<and>
      leaf_prev_ref (de_new_leaf e) = head_ref_of (dict_get (cs_leaves st) (leaf_addr (de_new_leaf e))) \<and>
      dict_get (cs_leaves st') (leaf_addr (de_new_leaf e)) = Some (de_new_leaf e)"
    if e: "e \<in> set (dp_entries (blk_diff b))" for e
  proof -
    from b e obtain s pk where x: "(e, s, pk) \<in> set (block_entries b)" "entry_valid C st b e s pk"
      by (rule block_entry_valid)
    then show ?thesis
      using entry_valid_seq [OF x(2)] applied_leaves [OF b e]
      by (intro exI [of _ s] exI [of _ pk]) (simp add: st' entry_valid_def Let_def)
  qed
  moreover have "bh_height (blk_header b) = cs_height st + 1" "bh_prev_block_hash (blk_header b) = cs_block_hash st"
    using b by (simp_all add: block_valid_def Let_def)
  ultimately show ?thesis
    using applied_root [OF b] by (simp add: st') (simp add: applied_state_def put_leaves_other)
qed

subsection \<open>Receipts prove their bundles\<close>

lemma all_receipts_member:
  assumes "distinct (map (\<lambda>e. leaf_addr (de_new_leaf e)) es)" "e \<in> set es"
  shows "dict_get (all_receipts C t h prev es rs) (leaf_addr (de_new_leaf e)) = Some (receipt_for C t h prev e)"
proof -
  let ?kvs = "map (\<lambda>e. (leaf_addr (de_new_leaf e), receipt_for C t h prev e)) es"
  have d: "distinct (map fst ?kvs)" using assms(1) by (simp add: comp_def)
  then have "map_of ?kvs (leaf_addr (de_new_leaf e)) = Some (receipt_for C t h prev e)"
    by (rule map_of_is_SomeI) (use assms(2) in auto)
  then have "dict_get (fold (\<lambda>(k, v). dict_set k v) ?kvs rs) (leaf_addr (de_new_leaf e)) = Some (receipt_for C t h prev e)"
    using map_of_fold_set [OF d] by simp
  then show ?thesis by (simp add: all_receipts_def fold_map comp_def)
qed

lemma all_receipts_dict_ok: "dict_ok (all_receipts C t h prev es [])"
proof -
  have "dict_ok rs \<Longrightarrow> dict_ok (all_receipts C t h prev es rs)" for rs
    unfolding all_receipts_def by (induction es arbitrary: rs) auto
  then show ?thesis by simp
qed

lemma built_leaf_reconstructed:
  assumes "admissible C p (sc_sender (sub_sidecar sub)) sub"
    and "e = prepare_entry C st h bh sub" "hdr = \<lparr>hl_height = h, hl_block_hash = bh, hl_state_root = root\<rparr>"
  shows "reconstructed_leaf C \<lparr>cu_receipt = make_receipt hdr e (head_ref_of (dict_get (cs_leaves st) (sc_sender (sub_sidecar sub)))) q,
    cu_sidecar = sub_sidecar sub\<rparr> = de_new_leaf e"
  using assms
  by (simp add: reconstructed_leaf_def confirmed_ref_def make_receipt_def prepare_entry_def new_leaf_def admissible_def)

lemma built_receipt:
  assumes "digests32 C" "chain_ok C st" "0 \<le> ts" "inj_on (compute_addr_key C) (accounts st)"
    and "sub \<in> set (pool_snapshot C (cs_pool st) limit)" "a = sc_sender (sub_sidecar sub)"
  obtains b rs c r p where "build_block C st ts sg x limit = Inr (b, rs, applied_state C st b c)" "dict_get rs a = Some r"
    "dict_ok rs" "rc_proof r = Some p" "pf_existence p" "rc_header r = block_header_lite b"
    "rc_prev_ref r = head_ref_of (dict_get (cs_leaves st) a)" "rc_seq r = env_seq (sub_envelope sub)" "rc_batch_ref r = None"
    "rc_claim_set_hash r = env_claim_set_hash (sub_envelope sub)"
    "dict_get (cs_leaves (applied_state C st b c)) a = Some (reconstructed_leaf C \<lparr>cu_receipt = r, cu_sidecar = sub_sidecar sub\<rparr>)"
    "verify_proof C (hl_state_root (rc_header r)) (compute_addr_key C a)
      (hash_account_leaf C (reconstructed_leaf C \<lparr>cu_receipt = r, cu_sidecar = sub_sidecar sub\<rparr>)) p 256"
    "bh_height (blk_header b) = cs_height st + 1"
    "smt_root C (cs_tree (applied_state C st b c)) = Inr (hl_state_root (rc_header r))"
    "smt_get (cs_tree (applied_state C st b c)) (compute_addr_key C a) =
      Some (hash_account_leaf C (reconstructed_leaf C \<lparr>cu_receipt = r, cu_sidecar = sub_sidecar sub\<rparr>))"
proof -
  let ?subs = "pool_snapshot C (cs_pool st) limit"
  let ?b = "built_block C st ?subs ts sg x" and ?es = "built_entries C st ?subs ts sg x" and ?rs = "built_receipts C st ?subs ts sg x"
  let ?t = "built_tree C st ?subs ts sg x" and ?e = "prepare_entry C st (cs_height st + 1) (built_hash C st ?subs ts sg x) sub"
  have st: "tree_ok C (cs_tree st)" "numbers_ok st" using assms(2) by (simp_all add: chain_ok_def)
  note keys = snapshot_keys [OF assms(2,4), of limit]
  note es = built_entries_facts [where C = C and st = st and subs = ?subs and ts = ts and sg = sg and x = x]
  obtain c where bb: "build_block C st ts sg x limit = Inr (?b, ?rs, applied_state C st ?b c)"
    using execute_submissions_applied [OF assms(1) st assms(3) keys] by (auto simp: build_block_def)
  have e: "?e \<in> set ?es" "leaf_addr (de_new_leaf ?e) = a" "de_addr_key ?e = compute_addr_key C a"
    using assms(5,6) by (simp_all add: built_entries_def prepare_entry_def new_leaf_def)
  have k: "keys32 ?es" "distinct (map de_addr_key ?es)" using es(1,4) assms(1) keys(2) by simp_all
  have d: "distinct (map (\<lambda>e. leaf_addr (de_new_leaf e)) ?es)"
    using assms(2) unfolding es(2) by (simp add: chain_ok_def snapshot_senders_distinct)
  have t: "tree_ok C ?t" unfolding built_tree_def by (rule tree_after [OF assms(1) st(1) k(1)])
  have root: "smt_root C ?t = Inr (hl_state_root (block_header_lite ?b))"
    using t by (simp add: block_header_lite_def built_block_def smt_root_full)
  have get: "smt_get ?t (compute_addr_key C a) = Some (hash_account_leaf C (de_new_leaf ?e))"
    using get_after_entry [OF assms(1) st(1) k e(1)] by (simp add: built_tree_def e(3))
  obtain p where p: "smt_prove C ?t (compute_addr_key C a) = Inr p" using prove_total [OF t] assms(1) by fastforce
  have v: "verify_proof C (hl_state_root (block_header_lite ?b)) (compute_addr_key C a) (hash_account_leaf C (de_new_leaf ?e)) p 256"
    using proofs_verify [OF assms(1) t _ get root] assms(1) p by simp
  have ex: "pf_existence p" using p get smt_prove_full [OF conjunct1 [OF t], of "compute_addr_key C a"] t assms(1) by auto
  let ?r = "make_receipt (block_header_lite ?b) ?e (head_ref_of (dict_get (cs_leaves st) a)) p"
  have r: "dict_get ?rs a = Some ?r"
    using all_receipts_member [OF d e(1)] unfolding built_receipts_def e(2) by (simp add: receipt_for_def e p)
  have leaf: "reconstructed_leaf C \<lparr>cu_receipt = ?r, cu_sidecar = sub_sidecar sub\<rparr> = de_new_leaf ?e"
    unfolding assms(6) by (rule built_leaf_reconstructed [OF pending_of_snapshot(1) [OF assms(2,5)] refl])
      (simp add: block_header_lite_def)
  have put: "dict_get (cs_leaves (applied_state C st ?b c)) a = Some (de_new_leaf ?e)"
    using put_leaves_member [OF d e(1), of "cs_leaves st"] by (simp add: applied_state_def e(2))
  have tree: "cs_tree (applied_state C st ?b c) = ?t" by (simp add: applied_state_def applied_tree_def built_tree_def built_block_def)
  show ?thesis
    by (rule that [OF bb r]) (use v ex put root get in \<open>simp_all only: leaf\<close>,
      simp_all add: make_receipt_def all_receipts_dict_ok built_receipts_def prepare_entry_def new_leaf_def tree)
qed

text \<open>C16. Every receipt of a built block proves its bundle. Take a state that keeps the chain's invariant and whose accounts do not
  collide under the key hash, a bundle in the snapshot of its pool and a timestamp that is not negative. Building the block succeeds and gives the sender a
  receipt with the block's header and the sender's previous head reference. The leaf that a recipient reconstructs from the receipt
  and the bundle is the sender's leaf in the new state and stands, hashed, under the sender's key in its tree, whose root is the
  header's state root; and the receipt's proof, of existence, verifies that leaf against that root.\<close>

theorem built_receipts_prove_bundles:
  assumes "digests32 C" "chain_ok C st" "0 \<le> ts" "inj_on (compute_addr_key C) (accounts st)"
    and "sub \<in> set (pool_snapshot C (cs_pool st) limit)"
  defines "a \<equiv> sc_sender (sub_sidecar sub)"
  shows "\<exists>b rs st1 r p. build_block C st ts sg x limit = Inr (b, rs, st1) \<and>
    dict_get rs a = Some r \<and> rc_proof r = Some p \<and> pf_existence p \<and>
    rc_header r = block_header_lite b \<and> rc_prev_ref r = head_ref_of (dict_get (cs_leaves st) a) \<and>
    (let leaf = reconstructed_leaf C \<lparr>cu_receipt = r, cu_sidecar = sub_sidecar sub\<rparr>
     in dict_get (cs_leaves st1) a = Some leaf \<and>
        smt_get (cs_tree st1) (compute_addr_key C a) = Some (hash_account_leaf C leaf) \<and>
        smt_root C (cs_tree st1) = Inr (hl_state_root (rc_header r)) \<and>
        verify_proof C (hl_state_root (rc_header r)) (compute_addr_key C a) (hash_account_leaf C leaf) p 256)"
  unfolding Let_def a_def by (rule built_receipt [OF assms(1-5) refl, of sg x]) blast

theorem built_receipts_prove_bundles_witness:
  "\<exists>b rs st1 r p l. build_block flat_crypto sample_chain 7 [] [] None = Inr (b, rs, st1) \<and>
     dict_get rs zero_addr = Some r \<and> rc_proof r = Some p \<and> pf_existence p \<and> dict_get (cs_leaves st1) zero_addr = Some l"
proof -
  have "sample_submission 3 \<in> set (pool_snapshot flat_crypto (cs_pool sample_chain) None)"
    by (simp add: sample_chain_snapshot)
  from built_receipts_prove_bundles [OF _ sample_chain_ok _ _ this, of 7 "[]" "[]"] show ?thesis
    by (simp add: sample_chain_accounts) (fastforce simp: sample_submission_def Let_def)
qed

subsection \<open>Runs\<close>

text \<open>
  One step of a node: it admits a submission, builds a block, or applies a block whose proposer
  wrote the entries as \<open>build_block\<close> does. The steps that change leaves assume that no two of
  the addresses involved collide under the key hash.
\<close>

inductive chain_step :: "crypto \<Rightarrow> chain_state \<Rightarrow> chain_state \<Rightarrow> bool" for C where
  submit: "submit_bundle C st sub = Inr (st', sender) \<Longrightarrow> chain_step C st st'"
| build: "build_block C st ts sg x limit = Inr (b, rs, st') \<Longrightarrow> inj_on (compute_addr_key C) (accounts st) \<Longrightarrow>
    \<forall>sub\<in>set (pool_snapshot C (cs_pool st) limit). cs_height st < env_expiry_height (sub_envelope sub) \<Longrightarrow>
    0 \<le> ts \<Longrightarrow> chain_step C st st'"
| apply_b: "apply_block C st b = Inr (rs, st') \<Longrightarrow> entries_faithful C (dp_entries (blk_diff b)) \<Longrightarrow>
    inj_on (compute_addr_key C) (dom (dict_get (cs_leaves st)) \<union> entry_accounts (dp_entries (blk_diff b))) \<Longrightarrow>
    chain_step C st st'"

inductive_cases chain_stepE: "chain_step C st st'"

lemma faithful_keys: "digests32 C \<Longrightarrow> entries_faithful C es \<Longrightarrow> keys32 es"
  by (auto simp: list_all_iff entries_faithful_def)

text \<open>Every step either only touches the pool or applies one valid block.\<close>

lemma chain_step_cases:
  assumes "digests32 C" "chain_ok C st" "chain_step C st st'"
  obtains (pool) pool where "st' = st\<lparr>cs_pool := pool\<rparr>" "chain_ok C st'"
  | (block) b cache where "st' = applied_state C st b cache" "block_valid C st b"
      "entries_faithful C (dp_entries (blk_diff b))" "chain_ok C st'"
  using assms(3)
proof (cases rule: chain_step.cases)
  case (submit sub sender)
  then obtain a pool s where s: "address_from_public_key_pem C (sub_pubkey sub) = Inr a"
    "pool_submit C (cs_pool st) sub (cs_height st) (confirmed_seq st a) = Inr (pool, s)" "st' = st\<lparr>cs_pool := pool\<rparr>"
    by (auto simp: submit_bundle_def res_bind_Inr map_err_Inr)
  have p: "pool_ok C (cs_pool st)" "pending_next st" using assms(2) by (simp_all add: chain_ok_def)
  from pool_submit_spec [OF p(1) s(2)] have spec: "pool_ok C pool" "admissible C pool s sub"
    "dict_get (bp_pending pool) = (dict_get (bp_pending (cs_pool st)))(s \<mapsto> sub)"
    "case dict_get (bp_pending (cs_pool st)) s of None \<Rightarrow> env_seq (sub_envelope sub) = confirmed_seq st a + 1
      | Some old \<Rightarrow> env_seq (sub_envelope old) = env_seq (sub_envelope sub)"
    by (auto split: option.splits)
  have "s = a" using spec(2) s(1) by (simp add: admissible_def)
  then have "env_seq (sub_envelope sub) = confirmed_seq st s + 1"
    using spec(4) p(2) by (auto simp: pending_next_def split: option.splits)
  then have "pending_next st'"
    using p(2) spec(3) by (auto simp: pending_next_def s(3) confirmed_seq_def)
  then have "chain_ok C st'" using assms(2) spec(1) by (simp add: chain_ok_def s(3) numbers_ok_def)
  with s(3) show ?thesis by (rule pool)
next
  case (build ts sg x limit b rs)
  let ?subs = "pool_snapshot C (cs_pool st) limit"
  have st: "tree_ok C (cs_tree st)" "numbers_ok st" using assms(2) by (simp_all add: chain_ok_def)
  note keys = snapshot_keys [OF assms(2) build(2), of limit]
  have inc: "\<forall>sub\<in>set ?subs. includable C st sub"
    using pending_of_snapshot [OF assms(2)] build(3) by (auto simp: includable_def)
  have self: "same_ledger st st" by (simp add: same_ledger_def)
  note bv = built_block_valid [OF assms(1,2) st(1) self keys inc, of ts sg x]
  obtain c where c: "build_block C st ts sg x limit =
      Inr (built_block C st ?subs ts sg x, built_receipts C st ?subs ts sg x, applied_state C st (built_block C st ?subs ts sg x) c)"
    using execute_submissions_applied [OF assms(1) st build(4) keys] by (auto simp: build_block_def)
  then have st': "st' = applied_state C st (built_block C st ?subs ts sg x) c" using build(1) by simp
  then show ?thesis
    using block bv built_chain_ok [OF assms(1,2) build(2) bv assms(2) self] built_entries_faithful by (metis built_block_simps(9))
next
  case (apply_b b rs)
  have st: "tree_ok C (cs_tree st)" using assms(2) by (simp add: chain_ok_def)
  from apply_block_cases [OF assms(1) st faithful_keys [OF assms(1) apply_b(2)] apply_b(1)] obtain cache where
    "block_valid C st b" "st' = applied_state C st b cache" by blast
  then show ?thesis using block applied_chain_ok [OF assms(1,2) _ apply_b(2,3)] apply_b(2) by metis
qed

definition sent_seqs :: "string \<Rightarrow> block list \<Rightarrow> int list" where
  \<comment> \<open>The sequence numbers of an account's bundles, in the order of the chain.\<close>
  "sent_seqs a bs = concat (map (\<lambda>b. map (\<lambda>e. env_seq (de_envelope e))
     (filter (\<lambda>e. leaf_addr (de_new_leaf e) = a) (dp_entries (blk_diff b)))) bs)"

lemma filter_distinct_addr: "distinct (map f xs) \<Longrightarrow> e \<in> set xs \<Longrightarrow> filter (\<lambda>x. f x = f e) xs = [e]"
proof (induction xs)
  case (Cons x xs)
  show ?case
  proof (cases "x = e")
    case True
    then show ?thesis using Cons.prems(1) by (auto simp: filter_empty_conv) (metis image_eqI)
  next
    case False
    then have "e \<in> set xs" "f x \<noteq> f e" using Cons.prems by auto
    then show ?thesis using Cons by simp
  qed
qed simp

lemma sent_seqs_step:
  assumes "block_valid C st b" "entries_faithful C (dp_entries (blk_diff b))"
    and "sent_seqs a (cs_blocks st) = [1..confirmed_seq st a]" "0 \<le> confirmed_seq st a"
  shows "sent_seqs a (cs_blocks (applied_state C st b cache)) = [1..confirmed_seq (applied_state C st b cache) a] \<and>
    0 \<le> confirmed_seq (applied_state C st b cache) a"
proof (cases "a \<in> entry_accounts (dp_entries (blk_diff b))")
  case True
  then obtain e where e: "e \<in> set (dp_entries (blk_diff b))" "leaf_addr (de_new_leaf e) = a" by auto
  from assms(1) e(1) obtain s pk where "entry_valid C st b e s pk" by (rule block_entry_valid)
  from entry_valid_seq [OF this] have seq: "env_seq (de_envelope e) = confirmed_seq st a + 1" by (simp add: e(2))
  have d: "distinct (map (\<lambda>e. leaf_addr (de_new_leaf e)) (dp_entries (blk_diff b)))"
    using assms(1) by (simp add: block_valid_def Let_def)
  have "filter (\<lambda>e. leaf_addr (de_new_leaf e) = a) (dp_entries (blk_diff b)) = [e]"
    using filter_distinct_addr [OF d e(1)] by (simp add: e(2))
  moreover have "confirmed_seq (applied_state C st b cache) a = confirmed_seq st a + 1"
    using applied_leaves [OF assms(1) e(1)] assms(2) e seq
    by (auto simp: confirmed_seq_def head_ref_of_def entries_faithful_def)
  ultimately show ?thesis
    using assms(3,4) seq by (simp add: sent_seqs_def applied_state_def upto_rec2)
next
  case False
  then have "filter (\<lambda>e. leaf_addr (de_new_leaf e) = a) (dp_entries (blk_diff b)) = []"
    by (auto simp: filter_empty_conv)
  then show ?thesis
    using assms(3,4) False by (simp add: sent_seqs_def applied_state_def confirmed_seq_def put_leaves_other)
qed

definition linked :: "bytes \<Rightarrow> block list \<Rightarrow> bool" where
  "linked genesis bs \<longleftrightarrow> (\<forall>i<length bs. bh_height (blk_header (bs ! i)) = int i + 1 \<and>
     bh_prev_block_hash (blk_header (bs ! i)) = (if i = 0 then genesis else blk_hash (bs ! (i - 1))))"

definition run_ok :: "crypto \<Rightarrow> bytes \<Rightarrow> chain_state \<Rightarrow> bool" where
  "run_ok C genesis st \<longleftrightarrow> chain_ok C st \<and> linked genesis (cs_blocks st) \<and> cs_height st = int (length (cs_blocks st)) \<and>
     cs_block_hash st = (if cs_blocks st = [] then genesis else blk_hash (last (cs_blocks st))) \<and>
     (\<forall>a. sent_seqs a (cs_blocks st) = [1..confirmed_seq st a] \<and> 0 \<le> confirmed_seq st a)"

lemma linked_snoc:
  "linked g bs \<Longrightarrow> bh_height (blk_header b) = int (length bs) + 1 \<Longrightarrow>
   bh_prev_block_hash (blk_header b) = (if bs = [] then g else blk_hash (last bs)) \<Longrightarrow> linked g (bs @ [b])"
  by (auto simp: linked_def nth_append last_conv_nth less_Suc_eq)

lemma chain_step_run_ok:
  assumes "digests32 C" "run_ok C g st" "chain_step C st st'"
  shows "run_ok C g st'"
proof -
  have ok: "chain_ok C st" using assms(2) by (simp add: run_ok_def)
  from assms(1) ok assms(3) show ?thesis
  proof (cases rule: chain_step_cases)
    case (pool pool)
    then show ?thesis using assms(2) by (simp add: run_ok_def confirmed_seq_def)
  next
    case (block b cache)
    have "bh_height (blk_header b) = cs_height st + 1" "bh_prev_block_hash (blk_header b) = cs_block_hash st"
      using block(2) by (simp_all add: block_valid_def Let_def)
    then have "linked g (cs_blocks st') \<and> cs_height st' = int (length (cs_blocks st')) \<and>
        cs_block_hash st' = blk_hash (last (cs_blocks st')) \<and> cs_blocks st' \<noteq> []"
      using assms(2) linked_snoc [of g "cs_blocks st" b] by (simp add: block(1) applied_state_def run_ok_def)
    moreover have "sent_seqs a (cs_blocks st') = [1..confirmed_seq st' a] \<and> 0 \<le> confirmed_seq st' a" for a
      unfolding block(1) using assms(2) by (intro sent_seqs_step [OF block(2,3)]) (simp_all add: run_ok_def)
    ultimately show ?thesis using block(4) by (simp add: run_ok_def)
  qed
qed

lemma chain_run_ok:
  "(chain_step C)\<^sup>*\<^sup>* st st' \<Longrightarrow> digests32 C \<Longrightarrow> run_ok C g st \<Longrightarrow> run_ok C g st'"
  by (induction rule: rtranclp_induct) (auto dest: chain_step_run_ok)

text \<open>C15. No replay and no gap. Take any state reached from genesis by steps that admit a submission, build a block none of whose
  bundles has expired, or apply a block whose entries are as an honest proposer writes them (each under the key of its leaf's account,
  with the bundle's sequence number in the leaf's reference, which \<open>apply_block\<close> itself does not check), as long as the addresses
  involved do not collide under the key hash. There the blocks are linked by hash and numbered 1, 2, 3, ...; the tree mirrors the
  account leaves; and the bundles of every account that were ever included carry the sequence numbers 1, 2, ..., up to the account's
  confirmed one, each exactly once and in order.\<close>

theorem reachable_chain_invariant:
  assumes "digests32 C" "0 \<le> version" "0 \<le> chain_id" "hash32 genesis"
    and "(chain_step C)\<^sup>*\<^sup>* (chain_new C version chain_id n b t m genesis) st"
  shows "chain_ok C st \<and> linked genesis (cs_blocks st) \<and> cs_height st = int (length (cs_blocks st)) \<and>
    (\<forall>a. sent_seqs a (cs_blocks st) = [1..confirmed_seq st a])"
proof -
  have "run_ok C genesis (chain_new C version chain_id n b t m genesis)"
    using chain_new_ok [OF assms(2-4)]
    by (simp add: run_ok_def) (simp add: chain_new_def linked_def sent_seqs_def confirmed_seq_def head_ref_of_def)
  from chain_run_ok [OF assms(5,1) this] show ?thesis by (simp add: run_ok_def)
qed

theorem reachable_chain_invariant_witness:
  "\<exists>st st'. chain_step flat_crypto (chain_new flat_crypto 2 1 32 32768 128 64 ZERO_HASH32) st \<and>
     chain_step flat_crypto st st' \<and> cs_height st' = 1 \<and> (\<forall>a. sent_seqs a (cs_blocks st') = [1..confirmed_seq st' a])"
proof -
  let ?g = "chain_new flat_crypto 2 1 32 32768 128 64 ZERO_HASH32"
  have "submit_bundle flat_crypto ?g (sample_submission 3) = Inr (sample_chain, zero_addr)"
    using sample_submit [of 3]
    by (simp add: submit_bundle_def chain_new_def sample_address sample_submission_def confirmed_seq_def head_ref_of_def
        sample_chain_def sample_pool_def)
  then have s1: "chain_step flat_crypto ?g sample_chain" by (rule chain_step.submit)
  have self: "same_ledger sample_chain sample_chain" by (simp add: same_ledger_def)
  have exp: "\<forall>sub\<in>set (pool_snapshot flat_crypto (cs_pool sample_chain) None).
      cs_height sample_chain < env_expiry_height (sub_envelope sub)"
    by (simp add: sample_chain_snapshot) (simp add: sample_chain_def chain_new_def sample_submission_def)
  have inj: "inj_on (compute_addr_key flat_crypto) (accounts sample_chain)" by (simp add: sample_chain_accounts)
  from built_block_agreed [OF _ sample_chain_ok sample_chain_ok self _ inj exp, of 7 "[]" "[]"]
  obtain b rs st1 where b: "build_block flat_crypto sample_chain 7 [] [] None = Inr (b, rs, st1)"
    "cs_height st1 = cs_height sample_chain + 1" by auto
  have s2: "chain_step flat_crypto sample_chain st1" by (rule chain_step.build [OF b(1) inj exp]) simp
  have "(chain_step flat_crypto)\<^sup>*\<^sup>* ?g st1" using s1 s2 by auto
  from reachable_chain_invariant [OF _ _ _ _ this] have "\<forall>a. sent_seqs a (cs_blocks st1) = [1..confirmed_seq st1 a]"
    by (simp add: hash32_def ZERO_HASH32_def)
  with s1 s2 b(2) show ?thesis by (auto simp: sample_chain_def chain_new_def)
qed

subsection \<open>What is not checked\<close>

text \<open>A block with one bundle, filed under the key \<open>k\<close> and with head sequence number \<open>q\<close>.\<close>

definition forged_hash :: "crypto \<Rightarrow> chain_state \<Rightarrow> bundle_submission \<Rightarrow> bytes \<Rightarrow> int \<Rightarrow> bytes" where
  "forged_hash C st sub k ts = derive_block_hash C (cs_version st) (cs_chain_id st) (cs_height st + 1)
     (cs_block_hash st) ts [] [] [(prepare_entry C st (cs_height st + 1) ZERO_HASH32 sub)\<lparr>de_addr_key := k\<rparr>]"

definition forged_leaf :: "crypto \<Rightarrow> chain_state \<Rightarrow> bundle_submission \<Rightarrow> bytes \<Rightarrow> int \<Rightarrow> int \<Rightarrow> account_leaf" where
  "forged_leaf C st sub k q ts = (new_leaf st sub 0 ZERO_HASH32)\<lparr>leaf_head_ref :=
     Some \<lparr>br_height = cs_height st + 1, br_block_hash = forged_hash C st sub k ts,
           br_bundle_hash = env_bundle_hash (sub_envelope sub), br_seq = q\<rparr>\<rparr>"

definition forged_entry :: "crypto \<Rightarrow> chain_state \<Rightarrow> bundle_submission \<Rightarrow> bytes \<Rightarrow> int \<Rightarrow> int \<Rightarrow> diff_entry" where
  "forged_entry C st sub k q ts = \<lparr>de_addr_key = k, de_new_leaf = forged_leaf C st sub k q ts,
     de_envelope = sub_envelope sub, de_bundle_hash = env_bundle_hash (sub_envelope sub)\<rparr>"

definition forged_block :: "crypto \<Rightarrow> chain_state \<Rightarrow> bundle_submission \<Rightarrow> bytes \<Rightarrow> int \<Rightarrow> int \<Rightarrow> block" where
  "forged_block C st sub k q ts =
     \<lparr>blk_hash = forged_hash C st sub k ts,
      blk_header = \<lparr>bh_version = cs_version st, bh_chain_id = cs_chain_id st, bh_height = cs_height st + 1,
        bh_prev_block_hash = cs_block_hash st,
        bh_state_root = projr (smt_root C (smt256.puts (cs_tree st) (leaf_puts C [forged_entry C st sub k q ts]))),
        bh_diff_root = projr (compute_diff_root C [forged_entry C st sub k q ts]),
        bh_timestamp = ts, bh_proposer_sig = [], bh_consensus_extra = []\<rparr>,
      blk_diff = \<lparr>dp_entries = [forged_entry C st sub k q ts], dp_sidecars = [sub_sidecar sub],
        dp_pubkeys = [sub_pubkey sub]\<rparr>\<rparr>"

lemma forged_block_valid:
  assumes "digests32 C" "chain_ok C st" "includable C st sub" "length k = 32"
  shows "block_valid C st (forged_block C st sub k q ts)"
proof -
  let ?e = "forged_entry C st sub k q ts"
  have st: "tree_ok C (cs_tree st)" "leaves_ok (cs_leaves st)" using assms(2) by (simp_all add: chain_ok_def)
  have "same_ledger st st" by (simp add: same_ledger_def)
  from built_entry_valid [OF st(2) this assms(3)]
  have v: "entry_valid C st (forged_block C st sub k q ts) ?e (sub_sidecar sub) (sub_pubkey sub)"
    by (auto simp: entry_valid_def Let_def forged_block_def forged_entry_def forged_leaf_def prepare_entry_def new_leaf_def)
  have k: "keys32 [?e]" using assms(4) by (simp add: forged_entry_def)
  have root: "smt_root C (smt256.puts (cs_tree st) (leaf_puts C [?e])) =
      Inr (projr (smt_root C (smt256.puts (cs_tree st) (leaf_puts C [?e]))))"
    using tree_after [OF assms(1) st(1) k] by (simp add: smt_root_full)
  have diff: "compute_diff_root C [?e] = Inr (projr (compute_diff_root C [?e]))"
    using diff_root_32 [OF assms(1), of "[?e]"] by auto
  have hash: "derive_block_hash C (cs_version st) (cs_chain_id st) (cs_height st + 1) (cs_block_hash st) ts [] [] [?e] =
      forged_hash C st sub k ts"
    unfolding forged_hash_def by (rule derive_block_hash_cong) (simp_all add: forged_entry_def prepare_entry_def)
  show ?thesis
    using v root diff hash
    by (simp add: block_valid_def Let_def block_entries_def applied_tree_def) (simp add: forged_block_def)
qed

lemma forged_block_ok:
  assumes "digests32 C" "chain_ok C st" "includable C st sub" "length k = 32" "0 < q" "0 \<le> ts"
    and "bundle_envelope_ok (sub_envelope sub)" "bundle_sidecar_ok (sub_sidecar sub)"
    and "pred_option bundle_ref_ok (head_ref_of (dict_get (cs_leaves st) (sc_sender (sub_sidecar sub))))"
  shows "block_ok (forged_block C st sub k q ts)"
proof -
  let ?e = "forged_entry C st sub k q ts"
  have st: "tree_ok C (cs_tree st)" "numbers_ok st" using assms(2) by (simp_all add: chain_ok_def)
  have k: "keys32 [?e]" using assms(4) by (simp add: forged_entry_def)
  have "smt_ok C (smt256.puts (cs_tree st) (leaf_puts C [?e]))" using tree_after [OF assms(1) st(1) k] by simp
  then have root: "hash32 (projr (smt_root C (smt256.puts (cs_tree st) (leaf_puts C [?e]))))"
    by (simp add: smt_root_full hash32_def tree_hash_length [OF assms(1)])
  have diff: "hash32 (projr (compute_diff_root C [?e]))" using diff_root_32 [OF assms(1), of "[?e]"] by (auto simp: hash32_def)
  have hash: "hash32 (forged_hash C st sub k ts)"
    using keccak_length [OF assms(1)] by (simp add: forged_hash_def derive_block_hash_def hash32_def)
  have parts: "hash32 (env_bundle_hash (sub_envelope sub))" "hash32_opt (env_claim_set_hash (sub_envelope sub))" "sc_sender (sub_sidecar sub) \<noteq> []"
    using assms(7,8) by (auto simp: bundle_envelope_ok_def bundle_envelope_init_def bundle_sidecar_ok_def bundle_sidecar_init_def split: if_splits)
  have "account_leaf_ok (forged_leaf C st sub k q ts)"
    using parts hash st(2) assms(5,9)
    by (simp add: account_leaf_ok_def account_leaf_init_def forged_leaf_def new_leaf_def bundle_ref_ok_iff numbers_ok_def)
  then have "diff_entry_ok ?e"
    using parts(1) assms(4,7) by (simp add: diff_entry_ok_def diff_entry_init_def forged_entry_def hash32_def)
  then show ?thesis
    using hash root diff st(2) assms(6,8)
    by (simp add: block_ok_def block_init_def block_header_init_def diff_package_init_def forged_block_def numbers_ok_def)
qed

text \<open>C22. \<open>apply_block\<close> does not check whose key an entry is filed under, nor the sequence number of its
  head reference. With any includable bundle whose parts passed their constructors, a proposer can build a block, all of whose parts
  pass theirs, that files the sender's leaf under any 32-byte key \<open>k\<close> (another account's, whose leaf the state root then loses) and sets
  the sender's confirmed sequence number to any positive \<open>q\<close>; and every node in this state accepts it.\<close>

theorem apply_block_accepts_forged_entry:
  assumes "digests32 C" "chain_ok C st" "includable C st sub" "length k = 32" "0 < q"
    and "bundle_envelope_ok (sub_envelope sub)" "bundle_sidecar_ok (sub_sidecar sub)"
    and "pred_option bundle_ref_ok (head_ref_of (dict_get (cs_leaves st) (sc_sender (sub_sidecar sub))))"
  shows "\<exists>b rs st' l. block_ok b \<and> apply_block C st b = Inr (rs, st') \<and> l \<noteq> None \<and>
    dict_get (cs_leaves st') (sc_sender (sub_sidecar sub)) = l \<and>
    smt_get (cs_tree st') k = map_option (hash_account_leaf C) l \<and>
    confirmed_seq st' (sc_sender (sub_sidecar sub)) = q"
proof -
  let ?b = "forged_block C st sub k q 0" and ?e = "forged_entry C st sub k q 0" and ?a = "sc_sender (sub_sidecar sub)"
  have st: "tree_ok C (cs_tree st)" using assms(2) by (simp add: chain_ok_def)
  have es: "dp_entries (blk_diff ?b) = [?e]" by (simp add: forged_block_def)
  have k: "keys32 [?e]" "de_addr_key ?e = k" using assms(4) by (simp_all add: forged_entry_def)
  note bv = forged_block_valid [OF assms(1-4), of q 0]
  obtain c where c: "apply_block C st ?b = Inr (block_receipts C st ?b, applied_state C st ?b c)"
    using apply_block_accepts [OF assms(1) st _ bv] k(1) unfolding es by blast
  have a: "leaf_addr (de_new_leaf ?e) = ?a" by (simp add: forged_entry_def forged_leaf_def new_leaf_def)
  have l: "dict_get (cs_leaves (applied_state C st ?b c)) ?a = Some (de_new_leaf ?e)"
    using applied_leaves [OF bv, of ?e c] a es by simp
  have t: "smt_get (cs_tree (applied_state C st ?b c)) k = Some (hash_account_leaf C (de_new_leaf ?e))"
    using get_after_entry [OF assms(1) st k(1), of ?e] k(2) es by (simp add: applied_state_def applied_tree_def)
  have "confirmed_seq (applied_state C st ?b c) ?a = q"
    using l by (simp add: confirmed_seq_def head_ref_of_def forged_entry_def forged_leaf_def)
  moreover have "block_ok ?b" by (rule forged_block_ok [OF assms(1-5) order_refl assms(6-8)])
  ultimately show ?thesis using c l t by (metis option.simps(9) option.distinct(1))
qed

theorem apply_block_accepts_forged_entry_witness:
  "\<exists>b rs st'. block_ok b \<and> apply_block flat_crypto sample_chain b = Inr (rs, st') \<and>
     smt_get (cs_tree st') (replicate 32 1) \<noteq> None \<and> confirmed_seq st' zero_addr = 77"
proof -
  have "includable flat_crypto sample_chain (sample_submission 3)"
    using pending_of_snapshot [OF sample_chain_ok, of "sample_submission 3" None]
    by (auto simp: includable_def sample_chain_snapshot) (auto simp: sample_chain_def chain_new_def sample_submission_def)
  moreover have "bundle_envelope_ok (sub_envelope (sample_submission 3))" "bundle_sidecar_ok (sub_sidecar (sample_submission 3))"
    "pred_option bundle_ref_ok (head_ref_of (dict_get (cs_leaves sample_chain) (sc_sender (sub_sidecar (sample_submission 3)))))"
    by (simp_all add: sample_submission_def bundle_envelope_ok_def bundle_envelope_init_def bundle_sidecar_ok_def bundle_sidecar_init_def
        hash32_def hash32_opt_def zero_addr_def sample_chain_def chain_new_def head_ref_of_def)
  moreover have "0 < (77::int)" by simp
  ultimately obtain b rs st' l where
    "block_ok b" "apply_block flat_crypto sample_chain b = Inr (rs, st')" "l \<noteq> None"
    "smt_get (cs_tree st') (replicate 32 1) = map_option (hash_account_leaf flat_crypto) l"
    "confirmed_seq st' (sc_sender (sub_sidecar (sample_submission 3))) = 77"
    using apply_block_accepts_forged_entry [OF digests32_instances(1) sample_chain_ok _ length_replicate [of 32 1]] by blast
  then show ?thesis by (intro exI [of _ b] exI [of _ rs] exI [of _ st']) (simp add: sample_submission_def)
qed

lemma expired_built:
  assumes "digests32 C" "chain_ok C st" "chain_ok C st'" "same_ledger st st'" "0 \<le> ts"
    and "inj_on (compute_addr_key C) (accounts st)"
    and "dict_get (bp_pending (cs_pool st)) a = Some sub" "env_expiry_height (sub_envelope sub) \<le> cs_height st"
  obtains b rs st1 where "build_block C st ts sg x None = Inr (b, rs, st1)" "cs_height st1 = cs_height st + 1" "\<And>r. apply_block C st' b \<noteq> Inr r"
proof -
  let ?subs = "pool_snapshot C (cs_pool st) None"
  let ?b = "built_block C st ?subs ts sg x"
  have st: "tree_ok C (cs_tree st)" "tree_ok C (cs_tree st')" "numbers_ok st" "pool_ok C (cs_pool st)"
    using assms(2,3) by (simp_all add: chain_ok_def)
  note keys = snapshot_keys [OF assms(2,6), of None]
  obtain c where c: "build_block C st ts sg x None = Inr (?b, built_receipts C st ?subs ts sg x, applied_state C st ?b c)"
    using execute_submissions_applied [OF assms(1) st(1,3) assms(5) keys] by (auto simp: build_block_def)
  have "sub \<in> set ?subs"
    unfolding set_pool_snapshot using assms(7) pending_get [OF st(4)] by (metis image_eqI snd_conv)
  then have e: "prepare_entry C st (cs_height st + 1) (built_hash C st ?subs ts sg x) sub \<in> set (dp_entries (blk_diff ?b))"
    by (simp add: built_entries_def)
  have "\<not> block_valid C st' ?b"
  proof
    assume "block_valid C st' ?b"
    from this e obtain s pk where
      "entry_valid C st' ?b (prepare_entry C st (cs_height st + 1) (built_hash C st ?subs ts sg x) sub) s pk"
      by (rule block_entry_valid)
    then show False using assms(8) by (simp add: entry_valid_def Let_def prepare_entry_def)
  qed
  then have "apply_block C st' ?b \<noteq> Inr r" for r
    using apply_block_valid [OF assms(1) st(2), of ?b r] built_entries_facts(4) assms(1) by auto
  then show ?thesis using that [OF c] by (simp add: applied_state_def)
qed

text \<open>Expired bundles are never dropped from the pool: once a bundle in the pool has an expiry height
  at or below the current one (the pool still accepts one that expires at the current height),
  every block \<open>build_block\<close> makes includes it, the proposer moves on to that block, and no replica
  in the proposer's state accepts it.\<close>

theorem expired_bundle_poisons_blocks:
  assumes "digests32 C" "chain_ok C st" "chain_ok C st'" "same_ledger st st'" "0 \<le> ts"
    and "inj_on (compute_addr_key C) (accounts st)"
    and "dict_get (bp_pending (cs_pool st)) a = Some sub" "env_expiry_height (sub_envelope sub) \<le> cs_height st"
  shows "\<exists>b rs st1. build_block C st ts sg x None = Inr (b, rs, st1) \<and> cs_height st1 = cs_height st + 1 \<and>
    (\<forall>r. apply_block C st' b \<noteq> Inr r)"
  by (rule expired_built [OF assms]) blast

definition stale_chain :: chain_state where
  "stale_chain = sample_chain\<lparr>cs_height := 9\<rparr>"

theorem expired_bundle_poisons_blocks_witness:
  "\<exists>b rs st1. build_block flat_crypto stale_chain 7 [] [] None = Inr (b, rs, st1) \<and> cs_height st1 = 10 \<and>
     (\<forall>r. apply_block flat_crypto stale_chain b \<noteq> Inr r)"
proof -
  have ok: "chain_ok flat_crypto stale_chain"
    using sample_chain_ok by (simp add: stale_chain_def chain_ok_def numbers_ok_def pending_next_def confirmed_seq_def)
  have g: "dict_get (bp_pending (cs_pool stale_chain)) zero_addr = Some (sample_submission 3)"
    by (simp add: stale_chain_def sample_chain_def)
  have "same_ledger stale_chain stale_chain" by (simp add: same_ledger_def)
  from expired_bundle_poisons_blocks [OF _ ok ok this _ _ g, of 7 "[]" "[]"] show ?thesis
    using sample_chain_accounts by (simp add: accounts_def stale_chain_def sample_submission_def)
qed

theorem apply_block_sound_witness:
  "\<exists>b rs st'. apply_block flat_crypto sample_chain b = Inr (rs, st') \<and> cs_height st' = 1 \<and>
     dict_get (cs_leaves st') zero_addr \<noteq> None"
proof -
  let ?b = "built_block flat_crypto sample_chain [sample_submission 3] 7 [] []"
  have inc: "\<forall>sub\<in>set [sample_submission 3]. includable flat_crypto sample_chain sub"
    using pending_of_snapshot [OF sample_chain_ok, of "sample_submission 3" None]
    by (auto simp: includable_def sample_chain_snapshot) (auto simp: sample_chain_def chain_new_def sample_submission_def)
  have t: "tree_ok flat_crypto (cs_tree sample_chain)" using sample_chain_ok by (simp add: chain_ok_def)
  have self: "same_ledger sample_chain sample_chain" by (simp add: same_ledger_def)
  have k: "keys32 (dp_entries (blk_diff ?b))" using built_entries_facts(4) by simp
  have bv: "block_valid flat_crypto sample_chain ?b"
    by (rule built_block_valid [OF _ sample_chain_ok t self]) (use inc in simp_all)
  from apply_block_accepts [OF _ t k bv] obtain rs st' where a: "apply_block flat_crypto sample_chain ?b = Inr (rs, st')"
    by auto
  have e: "prepare_entry flat_crypto sample_chain 1 (built_hash flat_crypto sample_chain [sample_submission 3] 7 [] [])
      (sample_submission 3) \<in> set (dp_entries (blk_diff ?b))"
    by (simp add: built_entries_def) (simp add: sample_chain_def chain_new_def)
  from apply_block_sound [OF _ sample_chain_ok k a] e show ?thesis
    using a by (intro exI [of _ ?b] exI [of _ rs] exI [of _ st'])
      (auto simp: prepare_entry_def new_leaf_def sample_submission_def sample_chain_def chain_new_def)
qed

end
