(* ===== verification/Validator.thy ===== *)
theory Validator
  imports Chain_Hash
begin

section \<open>Validating a transfer (\<open>EZ_V2/validator.py\<close>)\<close>

text \<open>
  A recipient's check of a transfer package: the sender's presented history from the newest
  bundle back, then the anchor it rests on, which may be another owner's history. The model
  returns \<open>Inl\<close> where the code raises, \<open>Inr (Some e)\<close> where it returns an error string and
  \<open>Inr None\<close> where it accepts. The theory gives the acceptance condition in closed form and
  proves what it guarantees: a chain of owners back to a genesis allocation or a trusted checkpoint,
  no second spend in any presented bundle, and, for honest headers and proofs of existence, every
  presented bundle in the ledger. It also shows what the checks leave open.
\<close>

subsection \<open>The code\<close>

datatype reject =
    WitnessOwnerMismatch
  | RecipientMismatch
  | ValueNotCovered
  | EmptySegment
  | TargetTxNotOnce
  | ClaimSetHashBad
  | MissingSingleProof
  | ProofDoesNotVerify
  | PrevRefDiscontinuous
  | ValueConflict
  | GenesisAnchorMismatch
  | CheckpointNotTrusted
  | StartsBeforeAcquisition

datatype validator_raise = AnchorRangeError value_error | OwnerNotSet

type_synonym verdict = "validator_raise + reject option"

record validation_context =
  vc_genesis_allocations :: "(string, value_range list) dict"
  vc_trusted_checkpoints :: "checkpoint list"

definition is_trusted_checkpoint :: "validation_context \<Rightarrow> checkpoint \<Rightarrow> value_range \<Rightarrow> string \<Rightarrow> bool" where
  "is_trusted_checkpoint ctx cp v owner =
     list_ex (\<lambda>item. item = cp \<and> checkpoint_matches item v owner) (vc_trusted_checkpoints ctx)"

definition matches_genesis_anchor ::
    "validation_context \<Rightarrow> genesis_anchor \<Rightarrow> value_range \<Rightarrow> string \<Rightarrow> value_error + bool" where
  "matches_genesis_anchor ctx anchor v owner =
     (if ga_owner anchor \<noteq> owner then Inr False
      else
        let expected_ranges = dict_get_default (vc_genesis_allocations ctx) owner []
        in res_bind (make_value_range (ga_value_begin anchor) (ga_value_end anchor)) (\<lambda>anchor_range.
           if \<not> vr_contains_range anchor_range v then Inr False
           else Inr (list_ex (\<lambda>allocation. vr_contains_range allocation v \<and> allocation = anchor_range) expected_ranges)))"

record validation_result =
  vres_ok :: bool
  vres_error :: "reject option"
  vres_accepted_witness :: "witness option"

definition tx_contains_target_value :: "offchain_tx \<Rightarrow> value_range \<Rightarrow> bool" where
  "tx_contains_target_value tx v = list_ex (\<lambda>tx_value. vr_contains_range tx_value v) (tx_values tx)"

definition latest_conflict :: "bundle_sidecar \<Rightarrow> value_range \<Rightarrow> offchain_tx \<Rightarrow> bool" where
  \<comment> \<open>The two inner loops over the latest bundle: does one of them return the conflict?\<close>
  "latest_conflict sidecar v target_tx =
     list_ex (\<lambda>tx. list_ex (\<lambda>tx_value. vr_intersects tx_value v \<and>
         \<not> (tx = target_tx \<and> vr_contains_range tx_value v)) (tx_values tx)) (sc_txs sidecar)"

fun validate_sender_chain ::
    "crypto \<Rightarrow> value_range \<Rightarrow> nat \<Rightarrow> confirmed_unit list \<Rightarrow> offchain_tx \<Rightarrow> reject option" where
  \<comment> \<open>\<open>_validate_current_sender_chain\<close> from position \<open>index\<close> on.\<close>
  "validate_sender_chain C v index [] target_tx = None"
| "validate_sender_chain C v index (unit # rest) target_tx =
     (let r = cu_receipt unit; sidecar = cu_sidecar unit
      in if rc_claim_set_hash r \<noteq> None \<and>
            rc_claim_set_hash r \<noteq> Some (claim_range_set_hash C (claim_range_set_from_sidecar sidecar))
         then Some ClaimSetHashBad
         else
           case rc_proof r of
             None \<Rightarrow> Some MissingSingleProof
           | Some proof \<Rightarrow>
               if \<not> verify_proof C (hl_state_root (rc_header r)) (compute_addr_key C (sc_sender sidecar))
                    (hash_account_leaf C (reconstructed_leaf C unit)) proof 256
               then Some ProofDoesNotVerify
               else if rest \<noteq> [] \<and> rc_prev_ref r \<noteq> Some (confirmed_ref C (hd rest))
               then Some PrevRefDiscontinuous
               else if 0 < index then
                 (if claim_range_set_intersects (claim_range_set_from_sidecar sidecar) v then Some ValueConflict
                  else validate_sender_chain C v (Suc index) rest target_tx)
               else if latest_conflict sidecar v target_tx then Some ValueConflict
               else validate_sender_chain C v (Suc index) rest target_tx)"

fun validate_transfer ::
    "crypto \<Rightarrow> validation_context \<Rightarrow> offchain_tx \<Rightarrow> value_range \<Rightarrow> witness \<Rightarrow> string \<Rightarrow> verdict"
and validate_anchor ::
      "crypto \<Rightarrow> validation_context \<Rightarrow> value_range \<Rightarrow> string \<Rightarrow> confirmed_unit list \<Rightarrow> anchor \<Rightarrow> verdict" where
  "validate_transfer C ctx target_tx v (WitnessV2 _ owner chain anchor) expected_recipient =
     (if owner \<noteq> tx_sender target_tx then Inr (Some WitnessOwnerMismatch)
      else if tx_recipient target_tx \<noteq> expected_recipient then Inr (Some RecipientMismatch)
      else if \<not> tx_contains_target_value target_tx v then Inr (Some ValueNotCovered)
      else if chain = [] then Inr (Some EmptySegment)
      else if length (filter (\<lambda>tx. tx = target_tx) (sc_txs (cu_sidecar (hd chain)))) \<noteq> 1
      then Inr (Some TargetTxNotOnce)
      else
        case validate_sender_chain C v 0 chain target_tx of
          Some e \<Rightarrow> Inr (Some e)
        | None \<Rightarrow> validate_anchor C ctx v owner chain anchor)"
| "validate_anchor C ctx v owner chain (GenesisAnchor g) =
     (case matches_genesis_anchor ctx g v owner of
        Inl e \<Rightarrow> Inl (AnchorRangeError e)
      | Inr False \<Rightarrow> Inr (Some GenesisAnchorMismatch)
      | Inr True \<Rightarrow> Inr None)"
| "validate_anchor C ctx v owner chain (CheckpointAnchor cp) =
     (if \<not> is_trusted_checkpoint ctx cp v owner then Inr (Some CheckpointNotTrusted) else Inr None)"
| "validate_anchor C ctx v owner chain (PriorWitnessLink acquire_tx prior) =
     (case validate_transfer C ctx acquire_tx v prior owner of
        Inl e \<Rightarrow> Inl e
      | Inr (Some e) \<Rightarrow> Inr (Some e)
      | Inr None \<Rightarrow>
          if chain \<noteq> [] \<and>
             hl_height (rc_header (cu_receipt (last chain))) \<le> hl_height (rc_header (cu_receipt (hd (w_chain prior))))
          then Inr (Some StartsBeforeAcquisition) else Inr None)"

declare validate_transfer.simps [simp del]

definition accepted_witness :: "transfer_package \<Rightarrow> string \<Rightarrow> witness" where
  "accepted_witness package recipient =
     WitnessV2 (tp_target_value package) recipient [] (PriorWitnessLink (tp_target_tx package) (tp_witness package))"

definition validate_transfer_package ::
    "crypto \<Rightarrow> validation_context \<Rightarrow> transfer_package \<Rightarrow> string option \<Rightarrow> validator_raise + validation_result" where
  "validate_transfer_package C ctx package recipient_addr =
     (let recipient = (case recipient_addr of None \<Rightarrow> tx_recipient (tp_target_tx package)
                       | Some addr \<Rightarrow> if addr = [] then tx_recipient (tp_target_tx package) else addr)
      in res_bind (validate_transfer C ctx (tp_target_tx package) (tp_target_value package) (tp_witness package) recipient)
        (\<lambda>error. case error of
             Some e \<Rightarrow> Inr \<lparr>vres_ok = False, vres_error = Some e, vres_accepted_witness = None\<rparr>
           | None \<Rightarrow>
               if recipient = [] then Inl OwnerNotSet
               else Inr \<lparr>vres_ok = True, vres_error = None,
                 vres_accepted_witness = Some (accepted_witness package recipient)\<rparr>))"

subsection \<open>The acceptance condition in closed form\<close>

definition spends :: "offchain_tx \<Rightarrow> value_range \<Rightarrow> bool" where
  \<comment> \<open>the transaction names a unit of the value\<close>
  "spends tx v \<longleftrightarrow> units (tx_values tx) \<inter> vr_set v \<noteq> {}"

definition proven_unit :: "crypto \<Rightarrow> confirmed_unit \<Rightarrow> bool" where
  "proven_unit C u \<longleftrightarrow>
     (rc_claim_set_hash (cu_receipt u) = None \<or>
      rc_claim_set_hash (cu_receipt u) = Some (claim_range_set_hash C (claim_range_set_from_sidecar (cu_sidecar u)))) \<and>
     (\<exists>proof. rc_proof (cu_receipt u) = Some proof \<and>
        verify_proof C (hl_state_root (rc_header (cu_receipt u))) (compute_addr_key C (sc_sender (cu_sidecar u)))
          (hash_account_leaf C (reconstructed_leaf C u)) proof 256)"

fun continuous :: "crypto \<Rightarrow> confirmed_unit list \<Rightarrow> bool" where
  "continuous C (u # w # us) \<longleftrightarrow> rc_prev_ref (cu_receipt u) = Some (confirmed_ref C w) \<and> continuous C (w # us)"
| "continuous C _ \<longleftrightarrow> True"

definition sole_spend :: "bundle_sidecar \<Rightarrow> offchain_tx \<Rightarrow> value_range \<Rightarrow> bool" where
  \<comment> \<open>In the bundle, the target alone spends the value, and covers it with one range.\<close>
  "sole_spend sidecar tx v \<longleftrightarrow> count_list (sc_txs sidecar) tx = 1 \<and>
     (\<forall>other\<in>set (sc_txs sidecar). spends other v \<longrightarrow> other = tx) \<and>
     (\<exists>w\<in>set (tx_values tx). vr_set v \<subseteq> vr_set w)"

definition segment_valid :: "crypto \<Rightarrow> offchain_tx \<Rightarrow> value_range \<Rightarrow> confirmed_unit list \<Rightarrow> bool" where
  "segment_valid C tx v chain \<longleftrightarrow> chain \<noteq> [] \<and> (\<forall>u\<in>set chain. proven_unit C u) \<and> continuous C chain \<and>
     sole_spend (cu_sidecar (hd chain)) tx v \<and>
     (\<forall>u\<in>set (tl chain). \<forall>other\<in>set (sc_txs (cu_sidecar u)). \<not> spends other v)"

inductive provenance :: "crypto \<Rightarrow> validation_context \<Rightarrow> value_range \<Rightarrow> offchain_tx \<Rightarrow> witness \<Rightarrow> bool" for C ctx v where
  from_genesis: "provenance C ctx v tx (WitnessV2 wv (tx_sender tx) chain (GenesisAnchor g))"
    if "segment_valid C tx v chain" "ga_owner g = tx_sender tx"
       "ValueRange (ga_value_begin g) (ga_value_end g) \<in> set (dict_get_default (vc_genesis_allocations ctx) (tx_sender tx) [])"
       "vr_contains_range (ValueRange (ga_value_begin g) (ga_value_end g)) v"
       "vr_ok (ValueRange (ga_value_begin g) (ga_value_end g))"
| from_checkpoint: "provenance C ctx v tx (WitnessV2 wv (tx_sender tx) chain (CheckpointAnchor cp))"
    if "segment_valid C tx v chain" "cp \<in> set (vc_trusted_checkpoints ctx)" "checkpoint_matches cp v (tx_sender tx)"
| from_owner: "provenance C ctx v tx (WitnessV2 wv (tx_sender tx) chain (PriorWitnessLink acquire prior))"
    if "segment_valid C tx v chain" "provenance C ctx v acquire prior" "tx_recipient acquire = tx_sender tx"
       "hl_height (rc_header (cu_receipt (hd (w_chain prior)))) < hl_height (rc_header (cu_receipt (last chain)))"

text \<open>A witness whose parts passed their constructors' checks.\<close>

primrec witness_ok :: "witness \<Rightarrow> bool" and anchor_ok :: "anchor \<Rightarrow> bool" where
  "witness_ok (WitnessV2 v owner chain anchor) \<longleftrightarrow>
     vr_ok v \<and> owner \<noteq> [] \<and> list_all confirmed_unit_ok chain \<and> anchor_ok anchor"
| "anchor_ok (GenesisAnchor g) \<longleftrightarrow> is_ok (genesis_anchor_init g)"
| "anchor_ok (CheckpointAnchor cp) \<longleftrightarrow> is_ok (checkpoint_init cp)"
| "anchor_ok (PriorWitnessLink tx prior) \<longleftrightarrow> offchain_tx_ok tx \<and> witness_ok prior"

definition sidecars_ok :: "confirmed_unit list \<Rightarrow> bool" where
  \<comment> \<open>All that acceptance needs of a unit's parts\<close>
  "sidecars_ok us \<longleftrightarrow> (\<forall>u\<in>set us. bundle_sidecar_ok (cu_sidecar u))"

lemma sidecars_ok_simps [simp]:
  "sidecars_ok []" "sidecars_ok (u # us) \<longleftrightarrow> bundle_sidecar_ok (cu_sidecar u) \<and> sidecars_ok us"
  "sidecars_ok (us @ ws) \<longleftrightarrow> sidecars_ok us \<and> sidecars_ok ws"
  by (auto simp: sidecars_ok_def)

lemma units_sidecars_ok: "list_all confirmed_unit_ok us \<Longrightarrow> sidecars_ok us"
  by (auto simp: sidecars_ok_def list_all_iff confirmed_unit_ok_def)

primrec witness_sidecars_ok :: "witness \<Rightarrow> bool" and anchor_sidecars_ok :: "anchor \<Rightarrow> bool" where
  "witness_sidecars_ok (WitnessV2 v owner chain anchor) \<longleftrightarrow> sidecars_ok chain \<and> anchor_sidecars_ok anchor"
| "anchor_sidecars_ok (GenesisAnchor g) \<longleftrightarrow> True"
| "anchor_sidecars_ok (CheckpointAnchor cp) \<longleftrightarrow> True"
| "anchor_sidecars_ok (PriorWitnessLink tx prior) \<longleftrightarrow> witness_sidecars_ok prior"

lemma witness_ok_sidecars: "witness_ok w \<Longrightarrow> witness_sidecars_ok w" "anchor_ok a \<Longrightarrow> anchor_sidecars_ok a"
  by (induction w and a) (auto simp: units_sidecars_ok)

lemma sidecar_txs_ok: "bundle_sidecar_ok s \<Longrightarrow> t \<in> set (sc_txs s) \<Longrightarrow> offchain_tx_ok t"
  by (simp add: bundle_sidecar_ok_iff)

lemma tx_ranges_ok: "offchain_tx_ok t \<Longrightarrow> w \<in> set (tx_values t) \<Longrightarrow> vr_ok w"
  by (auto simp: offchain_tx_ok_def list_all_iff)

lemma claims_spend:
  assumes "bundle_sidecar_ok s" "vr_ok v"
  shows "claim_range_set_intersects (claim_range_set_from_sidecar s) v \<longleftrightarrow> (\<exists>t\<in>set (sc_txs s). spends t v)"
proof -
  let ?vs = "concat (map tx_values (sc_txs s))"
  have ok: "list_all vr_ok ?vs"
    using sidecar_txs_ok [OF assms(1)] tx_ranges_ok by (fastforce simp: list_all_iff)
  note spec = build_claim_range_set_spec [OF ok]
  have "claim_range_set_from_sidecar s = build_claim_range_set ?vs"
    by (simp add: claim_range_set_from_sidecar_def)
  moreover have "units ?vs = (\<Union>t\<in>set (sc_txs s). units (tx_values t))"
    by (auto simp: units_def)
  ultimately show ?thesis
    using spec claim_range_set_intersects_iff [of "build_claim_range_set ?vs" v] assms(2)
    by (auto simp: spends_def)
qed

lemma covers_spends:
  assumes "vr_ok v" "w \<in> set (tx_values tx)" "vr_set v \<subseteq> vr_set w"
  shows "spends tx v"
proof -
  have "vr_begin v \<in> vr_set v" using assms(1) by (simp add: vr_ok_def)
  with assms(2,3) have "vr_begin v \<in> units (tx_values tx) \<inter> vr_set v" by (auto simp: units_def simp del: mem_vr_set)
  then show ?thesis unfolding spends_def by blast
qed

lemma sorted_wrt_pairwise:
  "sorted_wrt P xs \<Longrightarrow> (\<And>x y. P x y \<Longrightarrow> P y x) \<Longrightarrow> pairwise P (set xs)"
  by (induction xs) (auto simp: pairwise_insert)

lemma latest_conflict_iff:
  assumes "bundle_sidecar_ok s" "vr_ok v" "tx_contains_target_value tx v" "offchain_tx_ok tx"
  shows "latest_conflict s v tx \<longleftrightarrow> (\<exists>other\<in>set (sc_txs s). spends other v \<and> other \<noteq> tx)"
proof -
  have inter: "vr_intersects w v \<longleftrightarrow> vr_set w \<inter> vr_set v \<noteq> {}" if "t \<in> set (sc_txs s)" "w \<in> set (tx_values t)" for t w
    using that sidecar_txs_ok [OF assms(1)] tx_ranges_ok assms(2) vr_intersects_iff by blast
  have one: "vr_contains_range w v" if w: "w \<in> set (tx_values tx)" "vr_set w \<inter> vr_set v \<noteq> {}" for w
  proof -
    obtain c where c: "c \<in> set (tx_values tx)" "vr_contains_range c v"
      using assms(3) by (auto simp: tx_contains_target_value_def list_ex_iff)
    have "pairwise (\<lambda>a b. vr_set a \<inter> vr_set b = {}) (set (tx_values tx))"
      using gaps_imp_disjoint [OF offchain_tx_ok_disjoint [OF assms(4)]] by (rule sorted_wrt_pairwise) auto
    moreover have "vr_set w \<inter> vr_set c \<noteq> {}"
      using w(2) c(2) vr_contains_range_iff [OF assms(2)] by blast
    ultimately have "w = c" using w(1) c(1) by (auto simp: pairwise_def)
    with c show ?thesis by simp
  qed
  show ?thesis
    using inter one by (fastforce simp: latest_conflict_def list_ex_iff spends_def units_def)
qed

lemma later_units_None:
  assumes "sidecars_ok us" "vr_ok v" "0 < i"
  shows "validate_sender_chain C v i us tx = None \<longleftrightarrow>
    (\<forall>u\<in>set us. proven_unit C u) \<and> continuous C us \<and>
    (\<forall>u\<in>set us. \<forall>other\<in>set (sc_txs (cu_sidecar u)). \<not> spends other v)"
  using assms
proof (induction us arbitrary: i)
  case (Cons u us)
  then have "validate_sender_chain C v (Suc i) us tx = None \<longleftrightarrow> (\<forall>u\<in>set us. proven_unit C u) \<and> continuous C us \<and>
    (\<forall>u\<in>set us. \<forall>other\<in>set (sc_txs (cu_sidecar u)). \<not> spends other v)" by simp
  with Cons.prems show ?case
    by (cases us) (auto simp: Let_def proven_unit_def claims_spend split: option.splits)
qed simp

lemma sender_chain_None:
  assumes "sidecars_ok us" "vr_ok v" "us \<noteq> []"
    and "tx_contains_target_value tx v" "count_list (sc_txs (cu_sidecar (hd us))) tx = 1"
  shows "validate_sender_chain C v 0 us tx = None \<longleftrightarrow> segment_valid C tx v us"
proof (cases us)
  case (Cons u rest)
  have tx: "tx \<in> set (sc_txs (cu_sidecar u))"
    using assms(5) Cons by (metis count_notin list.sel(1) zero_neq_one)
  have sc: "bundle_sidecar_ok (cu_sidecar u)" using assms(1) Cons by simp
  have lc: "latest_conflict (cu_sidecar u) v tx \<longleftrightarrow> \<not> sole_spend (cu_sidecar u) tx v"
    using latest_conflict_iff [OF sc assms(2,4) sidecar_txs_ok [OF sc tx]] assms(4,5) Cons
      vr_contains_range_iff [OF assms(2)]
    by (auto simp: sole_spend_def tx_contains_target_value_def list_ex_iff)
  have "validate_sender_chain C v (Suc 0) rest tx = None \<longleftrightarrow> (\<forall>u\<in>set rest. proven_unit C u) \<and> continuous C rest \<and>
    (\<forall>u\<in>set rest. \<forall>other\<in>set (sc_txs (cu_sidecar u)). \<not> spends other v)"
    by (rule later_units_None) (use assms Cons in simp_all)
  then show ?thesis using Cons
    by (cases rest) (auto simp: Let_def proven_unit_def segment_valid_def lc split: option.splits)
qed (use assms in simp)

lemma filter_eq_count: "length (filter (\<lambda>t. t = x) xs) = count_list xs x"
  by (induction xs) auto

lemma segment_valid_tx:
  assumes "segment_valid C tx v chain" "vr_ok v"
  shows "chain \<noteq> []" "count_list (sc_txs (cu_sidecar (hd chain))) tx = 1" "tx_contains_target_value tx v"
  using assms by (auto simp: segment_valid_def sole_spend_def tx_contains_target_value_def list_ex_iff vr_contains_range_iff)

inductive_simps provenance_simps:
  "provenance C ctx v tx (WitnessV2 wv owner chain (GenesisAnchor g))"
  "provenance C ctx v tx (WitnessV2 wv owner chain (CheckpointAnchor cp))"
  "provenance C ctx v tx (WitnessV2 wv owner chain (PriorWitnessLink acquire prior))"

lemma validate_segment:
  assumes "sidecars_ok chain" "vr_ok v"
  shows "validate_transfer C ctx tx v (WitnessV2 wv owner chain a) r = Inr None \<longleftrightarrow>
    owner = tx_sender tx \<and> tx_recipient tx = r \<and> segment_valid C tx v chain \<and>
    validate_anchor C ctx v owner chain a = Inr None"
  using sender_chain_None [OF assms, of tx C] segment_valid_tx [OF _ assms(2), of C tx chain]
  by (auto simp: filter_eq_count validate_transfer.simps split: option.split)

lemma matches_genesis_anchor_True:
  "matches_genesis_anchor ctx g v owner = Inr True \<longleftrightarrow> ga_owner g = owner \<and>
     vr_ok (ValueRange (ga_value_begin g) (ga_value_end g)) \<and>
     vr_contains_range (ValueRange (ga_value_begin g) (ga_value_end g)) v \<and>
     ValueRange (ga_value_begin g) (ga_value_end g) \<in> set (dict_get_default (vc_genesis_allocations ctx) owner [])"
  by (auto simp: matches_genesis_anchor_def Let_def res_bind_Inr make_value_range_Inr list_ex_iff)

lemma validate_genesis_anchor:
  "validate_anchor C ctx v owner chain (GenesisAnchor g) = Inr None \<longleftrightarrow> ga_owner g = owner \<and>
     vr_ok (ValueRange (ga_value_begin g) (ga_value_end g)) \<and>
     vr_contains_range (ValueRange (ga_value_begin g) (ga_value_end g)) v \<and>
     ValueRange (ga_value_begin g) (ga_value_end g) \<in> set (dict_get_default (vc_genesis_allocations ctx) owner [])"
  unfolding matches_genesis_anchor_True [symmetric] by (auto split: sum.split bool.split)

lemma validate_transfer_iff:
  assumes "vr_ok v"
  shows "witness_sidecars_ok w \<Longrightarrow> validate_transfer C ctx tx v w r = Inr None \<longleftrightarrow> tx_recipient tx = r \<and> provenance C ctx v tx w"
    and "anchor_sidecars_ok a \<Longrightarrow> a = PriorWitnessLink acquire prior \<Longrightarrow>
      validate_transfer C ctx acquire v prior r = Inr None \<longleftrightarrow> tx_recipient acquire = r \<and> provenance C ctx v acquire prior"
proof (induction w and a arbitrary: tx r and acquire prior r)
  case (WitnessV2 wv owner chain a)
  then have ok: "sidecars_ok chain" by simp
  show ?case
  proof (cases a)
    case (PriorWitnessLink acquire prior)
    with WitnessV2 have "validate_transfer C ctx acquire v prior owner = Inr None \<longleftrightarrow>
      tx_recipient acquire = owner \<and> provenance C ctx v acquire prior" by simp
    then show ?thesis unfolding PriorWitnessLink validate_segment [OF ok assms]
      by (auto simp: provenance_simps segment_valid_def split: sum.splits option.splits)
  next
    case (GenesisAnchor g)
    then show ?thesis unfolding GenesisAnchor validate_segment [OF ok assms]
validate_genesis_anchor by (auto simp: provenance_simps)
  next
    case (CheckpointAnchor cp)
    then show ?thesis unfolding CheckpointAnchor validate_segment [OF ok assms]
      by (auto simp: provenance_simps is_trusted_checkpoint_def list_ex_iff)
  qed
qed auto

subsection \<open>What acceptance guarantees\<close>

lemma package_result:
  "r \<noteq> [] \<Longrightarrow> validate_transfer_package C ctx p (Some r) =
     (case validate_transfer C ctx (tp_target_tx p) (tp_target_value p) (tp_witness p) r of
        Inl e \<Rightarrow> Inl e
      | Inr (Some e) \<Rightarrow> Inr \<lparr>vres_ok = False, vres_error = Some e, vres_accepted_witness = None\<rparr>
      | Inr None \<Rightarrow> Inr \<lparr>vres_ok = True, vres_error = None, vres_accepted_witness = Some (accepted_witness p r)\<rparr>)"
  by (simp add: validate_transfer_package_def Let_def res_bind_def split: sum.split option.split)

lemma accepts_package_iff:
  assumes "vr_ok (tp_target_value p)" "witness_ok (tp_witness p)" "r \<noteq> []"
    and "validate_transfer_package C ctx p (Some r) = Inr res"
  shows "vres_ok res \<longleftrightarrow>
     tx_recipient (tp_target_tx p) = r \<and> provenance C ctx (tp_target_value p) (tp_target_tx p) (tp_witness p)"
  unfolding validate_transfer_iff(1) [OF assms(1) witness_ok_sidecars(1) [OF assms(2)], symmetric]
  using assms(4) package_result [OF assms(3), of C ctx p] by (auto split: sum.splits option.splits)

text \<open>C8. The verdict in closed form. For a target value and a witness as their constructors make them, the validator returns
  acceptance for a recipient, named by a non-empty address, exactly when the target transaction pays that recipient and the value
  has a provenance, that is a chain of owners, each with a valid history segment, from a genesis allocation or a trusted checkpoint to the sender: it raises on no
  package that has one. The accepted witness is the package's, rebased to the recipient's ownership; a verdict that is not
  acceptance names an error and has no witness.\<close>

theorem transfer_accepted_iff:
  assumes "vr_ok (tp_target_value p)" "witness_ok (tp_witness p)" "r \<noteq> []"
  shows "(validate_transfer_package C ctx p (Some r) =
       Inr \<lparr>vres_ok = True, vres_error = None, vres_accepted_witness = Some (accepted_witness p r)\<rparr> \<longleftrightarrow>
       tx_recipient (tp_target_tx p) = r \<and> provenance C ctx (tp_target_value p) (tp_target_tx p) (tp_witness p)) \<and>
     (\<forall>res. validate_transfer_package C ctx p (Some r) = Inr res \<longrightarrow>
       res = \<lparr>vres_ok = True, vres_error = None, vres_accepted_witness = Some (accepted_witness p r)\<rparr> \<or>
       (\<exists>e. res = \<lparr>vres_ok = False, vres_error = Some e, vres_accepted_witness = None\<rparr>))"
  unfolding validate_transfer_iff(1) [OF assms(1) witness_ok_sidecars(1) [OF assms(2)], symmetric]
  using package_result [OF assms(3), of C ctx p] by (auto split: sum.splits option.splits)

fun hops :: "offchain_tx \<Rightarrow> witness \<Rightarrow> (offchain_tx \<times> confirmed_unit list) list"
and anchor_hops :: "anchor \<Rightarrow> (offchain_tx \<times> confirmed_unit list) list" where
  \<comment> \<open>The owners of a package, newest first: what each spent the value with, and the history it presents.\<close>
  "hops tx (WitnessV2 _ _ chain anchor) = (tx, chain) # anchor_hops anchor"
| "anchor_hops (PriorWitnessLink acquire prior) = hops acquire prior"
| "anchor_hops _ = []"

definition originates :: "validation_context \<Rightarrow> string \<Rightarrow> value_range \<Rightarrow> bool" where
  "originates ctx owner v \<longleftrightarrow>
     (\<exists>allocation\<in>set (dict_get_default (vc_genesis_allocations ctx) owner []). vr_set v \<subseteq> vr_set allocation) \<or>
     (\<exists>cp\<in>set (vc_trusted_checkpoints ctx). cp_owner cp = owner \<and> ValueRange (cp_value_begin cp) (cp_value_end cp) = v)"

definition hands_over :: "offchain_tx \<times> confirmed_unit list \<Rightarrow> offchain_tx \<times> confirmed_unit list \<Rightarrow> bool" where
  \<comment> \<open>the older hop's target pays the newer hop's sender, before the newer hop's history starts\<close>
  "hands_over newer older \<longleftrightarrow> tx_sender (fst newer) = tx_recipient (fst older) \<and>
     hl_height (rc_header (cu_receipt (hd (snd older)))) < hl_height (rc_header (cu_receipt (last (snd newer))))"

lemma provenance_hops:
  assumes "provenance C ctx v tx w" "vr_ok v"
  shows "hops tx w \<noteq> [] \<and> fst (hd (hops tx w)) = tx \<and> snd (hd (hops tx w)) = w_chain w \<and>
    successively hands_over (hops tx w) \<and> originates ctx (tx_sender (fst (last (hops tx w)))) v \<and>
    (\<forall>(tx', chain)\<in>set (hops tx w). segment_valid C tx' v chain)"
  using assms
proof induction
  case (from_owner tx chain acquire prior wv)
  then obtain h hs where h: "hops acquire prior = h # hs" by (cases "hops acquire prior") auto
  with from_owner have "hands_over (tx, chain) h"
    by (cases h) (simp add: hands_over_def)
  with from_owner h show ?case by (auto simp: successively_Cons)
next
  case (from_genesis tx chain g wv)
  then show ?case by (auto simp: originates_def vr_contains_range_iff)
next
  case (from_checkpoint tx chain cp wv)
  then show ?case by (cases v) (auto simp: originates_def checkpoint_matches_def)
qed

text \<open>C5. No double spend in what a package shows. If a package is accepted, its owners form a chain
  from a genesis allocation of the value (or a checkpoint the recipient trusts for exactly that value):
  each owner received it from the next older one before its own history starts; each hands it on in
  its newest bundle, by a transaction that occurs there exactly once and covers the value; and no other
  transaction of any bundle presented by any owner names a single unit of the value.\<close>

theorem accepted_transfer_safe:
  assumes "vr_ok (tp_target_value p)" "witness_ok (tp_witness p)" "r \<noteq> []"
    and "validate_transfer_package C ctx p (Some r) = Inr res" "vres_ok res"
  defines "hs \<equiv> hops (tp_target_tx p) (tp_witness p)"
  shows "tx_recipient (fst (hd hs)) = r \<and> successively hands_over hs \<and>
    originates ctx (tx_sender (fst (last hs))) (tp_target_value p) \<and>
    (\<forall>(tx, chain)\<in>set hs. chain \<noteq> [] \<and> count_list (sc_txs (cu_sidecar (hd chain))) tx = 1 \<and>
       (\<exists>w\<in>set (tx_values tx). vr_set (tp_target_value p) \<subseteq> vr_set w) \<and>
       (\<forall>u\<in>set chain. \<forall>other\<in>set (sc_txs (cu_sidecar u)).
          spends other (tp_target_value p) \<longrightarrow> u = hd chain \<and> other = tx))"
proof -
  have p: "tx_recipient (tp_target_tx p) = r" "provenance C ctx (tp_target_value p) (tp_target_tx p) (tp_witness p)"
    using accepts_package_iff [OF assms(1-4)] assms(5) by auto
  note h = provenance_hops [OF p(2) assms(1), folded hs_def]
  have each: "chain \<noteq> [] \<and> count_list (sc_txs (cu_sidecar (hd chain))) tx = 1 \<and>
       (\<exists>w\<in>set (tx_values tx). vr_set (tp_target_value p) \<subseteq> vr_set w) \<and>
       (\<forall>u\<in>set chain. \<forall>other\<in>set (sc_txs (cu_sidecar u)). spends other (tp_target_value p) \<longrightarrow> u = hd chain \<and> other = tx)"
    if "(tx, chain) \<in> set hs" for tx chain
  proof -
    have "segment_valid C tx (tp_target_value p) chain" using h that by auto
    then show ?thesis by (cases chain) (auto simp: segment_valid_def sole_spend_def)
  qed
  show ?thesis
  proof (intro conjI ballI)
    fix x assume "x \<in> set hs"
    then show "case x of (tx, chain) \<Rightarrow> chain \<noteq> [] \<and> count_list (sc_txs (cu_sidecar (hd chain))) tx = 1 \<and>
       (\<exists>w\<in>set (tx_values tx). vr_set (tp_target_value p) \<subseteq> vr_set w) \<and>
       (\<forall>u\<in>set chain. \<forall>other\<in>set (sc_txs (cu_sidecar u)).
          spends other (tp_target_value p) \<longrightarrow> u = hd chain \<and> other = tx)"
      unfolding case_prod_unfold by (intro each) simp
  qed (use h p(1) in simp_all)
qed

subsection \<open>Relaying a received value\<close>

text \<open>A received value can be passed on. When a recipient's own history segment is valid for a new
  transaction and starts after the acquisition, the witness it got on acceptance, extended by that
  segment, is accepted by the next recipient; no further condition on the older history is needed.\<close>

theorem relayed_transfer_accepted:
  assumes "vr_ok (tp_target_value p)" "witness_ok (tp_witness p)" "r \<noteq> []" "offchain_tx_ok (tp_target_tx p)"
    and "validate_transfer_package C ctx p (Some r) = Inr res" "vres_ok res"
    and "list_all confirmed_unit_ok chain" "segment_valid C tx (tp_target_value p) chain"
    and "tx_sender tx = r" "tx_recipient tx = r'" "r' \<noteq> []"
    and "hl_height (rc_header (cu_receipt (hd (w_chain (tp_witness p))))) < hl_height (rc_header (cu_receipt (last chain)))"
  shows "\<exists>res'. validate_transfer_package C ctx \<lparr>tp_target_tx = tx, tp_target_value = tp_target_value p,
      tp_witness = WitnessV2 (tp_target_value p) r chain (w_anchor (the (vres_accepted_witness res)))\<rparr> (Some r') = Inr res' \<and> vres_ok res'"
proof -
  have p: "tx_recipient (tp_target_tx p) = r" "provenance C ctx (tp_target_value p) (tp_target_tx p) (tp_witness p)"
    using accepts_package_iff [OF assms(1-3,5)] assms(6) by auto
  have w: "vres_accepted_witness res = Some (accepted_witness p r)"
    using assms(5,6) package_result [OF assms(3), of C ctx p] by (auto split: sum.splits option.splits)
  let ?w = "WitnessV2 (tp_target_value p) r chain (PriorWitnessLink (tp_target_tx p) (tp_witness p))"
  have "provenance C ctx (tp_target_value p) tx ?w"
    using p assms(8,9,12) by (auto simp: provenance_simps)
  moreover have "witness_ok ?w" using assms by simp
  ultimately have "validate_transfer C ctx tx (tp_target_value p) ?w r' = Inr None"
    using validate_transfer_iff(1) [OF assms(1) witness_ok_sidecars(1), of ?w C ctx tx r'] assms(10) by blast
  then show ?thesis
    using package_result [OF assms(11)] w by (simp add: accepted_witness_def)
qed

subsection \<open>What the checks leave open\<close>

text \<open>C24. A history may be cut anywhere. If the newest units of a history resting on a genesis or
  checkpoint anchor are valid on their own, a package showing only them is accepted, even when the units
  left out, to which the last shown one still points, spend the same value again: the full history
  is rejected, the cut one is not.\<close>

theorem truncated_history_accepted:
  assumes "vr_ok v" "witness_ok (WitnessV2 wv owner (shown @ hidden) anchor)" "r \<noteq> []" "shown \<noteq> []"
    and "segment_valid C tx v shown" "tx_sender tx = owner" "tx_recipient tx = r"
    and "validate_anchor C ctx v owner shown anchor = Inr None"
    and "u \<in> set hidden" "other \<in> set (sc_txs (cu_sidecar u))" "spends other v"
  shows "(\<exists>res. validate_transfer_package C ctx \<lparr>tp_target_tx = tx, tp_target_value = v,
       tp_witness = WitnessV2 wv owner shown anchor\<rparr> (Some r) = Inr res \<and> vres_ok res) \<and>
     (\<forall>res. validate_transfer_package C ctx \<lparr>tp_target_tx = tx, tp_target_value = v,
       tp_witness = WitnessV2 wv owner (shown @ hidden) anchor\<rparr> (Some r) = Inr res \<longrightarrow> \<not> vres_ok res)"
proof (intro conjI allI impI notI)
  have ok: "sidecars_ok shown" using assms(2) by (simp add: units_sidecars_ok)
  have "validate_transfer C ctx tx v (WitnessV2 wv owner shown anchor) r = Inr None"
    unfolding validate_segment [OF ok assms(1)] using assms by simp
  then show "\<exists>res. validate_transfer_package C ctx \<lparr>tp_target_tx = tx, tp_target_value = v,
       tp_witness = WitnessV2 wv owner shown anchor\<rparr> (Some r) = Inr res \<and> vres_ok res"
    using package_result [OF assms(3)] by simp
next
  fix res
  assume a: "validate_transfer_package C ctx \<lparr>tp_target_tx = tx, tp_target_value = v,
      tp_witness = WitnessV2 wv owner (shown @ hidden) anchor\<rparr> (Some r) = Inr res" "vres_ok res"
  have "provenance C ctx v tx (WitnessV2 wv owner (shown @ hidden) anchor)"
    using accepts_package_iff [OF _ _ assms(3) a(1)] a(2) assms(1,2) by simp
  then have "segment_valid C tx v (shown @ hidden)" by cases simp_all
  with assms(4,9-11) show False by (cases shown) (auto simp: segment_valid_def)
qed

text \<open>C25. A proof of absence passes for a proof of inclusion. Take any tree, for instance the real ledger's,
  and an owner of a genesis value with no account in it. The proof that the account is absent, put
  into a made-up receipt, makes the recipient accept any bundle of that owner: the bundle was never on
  the ledger, so the owner can hand the same value to any number of recipients.\<close>

theorem absent_sender_accepted:
  assumes "digests32 C" "smt_ok C t" "smt_depth t = 256" "smt_root C t = Inr root"
    and "smt_get t (compute_addr_key C (tx_sender tx)) = None"
    and "vr_ok v" "bundle_sidecar_ok sidecar" "sc_sender sidecar = tx_sender tx" "sole_spend sidecar tx v"
    and "vr_ok allocation" "vr_contains_range allocation v"
    and "allocation \<in> set (dict_get_default (vc_genesis_allocations ctx) (tx_sender tx) [])"
    and "hash32 block_hash" "0 \<le> height" "0 < seq" "hash32 genesis"
  shows "\<exists>proof res. smt_prove C t (compute_addr_key C (tx_sender tx)) = Inr proof \<and>
     validate_transfer_package C ctx \<lparr>tp_target_tx = tx, tp_target_value = v, tp_witness =
       WitnessV2 v (tx_sender tx)
         [\<lparr>cu_receipt = \<lparr>rc_header = \<lparr>hl_height = height, hl_block_hash = block_hash, hl_state_root = root\<rparr>,
             rc_seq = seq, rc_prev_ref = None, rc_claim_set_hash = None, rc_proof = Some proof, rc_batch_ref = None\<rparr>,
           cu_sidecar = sidecar\<rparr>]
         (GenesisAnchor \<lparr>ga_block_hash = genesis, ga_owner = tx_sender tx,
            ga_value_begin = vr_begin allocation, ga_value_end = vr_end allocation\<rparr>)\<rparr> (Some (tx_recipient tx)) = Inr res \<and>
     vres_ok res"
proof -
  let ?key = "compute_addr_key C (tx_sender tx)"
  have "length ?key * 8 = smt_depth t"
    using assms(3) keccak_length [OF assms(1)] by (simp add: compute_addr_key_def)
  from smt_proofs_complete [OF assms(1,2) this] assms(4,5) obtain pf where
    p: "smt_prove C t ?key = Inr pf" and ver: "\<And>h. length h = 32 \<Longrightarrow> verify_proof C root ?key h pf 256"
    using assms(3) by auto
  let ?u = "\<lparr>cu_receipt = \<lparr>rc_header = \<lparr>hl_height = height, hl_block_hash = block_hash, hl_state_root = root\<rparr>,
      rc_seq = seq, rc_prev_ref = None, rc_claim_set_hash = None, rc_proof = Some pf, rc_batch_ref = None\<rparr>, cu_sidecar = sidecar\<rparr>"
  let ?g = "\<lparr>ga_block_hash = genesis, ga_owner = tx_sender tx, ga_value_begin = vr_begin allocation, ga_value_end = vr_end allocation\<rparr>"
  have "proven_unit C ?u"
    using ver keccak_length [OF assms(1)] assms(8) by (simp add: proven_unit_def hash_account_leaf_def)
  then have seg: "segment_valid C tx v [?u]" using assms(9) by (simp add: segment_valid_def)
  have tx: "tx \<in> set (sc_txs sidecar)"
    using assms(9) by (metis count_notin sole_spend_def zero_neq_one)
  have txok: "tx_recipient tx \<noteq> []"
    using sidecar_txs_ok [OF assms(7) tx] by (auto simp: offchain_tx_ok_def offchain_tx_init_def)
  have "validate_sender_chain C v 0 [?u] tx = None"
  proof -
    have "\<not> latest_conflict sidecar v tx"
      using latest_conflict_iff [OF assms(7,6) _ sidecar_txs_ok [OF assms(7) tx]] assms(9) vr_contains_range_iff [OF assms(6)]
      by (auto simp: sole_spend_def tx_contains_target_value_def list_ex_iff)
    with ver keccak_length [OF assms(1)] assms(8) show ?thesis by (simp add: hash_account_leaf_def Let_def)
  qed
  moreover have "validate_anchor C ctx v (tx_sender tx) [?u] (GenesisAnchor ?g) = Inr None"
    unfolding validate_genesis_anchor using assms(10-12) by simp
  ultimately have "validate_transfer C ctx tx v (WitnessV2 v (tx_sender tx) [?u] (GenesisAnchor ?g)) (tx_recipient tx) = Inr None"
    using segment_valid_tx [OF seg assms(6)] by (simp add: filter_eq_count validate_transfer.simps)
  with p show ?thesis using package_result [OF txok] by simp
qed

subsection \<open>Examples\<close>

definition flat_proof :: smt_proof where
  "flat_proof = \<lparr>pf_siblings = replicate 256 (replicate 32 0), pf_existence = True\<rparr>"

definition sample_unit :: "int \<Rightarrow> bundle_sidecar \<Rightarrow> confirmed_unit" where
  "sample_unit height sidecar = \<lparr>cu_receipt = \<lparr>rc_header = \<lparr>hl_height = height, hl_block_hash = ZERO_HASH32, hl_state_root = ZERO_HASH32\<rparr>,
     rc_seq = 1, rc_prev_ref = None, rc_claim_set_hash = None, rc_proof = Some flat_proof, rc_batch_ref = None\<rparr>, cu_sidecar = sidecar\<rparr>"

definition sample_context :: validation_context where
  "sample_context = \<lparr>vc_genesis_allocations = [(''alice'', [ValueRange 0 9])], vc_trusted_checkpoints = []\<rparr>"

definition sample_anchor :: anchor where
  "sample_anchor = GenesisAnchor \<lparr>ga_block_hash = ZERO_HASH32, ga_owner = ''alice'', ga_value_begin = 0, ga_value_end = 9\<rparr>"

definition sample_package :: transfer_package where
  "sample_package = \<lparr>tp_target_tx = sample_tx, tp_target_value = ValueRange 0 4,
     tp_witness = WitnessV2 (ValueRange 0 4) ''alice'' [sample_unit 3 sample_sidecar] sample_anchor\<rparr>"

lemma flat_fold: "fold_siblings flat_crypto k l c ss = (if ss = [] then c else replicate 32 0)"
  by (induction ss arbitrary: l c) (auto simp: node_hash_def)

lemma flat_proof_verifies:
  "length key = 32 \<Longrightarrow> length v = 32 \<Longrightarrow> verify_proof flat_crypto ZERO_HASH32 key v flat_proof 256"
  by (simp add: verify_proof_def flat_proof_def flat_fold ZERO_HASH32_def)

lemma sample_unit_proven: "proven_unit flat_crypto (sample_unit h s)"
  by (simp add: proven_unit_def sample_unit_def flat_proof_verifies compute_addr_key_def hash_account_leaf_def)

lemma sample_unit_ok: "0 \<le> h \<Longrightarrow> bundle_sidecar_ok s \<Longrightarrow> confirmed_unit_ok (sample_unit h s)"
  by (simp add: confirmed_unit_ok_def sample_unit_def receipt_ok_def receipt_init_def hash32_opt_def header_lite_ok_def
      header_lite_init_def hash32_def ZERO_HASH32_def smt_proof_ok_def smt_proof_init_def flat_proof_def list_all_iff)

lemma sample_tx_ok: "offchain_tx_ok sample_tx" "bundle_sidecar_ok sample_sidecar"
  by (simp_all add: offchain_tx_ok_def offchain_tx_init_def sample_tx_def vr_intersects_def vr_ok_def vr_key_def
      bundle_sidecar_ok_def bundle_sidecar_init_def sample_sidecar_def)

lemma sample_segment: "segment_valid flat_crypto sample_tx (ValueRange 0 4) [sample_unit h sample_sidecar]"
  using sample_unit_proven [of h sample_sidecar]
  by (simp add: segment_valid_def sole_spend_def) (simp add: sample_unit_def sample_sidecar_def sample_tx_def vr_set_def)

lemma sample_package_ok:
  "vr_ok (tp_target_value sample_package)" "witness_ok (tp_witness sample_package)" "offchain_tx_ok (tp_target_tx sample_package)"
  using sample_tx_ok sample_unit_ok [of 3 sample_sidecar]
  by (simp_all add: sample_package_def vr_ok_def sample_anchor_def genesis_anchor_init_def hash32_def ZERO_HASH32_def)

lemma sample_anchor_accepted: "validate_anchor flat_crypto sample_context (ValueRange 0 4) ''alice'' chain sample_anchor = Inr None"
  unfolding sample_anchor_def validate_genesis_anchor
  by (simp add: sample_context_def dict_get_default_def vr_ok_def vr_contains_range_def)

lemma sample_accepted:
  "validate_transfer_package flat_crypto sample_context sample_package (Some ''bob'') =
     Inr \<lparr>vres_ok = True, vres_error = None, vres_accepted_witness = Some (accepted_witness sample_package ''bob'')\<rparr>"
proof -
  have "tx_sender sample_tx = ''alice''" "tx_recipient sample_tx = ''bob''" by (simp_all add: sample_tx_def)
  then have "validate_transfer flat_crypto sample_context sample_tx (ValueRange 0 4)
     (WitnessV2 (ValueRange 0 4) ''alice'' [sample_unit 3 sample_sidecar] sample_anchor) ''bob'' = Inr None"
    using validate_segment [of "[sample_unit 3 sample_sidecar]" "ValueRange 0 4"] sample_segment sample_anchor_accepted
      sample_tx_ok(2) by (simp add: vr_ok_def) (simp add: sample_unit_def)
  then show ?thesis by (simp add: package_result sample_package_def)
qed

theorem transfer_accepted_iff_witness:
  "validate_transfer_package flat_crypto sample_context sample_package (Some ''bob'') =
     Inr \<lparr>vres_ok = True, vres_error = None, vres_accepted_witness = Some (accepted_witness sample_package ''bob'')\<rparr>"
proof -
  have "provenance flat_crypto sample_context (ValueRange 0 4) sample_tx
      (WitnessV2 (ValueRange 0 4) ''alice'' [sample_unit 3 sample_sidecar] sample_anchor)"
    using sample_segment [of 3] by (simp add: sample_anchor_def sample_tx_def provenance_simps)
      (simp add: vr_ok_def vr_contains_range_def sample_context_def dict_get_default_def)
  then show ?thesis
    using transfer_accepted_iff [OF sample_package_ok(1,2), of "''bob''" flat_crypto sample_context] by (simp add: sample_package_def sample_tx_def)
qed

theorem accepted_transfer_safe_witness:
  "\<not> (\<exists>other\<in>set (sc_txs sample_sidecar). spends other (ValueRange 0 4) \<and> other \<noteq> sample_tx) \<and>
     originates sample_context ''alice'' (ValueRange 0 4)"
  using accepted_transfer_safe [OF sample_package_ok(1,2) _ sample_accepted]
  by (auto simp: sample_package_def sample_anchor_def sample_unit_def sample_tx_def)

definition onward_tx :: offchain_tx where
  "onward_tx = \<lparr>tx_sender = ''bob'', tx_recipient = ''carol'', tx_values = [ValueRange 0 4],
     tx_local_index = 0, tx_time = 2, tx_extra = []\<rparr>"

definition onward_sidecar :: bundle_sidecar where
  "onward_sidecar = \<lparr>sc_sender = ''bob'', sc_txs = [onward_tx], sc_tx_count = 1\<rparr>"

lemma onward_ok: "bundle_sidecar_ok onward_sidecar"
  by (simp add: offchain_tx_ok_def offchain_tx_init_def onward_tx_def vr_ok_def bundle_sidecar_ok_def
      bundle_sidecar_init_def onward_sidecar_def)

lemma onward_segment: "segment_valid flat_crypto onward_tx (ValueRange 0 4) [sample_unit h onward_sidecar]"
  using sample_unit_proven [of h onward_sidecar]
  by (simp add: segment_valid_def sole_spend_def) (simp add: sample_unit_def onward_sidecar_def onward_tx_def vr_set_def)

theorem relayed_transfer_accepted_witness:
  "\<exists>res'. validate_transfer_package flat_crypto sample_context \<lparr>tp_target_tx = onward_tx, tp_target_value = ValueRange 0 4,
      tp_witness = WitnessV2 (ValueRange 0 4) ''bob'' [sample_unit 5 onward_sidecar]
        (w_anchor (accepted_witness sample_package ''bob''))\<rparr> (Some ''carol'') = Inr res' \<and> vres_ok res'"
proof -
  have v: "tp_target_value sample_package = ValueRange 0 4" by (simp add: sample_package_def)
  show ?thesis
    using relayed_transfer_accepted [OF sample_package_ok(1,2) _ sample_package_ok(3) sample_accepted, of "[sample_unit 5 onward_sidecar]" onward_tx "''carol''"]
      onward_segment [of 5] onward_ok sample_unit_ok [of 5 onward_sidecar]
    by (simp add: v) (simp add: sample_package_def onward_tx_def sample_unit_def)
qed

definition double_spend_tx :: offchain_tx where
  "double_spend_tx = sample_tx\<lparr>tx_recipient := ''carol''\<rparr>"

definition double_spend_sidecar :: bundle_sidecar where
  "double_spend_sidecar = sample_sidecar\<lparr>sc_txs := [double_spend_tx]\<rparr>"

lemma double_spend_ok: "bundle_sidecar_ok double_spend_sidecar"
  by (simp add: offchain_tx_ok_def offchain_tx_init_def sample_tx_def vr_intersects_def vr_ok_def vr_key_def
      bundle_sidecar_ok_def bundle_sidecar_init_def double_spend_sidecar_def double_spend_tx_def sample_sidecar_def)

theorem truncated_history_accepted_witness:
  "\<exists>res. validate_transfer_package flat_crypto sample_context sample_package (Some ''bob'') = Inr res \<and> vres_ok res"
proof -
  have ok: "witness_ok (WitnessV2 (ValueRange 0 4) ''alice'' ([sample_unit 3 sample_sidecar] @ [sample_unit 2 double_spend_sidecar]) sample_anchor)"
    using sample_package_ok(2) sample_unit_ok [OF _ double_spend_ok, of 2] by (simp add: sample_package_def)
  have "double_spend_tx \<in> set (sc_txs (cu_sidecar (sample_unit 2 double_spend_sidecar)))" "spends double_spend_tx (ValueRange 0 4)"
    by (simp_all add: sample_unit_def double_spend_sidecar_def spends_def units_def double_spend_tx_def sample_tx_def)
      (auto simp: vr_set_def)
  with truncated_history_accepted [OF _ ok, where r = "''bob''" and C = flat_crypto and tx = sample_tx and
      ctx = sample_context and v = "ValueRange 0 4" and u = "sample_unit 2 double_spend_sidecar" and other = double_spend_tx]
    sample_segment sample_anchor_accepted
  show ?thesis by (simp add: vr_ok_def sample_package_def) (simp add: sample_tx_def)
qed

theorem absent_sender_accepted_witness:
  "\<exists>p res. validate_transfer_package flat_crypto sample_context p (Some ''bob'') = Inr res \<and> vres_ok res"
proof -
  obtain t where t: "smt_new flat_crypto 256 = Inr t" by (simp add: smt_new_def)
  note new = smt_new_ok [OF t]
  obtain root where "smt_root flat_crypto t = Inr root" using smt_root_full new by blast
  with new absent_sender_accepted [of flat_crypto t root sample_tx "ValueRange 0 4" sample_sidecar "ValueRange 0 9" sample_context
      ZERO_HASH32 1 1 ZERO_HASH32] sample_tx_ok(2) sample_segment [of 1]
  show ?thesis
    by (simp add: segment_valid_def sample_unit_def vr_ok_def vr_contains_range_def sample_context_def dict_get_default_def hash32_def ZERO_HASH32_def)
      (auto simp: sample_tx_def sample_sidecar_def)
qed

end
