(* ===== verification/Consensus_Types.thy ===== *)
theory Consensus_Types
  imports Chain_Hash
begin

section \<open>Consensus messages (\<open>EZ_V2/consensus/types.py\<close>)\<close>

text \<open>
  Validators, proposals, votes, timeout votes and the two kinds of certificates, each with the check of
  its constructor, the object it is hashed as and its hash. The hash of a message commits to all its
  fields (theorem \<open>consensus_hashes_bind\<close>).
\<close>

subsection \<open>The messages\<close>

datatype ctype_error =
    EmptyId
  | EmptyKey
  | WeightNotPositive
  | BadNumericId
  | NotPositive
  | EmptyValidators
  | HashNot32
  | EmptySigners
  | SignersNotSorted
  | DuplicateSigners
  | NegativeQcRound

record cvalidator =
  cv_id :: string
  cv_vote_pubkey :: bytes
  cv_vrf_pubkey :: bytes
  cv_weight :: int

definition cvalidator_init :: "cvalidator \<Rightarrow> ctype_error + cvalidator" where
  "cvalidator_init v =
     (if cv_id v = [] then Inl EmptyId
      else if cv_vote_pubkey v = [] then Inl EmptyKey
      else if cv_vrf_pubkey v = [] then Inl EmptyKey
      else if cv_weight v \<le> 0 then Inl WeightNotPositive
      else Inr v)"

definition cvalidator_obj :: "cvalidator \<Rightarrow> pyobj" where
  "cvalidator_obj v = PCanonical (PDict [(''validator_id'', PStr (cv_id v)),
     (''consensus_vote_pubkey'', PBytes (cv_vote_pubkey v)), (''vrf_pubkey'', PBytes (cv_vrf_pubkey v)),
     (''weight'', PInt (cv_weight v))])"

record genesis_config =
  gc_chain_id :: int
  gc_epoch_id :: int
  gc_validators :: "cvalidator list"

definition genesis_config_init :: "genesis_config \<Rightarrow> ctype_error + genesis_config" where
  "genesis_config_init g =
     (if gc_chain_id g < 0 then Inl BadNumericId
      else if gc_epoch_id g < 0 then Inl BadNumericId
      else if gc_validators g = [] then Inl EmptyValidators
      else Inr g)"

definition genesis_config_obj :: "genesis_config \<Rightarrow> pyobj" where
  "genesis_config_obj g = PCanonical (PDict [(''chain_id'', PInt (gc_chain_id g)),
     (''epoch_id'', PInt (gc_epoch_id g)), (''validators'', PList (map cvalidator_obj (gc_validators g)))])"

datatype vote_phase = PREPARE | PRECOMMIT | COMMIT

fun phase_value :: "vote_phase \<Rightarrow> string" where
  "phase_value PREPARE = ''prepare''"
| "phase_value PRECOMMIT = ''precommit''"
| "phase_value COMMIT = ''commit''"

record proposal =
  pr_chain_id :: int
  pr_epoch_id :: int
  pr_height :: int
  pr_round :: int
  pr_proposer :: string
  pr_vset_hash :: bytes
  pr_block_hash :: bytes
  pr_justify_qc_hash :: "bytes option"

definition proposal_init :: "proposal \<Rightarrow> ctype_error + proposal" where
  "proposal_init p =
     (if pr_chain_id p < 0 \<or> pr_epoch_id p < 0 then Inl BadNumericId
      else if pr_height p \<le> 0 \<or> pr_round p \<le> 0 then Inl NotPositive
      else if pr_proposer p = [] then Inl EmptyId
      else if \<not> hash32 (pr_vset_hash p) then Inl HashNot32
      else if \<not> hash32 (pr_block_hash p) then Inl HashNot32
      else if \<not> hash32_opt (pr_justify_qc_hash p) then Inl HashNot32
      else Inr p)"

definition proposal_payload :: "proposal \<Rightarrow> pyobj" where
  "proposal_payload p = PDict [(''chain_id'', PInt (pr_chain_id p)), (''epoch_id'', PInt (pr_epoch_id p)),
     (''height'', PInt (pr_height p)), (''round'', PInt (pr_round p)), (''proposer_id'', PStr (pr_proposer p)),
     (''validator_set_hash'', PBytes (pr_vset_hash p)), (''block_hash'', PBytes (pr_block_hash p)),
     (''justify_qc_hash'', bytes_opt_obj (pr_justify_qc_hash p))]"

record vote =
  vt_chain_id :: int
  vt_epoch_id :: int
  vt_height :: int
  vt_round :: int
  vt_voter :: string
  vt_vset_hash :: bytes
  vt_block_hash :: bytes
  vt_phase :: vote_phase

definition vote_init :: "vote \<Rightarrow> ctype_error + vote" where
  "vote_init v =
     (if vt_chain_id v < 0 \<or> vt_epoch_id v < 0 then Inl BadNumericId
      else if vt_height v \<le> 0 \<or> vt_round v \<le> 0 then Inl NotPositive
      else if vt_voter v = [] then Inl EmptyId
      else if \<not> hash32 (vt_vset_hash v) then Inl HashNot32
      else if \<not> hash32 (vt_block_hash v) then Inl HashNot32
      else Inr v)"

definition vote_payload :: "vote \<Rightarrow> pyobj" where
  "vote_payload v = PDict [(''chain_id'', PInt (vt_chain_id v)), (''epoch_id'', PInt (vt_epoch_id v)),
     (''height'', PInt (vt_height v)), (''round'', PInt (vt_round v)), (''voter_id'', PStr (vt_voter v)),
     (''validator_set_hash'', PBytes (vt_vset_hash v)), (''block_hash'', PBytes (vt_block_hash v)),
     (''phase'', PEnum (PStr (phase_value (vt_phase v))))]"

record timeout_vote =
  tv_chain_id :: int
  tv_epoch_id :: int
  tv_height :: int
  tv_round :: int
  tv_voter :: string
  tv_vset_hash :: bytes
  tv_high_qc_round :: "int option"
  tv_high_qc_hash :: "bytes option"

definition int_opt_obj :: "int option \<Rightarrow> pyobj" where
  "int_opt_obj i = (case i of None \<Rightarrow> PNone | Some n \<Rightarrow> PInt n)"

definition negative_round :: "int option \<Rightarrow> bool" where
  "negative_round r = (case r of None \<Rightarrow> False | Some n \<Rightarrow> n < 0)"

definition timeout_vote_init :: "timeout_vote \<Rightarrow> ctype_error + timeout_vote" where
  "timeout_vote_init v =
     (if tv_chain_id v < 0 \<or> tv_epoch_id v < 0 then Inl BadNumericId
      else if tv_height v \<le> 0 \<or> tv_round v \<le> 0 then Inl NotPositive
      else if tv_voter v = [] then Inl EmptyId
      else if negative_round (tv_high_qc_round v) then Inl NegativeQcRound
      else if \<not> hash32 (tv_vset_hash v) then Inl HashNot32
      else if \<not> hash32_opt (tv_high_qc_hash v) then Inl HashNot32
      else Inr v)"

definition timeout_vote_payload :: "timeout_vote \<Rightarrow> pyobj" where
  "timeout_vote_payload v = PDict [(''chain_id'', PInt (tv_chain_id v)), (''epoch_id'', PInt (tv_epoch_id v)),
     (''height'', PInt (tv_height v)), (''round'', PInt (tv_round v)), (''voter_id'', PStr (tv_voter v)),
     (''validator_set_hash'', PBytes (tv_vset_hash v)), (''high_qc_round'', int_opt_obj (tv_high_qc_round v)),
     (''high_qc_hash'', bytes_opt_obj (tv_high_qc_hash v))]"

record qc =
  qc_chain_id :: int
  qc_epoch_id :: int
  qc_height :: int
  qc_round :: int
  qc_phase :: vote_phase
  qc_vset_hash :: bytes
  qc_block_hash :: bytes
  qc_signers :: "string list"

definition qc_init :: "qc \<Rightarrow> ctype_error + qc" where
  "qc_init q =
     (if qc_chain_id q < 0 \<or> qc_epoch_id q < 0 then Inl BadNumericId
      else if qc_height q \<le> 0 \<or> qc_round q \<le> 0 then Inl NotPositive
      else if qc_signers q = [] then Inl EmptySigners
      else if sort (qc_signers q) \<noteq> qc_signers q then Inl SignersNotSorted
      else if \<not> distinct (qc_signers q) then Inl DuplicateSigners
      else if \<not> hash32 (qc_vset_hash q) then Inl HashNot32
      else if \<not> hash32 (qc_block_hash q) then Inl HashNot32
      else Inr q)"

definition qc_obj :: "qc \<Rightarrow> pyobj" where
  "qc_obj q = PCanonical (PDict [(''chain_id'', PInt (qc_chain_id q)), (''epoch_id'', PInt (qc_epoch_id q)),
     (''height'', PInt (qc_height q)), (''round'', PInt (qc_round q)),
     (''phase'', PEnum (PStr (phase_value (qc_phase q)))),
     (''validator_set_hash'', PBytes (qc_vset_hash q)), (''block_hash'', PBytes (qc_block_hash q)),
     (''signers'', PList (map PStr (qc_signers q)))])"

record tc =
  tc_chain_id :: int
  tc_epoch_id :: int
  tc_height :: int
  tc_round :: int
  tc_vset_hash :: bytes
  tc_signers :: "string list"
  tc_high_qc_round :: "int option"
  tc_high_qc_hash :: "bytes option"

definition tc_init :: "tc \<Rightarrow> ctype_error + tc" where
  "tc_init t =
     (if tc_chain_id t < 0 \<or> tc_epoch_id t < 0 then Inl BadNumericId
      else if tc_height t \<le> 0 \<or> tc_round t \<le> 0 then Inl NotPositive
      else if tc_signers t = [] then Inl EmptySigners
      else if sort (tc_signers t) \<noteq> tc_signers t then Inl SignersNotSorted
      else if \<not> distinct (tc_signers t) then Inl DuplicateSigners
      else if negative_round (tc_high_qc_round t) then Inl NegativeQcRound
      else if \<not> hash32 (tc_vset_hash t) then Inl HashNot32
      else if \<not> hash32_opt (tc_high_qc_hash t) then Inl HashNot32
      else Inr t)"

definition tc_obj :: "tc \<Rightarrow> pyobj" where
  "tc_obj t = PCanonical (PDict [(''chain_id'', PInt (tc_chain_id t)), (''epoch_id'', PInt (tc_epoch_id t)),
     (''height'', PInt (tc_height t)), (''round'', PInt (tc_round t)),
     (''validator_set_hash'', PBytes (tc_vset_hash t)), (''signers'', PList (map PStr (tc_signers t))),
     (''high_qc_round'', int_opt_obj (tc_high_qc_round t)), (''high_qc_hash'', bytes_opt_obj (tc_high_qc_hash t))])"

subsection \<open>Their hashes\<close>

definition hash_with_domain :: "crypto \<Rightarrow> string \<Rightarrow> pyobj \<Rightarrow> bytes" where
  "hash_with_domain C domain payload = sha256 C (ascii domain @ canonical_bytes payload)"

definition proposal_hash :: "crypto \<Rightarrow> proposal \<Rightarrow> bytes" where
  "proposal_hash C p = hash_with_domain C ''EZCHAIN_V2_PROPOSAL'' (proposal_payload p)"

definition vote_hash :: "crypto \<Rightarrow> vote \<Rightarrow> bytes" where
  "vote_hash C v = hash_with_domain C ''EZCHAIN_V2_VOTE'' (vote_payload v)"

definition timeout_vote_hash :: "crypto \<Rightarrow> timeout_vote \<Rightarrow> bytes" where
  "timeout_vote_hash C v = hash_with_domain C ''EZCHAIN_V2_TIMEOUT_VOTE'' (timeout_vote_payload v)"

definition qc_hash :: "crypto \<Rightarrow> qc \<Rightarrow> bytes" where
  "qc_hash C q = hash_with_domain C ''EZCHAIN_V2_QC'' (qc_obj q)"

definition tc_hash :: "crypto \<Rightarrow> tc \<Rightarrow> bytes" where
  "tc_hash C t = hash_with_domain C ''EZCHAIN_V2_TC'' (tc_obj t)"

subsection \<open>A hash commits to every field\<close>

lemma sha_hash32: "digests32 C \<Longrightarrow> hash32 (sha256 C x)"
  by (simp add: digests32_def hash32_def)

lemma message_hash32 [simp]: "digests32 C \<Longrightarrow> hash32 (qc_hash C q)"
  by (simp add: qc_hash_def hash_with_domain_def sha_hash32)

lemma phase_value_inject [simp]: "phase_value p = phase_value q \<longleftrightarrow> p = q"
  by (cases p; cases q) simp_all

lemma int_opt_inject: "canon (int_opt_obj a) = canon (int_opt_obj b) \<Longrightarrow> a = b"
  by (simp add: int_opt_obj_def split: option.splits)

lemma canon_PEnum_str [simp]: "canon (PEnum (PStr s)) = PStr s"
  by (simp add: canon_def)

lemma PStr_list_inject: "map (canon \<circ> PStr) xs = map (canon \<circ> PStr) ys \<Longrightarrow> xs = ys"
  by (rule list_map_inject [of "canon \<circ> PStr"]) simp_all

lemma proposal_payload_inject: "canon (proposal_payload a) = canon (proposal_payload b) \<Longrightarrow> a = b"
  unfolding proposal_payload_def by (drule canon_dict_inject) (auto intro!: proposal.equality dest: bytes_opt_inject)

lemma vote_payload_inject: "canon (vote_payload a) = canon (vote_payload b) \<Longrightarrow> a = b"
  unfolding vote_payload_def by (drule canon_dict_inject) (auto intro!: vote.equality)

lemma timeout_vote_payload_inject: "canon (timeout_vote_payload a) = canon (timeout_vote_payload b) \<Longrightarrow> a = b"
  unfolding timeout_vote_payload_def
  by (drule canon_dict_inject) (auto intro!: timeout_vote.equality dest: bytes_opt_inject int_opt_inject)

lemma qc_obj_inject: "canon (qc_obj a) = canon (qc_obj b) \<Longrightarrow> a = b"
  unfolding qc_obj_def canon_simps(6) by (drule canon_dict_inject) (auto intro!: qc.equality PStr_list_inject)

lemma tc_obj_inject: "canon (tc_obj a) = canon (tc_obj b) \<Longrightarrow> a = b"
  unfolding tc_obj_def canon_simps(6)
  by (drule canon_dict_inject) (auto intro!: tc.equality PStr_list_inject dest: bytes_opt_inject int_opt_inject)

definition separates :: "crypto \<Rightarrow> string \<Rightarrow> pyobj \<Rightarrow> pyobj \<Rightarrow> bool" where
  \<comment> \<open>Both objects are below the 4 GiB limit and their two SHA-256 inputs do not collide.\<close>
  "separates C domain a b \<longleftrightarrow> encodes a \<and> encodes b \<and>
     (sha256 C (ascii domain @ canonical_bytes a) = sha256 C (ascii domain @ canonical_bytes b) \<longrightarrow>
      canonical_bytes a = canonical_bytes b)"

lemma hash_with_domain_inject:
  "hash_with_domain C d a = hash_with_domain C d b \<Longrightarrow> separates C d a b \<Longrightarrow> canon a = canon b"
  by (auto simp: hash_with_domain_def separates_def encodes_def intro: canonical_bytes_inject)

text \<open>C26. The hash of a proposal, vote, timeout vote, quorum certificate or timeout certificate commits to
  every field of the message, its signers and their order included.\<close>

theorem consensus_hashes_bind:
  shows "(proposal_hash C p = proposal_hash C p' \<and> separates C ''EZCHAIN_V2_PROPOSAL'' (proposal_payload p) (proposal_payload p') \<longrightarrow> p = p') \<and>
     (vote_hash C v = vote_hash C v' \<and> separates C ''EZCHAIN_V2_VOTE'' (vote_payload v) (vote_payload v') \<longrightarrow> v = v') \<and>
     (timeout_vote_hash C t = timeout_vote_hash C t' \<and>
        separates C ''EZCHAIN_V2_TIMEOUT_VOTE'' (timeout_vote_payload t) (timeout_vote_payload t') \<longrightarrow> t = t') \<and>
     (qc_hash C q = qc_hash C q' \<and> separates C ''EZCHAIN_V2_QC'' (qc_obj q) (qc_obj q') \<longrightarrow> q = q') \<and>
     (tc_hash C k = tc_hash C k' \<and> separates C ''EZCHAIN_V2_TC'' (tc_obj k) (tc_obj k') \<longrightarrow> k = k')"
  using hash_with_domain_inject proposal_payload_inject vote_payload_inject timeout_vote_payload_inject
    qc_obj_inject tc_obj_inject
  unfolding proposal_hash_def vote_hash_def timeout_vote_hash_def qc_hash_def tc_hash_def by meson

definition sample_qc :: qc where
  "sample_qc = \<lparr>qc_chain_id = 1, qc_epoch_id = 0, qc_height = 1, qc_round = 2, qc_phase = PRECOMMIT,
     qc_vset_hash = replicate 32 0, qc_block_hash = replicate 32 1, qc_signers = [''a'', ''b'', ''c'']\<rparr>"

lemma sample_qc_encodes: "encodes (qc_obj sample_qc)"
  by (simp add: encodes_def qc_obj_def sample_qc_def utf8_def utf8_char_def)

theorem consensus_hashes_bind_witness:
  "\<exists>q. qc_init (sample_qc\<lparr>qc_signers := sort [''b'', ''c'', ''a'']\<rparr>) = Inr q \<and> q = sample_qc"
proof -
  have i: "qc_init (sample_qc\<lparr>qc_signers := sort [''b'', ''c'', ''a'']\<rparr>) = Inr sample_qc"
    by (simp add: qc_init_def sample_qc_def hash32_def)
  have "separates flat_crypto ''EZCHAIN_V2_QC'' (qc_obj sample_qc) (qc_obj sample_qc)"
    by (simp add: separates_def sample_qc_encodes)
  with i consensus_hashes_bind [of flat_crypto _ _ _ _ _ _ sample_qc
      "projr (qc_init (sample_qc\<lparr>qc_signers := sort [''b'', ''c'', ''a'']\<rparr>))"]
  show ?thesis by simp
qed

end
