(* ===== verification/Validator_Set.thy ===== *)
theory Validator_Set
  imports Consensus_Types
begin

section \<open>The validator set and its quorums (\<open>EZ_V2/consensus/validator_set.py\<close>)\<close>

text \<open>
  The set is built from equally weighted validators with distinct ids; a quorum is more than two thirds
  of them. What the protocol needs of quorums is the contract \<open>quorum_system\<close>, which the model of
  \<open>ValidatorSet\<close> satisfies.
\<close>

datatype vset_error = NoValidatorsGiven | ValidatorIdNotUnique | UnequalWeights

record validator_set =
  vs_validators :: "cvalidator list"
  vs_hash :: bytes
  vs_quorum_size :: int

definition compute_validator_set_hash :: "crypto \<Rightarrow> cvalidator list \<Rightarrow> bytes" where
  "compute_validator_set_hash C validators =
     hash_with_domain C ''EZCHAIN_V2_VALIDATOR_SET''
       (PDict [(''validators'', PList (map cvalidator_obj (sort_key cv_id validators)))])"

definition vset_from_validators :: "crypto \<Rightarrow> cvalidator list \<Rightarrow> vset_error + validator_set" where
  "vset_from_validators C validators =
     (if validators = [] then Inl NoValidatorsGiven
      else
        let ordered = sort_key cv_id validators
        in if \<not> distinct (map cv_id ordered) then Inl ValidatorIdNotUnique
           else if list_ex (\<lambda>item. cv_weight item \<noteq> 1) ordered then Inl UnequalWeights
           else Inr \<lparr>vs_validators = ordered, vs_hash = compute_validator_set_hash C ordered,
             vs_quorum_size = 2 * int (length ordered) div 3 + 1\<rparr>)"

definition vset_from_genesis :: "crypto \<Rightarrow> genesis_config \<Rightarrow> vset_error + validator_set" where
  "vset_from_genesis C genesis = vset_from_validators C (gc_validators genesis)"

definition vset_count :: "validator_set \<Rightarrow> int" where
  "vset_count vs = int (length (vs_validators vs))"

definition vset_ids :: "validator_set \<Rightarrow> string list" where
  "vset_ids vs = map cv_id (vs_validators vs)"

definition vset_get :: "validator_set \<Rightarrow> string \<Rightarrow> cvalidator option" where
  "vset_get vs validator_id = find (\<lambda>v. cv_id v = validator_id) (vs_validators vs)"

definition vset_contains :: "validator_set \<Rightarrow> string \<Rightarrow> bool" where
  "vset_contains vs validator_id \<longleftrightarrow> vset_get vs validator_id \<noteq> None"

definition has_quorum :: "validator_set \<Rightarrow> string list \<Rightarrow> bool" where
  "has_quorum vs signers \<longleftrightarrow>
     vs_quorum_size vs \<le> int (length (remdups (filter (vset_contains vs) signers)))"

subsection \<open>What the protocol needs of quorums\<close>

locale quorum_system =
  fixes ok :: "'c \<Rightarrow> bool"
    and members :: "'c \<Rightarrow> 'v set"
    and quorum :: "'c \<Rightarrow> 'v set \<Rightarrow> bool"
  assumes finite_members: "ok c \<Longrightarrow> finite (members c)"
    and quorum_iff: "ok c \<Longrightarrow> finite S \<Longrightarrow> quorum c S \<longleftrightarrow> 2 * card (members c) < 3 * card (S \<inter> members c)"
begin

lemma quorums_overlap:
  assumes "ok c" "finite S" "finite T" "quorum c S" "quorum c T"
  shows "card (members c) < 3 * card (S \<inter> T \<inter> members c)"
proof -
  note fin = finite_members [OF assms(1)]
  let ?A = "S \<inter> members c" and ?B = "T \<inter> members c"
  have "card ?A + card ?B = card (?A \<union> ?B) + card (?A \<inter> ?B)"
    by (rule card_Un_Int) (simp_all add: fin)
  moreover have "card (?A \<union> ?B) \<le> card (members c)"
    by (rule card_mono [OF fin]) auto
  moreover have "?A \<inter> ?B = S \<inter> T \<inter> members c" by auto
  ultimately show ?thesis
    using assms quorum_iff [OF assms(1,2)] quorum_iff [OF assms(1,3)] by simp
qed

lemma common_honest:
  assumes "ok c" "finite S" "finite T" "quorum c S" "quorum c T"
    and "3 * card (faulty \<inter> members c) \<le> card (members c)"
  shows "\<exists>v\<in>S \<inter> T \<inter> members c. v \<notin> faulty"
proof (rule ccontr)
  assume "\<not> (\<exists>v\<in>S \<inter> T \<inter> members c. v \<notin> faulty)"
  then have "S \<inter> T \<inter> members c \<subseteq> faulty \<inter> members c" by auto
  then have "card (S \<inter> T \<inter> members c) \<le> card (faulty \<inter> members c)"
    by (rule card_mono [rotated]) (simp add: finite_members [OF assms(1)])
  with quorums_overlap [OF assms(1-5)] assms(6) show False by simp
qed

lemma honest_quorum:
  assumes "ok c" "3 * card (faulty \<inter> members c) < card (members c)"
  shows "quorum c (members c - faulty)"
proof -
  note fin = finite_members [OF assms(1)]
  have "(members c - faulty) \<inter> members c = members c - faulty \<inter> members c" by auto
  moreover have "card (members c - faulty \<inter> members c) = card (members c) - card (faulty \<inter> members c)"
    by (rule card_Diff_subset) (auto simp: fin)
  ultimately show ?thesis
    unfolding quorum_iff [OF assms(1) finite_Diff [OF fin]] using assms(2) by simp
qed

end

subsection \<open>The model's validator set satisfies it\<close>

definition vset_ok :: "validator_set \<Rightarrow> bool" where
  "vset_ok vs \<longleftrightarrow> distinct (vset_ids vs) \<and> vs_validators vs \<noteq> [] \<and>
     vs_quorum_size vs = 2 * vset_count vs div 3 + 1"

lemma sort_key_Nil: "sort_key f xs = [] \<longleftrightarrow> xs = []"
  using length_sort [of f xs] by (cases xs) fastforce+

lemma from_validators_ok: "vset_from_validators C xs = Inr vs \<Longrightarrow> vset_ok vs \<and> set (vset_ids vs) = cv_id ` set xs"
  by (auto simp: vset_from_validators_def Let_def vset_ok_def vset_ids_def vset_count_def sort_key_Nil split: if_splits)

lemma vset_contains_iff [simp]: "vset_contains vs i \<longleftrightarrow> i \<in> set (vset_ids vs)"
  by (auto simp: vset_contains_def vset_get_def vset_ids_def find_None_iff)

definition signers_quorum :: "validator_set \<Rightarrow> string set \<Rightarrow> bool" where
  "signers_quorum vs S \<longleftrightarrow> vs_quorum_size vs \<le> int (card (S \<inter> set (vset_ids vs)))"

lemma has_quorum_iff: "has_quorum vs signers \<longleftrightarrow> signers_quorum vs (set signers)"
proof -
  have "card (set signers \<inter> set (vset_ids vs)) = length (remdups (filter (vset_contains vs) signers))"
    by (subst length_remdups_card_conv) (auto intro!: arg_cong [of _ _ card])
  then show ?thesis by (simp add: has_quorum_def signers_quorum_def)
qed

interpretation vset: quorum_system vset_ok "\<lambda>vs. set (vset_ids vs)" signers_quorum
proof unfold_locales
  fix vs :: validator_set and S :: "string set"
  assume ok: "vset_ok vs"
  then have "card (set (vset_ids vs)) = nat (vset_count vs)" "0 \<le> vset_count vs"
    by (auto simp: vset_ok_def distinct_card) (simp_all add: vset_ids_def vset_count_def)
  with ok show "signers_quorum vs S \<longleftrightarrow> 2 * card (set (vset_ids vs)) < 3 * card (S \<inter> set (vset_ids vs))"
    by (simp add: signers_quorum_def vset_ok_def) linarith
qed simp

text \<open>C27. Quorums do their job. For every validator set the code builds: two signer lists with a quorum share a
  validator outside any set of at most a third of them, and if fewer than a third are faulty the others
  form a quorum; a signer that is no validator, or is listed twice, counts for nothing.\<close>

theorem quorum_intersection:
  assumes "vset_from_validators C xs = Inr vs"
  shows "(has_quorum vs a \<and> has_quorum vs b \<and> 3 * card (faulty \<inter> cv_id ` set xs) \<le> card (cv_id ` set xs) \<longrightarrow>
       (\<exists>v\<in>set a \<inter> set b. v \<in> cv_id ` set xs \<and> v \<notin> faulty)) \<and>
     (set honest = cv_id ` set xs - faulty \<and> 3 * card (faulty \<inter> cv_id ` set xs) < card (cv_id ` set xs) \<longrightarrow>
       has_quorum vs honest) \<and>
     has_quorum vs a = has_quorum vs (remdups (filter (\<lambda>v. v \<in> cv_id ` set xs) a))"
proof -
  have vs: "vset_ok vs" "set (vset_ids vs) = cv_id ` set xs" using from_validators_ok [OF assms] by blast+
  have "set (remdups (filter (\<lambda>v. v \<in> cv_id ` set xs) a)) \<inter> set (vset_ids vs) = set a \<inter> set (vset_ids vs)"
    by (auto simp: vs(2))
  then have "has_quorum vs a = has_quorum vs (remdups (filter (\<lambda>v. v \<in> cv_id ` set xs) a))"
    by (simp only: has_quorum_iff signers_quorum_def)
  with vset.common_honest [OF vs(1), of "set a" "set b" faulty] vset.honest_quorum [OF vs(1), of faulty] show ?thesis
    unfolding has_quorum_iff vs(2) by (intro conjI impI) (elim conjE, blast, simp_all)
qed

definition sample_validators :: "cvalidator list" where
  "sample_validators = map (\<lambda>i. \<lparr>cv_id = i, cv_vote_pubkey = [1], cv_vrf_pubkey = [2], cv_weight = 1\<rparr>)
     [''d'', ''a'', ''c'', ''b'']"

definition sample_vset :: "crypto \<Rightarrow> validator_set" where
  "sample_vset C = projr (vset_from_validators C sample_validators)"

lemma sample_vset: "vset_from_validators C sample_validators = Inr (sample_vset C)"
  by (simp add: sample_vset_def vset_from_validators_def sample_validators_def Let_def)

lemma sample_vset_simps:
  "vs_quorum_size (sample_vset C) = 3" "vset_ids (sample_vset C) = [''a'', ''b'', ''c'', ''d'']"
  "cv_id ` set sample_validators = {''a'', ''b'', ''c'', ''d''}"
  by (auto simp: sample_vset_def vset_from_validators_def sample_validators_def Let_def vset_ids_def)

theorem quorum_intersection_witness:
  "has_quorum (sample_vset flat_crypto) [''a'', ''b'', ''c''] \<and> \<not> has_quorum (sample_vset flat_crypto) [''a'', ''b'', ''x'', ''b'']"
proof
  have "set [''a'', ''b'', ''c''] = cv_id ` set sample_validators - {''d''}" "{''d''} \<inter> cv_id ` set sample_validators = {''d''}"
    unfolding sample_vset_simps by auto
  then show "has_quorum (sample_vset flat_crypto) [''a'', ''b'', ''c'']"
    using quorum_intersection [OF sample_vset, of flat_crypto "[]" "[]" "{''d''}" "[''a'', ''b'', ''c'']"]
    unfolding sample_vset_simps by simp
  show "\<not> has_quorum (sample_vset flat_crypto) [''a'', ''b'', ''x'', ''b'']"
    by (simp add: has_quorum_def sample_vset_simps)
qed

end
