(* ===== verification/Effects.thy ===== *)
theory Effects
  imports Prelude
begin

section \<open>Operations on mutable objects\<close>

text \<open>
  A method of a mutable object returns its result, or the error it raises, together with the object
  as it is then: what a method has assigned before it raises stays assigned. \<open>st_bind\<close> runs one
  call after another, \<open>st_each\<close> a loop over a list.
\<close>

type_synonym ('e, 'a, 's) outcome = "('e + 'a) \<times> 's"

definition st_bind :: "('e, 'a, 's) outcome \<Rightarrow> ('a \<Rightarrow> 's \<Rightarrow> ('e, 'b, 's) outcome) \<Rightarrow> ('e, 'b, 's) outcome" where
  "st_bind r f = (case r of (Inl e, s) \<Rightarrow> (Inl e, s) | (Inr a, s) \<Rightarrow> f a s)"

fun st_each :: "('x \<Rightarrow> 's \<Rightarrow> ('e, unit, 's) outcome) \<Rightarrow> 'x list \<Rightarrow> 's \<Rightarrow> ('e, unit, 's) outcome" where
  "st_each f [] s = (Inr (), s)"
| "st_each f (x # xs) s = st_bind (f x s) (\<lambda>_ s. st_each f xs s)"

fun each_object :: "('o \<Rightarrow> ('e, 'a, 'o) outcome) \<Rightarrow> 'o list \<Rightarrow> ('e, 'a list, 'o list) outcome" where
  \<comment> \<open>\<open>[f(obj) for obj in objects]\<close> for a method \<open>f\<close> of pairwise different mutable objects\<close>
  "each_object f [] = (Inr [], [])"
| "each_object f (x # xs) =
     (case f x of
        (Inl e, x') \<Rightarrow> (Inl e, x' # xs)
      | (Inr a, x') \<Rightarrow>
          (case each_object f xs of
             (Inl e, xs') \<Rightarrow> (Inl e, x' # xs')
           | (Inr as, xs') \<Rightarrow> (Inr (a # as), x' # xs')))"

lemma st_bind_simps [simp, result_simps]:
  "st_bind (Inl e, s) f = (Inl e, s)" "st_bind (Inr a, s) f = f a s"
  by (simp_all add: st_bind_def)

lemma st_bind_Inr [result_simps]:
  "st_bind r f = (Inr b, s') \<longleftrightarrow> (\<exists>a s. r = (Inr a, s) \<and> f a s = (Inr b, s'))"
  by (auto simp: st_bind_def split: prod.split sum.split)

lemma st_bind_Inl [result_simps]:
  "st_bind r f = (Inl e, s') \<longleftrightarrow> r = (Inl e, s') \<or> (\<exists>a s. r = (Inr a, s) \<and> f a s = (Inl e, s'))"
  by (auto simp: st_bind_def split: prod.split sum.split)

text \<open>An invariant of the object that every call keeps, whether it raises or not.\<close>

lemma st_bind_keeps:
  assumes "P (snd r)" "\<And>a s. r = (Inr a, s) \<Longrightarrow> P s \<Longrightarrow> P (snd (f a s))"
  shows "P (snd (st_bind r f))"
  using assms by (auto simp: st_bind_def split: prod.splits sum.splits)

lemma if_pair_Inr: "(if c then (Inl e, s) else r) = (Inr b, s') \<longleftrightarrow> \<not> c \<and> r = (Inr b, s')"
  by simp

lemma each_object_total:
  "(\<And>x. x \<in> set xs \<Longrightarrow> f x = (Inr (g x), h x)) \<Longrightarrow> each_object f xs = (Inr (map g xs), map h xs)"
  by (induction xs) simp_all

end
