(* ===== verification/Vote_Collector.thy ===== *)
theory Vote_Collector
  imports Validator_Set Effects "HOL-Library.Option_ord"
begin

section \<open>Collecting votes (\<open>EZ_V2/consensus/qc.py\<close>)\<close>

text \<open>
  A collector gathers votes per target and returns a certificate once a quorum of validators has voted.
  It remembers each signer's choice and refuses a second, different one. A Python set of signers is a
  list without repetitions here; the certificate sorts it.
\<close>

datatype collector_error =
    VoteSetHashMismatch
  | SignerNotValidator
  | ConflictingVote
  | BadCertificate ctype_error

subsection \<open>Votes\<close>

type_synonym vote_target = "int \<times> int \<times> string \<times> bytes"
type_synonym vote_signer = "int \<times> int \<times> string \<times> string"

record vote_collector =
  vc_votes_by_target :: "(vote_target, string list) dict"
  vc_choice_by_signer :: "(vote_signer, bytes) dict"

definition vote_collector_new :: vote_collector where
  "vote_collector_new = \<lparr>vc_votes_by_target = [], vc_choice_by_signer = []\<rparr>"

definition restore_vote :: "int \<Rightarrow> int \<Rightarrow> string \<Rightarrow> string \<Rightarrow> bytes \<Rightarrow> vote_collector \<Rightarrow> vote_collector" where
  "restore_vote height round phase voter block_hash col =
     (let target = (height, round, phase, block_hash);
          signers = dict_get_default (vc_votes_by_target col) target []
      in col\<lparr>vc_choice_by_signer := dict_set (height, round, phase, voter) block_hash (vc_choice_by_signer col),
           vc_votes_by_target := dict_set target (List.insert voter signers) (vc_votes_by_target col)\<rparr>)"

definition make_qc :: "vote \<Rightarrow> string list \<Rightarrow> qc" where
  "make_qc v signers = \<lparr>qc_chain_id = vt_chain_id v, qc_epoch_id = vt_epoch_id v, qc_height = vt_height v,
     qc_round = vt_round v, qc_phase = vt_phase v, qc_vset_hash = vt_vset_hash v,
     qc_block_hash = vt_block_hash v, qc_signers = sort signers\<rparr>"

definition vote_target :: "vote \<Rightarrow> vote_target" where
  "vote_target v = (vt_height v, vt_round v, phase_value (vt_phase v), vt_block_hash v)"

definition vote_signer :: "vote \<Rightarrow> vote_signer" where
  "vote_signer v = (vt_height v, vt_round v, phase_value (vt_phase v), vt_voter v)"

definition add_vote ::
    "validator_set \<Rightarrow> vote \<Rightarrow> vote_collector \<Rightarrow> (collector_error, qc option, vote_collector) outcome" where
  "add_vote vs v col =
     (if vt_vset_hash v \<noteq> vs_hash vs then (Inl VoteSetHashMismatch, col)
      else if \<not> vset_contains vs (vt_voter v) then (Inl SignerNotValidator, col)
      else if dict_get (vc_choice_by_signer col) (vote_signer v) \<noteq> None \<and>
              dict_get (vc_choice_by_signer col) (vote_signer v) \<noteq> Some (vt_block_hash v)
      then (Inl ConflictingVote, col)
      else
        let col = restore_vote (vt_height v) (vt_round v) (phase_value (vt_phase v)) (vt_voter v) (vt_block_hash v) col;
            signers = dict_get_default (vc_votes_by_target col) (vote_target v) []
        in if \<not> has_quorum vs signers then (Inr None, col)
           else case qc_init (make_qc v signers) of
                  Inl e \<Rightarrow> (Inl (BadCertificate e), col)
                | Inr q \<Rightarrow> (Inr (Some q), col))"

subsection \<open>Timeouts\<close>

type_synonym high_qc = "int option \<times> bytes option"

definition is_higher_qc_ref :: "high_qc \<Rightarrow> high_qc \<Rightarrow> bool" where
  "is_higher_qc_ref candidate current =
     (let candidate_round = (case fst candidate of None \<Rightarrow> - 1 | Some r \<Rightarrow> r);
          current_round = (case fst current of None \<Rightarrow> - 1 | Some r \<Rightarrow> r)
      in if candidate_round \<noteq> current_round then current_round < candidate_round
         else case snd candidate of
                None \<Rightarrow> False
              | Some h \<Rightarrow> (case snd current of None \<Rightarrow> True | Some k \<Rightarrow> k < h))"

record timeout_collector =
  tcol_signers_by_round :: "(int \<times> int, string list) dict"
  tcol_choice_by_signer :: "(int \<times> int \<times> string, high_qc) dict"
  tcol_highest_by_round :: "(int \<times> int, high_qc) dict"

definition timeout_collector_new :: timeout_collector where
  "timeout_collector_new = \<lparr>tcol_signers_by_round = [], tcol_choice_by_signer = [], tcol_highest_by_round = []\<rparr>"

definition restore_timeout :: "int \<Rightarrow> int \<Rightarrow> string \<Rightarrow> high_qc \<Rightarrow> timeout_collector \<Rightarrow> timeout_collector" where
  "restore_timeout height round voter choice col =
     (let key = (height, round);
          signers = dict_get_default (tcol_signers_by_round col) key [];
          col = col\<lparr>tcol_choice_by_signer := dict_set (height, round, voter) choice (tcol_choice_by_signer col),
            tcol_signers_by_round := dict_set key (List.insert voter signers) (tcol_signers_by_round col)\<rparr>
      in case dict_get (tcol_highest_by_round col) key of
           None \<Rightarrow> col\<lparr>tcol_highest_by_round := dict_set key choice (tcol_highest_by_round col)\<rparr>
         | Some current \<Rightarrow>
             if is_higher_qc_ref choice current
             then col\<lparr>tcol_highest_by_round := dict_set key choice (tcol_highest_by_round col)\<rparr>
             else col)"

definition make_tc :: "timeout_vote \<Rightarrow> string list \<Rightarrow> high_qc \<Rightarrow> tc" where
  "make_tc v signers high = \<lparr>tc_chain_id = tv_chain_id v, tc_epoch_id = tv_epoch_id v, tc_height = tv_height v,
     tc_round = tv_round v, tc_vset_hash = tv_vset_hash v, tc_signers = sort signers,
     tc_high_qc_round = fst high, tc_high_qc_hash = snd high\<rparr>"

definition timeout_choice :: "timeout_vote \<Rightarrow> high_qc" where
  "timeout_choice v = (tv_high_qc_round v, tv_high_qc_hash v)"

definition add_timeout_vote ::
    "validator_set \<Rightarrow> timeout_vote \<Rightarrow> timeout_collector \<Rightarrow> (collector_error, tc option, timeout_collector) outcome" where
  "add_timeout_vote vs v col =
     (let signer = (tv_height v, tv_round v, tv_voter v);
          existing = dict_get (tcol_choice_by_signer col) signer
      in if tv_vset_hash v \<noteq> vs_hash vs then (Inl VoteSetHashMismatch, col)
         else if \<not> vset_contains vs (tv_voter v) then (Inl SignerNotValidator, col)
         else if existing \<noteq> None \<and> existing \<noteq> Some (timeout_choice v) then (Inl ConflictingVote, col)
         else
           let col = restore_timeout (tv_height v) (tv_round v) (tv_voter v) (timeout_choice v) col;
               key = (tv_height v, tv_round v);
               signers = dict_get_default (tcol_signers_by_round col) key []
           in if \<not> has_quorum vs signers then (Inr None, col)
              else case tc_init (make_tc v signers (dict_get_default (tcol_highest_by_round col) key (None, None))) of
                     Inl e \<Rightarrow> (Inl (BadCertificate e), col)
                   | Inr t \<Rightarrow> (Inr (Some t), col))"

subsection \<open>Votes and choices agree\<close>

definition signers_at :: "vote_collector \<Rightarrow> vote_target \<Rightarrow> string list" where
  "signers_at col t = dict_get_default (vc_votes_by_target col) t []"

definition collector_ok :: "string set \<Rightarrow> vote_collector \<Rightarrow> bool" where
  \<comment> \<open>The signers recorded for a target are the members whose recorded choice it is.\<close>
  "collector_ok members col \<longleftrightarrow> (\<forall>h r p b. distinct (signers_at col (h, r, p, b)) \<and>
     (\<forall>s. s \<in> set (signers_at col (h, r, p, b)) \<longleftrightarrow> dict_get (vc_choice_by_signer col) (h, r, p, s) = Some b) \<and>
     set (signers_at col (h, r, p, b)) \<subseteq> members)"

lemma collector_new_ok [simp]: "collector_ok M vote_collector_new"
  by (simp add: collector_ok_def vote_collector_new_def signers_at_def dict_get_default_def)

lemma signers_at_restore:
  "signers_at (restore_vote h r p s b col) t = (if t = (h, r, p, b) then List.insert s (signers_at col t) else signers_at col t)"
  by (simp add: signers_at_def restore_vote_def Let_def dict_get_default_def dict_simps)

lemma choice_restore:
  "dict_get (vc_choice_by_signer (restore_vote h r p s b col)) = (dict_get (vc_choice_by_signer col))((h, r, p, s) \<mapsto> b)"
  by (rule ext) (simp add: restore_vote_def Let_def dict_simps)

lemma restore_vote_ok:
  assumes "collector_ok M col" "s \<in> M"
    and "dict_get (vc_choice_by_signer col) (h, r, p, s) = None \<or> dict_get (vc_choice_by_signer col) (h, r, p, s) = Some b"
  shows "collector_ok M (restore_vote h r p s b col)"
  using assms unfolding collector_ok_def by (auto simp: signers_at_restore choice_restore)

lemma add_vote_cases:
  obtains (refused) e where "add_vote vs v col = (Inl e, col)"
  | (taken) res where "add_vote vs v col = (res, restore_vote (vt_height v) (vt_round v) (phase_value (vt_phase v)) (vt_voter v) (vt_block_hash v) col)"
      "vt_vset_hash v = vs_hash vs" "vt_voter v \<in> set (vset_ids vs)"
      "dict_get (vc_choice_by_signer col) (vote_signer v) = None \<or> dict_get (vc_choice_by_signer col) (vote_signer v) = Some (vt_block_hash v)"
proof (cases "vt_vset_hash v = vs_hash vs \<and> vt_voter v \<in> set (vset_ids vs) \<and>
    (dict_get (vc_choice_by_signer col) (vote_signer v) = None \<or> dict_get (vc_choice_by_signer col) (vote_signer v) = Some (vt_block_hash v))")
  case True
  then have "add_vote vs v col = (fst (add_vote vs v col),
      restore_vote (vt_height v) (vt_round v) (phase_value (vt_phase v)) (vt_voter v) (vt_block_hash v) col)"
    by (auto simp: add_vote_def Let_def prod_eq_iff split: sum.split)
  then show ?thesis using True by (intro taken) auto
next
  case False
  then have "\<exists>e. add_vote vs v col = (Inl e, col)" by (auto simp: add_vote_def)
  then show ?thesis using refused by blast
qed

lemma add_vote_ok:
  assumes "collector_ok (set (vset_ids vs)) col"
  shows "collector_ok (set (vset_ids vs)) (snd (add_vote vs v col))"
proof (cases rule: add_vote_cases [of vs v col])
  case (taken res)
  then show ?thesis using restore_vote_ok [OF assms] by (simp add: vote_signer_def)
qed (use assms in simp)

lemma add_vote_qc:
  assumes "add_vote vs v col = (Inr (Some q), col')"
  shows "q = make_qc v (signers_at col' (vote_target v)) \<and> qc_init q = Inr q \<and> has_quorum vs (qc_signers q) \<and>
    vt_voter v \<in> set (qc_signers q)"
proof -
  have q: "qc_init (make_qc v (signers_at col' (vote_target v))) = Inr q"
    and quo: "has_quorum vs (signers_at col' (vote_target v))"
    and col': "col' = restore_vote (vt_height v) (vt_round v) (phase_value (vt_phase v)) (vt_voter v) (vt_block_hash v) col"
    using assms by (auto simp: add_vote_def Let_def signers_at_def split: if_splits sum.splits)
  have "q = make_qc v (signers_at col' (vote_target v))"
    using q by (auto simp: qc_init_def split: if_splits)
  with q quo show ?thesis
    by (simp add: has_quorum_iff make_qc_def) (simp add: col' signers_at_restore vote_target_def)
qed

subsection \<open>One certificate per round and phase\<close>

definition collect :: "validator_set \<Rightarrow> vote list \<Rightarrow> vote_collector" where
  "collect vs votes = foldl (\<lambda>col v. snd (add_vote vs v col)) vote_collector_new votes"

lemma collect_snoc: "collect vs (votes @ [v]) = snd (add_vote vs v (collect vs votes))"
  by (simp add: collect_def)

lemma collect_ok: "collector_ok (set (vset_ids vs)) (collect vs votes)"
  by (induction votes rule: rev_induct) (simp_all add: collect_snoc add_vote_ok, simp add: collect_def)

lemma signers_grow: "set (signers_at col t) \<subseteq> set (signers_at (snd (add_vote vs v col)) t)"
  by (cases rule: add_vote_cases [of vs v col]) (auto simp: signers_at_restore)

lemma signers_grow_run: "set (signers_at (collect vs votes) t) \<subseteq> set (signers_at (collect vs (votes @ ws)) t)"
proof (induction ws rule: rev_induct)
  case (snoc v ws)
  then show ?case using signers_grow [of "collect vs (votes @ ws)" t vs v]
    by (auto simp: collect_snoc simp flip: append_assoc)
qed simp

lemma quorum_nonempty: "vset_ok vs \<Longrightarrow> has_quorum vs a \<Longrightarrow> has_quorum vs b \<Longrightarrow> set a \<inter> set b \<noteq> {}"
  using vset.common_honest [of vs "set a" "set b" "{}"] by (auto simp: has_quorum_iff)

text \<open>C30. A collector never certifies two blocks. Whatever votes a collector is fed, each certificate it returns is well formed, names its
  validator set and is signed by a quorum of its validators, each of whom voted for exactly the height, round, phase and block hash the
  certificate names; and a later certificate for the same height, round and phase names the same block and keeps all its signers.\<close>

theorem one_certificate_per_round:
  assumes "vset_ok vs" "fst (add_vote vs v (collect vs votes)) = Inr (Some q)"
    and "fst (add_vote vs v' (collect vs (votes @ [v] @ ws))) = Inr (Some q')"
    and "qc_height q' = qc_height q" "qc_round q' = qc_round q" "qc_phase q' = qc_phase q"
  shows "qc_init q = Inr q \<and> has_quorum vs (qc_signers q) \<and> set (qc_signers q) \<subseteq> set (vset_ids vs) \<and>
    qc_vset_hash q = vs_hash vs \<and>
    (\<forall>s\<in>set (qc_signers q). \<exists>w\<in>set (votes @ [v]). vt_voter w = s \<and> vt_height w = qc_height q \<and> vt_round w = qc_round q \<and>
       vt_phase w = qc_phase q \<and> vt_block_hash w = qc_block_hash q) \<and>
    qc_block_hash q' = qc_block_hash q \<and> set (qc_signers q) \<subseteq> set (qc_signers q')"
proof -
  have votes_of: "\<exists>w\<in>set xs. vt_voter w = s \<and> vote_target w = t" if "s \<in> set (signers_at (collect vs xs) t)" for s t xs
    using that
  proof (induction xs rule: rev_induct)
    case Nil
    then show ?case by (simp add: collect_def vote_collector_new_def signers_at_def dict_get_default_def)
  next
    case (snoc w xs)
    then show ?case
      by (cases rule: add_vote_cases [of vs w "collect vs xs"])
        (auto simp: collect_snoc signers_at_restore vote_target_def split: if_splits)
  qed
  let ?c = "collect vs (votes @ [v])" and ?c' = "collect vs (votes @ [v] @ ws @ [v'])"
  have q: "q = make_qc v (signers_at ?c (vote_target v))" "qc_init q = Inr q" "has_quorum vs (qc_signers q)"
    using add_vote_qc [of vs v "collect vs votes" q ?c] assms(2) by (cases "add_vote vs v (collect vs votes)"; simp add: collect_snoc)+
  have q': "q' = make_qc v' (signers_at ?c' (vote_target v'))" "has_quorum vs (qc_signers q')"
    using add_vote_qc [of vs v' "collect vs (votes @ [v] @ ws)" q' ?c'] assms(3) collect_snoc [of vs "votes @ [v] @ ws" v']
    by (cases "add_vote vs v' (collect vs (votes @ [v] @ ws))"; simp)+
  have sub: "set (qc_signers q) \<subseteq> set (signers_at ?c' (vote_target v))"
    using signers_grow_run [of vs "votes @ [v]" "vote_target v" "ws @ [v']"] q(1) by (simp add: make_qc_def)
  obtain s where s: "s \<in> set (qc_signers q)" "s \<in> set (qc_signers q')"
    using quorum_nonempty [OF assms(1) q(3) q'(2)] by auto
  have same: "vote_target v' = (fst (vote_target v), fst (snd (vote_target v)), fst (snd (snd (vote_target v))), vt_block_hash v')"
    using assms(4-6) q(1) q'(1) by (simp add: make_qc_def vote_target_def)
  have "vt_block_hash v' = vt_block_hash v"
    using collect_ok [of vs "votes @ [v] @ ws @ [v']"] sub s q'(1) same
    unfolding collector_ok_def by (auto simp: make_qc_def vote_target_def)
  then have t: "vote_target v' = vote_target v" using same by (simp add: vote_target_def)
  have "set (qc_signers q) \<subseteq> set (vset_ids vs)"
    using collect_ok [of vs "votes @ [v]"] q(1) unfolding collector_ok_def by (auto simp: make_qc_def vote_target_def)
  moreover have "qc_vset_hash q = vs_hash vs" using assms(2) q(1) by (auto simp: add_vote_def make_qc_def Let_def split: if_splits)
  moreover have "\<forall>s\<in>set (qc_signers q). \<exists>w\<in>set (votes @ [v]). vt_voter w = s \<and> vt_height w = qc_height q \<and> vt_round w = qc_round q \<and>
      vt_phase w = qc_phase q \<and> vt_block_hash w = qc_block_hash q"
  proof
    fix s assume "s \<in> set (qc_signers q)"
    then obtain w where "w \<in> set (votes @ [v])" "vt_voter w = s" "vote_target w = vote_target v"
      using votes_of [of s "votes @ [v]" "vote_target v"] q(1) by (auto simp: make_qc_def)
    then show "\<exists>w\<in>set (votes @ [v]). vt_voter w = s \<and> vt_height w = qc_height q \<and> vt_round w = qc_round q \<and>
        vt_phase w = qc_phase q \<and> vt_block_hash w = qc_block_hash q"
      by (intro bexI [of _ w]) (simp_all add: q(1) make_qc_def vote_target_def phase_value_inject)
  qed
  moreover have "set (qc_signers q) \<subseteq> set (qc_signers q')" using sub t q'(1) by (simp add: make_qc_def)
  moreover have "qc_block_hash q' = qc_block_hash q"
    using \<open>vt_block_hash v' = vt_block_hash v\<close> q(1) q'(1) by (simp add: make_qc_def)
  ultimately show ?thesis using q by blast
qed

subsection \<open>A timeout certificate carries the highest certificate reported\<close>

definition qc_rank :: "high_qc \<Rightarrow> int \<times> bytes option" where
  "qc_rank c = (case fst c of None \<Rightarrow> - 1 | Some r \<Rightarrow> r, snd c)"

lemma is_higher_qc_ref_iff: "is_higher_qc_ref a b \<longleftrightarrow> qc_rank b < qc_rank a"
  by (cases "snd a"; cases "snd b") (auto simp: is_higher_qc_ref_def qc_rank_def Let_def)

definition timeout_signers :: "timeout_collector \<Rightarrow> int \<times> int \<Rightarrow> string list" where
  "timeout_signers col k = dict_get_default (tcol_signers_by_round col) k []"

definition timeouts_ok :: "string set \<Rightarrow> timeout_collector \<Rightarrow> bool" where
  "timeouts_ok members col \<longleftrightarrow> (\<forall>h r. distinct (timeout_signers col (h, r)) \<and>
     (\<forall>s. s \<in> set (timeout_signers col (h, r)) \<longleftrightarrow> dict_get (tcol_choice_by_signer col) (h, r, s) \<noteq> None) \<and>
     set (timeout_signers col (h, r)) \<subseteq> members \<and>
     (case dict_get (tcol_highest_by_round col) (h, r) of
        None \<Rightarrow> timeout_signers col (h, r) = []
      | Some c \<Rightarrow> (\<exists>s. dict_get (tcol_choice_by_signer col) (h, r, s) = Some c) \<and>
          (\<forall>s c'. dict_get (tcol_choice_by_signer col) (h, r, s) = Some c' \<longrightarrow> qc_rank c' \<le> qc_rank c)))"

lemma timeout_collector_new_ok [simp]: "timeouts_ok M timeout_collector_new"
  by (simp add: timeouts_ok_def timeout_collector_new_def timeout_signers_def dict_get_default_def)

lemma restore_timeout_fields:
  "timeout_signers (restore_timeout h r s c col) k = (if k = (h, r) then List.insert s (timeout_signers col k) else timeout_signers col k)"
  "dict_get (tcol_choice_by_signer (restore_timeout h r s c col)) x =
     (if x = (h, r, s) then Some c else dict_get (tcol_choice_by_signer col) x)"
  "dict_get (tcol_highest_by_round (restore_timeout h r s c col)) k =
     (if k = (h, r) then
        (case dict_get (tcol_highest_by_round col) k of
           None \<Rightarrow> Some c
         | Some d \<Rightarrow> Some (if qc_rank d < qc_rank c then c else d))
      else dict_get (tcol_highest_by_round col) k)"
  by (auto simp: restore_timeout_def Let_def timeout_signers_def dict_get_default_def dict_simps is_higher_qc_ref_iff split: option.split)

lemma restore_timeout_ok:
  assumes "timeouts_ok M col" "s \<in> M"
    and "dict_get (tcol_choice_by_signer col) (h, r, s) = None \<or> dict_get (tcol_choice_by_signer col) (h, r, s) = Some c"
  shows "timeouts_ok M (restore_timeout h r s c col)"
  unfolding timeouts_ok_def
proof (intro allI)
  fix h' r'
  note col = assms(1) [unfolded timeouts_ok_def, rule_format, of h' r']
  show "distinct (timeout_signers (restore_timeout h r s c col) (h', r')) \<and>
     (\<forall>t. t \<in> set (timeout_signers (restore_timeout h r s c col) (h', r')) \<longleftrightarrow>
        dict_get (tcol_choice_by_signer (restore_timeout h r s c col)) (h', r', t) \<noteq> None) \<and>
     set (timeout_signers (restore_timeout h r s c col) (h', r')) \<subseteq> M \<and>
     (case dict_get (tcol_highest_by_round (restore_timeout h r s c col)) (h', r') of
        None \<Rightarrow> timeout_signers (restore_timeout h r s c col) (h', r') = []
      | Some d \<Rightarrow> (\<exists>t. dict_get (tcol_choice_by_signer (restore_timeout h r s c col)) (h', r', t) = Some d) \<and>
          (\<forall>t c'. dict_get (tcol_choice_by_signer (restore_timeout h r s c col)) (h', r', t) = Some c' \<longrightarrow> qc_rank c' \<le> qc_rank d))"
  proof (cases "(h', r') = (h, r)")
    case False
    then have "timeout_signers (restore_timeout h r s c col) (h', r') = timeout_signers col (h', r')"
      "\<And>t. dict_get (tcol_choice_by_signer (restore_timeout h r s c col)) (h', r', t) = dict_get (tcol_choice_by_signer col) (h', r', t)"
      "dict_get (tcol_highest_by_round (restore_timeout h r s c col)) (h', r') = dict_get (tcol_highest_by_round col) (h', r')"
      by (auto simp: restore_timeout_fields)
    then show ?thesis using col by (simp only: simp_thms)
  next
    case True
    show ?thesis
    proof (cases "dict_get (tcol_highest_by_round col) (h, r)")
      case None
      then have "\<forall>t. dict_get (tcol_choice_by_signer col) (h, r, t) = None" using col True by (auto simp del: not_None_eq)
      then show ?thesis using col True None assms(2) by (auto simp: restore_timeout_fields)
    next
      case (Some d)
      then have d: "\<exists>t. dict_get (tcol_choice_by_signer col) (h, r, t) = Some d"
        "\<And>t c'. dict_get (tcol_choice_by_signer col) (h, r, t) = Some c' \<Longrightarrow> qc_rank c' \<le> qc_rank d"
        using col True by auto
      let ?col = "restore_timeout h r s c col" and ?e = "if qc_rank d < qc_rank c then c else d"
      have high: "dict_get (tcol_highest_by_round ?col) (h', r') = Some ?e" using True Some by (simp add: restore_timeout_fields)
      obtain t0 where t0: "dict_get (tcol_choice_by_signer col) (h, r, t0) = Some d" using d(1) by blast
      have "\<exists>t. dict_get (tcol_choice_by_signer ?col) (h', r', t) = Some ?e"
      proof (cases "qc_rank d < qc_rank c \<or> t0 = s")
        case True
        then show ?thesis using \<open>(h', r') = (h, r)\<close> t0 assms(3) by (intro exI [of _ s]) (auto simp: restore_timeout_fields)
      next
        case False
        then show ?thesis using \<open>(h', r') = (h, r)\<close> t0 by (intro exI [of _ t0]) (simp add: restore_timeout_fields)
      qed
      moreover have "qc_rank c' \<le> qc_rank ?e" if "dict_get (tcol_choice_by_signer ?col) (h', r', t) = Some c'" for t c'
      proof -
        have "qc_rank c \<le> qc_rank ?e" "qc_rank d \<le> qc_rank ?e" by (simp_all add: not_less less_imp_le)
        then show ?thesis using that True d(2) [of t c'] by (auto simp: restore_timeout_fields split: if_splits)
      qed
      moreover have "distinct (timeout_signers ?col (h', r'))" "set (timeout_signers ?col (h', r')) \<subseteq> M"
        "\<forall>t. t \<in> set (timeout_signers ?col (h', r')) \<longleftrightarrow> dict_get (tcol_choice_by_signer ?col) (h', r', t) \<noteq> None"
        using col True assms(2) by (auto simp: restore_timeout_fields simp del: not_None_eq)
      ultimately show ?thesis unfolding high by simp
    qed
  qed
qed

lemma add_timeout_vote_cases:
  obtains (refused) e where "add_timeout_vote vs v col = (Inl e, col)"
  | (taken) res where "add_timeout_vote vs v col = (res, restore_timeout (tv_height v) (tv_round v) (tv_voter v) (timeout_choice v) col)"
      "tv_voter v \<in> set (vset_ids vs)"
      "dict_get (tcol_choice_by_signer col) (tv_height v, tv_round v, tv_voter v) = None \<or>
       dict_get (tcol_choice_by_signer col) (tv_height v, tv_round v, tv_voter v) = Some (timeout_choice v)"
proof (cases "tv_vset_hash v = vs_hash vs \<and> tv_voter v \<in> set (vset_ids vs) \<and>
    (dict_get (tcol_choice_by_signer col) (tv_height v, tv_round v, tv_voter v) = None \<or>
     dict_get (tcol_choice_by_signer col) (tv_height v, tv_round v, tv_voter v) = Some (timeout_choice v))")
  case True
  then have "add_timeout_vote vs v col = (fst (add_timeout_vote vs v col),
      restore_timeout (tv_height v) (tv_round v) (tv_voter v) (timeout_choice v) col)"
    by (auto simp: add_timeout_vote_def Let_def prod_eq_iff split: sum.split)
  then show ?thesis using True by (intro taken) auto
next
  case False
  then have "\<exists>e. add_timeout_vote vs v col = (Inl e, col)" by (auto simp: add_timeout_vote_def Let_def)
  then show ?thesis using refused by blast
qed

lemma add_timeout_vote_ok:
  assumes "timeouts_ok (set (vset_ids vs)) col"
  shows "timeouts_ok (set (vset_ids vs)) (snd (add_timeout_vote vs v col))"
proof (cases rule: add_timeout_vote_cases [of vs v col])
  case (taken res)
  then show ?thesis using restore_timeout_ok [OF assms] by simp
qed (use assms in simp)

definition collect_timeouts :: "validator_set \<Rightarrow> timeout_vote list \<Rightarrow> timeout_collector" where
  "collect_timeouts vs votes = foldl (\<lambda>col v. snd (add_timeout_vote vs v col)) timeout_collector_new votes"

lemma collect_timeouts_snoc:
  "collect_timeouts vs (votes @ [v]) = snd (add_timeout_vote vs v (collect_timeouts vs votes))"
  by (simp add: collect_timeouts_def)

lemma collect_timeouts_ok: "timeouts_ok (set (vset_ids vs)) (collect_timeouts vs votes)"
  by (induction votes rule: rev_induct) (simp_all add: collect_timeouts_snoc add_timeout_vote_ok, simp add: collect_timeouts_def)

lemma timeout_choices_of_votes:
  "dict_get (tcol_choice_by_signer (collect_timeouts vs votes)) (h, r, s) = Some c \<Longrightarrow>
   \<exists>w\<in>set votes. tv_height w = h \<and> tv_round w = r \<and> tv_voter w = s \<and> timeout_choice w = c"
proof (induction votes rule: rev_induct)
  case Nil
  then show ?case by (simp add: collect_timeouts_def timeout_collector_new_def)
next
  case (snoc w votes)
  then show ?case
    by (cases rule: add_timeout_vote_cases [of vs w "collect_timeouts vs votes"])
      (auto simp: collect_timeouts_snoc restore_timeout_fields split: if_splits)
qed

text \<open>A timeout certificate is backed by a quorum and carries the highest quorum certificate any of its signers
  reported: one of them reported exactly it, and none reported a higher one.\<close>

theorem tc_carries_highest:
  assumes "vset_ok vs" "fst (add_timeout_vote vs v (collect_timeouts vs votes)) = Inr (Some t)"
  shows "tc_init t = Inr t \<and> has_quorum vs (tc_signers t) \<and> set (tc_signers t) \<subseteq> set (vset_ids vs) \<and>
    (\<forall>s\<in>set (tc_signers t). \<exists>w\<in>set (votes @ [v]). tv_voter w = s \<and> tv_height w = tc_height t \<and> tv_round w = tc_round t \<and>
       qc_rank (timeout_choice w) \<le> qc_rank (tc_high_qc_round t, tc_high_qc_hash t)) \<and>
    (\<exists>w\<in>set (votes @ [v]). tv_voter w \<in> set (tc_signers t) \<and> tv_height w = tc_height t \<and> tv_round w = tc_round t \<and>
       timeout_choice w = (tc_high_qc_round t, tc_high_qc_hash t))"
proof -
  let ?c = "collect_timeouts vs (votes @ [v])" and ?k = "(tv_height v, tv_round v)"
  let ?high = "dict_get_default (tcol_highest_by_round ?c) ?k (None, None)"
  have "add_timeout_vote vs v (collect_timeouts vs votes) = (Inr (Some t), ?c)"
    using assms(2) by (cases "add_timeout_vote vs v (collect_timeouts vs votes)") (simp add: collect_timeouts_snoc)
  then have init: "tc_init (make_tc v (timeout_signers ?c ?k) ?high) = Inr t" and quo: "has_quorum vs (timeout_signers ?c ?k)"
    by (auto simp: add_timeout_vote_def Let_def timeout_signers_def split: if_splits sum.splits)
  then have t: "t = make_tc v (timeout_signers ?c ?k) ?high"
    by (auto simp: tc_init_def split: if_splits)
  note ok = collect_timeouts_ok [of vs "votes @ [v]", unfolded timeouts_ok_def, rule_format, of "tv_height v" "tv_round v"]
  have "timeout_signers ?c ?k \<noteq> []"
    using quorum_nonempty [OF assms(1) quo quo] by auto
  then obtain c where c: "dict_get (tcol_highest_by_round ?c) ?k = Some c" using ok by (auto split: option.splits)
  then have high: "?high = c" by (simp add: dict_get_default_def)
  have rep: "\<exists>w\<in>set (votes @ [v]). tv_voter w = s \<and> tv_height w = tv_height v \<and> tv_round w = tv_round v \<and>
      dict_get (tcol_choice_by_signer ?c) (tv_height v, tv_round v, s) = Some (timeout_choice w)"
    if "s \<in> set (timeout_signers ?c ?k)" for s
  proof -
    from that ok obtain d where "dict_get (tcol_choice_by_signer ?c) (tv_height v, tv_round v, s) = Some d" by auto
    with timeout_choices_of_votes [OF this] show ?thesis by metis
  qed
  obtain s where s: "dict_get (tcol_choice_by_signer ?c) (tv_height v, tv_round v, s) = Some c" using ok c by auto
  then have s_in: "s \<in> set (timeout_signers ?c ?k)" using ok by auto
  have top: "\<And>s d. dict_get (tcol_choice_by_signer ?c) (tv_height v, tv_round v, s) = Some d \<Longrightarrow> qc_rank d \<le> qc_rank c"
    using ok c by auto
  have 1: "\<forall>s\<in>set (tc_signers t). \<exists>w\<in>set (votes @ [v]). tv_voter w = s \<and> tv_height w = tc_height t \<and> tv_round w = tc_round t \<and>
       qc_rank (timeout_choice w) \<le> qc_rank (tc_high_qc_round t, tc_high_qc_hash t)"
    using rep top unfolding t high by (fastforce simp: make_tc_def)
  have 2: "\<exists>w\<in>set (votes @ [v]). tv_voter w \<in> set (tc_signers t) \<and> tv_height w = tc_height t \<and> tv_round w = tc_round t \<and>
       timeout_choice w = (tc_high_qc_round t, tc_high_qc_hash t)"
    using rep [OF s_in] s s_in unfolding t high by (fastforce simp: make_tc_def)
  have 3: "tc_init t = Inr t" "has_quorum vs (tc_signers t)" "set (tc_signers t) \<subseteq> set (vset_ids vs)"
    using init t quo ok by (simp_all add: has_quorum_iff make_tc_def)
  show ?thesis using 1 2 3 by blast
qed

subsection \<open>Examples\<close>

definition sample_vote :: "crypto \<Rightarrow> string \<Rightarrow> byte \<Rightarrow> vote" where
  "sample_vote C voter b = \<lparr>vt_chain_id = 1, vt_epoch_id = 0, vt_height = 1, vt_round = 2, vt_voter = voter,
     vt_vset_hash = vs_hash (sample_vset C), vt_block_hash = replicate 32 b, vt_phase = COMMIT\<rparr>"

definition sample_timeout :: "crypto \<Rightarrow> string \<Rightarrow> int option \<Rightarrow> timeout_vote" where
  "sample_timeout C voter r = \<lparr>tv_chain_id = 1, tv_epoch_id = 0, tv_height = 1, tv_round = 2, tv_voter = voter,
     tv_vset_hash = vs_hash (sample_vset C), tv_high_qc_round = r, tv_high_qc_hash = None\<rparr>"

lemma sample_vset_ok: "vset_ok (sample_vset C)"
  using from_validators_ok [OF sample_vset] by blast

lemma sample_vset_hash32: "hash32 (vs_hash (sample_vset flat_crypto))"
  by (simp add: sample_vset_def vset_from_validators_def sample_validators_def Let_def compute_validator_set_hash_def
      hash_with_domain_def sha_hash32)

theorem one_certificate_per_round_witness:
  "\<exists>q. fst (add_vote (sample_vset flat_crypto) (sample_vote flat_crypto ''c'' 7)
       (collect (sample_vset flat_crypto) [sample_vote flat_crypto ''a'' 7, sample_vote flat_crypto ''b'' 7])) = Inr (Some q) \<and>
     qc_block_hash q = replicate 32 7 \<and> has_quorum (sample_vset flat_crypto) (qc_signers q)"
proof -
  let ?vs = "sample_vset flat_crypto" and ?v = "\<lambda>i. sample_vote flat_crypto i 7"
  define q where "q = make_qc (?v ''c'') [''c'', ''b'', ''a'']"
  have a: "fst (add_vote ?vs (?v ''c'') (collect ?vs [?v ''a'', ?v ''b''])) = Inr (Some q)"
    using sample_vset_hash32
    by (simp add: collect_def add_vote_def restore_vote_def vote_collector_new_def sample_vset_simps Let_def dict_get_default_def
        vote_signer_def vote_target_def sample_vote_def has_quorum_def qc_init_def make_qc_def hash32_def q_def)
  have b: "fst (add_vote ?vs (?v ''d'') (collect ?vs ([?v ''a'', ?v ''b''] @ [?v ''c''] @ []))) = Inr (Some (make_qc (?v ''d'') [''d'', ''c'', ''b'', ''a'']))"
    using sample_vset_hash32
    by (simp add: collect_def add_vote_def restore_vote_def vote_collector_new_def sample_vset_simps Let_def dict_get_default_def
        vote_signer_def vote_target_def sample_vote_def has_quorum_def qc_init_def make_qc_def hash32_def)
  show ?thesis
    using one_certificate_per_round [OF sample_vset_ok a b] a by (simp add: q_def make_qc_def sample_vote_def)
qed

theorem tc_carries_highest_witness:
  "\<exists>t. fst (add_timeout_vote (sample_vset flat_crypto) (sample_timeout flat_crypto ''c'' None)
       (collect_timeouts (sample_vset flat_crypto) [sample_timeout flat_crypto ''a'' (Some 1), sample_timeout flat_crypto ''b'' None])) = Inr (Some t) \<and>
     tc_init t = Inr t \<and> tc_high_qc_round t = Some 1"
proof -
  let ?vs = "sample_vset flat_crypto" and ?v = "sample_timeout flat_crypto"
  define t where "t = make_tc (?v ''c'' None) [''c'', ''b'', ''a''] (Some 1, None)"
  have a: "fst (add_timeout_vote ?vs (?v ''c'' None) (collect_timeouts ?vs [?v ''a'' (Some 1), ?v ''b'' None])) = Inr (Some t)"
    using sample_vset_hash32
    by (simp add: collect_timeouts_def add_timeout_vote_def restore_timeout_def timeout_collector_new_def sample_vset_simps Let_def
        dict_get_default_def timeout_choice_def sample_timeout_def has_quorum_def tc_init_def make_tc_def hash32_def hash32_opt_def
        negative_round_def is_higher_qc_ref_def t_def)
  show ?thesis
    using tc_carries_highest [OF sample_vset_ok a] a by (simp add: t_def make_tc_def)
qed

end
