(* ===== verification/Pacemaker.thy ===== *)
theory Pacemaker
  imports Prelude
begin

section \<open>The pacemaker (\<open>EZ_V2/consensus/pacemaker.py\<close>)\<close>

text \<open>
  The round a validator is in and the highest certificates it knows. Each operation returns a new state
  through the constructor's checks, and may raise.
\<close>

datatype pacemaker_error = RoundNotPositive | NegativeRound | NegativeCounter | BadTimeoutBounds

record pacemaker =
  pm_current_round :: int
  pm_highest_qc_round :: int
  pm_locked_qc_round :: int
  pm_highest_tc_round :: int
  pm_last_decided_round :: int
  pm_timeouts :: int
  pm_base_timeout :: int
  pm_max_timeout :: int

definition pacemaker_default :: pacemaker where
  "pacemaker_default = \<lparr>pm_current_round = 1, pm_highest_qc_round = 0, pm_locked_qc_round = 0, pm_highest_tc_round = 0,
     pm_last_decided_round = 0, pm_timeouts = 0, pm_base_timeout = 1000, pm_max_timeout = 16000\<rparr>"

definition pacemaker_init :: "pacemaker \<Rightarrow> pacemaker_error + pacemaker" where
  "pacemaker_init p =
     (if pm_current_round p \<le> 0 then Inl RoundNotPositive
      else if pm_highest_qc_round p < 0 \<or> pm_locked_qc_round p < 0 \<or> pm_highest_tc_round p < 0 then Inl NegativeRound
      else if pm_last_decided_round p < 0 \<or> pm_timeouts p < 0 then Inl NegativeCounter
      else if pm_base_timeout p \<le> 0 \<or> pm_max_timeout p < pm_base_timeout p then Inl BadTimeoutBounds
      else Inr p)"

definition current_timeout_ms :: "pacemaker \<Rightarrow> int" where
  "current_timeout_ms p = min (pm_base_timeout p * 2 ^ nat (pm_timeouts p)) (pm_max_timeout p)"

definition note_qc :: "pacemaker \<Rightarrow> int \<Rightarrow> int option \<Rightarrow> pacemaker_error + pacemaker" where
  "note_qc p qc_round lock_round =
     (if qc_round < 0 then Inl NegativeRound
      else
        let next_round = max (pm_current_round p) (qc_round + 1);
            next_lock_round = (case lock_round of None \<Rightarrow> pm_locked_qc_round p
                               | Some r \<Rightarrow> max (pm_locked_qc_round p) r)
        in pacemaker_init (p\<lparr>pm_current_round := next_round,
             pm_highest_qc_round := max (pm_highest_qc_round p) qc_round,
             pm_locked_qc_round := next_lock_round, pm_timeouts := 0\<rparr>))"

definition note_tc :: "pacemaker \<Rightarrow> int \<Rightarrow> pacemaker_error + pacemaker" where
  "note_tc p tc_round =
     (if tc_round < 0 then Inl NegativeRound
      else pacemaker_init (p\<lparr>pm_current_round := max (pm_current_round p) (tc_round + 1),
             pm_highest_tc_round := max (pm_highest_tc_round p) tc_round, pm_timeouts := 0\<rparr>))"

definition note_decide :: "pacemaker \<Rightarrow> int \<Rightarrow> pacemaker_error + pacemaker" where
  "note_decide p decided_round =
     (if decided_round < 0 then Inl NegativeRound
      else pacemaker_init (p\<lparr>pm_last_decided_round := max (pm_last_decided_round p) decided_round, pm_timeouts := 0\<rparr>))"

definition note_local_timeout :: "pacemaker \<Rightarrow> pacemaker_error + pacemaker" where
  "note_local_timeout p =
     pacemaker_init (p\<lparr>pm_current_round := pm_current_round p + 1, pm_timeouts := pm_timeouts p + 1\<rparr>)"

subsection \<open>Invariant and monotonicity\<close>

definition pacemaker_ok :: "pacemaker \<Rightarrow> bool" where
  "pacemaker_ok p \<longleftrightarrow> pacemaker_init p = Inr p \<and> pm_highest_qc_round p < pm_current_round p \<and>
     pm_highest_tc_round p < pm_current_round p \<and> pm_locked_qc_round p \<le> pm_highest_qc_round p"

lemma pacemaker_ok_iff:
  "pacemaker_ok p \<longleftrightarrow> 0 \<le> pm_highest_qc_round p \<and> 0 \<le> pm_locked_qc_round p \<and> 0 \<le> pm_highest_tc_round p \<and>
     0 \<le> pm_last_decided_round p \<and> 0 \<le> pm_timeouts p \<and> 0 < pm_base_timeout p \<and> pm_base_timeout p \<le> pm_max_timeout p \<and>
     pm_highest_qc_round p < pm_current_round p \<and> pm_highest_tc_round p < pm_current_round p \<and>
     pm_locked_qc_round p \<le> pm_highest_qc_round p"
  by (auto simp: pacemaker_ok_def pacemaker_init_def)

lemma pacemaker_default_ok [simp]: "pacemaker_ok pacemaker_default"
  by (simp add: pacemaker_ok_iff pacemaker_default_def)

definition later :: "pacemaker \<Rightarrow> pacemaker \<Rightarrow> bool" where
  "later p p' \<longleftrightarrow> pm_current_round p \<le> pm_current_round p' \<and> pm_highest_qc_round p \<le> pm_highest_qc_round p' \<and>
     pm_locked_qc_round p \<le> pm_locked_qc_round p' \<and> pm_highest_tc_round p \<le> pm_highest_tc_round p' \<and>
     pm_last_decided_round p \<le> pm_last_decided_round p' \<and> pm_base_timeout p' = pm_base_timeout p \<and>
     pm_max_timeout p' = pm_max_timeout p"

lemma later_refl [simp]: "later p p"
  by (simp add: later_def)

lemma later_trans: "later p q \<Longrightarrow> later q r \<Longrightarrow> later p r"
  by (simp add: later_def)

lemma note_qc_ok:
  assumes "pacemaker_ok p" "0 \<le> r" "\<And>l. lock = Some l \<Longrightarrow> 0 \<le> l \<and> l \<le> r"
  obtains p' where "note_qc p r lock = Inr p'" "pacemaker_ok p'" "later p p'" "r < pm_current_round p'"
    "pm_highest_qc_round p' = max (pm_highest_qc_round p) r" "pm_timeouts p' = 0"
    "pm_current_round p' = max (pm_current_round p) (r + 1)"
proof -
  let ?l = "case lock of None \<Rightarrow> pm_locked_qc_round p | Some l \<Rightarrow> max (pm_locked_qc_round p) l"
  let ?p = "p\<lparr>pm_current_round := max (pm_current_round p) (r + 1), pm_highest_qc_round := max (pm_highest_qc_round p) r,
      pm_locked_qc_round := ?l, pm_timeouts := 0\<rparr>"
  have p: "pm_locked_qc_round p \<le> pm_highest_qc_round p" "0 \<le> pm_locked_qc_round p" using assms(1) by (simp_all add: pacemaker_ok_iff)
  then have l: "pm_locked_qc_round p \<le> ?l" "?l \<le> max (pm_highest_qc_round p) r"
    using assms(3) by (cases lock; fastforce)+
  with p have "pacemaker_ok ?p" using assms(1,2) by (simp add: pacemaker_ok_iff) linarith
  moreover have "note_qc p r lock = Inr ?p"
    using \<open>pacemaker_ok ?p\<close> assms(2) by (simp add: note_qc_def Let_def pacemaker_ok_def)
  ultimately show ?thesis using l by (intro that [of ?p]) (auto simp: later_def)
qed

lemma note_tc_ok:
  assumes "pacemaker_ok p" "0 \<le> r"
  obtains p' where "note_tc p r = Inr p'" "pacemaker_ok p'" "later p p'" "r < pm_current_round p'" "pm_timeouts p' = 0"
  by (rule that [of "projr (note_tc p r)"])
    (use assms in \<open>auto simp: note_tc_def pacemaker_ok_iff pacemaker_init_def later_def\<close>)

lemma note_decide_ok:
  assumes "pacemaker_ok p" "0 \<le> r"
  obtains p' where "note_decide p r = Inr p'" "pacemaker_ok p'" "later p p'" "r \<le> pm_last_decided_round p'"
    "pm_current_round p' = pm_current_round p" "pm_timeouts p' = 0"
  using assms by (auto simp: note_decide_def pacemaker_ok_iff pacemaker_init_def later_def less_max_iff_disj le_max_iff_disj)

lemma note_local_timeout_ok:
  assumes "pacemaker_ok p"
  obtains p' where "note_local_timeout p = Inr p'" "pacemaker_ok p'" "later p p'"
    "pm_current_round p' = pm_current_round p + 1" "pm_timeouts p' = pm_timeouts p + 1"
  using assms by (auto simp: note_local_timeout_def pacemaker_ok_iff pacemaker_init_def later_def)

text \<open>One step of a pacemaker: what the consensus core and a driver call.\<close>

inductive pacemaker_step :: "pacemaker \<Rightarrow> pacemaker \<Rightarrow> bool" where
  qc: "note_qc p r lock = Inr p' \<Longrightarrow> \<forall>l. lock = Some l \<longrightarrow> 0 \<le> l \<and> l \<le> r \<Longrightarrow> pacemaker_step p p'"
| tc: "note_tc p r = Inr p' \<Longrightarrow> pacemaker_step p p'"
| decide: "note_decide p r = Inr p' \<Longrightarrow> pacemaker_step p p'"
| timeout: "note_local_timeout p = Inr p' \<Longrightarrow> pacemaker_step p p'"

lemma pacemaker_step_ok:
  assumes "pacemaker_step p p'" "pacemaker_ok p"
  shows "pacemaker_ok p' \<and> later p p'"
  using assms(1)
proof (cases rule: pacemaker_step.cases)
  case (qc r lock)
  then have "0 \<le> r" by (auto simp: note_qc_def split: if_splits)
  with qc show ?thesis using note_qc_ok [OF assms(2), of r lock] by fastforce
next
  case (tc r)
  then have "0 \<le> r" by (auto simp: note_tc_def split: if_splits)
  with tc show ?thesis using note_tc_ok [OF assms(2), of r] by fastforce
next
  case (decide r)
  then have "0 \<le> r" by (auto simp: note_decide_def split: if_splits)
  with decide show ?thesis using note_decide_ok [OF assms(2), of r] by fastforce
next
  case timeout
  then show ?thesis using note_local_timeout_ok [OF assms(2)] by fastforce
qed

text \<open>C28. A pacemaker never goes back. In every state reached from the default one, the current round is past
  every certificate seen, the lock is not above the highest quorum certificate, no round ever
  decreases, and the timeout lies between its base and its cap.\<close>

theorem pacemaker_monotone:
  assumes "pacemaker_step\<^sup>*\<^sup>* pacemaker_default p" "pacemaker_step\<^sup>*\<^sup>* p p'"
  shows "later p p' \<and> pm_highest_qc_round p' < pm_current_round p' \<and> pm_highest_tc_round p' < pm_current_round p' \<and>
    pm_locked_qc_round p' \<le> pm_highest_qc_round p' \<and>
    pm_base_timeout p' \<le> current_timeout_ms p' \<and> current_timeout_ms p' \<le> pm_max_timeout p'"
proof -
  have "pacemaker_ok p"
    using assms(1) by induction (auto dest: pacemaker_step_ok)
  with assms(2) have "pacemaker_ok p' \<and> later p p'"
  proof induction
    case (step y z)
    then show ?case using pacemaker_step_ok [of y z] later_trans [of p y z] by blast
  qed simp
  then show ?thesis
    by (auto simp: pacemaker_ok_iff current_timeout_ms_def min_def)
qed

theorem pacemaker_monotone_witness:
  "\<exists>p. note_local_timeout pacemaker_default = Inr p \<and> pm_current_round p = 2 \<and> current_timeout_ms p = 2000 \<and>
     pm_highest_qc_round p < pm_current_round p"
proof -
  obtain p where p: "note_local_timeout pacemaker_default = Inr p" "pm_current_round p = pm_current_round pacemaker_default + 1"
    using note_local_timeout_ok [OF pacemaker_default_ok] by metis
  from pacemaker_step.timeout [OF p(1)] have "pacemaker_step\<^sup>*\<^sup>* pacemaker_default p" by blast
  from pacemaker_monotone [OF rtranclp.rtrancl_refl this] p show ?thesis
    by (auto simp: note_local_timeout_def pacemaker_init_def pacemaker_default_def current_timeout_ms_def)
qed

text \<open>C29. Backing off is exponential and capped: after \<open>n\<close> local timeouts in a row the round has advanced by \<open>n\<close>
  and the timeout is the base doubled \<open>n\<close> times, or the cap if that is smaller, and it never shrinks
  while timeouts go on.\<close>

theorem timeout_backoff:
  assumes "pacemaker_ok p" "pm_timeouts p = 0"
  shows "\<exists>p'. ((\<lambda>r. res_bind r note_local_timeout) ^^ n) (Inr p) = Inr p' \<and>
    pm_current_round p' = pm_current_round p + int n \<and>
    current_timeout_ms p' = min (pm_base_timeout p * 2 ^ n) (pm_max_timeout p) \<and>
    current_timeout_ms p \<le> current_timeout_ms p'"
proof -
  have "\<exists>p'. ((\<lambda>r. res_bind r note_local_timeout) ^^ n) (Inr p) = Inr p' \<and> pacemaker_ok p' \<and>
    pm_current_round p' = pm_current_round p + int n \<and> pm_timeouts p' = int n \<and>
    pm_base_timeout p' = pm_base_timeout p \<and> pm_max_timeout p' = pm_max_timeout p"
  proof (induction n)
    case (Suc n)
    then obtain q where q: "((\<lambda>r. res_bind r note_local_timeout) ^^ n) (Inr p) = Inr q" "pacemaker_ok q"
      "pm_current_round q = pm_current_round p + int n" "pm_timeouts q = int n"
      "pm_base_timeout q = pm_base_timeout p" "pm_max_timeout q = pm_max_timeout p" by blast
    from q(2) show ?case
      by (rule note_local_timeout_ok) (use q in \<open>simp add: later_def\<close>)
  qed (use assms in simp)
  moreover have "pm_base_timeout p \<le> pm_base_timeout p * 2 ^ n"
    using assms(1) by (simp add: pacemaker_ok_iff)
  ultimately show ?thesis
    using assms by (auto simp: current_timeout_ms_def)
qed

theorem timeout_backoff_witness:
  "\<exists>p'. ((\<lambda>r. res_bind r note_local_timeout) ^^ 5) (Inr pacemaker_default) = Inr p' \<and> current_timeout_ms p' = 16000 \<and>
     pm_current_round p' = 6"
  using timeout_backoff [OF pacemaker_default_ok, of 5] by (auto simp: pacemaker_default_def)

end
