(* ===== verification/Consensus_Store.thy ===== *)
theory Consensus_Store
  imports Vote_Collector Pacemaker
begin

section \<open>The consensus store (\<open>EZ_V2/consensus/store.py\<close>)\<close>

text \<open>
  What a validator remembers: proposals, certificates, its pacemaker and the logs of votes and timeouts,
  in memory or in an SQLite database that also keeps an in-memory copy. A table with a primary key is
  a dict in row order (an upsert keeps the row, a new row comes last); \<open>with self._conn\<close> is one
  transaction. A JSON column holds the object that \<open>serde\<close> writes and reads back. The in-memory store is
  the specification: the contract \<open>durable_store\<close> says that a store behaves like it and that opening it
  again loses nothing, and both stores satisfy it.
\<close>

subsection \<open>In memory\<close>

type_synonym vote_log = "(vote_signer, bytes) dict"
type_synonym timeout_log = "(int \<times> int \<times> string, high_qc) dict"

record mem_store =
  ms_proposals :: "(bytes, proposal) dict"
  ms_qcs :: "(bytes, qc) dict"
  ms_tcs :: "(bytes, tc) dict"
  ms_highest_qc :: "qc option"
  ms_locked_qc :: "qc option"
  ms_pacemaker :: pacemaker
  ms_vote_log :: vote_log
  ms_timeout_log :: timeout_log

definition mem_store_new :: mem_store where
  "mem_store_new = \<lparr>ms_proposals = [], ms_qcs = [], ms_tcs = [], ms_highest_qc = None, ms_locked_qc = None,
     ms_pacemaker = pacemaker_default, ms_vote_log = [], ms_timeout_log = []\<rparr>"

fun phase_rank :: "vote_phase \<Rightarrow> int" where
  "phase_rank PREPARE = 1"
| "phase_rank PRECOMMIT = 2"
| "phase_rank COMMIT = 3"

definition is_higher_qc :: "qc \<Rightarrow> qc \<Rightarrow> bool" where
  "is_higher_qc candidate current =
     (if qc_round candidate \<noteq> qc_round current then qc_round current < qc_round candidate
      else phase_rank (qc_phase current) < phase_rank (qc_phase candidate))"

definition higher_of :: "qc option \<Rightarrow> qc \<Rightarrow> qc option" where
  "higher_of current q = (case current of None \<Rightarrow> Some q | Some c \<Rightarrow> if is_higher_qc q c then Some q else Some c)"

definition lock_of :: "qc option \<Rightarrow> qc \<Rightarrow> qc option" where
  "lock_of current q = (case current of None \<Rightarrow> Some q | Some c \<Rightarrow> if qc_round c \<le> qc_round q then Some q else Some c)"

definition mem_save_proposal :: "bytes \<Rightarrow> proposal \<Rightarrow> mem_store \<Rightarrow> mem_store" where
  "mem_save_proposal h p s = s\<lparr>ms_proposals := dict_set h p (ms_proposals s)\<rparr>"

definition mem_save_qc :: "bytes \<Rightarrow> qc \<Rightarrow> mem_store \<Rightarrow> mem_store" where
  "mem_save_qc h q s = s\<lparr>ms_qcs := dict_set h q (ms_qcs s), ms_highest_qc := higher_of (ms_highest_qc s) q\<rparr>"

definition mem_save_tc :: "bytes \<Rightarrow> tc \<Rightarrow> mem_store \<Rightarrow> mem_store" where
  "mem_save_tc h t s = s\<lparr>ms_tcs := dict_set h t (ms_tcs s)\<rparr>"

definition mem_update_locked_qc :: "qc \<Rightarrow> mem_store \<Rightarrow> mem_store" where
  "mem_update_locked_qc q s = s\<lparr>ms_locked_qc := lock_of (ms_locked_qc s) q\<rparr>"

definition mem_save_pacemaker :: "pacemaker \<Rightarrow> mem_store \<Rightarrow> mem_store" where
  "mem_save_pacemaker p s = s\<lparr>ms_pacemaker := p\<rparr>"

definition mem_save_vote :: "int \<Rightarrow> int \<Rightarrow> string \<Rightarrow> string \<Rightarrow> bytes \<Rightarrow> mem_store \<Rightarrow> mem_store" where
  "mem_save_vote height round phase voter block_hash s =
     s\<lparr>ms_vote_log := dict_set (height, round, phase, voter) block_hash (ms_vote_log s)\<rparr>"

definition mem_load_votes :: "mem_store \<Rightarrow> (int \<times> int \<times> string \<times> string \<times> bytes) list" where
  "mem_load_votes s = map (\<lambda>((h, r, p, v), b). (h, r, p, v, b)) (ms_vote_log s)"

definition mem_prune_votes :: "int \<Rightarrow> mem_store \<Rightarrow> mem_store" where
  "mem_prune_votes keep_round s =
     s\<lparr>ms_vote_log := fold dict_pop (map fst (filter (\<lambda>((_, r, _, _), _). r < keep_round) (ms_vote_log s))) (ms_vote_log s)\<rparr>"

definition mem_save_timeout :: "int \<Rightarrow> int \<Rightarrow> string \<Rightarrow> high_qc \<Rightarrow> mem_store \<Rightarrow> mem_store" where
  "mem_save_timeout height round voter choice s =
     s\<lparr>ms_timeout_log := dict_set (height, round, voter) choice (ms_timeout_log s)\<rparr>"

definition mem_load_timeouts :: "mem_store \<Rightarrow> (int \<times> int \<times> string \<times> high_qc) list" where
  "mem_load_timeouts s = map (\<lambda>((h, r, v), c). (h, r, v, c)) (ms_timeout_log s)"

definition mem_prune_timeouts :: "int \<Rightarrow> mem_store \<Rightarrow> mem_store" where
  "mem_prune_timeouts keep_round s =
     s\<lparr>ms_timeout_log := fold dict_pop (map fst (filter (\<lambda>((_, r, _), _). r < keep_round) (ms_timeout_log s))) (ms_timeout_log s)\<rparr>"

record persisted_state =
  ps_pacemaker :: pacemaker
  ps_highest_qc :: "qc option"
  ps_locked_qc :: "qc option"

definition mem_load_persisted :: "mem_store \<Rightarrow> persisted_state" where
  "mem_load_persisted s =
     \<lparr>ps_pacemaker = ms_pacemaker s, ps_highest_qc = ms_highest_qc s, ps_locked_qc = ms_locked_qc s\<rparr>"

subsection \<open>In SQLite\<close>

record sqlite_db =
  db_runtime_state :: "(pacemaker \<times> bytes option \<times> bytes option) option"
  db_proposals :: "(bytes, proposal) dict"
  db_qcs :: "(bytes, qc) dict"
  db_tcs :: "(bytes, tc) dict"
  db_vote_log :: vote_log
  db_timeout_log :: timeout_log

definition sqlite_db_new :: sqlite_db where
  \<comment> \<open>The tables after \<open>_init_schema\<close> on a new file.\<close>
  "sqlite_db_new = \<lparr>db_runtime_state = None, db_proposals = [], db_qcs = [], db_tcs = [], db_vote_log = [], db_timeout_log = []\<rparr>"

record sqlite_store =
  sq_db :: sqlite_db
  sq_proposals :: "(bytes, proposal) dict"
  sq_qcs :: "(bytes, qc) dict"
  sq_tcs :: "(bytes, tc) dict"
  sq_highest_qc :: "qc option"
  sq_locked_qc :: "qc option"
  sq_pacemaker :: pacemaker

definition sqlite_open :: "sqlite_db \<Rightarrow> sqlite_store" where
  \<comment> \<open>\<open>__init__\<close> with \<open>_load_into_memory\<close>\<close>
  "sqlite_open db =
     (let s = \<lparr>sq_db = db, sq_proposals = db_proposals db, sq_qcs = db_qcs db, sq_tcs = db_tcs db,
        sq_highest_qc = None, sq_locked_qc = None, sq_pacemaker = pacemaker_default\<rparr>
      in case db_runtime_state db of
           None \<Rightarrow> s
         | Some (pacemaker, highest_qc_hash, locked_qc_hash) \<Rightarrow>
             s\<lparr>sq_pacemaker := pacemaker,
               sq_highest_qc := (case highest_qc_hash of None \<Rightarrow> None | Some h \<Rightarrow> dict_get (sq_qcs s) h),
               sq_locked_qc := (case locked_qc_hash of None \<Rightarrow> None | Some h \<Rightarrow> dict_get (sq_qcs s) h)\<rparr>)"

definition find_hash_for_value :: "(bytes, 'v) dict \<Rightarrow> 'v \<Rightarrow> bytes option" where
  "find_hash_for_value items target = map_option fst (find (\<lambda>(_, item). item = target) items)"

definition sqlite_persist :: "sqlite_store \<Rightarrow> sqlite_store" where
  \<comment> \<open>\<open>_persist_runtime_state\<close>\<close>
  "sqlite_persist s =
     (let hash_of = (\<lambda>q. case q of None \<Rightarrow> None | Some q \<Rightarrow> find_hash_for_value (sq_qcs s) q)
      in s\<lparr>sq_db := (sq_db s)\<lparr>db_runtime_state :=
             Some (sq_pacemaker s, hash_of (sq_highest_qc s), hash_of (sq_locked_qc s))\<rparr>\<rparr>)"

definition sqlite_save_proposal :: "bytes \<Rightarrow> proposal \<Rightarrow> sqlite_store \<Rightarrow> sqlite_store" where
  "sqlite_save_proposal h p s = s\<lparr>sq_proposals := dict_set h p (sq_proposals s),
     sq_db := (sq_db s)\<lparr>db_proposals := dict_set h p (db_proposals (sq_db s))\<rparr>\<rparr>"

definition sqlite_save_qc :: "bytes \<Rightarrow> qc \<Rightarrow> sqlite_store \<Rightarrow> sqlite_store" where
  "sqlite_save_qc h q s = sqlite_persist (s\<lparr>sq_qcs := dict_set h q (sq_qcs s),
     sq_highest_qc := higher_of (sq_highest_qc s) q,
     sq_db := (sq_db s)\<lparr>db_qcs := dict_set h q (db_qcs (sq_db s))\<rparr>\<rparr>)"

definition sqlite_save_tc :: "bytes \<Rightarrow> tc \<Rightarrow> sqlite_store \<Rightarrow> sqlite_store" where
  "sqlite_save_tc h t s = sqlite_persist (s\<lparr>sq_tcs := dict_set h t (sq_tcs s),
     sq_db := (sq_db s)\<lparr>db_tcs := dict_set h t (db_tcs (sq_db s))\<rparr>\<rparr>)"

definition sqlite_update_locked_qc :: "qc \<Rightarrow> sqlite_store \<Rightarrow> sqlite_store" where
  "sqlite_update_locked_qc q s = sqlite_persist (s\<lparr>sq_locked_qc := lock_of (sq_locked_qc s) q\<rparr>)"

definition sqlite_save_pacemaker :: "pacemaker \<Rightarrow> sqlite_store \<Rightarrow> sqlite_store" where
  "sqlite_save_pacemaker p s = sqlite_persist (s\<lparr>sq_pacemaker := p\<rparr>)"

definition sqlite_save_vote :: "int \<Rightarrow> int \<Rightarrow> string \<Rightarrow> string \<Rightarrow> bytes \<Rightarrow> sqlite_store \<Rightarrow> sqlite_store" where
  "sqlite_save_vote height round phase voter block_hash s =
     s\<lparr>sq_db := (sq_db s)\<lparr>db_vote_log := dict_set (height, round, phase, voter) block_hash (db_vote_log (sq_db s))\<rparr>\<rparr>"

definition sqlite_load_votes :: "sqlite_store \<Rightarrow> (int \<times> int \<times> string \<times> string \<times> bytes) list" where
  "sqlite_load_votes s = map (\<lambda>((h, r, p, v), b). (h, r, p, v, b)) (db_vote_log (sq_db s))"

definition sqlite_prune_votes :: "int \<Rightarrow> sqlite_store \<Rightarrow> sqlite_store" where
  "sqlite_prune_votes keep_round s =
     s\<lparr>sq_db := (sq_db s)\<lparr>db_vote_log := filter (\<lambda>((_, r, _, _), _). \<not> r < keep_round) (db_vote_log (sq_db s))\<rparr>\<rparr>"

definition sqlite_save_timeout :: "int \<Rightarrow> int \<Rightarrow> string \<Rightarrow> high_qc \<Rightarrow> sqlite_store \<Rightarrow> sqlite_store" where
  "sqlite_save_timeout height round voter choice s =
     s\<lparr>sq_db := (sq_db s)\<lparr>db_timeout_log := dict_set (height, round, voter) choice (db_timeout_log (sq_db s))\<rparr>\<rparr>"

definition sqlite_load_timeouts :: "sqlite_store \<Rightarrow> (int \<times> int \<times> string \<times> high_qc) list" where
  "sqlite_load_timeouts s = map (\<lambda>((h, r, v), c). (h, r, v, c)) (db_timeout_log (sq_db s))"

definition sqlite_prune_timeouts :: "int \<Rightarrow> sqlite_store \<Rightarrow> sqlite_store" where
  "sqlite_prune_timeouts keep_round s =
     s\<lparr>sq_db := (sq_db s)\<lparr>db_timeout_log := filter (\<lambda>((_, r, _), _). \<not> r < keep_round) (db_timeout_log (sq_db s))\<rparr>\<rparr>"

definition sqlite_load_persisted :: "sqlite_store \<Rightarrow> persisted_state" where
  "sqlite_load_persisted s =
     \<lparr>ps_pacemaker = sq_pacemaker s, ps_highest_qc = sq_highest_qc s, ps_locked_qc = sq_locked_qc s\<rparr>"

subsection \<open>A method call on either store\<close>

datatype store_op =
    SaveProposal bytes proposal
  | SaveQc bytes qc
  | SaveTc bytes tc
  | UpdateLockedQc qc
  | SavePacemaker pacemaker
  | SaveVote int int string string bytes
  | PruneVotes int
  | SaveTimeout int int string high_qc
  | PruneTimeouts int

fun mem_apply :: "store_op \<Rightarrow> mem_store \<Rightarrow> mem_store" where
  "mem_apply (SaveProposal h p) s = mem_save_proposal h p s"
| "mem_apply (SaveQc h q) s = mem_save_qc h q s"
| "mem_apply (SaveTc h t) s = mem_save_tc h t s"
| "mem_apply (UpdateLockedQc q) s = mem_update_locked_qc q s"
| "mem_apply (SavePacemaker p) s = mem_save_pacemaker p s"
| "mem_apply (SaveVote h r p v b) s = mem_save_vote h r p v b s"
| "mem_apply (PruneVotes k) s = mem_prune_votes k s"
| "mem_apply (SaveTimeout h r v c) s = mem_save_timeout h r v c s"
| "mem_apply (PruneTimeouts k) s = mem_prune_timeouts k s"

fun sqlite_apply :: "store_op \<Rightarrow> sqlite_store \<Rightarrow> sqlite_store" where
  "sqlite_apply (SaveProposal h p) s = sqlite_save_proposal h p s"
| "sqlite_apply (SaveQc h q) s = sqlite_save_qc h q s"
| "sqlite_apply (SaveTc h t) s = sqlite_save_tc h t s"
| "sqlite_apply (UpdateLockedQc q) s = sqlite_update_locked_qc q s"
| "sqlite_apply (SavePacemaker p) s = sqlite_save_pacemaker p s"
| "sqlite_apply (SaveVote h r p v b) s = sqlite_save_vote h r p v b s"
| "sqlite_apply (PruneVotes k) s = sqlite_prune_votes k s"
| "sqlite_apply (SaveTimeout h r v c) s = sqlite_save_timeout h r v c s"
| "sqlite_apply (PruneTimeouts k) s = sqlite_prune_timeouts k s"

datatype consensus_store = MemoryStore mem_store | SqliteStore sqlite_store

fun store_apply :: "store_op \<Rightarrow> consensus_store \<Rightarrow> consensus_store" where
  "store_apply op (MemoryStore s) = MemoryStore (mem_apply op s)"
| "store_apply op (SqliteStore s) = SqliteStore (sqlite_apply op s)"

fun store_reopen :: "consensus_store \<Rightarrow> consensus_store" where
  \<comment> \<open>A restarted core is handed the same in-memory object, or opens the database file again.\<close>
  "store_reopen (MemoryStore s) = MemoryStore s"
| "store_reopen (SqliteStore s) = SqliteStore (sqlite_open (sq_db s))"

fun store_load_persisted :: "consensus_store \<Rightarrow> persisted_state" where
  "store_load_persisted (MemoryStore s) = mem_load_persisted s"
| "store_load_persisted (SqliteStore s) = sqlite_load_persisted s"

fun store_load_votes :: "consensus_store \<Rightarrow> (int \<times> int \<times> string \<times> string \<times> bytes) list" where
  "store_load_votes (MemoryStore s) = mem_load_votes s"
| "store_load_votes (SqliteStore s) = sqlite_load_votes s"

fun store_load_timeouts :: "consensus_store \<Rightarrow> (int \<times> int \<times> string \<times> high_qc) list" where
  "store_load_timeouts (MemoryStore s) = mem_load_timeouts s"
| "store_load_timeouts (SqliteStore s) = sqlite_load_timeouts s"

subsection \<open>The contract\<close>

text \<open>
  What a caller must see to: a hash names one certificate, and a lock is taken only on a saved one.
\<close>

fun op_ok :: "store_op \<Rightarrow> mem_store \<Rightarrow> bool" where
  "op_ok (SaveQc h q) s \<longleftrightarrow> dict_get (ms_qcs s) h = None \<or> dict_get (ms_qcs s) h = Some q"
| "op_ok (UpdateLockedQc q) s \<longleftrightarrow> q \<in> ran (dict_get (ms_qcs s))"
| "op_ok _ s \<longleftrightarrow> True"

locale durable_store =
  fixes ok :: "'s \<Rightarrow> bool"
    and view :: "'s \<Rightarrow> mem_store"
    and run_op :: "store_op \<Rightarrow> 's \<Rightarrow> 's"
    and reopen :: "'s \<Rightarrow> 's"
  assumes view_op: "ok s \<Longrightarrow> view (run_op op s) = mem_apply op (view s)"
    and ok_op: "ok s \<Longrightarrow> op_ok op (view s) \<Longrightarrow> ok (run_op op s)"
    and view_reopen: "ok s \<Longrightarrow> view (reopen s) = view s"
    and ok_reopen: "ok s \<Longrightarrow> ok (reopen s)"
begin

definition event :: "store_op option \<Rightarrow> 's \<Rightarrow> 's" where
  \<comment> \<open>a method call, or a restart\<close>
  "event e s = (case e of None \<Rightarrow> reopen s | Some op \<Rightarrow> run_op op s)"

lemma survives:
  assumes "ok s" "\<And>before op after. events = before @ Some op # after \<Longrightarrow>
      op_ok op (fold mem_apply (List.map_filter id before) (view s))"
  shows "view (fold event events s) = fold mem_apply (List.map_filter id events) (view s) \<and> ok (fold event events s)"
  using assms
proof (induction events arbitrary: s)
  case (Cons e events)
  define calls :: "store_op option list \<Rightarrow> store_op list" where "calls = List.map_filter id"
  have calls: "calls [] = []" "calls (x # xs) = (case x of None \<Rightarrow> calls xs | Some op \<Rightarrow> op # calls xs)" for x xs
    by (cases x; simp add: calls_def List.map_filter_simps)+
  note prems = Cons.prems [folded calls_def]
  have s': "ok (event e s)" "view (event e s) = fold mem_apply (calls [e]) (view s)"
    using prems(1) prems(2) [of "[]" _ events] by (cases e; simp add: event_def view_reopen ok_reopen view_op ok_op calls)+
  have "op_ok op (fold mem_apply (calls before) (view (event e s)))" if "events = before @ Some op # after" for before op after
    using prems(2) [of "e # before" op after] that s'(2) by (cases e) (simp_all add: calls)
  from Cons.IH [folded calls_def, OF s'(1) this] s'(2) show ?case unfolding calls_def [symmetric] by (cases e) (simp_all add: calls)
qed (simp add: List.map_filter_simps)

end

subsection \<open>Both stores satisfy it\<close>

definition sqlite_view :: "sqlite_store \<Rightarrow> mem_store" where
  "sqlite_view s = \<lparr>ms_proposals = sq_proposals s, ms_qcs = sq_qcs s, ms_tcs = sq_tcs s, ms_highest_qc = sq_highest_qc s,
     ms_locked_qc = sq_locked_qc s, ms_pacemaker = sq_pacemaker s, ms_vote_log = db_vote_log (sq_db s),
     ms_timeout_log = db_timeout_log (sq_db s)\<rparr>"

definition saved :: "(bytes, qc) dict \<Rightarrow> qc option \<Rightarrow> bool" where
  "saved qcs q \<longleftrightarrow> (case q of None \<Rightarrow> True | Some q \<Rightarrow> q \<in> ran (dict_get qcs))"

definition hash_in :: "(bytes, qc) dict \<Rightarrow> qc option \<Rightarrow> bytes option" where
  "hash_in qcs q = (case q of None \<Rightarrow> None | Some q \<Rightarrow> find_hash_for_value qcs q)"

definition sqlite_ok :: "sqlite_store \<Rightarrow> bool" where
  \<comment> \<open>Memory mirrors the tables, and the runtime row names what is in memory.\<close>
  "sqlite_ok s \<longleftrightarrow> db_proposals (sq_db s) = sq_proposals s \<and> db_qcs (sq_db s) = sq_qcs s \<and> db_tcs (sq_db s) = sq_tcs s \<and>
     dict_ok (sq_qcs s) \<and> saved (sq_qcs s) (sq_highest_qc s) \<and> saved (sq_qcs s) (sq_locked_qc s) \<and>
     (case db_runtime_state (sq_db s) of
        None \<Rightarrow> sq_pacemaker s = pacemaker_default \<and> sq_highest_qc s = None \<and> sq_locked_qc s = None
      | Some row \<Rightarrow> fst row = sq_pacemaker s \<and> fst (snd row) = hash_in (sq_qcs s) (sq_highest_qc s) \<and>
          snd (snd row) = hash_in (sq_qcs s) (sq_locked_qc s))"

lemma fold_pop_filter: "fold dict_pop ks d = filter (\<lambda>(k, _). k \<notin> set ks) d"
  by (induction ks arbitrary: d) (auto simp: AList.delete_eq intro!: filter_cong)

lemma prune_filter: "fold dict_pop (map fst (filter (\<lambda>(k, _). P k) d)) d = filter (\<lambda>(k, _). \<not> P k) d"
  unfolding fold_pop_filter by (rule filter_cong) force+

lemma prune_logs:
  "ms_vote_log (mem_prune_votes k s) = filter (\<lambda>((_, r, _, _), _). \<not> r < k) (ms_vote_log s)"
  "ms_timeout_log (mem_prune_timeouts k s) = filter (\<lambda>((_, r, _), _). \<not> r < k) (ms_timeout_log s)"
  using prune_filter [of "\<lambda>(_, r, _, _). r < k" "ms_vote_log s"] prune_filter [of "\<lambda>(_, r, _). r < k" "ms_timeout_log s"]
  by (simp_all add: mem_prune_votes_def mem_prune_timeouts_def case_prod_unfold)

lemma find_hash_get:
  assumes "dict_ok d" "v \<in> ran (dict_get d)"
  shows "\<exists>h. find_hash_for_value d v = Some h \<and> dict_get d h = Some v"
proof -
  obtain k where "(k, v) \<in> set d" using assms(2) by (auto simp: ran_def dest: map_of_SomeD)
  then obtain kv where f: "find (\<lambda>(_, item). item = v) d = Some kv"
    by (cases "find (\<lambda>(_, item). item = v) d") (auto simp: find_None_iff)
  then have "kv \<in> set d" "snd kv = v" by (auto simp: find_Some_iff case_prod_unfold)
  moreover from this have "dict_get d (fst kv) = Some v"
    using assms(1) by (auto simp: dict_ok_def intro: map_of_is_SomeI)
  ultimately show ?thesis using f by (auto simp: find_hash_for_value_def)
qed

lemma hash_in_get: "dict_ok d \<Longrightarrow> saved d q \<Longrightarrow> (case hash_in d q of None \<Rightarrow> None | Some h \<Rightarrow> dict_get d h) = q"
  using find_hash_get [of d] by (auto simp: saved_def hash_in_def split: option.splits) fastforce

lemma sqlite_persist_ok:
  "sqlite_view (sqlite_persist s) = sqlite_view s"
  "db_proposals (sq_db s) = sq_proposals s \<Longrightarrow> db_qcs (sq_db s) = sq_qcs s \<Longrightarrow> db_tcs (sq_db s) = sq_tcs s \<Longrightarrow>
   dict_ok (sq_qcs s) \<Longrightarrow> saved (sq_qcs s) (sq_highest_qc s) \<Longrightarrow> saved (sq_qcs s) (sq_locked_qc s) \<Longrightarrow>
   sqlite_ok (sqlite_persist s)"
  by (simp_all add: sqlite_persist_def sqlite_view_def sqlite_ok_def hash_in_def Let_def)

lemma sqlite_view_apply: "sqlite_view (sqlite_apply op s) = mem_apply op (sqlite_view s)"
proof (cases op)
  case (PruneVotes k)
  have "sqlite_view (sqlite_prune_votes k s) = mem_prune_votes k (sqlite_view s)"
    by (rule mem_store.equality) (simp_all add: prune_logs, simp_all add: sqlite_view_def sqlite_prune_votes_def mem_prune_votes_def)
  then show ?thesis by (simp add: PruneVotes)
next
  case (PruneTimeouts k)
  have "sqlite_view (sqlite_prune_timeouts k s) = mem_prune_timeouts k (sqlite_view s)"
    by (rule mem_store.equality) (simp_all add: prune_logs, simp_all add: sqlite_view_def sqlite_prune_timeouts_def mem_prune_timeouts_def)
  then show ?thesis by (simp add: PruneTimeouts)
qed (simp_all add: sqlite_save_proposal_def sqlite_save_qc_def sqlite_save_tc_def sqlite_update_locked_qc_def
    sqlite_save_pacemaker_def sqlite_save_vote_def sqlite_save_timeout_def sqlite_persist_ok,
    simp_all add: sqlite_view_def mem_save_proposal_def mem_save_qc_def mem_save_tc_def mem_update_locked_qc_def
    mem_save_pacemaker_def mem_save_vote_def mem_save_timeout_def)

lemma saved_set:
  assumes "dict_get d h = None \<or> dict_get d h = Some q" "saved d x"
  shows "saved (dict_set h q d) x" "saved (dict_set h q d) (higher_of x q)"
proof -
  have sub: "ran (dict_get d) \<subseteq> ran (dict_get (dict_set h q d))" "q \<in> ran (dict_get (dict_set h q d))"
    using assms(1) by (auto simp: pydict.get_put ran_map_upd) (auto simp: ran_def, metis option.distinct(1), metis option.inject)
  with assms(2) show "saved (dict_set h q d) x" "saved (dict_set h q d) (higher_of x q)"
    by (auto simp: saved_def higher_of_def split: option.splits)
qed

lemma sqlite_ok_apply:
  assumes "sqlite_ok s" "op_ok op (sqlite_view s)"
  shows "sqlite_ok (sqlite_apply op s)"
proof (cases op)
  case (SaveQc h q)
  then show ?thesis using assms saved_set [of "sq_qcs s" h q]
    by (simp add: sqlite_save_qc_def) (rule sqlite_persist_ok; simp add: sqlite_ok_def sqlite_view_def dict_ok_update)
next
  case (UpdateLockedQc q)
  then show ?thesis using assms
    by (simp add: sqlite_update_locked_qc_def)
      (rule sqlite_persist_ok; auto simp: sqlite_ok_def sqlite_view_def saved_def lock_of_def split: option.splits)
next
  case (SaveTc h t)
  then show ?thesis using assms
    by (simp add: sqlite_save_tc_def) (rule sqlite_persist_ok; simp add: sqlite_ok_def)
next
  case (SavePacemaker p)
  then show ?thesis using assms
    by (simp add: sqlite_save_pacemaker_def) (rule sqlite_persist_ok; simp add: sqlite_ok_def)
qed (use assms in \<open>auto simp: sqlite_ok_def sqlite_save_proposal_def sqlite_save_vote_def sqlite_prune_votes_def
    sqlite_save_timeout_def sqlite_prune_timeouts_def split: option.splits\<close>)

lemma sqlite_open_fields:
  "sq_db (sqlite_open db) = db" "sq_proposals (sqlite_open db) = db_proposals db" "sq_qcs (sqlite_open db) = db_qcs db"
  "sq_tcs (sqlite_open db) = db_tcs db"
  "sq_pacemaker (sqlite_open db) = (case db_runtime_state db of None \<Rightarrow> pacemaker_default | Some row \<Rightarrow> fst row)"
  "sq_highest_qc (sqlite_open db) = Option.bind (db_runtime_state db) (\<lambda>row. Option.bind (fst (snd row)) (dict_get (db_qcs db)))"
  "sq_locked_qc (sqlite_open db) = Option.bind (db_runtime_state db) (\<lambda>row. Option.bind (snd (snd row)) (dict_get (db_qcs db)))"
  by (auto simp: sqlite_open_def Let_def split: option.split)

lemma sqlite_reopen:
  assumes "sqlite_ok s"
  shows "sqlite_open (sq_db s) = s"
proof -
  have get: "Option.bind (hash_in (sq_qcs s) q) (dict_get (sq_qcs s)) = q" if "saved (sq_qcs s) q" for q
    using hash_in_get [OF _ that] assms by (cases "hash_in (sq_qcs s) q") (simp_all add: sqlite_ok_def)
  show ?thesis
    by (rule sqlite_store.equality) (use assms get in \<open>auto simp: sqlite_open_fields sqlite_ok_def split: option.splits\<close>)
qed

interpretation sqlite: durable_store sqlite_ok sqlite_view sqlite_apply "\<lambda>s. sqlite_open (sq_db s)"
  by unfold_locales (simp_all add: sqlite_view_apply sqlite_ok_apply sqlite_reopen)

fun store_view :: "consensus_store \<Rightarrow> mem_store" where
  "store_view (MemoryStore s) = s"
| "store_view (SqliteStore s) = sqlite_view s"

fun store_ok :: "consensus_store \<Rightarrow> bool" where
  "store_ok (MemoryStore s) \<longleftrightarrow> True"
| "store_ok (SqliteStore s) \<longleftrightarrow> sqlite_ok s"

interpretation cstore: durable_store store_ok store_view store_apply store_reopen
proof unfold_locales
  fix s op
  assume ok: "store_ok s"
  show "store_view (store_apply op s) = mem_apply op (store_view s)" by (cases s) (simp_all add: sqlite_view_apply)
  show "store_view (store_reopen s) = store_view s" "store_ok (store_reopen s)" using ok by (cases s; simp add: sqlite_reopen)+
  show "store_ok (store_apply op s)" if "op_ok op (store_view s)" using ok that by (cases s) (simp_all add: sqlite_ok_apply)
qed

lemma store_loads:
  "store_load_persisted s = mem_load_persisted (store_view s)" "store_load_votes s = mem_load_votes (store_view s)"
  "store_load_timeouts s = mem_load_timeouts (store_view s)"
  by (cases s; simp add: mem_load_persisted_def sqlite_load_persisted_def mem_load_votes_def sqlite_load_votes_def
      mem_load_timeouts_def sqlite_load_timeouts_def sqlite_view_def)+

lemma sqlite_new_ok: "sqlite_ok (sqlite_open sqlite_db_new)" "sqlite_view (sqlite_open sqlite_db_new) = mem_store_new"
  by (simp_all add: sqlite_open_def sqlite_db_new_def sqlite_ok_def saved_def sqlite_view_def mem_store_new_def)

text \<open>The contract is needed: a lock on a certificate that was never saved holds until the file is opened again.\<close>

lemma unsaved_lock_is_lost:
  assumes "s = sqlite_update_locked_qc q (sqlite_open sqlite_db_new)"
  shows "ps_locked_qc (sqlite_load_persisted s) = Some q \<and> ps_locked_qc (sqlite_load_persisted (sqlite_open (sq_db s))) = None"
  by (simp add: assms sqlite_update_locked_qc_def sqlite_persist_def sqlite_open_def sqlite_db_new_def sqlite_load_persisted_def
      find_hash_for_value_def lock_of_def)

text \<open>C31. The SQLite store is the in-memory store, restarts included, for a caller that keeps the store's contract: a
  certificate is saved under a hash that is free or already its own, and the lock is updated only to a certificate saved before.
  After any sequence of such calls on a store over a new database (all other methods with any arguments), with the file
  closed and opened again any number of times in between, the proposals, certificates, lock, pacemaker and logs it shows and
  loads are those of an in-memory store after the same calls, and opening the file once more changes nothing.\<close>

theorem sqlite_store_survives:
  assumes "\<And>before op after. events = before @ Some op # after \<Longrightarrow> op_ok op (fold mem_apply (List.map_filter id before) mem_store_new)"
    and "s = fold (\<lambda>e s. case e of None \<Rightarrow> sqlite_open (sq_db s) | Some op \<Rightarrow> sqlite_apply op s) events (sqlite_open sqlite_db_new)"
    and "m = fold mem_apply (List.map_filter id events) mem_store_new"
  shows "sq_proposals s = ms_proposals m \<and> sq_qcs s = ms_qcs m \<and> sq_tcs s = ms_tcs m \<and>
    sqlite_load_persisted s = mem_load_persisted m \<and> sqlite_load_votes s = mem_load_votes m \<and>
    sqlite_load_timeouts s = mem_load_timeouts m \<and> sqlite_open (sq_db s) = s"
proof -
  have "sqlite.event = (\<lambda>e s. case e of None \<Rightarrow> sqlite_open (sq_db s) | Some op \<Rightarrow> sqlite_apply op s)"
    by (intro ext) (simp add: sqlite.event_def)
  with sqlite.survives [OF sqlite_new_ok(1), unfolded sqlite_new_ok(2), of events] assms
  have "sqlite_view s = m" "sqlite_ok s" by simp_all
  then show ?thesis
    using store_loads [of "SqliteStore s"] sqlite_reopen by (auto simp: sqlite_view_def)
qed

theorem sqlite_store_survives_witness:
  "\<exists>s. s = fold (\<lambda>e s. case e of None \<Rightarrow> sqlite_open (sq_db s) | Some op \<Rightarrow> sqlite_apply op s)
       [Some (SaveQc [1] sample_qc), Some (UpdateLockedQc sample_qc), None, Some (SaveVote 1 2 ''commit'' ''a'' [7]), None] (sqlite_open sqlite_db_new) \<and>
     ps_locked_qc (sqlite_load_persisted s) = Some sample_qc \<and> sqlite_load_votes s = [(1, 2, ''commit'', ''a'', [7])]"
proof -
  let ?evs = "[Some (SaveQc [1] sample_qc), Some (UpdateLockedQc sample_qc), None, Some (SaveVote 1 2 ''commit'' ''a'' [7]), None]"
  have "op_ok op (fold mem_apply (List.map_filter id before) mem_store_new)" if "?evs = before @ Some op # after" for before op after
    using that by (auto simp: Cons_eq_append_conv List.map_filter_simps mem_store_new_def mem_save_qc_def)
  from sqlite_store_survives [where events = ?evs, OF this refl refl] show ?thesis
    by (simp add: List.map_filter_simps mem_store_new_def mem_save_qc_def mem_update_locked_qc_def mem_save_vote_def
        mem_load_persisted_def mem_load_votes_def lock_of_def)
qed

end
