(* ===== verification/Consensus_Core.thy ===== *)
theory Consensus_Core
  imports Consensus_Store
begin

section \<open>The consensus core (\<open>EZ_V2/consensus/core.py\<close>)\<close>

text \<open>
  One validator's part of the protocol: it checks proposals, votes, gathers votes and timeouts, and keeps
  its store and pacemaker up to date. Every method returns its result or error and the core as it is then.
  The core never checks a signature or a certificate's signers; the network above it does what it does.
\<close>

datatype core_error =
    NegativeChainOrEpoch
  | LocalNotInSet
  | ChainOrEpochMismatch
  | ProposalSetMismatch
  | ProposerNotInSet
  | StaleRound
  | JustifyMissing
  | JustifyHashMismatch
  | JustifySetMismatch
  | JustifyBelowLock
  | AlreadyVoted
  | HeightOrRoundNotPositive
  | AlreadyTimedOut
  | PacemakerRefused pacemaker_error
  | CollectorRefused collector_error
  | BadMessage ctype_error

record core =
  co_chain_id :: int
  co_epoch_id :: int
  co_local :: string
  co_vset :: validator_set
  co_store :: consensus_store
  co_pacemaker :: pacemaker
  co_votes :: vote_collector
  co_timeouts :: timeout_collector
  co_vote_choice :: "(int \<times> int \<times> string, bytes) dict"
  co_timeout_rounds :: "(int \<times> int) list"

subsection \<open>Construction and restart\<close>

definition restore_vote_record :: "int \<times> int \<times> string \<times> string \<times> bytes \<Rightarrow> core \<Rightarrow> core" where
  "restore_vote_record rec c =
     (case rec of (h, r, phase, vid, bhash) \<Rightarrow>
        let c = (if vid = co_local c then c\<lparr>co_vote_choice := dict_set (h, r, phase) bhash (co_vote_choice c)\<rparr> else c)
        in c\<lparr>co_votes := restore_vote h r phase vid bhash (co_votes c)\<rparr>)"

definition restore_timeout_record :: "int \<times> int \<times> string \<times> high_qc \<Rightarrow> core \<Rightarrow> core" where
  "restore_timeout_record rec c =
     (case rec of (h, r, vid, choice) \<Rightarrow>
        let c = (if vid = co_local c then c\<lparr>co_timeout_rounds := List.insert (h, r) (co_timeout_rounds c)\<rparr> else c)
        in c\<lparr>co_timeouts := restore_timeout h r vid choice (co_timeouts c)\<rparr>)"

definition core_init :: "int \<Rightarrow> int \<Rightarrow> string \<Rightarrow> validator_set \<Rightarrow> consensus_store \<Rightarrow> core_error + core" where
  \<comment> \<open>The store's certificates are assigned to themselves, so the store does not change.\<close>
  "core_init chain_id epoch_id local vs store =
     (if chain_id < 0 \<or> epoch_id < 0 then Inl NegativeChainOrEpoch
      else if \<not> vset_contains vs local then Inl LocalNotInSet
      else
        let c = \<lparr>co_chain_id = chain_id, co_epoch_id = epoch_id, co_local = local, co_vset = vs, co_store = store,
              co_pacemaker = ps_pacemaker (store_load_persisted store), co_votes = vote_collector_new,
              co_timeouts = timeout_collector_new, co_vote_choice = [], co_timeout_rounds = []\<rparr>;
            c = fold restore_vote_record (store_load_votes store) c
        in Inr (fold restore_timeout_record (store_load_timeouts store) c))"

definition highest_qc :: "core \<Rightarrow> qc option" where
  "highest_qc c = ps_highest_qc (store_load_persisted (co_store c))"

definition locked_qc :: "core \<Rightarrow> qc option" where
  "locked_qc c = ps_locked_qc (store_load_persisted (co_store c))"

subsection \<open>Certificates\<close>

definition store_do :: "store_op \<Rightarrow> core \<Rightarrow> core" where
  \<comment> \<open>\<open>self.store.<method>(...)\<close>\<close>
  "store_do op c = c\<lparr>co_store := store_apply op (co_store c)\<rparr>"

definition persist_runtime_state :: "core \<Rightarrow> core" where
  "persist_runtime_state c = store_do (SavePacemaker (co_pacemaker c)) c"

definition set_pacemaker :: "pacemaker_error + pacemaker \<Rightarrow> core \<Rightarrow> (core_error, unit, core) outcome" where
  \<comment> \<open>\<open>self.pacemaker = self.pacemaker.<method>(...)\<close>\<close>
  "set_pacemaker r c = (case r of Inl e \<Rightarrow> (Inl (PacemakerRefused e), c) | Inr p \<Rightarrow> (Inr (), c\<lparr>co_pacemaker := p\<rparr>))"

definition absorb_qc :: "crypto \<Rightarrow> qc \<Rightarrow> core \<Rightarrow> (core_error, unit, core) outcome" where
  \<comment> \<open>What \<open>observe_qc\<close> and \<open>accept_vote\<close> both do with a certificate.\<close>
  "absorb_qc C q c =
     (let c = store_do (SaveQc (qc_hash C q) q) c;
          lock_round = (if qc_phase q = PRECOMMIT then Some (qc_round q) else None)
      in st_bind (set_pacemaker (note_qc (co_pacemaker c) (qc_round q) lock_round) c)
        (\<lambda>_ c. let c = (if qc_phase q = PRECOMMIT
                 then store_do (PruneTimeouts (qc_round q)) (store_do (PruneVotes (qc_round q)) (store_do (UpdateLockedQc q) c))
                 else c)
         in st_bind (if qc_phase q = COMMIT then set_pacemaker (note_decide (co_pacemaker c) (qc_round q)) c else (Inr (), c))
           (\<lambda>_ c. (Inr (), persist_runtime_state c))))"

definition observe_qc :: "crypto \<Rightarrow> qc option \<Rightarrow> core \<Rightarrow> (core_error, unit, core) outcome" where
  "observe_qc C qc c = (case qc of None \<Rightarrow> (Inr (), c) | Some q \<Rightarrow> absorb_qc C q c)"

definition absorb_tc :: "crypto \<Rightarrow> tc \<Rightarrow> core \<Rightarrow> (core_error, unit, core) outcome" where
  "absorb_tc C t c =
     (let c = store_do (SaveTc (tc_hash C t) t) c
      in st_bind (set_pacemaker (note_tc (co_pacemaker c) (tc_round t)) c) (\<lambda>_ c. (Inr (), persist_runtime_state c)))"

definition observe_tc :: "crypto \<Rightarrow> tc option \<Rightarrow> core \<Rightarrow> (core_error, unit, core) outcome" where
  "observe_tc C tc c = (case tc of None \<Rightarrow> (Inr (), c) | Some t \<Rightarrow> absorb_tc C t c)"

subsection \<open>Proposals and votes\<close>

definition check_justify :: "crypto \<Rightarrow> proposal \<Rightarrow> qc option \<Rightarrow> core \<Rightarrow> core_error option" where
  "check_justify C p justify c =
     (case pr_justify_qc_hash p of
        None \<Rightarrow> None
      | Some h \<Rightarrow>
          (case justify of
             None \<Rightarrow> Some JustifyMissing
           | Some j \<Rightarrow>
               if qc_hash C j \<noteq> h then Some JustifyHashMismatch
               else if qc_vset_hash j \<noteq> vs_hash (co_vset c) then Some JustifySetMismatch
               else None))"

definition below_lock :: "proposal \<Rightarrow> qc option \<Rightarrow> qc option \<Rightarrow> bool" where
  "below_lock p justify lock =
     (case (lock, justify) of
        (Some l, Some j) \<Rightarrow> pr_block_hash p \<noteq> qc_block_hash l \<and> qc_round j < qc_round l \<and> qc_block_hash j \<noteq> qc_block_hash l
      | _ \<Rightarrow> False)"

definition check_proposal :: "crypto \<Rightarrow> proposal \<Rightarrow> qc option \<Rightarrow> core \<Rightarrow> core_error option" where
  "check_proposal C p justify c =
     (if pr_chain_id p \<noteq> co_chain_id c \<or> pr_epoch_id p \<noteq> co_epoch_id c then Some ChainOrEpochMismatch
      else if pr_vset_hash p \<noteq> vs_hash (co_vset c) then Some ProposalSetMismatch
      else if \<not> vset_contains (co_vset c) (pr_proposer p) then Some ProposerNotInSet
      else if pr_round p + 1 < pm_current_round (co_pacemaker c) then Some StaleRound
      else case check_justify C p justify c of
             Some e \<Rightarrow> Some e
           | None \<Rightarrow> if below_lock p justify (locked_qc c) then Some JustifyBelowLock else None)"

definition validate_proposal :: "crypto \<Rightarrow> proposal \<Rightarrow> qc option \<Rightarrow> core \<Rightarrow> (core_error, unit, core) outcome" where
  "validate_proposal C p justify c =
     st_bind (observe_qc C justify c) (\<lambda>_ c.
       case check_proposal C p justify c of
         Some e \<Rightarrow> (Inl e, c)
       | None \<Rightarrow> (Inr (), store_do (SaveProposal (proposal_hash C p) p) c))"

definition local_vote :: "proposal \<Rightarrow> vote_phase \<Rightarrow> core \<Rightarrow> vote" where
  "local_vote p phase c = \<lparr>vt_chain_id = co_chain_id c, vt_epoch_id = co_epoch_id c, vt_height = pr_height p,
     vt_round = pr_round p, vt_voter = co_local c, vt_vset_hash = vs_hash (co_vset c),
     vt_block_hash = pr_block_hash p, vt_phase = phase\<rparr>"

definition make_vote :: "crypto \<Rightarrow> proposal \<Rightarrow> qc option \<Rightarrow> vote_phase \<Rightarrow> core \<Rightarrow> (core_error, vote, core) outcome" where
  "make_vote C p justify phase c =
     st_bind (validate_proposal C p justify c) (\<lambda>_ c.
       let vote_key = (pr_height p, pr_round p, phase_value phase);
           existing = dict_get (co_vote_choice c) vote_key
       in if existing \<noteq> None \<and> existing \<noteq> Some (pr_block_hash p) then (Inl AlreadyVoted, c)
          else
            let c = c\<lparr>co_vote_choice := dict_set vote_key (pr_block_hash p) (co_vote_choice c)\<rparr>;
                c = store_do (SaveVote (pr_height p) (pr_round p) (phase_value phase) (co_local c) (pr_block_hash p)) c
            in case vote_init (local_vote p phase c) of
                 Inl e \<Rightarrow> (Inl (BadMessage e), c)
               | Inr v \<Rightarrow> (Inr v, c))"

definition accept_vote :: "crypto \<Rightarrow> vote \<Rightarrow> core \<Rightarrow> (core_error, qc option, core) outcome" where
  "accept_vote C v c =
     (case add_vote (co_vset c) v (co_votes c) of
        (Inl e, votes) \<Rightarrow> (Inl (CollectorRefused e), c\<lparr>co_votes := votes\<rparr>)
      | (Inr res, votes) \<Rightarrow>
          let c = store_do (SaveVote (vt_height v) (vt_round v) (phase_value (vt_phase v)) (vt_voter v) (vt_block_hash v))
                (c\<lparr>co_votes := votes\<rparr>)
          in case res of
               None \<Rightarrow> (Inr None, c)
             | Some q \<Rightarrow> st_bind (absorb_qc C q c) (\<lambda>_ c. (Inr (Some q), c)))"

subsection \<open>Timeouts\<close>

definition local_timeout_vote :: "crypto \<Rightarrow> int \<Rightarrow> int \<Rightarrow> core \<Rightarrow> timeout_vote" where
  "local_timeout_vote C height round c = \<lparr>tv_chain_id = co_chain_id c, tv_epoch_id = co_epoch_id c, tv_height = height,
     tv_round = round, tv_voter = co_local c, tv_vset_hash = vs_hash (co_vset c),
     tv_high_qc_round = map_option qc_round (highest_qc c), tv_high_qc_hash = map_option (qc_hash C) (highest_qc c)\<rparr>"

definition make_timeout_vote :: "crypto \<Rightarrow> int \<Rightarrow> int \<Rightarrow> core \<Rightarrow> (core_error, timeout_vote, core) outcome" where
  "make_timeout_vote C height round c =
     (if height \<le> 0 \<or> round \<le> 0 then (Inl HeightOrRoundNotPositive, c)
      else if (height, round) \<in> set (co_timeout_rounds c) then (Inl AlreadyTimedOut, c)
      else
        let c = c\<lparr>co_timeout_rounds := List.insert (height, round) (co_timeout_rounds c)\<rparr>;
            c = store_do (SaveTimeout height round (co_local c)
                  (map_option qc_round (highest_qc c), map_option (qc_hash C) (highest_qc c))) c
        in case timeout_vote_init (local_timeout_vote C height round c) of
             Inl e \<Rightarrow> (Inl (BadMessage e), c)
           | Inr v \<Rightarrow> (Inr v, c))"

definition accept_timeout_vote :: "crypto \<Rightarrow> timeout_vote \<Rightarrow> core \<Rightarrow> (core_error, tc option, core) outcome" where
  "accept_timeout_vote C v c =
     (case add_timeout_vote (co_vset c) v (co_timeouts c) of
        (Inl e, timeouts) \<Rightarrow> (Inl (CollectorRefused e), c\<lparr>co_timeouts := timeouts\<rparr>)
      | (Inr res, timeouts) \<Rightarrow>
          let c = store_do (SaveTimeout (tv_height v) (tv_round v) (tv_voter v) (timeout_choice v))
                (c\<lparr>co_timeouts := timeouts\<rparr>)
          in case res of
               None \<Rightarrow> (Inr None, c)
             | Some t \<Rightarrow> st_bind (absorb_tc C t c) (\<lambda>_ c. (Inr (Some t), c)))"

subsection \<open>What a store keeps whatever the hashes are\<close>

definition core_view :: "core \<Rightarrow> mem_store" where
  "core_view c = store_view (co_store c)"

fun runtime_row_ok :: "consensus_store \<Rightarrow> bool" where
  "runtime_row_ok (MemoryStore s) \<longleftrightarrow> True"
| "runtime_row_ok (SqliteStore s) \<longleftrightarrow>
     (case db_runtime_state (sq_db s) of None \<Rightarrow> sq_pacemaker s = pacemaker_default | Some row \<Rightarrow> fst row = sq_pacemaker s)"

lemma store_view_apply: "store_view (store_apply op s) = mem_apply op (store_view s)"
  by (cases s) (simp_all add: sqlite_view_apply)

lemma runtime_row_apply: "runtime_row_ok s \<Longrightarrow> runtime_row_ok (store_apply op s)"
  by (cases s; cases op) (auto simp: sqlite_save_proposal_def sqlite_save_qc_def sqlite_save_tc_def sqlite_update_locked_qc_def
      sqlite_save_pacemaker_def sqlite_save_vote_def sqlite_prune_votes_def sqlite_save_timeout_def sqlite_prune_timeouts_def
      sqlite_persist_def Let_def split: option.splits)

lemma reopen_keeps:
  assumes "runtime_row_ok s"
  shows "runtime_row_ok (store_reopen s)" "ms_pacemaker (store_view (store_reopen s)) = ms_pacemaker (store_view s)"
    "ms_vote_log (store_view (store_reopen s)) = ms_vote_log (store_view s)"
    "ms_timeout_log (store_view (store_reopen s)) = ms_timeout_log (store_view s)"
  using assms by (cases s; auto simp: sqlite_open_fields sqlite_view_def split: option.splits)+

lemma store_do_simps [simp]:
  "core_view (store_do op c) = mem_apply op (core_view c)" "co_chain_id (store_do op c) = co_chain_id c"
  "co_epoch_id (store_do op c) = co_epoch_id c" "co_local (store_do op c) = co_local c" "co_vset (store_do op c) = co_vset c"
  "co_pacemaker (store_do op c) = co_pacemaker c" "co_votes (store_do op c) = co_votes c" "co_timeouts (store_do op c) = co_timeouts c"
  "co_vote_choice (store_do op c) = co_vote_choice c" "co_timeout_rounds (store_do op c) = co_timeout_rounds c"
  "runtime_row_ok (co_store c) \<Longrightarrow> runtime_row_ok (co_store (store_do op c))"
  by (simp_all add: store_do_def core_view_def store_view_apply runtime_row_apply)

lemma core_view_update [simp]:
  "core_view (c\<lparr>co_pacemaker := p\<rparr>) = core_view c" "core_view (c\<lparr>co_votes := v\<rparr>) = core_view c"
  "core_view (c\<lparr>co_timeouts := t\<rparr>) = core_view c" "core_view (c\<lparr>co_vote_choice := d\<rparr>) = core_view c"
  "core_view (c\<lparr>co_timeout_rounds := rs\<rparr>) = core_view c"
  by (simp_all add: core_view_def)

lemma core_certificates: "highest_qc c = ms_highest_qc (core_view c)" "locked_qc c = ms_locked_qc (core_view c)"
  by (simp_all add: highest_qc_def locked_qc_def core_view_def store_loads mem_load_persisted_def)

declare mem_apply.simps [simp del]

lemma mem_apply_logs [simp]:
  "ms_vote_log (mem_apply (SaveProposal h p) s) = ms_vote_log s" "ms_vote_log (mem_apply (SaveQc h q) s) = ms_vote_log s"
  "ms_vote_log (mem_apply (SaveTc h t) s) = ms_vote_log s" "ms_vote_log (mem_apply (UpdateLockedQc q) s) = ms_vote_log s"
  "ms_vote_log (mem_apply (SavePacemaker pm) s) = ms_vote_log s" "ms_vote_log (mem_apply (SaveTimeout i j v ch) s) = ms_vote_log s"
  "ms_vote_log (mem_apply (PruneTimeouts k) s) = ms_vote_log s"
  "ms_vote_log (mem_apply (SaveVote i j ph v b) s) = dict_set (i, j, ph, v) b (ms_vote_log s)"
  "ms_vote_log (mem_apply (PruneVotes k) s) = filter (\<lambda>((_, r, _, _), _). \<not> r < k) (ms_vote_log s)"
  by (simp_all add: mem_apply.simps mem_save_proposal_def mem_save_qc_def mem_save_tc_def mem_update_locked_qc_def mem_save_pacemaker_def
      mem_save_timeout_def mem_prune_timeouts_def mem_save_vote_def prune_logs)

lemma mem_apply_pacemaker [simp]:
  "ms_pacemaker (mem_apply op s) = (case op of SavePacemaker pm \<Rightarrow> pm | _ \<Rightarrow> ms_pacemaker s)"
  by (cases op) (simp_all add: mem_apply.simps mem_save_proposal_def mem_save_qc_def mem_save_tc_def mem_update_locked_qc_def mem_save_pacemaker_def
      mem_save_timeout_def mem_prune_timeouts_def mem_save_vote_def mem_prune_votes_def)

lemma mem_apply_locked [simp]:
  "ms_locked_qc (mem_apply op s) = (case op of UpdateLockedQc q \<Rightarrow> lock_of (ms_locked_qc s) q | _ \<Rightarrow> ms_locked_qc s)"
  by (cases op) (simp_all add: mem_apply.simps mem_save_proposal_def mem_save_qc_def mem_save_tc_def mem_update_locked_qc_def mem_save_pacemaker_def
      mem_save_timeout_def mem_prune_timeouts_def mem_save_vote_def mem_prune_votes_def)

subsection \<open>The invariant of a core\<close>

definition core_ok :: "core \<Rightarrow> bool" where
  "core_ok c \<longleftrightarrow> vset_ok (co_vset c) \<and> co_local c \<in> set (vset_ids (co_vset c)) \<and>
     pacemaker_ok (co_pacemaker c) \<and> ms_pacemaker (core_view c) = co_pacemaker c \<and> runtime_row_ok (co_store c) \<and>
     dict_ok (ms_vote_log (core_view c)) \<and>
     (\<forall>h r p s b. dict_get (ms_vote_log (core_view c)) (h, r, p, s) = Some b \<longrightarrow> s \<in> set (vset_ids (co_vset c))) \<and>
     collector_ok (set (vset_ids (co_vset c))) (co_votes c)"

definition same_config :: "core \<Rightarrow> core \<Rightarrow> bool" where
  "same_config c c' \<longleftrightarrow> co_chain_id c' = co_chain_id c \<and> co_epoch_id c' = co_epoch_id c \<and> co_local c' = co_local c \<and> co_vset c' = co_vset c"

definition log_pruned :: "vote_log \<Rightarrow> int \<Rightarrow> vote_log \<Rightarrow> bool" where
  \<comment> \<open>The second log is the first without some records of rounds too old to vote in at the given current round.\<close>
  "log_pruned log current log' \<longleftrightarrow>
     (\<forall>h r p s. dict_get log' (h, r, p, s) = dict_get log (h, r, p, s) \<or>
        dict_get log' (h, r, p, s) = None \<and> r + 1 < current)"

definition keeps :: "core \<Rightarrow> core \<Rightarrow> bool" where
  "keeps c c' \<longleftrightarrow> core_ok c' \<and> same_config c c' \<and> later (co_pacemaker c) (co_pacemaker c') \<and>
     co_vote_choice c' = co_vote_choice c \<and> co_votes c' = co_votes c \<and>
     log_pruned (ms_vote_log (core_view c)) (pm_current_round (co_pacemaker c')) (ms_vote_log (core_view c'))"

lemma log_pruned_refl [simp]: "log_pruned log k log"
  by (simp add: log_pruned_def)

lemma keeps_refl: "core_ok c \<Longrightarrow> keeps c c"
  by (simp add: keeps_def same_config_def)

lemma log_pruned_trans:
  assumes "log_pruned a j b" "log_pruned b k c" "j \<le> k"
  shows "log_pruned a k c"
  unfolding log_pruned_def
proof (intro allI)
  fix h r p s
  show "dict_get c (h, r, p, s) = dict_get a (h, r, p, s) \<or> dict_get c (h, r, p, s) = None \<and> r + 1 < k"
    using assms(1) [unfolded log_pruned_def, rule_format, of h r p s] assms(2) [unfolded log_pruned_def, rule_format, of h r p s] assms(3)
    by auto
qed

lemma same_config_trans: "same_config a b \<Longrightarrow> same_config b c \<Longrightarrow> same_config a c"
  by (simp add: same_config_def)

lemma later_round: "later p q \<Longrightarrow> pm_current_round p \<le> pm_current_round q"
  by (simp add: later_def)

lemma keeps_trans: "keeps a b \<Longrightarrow> keeps b c \<Longrightarrow> keeps a c"
  using later_trans [of "co_pacemaker a" "co_pacemaker b" "co_pacemaker c"] same_config_trans [of a b c]
    log_pruned_trans [OF _ _ later_round [of "co_pacemaker b" "co_pacemaker c"]]
  unfolding keeps_def by simp blast

lemma dict_get_filter:
  assumes "dict_ok d"
  shows "dict_get (filter (\<lambda>(k, _). P k) d) k = (if P k then dict_get d k else None)"
  using assms by (induction d) (auto simp: dict_ok_def)

lemma dict_ok_filtered: "dict_ok d \<Longrightarrow> dict_ok (filter P d)"
  by (simp add: dict_ok_def distinct_map_filter)

lemma dict_get_prune:
  assumes "dict_ok log"
  shows "dict_get (filter (\<lambda>((_, r, _, _), _). \<not> r < k) log) (h, r, p, s) = (if r < k then None else dict_get log (h, r, p, s))"
  using dict_get_filter [OF assms, of "\<lambda>(_, r, _, _). \<not> r < k" "(h, r, p, s)"] by (auto simp: case_prod_unfold)

lemma log_pruned_filter: "dict_ok log \<Longrightarrow> k < current \<Longrightarrow> log_pruned log current (filter (\<lambda>((_, r, _, _), _). \<not> r < k) log)"
  by (simp add: log_pruned_def dict_get_prune)

lemma absorb_qc_cases:
  assumes "core_ok c"
  obtains (refused) c' where "qc_round q < 0" "absorb_qc C q c = (Inl (PacemakerRefused NegativeRound), c')" "keeps c c'"
  | (absorbed) c' where "absorb_qc C q c = (Inr (), c')" "keeps c c'"
      "pm_current_round (co_pacemaker c') = max (pm_current_round (co_pacemaker c)) (qc_round q + 1)"
      "locked_qc c' = (if qc_phase q = PRECOMMIT then lock_of (locked_qc c) q else locked_qc c)"
      "qc_phase q = COMMIT \<Longrightarrow> qc_round q \<le> pm_last_decided_round (co_pacemaker c')"
      "co_timeouts c' = co_timeouts c" "co_timeout_rounds c' = co_timeout_rounds c"
proof (cases "qc_round q < 0")
  case True
  then have "absorb_qc C q c = (Inl (PacemakerRefused NegativeRound), store_do (SaveQc (qc_hash C q) q) c)"
    by (simp add: absorb_qc_def Let_def set_pacemaker_def note_qc_def)
  moreover have "keeps c (store_do (SaveQc (qc_hash C q) q) c)"
    using assms by (simp add: keeps_def core_ok_def same_config_def)
  ultimately show ?thesis using refused True by blast
next
  case False
  let ?lock = "if qc_phase q = PRECOMMIT then Some (qc_round q) else None"
  have pm: "pacemaker_ok (co_pacemaker c)" using assms by (simp add: core_ok_def)
  have r: "0 \<le> qc_round q" "\<And>l. ?lock = Some l \<Longrightarrow> 0 \<le> l \<and> l \<le> qc_round q" using False by (auto split: if_splits)
  obtain p where p: "note_qc (co_pacemaker c) (qc_round q) ?lock = Inr p" "pacemaker_ok p" "later (co_pacemaker c) p"
    "qc_round q < pm_current_round p" "pm_current_round p = max (pm_current_round (co_pacemaker c)) (qc_round q + 1)"
    using note_qc_ok [OF pm r] by blast
  obtain p' where p': "(if qc_phase q = COMMIT then note_decide p (qc_round q) else Inr p) = Inr p'" "pacemaker_ok p'" "later p p'"
    "pm_current_round p' = pm_current_round p" "qc_phase q = COMMIT \<Longrightarrow> qc_round q \<le> pm_last_decided_round p'"
  proof (cases "qc_phase q = COMMIT")
    case True
    show ?thesis by (rule note_decide_ok [OF p(2) r(1)]) (use True that in simp)
  qed (use p(2) that in simp)
  define c1 where "c1 = (store_do (SaveQc (qc_hash C q) q) c)\<lparr>co_pacemaker := p\<rparr>"
  define c2 where "c2 = (if qc_phase q = PRECOMMIT
      then store_do (PruneTimeouts (qc_round q)) (store_do (PruneVotes (qc_round q)) (store_do (UpdateLockedQc q) c1)) else c1)"
  let ?c = "persist_runtime_state (c2\<lparr>co_pacemaker := p'\<rparr>)"
  have c2_pm: "co_pacemaker c2 = p" by (simp add: c2_def c1_def)
  then have c2_id: "c2\<lparr>co_pacemaker := p\<rparr> = c2" by simp
  have "absorb_qc C q c = st_bind (if qc_phase q = COMMIT then set_pacemaker (note_decide p (qc_round q)) c2 else (Inr (), c2))
      (\<lambda>_ c. (Inr (), persist_runtime_state c))"
    by (simp add: absorb_qc_def Let_def set_pacemaker_def p(1) c1_def c2_def)
  also have "\<dots> = (Inr (), ?c)"
    using p'(1) c2_id by (cases "qc_phase q = COMMIT") (auto simp: set_pacemaker_def)
  finally have "absorb_qc C q c = (Inr (), ?c)" .
  moreover have "locked_qc ?c = (if qc_phase q = PRECOMMIT then lock_of (locked_qc c) q else locked_qc c)"
    by (simp add: core_certificates persist_runtime_state_def c2_def c1_def)
  moreover have "later (co_pacemaker c) p'" using p(3) p'(3) later_trans by blast
  moreover have "log_pruned (ms_vote_log (core_view c)) (pm_current_round p') (ms_vote_log (core_view ?c))"
    using assms p(4) p'(4) log_pruned_filter [where k = "qc_round q"]
    by (simp add: persist_runtime_state_def c2_def c1_def core_ok_def)
  moreover have "core_ok ?c"
    using assms p'(2) by (auto simp: core_ok_def persist_runtime_state_def c2_def c1_def dict_ok_filtered dict_get_prune)
  ultimately show ?thesis
    using p(5) p'(4,5) by (intro absorbed [where c' = ?c]) (auto simp: keeps_def same_config_def persist_runtime_state_def c2_def c1_def)
qed

subsection \<open>What each method does to a core\<close>

lemma keeps_store_do:
  assumes "core_ok c" "ms_vote_log (core_view (store_do op c)) = ms_vote_log (core_view c)"
    "ms_pacemaker (mem_apply op (core_view c)) = co_pacemaker c"
  shows "keeps c (store_do op c)"
  using assms by (simp add: keeps_def core_ok_def same_config_def)

lemma keeps_timeouts [simp]:
  "keeps c (c'\<lparr>co_timeouts := t\<rparr>) = keeps c c'" "keeps c (c'\<lparr>co_timeout_rounds := rs\<rparr>) = keeps c c'"
  "core_ok (c\<lparr>co_timeouts := t\<rparr>) = core_ok c" "core_ok (c\<lparr>co_timeout_rounds := rs\<rparr>) = core_ok c"
  by (simp_all add: keeps_def core_ok_def same_config_def)

lemma keeps_timeouts_left [simp]:
  "keeps (c\<lparr>co_timeouts := t\<rparr>) c' = keeps c c'" "keeps (c\<lparr>co_timeout_rounds := rs\<rparr>) c' = keeps c c'"
  by (simp_all add: keeps_def same_config_def)

lemma keeps_ok: "keeps c c' \<Longrightarrow> core_ok c'"
  by (simp add: keeps_def)

lemma absorb_qc_keeps: "core_ok c \<Longrightarrow> keeps c (snd (absorb_qc C q c))"
  by (cases rule: absorb_qc_cases [of c q C]) auto

lemma observe_qc_keeps: "core_ok c \<Longrightarrow> keeps c (snd (observe_qc C q c))"
  by (cases q) (simp_all add: observe_qc_def keeps_refl absorb_qc_keeps)

lemma absorb_tc_keeps:
  assumes "core_ok c"
  shows "keeps c (snd (absorb_tc C t c))"
proof -
  let ?c = "store_do (SaveTc (tc_hash C t) t) c"
  have k: "keeps c ?c" using assms by (intro keeps_store_do) (simp_all add: core_ok_def)
  show ?thesis
  proof (cases "tc_round t < 0")
    case True
    then show ?thesis using k by (simp add: absorb_tc_def Let_def set_pacemaker_def note_tc_def)
  next
    case False
    then have t: "pacemaker_ok (co_pacemaker c)" "0 \<le> tc_round t" using assms by (simp_all add: core_ok_def)
    obtain p where p: "note_tc (co_pacemaker c) (tc_round t) = Inr p" "pacemaker_ok p" "later (co_pacemaker c) p"
      using note_tc_ok [OF t] by blast
    then show ?thesis
      using k by (auto simp: absorb_tc_def Let_def set_pacemaker_def keeps_def core_ok_def same_config_def persist_runtime_state_def)
  qed
qed

lemma observe_tc_keeps: "core_ok c \<Longrightarrow> keeps c (snd (observe_tc C t c))"
  by (cases t) (simp_all add: observe_tc_def keeps_refl absorb_tc_keeps)

lemma make_timeout_vote_keeps:
  assumes "core_ok c"
  shows "keeps c (snd (make_timeout_vote C h r c))"
proof -
  let ?c = "c\<lparr>co_timeout_rounds := List.insert (h, r) (co_timeout_rounds c)\<rparr>"
  have "keeps ?c (store_do (SaveTimeout h r (co_local ?c) x) ?c)" for x
    using assms by (intro keeps_store_do) (simp_all add: core_ok_def)
  then show ?thesis
    using assms by (auto simp: make_timeout_vote_def Let_def keeps_refl split: sum.split)
qed

lemma accept_timeout_vote_keeps:
  assumes "core_ok c"
  shows "keeps c (snd (accept_timeout_vote C v c))"
proof -
  obtain res timeouts where a: "add_timeout_vote (co_vset c) v (co_timeouts c) = (res, timeouts)" by fastforce
  let ?c = "c\<lparr>co_timeouts := timeouts\<rparr>" and ?op = "SaveTimeout (tv_height v) (tv_round v) (tv_voter v) (timeout_choice v)"
  have k: "keeps ?c (store_do ?op ?c)" using assms by (intro keeps_store_do) (simp_all add: core_ok_def)
  then have t: "keeps ?c (snd (absorb_tc C t (store_do ?op ?c)))" for t
    using absorb_tc_keeps keeps_ok keeps_trans by blast
  show ?thesis
    unfolding accept_timeout_vote_def a
    by (auto simp: Let_def assms keeps_refl k [simplified] split: sum.split option.split intro!: st_bind_keeps [where P = "keeps c"] t [simplified])
qed

lemma validate_keeps:
  assumes "core_ok c" "validate_proposal C p j c = (res, c')"
  shows "keeps c c'" "res = Inr () \<Longrightarrow> pm_current_round (co_pacemaker c') \<le> pr_round p + 1"
proof -
  obtain r c1 where o: "observe_qc C j c = (r, c1)" by fastforce
  then have k: "keeps c c1" using observe_qc_keeps [OF assms(1), of C j] by simp
  have s: "keeps c (store_do (SaveProposal h q) c1)" for h q
    using keeps_trans [OF k keeps_store_do] keeps_ok [OF k] by (simp add: core_ok_def)
  show "keeps c c'"
    using assms(2) k s by (cases r) (auto simp: validate_proposal_def o split: option.splits)
  show "pm_current_round (co_pacemaker c') \<le> pr_round p + 1" if "res = Inr ()"
    using assms(2) that by (cases r) (auto simp: validate_proposal_def o check_proposal_def split: option.splits if_splits)
qed

definition record_vote :: "int \<Rightarrow> int \<Rightarrow> string \<Rightarrow> bytes \<Rightarrow> core \<Rightarrow> core" where
  "record_vote h r phase b c = store_do (SaveVote h r phase (co_local c) b)
     (c\<lparr>co_vote_choice := dict_set (h, r, phase) b (co_vote_choice c)\<rparr>)"

lemma make_vote_cases:
  assumes "core_ok c"
  obtains (refused) e c' where "make_vote C p j phase c = (Inl e, c')" "keeps c c'"
  | (voted) res c1 where "make_vote C p j phase c = (res, record_vote (pr_height p) (pr_round p) (phase_value phase) (pr_block_hash p) c1)"
      "keeps c c1" "pm_current_round (co_pacemaker c1) \<le> pr_round p + 1" "validate_proposal C p j c = (Inr (), c1)"
      "dict_get (co_vote_choice c) (pr_height p, pr_round p, phase_value phase) \<in> {None, Some (pr_block_hash p)}"
      "res = (case vote_init (local_vote p phase c) of Inl e \<Rightarrow> Inl (BadMessage e) | Inr v \<Rightarrow> Inr v)"
proof -
  obtain r c1 where v: "validate_proposal C p j c = (r, c1)" by fastforce
  note k = validate_keeps [OF assms v]
  have same: "co_vote_choice c1 = co_vote_choice c" "local_vote p phase (record_vote h i ph b c1) = local_vote p phase c" for h i ph b
    using k(1) by (simp_all add: keeps_def same_config_def local_vote_def record_vote_def)
  show ?thesis
  proof (cases "r = Inr () \<and> dict_get (co_vote_choice c) (pr_height p, pr_round p, phase_value phase) \<in> {None, Some (pr_block_hash p)}")
    case True
    then have "make_vote C p j phase c = (case vote_init (local_vote p phase c) of Inl e \<Rightarrow> Inl (BadMessage e) | Inr v \<Rightarrow> Inr v,
        record_vote (pr_height p) (pr_round p) (phase_value phase) (pr_block_hash p) c1)"
      using same(2) by (auto simp: make_vote_def v Let_def same(1) record_vote_def split: sum.split)
    then show ?thesis using True k v by (intro voted) auto
  next
    case False
    then obtain e where "make_vote C p j phase c = (Inl e, c1)"
      by (cases r) (auto simp: make_vote_def v same(1))
    then show ?thesis using refused k(1) by blast
  qed
qed

definition take_vote :: "vote \<Rightarrow> core \<Rightarrow> core" where
  "take_vote v c = store_do (SaveVote (vt_height v) (vt_round v) (phase_value (vt_phase v)) (vt_voter v) (vt_block_hash v))
     (c\<lparr>co_votes := restore_vote (vt_height v) (vt_round v) (phase_value (vt_phase v)) (vt_voter v) (vt_block_hash v) (co_votes c)\<rparr>)"

lemma core_ok_record_vote: "core_ok c \<Longrightarrow> core_ok (record_vote h r p b c)"
  by (auto simp: core_ok_def record_vote_def dict_simps)

lemma core_ok_take_vote:
  assumes "core_ok c" "vt_voter v \<in> set (vset_ids (co_vset c))"
    "dict_get (vc_choice_by_signer (co_votes c)) (vote_signer v) = None \<or> dict_get (vc_choice_by_signer (co_votes c)) (vote_signer v) = Some (vt_block_hash v)"
  shows "core_ok (take_vote v c)"
  using assms by (auto simp: core_ok_def take_vote_def dict_simps vote_signer_def intro!: restore_vote_ok)

lemma accept_vote_cases:
  assumes "core_ok c"
  obtains (refused) e where "accept_vote C v c = (Inl e, c)"
  | (invalid) e where "accept_vote C v c = (Inl e, c\<lparr>co_votes := co_votes (take_vote v c)\<rparr>)" "core_ok (take_vote v c)"
      "vt_voter v \<in> set (vset_ids (co_vset c))"
  | (taken) res c' where "accept_vote C v c = (res, c')" "core_ok (take_vote v c)" "keeps (take_vote v c) c'"
      "vt_voter v \<in> set (vset_ids (co_vset c))"
      "\<And>q. res = Inr (Some q) \<Longrightarrow> add_vote (co_vset c) v (co_votes c) = (Inr (Some q), co_votes (take_vote v c))"
proof (cases rule: add_vote_cases [of "co_vset c" v "co_votes c"])
  case (refused e)
  then show ?thesis using that(1) by (simp add: accept_vote_def)
next
  case (taken res)
  have votes: "co_votes (take_vote v c) = restore_vote (vt_height v) (vt_round v) (phase_value (vt_phase v)) (vt_voter v) (vt_block_hash v) (co_votes c)"
    by (simp add: take_vote_def)
  have ok: "core_ok (take_vote v c)" using core_ok_take_vote [OF assms taken(3,4)] .
  show ?thesis
  proof (cases res)
    case (Inl e)
    then show ?thesis using that(2) taken votes ok by (simp add: accept_vote_def)
  next
    case (Inr m)
    show ?thesis
    proof (cases m)
      case None
      then show ?thesis using that(3) [OF _ ok keeps_refl [OF ok]] taken Inr votes
        by (simp add: accept_vote_def Let_def take_vote_def)
    next
      case (Some q)
      have "keeps (take_vote v c) (snd (accept_vote C v c))"
        using taken(1) Inr Some absorb_qc_keeps [OF ok, of C q] unfolding take_vote_def
        by (auto simp: accept_vote_def Let_def intro!: st_bind_keeps [where P = "keeps _"])
      moreover have "fst (accept_vote C v c) = Inr (Some q') \<Longrightarrow> q' = q" for q'
        using taken(1) Inr Some by (auto simp: accept_vote_def Let_def st_bind_def split: prod.splits sum.splits)
      ultimately show ?thesis
        using that(3) [OF prod.collapse [symmetric] ok] taken Inr Some votes by metis
    qed
  qed
qed

end
