(* ===== verification/Consensus_Safety.thy ===== *)
theory Consensus_Safety
  imports Consensus_Core
begin

section \<open>Agreement of the validators\<close>

text \<open>
  Any number of cores over one validator set run as a transition system: each step is one method call of
  one honest core, or its restart. Votes reach a core only if their honest voter made them; everything else,
  certificates and proposals included, may be forged. What an honest validator must remember to never vote
  twice is shown to survive pruning and restarts, and quorum intersection gives agreement.
\<close>

subsection \<open>A restart\<close>

lemma restore_timeouts_frame:
  "\<exists>t rs. fold restore_timeout_record recs c = c\<lparr>co_timeouts := t, co_timeout_rounds := rs\<rparr>"
proof (induction recs arbitrary: c)
  case Nil
  show ?case by (intro exI [of _ "co_timeouts c"] exI [of _ "co_timeout_rounds c"]) simp
next
  case (Cons x recs)
  obtain t rs where x: "restore_timeout_record x c = c\<lparr>co_timeouts := t, co_timeout_rounds := rs\<rparr>"
  proof -
    have "restore_timeout_record x c = c\<lparr>co_timeouts := co_timeouts (restore_timeout_record x c),
        co_timeout_rounds := co_timeout_rounds (restore_timeout_record x c)\<rparr>"
      by (cases x) (simp add: restore_timeout_record_def Let_def)
    then show ?thesis using that by blast
  qed
  from Cons.IH [of "c\<lparr>co_timeouts := t, co_timeout_rounds := rs\<rparr>"] show ?case by (auto simp: x)
qed

definition restored_from :: "core \<Rightarrow> vote_log \<Rightarrow> core \<Rightarrow> bool" where
  \<comment> \<open>A core fresh from construction that has read the log\<close>
  "restored_from c0 log c \<longleftrightarrow> (\<exists>d v. c = c0\<lparr>co_vote_choice := d, co_votes := v\<rparr> \<and>
     (\<forall>h r p. dict_get d (h, r, p) = dict_get log (h, r, p, co_local c0)) \<and>
     dict_get (vc_choice_by_signer v) = dict_get log \<and> collector_ok (set (vset_ids (co_vset c0))) v)"

lemma restore_votes:
  assumes "dict_ok log" "\<And>h r p s b. dict_get log (h, r, p, s) = Some b \<Longrightarrow> s \<in> set (vset_ids (co_vset c0))"
    and "co_vote_choice c0 = []" "co_votes c0 = vote_collector_new"
  shows "restored_from c0 log (fold restore_vote_record (map (\<lambda>((h, r, p, v), b). (h, r, p, v, b)) log) c0)"
  using assms(1,2)
proof (induction log rule: rev_induct)
  case Nil
  have "c0 = c0\<lparr>co_vote_choice := [], co_votes := vote_collector_new\<rparr>" using assms(3,4) by simp
  then show ?case
    unfolding restored_from_def by (intro exI [of _ "[]"] exI [of _ vote_collector_new]) (simp add: vote_collector_new_def [THEN arg_cong, of vc_choice_by_signer])
next
  case (snoc x log)
  obtain h r p s b where x: "x = ((h, r, p, s), b)" by (cases x) auto
  have new: "dict_get log (h, r, p, s) = None" "dict_ok log"
    using snoc.prems(1) by (auto simp: x dict_ok_def map_of_eq_None_iff)
  have app: "dict_get (log @ [x]) = (dict_get log)((h, r, p, s) \<mapsto> b)"
    using new(1) by (auto simp: x map_add_def fun_eq_iff split: option.split)
  have mem: "k \<in> set (vset_ids (co_vset c0))" if "dict_get log (i, j, ph, k) = Some w" for i j ph k w
    using snoc.prems(2) [of i j ph k w] that new(1) app by auto
  obtain d v where r: "fold restore_vote_record (map (\<lambda>((h, r, p, v), b). (h, r, p, v, b)) log) c0 = c0\<lparr>co_vote_choice := d, co_votes := v\<rparr>"
    "\<And>h r p. dict_get d (h, r, p) = dict_get log (h, r, p, co_local c0)"
    "dict_get (vc_choice_by_signer v) = dict_get log" "collector_ok (set (vset_ids (co_vset c0))) v"
  proof -
    have "restored_from c0 log (fold restore_vote_record (map (\<lambda>((h, r, p, v), b). (h, r, p, v, b)) log) c0)"
      by (rule snoc.IH [OF new(2)]) (use mem in blast)
    then show ?thesis using that unfolding restored_from_def by blast
  qed
  let ?d = "if s = co_local c0 then dict_set (h, r, p) b d else d" and ?v = "restore_vote h r p s b v"
  have "restore_vote_record (h, r, p, s, b) (c0\<lparr>co_vote_choice := d, co_votes := v\<rparr>) = c0\<lparr>co_vote_choice := ?d, co_votes := ?v\<rparr>"
    by (simp add: restore_vote_record_def)
  moreover have "dict_get ?d (i, j, ph) = dict_get (log @ [x]) (i, j, ph, co_local c0)" for i j ph
    unfolding app by (auto simp: r(2) dict_simps)
  moreover have "dict_get (vc_choice_by_signer ?v) = dict_get (log @ [x])"
    unfolding app by (simp add: choice_restore r(3))
  moreover have "collector_ok (set (vset_ids (co_vset c0))) ?v"
    using snoc.prems(2) [unfolded app, of h r p s b] by (intro restore_vote_ok) (simp_all add: r new(1))
  ultimately show ?case
    unfolding restored_from_def by (intro exI [of _ ?d] exI [of _ ?v]) (simp add: r(1) x)
qed

lemma log_member: "core_ok c \<Longrightarrow> dict_get (ms_vote_log (core_view c)) (h, r, p, s) = Some b \<Longrightarrow> s \<in> set (vset_ids (co_vset c))"
  unfolding core_ok_def by blast

lemma restart_core:
  assumes "core_ok c" "core_init (co_chain_id c) (co_epoch_id c) (co_local c) (co_vset c) (store_reopen (co_store c)) = Inr c'"
  shows "core_ok c'" "same_config c c'" "co_pacemaker c' = co_pacemaker c"
    "ms_vote_log (core_view c') = ms_vote_log (core_view c)"
    "\<And>h r p. dict_get (co_vote_choice c') (h, r, p) = dict_get (ms_vote_log (core_view c)) (h, r, p, co_local c)"
    "dict_get (vc_choice_by_signer (co_votes c')) = dict_get (ms_vote_log (core_view c))"
proof -
  let ?st = "store_reopen (co_store c)"
  let ?log = "ms_vote_log (core_view c)"
  have ok: "runtime_row_ok (co_store c)" "dict_ok ?log" "ms_pacemaker (core_view c) = co_pacemaker c"
    using assms(1) by (simp_all add: core_ok_def)
  note st = reopen_keeps [OF ok(1), folded core_view_def]
  define c0 where "c0 = \<lparr>co_chain_id = co_chain_id c, co_epoch_id = co_epoch_id c, co_local = co_local c, co_vset = co_vset c,
      co_store = ?st, co_pacemaker = ps_pacemaker (store_load_persisted ?st), co_votes = vote_collector_new,
      co_timeouts = timeout_collector_new, co_vote_choice = [], co_timeout_rounds = []\<rparr>"
  obtain t rs where c': "c' = (fold restore_vote_record (store_load_votes ?st) c0)\<lparr>co_timeouts := t, co_timeout_rounds := rs\<rparr>"
    using assms(2) restore_timeouts_frame by (auto simp: core_init_def Let_def c0_def split: if_splits)
  have mem: "s \<in> set (vset_ids (co_vset c0))" if "dict_get ?log (h, r, p, s) = Some b" for h r p s b
    using log_member [OF assms(1) that] by (simp add: c0_def)
  have "store_load_votes ?st = map (\<lambda>((h, r, p, v), b). (h, r, p, v, b)) ?log"
    using st(3) by (simp add: store_loads mem_load_votes_def core_view_def)
  moreover have "restored_from c0 ?log (fold restore_vote_record (map (\<lambda>((h, r, p, v), b). (h, r, p, v, b)) ?log) c0)"
    by (rule restore_votes [OF ok(2)]) (use mem in blast, simp_all add: c0_def)
  ultimately obtain d v where
    r: "fold restore_vote_record (store_load_votes ?st) c0 = c0\<lparr>co_vote_choice := d, co_votes := v\<rparr>"
    "\<And>h r p. dict_get d (h, r, p) = dict_get ?log (h, r, p, co_local c0)"
    "dict_get (vc_choice_by_signer v) = dict_get ?log" "collector_ok (set (vset_ids (co_vset c0))) v"
    unfolding restored_from_def by (auto simp: c0_def)
  have c': "c' = c0\<lparr>co_vote_choice := d, co_votes := v, co_timeouts := t, co_timeout_rounds := rs\<rparr>"
    by (simp only: c' r(1))
  have "ps_pacemaker (store_load_persisted ?st) = co_pacemaker c"
    using st(2) ok(3) by (simp add: store_loads mem_load_persisted_def core_view_def)
  then have view: "core_view c' = store_view ?st" and c'_fields: "co_votes c' = v" "co_vote_choice c' = d" "co_vset c' = co_vset c"
      "co_local c' = co_local c" "co_pacemaker c' = co_pacemaker c" "co_store c' = ?st"
    by (simp_all add: c' c0_def core_view_def)
  show "ms_vote_log (core_view c') = ?log" using st(3) view by (simp add: core_view_def)
  then show "core_ok c'"
    using assms(1) r(4) st(1,2) ok(3) by (simp add: core_ok_def c'_fields view c0_def core_view_def)
  show "same_config c c'" by (simp add: same_config_def c' c0_def)
  show "co_pacemaker c' = co_pacemaker c" by (rule c'_fields)
  show "dict_get (co_vote_choice c') (h, r, p) = dict_get ?log (h, r, p, co_local c)" for h r p
    using r(2) by (simp add: c'_fields c0_def)
  show "dict_get (vc_choice_by_signer (co_votes c')) = dict_get ?log" by (simp add: c'_fields r(3))
qed

subsection \<open>The validators as a transition system\<close>

record network =
  nw_cores :: "string \<Rightarrow> core"
  nw_sent :: "vote list"
  nw_formed :: "qc list"

inductive net_step :: "crypto \<Rightarrow> validator_set \<Rightarrow> string set \<Rightarrow> network \<Rightarrow> network \<Rightarrow> bool"
  for C :: crypto and vs :: validator_set and faulty :: "string set" where
  vote: "i \<in> set (vset_ids vs) - faulty \<Longrightarrow> proposal_init p = Inr p \<Longrightarrow>
    make_vote C p j phase (nw_cores n i) = (res, c') \<Longrightarrow>
    net_step C vs faulty n (n\<lparr>nw_cores := (nw_cores n)(i := c'),
      nw_sent := (case res of Inl _ \<Rightarrow> nw_sent n | Inr v \<Rightarrow> v # nw_sent n)\<rparr>)"
| deliver: "i \<in> set (vset_ids vs) - faulty \<Longrightarrow> v \<in> set (nw_sent n) \<or> vt_voter v \<in> faulty \<Longrightarrow>
    accept_vote C v (nw_cores n i) = (res, c') \<Longrightarrow>
    net_step C vs faulty n (n\<lparr>nw_cores := (nw_cores n)(i := c'),
      nw_formed := (case res of Inr (Some q) \<Rightarrow> q # nw_formed n | _ \<Rightarrow> nw_formed n)\<rparr>)"
| proposal: "i \<in> set (vset_ids vs) - faulty \<Longrightarrow> validate_proposal C p j (nw_cores n i) = (res', c') \<Longrightarrow>
    net_step C vs faulty n (n\<lparr>nw_cores := (nw_cores n)(i := c')\<rparr>)"
| qc: "i \<in> set (vset_ids vs) - faulty \<Longrightarrow> observe_qc C q (nw_cores n i) = (res', c') \<Longrightarrow>
    net_step C vs faulty n (n\<lparr>nw_cores := (nw_cores n)(i := c')\<rparr>)"
| tc: "i \<in> set (vset_ids vs) - faulty \<Longrightarrow> observe_tc C t (nw_cores n i) = (res', c') \<Longrightarrow>
    net_step C vs faulty n (n\<lparr>nw_cores := (nw_cores n)(i := c')\<rparr>)"
| timeout: "i \<in> set (vset_ids vs) - faulty \<Longrightarrow> make_timeout_vote C h r (nw_cores n i) = (rest, c') \<Longrightarrow>
    net_step C vs faulty n (n\<lparr>nw_cores := (nw_cores n)(i := c')\<rparr>)"
| deliver_timeout: "i \<in> set (vset_ids vs) - faulty \<Longrightarrow> accept_timeout_vote C tv (nw_cores n i) = (resc, c') \<Longrightarrow>
    net_step C vs faulty n (n\<lparr>nw_cores := (nw_cores n)(i := c')\<rparr>)"
| restart: "i \<in> set (vset_ids vs) - faulty \<Longrightarrow> c = nw_cores n i \<Longrightarrow>
    core_init (co_chain_id c) (co_epoch_id c) (co_local c) (co_vset c) (store_reopen (co_store c)) = Inr c' \<Longrightarrow>
    net_step C vs faulty n (n\<lparr>nw_cores := (nw_cores n)(i := c')\<rparr>)"

definition fresh_core :: "validator_set \<Rightarrow> string \<Rightarrow> core \<Rightarrow> bool" where
  \<comment> \<open>A core constructed over a new store of either kind\<close>
  "fresh_core vs i c \<longleftrightarrow> (\<exists>chain epoch st. core_init chain epoch i vs st = Inr c \<and>
     (st = MemoryStore mem_store_new \<or> st = SqliteStore (sqlite_open sqlite_db_new)))"

definition net_start :: "validator_set \<Rightarrow> string set \<Rightarrow> network \<Rightarrow> bool" where
  "net_start vs faulty n \<longleftrightarrow> nw_sent n = [] \<and> nw_formed n = [] \<and>
     (\<forall>i\<in>set (vset_ids vs) - faulty. fresh_core vs i (nw_cores n i))"

subsection \<open>The invariant\<close>

definition cast :: "vote list \<Rightarrow> int \<times> int \<times> string \<times> string \<Rightarrow> bytes \<Rightarrow> bool" where
  \<comment> \<open>Some vote sent is this voter's for this block.\<close>
  "cast sent key b \<longleftrightarrow> (\<exists>v\<in>set sent. vote_signer v = key \<and> vt_block_hash v = b)"

definition remembers :: "vote list \<Rightarrow> string \<Rightarrow> core \<Rightarrow> bool" where
  \<comment> \<open>A vote of this validator is in its choices and in its log, or of a round it can no longer vote in.\<close>
  "remembers sent i c \<longleftrightarrow> (\<forall>h r p b. cast sent (h, r, p, i) b \<longrightarrow>
     r + 1 < pm_current_round (co_pacemaker c) \<or>
     dict_get (co_vote_choice c) (h, r, p) = Some b \<and> dict_get (ms_vote_log (core_view c)) (h, r, p, i) = Some b)"

definition justified :: "vote list \<Rightarrow> string set \<Rightarrow> core \<Rightarrow> bool" where
  \<comment> \<open>What a core has on record for an honest validator, that validator voted.\<close>
  "justified sent faulty c \<longleftrightarrow> (\<forall>h r p s b. s \<notin> faulty \<longrightarrow>
     dict_get (vc_choice_by_signer (co_votes c)) (h, r, p, s) = Some b \<or> dict_get (ms_vote_log (core_view c)) (h, r, p, s) = Some b
     \<longrightarrow> cast sent (h, r, p, s) b)"

definition certified :: "validator_set \<Rightarrow> vote list \<Rightarrow> string set \<Rightarrow> qc \<Rightarrow> bool" where
  "certified vs sent faulty q \<longleftrightarrow> has_quorum vs (qc_signers q) \<and>
     (\<forall>s\<in>set (qc_signers q) - faulty. cast sent (qc_height q, qc_round q, phase_value (qc_phase q), s) (qc_block_hash q))"

definition net_ok :: "validator_set \<Rightarrow> string set \<Rightarrow> network \<Rightarrow> bool" where
  "net_ok vs faulty n \<longleftrightarrow>
     (\<forall>i\<in>set (vset_ids vs) - faulty. core_ok (nw_cores n i) \<and> co_local (nw_cores n i) = i \<and> co_vset (nw_cores n i) = vs \<and>
        remembers (nw_sent n) i (nw_cores n i) \<and> justified (nw_sent n) faulty (nw_cores n i)) \<and>
     (\<forall>v\<in>set (nw_sent n). vt_voter v \<in> set (vset_ids vs) - faulty) \<and>
     (\<forall>key b b'. cast (nw_sent n) key b \<longrightarrow> cast (nw_sent n) key b' \<longrightarrow> b = b') \<and>
     (\<forall>q\<in>set (nw_formed n). certified vs (nw_sent n) faulty q)"

lemma cast_Nil [simp]: "\<not> cast [] key b"
  by (simp add: cast_def)

lemma cast_Cons [simp]: "cast (v # sent) key b \<longleftrightarrow> vote_signer v = key \<and> vt_block_hash v = b \<or> cast sent key b"
  by (auto simp: cast_def)

lemma keeps_log:
  "keeps c c' \<Longrightarrow> dict_get (ms_vote_log (core_view c')) (h, r, p, s) = dict_get (ms_vote_log (core_view c)) (h, r, p, s) \<or>
     dict_get (ms_vote_log (core_view c')) (h, r, p, s) = None \<and> r + 1 < pm_current_round (co_pacemaker c')"
  by (simp add: keeps_def log_pruned_def)

lemma keeps_remembers: "remembers sent i c \<Longrightarrow> keeps c c' \<Longrightarrow> remembers sent i c'"
  unfolding remembers_def keeps_def log_pruned_def
  by (metis (no_types, lifting) later_round order_less_le_trans)

lemma keeps_justified:
  assumes "justified sent faulty c" "keeps c c'"
  shows "justified sent faulty c'"
  unfolding justified_def
proof (intro allI impI)
  fix h r p s b
  assume "s \<notin> faulty" "dict_get (vc_choice_by_signer (co_votes c')) (h, r, p, s) = Some b \<or> dict_get (ms_vote_log (core_view c')) (h, r, p, s) = Some b"
  moreover note keeps_log [OF assms(2), of h r p s]
  ultimately show "cast sent (h, r, p, s) b"
    using assms unfolding justified_def keeps_def by auto
qed

lemma keeps_config: "keeps c c' \<Longrightarrow> co_local c' = co_local c \<and> co_vset c' = co_vset c"
  by (simp add: keeps_def same_config_def)

lemma net_ok_core:
  assumes "net_ok vs faulty n" "i \<in> set (vset_ids vs) - faulty"
  shows "core_ok (nw_cores n i)" "co_local (nw_cores n i) = i" "co_vset (nw_cores n i) = vs"
    "remembers (nw_sent n) i (nw_cores n i)" "justified (nw_sent n) faulty (nw_cores n i)"
  using assms by (auto simp: net_ok_def)

lemma net_ok_update:
  \<comment> \<open>A step that only changes one core, by an operation that forgets nothing it needs\<close>
  assumes "net_ok vs faulty n" "i \<in> set (vset_ids vs) - faulty" "keeps (nw_cores n i) c'"
  shows "net_ok vs faulty (n\<lparr>nw_cores := (nw_cores n)(i := c')\<rparr>)"
  using assms(1) keeps_ok [OF assms(3)] keeps_config [OF assms(3)] net_ok_core [OF assms(1,2)]
    keeps_remembers [OF _ assms(3)] keeps_justified [OF _ assms(3)]
  by (auto simp: net_ok_def)

lemma record_vote_fields:
  "co_vote_choice (record_vote h r p b c) = dict_set (h, r, p) b (co_vote_choice c)"
  "ms_vote_log (core_view (record_vote h r p b c)) = dict_set (h, r, p, co_local c) b (ms_vote_log (core_view c))"
  "co_votes (record_vote h r p b c) = co_votes c" "co_pacemaker (record_vote h r p b c) = co_pacemaker c"
  "co_local (record_vote h r p b c) = co_local c" "co_vset (record_vote h r p b c) = co_vset c"
  by (simp_all add: record_vote_def)

lemma take_vote_fields:
  "co_vote_choice (take_vote v c) = co_vote_choice c"
  "ms_vote_log (core_view (take_vote v c)) = dict_set (vote_signer v) (vt_block_hash v) (ms_vote_log (core_view c))"
  "dict_get (vc_choice_by_signer (co_votes (take_vote v c))) = (dict_get (vc_choice_by_signer (co_votes c)))(vote_signer v \<mapsto> vt_block_hash v)"
  "co_pacemaker (take_vote v c) = co_pacemaker c" "co_local (take_vote v c) = co_local c" "co_vset (take_vote v c) = co_vset c"
  by (simp_all add: take_vote_def vote_signer_def choice_restore fun_eq_iff)

lemma net_ok_vote:
  assumes n: "net_ok vs faulty n" and i: "i \<in> set (vset_ids vs) - faulty"
    and keep: "keeps (nw_cores n i) c1" and round: "pm_current_round (co_pacemaker c1) \<le> pr_round p + 1"
    and choice: "dict_get (co_vote_choice (nw_cores n i)) (pr_height p, pr_round p, phase_value phase) \<in> {None, Some (pr_block_hash p)}"
    and v: "v = local_vote p phase (nw_cores n i)"
    and c': "c' = record_vote (pr_height p) (pr_round p) (phase_value phase) (pr_block_hash p) c1"
  shows "net_ok vs faulty (n\<lparr>nw_cores := (nw_cores n)(i := c'), nw_sent := v # nw_sent n\<rparr>)"
proof -
  let ?key = "(pr_height p, pr_round p, phase_value phase, i)" and ?b = "pr_block_hash p"
  note core = net_ok_core [OF n i]
  have id: "co_local c1 = i" "co_vset c1 = vs" "core_ok c1" "remembers (nw_sent n) i c1" "justified (nw_sent n) faulty c1"
      "co_vote_choice c1 = co_vote_choice (nw_cores n i)"
    using keeps_config [OF keep] keeps_ok [OF keep] core keeps_remembers [OF _ keep] keeps_justified [OF _ keep] keep
    by (auto simp: keeps_def)
  have prior: "b = ?b" if "cast (nw_sent n) ?key b" for b
    using id(4,6) that round choice unfolding remembers_def by fastforce
  have vk: "vote_signer v = ?key" "vt_block_hash v = ?b" using v core(2) by (simp_all add: vote_signer_def local_vote_def)
  have other: "remembers (v # nw_sent n) j c" if "remembers (nw_sent n) j c" "j \<noteq> i" for j c
    using that vk by (simp add: remembers_def)
  have mono: "justified (v # nw_sent n) faulty c" if "justified (nw_sent n) faulty c" for c
    using that unfolding justified_def cast_Cons by blast
  have "remembers (v # nw_sent n) i c'"
    unfolding remembers_def
  proof (intro allI impI)
    fix h r ph b
    assume "cast (v # nw_sent n) (h, r, ph, i) b"
    then consider (new) "(h, r, ph, i) = ?key" "b = ?b" | (old) "(h, r, ph, i) \<noteq> ?key" "cast (nw_sent n) (h, r, ph, i) b"
      using vk prior by (cases "(h, r, ph, i) = ?key") auto
    then show "r + 1 < pm_current_round (co_pacemaker c') \<or>
      dict_get (co_vote_choice c') (h, r, ph) = Some b \<and> dict_get (ms_vote_log (core_view c')) (h, r, ph, i) = Some b"
    proof cases
      case new
      then show ?thesis by (simp add: c' record_vote_fields id(1) dict_simps)
    next
      case old
      then show ?thesis using id(4) unfolding remembers_def by (auto simp: c' record_vote_fields id(1) dict_simps)
    qed
  qed
  moreover have "justified (v # nw_sent n) faulty c'"
    using mono [OF id(5)] vk unfolding justified_def by (auto simp: c' record_vote_fields id(1) dict_simps)
  moreover have "core_ok c'" "co_local c' = i" "co_vset c' = vs"
    using core_ok_record_vote [OF id(3)] id(1,2) by (simp_all add: c' record_vote_fields)
  moreover have "\<forall>key b b'. cast (v # nw_sent n) key b \<longrightarrow> cast (v # nw_sent n) key b' \<longrightarrow> b = b'"
    using n prior vk unfolding net_ok_def cast_Cons by metis
  moreover have "\<forall>q\<in>set (nw_formed n). certified vs (v # nw_sent n) faulty q"
    using n unfolding net_ok_def certified_def by auto
  moreover have "vt_voter v = i" using v core(2) by (simp add: local_vote_def)
  ultimately show ?thesis
    using n i other mono unfolding net_ok_def by auto
qed

lemma justified_take:
  assumes "justified sent faulty c" "v \<in> set sent \<or> vt_voter v \<in> faulty"
  shows "justified sent faulty (take_vote v c)" "justified sent faulty (c\<lparr>co_votes := co_votes (take_vote v c)\<rparr>)"
proof -
  have "cast sent (vote_signer v) (vt_block_hash v)" if "vt_voter v \<notin> faulty"
    using that assms(2) by (auto simp: cast_def)
  then show "justified sent faulty (take_vote v c)" "justified sent faulty (c\<lparr>co_votes := co_votes (take_vote v c)\<rparr>)"
    using assms(1) unfolding justified_def by (auto simp: take_vote_fields dict_simps vote_signer_def)
qed

lemma net_ok_deliver:
  assumes n: "net_ok vs faulty n" and i: "i \<in> set (vset_ids vs) - faulty"
    and v: "v \<in> set (nw_sent n) \<or> vt_voter v \<in> faulty"
    and ok: "core_ok (take_vote v (nw_cores n i))" and keep: "keeps (take_vote v (nw_cores n i)) c'"
  shows "net_ok vs faulty (n\<lparr>nw_cores := (nw_cores n)(i := c')\<rparr>)"
proof -
  let ?c = "take_vote v (nw_cores n i)"
  note core = net_ok_core [OF n i]
  have v_cast: "cast (nw_sent n) (vote_signer v) (vt_block_hash v)" if "vt_voter v \<notin> faulty"
    using that v by (auto simp: cast_def)
  have "remembers (nw_sent n) i ?c"
    unfolding remembers_def
  proof (intro allI impI)
    fix h r p b
    assume sent: "cast (nw_sent n) (h, r, p, i) b"
    have "vt_block_hash v = b" if "vote_signer v = (h, r, p, i)"
      using that sent v_cast n i unfolding net_ok_def vote_signer_def by blast
    then show "r + 1 < pm_current_round (co_pacemaker ?c) \<or>
      dict_get (co_vote_choice ?c) (h, r, p) = Some b \<and> dict_get (ms_vote_log (core_view ?c)) (h, r, p, i) = Some b"
      using core(4) sent unfolding remembers_def by (auto simp: take_vote_fields dict_simps)
  qed
  moreover note justified_take(1) [OF core(5) v]
  ultimately have "net_ok vs faulty (n\<lparr>nw_cores := (nw_cores n)(i := ?c)\<rparr>)"
    using n ok core(2,3) by (auto simp: net_ok_def take_vote_fields)
  from net_ok_update [OF this i, of c'] keep show ?thesis by simp
qed

lemma net_ok_invalid:
  assumes n: "net_ok vs faulty n" and i: "i \<in> set (vset_ids vs) - faulty"
    and v: "v \<in> set (nw_sent n) \<or> vt_voter v \<in> faulty" and ok: "core_ok (take_vote v (nw_cores n i))"
  shows "net_ok vs faulty (n\<lparr>nw_cores := (nw_cores n)(i := (nw_cores n i)\<lparr>co_votes := co_votes (take_vote v (nw_cores n i))\<rparr>)\<rparr>)"
proof -
  note core = net_ok_core [OF n i]
  have "core_ok ((nw_cores n i)\<lparr>co_votes := co_votes (take_vote v (nw_cores n i))\<rparr>)"
    using core(1) ok by (simp add: core_ok_def take_vote_fields)
  moreover have "remembers (nw_sent n) i ((nw_cores n i)\<lparr>co_votes := x\<rparr>)" for x
    using core(4) by (simp add: remembers_def)
  ultimately show ?thesis
    using n core(2,3) justified_take(2) [OF core(5) v] by (auto simp: net_ok_def)
qed

lemma net_ok_restart:
  assumes n: "net_ok vs faulty n" and i: "i \<in> set (vset_ids vs) - faulty"
    and c: "c = nw_cores n i" "core_init (co_chain_id c) (co_epoch_id c) (co_local c) (co_vset c) (store_reopen (co_store c)) = Inr c'"
  shows "net_ok vs faulty (n\<lparr>nw_cores := (nw_cores n)(i := c')\<rparr>)"
proof -
  note core = net_ok_core [OF n i, folded c(1)]
  note new = restart_core [OF core(1) c(2)]
  have "remembers (nw_sent n) i c'"
    using core(2,4) by (auto simp: remembers_def new(3-5))
  moreover have "justified (nw_sent n) faulty c'"
    using core(5) by (auto simp: justified_def new(4,6))
  moreover have "co_local c' = i" "co_vset c' = vs" using new(2) core(2,3) by (simp_all add: same_config_def)
  ultimately show ?thesis using n new(1) by (auto simp: net_ok_def)
qed

lemma formed_certified:
  assumes "net_ok vs faulty n" "i \<in> set (vset_ids vs) - faulty"
    and "add_vote vs v (co_votes (nw_cores n i)) = (Inr (Some q), co_votes (take_vote v (nw_cores n i)))"
    and "justified (nw_sent n) faulty (take_vote v (nw_cores n i))" "core_ok (take_vote v (nw_cores n i))"
  shows "certified vs (nw_sent n) faulty q"
proof -
  let ?c = "take_vote v (nw_cores n i)"
  have q: "q = make_qc v (signers_at (co_votes ?c) (vote_target v))" "has_quorum vs (qc_signers q)"
    using add_vote_qc [OF assms(3)] by blast+
  have "dict_get (vc_choice_by_signer (co_votes ?c)) (vt_height v, vt_round v, phase_value (vt_phase v), s) = Some (vt_block_hash v)"
    if "s \<in> set (qc_signers q)" for s
    using that assms(5) unfolding core_ok_def collector_ok_def by (simp add: q(1) make_qc_def vote_target_def)
  then show ?thesis
    using assms(4) q(2) unfolding certified_def justified_def by (simp add: q(1) make_qc_def)
qed

lemma net_step_ok:
  assumes "net_step C vs faulty n n'" "net_ok vs faulty n" "[] \<notin> set (vset_ids vs)"
  shows "net_ok vs faulty n'"
  using assms(1)
proof (cases rule: net_step.cases)
  case (vote i p j phase res c')
  note core = net_ok_core [OF assms(2) vote(2)]
  from core(1) show ?thesis
  proof (cases rule: make_vote_cases [where C = C and p = p and j = j and phase = phase])
    case (refused e c1)
    then show ?thesis using net_ok_update [OF assms(2) vote(2) refused(2)] vote by simp
  next
    case (voted res' c1)
    have "check_proposal C p j (snd (observe_qc C j (nw_cores n i))) = None" "same_config (nw_cores n i) (snd (observe_qc C j (nw_cores n i)))"
      using voted(4) observe_qc_keeps [OF core(1), of C j]
      by (auto simp: validate_proposal_def keeps_def result_simps split: option.splits)
    then have "vote_init (local_vote p phase (nw_cores n i)) = Inr (local_vote p phase (nw_cores n i))"
      using vote(3) core(2,3) vote(2) assms(3)
      by (auto simp: check_proposal_def same_config_def vote_init_def proposal_init_def local_vote_def split: if_splits)
    then have "res = Inr (local_vote p phase (nw_cores n i))" "c' = record_vote (pr_height p) (pr_round p) (phase_value phase) (pr_block_hash p) c1"
      using voted(1,6) vote(4) by simp_all
    then show ?thesis using net_ok_vote [OF assms(2) vote(2) voted(2,3,5) refl] vote by simp
  qed
next
  case (deliver i v res c')
  note core = net_ok_core [OF assms(2) deliver(2)]
  from core(1) show ?thesis
  proof (cases rule: accept_vote_cases [where C = C and v = v])
    case (refused e)
    then show ?thesis using assms(2) deliver by simp
  next
    case (invalid e)
    then show ?thesis using net_ok_invalid [OF assms(2) deliver(2,3) invalid(2)] deliver by simp
  next
    case (taken res' c1)
    then have c': "res' = res" "c1 = c'" using deliver(4) by simp_all
    let ?n = "n\<lparr>nw_cores := (nw_cores n)(i := c')\<rparr>"
    have n1: "net_ok vs faulty ?n" using net_ok_deliver [OF assms(2) deliver(2,3) taken(2)] taken(3) c' by simp
    show ?thesis
    proof (cases "\<exists>q. res = Inr (Some q)")
      case True
      then obtain q where q: "res = Inr (Some q)" by blast
      then have "certified vs (nw_sent n) faulty q"
        using formed_certified [OF assms(2) deliver(2) _ justified_take(1) [OF core(5) deliver(3)] taken(2)] taken(5) c' core(3) by simp
      moreover have "net_ok vs faulty (m\<lparr>nw_formed := q # nw_formed n\<rparr>)" if "net_ok vs faulty m" "nw_formed m = nw_formed n"
          "certified vs (nw_sent m) faulty q" for m
        using that by (simp add: net_ok_def)
      ultimately show ?thesis using n1 deliver(1) q by fastforce
    next
      case False
      then have "n' = ?n" using deliver(1) by (cases res) (auto split: option.split)
      then show ?thesis using n1 by simp
    qed
  qed
next
  case (proposal i p j res c')
  then show ?thesis using net_ok_update [OF assms(2) proposal(2)] validate_keeps(1) net_ok_core(1) [OF assms(2)] by blast
next
  case (qc i q res c')
  then show ?thesis using net_ok_update [OF assms(2) qc(2)] observe_qc_keeps net_ok_core(1) [OF assms(2)] by (metis snd_conv)
next
  case (tc i t res c')
  then show ?thesis using net_ok_update [OF assms(2) tc(2)] observe_tc_keeps net_ok_core(1) [OF assms(2)] by (metis snd_conv)
next
  case (timeout i h r res c')
  then show ?thesis using net_ok_update [OF assms(2) timeout(2)] make_timeout_vote_keeps net_ok_core(1) [OF assms(2)] by (metis snd_conv)
next
  case (deliver_timeout i v res c')
  then show ?thesis
    using net_ok_update [OF assms(2) deliver_timeout(2)] accept_timeout_vote_keeps net_ok_core(1) [OF assms(2)] by (metis snd_conv)
next
  case (restart i c c')
  then show ?thesis using net_ok_restart [OF assms(2) restart(2,3,4)] by simp
qed

subsection \<open>Agreement\<close>

lemma fresh_core_ok:
  assumes "fresh_core vs i c" "vset_ok vs"
  shows "core_ok c" "co_local c = i" "co_vset c = vs" "co_vote_choice c = []" "co_votes c = vote_collector_new"
    "ms_vote_log (core_view c) = []" "co_pacemaker c = pacemaker_default" "locked_qc c = None"
proof -
  obtain chain epoch st where c: "core_init chain epoch i vs st = Inr c"
    "st = MemoryStore mem_store_new \<or> st = SqliteStore (sqlite_open sqlite_db_new)"
    using assms(1) unfolding fresh_core_def by blast
  have view: "store_view st = mem_store_new" "runtime_row_ok st"
    using c(2) sqlite_new_ok by (auto simp: sqlite_open_fields sqlite_db_new_def)
  have "c = \<lparr>co_chain_id = chain, co_epoch_id = epoch, co_local = i, co_vset = vs, co_store = st, co_pacemaker = pacemaker_default,
      co_votes = vote_collector_new, co_timeouts = timeout_collector_new, co_vote_choice = [], co_timeout_rounds = []\<rparr> \<and> i \<in> set (vset_ids vs)"
    using c(1) view(1) by (auto simp: core_init_def Let_def store_loads mem_load_votes_def mem_load_timeouts_def mem_load_persisted_def
        mem_store_new_def split: if_splits)
  then show "core_ok c" "co_local c = i" "co_vset c = vs" "co_vote_choice c = []" "co_votes c = vote_collector_new"
    "ms_vote_log (core_view c) = []" "co_pacemaker c = pacemaker_default" "locked_qc c = None"
    using view assms(2) by (simp_all add: core_ok_def core_view_def core_certificates mem_store_new_def)
qed

lemma net_start_ok:
  assumes "net_start vs faulty n" "vset_ok vs"
  shows "net_ok vs faulty n"
proof -
  have "core_ok (nw_cores n i) \<and> co_local (nw_cores n i) = i \<and> co_vset (nw_cores n i) = vs \<and> remembers [] i (nw_cores n i) \<and>
      justified [] faulty (nw_cores n i)" if "i \<in> set (vset_ids vs) - faulty" for i
  proof -
    have f: "fresh_core vs i (nw_cores n i)" using assms(1) that by (auto simp: net_start_def)
    note fresh_core_ok [OF f assms(2)]
    then show ?thesis by (simp add: remembers_def justified_def) (simp add: vote_collector_new_def)
  qed
  then show ?thesis using assms(1) by (simp add: net_ok_def net_start_def)
qed

lemma net_run_ok:
  assumes "(net_step C vs faulty)\<^sup>*\<^sup>* n0 n" "net_start vs faulty n0" "vset_ok vs" "[] \<notin> set (vset_ids vs)"
  shows "net_ok vs faulty n"
  using assms(1) by induction (use net_start_ok net_step_ok assms in blast)+

text \<open>C4. Agreement. In every run of any set of validators of which at most a third are faulty, with messages lost,
  repeated, reordered or (for everything but honest votes) forged, and with any core restarted from its
  in-memory or SQLite store at any time between calls: no honest validator ever sends two different votes for one height, round
  and phase, and all certificates that honest validators form for it are for the same block.\<close>

theorem consensus_agreement:
  assumes "vset_from_validators C xs = Inr vs" "[] \<notin> cv_id ` set xs"
    and "3 * card (faulty \<inter> cv_id ` set xs) \<le> card (cv_id ` set xs)"
    and "net_start vs faulty n0" "(net_step C vs faulty)\<^sup>*\<^sup>* n0 n"
  shows "(\<forall>v v'. v \<in> set (nw_sent n) \<and> v' \<in> set (nw_sent n) \<and> vote_signer v = vote_signer v' \<longrightarrow> vt_block_hash v = vt_block_hash v') \<and>
    (\<forall>q q'. q \<in> set (nw_formed n) \<and> q' \<in> set (nw_formed n) \<and> qc_height q = qc_height q' \<and> qc_round q = qc_round q' \<and>
       qc_phase q = qc_phase q' \<longrightarrow> qc_block_hash q = qc_block_hash q')"
proof -
  have vs: "vset_ok vs" "set (vset_ids vs) = cv_id ` set xs" using from_validators_ok [OF assms(1)] by blast+
  have ok: "net_ok vs faulty n" using net_run_ok [OF assms(5,4) vs(1)] assms(2) vs(2) by simp
  have "qc_block_hash q = qc_block_hash q'"
    if q: "q \<in> set (nw_formed n)" "q' \<in> set (nw_formed n)"
      and same: "qc_height q = qc_height q'" "qc_round q = qc_round q'" "qc_phase q = qc_phase q'" for q q'
  proof -
    have c: "certified vs (nw_sent n) faulty q" "certified vs (nw_sent n) faulty q'" using ok q by (simp_all add: net_ok_def)
    then obtain s where "s \<in> set (qc_signers q)" "s \<in> set (qc_signers q')" "s \<notin> faulty"
      using vset.common_honest [OF vs(1), of "set (qc_signers q)" "set (qc_signers q')" faulty] assms(3)
      by (auto simp: certified_def has_quorum_iff vs(2))
    then show ?thesis using c ok same unfolding certified_def net_ok_def by (metis DiffI)
  qed
  moreover have "vt_block_hash v = vt_block_hash v'"
    if "v \<in> set (nw_sent n)" "v' \<in> set (nw_sent n)" "vote_signer v = vote_signer v'" for v v'
    using ok that unfolding net_ok_def cast_def by metis
  ultimately show ?thesis by blast
qed

definition sole_vset :: "crypto \<Rightarrow> validator_set" where
  "sole_vset C = projr (vset_from_validators C [\<lparr>cv_id = ''a'', cv_vote_pubkey = [1], cv_vrf_pubkey = [2], cv_weight = 1\<rparr>])"

definition sole_core :: "crypto \<Rightarrow> core" where
  "sole_core C = projr (core_init 1 0 ''a'' (sole_vset C) (SqliteStore (sqlite_open sqlite_db_new)))"

definition sole_proposal :: "crypto \<Rightarrow> proposal" where
  "sole_proposal C = \<lparr>pr_chain_id = 1, pr_epoch_id = 0, pr_height = 1, pr_round = 1, pr_proposer = ''a'',
     pr_vset_hash = vs_hash (sole_vset C), pr_block_hash = replicate 32 7, pr_justify_qc_hash = None\<rparr>"

theorem consensus_agreement_witness:
  "\<exists>n q. net_start (sole_vset flat_crypto) {} \<lparr>nw_cores = \<lambda>_. sole_core flat_crypto, nw_sent = [], nw_formed = []\<rparr> \<and>
     (net_step flat_crypto (sole_vset flat_crypto) {})\<^sup>*\<^sup>* \<lparr>nw_cores = \<lambda>_. sole_core flat_crypto, nw_sent = [], nw_formed = []\<rparr> n \<and>
     q \<in> set (nw_formed n) \<and> qc_block_hash q = replicate 32 7 \<and>
     (\<forall>q'\<in>set (nw_formed n). qc_height q' = 1 \<and> qc_round q' = 1 \<and> qc_phase q' = COMMIT \<longrightarrow> qc_block_hash q' = qc_block_hash q)"
proof -
  let ?C = flat_crypto and ?vs = "sole_vset flat_crypto" and ?p = "sole_proposal flat_crypto" and ?c = "sole_core flat_crypto"
  let ?n = "\<lparr>nw_cores = \<lambda>_. ?c, nw_sent = [], nw_formed = []\<rparr>"
  have vs: "vset_from_validators ?C [\<lparr>cv_id = ''a'', cv_vote_pubkey = [1], cv_vrf_pubkey = [2], cv_weight = 1\<rparr>] = Inr ?vs"
    "vset_ids ?vs = [''a'']" "vs_quorum_size ?vs = 1"
    by (simp_all add: sole_vset_def vset_from_validators_def Let_def vset_ids_def)
  have hash: "hash32 (vs_hash ?vs)"
    by (simp add: sole_vset_def vset_from_validators_def Let_def compute_validator_set_hash_def hash_with_domain_def sha_hash32)
  have c: "core_init 1 0 ''a'' ?vs (SqliteStore (sqlite_open sqlite_db_new)) = Inr ?c" by (simp add: sole_core_def core_init_def Let_def vs(2))
  then have start: "net_start ?vs {} ?n" unfolding net_start_def fresh_core_def using vs(2) by auto
  define v where "v = local_vote ?p COMMIT ?c"
  define c1 where "c1 = snd (make_vote ?C ?p None COMMIT ?c)"
  define q where "q = make_qc v [''a'']"
  have "?c = \<lparr>co_chain_id = 1, co_epoch_id = 0, co_local = ''a'', co_vset = ?vs, co_store = SqliteStore (sqlite_open sqlite_db_new),
      co_pacemaker = pacemaker_default, co_votes = vote_collector_new, co_timeouts = timeout_collector_new, co_vote_choice = [],
      co_timeout_rounds = []\<rparr>"
    by (simp add: sole_core_def core_init_def Let_def vs(2) sqlite_load_votes_def sqlite_load_timeouts_def sqlite_load_persisted_def
        sqlite_open_fields) (simp add: sqlite_db_new_def)
  then have fields: "co_chain_id ?c = 1" "co_epoch_id ?c = 0" "co_local ?c = ''a''" "co_vset ?c = ?vs" "co_pacemaker ?c = pacemaker_default"
    "co_vote_choice ?c = []" "co_votes ?c = vote_collector_new" "locked_qc ?c = None"
    by (simp_all add: core_certificates core_view_def sqlite_view_def sqlite_open_fields) (simp add: sqlite_db_new_def)
  have "make_vote ?C ?p None COMMIT ?c = (Inr v, c1)"
    using hash by (simp add: c1_def v_def make_vote_def validate_proposal_def observe_qc_def check_proposal_def check_justify_def
        below_lock_def fields sole_proposal_def vs(2) pacemaker_default_def Let_def vote_init_def local_vote_def hash32_def)
  then have step1: "net_step ?C ?vs {} ?n (?n\<lparr>nw_cores := (nw_cores ?n)(''a'' := c1), nw_sent := [v]\<rparr>)"
    using net_step.vote [of "''a''" ?vs "{}" ?p ?C None COMMIT ?n "Inr v" c1] hash vs(2)
    by (simp add: proposal_init_def sole_proposal_def hash32_def hash32_opt_def)
  have c1: "co_vset c1 = ?vs" "co_votes c1 = vote_collector_new"
    using hash by (simp_all add: c1_def make_vote_def validate_proposal_def observe_qc_def check_proposal_def check_justify_def
        below_lock_def fields sole_proposal_def vs(2) pacemaker_default_def Let_def vote_init_def local_vote_def hash32_def)
  have "add_vote ?vs v vote_collector_new = (Inr (Some q), restore_vote 1 1 ''commit'' ''a'' (replicate 32 7) vote_collector_new)"
    using hash by (simp add: add_vote_def restore_vote_def vote_collector_new_def Let_def dict_get_default_def vote_signer_def
        vote_target_def v_def local_vote_def fields sole_proposal_def vs has_quorum_def qc_init_def make_qc_def hash32_def q_def)
  moreover have "net_ok ?vs {} (?n\<lparr>nw_cores := (nw_cores ?n)(''a'' := c1), nw_sent := [v]\<rparr>)"
    using net_run_ok [OF r_into_rtranclp [of "net_step ?C ?vs {}", OF step1] start] from_validators_ok [OF vs(1)] vs(2) by simp
  then have ok: "core_ok c1" using vs(2) by (simp add: net_ok_def)
  then have "core_ok (take_vote v c1)"
    by (rule core_ok_take_vote) (simp_all add: c1 vs(2) v_def local_vote_def fields, simp add: vote_collector_new_def)
  then have "fst (absorb_qc ?C q (take_vote v c1)) = Inr ()"
    by (cases rule: absorb_qc_cases [where q = q and C = ?C]) (simp_all add: q_def make_qc_def v_def local_vote_def sole_proposal_def)
  ultimately have "fst (accept_vote ?C v c1) = Inr (Some q)"
    by (cases "absorb_qc ?C q (take_vote v c1)")
      (simp add: accept_vote_def c1 Let_def take_vote_def v_def local_vote_def sole_proposal_def fields)
  then obtain c2 where "accept_vote ?C v c1 = (Inr (Some q), c2)" by (cases "accept_vote ?C v c1") simp
  then have step2: "net_step ?C ?vs {} (?n\<lparr>nw_cores := (nw_cores ?n)(''a'' := c1), nw_sent := [v]\<rparr>)
      (?n\<lparr>nw_cores := (nw_cores ?n)(''a'' := c2), nw_sent := [v], nw_formed := [q]\<rparr>)" (is "net_step _ _ _ _ ?m")
    using net_step.deliver [of "''a''" ?vs "{}" v "?n\<lparr>nw_cores := (nw_cores ?n)(''a'' := c1), nw_sent := [v]\<rparr>" ?C "Inr (Some q)" c2] vs(2)
    by simp
  have two: "r\<^sup>*\<^sup>* x z" if "r x y" "r y z" for r :: "network \<Rightarrow> network \<Rightarrow> bool" and x y z
    using that by (rule converse_rtranclp_into_rtranclp [OF _ r_into_rtranclp])
  have run: "(net_step ?C ?vs {})\<^sup>*\<^sup>* ?n ?m" by (rule two [OF step1 step2])
  have q: "q \<in> set (nw_formed ?m)" "qc_height q = 1" "qc_round q = 1" "qc_phase q = COMMIT" "qc_block_hash q = replicate 32 7"
    by (simp_all add: q_def make_qc_def v_def local_vote_def sole_proposal_def)
  have "\<forall>q'\<in>set (nw_formed ?m). qc_height q' = 1 \<and> qc_round q' = 1 \<and> qc_phase q' = COMMIT \<longrightarrow> qc_block_hash q' = qc_block_hash q"
    using consensus_agreement [OF vs(1) _ _ start run] q(1-4) by simp
  then show ?thesis using start run q(1,5) by blast
qed

end
