(* ===== verification/Consensus_Runner.thy ===== *)
theory Consensus_Runner
  imports Consensus_Safety
begin

section \<open>Driving a round (\<open>EZ_V2/consensus/runner.py\<close>)\<close>

text \<open>
  The driver runs the three phases of a round, or a timeout round, over a list of cores: everybody makes
  its vote, then every vote is given to everybody. With a quorum of cores that are ready for a proposal,
  the round commits it. The commit does not stop the same cores from committing another block at the same height in a
  later round, which the protocol document rules out.
\<close>

definition on_proposal :: "crypto \<Rightarrow> proposal \<Rightarrow> qc option \<Rightarrow> vote_phase \<Rightarrow> core \<Rightarrow> (core_error, vote, core) outcome" where
  "on_proposal C p justify phase c = make_vote C p justify phase c"

definition on_vote :: "crypto \<Rightarrow> vote \<Rightarrow> core \<Rightarrow> (core_error, qc option, core) outcome" where
  "on_vote C v c = accept_vote C v c"

definition on_timeout :: "crypto \<Rightarrow> timeout_vote \<Rightarrow> core \<Rightarrow> (core_error, tc option, core) outcome" where
  "on_timeout C v c = accept_timeout_vote C v c"

datatype runner_error = CoreRaised core_error | NoQuorumCertificate vote_phase | NoTimeoutCertificate

record round_result =
  rr_prepare_qc :: qc
  rr_precommit_qc :: qc
  rr_commit_qc :: qc

definition last_some :: "'a option \<Rightarrow> 'a option list \<Rightarrow> 'a option" where
  \<comment> \<open>\<open>for maybe in results: if maybe is not None: x = maybe\<close>\<close>
  "last_some x results = foldl (\<lambda>x maybe. case maybe of None \<Rightarrow> x | Some y \<Rightarrow> Some y) x results"

fun deliver_votes :: "crypto \<Rightarrow> vote list \<Rightarrow> qc option \<Rightarrow> core list \<Rightarrow> (core_error, qc option, core list) outcome" where
  "deliver_votes C [] qc cs = (Inr qc, cs)"
| "deliver_votes C (v # vs) qc cs =
     st_bind (each_object (accept_vote C v) cs) (\<lambda>results cs. deliver_votes C vs (last_some qc results) cs)"

definition drive_vote_phase :: "crypto \<Rightarrow> proposal \<Rightarrow> qc option \<Rightarrow> vote_phase \<Rightarrow> core list \<Rightarrow> (runner_error, qc, core list) outcome" where
  "drive_vote_phase C p justify phase cs =
     (case st_bind (each_object (make_vote C p justify phase) cs) (\<lambda>votes cs. deliver_votes C votes None cs) of
        (Inl e, cs) \<Rightarrow> (Inl (CoreRaised e), cs)
      | (Inr None, cs) \<Rightarrow> (Inl (NoQuorumCertificate phase), cs)
      | (Inr (Some q), cs) \<Rightarrow> (Inr q, cs))"

definition drive_single_round_commit :: "crypto \<Rightarrow> proposal \<Rightarrow> qc option \<Rightarrow> core list \<Rightarrow> (runner_error, round_result, core list) outcome" where
  "drive_single_round_commit C p justify cs =
     st_bind (drive_vote_phase C p justify PREPARE cs) (\<lambda>prepare_qc cs.
     st_bind (drive_vote_phase C p justify PRECOMMIT cs) (\<lambda>precommit_qc cs.
     st_bind (drive_vote_phase C p justify COMMIT cs) (\<lambda>commit_qc cs.
       (Inr \<lparr>rr_prepare_qc = prepare_qc, rr_precommit_qc = precommit_qc, rr_commit_qc = commit_qc\<rparr>, cs))))"

fun deliver_timeouts :: "crypto \<Rightarrow> timeout_vote list \<Rightarrow> tc option \<Rightarrow> core list \<Rightarrow> (core_error, tc option, core list) outcome" where
  "deliver_timeouts C [] tc cs = (Inr tc, cs)"
| "deliver_timeouts C (v # vs) tc cs =
     st_bind (each_object (accept_timeout_vote C v) cs) (\<lambda>results cs. deliver_timeouts C vs (last_some tc results) cs)"

definition drive_timeout_round :: "crypto \<Rightarrow> int \<Rightarrow> int \<Rightarrow> core list \<Rightarrow> (runner_error, tc, core list) outcome" where
  "drive_timeout_round C height round cs =
     (case st_bind (each_object (make_timeout_vote C height round) cs) (\<lambda>votes cs. deliver_timeouts C votes None cs) of
        (Inl e, cs) \<Rightarrow> (Inl (CoreRaised e), cs)
      | (Inr None, cs) \<Rightarrow> (Inl NoTimeoutCertificate, cs)
      | (Inr (Some t), cs) \<Rightarrow> (Inr t, cs))"

subsection \<open>A core that is ready for a proposal\<close>

definition ready :: "crypto \<Rightarrow> proposal \<Rightarrow> qc option \<Rightarrow> core \<Rightarrow> bool" where
  \<comment> \<open>The proposal is for this core's chain and set, of a round it can still vote in, its certificate is the one it names
    and is not below the core's lock.\<close>
  "ready C p j c \<longleftrightarrow> core_ok c \<and> pr_chain_id p = co_chain_id c \<and> pr_epoch_id p = co_epoch_id c \<and>
     pr_vset_hash p = vs_hash (co_vset c) \<and> pr_proposer p \<in> set (vset_ids (co_vset c)) \<and> co_local c \<noteq> [] \<and>
     pm_current_round (co_pacemaker c) \<le> pr_round p + 1 \<and> check_justify C p j c = None \<and>
     (\<forall>q. j = Some q \<longrightarrow> 0 \<le> qc_round q \<and> qc_round q \<le> pr_round p) \<and> \<not> below_lock p j (locked_qc c)"

definition advanced :: "proposal \<Rightarrow> vote_phase \<Rightarrow> core \<Rightarrow> core \<Rightarrow> bool" where
  \<comment> \<open>What voting in one phase may change\<close>
  "advanced p phase c c' \<longleftrightarrow> same_config c c' \<and> later (co_pacemaker c) (co_pacemaker c') \<and>
     (\<forall>k. k \<noteq> (pr_height p, pr_round p, phase_value phase) \<longrightarrow> dict_get (co_vote_choice c') k = dict_get (co_vote_choice c) k) \<and>
     (\<forall>h r ph s. (h, r, ph) \<noteq> (pr_height p, pr_round p, phase_value phase) \<longrightarrow>
        dict_get (vc_choice_by_signer (co_votes c')) (h, r, ph, s) = dict_get (vc_choice_by_signer (co_votes c)) (h, r, ph, s))"

lemma advanced_refl: "advanced p phase c c"
  by (simp add: advanced_def same_config_def)

lemma advanced_trans: "advanced p phase a b \<Longrightarrow> advanced p phase b c \<Longrightarrow> advanced p phase a c"
  unfolding advanced_def by (auto intro: later_trans same_config_trans)

lemma check_justify_config: "same_config c c' \<Longrightarrow> check_justify C p j c' = check_justify C p j c"
  by (auto simp: check_justify_def same_config_def split: option.split)

lemma ready_keeps:
  assumes "ready C p j c" "keeps c c'" "pm_current_round (co_pacemaker c') \<le> pr_round p + 1" "\<not> below_lock p j (locked_qc c')"
  shows "ready C p j c'"
  using assms check_justify_config [of c c' C p j] by (simp add: ready_def keeps_def same_config_def)

lemma keeps_advanced: "keeps c c' \<Longrightarrow> advanced p phase c c'"
  by (simp add: keeps_def advanced_def)

lemma ready_observe:
  assumes "ready C p j c"
  obtains c' where "observe_qc C j c = (Inr (), c')" "keeps c c'" "ready C p j c'"
proof (cases j)
  case None
  then show ?thesis using that [of c] assms keeps_refl by (simp add: observe_qc_def ready_def)
next
  case (Some q)
  have ok: "core_ok c" and q: "0 \<le> qc_round q" "qc_round q \<le> pr_round p" using assms Some by (simp_all add: ready_def)
  from ok show ?thesis
  proof (cases rule: absorb_qc_cases [where q = q and C = C])
    case (refused c')
    then show ?thesis using q(1) by simp
  next
    case (absorbed c')
    have "\<not> below_lock p j (locked_qc c')"
      using assms Some absorbed(4) by (auto simp: ready_def below_lock_def lock_of_def split: option.splits if_splits)
    then have "ready C p j c'"
      using ready_keeps [OF assms absorbed(2)] absorbed(3) q(2) assms by (simp add: ready_def)
    then show ?thesis using that [of c'] absorbed(1,2) Some by (simp add: observe_qc_def)
  qed
qed

lemma proposal_init_facts:
  "proposal_init p = Inr p \<Longrightarrow> 0 \<le> pr_chain_id p \<and> 0 \<le> pr_epoch_id p \<and> 0 < pr_height p \<and> 0 < pr_round p \<and>
     hash32 (pr_vset_hash p) \<and> hash32 (pr_block_hash p)"
  by (simp add: proposal_init_def not_less not_le split: if_splits)

lemma record_vote_config:
  "same_config c (record_vote h r phase b c)" "locked_qc (record_vote h r phase b c) = locked_qc c"
  by (simp_all add: record_vote_def same_config_def core_certificates)

lemma ready_make_vote:
  assumes "ready C p j c" "proposal_init p = Inr p"
    "dict_get (co_vote_choice c) (pr_height p, pr_round p, phase_value phase) \<in> {None, Some (pr_block_hash p)}"
  shows "\<exists>c'. make_vote C p j phase c = (Inr (local_vote p phase c), c') \<and> ready C p j c' \<and> advanced p phase c c' \<and> co_votes c' = co_votes c"
proof -
  obtain c1 where o: "observe_qc C j c = (Inr (), c1)" "keeps c c1" "ready C p j c1"
    using ready_observe [OF assms(1)] by blast
  let ?c2 = "store_do (SaveProposal (proposal_hash C p) p) c1"
  have "check_proposal C p j c1 = None"
    using o(3) by (simp add: check_proposal_def ready_def)
  then have v: "validate_proposal C p j c = (Inr (), ?c2)" by (simp add: validate_proposal_def o(1))
  have r2: "keeps c ?c2" "locked_qc ?c2 = locked_qc c1" "co_pacemaker ?c2 = co_pacemaker c1"
    using validate_keeps(1) [OF _ v] assms(1) by (auto simp: ready_def core_certificates)
  have ready2: "ready C p j ?c2"
    by (rule ready_keeps [OF assms(1) r2(1)]) (use o(3) r2(2,3) in \<open>simp_all add: ready_def\<close>)
  let ?c3 = "record_vote (pr_height p) (pr_round p) (phase_value phase) (pr_block_hash p) ?c2"
  have same: "co_vote_choice ?c2 = co_vote_choice c" "same_config c ?c2" using r2(1) by (simp_all add: keeps_def)
  have "vote_init (local_vote p phase ?c2) = Inr (local_vote p phase c)"
  proof -
    have "local_vote p phase ?c2 = local_vote p phase c" using same(2) by (simp add: local_vote_def same_config_def)
    moreover have "0 \<le> co_chain_id c" "0 \<le> co_epoch_id c" "hash32 (vs_hash (co_vset c))" "co_local c \<noteq> []"
      "0 < pr_height p" "0 < pr_round p" "hash32 (pr_block_hash p)"
      using proposal_init_facts [OF assms(2)] assms(1) by (simp_all add: ready_def)
    ultimately show ?thesis by (simp add: vote_init_def local_vote_def)
  qed
  then have "make_vote C p j phase c = (Inr (local_vote p phase c), ?c3)"
    using assms(3) same by (auto simp: make_vote_def v Let_def record_vote_def local_vote_def)
  moreover have "ready C p j ?c3"
    using ready2 core_ok_record_vote [of ?c2] check_justify_config [OF record_vote_config(1), of C p j] record_vote_config
    by (simp add: ready_def same_config_def record_vote_fields(4-6))
  moreover have "advanced p phase c ?c3" "co_votes ?c3 = co_votes c"
    using r2(1) by (auto simp: advanced_def keeps_def record_vote_fields dict_simps same_config_def) (simp_all add: record_vote_def)
  ultimately show ?thesis by blast
qed

subsection \<open>Gathering the votes of a phase\<close>

definition phase_vote :: "proposal \<Rightarrow> vote_phase \<Rightarrow> string \<Rightarrow> vote" where
  "phase_vote p phase s = \<lparr>vt_chain_id = pr_chain_id p, vt_epoch_id = pr_epoch_id p, vt_height = pr_height p,
     vt_round = pr_round p, vt_voter = s, vt_vset_hash = pr_vset_hash p, vt_block_hash = pr_block_hash p, vt_phase = phase\<rparr>"

definition qc_for :: "proposal \<Rightarrow> vote_phase \<Rightarrow> string set \<Rightarrow> qc" where
  "qc_for p phase S = \<lparr>qc_chain_id = pr_chain_id p, qc_epoch_id = pr_epoch_id p, qc_height = pr_height p,
     qc_round = pr_round p, qc_phase = phase, qc_vset_hash = pr_vset_hash p, qc_block_hash = pr_block_hash p,
     qc_signers = sorted_list_of_set S\<rparr>"

definition gathered :: "proposal \<Rightarrow> vote_phase \<Rightarrow> string set \<Rightarrow> core \<Rightarrow> bool" where
  \<comment> \<open>These validators' votes in this phase are in, all for the proposed block.\<close>
  "gathered p phase S c \<longleftrightarrow> (\<forall>s. dict_get (vc_choice_by_signer (co_votes c)) (pr_height p, pr_round p, phase_value phase, s) =
     (if s \<in> S then Some (pr_block_hash p) else None))"

definition concluded :: "proposal \<Rightarrow> vote_phase \<Rightarrow> core \<Rightarrow> bool" where
  "concluded p phase c \<longleftrightarrow> pr_round p < pm_current_round (co_pacemaker c) \<and>
     (phase = COMMIT \<longrightarrow> pr_round p \<le> pm_last_decided_round (co_pacemaker c))"

lemma local_vote_phase: "ready C p j c \<Longrightarrow> local_vote p phase c = phase_vote p phase (co_local c)"
  by (simp add: ready_def local_vote_def phase_vote_def)

lemma gathered_signers:
  assumes "core_ok c" "gathered p phase S c"
  shows "set (signers_at (co_votes c) (pr_height p, pr_round p, phase_value phase, pr_block_hash p)) = S"
    "distinct (signers_at (co_votes c) (pr_height p, pr_round p, phase_value phase, pr_block_hash p))"
proof -
  have "collector_ok (set (vset_ids (co_vset c))) (co_votes c)" using assms(1) by (simp add: core_ok_def)
  then have "s \<in> set (signers_at (co_votes c) (pr_height p, pr_round p, phase_value phase, pr_block_hash p)) \<longleftrightarrow> s \<in> S" for s
    using assms(2) unfolding collector_ok_def gathered_def by simp
  then show "set (signers_at (co_votes c) (pr_height p, pr_round p, phase_value phase, pr_block_hash p)) = S" by blast
  show "distinct (signers_at (co_votes c) (pr_height p, pr_round p, phase_value phase, pr_block_hash p))"
    using \<open>collector_ok _ _\<close> unfolding collector_ok_def by blast
qed

lemma qc_for_init:
  assumes "proposal_init p = Inr p" "finite S" "S \<noteq> {}"
  shows "qc_init (qc_for p phase S) = Inr (qc_for p phase S)"
  using proposal_init_facts [OF assms(1)] assms(2,3) by (simp add: qc_init_def qc_for_def sorted_sort_id)

lemma take_vote_config:
  "same_config c (take_vote v c)" "locked_qc (take_vote v c) = locked_qc c"
  by (simp_all add: take_vote_def same_config_def core_certificates)

lemma ready_accept:
  assumes "ready C p j c" "proposal_init p = Inr p" "gathered p phase S c" "finite S" "s \<in> set (vset_ids (co_vset c))"
  defines "v \<equiv> phase_vote p phase s" and "full \<equiv> signers_quorum (co_vset c) (insert s S)"
  shows "\<exists>c'. accept_vote C v c = (Inr (if full then Some (qc_for p phase (insert s S)) else None), c') \<and>
    ready C p j c' \<and> advanced p phase c c' \<and> gathered p phase (insert s S) c' \<and> co_vote_choice c' = co_vote_choice c \<and>
    (full \<longrightarrow> concluded p phase c')"
proof -
  have ok: "core_ok c" and hash: "pr_vset_hash p = vs_hash (co_vset c)" using assms(1) by (simp_all add: ready_def)
  let ?t = "(pr_height p, pr_round p, phase_value phase, pr_block_hash p)"
  let ?col = "co_votes (take_vote v c)" and ?q = "qc_for p phase (insert s S)"
  have choice: "dict_get (vc_choice_by_signer (co_votes c)) (vote_signer v) \<in> {None, Some (vt_block_hash v)}"
    using assms(3) by (simp add: gathered_def v_def phase_vote_def vote_signer_def)
  have ok': "core_ok (take_vote v c)"
    using core_ok_take_vote [OF ok, of v] choice assms(5) by (auto simp: v_def phase_vote_def)
  have gath: "gathered p phase (insert s S) (take_vote v c)"
    using assms(3) by (auto simp: gathered_def take_vote_fields v_def phase_vote_def vote_signer_def)
  have sig: "set (signers_at ?col ?t) = insert s S" "distinct (signers_at ?col ?t)"
    using gathered_signers [OF ok' gath] by blast+
  have "make_qc v (signers_at ?col ?t) = ?q"
  proof -
    have "sort (signers_at ?col ?t) = sorted_list_of_set (insert s S)"
      using sig by (metis sorted_list_of_set_sort_remdups distinct_remdups_id)
    then show ?thesis by (simp add: make_qc_def qc_for_def) (simp add: v_def phase_vote_def)
  qed
  with sig have add: "add_vote (co_vset c) v (co_votes c) = (Inr (if full then Some ?q else None), ?col)"
    using choice hash assms(5) sig qc_for_init [OF assms(2), of "insert s S" phase] assms(4)
    by (auto simp: add_vote_def v_def phase_vote_def vote_signer_def vote_target_def Let_def take_vote_def signers_at_def
        has_quorum_iff full_def)
  have ready': "ready C p j (take_vote v c)"
    using assms(1) ok' take_vote_config [where c = c and v = v] check_justify_config [OF take_vote_config(1) [of c v], of C p j]
    by (simp add: ready_def same_config_def take_vote_fields(4-6))
  have adv: "advanced p phase c (take_vote v c)" "co_vote_choice (take_vote v c) = co_vote_choice c"
    using take_vote_config(1) by (auto simp: advanced_def take_vote_fields v_def phase_vote_def vote_signer_def)
  show ?thesis
  proof (cases full)
    case False
    then have "accept_vote C v c = (Inr None, take_vote v c)"
      using add by (simp add: accept_vote_def take_vote_def)
    then show ?thesis using False ready' adv gath by auto
  next
    case True
    have acc: "accept_vote C v c = st_bind (absorb_qc C ?q (take_vote v c)) (\<lambda>_ c. (Inr (Some ?q), c))"
      using add True by (simp add: accept_vote_def take_vote_def Let_def)
    have q: "qc_round ?q = pr_round p" "qc_phase ?q = phase" "qc_block_hash ?q = pr_block_hash p" "0 < pr_round p"
      using proposal_init_facts [OF assms(2)] by (simp_all add: qc_for_def)
    from ok' show ?thesis
    proof (cases rule: absorb_qc_cases [where q = ?q and C = C])
      case (refused c')
      then show ?thesis using q by simp
    next
      case (absorbed c')
      have "\<not> below_lock p j (locked_qc c')"
        using ready' absorbed(4) q(3) by (auto simp: ready_def below_lock_def lock_of_def split: option.splits if_splits)
      then have "ready C p j c'"
        using ready_keeps [OF ready' absorbed(2)] absorbed(3) q(1) ready' by (simp add: ready_def)
      moreover have "gathered p phase (insert s S) c'" "co_vote_choice c' = co_vote_choice c"
        using gath absorbed(2) adv(2) by (simp_all add: gathered_def keeps_def)
      moreover have "concluded p phase c'" using absorbed(3,5) unfolding q(1,2) concluded_def by auto
      moreover have "advanced p phase c c'" using advanced_trans [OF adv(1) keeps_advanced [OF absorbed(2)]] .
      ultimately show ?thesis using True acc absorbed(1) by auto
    qed
  qed
qed

subsection \<open>A whole phase\<close>

definition phase_ok :: "crypto \<Rightarrow> validator_set \<Rightarrow> proposal \<Rightarrow> qc option \<Rightarrow> vote_phase \<Rightarrow> string set \<Rightarrow> core list \<Rightarrow> core list \<Rightarrow> bool" where
  \<comment> \<open>The cores as they were and as they are with these validators' votes in\<close>
  "phase_ok C vs p j phase S cs cs' \<longleftrightarrow>
     list_all2 (\<lambda>c c'. ready C p j c' \<and> co_vset c' = vs \<and> gathered p phase S c' \<and> advanced p phase c c') cs cs'"

lemma last_some_replicate: "n \<noteq> 0 \<Longrightarrow> last_some x (replicate n m) = (case m of None \<Rightarrow> x | Some y \<Rightarrow> Some y)"
proof -
  have "last_some x (replicate n m) = (case m of None \<Rightarrow> x | Some y \<Rightarrow> if n = 0 then x else Some y)"
    by (induction n arbitrary: x) (auto simp: last_some_def split: option.split)
  then show "last_some x (replicate n m) = (case m of None \<Rightarrow> x | Some y \<Rightarrow> Some y)" if "n \<noteq> 0" using that by (simp split: option.split)
qed

lemma each_object_all:
  assumes "\<And>x. x \<in> set xs \<Longrightarrow> \<exists>x'. f x = (Inr (g x), x') \<and> P x x'"
  shows "\<exists>xs'. each_object f xs = (Inr (map g xs), xs') \<and> list_all2 P xs xs'"
proof -
  have "each_object f xs = (Inr (map g xs), map (\<lambda>x. snd (f x)) xs)"
    using assms by (intro each_object_total) fastforce
  moreover have "list_all2 P xs (map (\<lambda>x. snd (f x)) xs)"
    unfolding list_all2_map2 list_all2_same using assms by fastforce
  ultimately show ?thesis by blast
qed

lemma list_all2_rel_trans:
  "list_all2 P xs ys \<Longrightarrow> list_all2 Q ys zs \<Longrightarrow> (\<And>x y z. P x y \<Longrightarrow> Q y z \<Longrightarrow> R x z) \<Longrightarrow> list_all2 R xs zs"
  by (rule list_all2_trans)

lemma deliver_one:
  assumes "phase_ok C vs p j phase S cs0 cs" "cs \<noteq> []" "proposal_init p = Inr p" "finite S" "s \<in> set (vset_ids vs)"
  shows "\<exists>cs'. each_object (accept_vote C (phase_vote p phase s)) cs =
      (Inr (replicate (length cs) (if signers_quorum vs (insert s S) then Some (qc_for p phase (insert s S)) else None)), cs') \<and>
    phase_ok C vs p j phase (insert s S) cs0 cs' \<and> cs' \<noteq> [] \<and>
    (signers_quorum vs (insert s S) \<longrightarrow> list_all (concluded p phase) cs') \<and>
    list_all2 (\<lambda>c c'. co_vote_choice c' = co_vote_choice c) cs cs'"
proof -
  let ?m = "if signers_quorum vs (insert s S) then Some (qc_for p phase (insert s S)) else None"
  let ?P = "\<lambda>c c'. ready C p j c' \<and> co_vset c' = vs \<and> gathered p phase (insert s S) c' \<and> advanced p phase c c' \<and>
      co_vote_choice c' = co_vote_choice c \<and> (signers_quorum vs (insert s S) \<longrightarrow> concluded p phase c')"
  have "\<exists>c'. accept_vote C (phase_vote p phase s) c = (Inr ?m, c') \<and> ?P c c'" if "c \<in> set cs" for c
  proof -
    have c: "ready C p j c" "co_vset c = vs" "gathered p phase S c"
      using assms(1) that by (auto simp: phase_ok_def list_all2_conv_all_nth in_set_conv_nth)
    have "s \<in> set (vset_ids (co_vset c))" using assms(5) c(2) by simp
    from ready_accept [OF c(1) assms(3) c(3) assms(4) this] show ?thesis
      unfolding c(2) by (auto simp: advanced_def same_config_def c(2))
  qed
  from each_object_all [of cs "accept_vote C (phase_vote p phase s)" "\<lambda>_. ?m" ?P, OF this]
  obtain cs' where cs': "each_object (accept_vote C (phase_vote p phase s)) cs = (Inr (replicate (length cs) ?m), cs')" "list_all2 ?P cs cs'"
    by (auto simp: map_replicate_const)
  have "phase_ok C vs p j phase (insert s S) cs0 cs'"
    using assms(1) cs'(2) unfolding phase_ok_def by (rule list_all2_rel_trans) (auto intro: advanced_trans)
  moreover have "cs' \<noteq> []" "signers_quorum vs (insert s S) \<Longrightarrow> list_all (concluded p phase) cs'"
    "list_all2 (\<lambda>c c'. co_vote_choice c' = co_vote_choice c) cs cs'"
    using cs'(2) assms(2) by (auto simp: list_all2_conv_all_nth list_all_length)
  ultimately show ?thesis using cs'(1) by blast
qed

lemma deliver_votes_phase:
  assumes "phase_ok C vs p j phase S cs0 cs" "cs \<noteq> []" "proposal_init p = Inr p" "finite S" "set ss \<subseteq> set (vset_ids vs)"
    and "ss \<noteq> []" "signers_quorum vs (S \<union> set ss)"
  shows "\<exists>cs'. deliver_votes C (map (phase_vote p phase) ss) q cs = (Inr (Some (qc_for p phase (S \<union> set ss))), cs') \<and>
    phase_ok C vs p j phase (S \<union> set ss) cs0 cs' \<and> list_all (concluded p phase) cs' \<and>
    list_all2 (\<lambda>c c'. co_vote_choice c' = co_vote_choice c) cs cs'"
  using assms
proof (induction ss arbitrary: S cs q)
  case (Cons s ss)
  let ?m = "if signers_quorum vs (insert s S) then Some (qc_for p phase (insert s S)) else None"
  have s: "s \<in> set (vset_ids vs)" "set ss \<subseteq> set (vset_ids vs)" using Cons.prems(5) by simp_all
  from deliver_one [OF Cons.prems(1-4) s(1)] obtain cs1 where
    one: "each_object (accept_vote C (phase_vote p phase s)) cs = (Inr (replicate (length cs) ?m), cs1)"
    "phase_ok C vs p j phase (insert s S) cs0 cs1" "cs1 \<noteq> []"
    "signers_quorum vs (insert s S) \<longrightarrow> list_all (concluded p phase) cs1"
    "list_all2 (\<lambda>c c'. co_vote_choice c' = co_vote_choice c) cs cs1" by blast
  have step: "deliver_votes C (map (phase_vote p phase) (s # ss)) q cs =
      deliver_votes C (map (phase_vote p phase) ss) (case ?m of None \<Rightarrow> q | Some y \<Rightarrow> Some y) cs1"
    using Cons.prems(2) by (simp add: one(1) last_some_replicate)
  show ?case
  proof (cases "ss = []")
    case True
    then have "signers_quorum vs (insert s S)" using Cons.prems(7) by simp
    then show ?thesis using True step one by simp
  next
    case False
    have "finite (insert s S)" "signers_quorum vs (insert s S \<union> set ss)" using Cons.prems(4,7) by simp_all
    from Cons.IH [OF one(2,3) Cons.prems(3) this(1) s(2) False this(2), of "case ?m of None \<Rightarrow> q | Some y \<Rightarrow> Some y"]
    obtain cs' where cs': "deliver_votes C (map (phase_vote p phase) ss) (case ?m of None \<Rightarrow> q | Some y \<Rightarrow> Some y) cs1 =
        (Inr (Some (qc_for p phase (insert s S \<union> set ss))), cs')" "phase_ok C vs p j phase (insert s S \<union> set ss) cs0 cs'"
      "list_all (concluded p phase) cs'" "list_all2 (\<lambda>c c'. co_vote_choice c' = co_vote_choice c) cs1 cs'" by blast
    have "list_all2 (\<lambda>c c'. co_vote_choice c' = co_vote_choice c) cs cs'"
      using one(5) cs'(4) by (rule list_all2_rel_trans) simp
    then show ?thesis using step cs'(1-3) by simp
  qed
qed simp

definition unvoted :: "proposal \<Rightarrow> vote_phase \<Rightarrow> core \<Rightarrow> bool" where
  "unvoted p phase c \<longleftrightarrow> gathered p phase {} c \<and> dict_get (co_vote_choice c) (pr_height p, pr_round p, phase_value phase) = None"

lemma unvoted_advanced:
  assumes "unvoted p' phase' c" "advanced p phase c c'" "pr_round p' \<noteq> pr_round p \<or> phase' \<noteq> phase"
  shows "unvoted p' phase' c'"
  using assms by (auto simp: unvoted_def gathered_def advanced_def)

lemma drive_phase:
  assumes cores: "\<And>c. c \<in> set cs \<Longrightarrow> ready C p j c \<and> co_vset c = vs \<and> unvoted p phase c"
    and "cs \<noteq> []" "proposal_init p = Inr p" "has_quorum vs (map co_local cs)"
  shows "\<exists>cs'. drive_vote_phase C p j phase cs = (Inr (qc_for p phase (co_local ` set cs)), cs') \<and>
    list_all2 (\<lambda>c c'. ready C p j c' \<and> co_vset c' = vs \<and> advanced p phase c c' \<and> concluded p phase c') cs cs'"
proof -
  let ?P = "\<lambda>c c'. ready C p j c' \<and> co_vset c' = vs \<and> gathered p phase {} c' \<and> advanced p phase c c'"
  have "\<exists>c'. make_vote C p j phase c = (Inr (phase_vote p phase (co_local c)), c') \<and> ?P c c'" if "c \<in> set cs" for c
  proof -
    have c: "ready C p j c" "co_vset c = vs" "unvoted p phase c" using cores [OF that] by blast+
    from ready_make_vote [OF c(1) assms(3), of phase] c(3) obtain c' where
      "make_vote C p j phase c = (Inr (local_vote p phase c), c')" "ready C p j c'" "advanced p phase c c'" "co_votes c' = co_votes c"
      by (auto simp: unvoted_def)
    then show ?thesis using c by (auto simp: local_vote_phase [OF c(1)] unvoted_def gathered_def advanced_def same_config_def)
  qed
  from each_object_all [of cs "make_vote C p j phase" "\<lambda>c. phase_vote p phase (co_local c)" ?P, OF this] obtain cs1 where
    made: "each_object (make_vote C p j phase) cs = (Inr (map (phase_vote p phase) (map co_local cs)), cs1)" "phase_ok C vs p j phase {} cs cs1"
    by (auto simp: phase_ok_def comp_def)
  have ids: "set (map co_local cs) \<subseteq> set (vset_ids vs)" using cores by (auto simp: ready_def core_ok_def)
  have quorum: "signers_quorum vs ({} \<union> set (map co_local cs))" using assms(4) by (simp add: has_quorum_iff)
  have "cs1 \<noteq> []" "map co_local cs \<noteq> []" using made(2) assms(2) by (auto simp: phase_ok_def)
  from deliver_votes_phase [OF made(2) this(1) assms(3) _ ids this(2) quorum, of None] obtain cs' where
    "deliver_votes C (map (phase_vote p phase) (map co_local cs)) None cs1 = (Inr (Some (qc_for p phase (co_local ` set cs))), cs')"
    "phase_ok C vs p j phase (co_local ` set cs) cs cs'" "list_all (concluded p phase) cs'" by auto
  then show ?thesis
    using made(1) by (auto simp: drive_vote_phase_def phase_ok_def list_all2_conv_all_nth list_all_length)
qed

lemma drive_round:
  assumes cores: "\<And>c. c \<in> set cs \<Longrightarrow> ready C p j c \<and> co_vset c = vs \<and> (\<forall>phase. unvoted p phase c)"
    and cs: "cs \<noteq> []" "proposal_init p = Inr p" "has_quorum vs (map co_local cs)"
  shows "\<exists>cs'. drive_single_round_commit C p j cs = (Inr \<lparr>rr_prepare_qc = qc_for p PREPARE (co_local ` set cs),
        rr_precommit_qc = qc_for p PRECOMMIT (co_local ` set cs), rr_commit_qc = qc_for p COMMIT (co_local ` set cs)\<rparr>, cs') \<and>
    list_all2 (\<lambda>c c'. ready C p j c' \<and> same_config c c' \<and> concluded p COMMIT c' \<and>
      (\<forall>p' phase. pr_round p' \<noteq> pr_round p \<longrightarrow> unvoted p' phase c \<longrightarrow> unvoted p' phase c')) cs cs'"
proof -
  have locals: "map co_local ds = map co_local cs" if "list_all2 (\<lambda>c c'. same_config c c') cs ds" for ds
    using that by (intro nth_equalityI) (auto simp: list_all2_conv_all_nth same_config_def)
  then have ids: "co_local ` set ds = co_local ` set cs" if "list_all2 (\<lambda>c c'. same_config c c') cs ds" for ds
    using that by (metis image_set)
  let ?A = "\<lambda>ph c c'. ready C p j c' \<and> co_vset c' = vs \<and> advanced p ph c c' \<and> concluded p ph c'"
  obtain cs1 where 1: "drive_vote_phase C p j PREPARE cs = (Inr (qc_for p PREPARE (co_local ` set cs)), cs1)" "list_all2 (?A PREPARE) cs cs1"
    using drive_phase [of cs C p j vs PREPARE] cores cs by blast
  have same1: "list_all2 same_config cs cs1" by (rule list_all2_mono [OF 1(2)]) (simp add: advanced_def)
  have c1: "ready C p j c \<and> co_vset c = vs \<and> unvoted p PRECOMMIT c \<and> unvoted p COMMIT c" if "c \<in> set cs1" for c
    using that 1(2) cores unvoted_advanced [of p _ _ p PREPARE c] by (fastforce simp: list_all2_conv_all_nth in_set_conv_nth)
  obtain cs2 where 2: "drive_vote_phase C p j PRECOMMIT cs1 = (Inr (qc_for p PRECOMMIT (co_local ` set cs)), cs2)" "list_all2 (?A PRECOMMIT) cs1 cs2"
    using drive_phase [of cs1 C p j vs PRECOMMIT] c1 cs(1-3) same1 locals [OF same1] ids [OF same1] by fastforce
  have same2: "list_all2 same_config cs cs2"
    by (rule list_all2_rel_trans [OF same1 2(2)]) (auto simp: advanced_def intro: same_config_trans)
  have c2: "ready C p j c \<and> co_vset c = vs \<and> unvoted p COMMIT c" if "c \<in> set cs2" for c
    using that 2(2) c1 unvoted_advanced [of p COMMIT _ p PRECOMMIT c] by (fastforce simp: list_all2_conv_all_nth in_set_conv_nth)
  obtain cs3 where 3: "drive_vote_phase C p j COMMIT cs2 = (Inr (qc_for p COMMIT (co_local ` set cs)), cs3)" "list_all2 (?A COMMIT) cs2 cs3"
    using drive_phase [of cs2 C p j vs COMMIT] c2 cs(1-3) same2 locals [OF same2] ids [OF same2] by fastforce
  let ?B = "\<lambda>c c'. same_config c c' \<and> (\<forall>p' phase. pr_round p' \<noteq> pr_round p \<longrightarrow> unvoted p' phase c \<longrightarrow> unvoted p' phase c')"
  have B: "?B c c'" if "advanced p ph c c'" for ph c c'
    using that unvoted_advanced [OF _ that] by (auto simp: advanced_def)
  have "list_all2 ?B cs cs2"
    by (rule list_all2_rel_trans [OF 1(2) 2(2)]) (use B same_config_trans in blast)
  then have "list_all2 (\<lambda>c c'. ready C p j c' \<and> same_config c c' \<and> concluded p COMMIT c' \<and>
      (\<forall>p' phase. pr_round p' \<noteq> pr_round p \<longrightarrow> unvoted p' phase c \<longrightarrow> unvoted p' phase c')) cs cs3"
    by (rule list_all2_rel_trans [OF _ 3(2)]) (use B same_config_trans in blast)
  then show ?thesis using 1(1) 2(1) 3(1) by (simp add: drive_single_round_commit_def)
qed

subsection \<open>A round commits, and so does the next one\<close>

lemma qc_for_fields:
  assumes "proposal_init p = Inr p" "cs \<noteq> []" "has_quorum vs (map co_local cs)"
  shows "qc_init (qc_for p phase (co_local ` set cs)) = Inr (qc_for p phase (co_local ` set cs))"
    "has_quorum vs (qc_signers (qc_for p phase (co_local ` set cs)))"
  using assms qc_for_init [OF assms(1), of "co_local ` set cs"] by (simp_all add: has_quorum_iff) (simp add: qc_for_def)

text \<open>C7. A round makes progress. When the cores of a quorum of validators are ready for a proposal and nobody has
  voted in its round yet, driving the round over them returns a prepare, a precommit and a commit certificate, each well formed, for the
  proposed block and signed by a quorum, no method raises, and every core has decided the round and moved past it.\<close>

theorem single_round_commits:
  assumes "\<And>c. c \<in> set cs \<Longrightarrow> ready C p j c \<and> co_vset c = vs \<and> (\<forall>phase. unvoted p phase c)"
    and "cs \<noteq> []" "proposal_init p = Inr p" "has_quorum vs (map co_local cs)"
  shows "\<exists>res cs'. drive_single_round_commit C p j cs = (Inr res, cs') \<and> length cs' = length cs \<and>
    map qc_phase [rr_prepare_qc res, rr_precommit_qc res, rr_commit_qc res] = [PREPARE, PRECOMMIT, COMMIT] \<and>
    (\<forall>q\<in>{rr_prepare_qc res, rr_precommit_qc res, rr_commit_qc res}. qc_init q = Inr q \<and> qc_block_hash q = pr_block_hash p \<and>
       qc_height q = pr_height p \<and> qc_round q = pr_round p \<and> has_quorum vs (qc_signers q)) \<and>
    (\<forall>c\<in>set cs'. pr_round p \<le> pm_last_decided_round (co_pacemaker c) \<and> pm_current_round (co_pacemaker c) = pr_round p + 1)"
proof -
  from drive_round [of cs C p j vs, OF assms] obtain cs' where
    d: "drive_single_round_commit C p j cs = (Inr \<lparr>rr_prepare_qc = qc_for p PREPARE (co_local ` set cs),
        rr_precommit_qc = qc_for p PRECOMMIT (co_local ` set cs), rr_commit_qc = qc_for p COMMIT (co_local ` set cs)\<rparr>, cs')"
    "list_all2 (\<lambda>c c'. ready C p j c' \<and> concluded p COMMIT c') cs cs'" by (blast intro: list_all2_mono)
  have "ready C p j c \<and> concluded p COMMIT c" if "c \<in> set cs'" for c
    using d(2) that by (auto simp: list_all2_conv_all_nth in_set_conv_nth)
  then have "\<forall>c\<in>set cs'. pr_round p \<le> pm_last_decided_round (co_pacemaker c) \<and> pm_current_round (co_pacemaker c) = pr_round p + 1"
    by (fastforce simp: ready_def concluded_def)
  then show ?thesis
    using d qc_for_fields [OF assms(3,2,4)] by (simp add: list_all2_lengthD [OF d(2)]) (simp add: qc_for_def)
qed

text \<open>C32. A commit does not make a block final. The same cores, right after they have committed a block, commit any other block at
  the same height when it is proposed in the next round without a certificate: the lock is only compared with a certificate
  that the proposal brings along.\<close>

theorem conflicting_commits:
  assumes "\<And>c. c \<in> set cs \<Longrightarrow> ready C p None c \<and> co_vset c = vs \<and> (\<forall>phase. unvoted p phase c \<and> unvoted p' phase c)"
    and "cs \<noteq> []" "proposal_init p = Inr p" "has_quorum vs (map co_local cs)"
    and "proposal_init p' = Inr p'" "p' = p\<lparr>pr_round := pr_round p + 1, pr_block_hash := other\<rparr>"
  shows "\<exists>res cs' res' cs''. drive_single_round_commit C p None cs = (Inr res, cs') \<and>
    drive_single_round_commit C p' None cs' = (Inr res', cs'') \<and>
    qc_height (rr_commit_qc res) = qc_height (rr_commit_qc res') \<and>
    qc_block_hash (rr_commit_qc res) = pr_block_hash p \<and> qc_block_hash (rr_commit_qc res') = other"
proof -
  have "\<And>c. c \<in> set cs \<Longrightarrow> ready C p None c \<and> co_vset c = vs \<and> (\<forall>phase. unvoted p phase c)" using assms(1) by blast
  from drive_round [of cs C p None vs, OF this assms(2-4)] obtain cs' where
    d: "drive_single_round_commit C p None cs = (Inr \<lparr>rr_prepare_qc = qc_for p PREPARE (co_local ` set cs),
        rr_precommit_qc = qc_for p PRECOMMIT (co_local ` set cs), rr_commit_qc = qc_for p COMMIT (co_local ` set cs)\<rparr>, cs')"
    and all: "list_all2 (\<lambda>c c'. ready C p None c' \<and> same_config c c' \<and> concluded p COMMIT c' \<and>
      (\<forall>p' phase. pr_round p' \<noteq> pr_round p \<longrightarrow> unvoted p' phase c \<longrightarrow> unvoted p' phase c')) cs cs'" by blast
  have round: "pr_round p' \<noteq> pr_round p" using assms(6) by simp
  have next_ready: "ready C p' None c" if "ready C p None c" for c
    using that by (auto simp: ready_def below_lock_def check_justify_def assms(6) split: option.splits)
  have "ready C p' None c' \<and> co_vset c' = vs \<and> (\<forall>phase. unvoted p' phase c')" if c': "c' \<in> set cs'" for c'
  proof -
    obtain i where i: "i < length cs'" "c' = cs' ! i" using c' by (auto simp: in_set_conv_nth)
    have "cs ! i \<in> set cs" "ready C p None c'" "same_config (cs ! i) c'" "\<forall>phase. unvoted p' phase (cs ! i) \<longrightarrow> unvoted p' phase c'"
      using all i round by (simp_all add: list_all2_conv_all_nth)
    then show ?thesis using assms(1) next_ready by (simp add: same_config_def)
  qed
  moreover have "map co_local cs' = map co_local cs" "cs' \<noteq> []"
    using all assms(2) by (auto simp: list_all2_conv_all_nth same_config_def intro!: nth_equalityI)
  ultimately obtain cs'' where "drive_single_round_commit C p' None cs' = (Inr \<lparr>rr_prepare_qc = qc_for p' PREPARE (co_local ` set cs'),
        rr_precommit_qc = qc_for p' PRECOMMIT (co_local ` set cs'), rr_commit_qc = qc_for p' COMMIT (co_local ` set cs')\<rparr>, cs'')"
    using drive_round [of cs' C p' None vs] assms(4,5) by auto
  with d show ?thesis by (simp add: qc_for_def assms(6))
qed

lemma fresh_ready:
  assumes "core_init (pr_chain_id p) (pr_epoch_id p) i vs (MemoryStore mem_store_new) = Inr c" "vset_ok vs" "i \<noteq> []"
    and "pr_vset_hash p = vs_hash vs" "pr_proposer p \<in> set (vset_ids vs)" "pr_justify_qc_hash p = None" "proposal_init p = Inr p"
  shows "ready C p None c \<and> co_vset c = vs \<and> co_local c = i \<and> (\<forall>p phase. unvoted p phase c)"
proof -
  have f: "fresh_core vs i c" unfolding fresh_core_def using assms(1) by blast
  have "co_chain_id c = pr_chain_id p" "co_epoch_id c = pr_epoch_id p"
    using assms(1) by (auto simp: core_init_def Let_def mem_load_votes_def mem_load_timeouts_def mem_store_new_def split: if_splits)
  then show ?thesis
    using fresh_core_ok [OF f assms(2)] assms(3-6) proposal_init_facts [OF assms(7)]
    by (simp add: ready_def check_justify_def below_lock_def unvoted_def gathered_def pacemaker_default_def) (simp add: vote_collector_new_def)
qed

definition sample_proposal :: "crypto \<Rightarrow> proposal" where
  "sample_proposal C = \<lparr>pr_chain_id = 1, pr_epoch_id = 0, pr_height = 1, pr_round = 1, pr_proposer = ''a'',
     pr_vset_hash = vs_hash (sample_vset C), pr_block_hash = replicate 32 7, pr_justify_qc_hash = None\<rparr>"

definition sample_cores :: "crypto \<Rightarrow> core list" where
  "sample_cores C = map (\<lambda>i. projr (core_init 1 0 i (sample_vset C) (MemoryStore mem_store_new))) [''a'', ''b'', ''c'']"

lemma sample_cores:
  "proposal_init (sample_proposal flat_crypto) = Inr (sample_proposal flat_crypto)" "sample_cores flat_crypto \<noteq> []"
  "\<And>c. c \<in> set (sample_cores flat_crypto) \<Longrightarrow> ready flat_crypto (sample_proposal flat_crypto) None c \<and> co_vset c = sample_vset flat_crypto \<and>
     (\<forall>p phase. unvoted p phase c)"
  "has_quorum (sample_vset flat_crypto) (map co_local (sample_cores flat_crypto))"
proof -
  let ?p = "sample_proposal flat_crypto" and ?vs = "sample_vset flat_crypto"
  show p: "proposal_init ?p = Inr ?p"
    using sample_vset_hash32 by (simp add: proposal_init_def sample_proposal_def hash32_def hash32_opt_def)
  show "sample_cores flat_crypto \<noteq> []" by (simp add: sample_cores_def)
  have r: "ready flat_crypto ?p None c \<and> co_vset c = ?vs \<and> co_local c = i \<and> (\<forall>p phase. unvoted p phase c)"
    if "i \<in> {''a'', ''b'', ''c''}" "c = projr (core_init 1 0 i ?vs (MemoryStore mem_store_new))" for i c
  proof -
    have "core_init 1 0 i ?vs (MemoryStore mem_store_new) = Inr c"
      using that by (auto simp: core_init_def sample_vset_simps Let_def)
    then show ?thesis
      using that(1) fresh_ready [of ?p i ?vs c flat_crypto] sample_vset_ok p by (auto simp: sample_proposal_def sample_vset_simps)
  qed
  show "ready flat_crypto ?p None c \<and> co_vset c = ?vs \<and> (\<forall>p phase. unvoted p phase c)" if c: "c \<in> set (sample_cores flat_crypto)" for c
  proof -
    obtain i where "i \<in> {''a'', ''b'', ''c''}" "c = projr (core_init 1 0 i ?vs (MemoryStore mem_store_new))"
      using c unfolding sample_cores_def by auto
    from r [OF this] show ?thesis by blast
  qed
  have "co_local (projr (core_init 1 0 i ?vs (MemoryStore mem_store_new))) = i" if "i \<in> {''a'', ''b'', ''c''}" for i
    using r [OF that refl] by blast
  then have "map co_local (sample_cores flat_crypto) = [''a'', ''b'', ''c'']" by (simp add: sample_cores_def)
  then show "has_quorum ?vs (map co_local (sample_cores flat_crypto))" by (simp add: has_quorum_def sample_vset_simps)
qed

theorem single_round_commits_witness:
  "\<exists>res cs'. drive_single_round_commit flat_crypto (sample_proposal flat_crypto) None (sample_cores flat_crypto) = (Inr res, cs') \<and>
     qc_block_hash (rr_commit_qc res) = replicate 32 7 \<and> qc_phase (rr_commit_qc res) = COMMIT"
  using single_round_commits [of "sample_cores flat_crypto" flat_crypto "sample_proposal flat_crypto" None "sample_vset flat_crypto"]
    sample_cores by (auto simp: sample_proposal_def)

theorem conflicting_commits_witness:
  "\<exists>res cs' res' cs''. drive_single_round_commit flat_crypto (sample_proposal flat_crypto) None (sample_cores flat_crypto) = (Inr res, cs') \<and>
     drive_single_round_commit flat_crypto ((sample_proposal flat_crypto)\<lparr>pr_round := 2, pr_block_hash := replicate 32 9\<rparr>) None cs' = (Inr res', cs'') \<and>
     qc_height (rr_commit_qc res) = qc_height (rr_commit_qc res') \<and>
     qc_block_hash (rr_commit_qc res) = replicate 32 7 \<and> qc_block_hash (rr_commit_qc res') = replicate 32 9"
proof -
  let ?p = "sample_proposal flat_crypto"
  let ?p' = "?p\<lparr>pr_round := 2, pr_block_hash := replicate 32 9\<rparr>"
  have p': "proposal_init ?p' = Inr ?p'" "?p' = ?p\<lparr>pr_round := pr_round ?p + 1, pr_block_hash := replicate 32 9\<rparr>"
    using sample_vset_hash32 by (simp_all add: proposal_init_def sample_proposal_def hash32_def hash32_opt_def)
  have "pr_block_hash ?p = replicate 32 7" by (simp add: sample_proposal_def)
  with conflicting_commits [of "sample_cores flat_crypto" flat_crypto ?p "sample_vset flat_crypto" ?p', OF _ sample_cores(2,1,4) p']
    sample_cores(3) show ?thesis by simp
qed

subsection \<open>A forged certificate stops a validator\<close>

lemma stale_refused:
  assumes "core_ok c" "pr_round p + 1 < pm_current_round (co_pacemaker c)"
  shows "\<exists>e. fst (validate_proposal C p j c) = Inl e"
proof -
  obtain res c' where v: "validate_proposal C p j c = (res, c')" by fastforce
  have "pm_current_round (co_pacemaker c) \<le> pm_current_round (co_pacemaker c')"
    using validate_keeps(1) [OF assms(1) v] by (simp add: keeps_def later_round)
  then have "res \<noteq> Inr ()" using validate_keeps(2) [OF assms(1) v] assms(2) by auto
  then show ?thesis using v by (cases res) auto
qed

inductive core_call :: "crypto \<Rightarrow> core \<Rightarrow> core \<Rightarrow> bool" for C c where
  \<comment> \<open>A call of a method with any arguments, returning or raising, or a restart over the reopened store\<close>
  "core_call C c (snd (validate_proposal C p j c))"
| "core_call C c (snd (make_vote C p j phase c))"
| "core_call C c (snd (accept_vote C v c))"
| "core_call C c (snd (observe_qc C q c))"
| "core_call C c (snd (observe_tc C t c))"
| "core_call C c (snd (make_timeout_vote C height round c))"
| "core_call C c (snd (accept_timeout_vote C tv c))"
| "core_init (co_chain_id c) (co_epoch_id c) (co_local c) (co_vset c) (store_reopen (co_store c)) = Inr c' \<Longrightarrow> core_call C c c'"

definition not_earlier :: "core \<Rightarrow> core \<Rightarrow> bool" where
  "not_earlier c c' \<longleftrightarrow> core_ok c' \<and> pm_current_round (co_pacemaker c) \<le> pm_current_round (co_pacemaker c')"

lemma keeps_not_earlier: "keeps c c' \<Longrightarrow> not_earlier c c'"
  by (simp add: keeps_def not_earlier_def later_round)

lemma make_vote_not_earlier:
  assumes "core_ok c"
  shows "not_earlier c (snd (make_vote C p j phase c))"
  using assms
proof (cases rule: make_vote_cases [of c C p j phase])
  case (refused e c')
  then show ?thesis by (simp add: keeps_not_earlier)
next
  case (voted res c1)
  then show ?thesis
    using keeps_not_earlier [OF voted(2)] by (simp add: not_earlier_def record_vote_fields(4) core_ok_record_vote)
qed

lemma accept_vote_not_earlier:
  assumes "core_ok c"
  shows "not_earlier c (snd (accept_vote C v c))"
  using assms
proof (cases rule: accept_vote_cases [of c C v])
  case (refused e)
  then show ?thesis using assms by (simp add: not_earlier_def)
next
  case (invalid e)
  then have "collector_ok (set (vset_ids (co_vset c))) (co_votes (take_vote v c))" by (simp add: core_ok_def take_vote_def)
  then show ?thesis using assms invalid(1) by (simp add: not_earlier_def core_ok_def)
next
  case (taken res c')
  have "co_pacemaker (take_vote v c) = co_pacemaker c" by (simp add: take_vote_def)
  with keeps_not_earlier [OF taken(3)] taken(1) show ?thesis by (simp add: not_earlier_def)
qed

lemma core_call_not_earlier:
  assumes "core_call C c c'" "core_ok c"
  shows "not_earlier c c'"
  using assms(1)
proof cases
  case (1 p j)
  then show ?thesis
    using validate_keeps(1) [OF assms(2) prod.collapse [symmetric], of C p j] by (simp add: keeps_not_earlier)
next
  case 8
  then show ?thesis using restart_core(1,3) [OF assms(2)] by (simp add: not_earlier_def)
qed (simp_all add: assms(2) keeps_not_earlier make_vote_not_earlier accept_vote_not_earlier observe_qc_keeps observe_tc_keeps
    make_timeout_vote_keeps accept_timeout_vote_keeps)

lemma core_calls_not_earlier: "(core_call C)\<^sup>*\<^sup>* c c' \<Longrightarrow> core_ok c \<Longrightarrow> not_earlier c c'"
  by (induction rule: rtranclp_induct) (auto simp: not_earlier_def dest: core_call_not_earlier)

text \<open>C33. A certificate is believed unseen, and one forged certificate stops a validator for good. Take a core that keeps its
  invariant and a proposal that comes with a certificate of any non-negative round: whoever the certificate's signers are and
  whatever becomes of the proposal, the core adopts its round. From then on, whatever calls are made on the core with
  whatever arguments, returning or raising, and however often it is restarted over its reopened store, it refuses every
  proposal of a lower round: neither validating one nor voting on one succeeds.\<close>

theorem forged_qc_halts_validator:
  assumes "core_ok c" "0 \<le> qc_round q" "validate_proposal C p (Some q) c = (res, c')" "(core_call C)\<^sup>*\<^sup>* c' c''"
    and "pr_round p' < qc_round q"
  shows "(\<exists>e. fst (validate_proposal C p' j c'') = Inl e) \<and> (\<exists>e. fst (make_vote C p' j phase c'') = Inl e)"
proof -
  have keep: "keeps c c'" using validate_keeps(1) [OF assms(1,3)] .
  have "qc_round q + 1 \<le> pm_current_round (co_pacemaker c')"
    using assms(1)
  proof (cases rule: absorb_qc_cases [where q = q and C = C])
    case (refused c1)
    then show ?thesis using assms(2) by simp
  next
    case (absorbed c1)
    then have "co_pacemaker c' = co_pacemaker c1"
      using assms(3) by (auto simp: validate_proposal_def observe_qc_def split: option.splits)
    then show ?thesis using absorbed(3) by simp
  qed
  with core_calls_not_earlier [OF assms(4) keeps_ok [OF keep]] assms(5)
  have late: "core_ok c''" "pr_round p' + 1 < pm_current_round (co_pacemaker c'')" by (simp_all add: not_earlier_def)
  obtain e where e: "fst (validate_proposal C p' j c'') = Inl e" using stale_refused [OF late] by blast
  then have "fst (make_vote C p' j phase c'') = Inl e"
    by (cases "validate_proposal C p' j c''") (simp add: make_vote_def)
  with e show ?thesis by blast
qed

theorem forged_qc_halts_validator_witness:
  "\<exists>res c'. validate_proposal flat_crypto (sample_proposal flat_crypto)
       (Some (sample_qc\<lparr>qc_round := 1000, qc_signers := [''mallory'']\<rparr>)) (hd (sample_cores flat_crypto)) = (res, c') \<and>
     \<not> vset_contains (co_vset (hd (sample_cores flat_crypto))) ''mallory'' \<and>
     (\<exists>e. fst (make_vote flat_crypto ((sample_proposal flat_crypto)\<lparr>pr_round := 999\<rparr>) None PREPARE
        (snd (make_timeout_vote flat_crypto 1 1001 c'))) = Inl e)"
proof -
  let ?c = "hd (sample_cores flat_crypto)" and ?q = "sample_qc\<lparr>qc_round := 1000, qc_signers := [''mallory'']\<rparr>"
  have c: "core_ok ?c" "co_vset ?c = sample_vset flat_crypto" using sample_cores(2,3) by (auto simp: ready_def)
  obtain res c' where v: "validate_proposal flat_crypto (sample_proposal flat_crypto) (Some ?q) ?c = (res, c')" by fastforce
  have "0 \<le> qc_round ?q" "pr_round ((sample_proposal flat_crypto)\<lparr>pr_round := 999\<rparr>) < qc_round ?q" by simp_all
  moreover have "(core_call flat_crypto)\<^sup>*\<^sup>* c' (snd (make_timeout_vote flat_crypto 1 1001 c'))"
    by (intro r_into_rtranclp core_call.intros)
  ultimately show ?thesis using forged_qc_halts_validator [OF c(1) _ v] v c(2) by (auto simp: sample_vset_simps)
qed

end
