(* ===== verification/Sortition.thy ===== *)
theory Sortition
  imports Validator_Set
begin

section \<open>Proposer sortition (\<open>EZ_V2/consensus/sortition.py\<close>)\<close>

text \<open>
  Every validator signs the round's sortition message; the claim with the lowest score proposes. The
  verifier of a claim is a parameter, as in the code, and may raise. Selection is the minimum of the eligible
  claims, whatever their order.
\<close>

datatype sortition_error =
    ClaimNumeric
  | ClaimHeightOrRound
  | ClaimFieldMissing
  | SortitionHash
  | SortitionNumeric
  | SigningFailed crypto_error

record vrf_claim =
  vf_chain_id :: int
  vf_epoch_id :: int
  vf_height :: int
  vf_round :: int
  vf_validator :: string
  vf_vset_hash :: bytes
  vf_output :: bytes
  vf_proof :: bytes

definition vrf_claim_init :: "vrf_claim \<Rightarrow> sortition_error + vrf_claim" where
  "vrf_claim_init c =
     (if vf_chain_id c < 0 \<or> vf_epoch_id c < 0 then Inl ClaimNumeric
      else if vf_height c \<le> 0 \<or> vf_round c \<le> 0 then Inl ClaimHeightOrRound
      else if vf_validator c = [] then Inl ClaimFieldMissing
      else if vf_output c = [] then Inl ClaimFieldMissing
      else if vf_proof c = [] then Inl ClaimFieldMissing
      else if \<not> hash32 (vf_vset_hash c) then Inl SortitionHash
      else Inr c)"

definition vrf_claim_obj :: "vrf_claim \<Rightarrow> pyobj" where
  "vrf_claim_obj c = PCanonical (PDict [(''chain_id'', PInt (vf_chain_id c)), (''epoch_id'', PInt (vf_epoch_id c)),
     (''height'', PInt (vf_height c)), (''round'', PInt (vf_round c)), (''validator_id'', PStr (vf_validator c)),
     (''validator_set_hash'', PBytes (vf_vset_hash c)), (''vrf_output'', PBytes (vf_output c)), (''vrf_proof'', PBytes (vf_proof c))])"

definition sortition_payload :: "int \<Rightarrow> int \<Rightarrow> int \<Rightarrow> int \<Rightarrow> bytes \<Rightarrow> bytes \<Rightarrow> pyobj" where
  "sortition_payload chain_id epoch_id height round seed vset_hash = PDict [(''chain_id'', PInt chain_id),
     (''epoch_id'', PInt epoch_id), (''height'', PInt height), (''round'', PInt round), (''seed'', PBytes seed),
     (''validator_set_hash'', PBytes vset_hash)]"

definition build_proposer_sortition_message :: "int \<Rightarrow> int \<Rightarrow> int \<Rightarrow> int \<Rightarrow> bytes \<Rightarrow> bytes \<Rightarrow> sortition_error + bytes" where
  "build_proposer_sortition_message chain_id epoch_id height round seed vset_hash =
     (if \<not> hash32 seed then Inl SortitionHash
      else if \<not> hash32 vset_hash then Inl SortitionHash
      else if chain_id < 0 \<or> epoch_id < 0 \<or> height \<le> 0 \<or> round \<le> 0 then Inl SortitionNumeric
      else Inr (ascii ''EZCHAIN_V2_VRF_PROPOSER'' @ canonical_bytes (sortition_payload chain_id epoch_id height round seed vset_hash)))"

definition claim_score :: "crypto \<Rightarrow> bytes \<Rightarrow> vrf_claim \<Rightarrow> bytes" where
  "claim_score C sortition_message claim =
     sha256 C (ascii ''EZCHAIN_V2_PROPOSER_SCORE'' @ sortition_message @ utf8 (vf_validator claim) @ vf_output claim)"

definition SIGNED_SORTITION_PROOF_DOMAIN :: bytes where
  "SIGNED_SORTITION_PROOF_DOMAIN = ascii ''EZCHAIN_V2_SIGNED_SORTITION_PROOF''"

definition SIGNED_SORTITION_OUTPUT_DOMAIN :: bytes where
  "SIGNED_SORTITION_OUTPUT_DOMAIN = ascii ''EZCHAIN_V2_SIGNED_SORTITION_OUTPUT''"

definition build_signed_proposer_claim ::
    "crypto \<Rightarrow> int \<Rightarrow> int \<Rightarrow> int \<Rightarrow> int \<Rightarrow> string \<Rightarrow> bytes \<Rightarrow> bytes \<Rightarrow> bytes \<Rightarrow> sortition_error + vrf_claim" where
  "build_signed_proposer_claim C chain_id epoch_id height round validator_id vset_hash seed private_key =
     (case build_proposer_sortition_message chain_id epoch_id height round seed vset_hash of
        Inl e \<Rightarrow> Inl e
      | Inr message \<Rightarrow>
          (case sign_message_secp256k1 C private_key message SIGNED_SORTITION_PROOF_DOMAIN of
             Inl e \<Rightarrow> Inl (SigningFailed e)
           | Inr vrf_proof \<Rightarrow>
               vrf_claim_init \<lparr>vf_chain_id = chain_id, vf_epoch_id = epoch_id, vf_height = height, vf_round = round,
                 vf_validator = validator_id, vf_vset_hash = vset_hash,
                 vf_output = sha256 C (SIGNED_SORTITION_OUTPUT_DOMAIN @ message @ vrf_proof), vf_proof = vrf_proof\<rparr>))"

definition verify_signed_proposer_claim :: "crypto \<Rightarrow> vrf_claim \<Rightarrow> bytes \<Rightarrow> bytes \<Rightarrow> crypto_error + bool" where
  "verify_signed_proposer_claim C claim sortition_message vrf_pubkey =
     (case verify_message_secp256k1 C vrf_pubkey sortition_message (vf_proof claim) SIGNED_SORTITION_PROOF_DOMAIN of
        Inl e \<Rightarrow> Inl e
      | Inr False \<Rightarrow> Inr False
      | Inr True \<Rightarrow> Inr (vf_output claim = sha256 C (SIGNED_SORTITION_OUTPUT_DOMAIN @ sortition_message @ vf_proof claim)))"

type_synonym vrf_verifier = "vrf_claim \<Rightarrow> bytes \<Rightarrow> bytes \<Rightarrow> crypto_error + bool"

datatype selection_error = BadRound sortition_error | VerifierRaised crypto_error

fun select_claim ::
    "crypto \<Rightarrow> validator_set \<Rightarrow> int \<times> int \<times> int \<times> int \<Rightarrow> vrf_verifier \<Rightarrow> bytes \<Rightarrow> vrf_claim list \<Rightarrow>
     (vrf_claim \<times> bytes) option \<Rightarrow> selection_error + vrf_claim option" where
  \<comment> \<open>The loop of \<open>select_best_proposer\<close>; the last argument is \<open>best\<close> with \<open>best_score\<close>.\<close>
  "select_claim C vs at verifier message [] best = Inr (map_option fst best)"
| "select_claim C vs at verifier message (claim # claims) best =
     (case at of (chain_id, epoch_id, height, round) \<Rightarrow>
        if vf_chain_id claim \<noteq> chain_id \<or> vf_epoch_id claim \<noteq> epoch_id then select_claim C vs at verifier message claims best
        else if vf_height claim \<noteq> height \<or> vf_round claim \<noteq> round then select_claim C vs at verifier message claims best
        else if vf_vset_hash claim \<noteq> vs_hash vs then select_claim C vs at verifier message claims best
        else case vset_get vs (vf_validator claim) of
               None \<Rightarrow> select_claim C vs at verifier message claims best
             | Some validator \<Rightarrow>
                 (case verifier claim message (cv_vrf_pubkey validator) of
                    Inl e \<Rightarrow> Inl (VerifierRaised e)
                  | Inr False \<Rightarrow> select_claim C vs at verifier message claims best
                  | Inr True \<Rightarrow>
                      let score = claim_score C message claim
                      in select_claim C vs at verifier message claims
                           (case best of None \<Rightarrow> Some (claim, score)
                            | Some (b, best_score) \<Rightarrow> if score < best_score then Some (claim, score) else Some (b, best_score))))"

definition select_best_proposer ::
    "crypto \<Rightarrow> vrf_claim list \<Rightarrow> validator_set \<Rightarrow> int \<Rightarrow> int \<Rightarrow> int \<Rightarrow> int \<Rightarrow> bytes \<Rightarrow> vrf_verifier \<Rightarrow> selection_error + vrf_claim option" where
  "select_best_proposer C claims vs chain_id epoch_id height round seed verifier =
     (case build_proposer_sortition_message chain_id epoch_id height round seed (vs_hash vs) of
        Inl e \<Rightarrow> Inl (BadRound e)
      | Inr message \<Rightarrow> select_claim C vs (chain_id, epoch_id, height, round) verifier message claims None)"

subsection \<open>Selection is a minimum\<close>

definition candidate :: "validator_set \<Rightarrow> int \<times> int \<times> int \<times> int \<Rightarrow> vrf_claim \<Rightarrow> cvalidator option" where
  \<comment> \<open>The validator of a claim for this round\<close>
  "candidate vs at claim = (if (vf_chain_id claim, vf_epoch_id claim, vf_height claim, vf_round claim) = at \<and> vf_vset_hash claim = vs_hash vs
     then vset_get vs (vf_validator claim) else None)"

definition eligible :: "validator_set \<Rightarrow> int \<times> int \<times> int \<times> int \<Rightarrow> vrf_verifier \<Rightarrow> bytes \<Rightarrow> vrf_claim \<Rightarrow> bool" where
  "eligible vs at verifier message claim \<longleftrightarrow>
     (\<exists>v. candidate vs at claim = Some v \<and> verifier claim message (cv_vrf_pubkey v) = Inr True)"

definition breaks :: "validator_set \<Rightarrow> int \<times> int \<times> int \<times> int \<Rightarrow> vrf_verifier \<Rightarrow> bytes \<Rightarrow> vrf_claim \<Rightarrow> bool" where
  "breaks vs at verifier message claim \<longleftrightarrow>
     (\<exists>v e. candidate vs at claim = Some v \<and> verifier claim message (cv_vrf_pubkey v) = Inl e)"

definition better :: "crypto \<Rightarrow> bytes \<Rightarrow> vrf_claim \<Rightarrow> vrf_claim option \<Rightarrow> vrf_claim option" where
  "better C message claim best =
     (case best of None \<Rightarrow> Some claim | Some b \<Rightarrow> if claim_score C message claim < claim_score C message b then Some claim else Some b)"

lemma select_claim_step:
  "select_claim C vs at verifier message (claim # claims) (map_option (\<lambda>b. (b, claim_score C message b)) best) =
     (case candidate vs at claim of
        None \<Rightarrow> select_claim C vs at verifier message claims (map_option (\<lambda>b. (b, claim_score C message b)) best)
      | Some v \<Rightarrow>
          (case verifier claim message (cv_vrf_pubkey v) of
             Inl e \<Rightarrow> Inl (VerifierRaised e)
           | Inr ok \<Rightarrow> select_claim C vs at verifier message claims
               (map_option (\<lambda>b. (b, claim_score C message b)) (if ok then better C message claim best else best))))"
  by (cases best) (auto simp: candidate_def better_def Let_def split: prod.split option.split sum.split bool.split)

lemma select_claim_ok:
  assumes "\<And>claim. claim \<in> set claims \<Longrightarrow> \<not> breaks vs at verifier message claim"
  shows "select_claim C vs at verifier message claims (map_option (\<lambda>b. (b, claim_score C message b)) best) =
    Inr (fold (better C message) (filter (eligible vs at verifier message) claims) best)"
  using assms
proof (induction claims arbitrary: best)
  case Nil
  show ?case by (cases best) simp_all
next
  case (Cons claim claims)
  have "\<not> breaks vs at verifier message claim" using Cons.prems by simp
  then show ?case
    using Cons.IH Cons.prems unfolding select_claim_step
    by (auto simp: eligible_def breaks_def split: option.split sum.split bool.split)
qed

lemma select_claim_raises:
  assumes "claim \<in> set claims" "breaks vs at verifier message claim"
  shows "\<exists>e. select_claim C vs at verifier message claims (map_option (\<lambda>b. (b, claim_score C message b)) best) = Inl (VerifierRaised e)"
  using assms
proof (induction claims arbitrary: best)
  case (Cons x claims)
  then show ?case
    unfolding select_claim_step by (auto simp: breaks_def split: option.split sum.split)
qed simp

lemma fold_better:
  "case fold (better C message) xs best of
     None \<Rightarrow> best = None \<and> xs = []
   | Some b \<Rightarrow> b \<in> set xs \<union> set_option best \<and> (\<forall>c\<in>set xs \<union> set_option best. claim_score C message b \<le> claim_score C message c)"
proof (induction xs arbitrary: best)
  case Nil
  then show ?case by (cases best) simp_all
next
  case (Cons x xs)
  have "better C message x best = Some x \<or> better C message x best = best \<and> best \<noteq> None"
    "\<And>b. best = Some b \<Longrightarrow> better C message x best = Some x \<Longrightarrow> x = b \<or> claim_score C message x < claim_score C message b"
    "\<And>b. best = Some b \<Longrightarrow> better C message x best = best \<Longrightarrow> x = b \<or> claim_score C message b \<le> claim_score C message x"
    by (auto simp: better_def split: option.splits if_splits)
  with Cons.IH [of "better C message x best"] show ?case
    by (cases best; cases "fold (better C message) xs (better C message x best)") fastforce+
qed

lemma select_best_eq:
  assumes "build_proposer_sortition_message chain_id epoch_id height round seed (vs_hash vs) = Inr message"
    "\<And>claim. claim \<in> set claims \<Longrightarrow> \<not> breaks vs (chain_id, epoch_id, height, round) verifier message claim"
  shows "select_best_proposer C claims vs chain_id epoch_id height round seed verifier =
    Inr (fold (better C message) (filter (eligible vs (chain_id, epoch_id, height, round) verifier message) claims) None)"
  using select_claim_ok [of claims vs "(chain_id, epoch_id, height, round)" verifier message C None] assms
  by (simp add: select_best_proposer_def)

text \<open>The proposer is the eligible claim of lowest score, and everybody finds the same one. When no verification raises, selection
  answers nobody exactly if no claim is of this round, set and chain, from a validator and verified; else it returns such a claim
  with the lowest score of all; and two lists with the same claims, in any order and with repetitions, give the same answer
  unless two eligible claims have the same score.\<close>

theorem best_proposer_is_minimum:
  fixes chain_id epoch_id height round :: int
  assumes "build_proposer_sortition_message chain_id epoch_id height round seed (vs_hash vs) = Inr message"
    and "\<And>claim. claim \<in> set claims \<Longrightarrow> \<not> breaks vs (chain_id, epoch_id, height, round) verifier message claim"
    and "E = eligible vs (chain_id, epoch_id, height, round) verifier message"
  shows "\<exists>best. select_best_proposer C claims vs chain_id epoch_id height round seed verifier = Inr best \<and>
    (best = None \<longleftrightarrow> \<not> (\<exists>c\<in>set claims. E c)) \<and>
    (\<forall>b. best = Some b \<longrightarrow> b \<in> set claims \<and> E b \<and> (\<forall>c\<in>set claims. E c \<longrightarrow> claim_score C message b \<le> claim_score C message c)) \<and>
    (\<forall>claims'. set claims' = set claims \<and> inj_on (claim_score C message) {c \<in> set claims. E c} \<longrightarrow>
       select_best_proposer C claims' vs chain_id epoch_id height round seed verifier = Inr best)"
proof -
  let ?best = "\<lambda>cs. fold (better C message) (filter E cs) None"
  have eq: "select_best_proposer C cs vs chain_id epoch_id height round seed verifier = Inr (?best cs)" if "set cs = set claims" for cs
    using select_best_eq [OF assms(1), of cs] assms(2) that by (simp add: assms(3))
  have none: "?best cs = None \<longleftrightarrow> \<not> (\<exists>c\<in>set claims. E c)" if "set cs = set claims" for cs
    using fold_better [where C = C and message = message and xs = "filter E cs" and best = None] that by (auto simp: filter_empty_conv split: option.splits)
  have min: "b \<in> set claims \<and> E b \<and> (\<forall>c\<in>set claims. E c \<longrightarrow> claim_score C message b \<le> claim_score C message c)"
    if "set cs = set claims" "?best cs = Some b" for cs b
    using fold_better [where C = C and message = message and xs = "filter E cs" and best = None] that by auto
  have "?best cs = ?best claims" if same: "set cs = set claims" "inj_on (claim_score C message) {c \<in> set claims. E c}" for cs
  proof (cases "?best cs")
    case None
    then show ?thesis using none [OF same(1)] none [OF refl] by simp
  next
    case (Some a)
    then obtain b where b: "?best claims = Some b" using none [OF same(1)] none [OF refl] by auto
    have "claim_score C message a = claim_score C message b"
      using min [OF same(1) Some] min [OF refl b] by (intro antisym) auto
    then show ?thesis using same(2) min [OF same(1) Some] min [OF refl b] Some b by (auto dest: inj_onD)
  qed
  then have perm: "\<forall>claims'. set claims' = set claims \<and> inj_on (claim_score C message) {c \<in> set claims. E c} \<longrightarrow>
      select_best_proposer C claims' vs chain_id epoch_id height round seed verifier = Inr (?best claims)"
    using eq by metis
  show ?thesis
    by (intro exI [of _ "?best claims"] conjI) (rule eq [OF refl], rule none [OF refl], use min [OF refl] in blast, rule perm)
qed

definition sample_claim :: "string \<Rightarrow> vrf_claim" where
  "sample_claim i = \<lparr>vf_chain_id = 1, vf_epoch_id = 0, vf_height = 1, vf_round = 1, vf_validator = i,
     vf_vset_hash = vs_hash (sample_vset flat_crypto), vf_output = [7], vf_proof = [0x30, 6, 2, 6, 1, 1, 1, 1]\<rparr>"

lemma sample_message:
  "\<exists>m. build_proposer_sortition_message 1 0 1 1 (replicate 32 3) (vs_hash (sample_vset flat_crypto)) = Inr m"
  by (simp add: build_proposer_sortition_message_def hash32_def sample_vset_def vset_from_validators_def sample_validators_def Let_def
      compute_validator_set_hash_def hash_with_domain_def sha_hash32 [unfolded hash32_def])

lemma sample_get: "vset_get (sample_vset C) ''zz'' = None" "vset_get (sample_vset C) ''b'' \<noteq> None"
proof -
  have "\<not> vset_contains (sample_vset C) ''zz''" "vset_contains (sample_vset C) ''b''" by (simp_all add: sample_vset_simps)
  then show "vset_get (sample_vset C) ''zz'' = None" "vset_get (sample_vset C) ''b'' \<noteq> None"
    unfolding vset_contains_def by simp_all
qed

theorem best_proposer_is_minimum_witness:
  "select_best_proposer flat_crypto [sample_claim ''zz'', sample_claim ''b''] (sample_vset flat_crypto) 1 0 1 1 (replicate 32 3) (\<lambda>_ _ _. Inr True) =
     Inr (Some (sample_claim ''b''))"
proof -
  let ?cs = "[sample_claim ''zz'', sample_claim ''b'']" and ?vs = "sample_vset flat_crypto"
  obtain m where m: "build_proposer_sortition_message 1 0 1 1 (replicate 32 3) (vs_hash ?vs) = Inr m"
    using sample_message by blast
  have "\<And>claim. claim \<in> set ?cs \<Longrightarrow> \<not> breaks ?vs (1, 0, 1, 1) (\<lambda>_ _ _. Inr True) m claim" by (simp add: breaks_def)
  from best_proposer_is_minimum [where chain_id = 1 and epoch_id = 0 and height = 1 and round = 1, OF m this refl, where C = flat_crypto]
  obtain best where best: "select_best_proposer flat_crypto ?cs ?vs 1 0 1 1 (replicate 32 3) (\<lambda>_ _ _. Inr True) = Inr best"
    "best = None \<longleftrightarrow> \<not> (\<exists>c\<in>set ?cs. eligible ?vs (1, 0, 1, 1) (\<lambda>_ _ _. Inr True) m c)"
    "\<forall>b. best = Some b \<longrightarrow> b \<in> set ?cs \<and> eligible ?vs (1, 0, 1, 1) (\<lambda>_ _ _. Inr True) m b" by blast
  from sample_get have e: "eligible ?vs (1, 0, 1, 1) (\<lambda>_ _ _. Inr True) m (sample_claim ''b'')"
    "\<not> eligible ?vs (1, 0, 1, 1) (\<lambda>_ _ _. Inr True) m (sample_claim ''zz'')"
    by (auto simp: eligible_def candidate_def sample_claim_def)
  then obtain b where "best = Some b" using best(2) by auto
  then show ?thesis using best(1,3) e by auto
qed

text \<open>One malformed claim stops the selection. The claim's proof is read before anything is known about it, and a truncated
  DER signature makes the reader raise an IndexError that nobody catches: a list with such a claim in any validator's
  name has no proposer, however many good claims it holds.\<close>

theorem malformed_claim_stops_selection:
  assumes "build_proposer_sortition_message chain_id epoch_id height round seed (vs_hash vs) = Inr message"
    and "claim \<in> set claims" "candidate vs (chain_id, epoch_id, height, round) claim \<noteq> None"
    and "is_low_s_signature (vf_proof claim) = Inl DerIndexError" "digests32 C"
  shows "\<exists>e. select_best_proposer C claims vs chain_id epoch_id height round seed (verify_signed_proposer_claim C) = Inl (VerifierRaised e)"
proof -
  have "verify_signed_proposer_claim C claim message k = Inl DerIndexError" for k
    using assms(4,5) by (simp add: verify_signed_proposer_claim_def verify_message_secp256k1_def verify_digest_secp256k1_def digests32_def)
  then have "breaks vs (chain_id, epoch_id, height, round) (verify_signed_proposer_claim C) message claim"
    using assms(3) by (auto simp: breaks_def)
  from select_claim_raises [OF assms(2) this, of C None] show ?thesis
    using assms(1) by (simp add: select_best_proposer_def)
qed

theorem malformed_claim_stops_selection_witness:
  "\<exists>e. select_best_proposer flat_crypto [sample_claim ''a'', sample_claim ''b''] (sample_vset flat_crypto) 1 0 1 1 (replicate 32 3)
     (verify_signed_proposer_claim flat_crypto) = Inl (VerifierRaised e)"
proof -
  obtain m where m: "build_proposer_sortition_message 1 0 1 1 (replicate 32 3) (vs_hash (sample_vset flat_crypto)) = Inr m"
    using sample_message by blast
  have c: "candidate (sample_vset flat_crypto) (1, 0, 1, 1) (sample_claim ''b'') \<noteq> None"
    using sample_get(2) [of flat_crypto] by (simp add: candidate_def sample_claim_def)
  have p: "is_low_s_signature (vf_proof (sample_claim ''b'')) = Inl DerIndexError"
    by (simp add: sample_claim_def is_low_s_signature_def parse_ecdsa_der_def der_read_length_def byte_at_def Let_def)
  show ?thesis
    by (rule malformed_claim_stops_selection [OF m _ c p]) simp_all
qed

end
