(* ===== verification/Wallet_Ranges.thy ===== *)
theory Wallet_Ranges
  imports Chain_Hash "HOL-Library.Extended_Nat"
begin

section \<open>Cutting and choosing value ranges (\<open>EZ_V2/wallet.py\<close>)\<close>

text \<open>
  The pure part of the wallet: cutting a value along the ranges that leave it, the measures of a
  witness, and the choice of the ranges that pay an amount, a search over subset sums that keeps the
  cheapest plan per total.
\<close>

datatype wallet_error =
    TargetOutsideSource
  | TargetsOverlap
  | BundleTargetsOverlap
  | AmountNotPositive
  | InsufficientBalance
  | BadRange value_error

subsection \<open>Cutting a value\<close>

fun partition_from :: "value_range \<Rightarrow> int \<Rightarrow> value_range list \<Rightarrow> wallet_error + (value_range \<times> bool) list" where
  \<comment> \<open>The loop with \<open>cursor\<close>; the last piece is cut after it.\<close>
  "partition_from source cursor [] =
     (if cursor \<le> vr_end source
      then case make_value_range cursor (vr_end source) of Inl e \<Rightarrow> Inl (BadRange e) | Inr r \<Rightarrow> Inr [(r, False)]
      else Inr [])"
| "partition_from source cursor (target # targets) =
     (case (if cursor < vr_begin target
            then case make_value_range cursor (vr_begin target - 1) of Inl e \<Rightarrow> Inl (BadRange e) | Inr r \<Rightarrow> Inr [(r, False)]
            else Inr []) of
        Inl e \<Rightarrow> Inl e
      | Inr gap \<Rightarrow>
          (case partition_from source (vr_end target + 1) targets of
             Inl e \<Rightarrow> Inl e
           | Inr rest \<Rightarrow> Inr (gap @ (target, True) # rest)))"

definition partition_range :: "value_range \<Rightarrow> value_range list \<Rightarrow> wallet_error + (value_range \<times> bool) list" where
  "partition_range source targets =
     (if targets = [] then Inr [(source, False)]
      else
        let ordered_targets = sort_key vr_key targets
        in if list_ex (\<lambda>target. \<not> vr_contains_range source target) ordered_targets then Inl TargetOutsideSource
           else if adjacent_any vr_intersects ordered_targets then Inl TargetsOverlap
           else partition_from source (vr_begin source) ordered_targets)"

definition ensure_non_overlapping_targets :: "value_range list \<Rightarrow> wallet_error + value_range list" where
  "ensure_non_overlapping_targets targets =
     (let ordered = sort_key vr_key targets
      in if adjacent_any vr_intersects ordered then Inl BundleTargetsOverlap else Inr ordered)"

definition tiles :: "value_range \<Rightarrow> value_range list \<Rightarrow> bool" where
  \<comment> \<open>These valid ranges, in ascending order, make up the value exactly.\<close>
  "tiles source segments \<longleftrightarrow> list_all vr_ok segments \<and> sorted_wrt (\<lambda>v w. vr_end v < vr_begin w) segments \<and>
     (\<Union>v\<in>set segments. vr_set v) = vr_set source \<and> sum_list (map vr_size segments) = vr_size source"

lemma partition_from_tiles:
  assumes "0 \<le> cursor" "cursor \<le> vr_end source + 1" "list_all vr_ok targets"
    "sorted_wrt (\<lambda>v w. vr_end v < vr_begin w) targets" "\<forall>t\<in>set targets. cursor \<le> vr_begin t \<and> vr_end t \<le> vr_end source"
  shows "\<exists>segs. partition_from source cursor targets = Inr segs \<and> map fst (filter snd segs) = targets \<and>
    list_all vr_ok (map fst segs) \<and> sorted_wrt (\<lambda>v w. vr_end v < vr_begin w) (map fst segs) \<and>
    (\<Union>v\<in>fst ` set segs. vr_set v) = {cursor..vr_end source} \<and>
    sum_list (map (vr_size \<circ> fst) segs) = vr_end source - cursor + 1"
  using assms
proof (induction targets arbitrary: cursor)
  case Nil
  show ?case
  proof (cases "cursor \<le> vr_end source")
    case True
    then have "make_value_range cursor (vr_end source) = Inr (ValueRange cursor (vr_end source))"
      using Nil.prems by (intro make_value_range_ok) simp_all
    then show ?thesis using True Nil.prems by (auto simp: vr_ok_def vr_set_def vr_size_def)
  next
    case False
    then show ?thesis using Nil.prems(2) by simp
  qed
next
  case (Cons t ts)
  have t: "vr_ok t" "cursor \<le> vr_begin t" "vr_end t \<le> vr_end source" using Cons.prems by simp_all
  have "\<forall>x\<in>set ts. vr_end t + 1 \<le> vr_begin x \<and> vr_end x \<le> vr_end source" using Cons.prems by auto
  then obtain rest where rest: "partition_from source (vr_end t + 1) ts = Inr rest" "map fst (filter snd rest) = ts"
    "list_all vr_ok (map fst rest)" "sorted_wrt (\<lambda>v w. vr_end v < vr_begin w) (map fst rest)"
    "(\<Union>v\<in>fst ` set rest. vr_set v) = {vr_end t + 1..vr_end source}"
    "sum_list (map (vr_size \<circ> fst) rest) = vr_end source - (vr_end t + 1) + 1"
  proof -
    have "0 \<le> vr_end t + 1" "vr_end t + 1 \<le> vr_end source + 1" "list_all vr_ok ts" "sorted_wrt (\<lambda>v w. vr_end v < vr_begin w) ts"
      using Cons.prems t by (simp_all add: vr_ok_def [of t])
    from Cons.IH [OF this \<open>\<forall>x\<in>set ts. _ x\<close>] show ?thesis using that by blast
  qed
  have after: "vr_end t < vr_begin v" if "v \<in> fst ` set rest" for v
  proof -
    have "vr_ok v" using rest(3) that by (auto simp: list_all_iff)
    then have "vr_begin v \<in> vr_set v" by (simp add: vr_ok_def)
    then have "vr_begin v \<in> {vr_end t + 1..vr_end source}" using that rest(5) by blast
    then show ?thesis by simp
  qed
  have cover: "{vr_begin t..vr_end t} \<union> {vr_end t + 1..vr_end source} = {vr_begin t..vr_end source}"
    using t by (auto simp: vr_ok_def)
  show ?case
  proof (cases "cursor < vr_begin t")
    case True
    let ?g = "ValueRange cursor (vr_begin t - 1)"
    have g: "make_value_range cursor (vr_begin t - 1) = Inr ?g" "vr_ok ?g"
      using True Cons.prems(1) by (auto simp: make_value_range_def vr_ok_def)
    have "{cursor..vr_begin t - 1} \<union> {vr_begin t..vr_end source} = {cursor..vr_end source}"
      using True t by (auto simp: vr_ok_def)
    then have "(\<Union>v\<in>fst ` set ((?g, False) # (t, True) # rest). vr_set v) = {cursor..vr_end source}"
      using cover rest(5) by (simp add: vr_set_def [of ?g] vr_set_def [of t])
    moreover have "sorted_wrt (\<lambda>v w. vr_end v < vr_begin w) (?g # t # map fst rest)"
      using rest(4) t after by (fastforce simp: vr_ok_def)
    ultimately show ?thesis
      using True g rest t by (simp add: vr_size_def [of ?g] vr_size_def [of t] comp_def)
  next
    case False
    then have c: "cursor = vr_begin t" using t by simp
    then show ?thesis
      using rest t after cover by (simp add: vr_set_def [of t] vr_size_def [of t] comp_def)
  qed
qed

lemma gaps_not_adjacent: "sorted_wrt (\<lambda>v w. vr_end v < vr_begin w) vs \<Longrightarrow> \<not> adjacent_any vr_intersects vs"
  by (induction vs rule: induct_list012) (auto simp: vr_intersects_def)

lemma no_adjacent: "sorted_wrt (\<lambda>v w. \<not> vr_intersects v w) vs \<Longrightarrow> \<not> adjacent_any vr_intersects vs"
  by (induction vs rule: induct_list012) auto

lemma partition_range_exact:
  assumes "vr_ok source" "list_all vr_ok targets"
  shows "case partition_range source targets of
      Inl e \<Rightarrow> (\<exists>t\<in>set targets. \<not> vr_set t \<subseteq> vr_set source) \<or> \<not> sorted_wrt (\<lambda>v w. vr_end v < vr_begin w) (sort targets)
    | Inr segs \<Rightarrow> tiles source (map fst segs) \<and> map fst (filter snd segs) = sort targets \<and>
        (\<forall>t\<in>set targets. vr_set t \<subseteq> vr_set source) \<and> sorted_wrt (\<lambda>v w. vr_end v < vr_begin w) (sort targets)"
proof -
  let ?ts = "sort targets"
  have ts: "sort_key vr_key targets = ?ts" "list_all vr_ok ?ts" using assms(2) by (simp_all add: sort_simps list_all_iff)
  show ?thesis
  proof (cases "targets = []")
    case True
    then show ?thesis using assms(1) by (simp add: partition_range_def tiles_def)
  next
    case nonempty: False
    show ?thesis
    proof (cases "list_ex (\<lambda>t. \<not> vr_contains_range source t) ?ts \<or> adjacent_any vr_intersects ?ts")
      case True
      moreover have "\<not> sorted_wrt (\<lambda>v w. vr_end v < vr_begin w) ?ts" if "adjacent_any vr_intersects ?ts"
        using gaps_not_adjacent that by blast
      ultimately show ?thesis
        using nonempty assms(2) by (auto simp: partition_range_def ts(1) Let_def list_ex_iff list_all_iff vr_contains_range_iff)
    next
      case False
      have sorted: "sorted_wrt (\<lambda>v w. vr_end v < vr_begin w) ?ts"
        using sorted_adjacent_disjoint [of ?ts] False ts(2) by simp
      have "\<forall>t\<in>set ?ts. vr_begin source \<le> vr_begin t \<and> vr_end t \<le> vr_end source"
        using False by (auto simp: list_ex_iff vr_contains_range_def)
      then obtain segs where "partition_from source (vr_begin source) ?ts = Inr segs" "map fst (filter snd segs) = ?ts"
        "list_all vr_ok (map fst segs)" "sorted_wrt (\<lambda>v w. vr_end v < vr_begin w) (map fst segs)"
        "(\<Union>v\<in>fst ` set segs. vr_set v) = {vr_begin source..vr_end source}"
        "sum_list (map (vr_size \<circ> fst) segs) = vr_end source - vr_begin source + 1"
        using partition_from_tiles [of "vr_begin source" source ?ts] assms(1) ts(2) sorted by (auto simp: vr_ok_def)
      moreover from this have "tiles source (map fst segs)"
        by (simp add: tiles_def vr_set_def [of source] vr_size_def [of source] comp_def)
      ultimately show ?thesis
        using nonempty False sorted assms(2)
        by (auto simp: partition_range_def ts(1) Let_def list_ex_iff vr_contains_range_iff list_all_iff)
    qed
  qed
qed

text \<open>Cutting a value loses and invents nothing. \<open>_partition_range\<close> answers exactly when the targets lie in the source and
  are pairwise disjoint; then its pieces are valid, in order and make up the source, and those marked
  as outgoing are the targets. No constructor inside it raises.\<close>

theorem partition_exact:
  assumes "vr_ok source" "list_all vr_ok targets"
  shows "case partition_range source targets of
      Inl e \<Rightarrow> (\<exists>t\<in>set targets. \<not> vr_set t \<subseteq> vr_set source) \<or> \<not> sorted_wrt (\<lambda>v w. vr_end v < vr_begin w) (sort targets)
    | Inr segs \<Rightarrow> tiles source (map fst segs) \<and> map fst (filter snd segs) = sort targets \<and>
        (\<forall>t\<in>set targets. vr_set t \<subseteq> vr_set source) \<and> sorted_wrt (\<lambda>v w. vr_end v < vr_begin w) (sort targets)"
  using partition_range_exact [OF assms] .

theorem partition_exact_witness:
  "partition_range (ValueRange 0 9) [ValueRange 6 9, ValueRange 2 3] =
     Inr [(ValueRange 0 1, False), (ValueRange 2 3, True), (ValueRange 4 5, False), (ValueRange 6 9, True)] \<and>
   tiles (ValueRange 0 9) [ValueRange 0 1, ValueRange 2 3, ValueRange 4 5, ValueRange 6 9]"
proof -
  have ok: "vr_ok (ValueRange 0 9)" "list_all vr_ok [ValueRange 6 9, ValueRange 2 3]" by (simp_all add: vr_ok_def)
  have p: "partition_range (ValueRange 0 9) [ValueRange 6 9, ValueRange 2 3] =
     Inr [(ValueRange 0 1, False), (ValueRange 2 3, True), (ValueRange 4 5, False), (ValueRange 6 9, True)]"
    by (simp add: partition_range_def Let_def vr_key_def vr_contains_range_def vr_intersects_def make_value_range_def)
  from partition_exact [OF ok] p show ?thesis by simp
qed

subsection \<open>Measuring a witness\<close>

fun witness_total_units :: "witness \<Rightarrow> int" where
  "witness_total_units (WitnessV2 _ _ chain (PriorWitnessLink _ prior)) = int (length chain) + witness_total_units prior"
| "witness_total_units (WitnessV2 _ _ chain _) = int (length chain)"

fun witness_units_to_checkpoint :: "witness \<Rightarrow> enat" where
  \<comment> \<open>\<open>inf\<close> when the chain of prior witnesses does not end in a checkpoint\<close>
  "witness_units_to_checkpoint (WitnessV2 _ _ chain (CheckpointAnchor _)) = enat (length chain)"
| "witness_units_to_checkpoint (WitnessV2 _ _ chain (PriorWitnessLink _ prior)) =
     (if witness_units_to_checkpoint prior = \<infinity> then \<infinity> else enat (length chain) + witness_units_to_checkpoint prior)"
| "witness_units_to_checkpoint (WitnessV2 _ _ _ (GenesisAnchor _)) = \<infinity>"

subsection \<open>Choosing what to pay with\<close>

definition sorted_spendable_records :: "local_value_record list \<Rightarrow> local_value_record list" where
  "sorted_spendable_records records =
     sort_key (\<lambda>r. (int (length (w_chain (lvr_witness r))), - lvr_height r, vr_size (lvr_value r), vr_begin (lvr_value r)))
       (filter (\<lambda>r. lvr_status r = VERIFIED_SPENDABLE) records)"

definition has_exact_local_checkpoint :: "string \<Rightarrow> checkpoint list \<Rightarrow> local_value_record \<Rightarrow> bool" where
  "has_exact_local_checkpoint address checkpoints r \<longleftrightarrow> list_ex (\<lambda>c. checkpoint_matches c (lvr_value r) address) checkpoints"

type_synonym plan = "(nat \<times> int) list"
type_synonym plan_cost = "int \<times> int \<times> int \<times> enat \<times> int \<times> int \<times> (int \<times> int) list"

definition selection_plan_cost :: "(local_value_record \<Rightarrow> bool) \<Rightarrow> local_value_record list \<Rightarrow> plan \<Rightarrow> plan_cost" where
  "selection_plan_cost has_checkpoint spendable plan =
     (let rec = (\<lambda>(i, _). spendable ! i)
      in (int (length plan),
          sum_list (map (\<lambda>(i, take_size). if take_size < vr_size (lvr_value (spendable ! i)) then 1 else 0) plan),
          sum_list (map (\<lambda>e. if has_checkpoint (rec e) then 0 else 1) plan),
          sum_list (map (\<lambda>e. if has_checkpoint (rec e) then 0 else witness_units_to_checkpoint (lvr_witness (rec e))) plan),
          sum_list (map (\<lambda>e. witness_total_units (lvr_witness (rec e))) plan),
          - sum_list (map (\<lambda>e. lvr_height (rec e)) plan),
          sort (map (\<lambda>(i, take_size). (vr_begin (lvr_value (spendable ! i)), take_size)) plan)))"

definition is_cheaper :: "(plan \<Rightarrow> plan_cost) \<Rightarrow> plan \<Rightarrow> plan option \<Rightarrow> bool" where
  \<comment> \<open>\<open>current is None or cost(candidate) < cost(current)\<close>\<close>
  "is_cheaper cost candidate current = (case current of None \<Rightarrow> True | Some p \<Rightarrow> cost candidate < cost p)"

definition partial_step :: "(plan \<Rightarrow> plan_cost) \<Rightarrow> int \<Rightarrow> nat \<Rightarrow> int \<Rightarrow> plan option \<Rightarrow> int \<times> plan \<Rightarrow> plan option" where
  "partial_step cost amount index sz best entry =
     (case entry of (subtotal, plan) \<Rightarrow>
        let remaining = amount - subtotal
        in if 0 < remaining \<and> remaining < sz
           then let candidate = plan @ [(index, remaining)] in if is_cheaper cost candidate best then Some candidate else best
           else best)"

definition extend_step :: "(plan \<Rightarrow> plan_cost) \<Rightarrow> int \<Rightarrow> nat \<Rightarrow> int \<Rightarrow> (int, plan) dict \<Rightarrow> int \<times> plan \<Rightarrow> (int, plan) dict" where
  "extend_step cost amount index sz exact entry =
     (case entry of (subtotal, plan) \<Rightarrow>
        let new_total = subtotal + sz
        in if new_total > amount then exact
           else let candidate = plan @ [(index, sz)]
                in if is_cheaper cost candidate (dict_get exact new_total) then dict_set new_total candidate exact else exact)"

definition record_step ::
    "(plan \<Rightarrow> plan_cost) \<Rightarrow> int \<Rightarrow> (int, plan) dict \<times> plan option \<Rightarrow> nat \<times> local_value_record \<Rightarrow> (int, plan) dict \<times> plan option" where
  "record_step cost amount st entry =
     (case (st, entry) of ((prior, best), (index, r)) \<Rightarrow>
        let sz = vr_size (lvr_value r);
            best = foldl (partial_step cost amount index sz) best prior;
            exact = foldl (extend_step cost amount index sz) prior prior
        in (exact,
            case dict_get exact amount of
              None \<Rightarrow> best
            | Some m \<Rightarrow> if is_cheaper cost m best then Some m else best))"

definition take_range :: "local_value_record list \<Rightarrow> nat \<times> int \<Rightarrow> wallet_error + value_range" where
  "take_range spendable entry =
     (case entry of (i, take_size) \<Rightarrow>
        let b = vr_begin (lvr_value (spendable ! i))
        in case make_value_range b (b + take_size - 1) of Inl e \<Rightarrow> Inl (BadRange e) | Inr v \<Rightarrow> Inr v)"

definition select_payment_ranges ::
    "string \<Rightarrow> local_value_record list \<Rightarrow> checkpoint list \<Rightarrow> int \<Rightarrow> wallet_error + value_range list" where
  "select_payment_ranges address records checkpoints amount =
     (if amount \<le> 0 then Inl AmountNotPositive
      else
        let spendable = sorted_spendable_records records;
            cost = selection_plan_cost (has_exact_local_checkpoint address checkpoints) spendable
        in case snd (foldl (record_step cost amount) ([(0, [])], None) (List.enumerate 0 spendable)) of
             None \<Rightarrow> Inl InsufficientBalance
           | Some best_plan \<Rightarrow> res_bind (res_map (take_range spendable) best_plan) (\<lambda>selected. Inr (sort_key vr_key selected)))"

subsection \<open>The search is sound and complete\<close>

definition plan_ok :: "(nat \<Rightarrow> int) \<Rightarrow> nat \<Rightarrow> plan \<Rightarrow> int \<Rightarrow> bool" where
  \<comment> \<open>Takes from different records among the first ones, at most the whole of each, the given total together\<close>
  "plan_ok sz n plan tot \<longleftrightarrow> sorted_wrt (<) (map fst plan) \<and> (\<forall>(i, t)\<in>set plan. i < n \<and> 0 < t \<and> t \<le> sz i) \<and>
     sum_list (map snd plan) = tot"

definition search_ok :: "(nat \<Rightarrow> int) \<Rightarrow> int \<Rightarrow> nat \<Rightarrow> (int, plan) dict \<times> plan option \<Rightarrow> bool" where
  \<comment> \<open>After the first \<open>n\<close> records: all plans are right, every prefix of the records within the amount has a plan, and a plan
    for the amount is found as soon as the prefix is large enough.\<close>
  "search_ok sz amount n st \<longleftrightarrow>
     (\<forall>(tot, plan)\<in>set (fst st). plan_ok sz n plan tot) \<and>
     (\<forall>plan. snd st = Some plan \<longrightarrow> plan_ok sz n plan amount) \<and>
     (\<forall>k\<le>n. sum_list (map sz [0..<k]) \<le> amount \<longrightarrow> dict_get (fst st) (sum_list (map sz [0..<k])) \<noteq> None) \<and>
     (amount \<le> sum_list (map sz [0..<n]) \<longrightarrow> snd st \<noteq> None)"

lemma plan_ok_snoc:
  assumes "plan_ok sz n plan tot" "0 < t" "t \<le> sz n"
  shows "plan_ok sz (Suc n) (plan @ [(n, t)]) (tot + t)"
  using assms by (fastforce simp: plan_ok_def sorted_wrt_append)

lemma plan_ok_Suc: "plan_ok sz n plan tot \<Longrightarrow> plan_ok sz (Suc n) plan tot"
  by (fastforce simp: plan_ok_def)

lemma partial_fold:
  fixes cost :: "plan \<Rightarrow> plan_cost" and amount :: int
  assumes "\<And>tot plan. (tot, plan) \<in> set entries \<Longrightarrow> plan_ok sz n plan tot"
    and "\<And>plan. best = Some plan \<Longrightarrow> plan_ok sz (Suc n) plan amount"
  defines "best' \<equiv> foldl (partial_step cost amount n (sz n)) best entries"
  shows "best' = Some plan \<Longrightarrow> plan_ok sz (Suc n) plan amount" "best \<noteq> None \<Longrightarrow> best' \<noteq> None"
    "(tot, plan) \<in> set entries \<Longrightarrow> 0 < amount - tot \<Longrightarrow> amount - tot < sz n \<Longrightarrow> best' \<noteq> None"
proof -
  have "(\<forall>plan. best' = Some plan \<longrightarrow> plan_ok sz (Suc n) plan amount) \<and> (best \<noteq> None \<longrightarrow> best' \<noteq> None) \<and>
    (\<forall>(tot, plan)\<in>set entries. 0 < amount - tot \<and> amount - tot < sz n \<longrightarrow> best' \<noteq> None)"
    using assms(1,2) unfolding best'_def
  proof (induction entries arbitrary: best)
    case (Cons e entries)
    obtain tot plan where e: "e = (tot, plan)" by (cases e) auto
    have ok: "plan_ok sz n plan tot" using Cons.prems(1) e by simp
    let ?b = "partial_step cost amount n (sz n) best e"
    have b: "plan_ok sz (Suc n) p amount" if "?b = Some p" for p
      using that Cons.prems(2) plan_ok_snoc [OF ok, of "amount - tot"]
      by (auto simp: partial_step_def e Let_def split: if_splits)
    have hit: "?b \<noteq> None" if "0 < amount - tot" "amount - tot < sz n \<or> best \<noteq> None"
      using that by (auto simp: partial_step_def e Let_def is_cheaper_def split: option.split)
    have keep: "best \<noteq> None \<Longrightarrow> ?b \<noteq> None" by (auto simp: partial_step_def e Let_def)
    from Cons.IH [OF Cons.prems(1) b] show ?case using hit keep e by auto
  qed simp
  then show "best' = Some plan \<Longrightarrow> plan_ok sz (Suc n) plan amount" "best \<noteq> None \<Longrightarrow> best' \<noteq> None"
    "(tot, plan) \<in> set entries \<Longrightarrow> 0 < amount - tot \<Longrightarrow> amount - tot < sz n \<Longrightarrow> best' \<noteq> None" by blast+
qed

lemma extend_fold:
  fixes cost :: "plan \<Rightarrow> plan_cost" and amount :: int
  assumes "\<And>tot plan. (tot, plan) \<in> set entries \<Longrightarrow> plan_ok sz n plan tot" "0 < sz n"
    and "\<And>tot plan. (tot, plan) \<in> set exact \<Longrightarrow> plan_ok sz (Suc n) plan tot"
  defines "exact' \<equiv> foldl (extend_step cost amount n (sz n)) exact entries"
  shows "(tot, plan) \<in> set exact' \<Longrightarrow> plan_ok sz (Suc n) plan tot"
    "dict_get exact tot \<noteq> None \<Longrightarrow> dict_get exact' tot \<noteq> None"
    "(tot, plan) \<in> set entries \<Longrightarrow> tot + sz n \<le> amount \<Longrightarrow> dict_get exact' (tot + sz n) \<noteq> None"
proof -
  have "(\<forall>(tot, plan)\<in>set exact'. plan_ok sz (Suc n) plan tot) \<and>
    (\<forall>tot. dict_get exact tot \<noteq> None \<longrightarrow> dict_get exact' tot \<noteq> None) \<and>
    (\<forall>(tot, plan)\<in>set entries. tot + sz n \<le> amount \<longrightarrow> dict_get exact' (tot + sz n) \<noteq> None)"
    using assms(1,3) unfolding exact'_def
  proof (induction entries arbitrary: exact)
    case (Cons e entries)
    obtain tot plan where e: "e = (tot, plan)" by (cases e) auto
    have ok: "plan_ok sz (Suc n) (plan @ [(n, sz n)]) (tot + sz n)"
      using Cons.prems(1) e assms(2) by (intro plan_ok_snoc) auto
    let ?x = "extend_step cost amount n (sz n) exact e"
    have x: "plan_ok sz (Suc n) p t" if "(t, p) \<in> set ?x" for t p
      using that Cons.prems(2) ok dict_set_subset [of "tot + sz n" "plan @ [(n, sz n)]" exact]
      by (auto simp: extend_step_def e Let_def split: if_splits)
    have keep: "dict_get exact t \<noteq> None \<Longrightarrow> dict_get ?x t \<noteq> None" for t
      by (auto simp: extend_step_def e Let_def dict_simps)
    have hit: "dict_get ?x (tot + sz n) \<noteq> None" if "tot + sz n \<le> amount"
      using that by (auto simp: extend_step_def e Let_def dict_simps is_cheaper_def split: option.splits)
    from Cons.IH [OF Cons.prems(1) x] show ?case using hit keep e by auto
  qed auto
  then show "(tot, plan) \<in> set exact' \<Longrightarrow> plan_ok sz (Suc n) plan tot"
    "dict_get exact tot \<noteq> None \<Longrightarrow> dict_get exact' tot \<noteq> None"
    "(tot, plan) \<in> set entries \<Longrightarrow> tot + sz n \<le> amount \<Longrightarrow> dict_get exact' (tot + sz n) \<noteq> None" by blast+
qed

lemma record_step_ok:
  assumes st: "search_ok sz amount n st" and size: "0 < sz n" "vr_size (lvr_value r) = sz n" and amount: "0 < amount"
  shows "search_ok sz amount (Suc n) (record_step cost amount st (n, r))"
proof -
  obtain prior best where p: "st = (prior, best)" by (cases st)
  let ?S = "\<lambda>k. sum_list (map sz [0..<k])"
  let ?best = "foldl (partial_step cost amount n (sz n)) best prior"
  let ?exact = "foldl (extend_step cost amount n (sz n)) prior prior"
  have plans: "plan_ok sz n plan tot" if "(tot, plan) \<in> set prior" for tot plan
    using st that by (auto simp: search_ok_def p)
  have longer: "plan_ok sz (Suc n) plan tot" if "(tot, plan) \<in> set prior" for tot plan
    using plan_ok_Suc [OF plans [OF that]] .
  have best: "plan_ok sz (Suc n) plan amount" if "best = Some plan" for plan
    using st that by (auto simp: search_ok_def p intro: plan_ok_Suc)
  have found: "dict_get prior (?S k) \<noteq> None" if "k \<le> n" "?S k \<le> amount" for k
    using st that by (simp add: search_ok_def p)
  note partial = partial_fold [where entries = prior and best = best and sz = sz and n = n and amount = amount and cost = cost,
      OF plans best]
  note extend = extend_fold [where entries = prior and exact = prior and sz = sz and n = n and amount = amount and cost = cost,
      OF plans size(1) longer]
  let ?fin = "case dict_get ?exact amount of None \<Rightarrow> ?best | Some m \<Rightarrow> if is_cheaper cost m ?best then Some m else ?best"
  have step: "record_step cost amount st (n, r) = (?exact, ?fin)"
    unfolding record_step_def p Let_def size(2) prod.case ..
  have "plan_ok sz (Suc n) plan amount" if "?fin = Some plan" for plan
    using that partial(1) extend(1) by (auto split: option.splits if_splits dest: map_of_SomeD)
  moreover have "dict_get ?exact (?S k) \<noteq> None" if k: "k \<le> Suc n" "?S k \<le> amount" for k
  proof (cases "k \<le> n")
    case True
    then show ?thesis using extend(2) found k by blast
  next
    case False
    then have S: "?S k = ?S n + sz n" using k(1) by (simp add: le_Suc_eq)
    then obtain plan where "dict_get prior (?S n) = Some plan" using found [of n] k(2) size(1) by auto
    then show ?thesis using extend(3) k(2) S by (metis map_of_SomeD)
  qed
  moreover have "?fin \<noteq> None" if enough: "amount \<le> ?S (Suc n)"
  proof -
    have "?best \<noteq> None \<or> dict_get ?exact amount \<noteq> None"
    proof (cases "amount \<le> ?S n")
      case True
      then have "best \<noteq> None" using st by (simp add: search_ok_def p)
      then show ?thesis using partial(2) by blast
    next
      case False
      then obtain plan where "dict_get prior (?S n) = Some plan" using found [of n] by auto
      then have e: "(?S n, plan) \<in> set prior" by (rule map_of_SomeD)
      show ?thesis
      proof (cases "amount = ?S (Suc n)")
        case True
        then show ?thesis using extend(3) [OF _ _ e] by simp
      next
        case False
        then show ?thesis using partial(3) [OF _ _ e] enough \<open>\<not> amount \<le> ?S n\<close> by simp
      qed
    qed
    then show ?thesis by (auto simp: is_cheaper_def split: option.splits)
  qed
  ultimately show ?thesis using extend(1) by (auto simp: search_ok_def step)
qed

lemma search_ok_all:
  assumes "\<And>r. r \<in> set rs \<Longrightarrow> vr_ok (lvr_value r)" "0 < amount"
  defines "sz \<equiv> \<lambda>i. if i < length rs then vr_size (lvr_value (rs ! i)) else 0"
  shows "search_ok sz amount (length rs) (foldl (record_step cost amount) ([(0, [])], None) (List.enumerate 0 rs))"
proof -
  have "search_ok sz amount n (foldl (record_step cost amount) ([(0, [])], None) (List.enumerate 0 (take n rs)))"
    if "n \<le> length rs" for n
    using that
  proof (induction n)
    case 0
    then show ?case using assms(2) by (simp add: search_ok_def plan_ok_def)
  next
    case (Suc n)
    have "List.enumerate 0 (take (Suc n) rs) = List.enumerate 0 (take n rs) @ [(n, rs ! n)]"
      using Suc.prems by (simp add: take_Suc_conv_app_nth enumerate_append_eq)
    moreover have "0 < sz n" "vr_size (lvr_value (rs ! n)) = sz n"
      using Suc.prems assms(1) vr_size_pos by (simp_all add: sz_def)
    ultimately show ?case using record_step_ok [OF Suc.IH] Suc.prems assms(2) by simp
  qed
  from this [of "length rs"] show ?thesis by simp
qed

lemma sorted_wrt_sym_perm:
  assumes "mset xs = mset ys" "\<And>x y. R x y \<longleftrightarrow> R y x"
  shows "sorted_wrt R xs \<longleftrightarrow> sorted_wrt R ys"
  using assms(1)
proof (induction xs arbitrary: ys)
  case (Cons x xs)
  then obtain as bs where ys: "ys = as @ x # bs" by (metis list.set_intros(1) mset_eq_setD split_list)
  then have m: "mset xs = mset (as @ bs)" using Cons.prems by simp
  then have "set xs = set as \<union> set bs" by (metis mset_eq_setD set_append)
  then show ?case using Cons.IH [OF m] assms(2) by (auto simp: ys sorted_wrt_append)
qed simp

definition spendable_values :: "local_value_record list \<Rightarrow> value_range list" where
  "spendable_values records = map lvr_value (filter (\<lambda>r. lvr_status r = VERIFIED_SPENDABLE) records)"

lemma take_range_ok:
  assumes "plan_ok sz n plan tot" "(i, t) \<in> set plan" "vr_ok (lvr_value (rs ! i))" "sz i = vr_size (lvr_value (rs ! i))"
  shows "take_range rs (i, t) = Inr (ValueRange (vr_begin (lvr_value (rs ! i))) (vr_begin (lvr_value (rs ! i)) + t - 1))"
    "vr_ok (ValueRange (vr_begin (lvr_value (rs ! i))) (vr_begin (lvr_value (rs ! i)) + t - 1))"
    "vr_begin (lvr_value (rs ! i)) + t - 1 \<le> vr_end (lvr_value (rs ! i))"
proof -
  have "0 < t" "t \<le> vr_size (lvr_value (rs ! i))" using assms by (auto simp: plan_ok_def)
  then show "take_range rs (i, t) = Inr (ValueRange (vr_begin (lvr_value (rs ! i))) (vr_begin (lvr_value (rs ! i)) + t - 1))"
    "vr_ok (ValueRange (vr_begin (lvr_value (rs ! i))) (vr_begin (lvr_value (rs ! i)) + t - 1))"
    "vr_begin (lvr_value (rs ! i)) + t - 1 \<le> vr_end (lvr_value (rs ! i))"
    using assms(3) by (auto simp: take_range_def Let_def make_value_range_def vr_ok_def vr_size_def)
qed

lemma selected_ok:
  assumes plan: "plan_ok sz (length rs) plan amount" and ok: "\<And>r. r \<in> set rs \<Longrightarrow> vr_ok (lvr_value r)"
    and sz: "\<And>i. i < length rs \<Longrightarrow> sz i = vr_size (lvr_value (rs ! i))"
    and disj: "sorted_wrt (\<lambda>r s. \<not> vr_intersects (lvr_value r) (lvr_value s)) rs"
  obtains vs where "res_map (take_range rs) plan = Inr vs" "list_all vr_ok vs" "sum_list (map vr_size vs) = amount"
    "sorted_wrt (\<lambda>v w. \<not> vr_intersects v w) vs"
    "\<forall>v\<in>set vs. \<exists>r\<in>set rs. vr_begin v = vr_begin (lvr_value r) \<and> vr_set v \<subseteq> vr_set (lvr_value r)"
proof
  let ?cut = "\<lambda>(i, t). ValueRange (vr_begin (lvr_value (rs ! i))) (vr_begin (lvr_value (rs ! i)) + t - 1)"
  have idx: "i < length rs" if "(i, t) \<in> set plan" for i t using plan that by (auto simp: plan_ok_def)
  note cut = take_range_ok [where rs = rs, OF plan _ ok [OF nth_mem [OF idx]] sz [OF idx]]
  show "res_map (take_range rs) plan = Inr (map ?cut plan)"
    by (rule res_map_total) (use cut(1) in auto)
  show "list_all vr_ok (map ?cut plan)" using cut(2) by (auto simp: list_all_iff)
  have "map (vr_size \<circ> ?cut) plan = map snd plan" by (auto simp: vr_size_def)
  then show "sum_list (map vr_size (map ?cut plan)) = amount" using plan
    by (simp only: plan_ok_def list.map_comp)
  have "sorted_wrt (\<lambda>p q. fst p < fst q) plan" using plan by (simp add: plan_ok_def sorted_wrt_map)
  then have "sorted_wrt (\<lambda>p q. \<not> vr_intersects (?cut p) (?cut q)) plan"
  proof (rule sorted_wrt_mono_rel [rotated])
    fix p q assume pq: "p \<in> set plan" "q \<in> set plan" "fst p < fst q"
    obtain i t j u where e: "p = (i, t)" "q = (j, u)" by (cases p, cases q) auto
    have "\<not> vr_intersects (lvr_value (rs ! i)) (lvr_value (rs ! j))"
      using disj idx [of j u] pq e by (auto simp: sorted_wrt_iff_nth_less)
    then show "\<not> vr_intersects (?cut p) (?cut q)"
      using cut(3) [of i t] cut(3) [of j u] pq e by (auto simp: vr_intersects_def)
  qed
  then show "sorted_wrt (\<lambda>v w. \<not> vr_intersects v w) (map ?cut plan)" by (simp add: sorted_wrt_map)
  show "\<forall>v\<in>set (map ?cut plan). \<exists>r\<in>set rs. vr_begin v = vr_begin (lvr_value r) \<and> vr_set v \<subseteq> vr_set (lvr_value r)"
    using cut(3) idx by (fastforce simp: vr_set_def)
qed

lemma spendable_sorted:
  assumes "sorted_wrt (\<lambda>v w. \<not> vr_intersects v w) (spendable_values records)"
  defines "rs \<equiv> sorted_spendable_records records"
  shows "lvr_value ` set rs = set (spendable_values records)"
    "sorted_wrt (\<lambda>r s. \<not> vr_intersects (lvr_value r) (lvr_value s)) rs"
    "sum_list (map (\<lambda>i. if i < length rs then vr_size (lvr_value (rs ! i)) else 0) [0..<length rs]) =
      sum_list (map vr_size (spendable_values records))"
proof -
  have m: "mset (map lvr_value rs) = mset (spendable_values records)"
    by (simp add: rs_def sorted_spendable_records_def spendable_values_def)
  then show "lvr_value ` set rs = set (spendable_values records)" by (metis list.set_map mset_eq_setD)
  show "sorted_wrt (\<lambda>r s. \<not> vr_intersects (lvr_value r) (lvr_value s)) rs"
    using assms(1) sorted_wrt_sym_perm [OF m, of "\<lambda>v w. \<not> vr_intersects v w"] by (simp add: vr_intersects_sym sorted_wrt_map)
  have "map (\<lambda>i. if i < length rs then vr_size (lvr_value (rs ! i)) else 0) [0..<length rs] = map vr_size (map lvr_value rs)"
    by (auto intro: nth_equalityI)
  moreover have "mset (map vr_size (map lvr_value rs)) = mset (map vr_size (spendable_values records))" using m by (metis mset_map)
  ultimately show "sum_list (map (\<lambda>i. if i < length rs then vr_size (lvr_value (rs ! i)) else 0) [0..<length rs]) =
      sum_list (map vr_size (spendable_values records))" by (metis sum_mset_sum_list)
qed

lemma select_payment_exact:
  assumes "\<And>v. v \<in> set (spendable_values records) \<Longrightarrow> vr_ok v"
    "sorted_wrt (\<lambda>v w. \<not> vr_intersects v w) (spendable_values records)"
  shows "case select_payment_ranges address records checkpoints amount of
      Inl e \<Rightarrow> (if amount \<le> 0 then e = AmountNotPositive
                 else e = InsufficientBalance \<and> sum_list (map vr_size (spendable_values records)) < amount)
    | Inr vs \<Rightarrow> 0 < amount \<and> sum_list (map vr_size vs) = amount \<and> list_all vr_ok vs \<and>
        sorted_wrt (\<lambda>v w. vr_end v < vr_begin w) vs \<and>
        (\<forall>v\<in>set vs. \<exists>w\<in>set (spendable_values records). vr_begin v = vr_begin w \<and> vr_set v \<subseteq> vr_set w)"
proof (cases "amount \<le> 0")
  case True
  then show ?thesis by (simp add: select_payment_ranges_def)
next
  case False
  let ?rs = "sorted_spendable_records records"
  let ?cost = "selection_plan_cost (has_exact_local_checkpoint address checkpoints) ?rs"
  let ?fin = "foldl (record_step ?cost amount) ([(0, [])], None) (List.enumerate 0 ?rs)"
  let ?sz = "\<lambda>i. if i < length ?rs then vr_size (lvr_value (?rs ! i)) else 0"
  note sorted = spendable_sorted [OF assms(2)]
  have ok: "vr_ok (lvr_value r)" if "r \<in> set ?rs" for r using assms(1) sorted(1) that by blast
  have search: "search_ok ?sz amount (length ?rs) ?fin"
    using search_ok_all [of ?rs amount ?cost] ok False by simp
  have unfold: "select_payment_ranges address records checkpoints amount = (case snd ?fin of None \<Rightarrow> Inl InsufficientBalance
      | Some best_plan \<Rightarrow> res_bind (res_map (take_range ?rs) best_plan) (\<lambda>selected. Inr (sort_key vr_key selected)))"
    using False by (simp add: select_payment_ranges_def Let_def)
  show ?thesis
  proof (cases "snd ?fin")
    case None
    then have "sum_list (map vr_size (spendable_values records)) < amount"
      using search sorted(3) by (auto simp: search_ok_def)
    then show ?thesis using None False by (simp add: unfold)
  next
    case (Some plan)
    then have "plan_ok ?sz (length ?rs) plan amount" using search by (simp add: search_ok_def)
    then obtain vs where vs: "res_map (take_range ?rs) plan = Inr vs" "list_all vr_ok vs" "sum_list (map vr_size vs) = amount"
      "sorted_wrt (\<lambda>v w. \<not> vr_intersects v w) vs"
      "\<forall>v\<in>set vs. \<exists>r\<in>set ?rs. vr_begin v = vr_begin (lvr_value r) \<and> vr_set v \<subseteq> vr_set (lvr_value r)"
      using ok sorted(2) by (elim selected_ok) auto
    have "sum_list (map vr_size (sort vs)) = amount"
      using vs(3) by (metis mset_map mset_sort sum_mset_sum_list)
    moreover have "sorted_wrt (\<lambda>v w. \<not> vr_intersects v w) (sort vs)"
      using vs(4) sorted_wrt_sym_perm [of "sort vs" vs "\<lambda>v w. \<not> vr_intersects v w"] by (simp add: vr_intersects_sym)
    then have "sorted_wrt (\<lambda>v w. vr_end v < vr_begin w) (sort vs)"
      using sorted_adjacent_disjoint [of "sort vs"] no_adjacent vs(2) by (simp add: list_all_iff)
    ultimately show ?thesis
      using Some False vs sorted(1) by (simp add: unfold sort_simps list_all_iff) blast
  qed
qed

text \<open>C34. A payment is chosen exactly when it can be made. With pairwise disjoint spendable values, \<open>select_payment_ranges\<close>
  fails only on a non-positive amount and when the spendable values together are worth less; otherwise the ranges
  it returns are valid, in order, disjoint, worth the amount exactly, and each starts a spendable value and lies in it.\<close>

theorem payment_selection:
  assumes "\<And>v. v \<in> set (spendable_values records) \<Longrightarrow> vr_ok v"
    "sorted_wrt (\<lambda>v w. \<not> vr_intersects v w) (spendable_values records)"
  shows "case select_payment_ranges address records checkpoints amount of
      Inl e \<Rightarrow> (if amount \<le> 0 then e = AmountNotPositive
                 else e = InsufficientBalance \<and> sum_list (map vr_size (spendable_values records)) < amount)
    | Inr vs \<Rightarrow> 0 < amount \<and> sum_list (map vr_size vs) = amount \<and> list_all vr_ok vs \<and>
        sorted_wrt (\<lambda>v w. vr_end v < vr_begin w) vs \<and>
        (\<forall>v\<in>set vs. \<exists>w\<in>set (spendable_values records). vr_begin v = vr_begin w \<and> vr_set v \<subseteq> vr_set w)"
  by (rule select_payment_exact [OF assms])

definition sample_record :: "string \<Rightarrow> value_range \<Rightarrow> local_value_record" where
  "sample_record i v = \<lparr>lvr_id = i, lvr_value = v,
     lvr_witness = WitnessV2 v ''a'' [] (GenesisAnchor \<lparr>ga_block_hash = replicate 32 0, ga_owner = ''a'',
       ga_value_begin = vr_begin v, ga_value_end = vr_end v\<rparr>), lvr_status = VERIFIED_SPENDABLE, lvr_height = 0\<rparr>"

theorem payment_selection_witness:
  "\<exists>vs. select_payment_ranges ''a'' [sample_record ''1'' (ValueRange 20 24), sample_record ''2'' (ValueRange 0 9)] [] 12 = Inr vs \<and>
     sum_list (map vr_size vs) = 12"
proof -
  let ?rs = "[sample_record ''1'' (ValueRange 20 24), sample_record ''2'' (ValueRange 0 9)]"
  have vals: "spendable_values ?rs = [ValueRange 20 24, ValueRange 0 9]" by (simp add: spendable_values_def sample_record_def)
  have ok: "vr_ok v" if "v \<in> set (spendable_values ?rs)" for v using that by (auto simp: vals vr_ok_def)
  have disj: "sorted_wrt (\<lambda>v w. \<not> vr_intersects v w) (spendable_values ?rs)" by (simp add: vals vr_intersects_def)
  have "\<not> sum_list (map vr_size (spendable_values ?rs)) < 12" by (simp add: vals vr_size_def)
  with payment_selection [OF ok disj, where address = "''a''" and checkpoints = "[]" and amount = 12] show ?thesis
    by (auto split: sum.splits)
qed

end
