(* ===== verification/Wallet_Store.thy ===== *)
theory Wallet_Store
  imports Wallet_Ranges
begin

section \<open>The wallet's database (\<open>EZ_V2/storage.py\<close>)\<close>

text \<open>
  \<open>LocalWalletDB\<close> as a record of tables. A table is a dict from its primary key to the other columns,
  in row order; a JSON column holds the object that \<open>serde\<close> writes and reads back, and integers stay
  within SQLite's 64 bits. Each \<open>with self._conn\<close> block is one transaction: the operation returns the
  new database, or an error and then the old one stays. Before a receipt is written, its Merkle proof is
  replaced by a reference to the stored proof batch of its block when the batch yields the same proof; reading
  puts the proof back. The theory shows when that is a round trip and when it is not, and that the
  reference counts of the sidecars are exact.
\<close>

datatype db_error =
    IntegrityError
  | ProofError smt_error
  | ObjectError type_error
  | ClaimsError claim_json_error

subsection \<open>Compact receipts\<close>

definition bundle_ref_key_from_fields :: "int \<Rightarrow> bytes \<Rightarrow> bytes \<Rightarrow> int \<Rightarrow> string" where
  "bundle_ref_key_from_fields height block_hash bundle_hash seq =
     str_int height @ '':'' @ hex block_hash @ '':'' @ hex bundle_hash @ '':'' @ str_int seq"

definition bundle_ref_key :: "bundle_ref \<Rightarrow> string" where
  "bundle_ref_key ref = bundle_ref_key_from_fields (br_height ref) (br_block_hash ref) (br_bundle_hash ref) (br_seq ref)"

definition batch_id_of :: "header_lite \<Rightarrow> string" where
  \<comment> \<open>\<open>f"{height}:{block_hash.hex()}"\<close>\<close>
  "batch_id_of h = str_int (hl_height h) @ '':'' @ hex (hl_block_hash h)"

type_synonym batch_lookup = "string \<Rightarrow> receipt_proof_batch option"

definition compact_receipt :: "crypto \<Rightarrow> string \<Rightarrow> receipt_proof_batch option \<Rightarrow> receipt \<Rightarrow> db_error + receipt" where
  "compact_receipt C sender_addr proof_batch r =
     (case (rc_proof r, proof_batch) of
        (Some proof, Some batch) \<Rightarrow>
          if rpb_state_root batch \<noteq> hl_state_root (rc_header r) then Inr r
          else
            let key = compute_addr_key C sender_addr
            in res_bind (map_sum ProofError id (materialize_proof C (rpb_multi_proof batch) key)) (\<lambda>materialized.
               if materialized \<noteq> proof then Inr r
               else
                 res_bind (map_sum ObjectError id (receipt_proof_ref_init \<lparr>rpr_batch_id = rpb_batch_id batch, rpr_key = key\<rparr>)) (\<lambda>ref.
                 map_sum ObjectError id (receipt_init (r\<lparr>rc_proof := None, rc_batch_ref := Some ref\<rparr>))))
      | _ \<Rightarrow> Inr r)"

definition materialize_receipt :: "crypto \<Rightarrow> batch_lookup \<Rightarrow> receipt \<Rightarrow> db_error + receipt" where
  "materialize_receipt C lookup r =
     (case (rc_proof r, rc_batch_ref r) of
        (None, Some ref) \<Rightarrow>
          (case lookup (rpr_batch_id ref) of
             None \<Rightarrow> Inr r
           | Some batch \<Rightarrow>
               if rpb_state_root batch \<noteq> hl_state_root (rc_header r) then Inr r
               else
                 res_bind (map_sum ProofError id (materialize_proof C (rpb_multi_proof batch) (rpr_key ref))) (\<lambda>proof.
                 map_sum ObjectError id (receipt_init (r\<lparr>rc_proof := Some proof, rc_batch_ref := None\<rparr>))))
      | _ \<Rightarrow> Inr r)"

definition compact_unit :: "crypto \<Rightarrow> receipt_proof_batch option \<Rightarrow> confirmed_unit \<Rightarrow> db_error + confirmed_unit" where
  "compact_unit C proof_batch unit =
     res_bind (compact_receipt C (sc_sender (cu_sidecar unit)) proof_batch (cu_receipt unit))
       (\<lambda>r. Inr (unit\<lparr>cu_receipt := r\<rparr>))"

definition materialize_unit :: "crypto \<Rightarrow> batch_lookup \<Rightarrow> confirmed_unit \<Rightarrow> db_error + confirmed_unit" where
  "materialize_unit C lookup unit =
     res_bind (materialize_receipt C lookup (cu_receipt unit)) (\<lambda>r. Inr (unit\<lparr>cu_receipt := r\<rparr>))"

primrec compact_witness :: "crypto \<Rightarrow> batch_lookup \<Rightarrow> witness \<Rightarrow> db_error + witness"
and compact_anchor :: "crypto \<Rightarrow> batch_lookup \<Rightarrow> anchor \<Rightarrow> db_error + anchor" where
  "compact_witness C lookup (WitnessV2 v owner chain anchor) =
     res_bind (res_map (\<lambda>unit. compact_unit C (lookup (batch_id_of (rc_header (cu_receipt unit)))) unit) chain) (\<lambda>compact_chain.
     res_bind (compact_anchor C lookup anchor) (\<lambda>anchor. Inr (WitnessV2 v owner compact_chain anchor)))"
| "compact_anchor C lookup (GenesisAnchor g) = Inr (GenesisAnchor g)"
| "compact_anchor C lookup (CheckpointAnchor c) = Inr (CheckpointAnchor c)"
| "compact_anchor C lookup (PriorWitnessLink tx prior) =
     res_bind (compact_witness C lookup prior) (\<lambda>prior. Inr (PriorWitnessLink tx prior))"

primrec materialize_witness :: "crypto \<Rightarrow> batch_lookup \<Rightarrow> witness \<Rightarrow> db_error + witness"
and materialize_anchor :: "crypto \<Rightarrow> batch_lookup \<Rightarrow> anchor \<Rightarrow> db_error + anchor" where
  "materialize_witness C lookup (WitnessV2 v owner chain anchor) =
     res_bind (res_map (materialize_unit C lookup) chain) (\<lambda>materialized_chain.
     res_bind (materialize_anchor C lookup anchor) (\<lambda>anchor. Inr (WitnessV2 v owner materialized_chain anchor)))"
| "materialize_anchor C lookup (GenesisAnchor g) = Inr (GenesisAnchor g)"
| "materialize_anchor C lookup (CheckpointAnchor c) = Inr (CheckpointAnchor c)"
| "materialize_anchor C lookup (PriorWitnessLink tx prior) =
     res_bind (materialize_witness C lookup prior) (\<lambda>prior. Inr (PriorWitnessLink tx prior))"

definition compact_record :: "crypto \<Rightarrow> batch_lookup \<Rightarrow> local_value_record \<Rightarrow> db_error + local_value_record" where
  "compact_record C lookup r = res_bind (compact_witness C lookup (lvr_witness r)) (\<lambda>w. Inr (r\<lparr>lvr_witness := w\<rparr>))"

definition materialize_record :: "crypto \<Rightarrow> batch_lookup \<Rightarrow> local_value_record \<Rightarrow> db_error + local_value_record" where
  "materialize_record C lookup r = res_bind (materialize_witness C lookup (lvr_witness r)) (\<lambda>w. Inr (r\<lparr>lvr_witness := w\<rparr>))"

primrec collect_bundle_hashes :: "crypto \<Rightarrow> witness \<Rightarrow> bytes list"
and collect_anchor_hashes :: "crypto \<Rightarrow> anchor \<Rightarrow> bytes list" where
  \<comment> \<open>The set of hashes as a list without repetition; only membership and the count per witness matter.\<close>
  "collect_bundle_hashes C (WitnessV2 v owner chain anchor) =
     remdups (map (\<lambda>unit. compute_bundle_hash C (cu_sidecar unit)) chain @ collect_anchor_hashes C anchor)"
| "collect_anchor_hashes C (GenesisAnchor g) = []"
| "collect_anchor_hashes C (CheckpointAnchor c) = []"
| "collect_anchor_hashes C (PriorWitnessLink tx prior) = collect_bundle_hashes C prior"

subsection \<open>The tables\<close>

record sidecar_row =
  sr_sidecar :: "bundle_sidecar option"
  sr_claims :: "pyobj option"
  sr_refs :: int

record checkpoint_row =
  cr_owner :: string
  cr_begin :: int
  cr_end :: int
  cr_height :: int
  cr_checkpoint :: checkpoint

record unit_row =
  ur_sender :: string
  ur_seq :: int
  ur_bundle_hash :: bytes
  ur_unit :: confirmed_unit

record wallet_db =
  wd_values :: "(string, string \<times> local_value_record) dict"
  wd_sidecars :: "(bytes, sidecar_row) dict"
  wd_receipts :: "(string \<times> int, string \<times> receipt) dict"
  wd_units :: "(string, unit_row) dict"
  wd_pending :: "(string \<times> int, bytes \<times> pending_bundle_context) dict"
  wd_checkpoints :: "(string, checkpoint_row) dict"
  wd_accepted :: "(string \<times> bytes, int) dict"
  wd_headers :: "(string \<times> int, header_lite) dict"
  wd_batches :: "(string, int \<times> receipt_proof_batch) dict"

definition wallet_db_new :: wallet_db where
  \<comment> \<open>The tables after \<open>_init_schema\<close> on a new file.\<close>
  "wallet_db_new = \<lparr>wd_values = [], wd_sidecars = [], wd_receipts = [], wd_units = [], wd_pending = [],
     wd_checkpoints = [], wd_accepted = [], wd_headers = [], wd_batches = []\<rparr>"

definition db_proof_batch :: "wallet_db \<Rightarrow> batch_lookup" where
  \<comment> \<open>\<open>get_receipt_proof_batch\<close>\<close>
  "db_proof_batch db batch_id = map_option snd (dict_get (wd_batches db) batch_id)"

definition save_receipt_proof_batch :: "int \<Rightarrow> receipt_proof_batch \<Rightarrow> wallet_db \<Rightarrow> wallet_db" where
  "save_receipt_proof_batch height batch db =
     db\<lparr>wd_batches := dict_set (rpb_batch_id batch) (height, batch) (wd_batches db)\<rparr>"

subsection \<open>Value records and sidecars\<close>

fun insert_value_rows ::
    "string \<Rightarrow> local_value_record list \<Rightarrow> (string, string \<times> local_value_record) dict \<Rightarrow>
       db_error + (string, string \<times> local_value_record) dict" where
  \<comment> \<open>\<open>executemany("INSERT ...")\<close>: a record id that is in the table breaks the primary key.\<close>
  "insert_value_rows owner_addr [] rows = Inr rows"
| "insert_value_rows owner_addr (r # records) rows =
     (if dict_get rows (lvr_id r) \<noteq> None then Inl IntegrityError
      else insert_value_rows owner_addr records (dict_set (lvr_id r) (owner_addr, r) rows))"

definition replace_value_records :: "crypto \<Rightarrow> string \<Rightarrow> local_value_record list \<Rightarrow> wallet_db \<Rightarrow> db_error + wallet_db" where
  "replace_value_records C owner_addr records db =
     res_bind (res_map (compact_record C (db_proof_batch db)) records) (\<lambda>compact.
     res_bind (insert_value_rows owner_addr compact (filter (\<lambda>(_, owner, _). owner \<noteq> owner_addr) (wd_values db))) (\<lambda>rows.
     Inr (db\<lparr>wd_values := rows\<rparr>)))"

definition value_row_key :: "local_value_record \<Rightarrow> int \<times> int \<times> string" where
  "value_row_key r = (vr_begin (lvr_value r), vr_end (lvr_value r), lvr_id r)"

definition owner_rows :: "string \<Rightarrow> wallet_db \<Rightarrow> local_value_record list" where
  \<comment> \<open>\<open>WHERE owner_addr = ?\<close>\<close>
  "owner_rows owner_addr db = map (snd \<circ> snd) (filter (\<lambda>(_, owner, _). owner = owner_addr) (wd_values db))"

definition list_value_records :: "crypto \<Rightarrow> string \<Rightarrow> wallet_db \<Rightarrow> db_error + local_value_record list" where
  "list_value_records C owner_addr db =
     res_map (materialize_record C (db_proof_batch db)) (sort_key value_row_key (owner_rows owner_addr db))"

definition count_hash :: "bytes \<Rightarrow> (bytes, int) dict \<Rightarrow> (bytes, int) dict" where
  "count_hash h counts = dict_set h (dict_get_default counts h 0 + 1) counts"

definition reference_counts :: "crypto \<Rightarrow> wallet_db \<Rightarrow> (bytes, int) dict" where
  "reference_counts C db =
     fold (\<lambda>(_, _, context). count_hash (pbc_bundle_hash context)) (wd_pending db)
       (fold (\<lambda>(_, _, r) counts. fold count_hash (collect_bundle_hashes C (lvr_witness r)) counts) (wd_values db) [])"

definition get_sidecar :: "wallet_db \<Rightarrow> bytes \<Rightarrow> bundle_sidecar option" where
  "get_sidecar db bundle_hash =
     (case dict_get (wd_sidecars db) bundle_hash of None \<Rightarrow> None | Some row \<Rightarrow> sr_sidecar row)"

definition sidecar_claims_obj :: "bundle_sidecar \<Rightarrow> pyobj" where
  "sidecar_claims_obj sidecar = claim_range_set_json_obj (claim_range_set_from_sidecar sidecar)"

definition set_ref_count :: "bytes \<times> int \<Rightarrow> (bytes, sidecar_row) dict \<Rightarrow> (bytes, sidecar_row) dict" where
  \<comment> \<open>The body of the loop over \<open>counts\<close>; a hash without a sidecar gets a row with the JSON \<open>null\<close>.\<close>
  "set_ref_count entry rows =
     (case entry of (bundle_hash, ref_count) \<Rightarrow>
        let sidecar = (case dict_get rows bundle_hash of None \<Rightarrow> None | Some row \<Rightarrow> sr_sidecar row)
        in dict_set bundle_hash \<lparr>sr_sidecar = sidecar, sr_claims = map_option sidecar_claims_obj sidecar,
             sr_refs = ref_count\<rparr> rows)"

definition recompute_sidecar_ref_counts :: "crypto \<Rightarrow> wallet_db \<Rightarrow> wallet_db" where
  "recompute_sidecar_ref_counts C db =
     db\<lparr>wd_sidecars := fold set_ref_count (reference_counts C db)
          (map (\<lambda>(h, row). (h, row\<lparr>sr_refs := 0\<rparr>)) (wd_sidecars db))\<rparr>"

definition replace_value_records_and_recompute ::
    "crypto \<Rightarrow> string \<Rightarrow> local_value_record list \<Rightarrow> wallet_db \<Rightarrow> db_error + wallet_db" where
  "replace_value_records_and_recompute C owner_addr records db =
     res_bind (replace_value_records C owner_addr records db) (\<lambda>db. Inr (recompute_sidecar_ref_counts C db))"

definition gc_unused_sidecars :: "wallet_db \<Rightarrow> int \<times> wallet_db" where
  "gc_unused_sidecars db =
     (int (length (filter (\<lambda>(_, row). sr_refs row \<le> 0) (wd_sidecars db))),
      db\<lparr>wd_sidecars := filter (\<lambda>(_, row). \<not> sr_refs row \<le> 0) (wd_sidecars db)\<rparr>)"

definition save_sidecar :: "crypto \<Rightarrow> bundle_sidecar \<Rightarrow> wallet_db \<Rightarrow> bytes \<times> wallet_db" where
  "save_sidecar C sidecar db =
     (let bundle_hash = compute_bundle_hash C sidecar;
          ref_count = (case dict_get (wd_sidecars db) bundle_hash of None \<Rightarrow> 0 | Some row \<Rightarrow> sr_refs row)
      in (bundle_hash, db\<lparr>wd_sidecars := dict_set bundle_hash
            \<lparr>sr_sidecar = Some sidecar, sr_claims = Some (sidecar_claims_obj sidecar), sr_refs = ref_count\<rparr> (wd_sidecars db)\<rparr>))"

definition list_sidecar_hashes :: "wallet_db \<Rightarrow> bytes list" where
  "list_sidecar_hashes db = sort (map fst (wd_sidecars db))"

definition get_sidecar_claim_ranges ::
    "crypto \<Rightarrow> bytes \<Rightarrow> wallet_db \<Rightarrow> (db_error + claim_range_set option) \<times> wallet_db" where
  "get_sidecar_claim_ranges C bundle_hash db =
     (case dict_get (wd_sidecars db) bundle_hash of
        None \<Rightarrow> (Inr None, db)
      | Some row \<Rightarrow>
          (case sr_claims row of
             Some claims \<Rightarrow> (map_sum ClaimsError Some (claim_range_set_from_json_obj claims), db)
           | None \<Rightarrow>
               (case get_sidecar db bundle_hash of
                  None \<Rightarrow> (Inr None, db)
                | Some sidecar \<Rightarrow> (Inr (Some (claim_range_set_from_sidecar sidecar)), snd (save_sidecar C sidecar db)))))"

subsection \<open>Receipts, confirmed units and pending bundles\<close>

definition save_receipt :: "crypto \<Rightarrow> string \<Rightarrow> receipt \<Rightarrow> bytes \<Rightarrow> wallet_db \<Rightarrow> db_error + wallet_db" where
  "save_receipt C sender_addr r bundle_hash db =
     res_bind (compact_receipt C sender_addr (db_proof_batch db (batch_id_of (rc_header r))) r) (\<lambda>compact.
     let key = bundle_ref_key_from_fields (hl_height (rc_header compact)) (hl_block_hash (rc_header compact)) bundle_hash (rc_seq compact)
     in if \<exists>(k, other, _)\<in>set (wd_receipts db). k \<noteq> (sender_addr, rc_seq compact) \<and> other = key then Inl IntegrityError
        else Inr (db\<lparr>wd_receipts := dict_set (sender_addr, rc_seq compact) (key, compact) (wd_receipts db)\<rparr>))"

definition db_get_receipt :: "crypto \<Rightarrow> string \<Rightarrow> int \<Rightarrow> wallet_db \<Rightarrow> db_error + receipt option" where
  "db_get_receipt C sender_addr seq db =
     (case dict_get (wd_receipts db) (sender_addr, seq) of
        None \<Rightarrow> Inr None
      | Some (_, r) \<Rightarrow> map_sum id Some (materialize_receipt C (db_proof_batch db) r))"

definition db_get_receipt_by_ref :: "crypto \<Rightarrow> bundle_ref \<Rightarrow> wallet_db \<Rightarrow> db_error + receipt option" where
  "db_get_receipt_by_ref C ref db =
     (case find (\<lambda>(_, key, _). key = bundle_ref_key ref) (wd_receipts db) of
        None \<Rightarrow> Inr None
      | Some (_, _, r) \<Rightarrow> map_sum id Some (materialize_receipt C (db_proof_batch db) r))"

definition list_receipts :: "crypto \<Rightarrow> string \<Rightarrow> wallet_db \<Rightarrow> db_error + receipt list" where
  "list_receipts C sender_addr db =
     res_map (materialize_receipt C (db_proof_batch db))
       (map (\<lambda>(_, _, r). r) (sort_key (\<lambda>((_, seq), _). seq) (filter (\<lambda>((sender, _), _). sender = sender_addr) (wd_receipts db))))"

definition save_confirmed_unit :: "crypto \<Rightarrow> confirmed_unit \<Rightarrow> wallet_db \<Rightarrow> db_error + wallet_db" where
  \<comment> \<open>An upsert by the reference key keeps the row's \<open>sender_addr\<close> and \<open>seq\<close>.\<close>
  "save_confirmed_unit C unit db =
     (let ref = confirmed_ref C unit; key = bundle_ref_key ref
      in res_bind (compact_unit C (db_proof_batch db (batch_id_of (rc_header (cu_receipt unit)))) unit) (\<lambda>compact.
         let row = (case dict_get (wd_units db) key of
               None \<Rightarrow> \<lparr>ur_sender = sc_sender (cu_sidecar compact), ur_seq = rc_seq (cu_receipt compact),
                        ur_bundle_hash = br_bundle_hash ref, ur_unit = compact\<rparr>
             | Some row \<Rightarrow> row\<lparr>ur_unit := compact, ur_bundle_hash := br_bundle_hash ref\<rparr>)
         in Inr (db\<lparr>wd_units := dict_set key row (wd_units db)\<rparr>)))"

definition get_confirmed_unit_by_ref :: "crypto \<Rightarrow> bundle_ref \<Rightarrow> wallet_db \<Rightarrow> db_error + confirmed_unit option" where
  "get_confirmed_unit_by_ref C ref db =
     (case dict_get (wd_units db) (bundle_ref_key ref) of
        None \<Rightarrow> Inr None
      | Some row \<Rightarrow> map_sum id Some (materialize_unit C (db_proof_batch db) (ur_unit row)))"

definition get_confirmed_unit :: "crypto \<Rightarrow> string \<Rightarrow> int \<Rightarrow> wallet_db \<Rightarrow> db_error + confirmed_unit option" where
  \<comment> \<open>Without \<open>ORDER BY\<close>, \<open>fetchone\<close> gives the first row of the table that matches.\<close>
  "get_confirmed_unit C sender_addr seq db =
     (case find (\<lambda>(_, row). ur_sender row = sender_addr \<and> ur_seq row = seq) (wd_units db) of
        None \<Rightarrow> Inr None
      | Some (_, row) \<Rightarrow> map_sum id Some (materialize_unit C (db_proof_batch db) (ur_unit row)))"

definition sender_addr_for_bundle_ref :: "bundle_ref \<Rightarrow> wallet_db \<Rightarrow> string" where
  "sender_addr_for_bundle_ref ref db =
     (case dict_get (wd_units db) (bundle_ref_key ref) of
        Some row \<Rightarrow> ur_sender row
      | None \<Rightarrow>
          (case find (\<lambda>(_, key, _). key = bundle_ref_key ref) (wd_receipts db) of
             Some ((sender, _), _) \<Rightarrow> sender
           | None \<Rightarrow> []))"

definition save_pending_bundle :: "pending_bundle_context \<Rightarrow> wallet_db \<Rightarrow> db_error + wallet_db" where
  "save_pending_bundle context db =
     (let k = (pbc_sender context, pbc_seq context)
      in if \<exists>(k', bundle_hash, _)\<in>set (wd_pending db). k' \<noteq> k \<and> bundle_hash = pbc_bundle_hash context then Inl IntegrityError
         else Inr (db\<lparr>wd_pending := dict_set k (pbc_bundle_hash context, context) (wd_pending db)\<rparr>))"

definition get_pending_bundle :: "string \<Rightarrow> int \<Rightarrow> wallet_db \<Rightarrow> pending_bundle_context option" where
  "get_pending_bundle sender_addr seq db = map_option snd (dict_get (wd_pending db) (sender_addr, seq))"

definition list_pending_bundles :: "string \<Rightarrow> wallet_db \<Rightarrow> pending_bundle_context list" where
  "list_pending_bundles sender_addr db =
     map (snd \<circ> snd) (sort_key (\<lambda>((_, seq), _). seq) (filter (\<lambda>((sender, _), _). sender = sender_addr) (wd_pending db)))"

definition delete_pending_bundle :: "string \<Rightarrow> int \<Rightarrow> wallet_db \<Rightarrow> wallet_db" where
  "delete_pending_bundle sender_addr seq db = db\<lparr>wd_pending := dict_pop (sender_addr, seq) (wd_pending db)\<rparr>"

definition next_sequence :: "string \<Rightarrow> wallet_db \<Rightarrow> int" where
  "next_sequence sender_addr db =
     (let seqs = map snd (filter (\<lambda>(sender, _). sender = sender_addr) (map fst (wd_receipts db) @ map fst (wd_pending db)))
      in (if seqs = [] then 0 else Max (set seqs)) + 1)"

subsection \<open>Accepted packages, canonical headers and checkpoints\<close>

definition has_accepted_transfer_package :: "string \<Rightarrow> bytes \<Rightarrow> wallet_db \<Rightarrow> bool" where
  "has_accepted_transfer_package owner_addr package_hash db \<longleftrightarrow> dict_get (wd_accepted db) (owner_addr, package_hash) \<noteq> None"

definition save_accepted_transfer_package :: "string \<Rightarrow> bytes \<Rightarrow> int \<Rightarrow> wallet_db \<Rightarrow> wallet_db" where
  \<comment> \<open>\<open>ON CONFLICT DO NOTHING\<close>\<close>
  "save_accepted_transfer_package owner_addr package_hash accepted_at db =
     (if dict_get (wd_accepted db) (owner_addr, package_hash) \<noteq> None then db
      else db\<lparr>wd_accepted := dict_set (owner_addr, package_hash) accepted_at (wd_accepted db)\<rparr>)"

definition save_canonical_header :: "string \<Rightarrow> header_lite \<Rightarrow> wallet_db \<Rightarrow> wallet_db" where
  "save_canonical_header owner_addr header db =
     db\<lparr>wd_headers := dict_set (owner_addr, hl_height header) header (wd_headers db)\<rparr>"

definition has_canonical_header :: "string \<Rightarrow> header_lite \<Rightarrow> wallet_db \<Rightarrow> bool" where
  "has_canonical_header owner_addr header db =
     (case dict_get (wd_headers db) (owner_addr, hl_height header) of
        None \<Rightarrow> False
      | Some row \<Rightarrow> hl_block_hash row = hl_block_hash header \<and> hl_state_root row = hl_state_root header)"

definition checkpoint_key :: "checkpoint \<Rightarrow> string" where
  "checkpoint_key c = cp_owner c @ ''|'' @ str_int (cp_value_begin c) @ ''|'' @ str_int (cp_value_end c) @ ''|'' @
     hex (cp_block_hash c) @ ''|'' @ hex (cp_bundle_hash c)"

definition save_checkpoint :: "checkpoint \<Rightarrow> wallet_db \<Rightarrow> wallet_db" where
  "save_checkpoint c db =
     (let key = checkpoint_key c;
          row = (case dict_get (wd_checkpoints db) key of
              None \<Rightarrow> \<lparr>cr_owner = cp_owner c, cr_begin = cp_value_begin c, cr_end = cp_value_end c,
                       cr_height = cp_height c, cr_checkpoint = c\<rparr>
            | Some row \<Rightarrow> row\<lparr>cr_checkpoint := c\<rparr>)
      in db\<lparr>wd_checkpoints := dict_set key row (wd_checkpoints db)\<rparr>)"

definition db_list_checkpoints :: "string \<Rightarrow> wallet_db \<Rightarrow> checkpoint list" where
  "db_list_checkpoints owner_addr db =
     map cr_checkpoint (sort_key (\<lambda>row. (cr_begin row, cr_end row, cr_height row))
       (filter (\<lambda>row. cr_owner row = owner_addr) (map snd (wd_checkpoints db))))"

subsection \<open>What compaction keeps\<close>

primrec witness_units :: "witness \<Rightarrow> confirmed_unit list" and anchor_units :: "anchor \<Rightarrow> confirmed_unit list" where
  \<comment> \<open>All confirmed units of a witness, those of the earlier owners after its own\<close>
  "witness_units (WitnessV2 v owner chain anchor) = chain @ anchor_units anchor"
| "anchor_units (GenesisAnchor g) = []"
| "anchor_units (CheckpointAnchor c) = []"
| "anchor_units (PriorWitnessLink tx prior) = witness_units prior"

definition full_receipt :: "receipt \<Rightarrow> bool" where
  \<comment> \<open>A receipt in its single-proof form\<close>
  "full_receipt r \<longleftrightarrow> rc_proof r \<noteq> None \<and> receipt_init r = Inr r"

definition full_witness :: "witness \<Rightarrow> bool" where
  "full_witness w \<longleftrightarrow> (\<forall>u\<in>set (witness_units w). full_receipt (cu_receipt u))"

definition batches_ok :: "wallet_db \<Rightarrow> bool" where
  \<comment> \<open>Every stored batch is one of the 256-level account tree and stands under its own id.\<close>
  "batches_ok db \<longleftrightarrow> (\<forall>k h batch. dict_get (wd_batches db) k = Some (h, batch) \<longrightarrow>
     rpb_batch_id batch = k \<and> k \<noteq> [] \<and> mp_depth (rpb_multi_proof batch) = 256)"

lemma batches_ok_new [simp]: "batches_ok wallet_db_new"
  by (simp add: batches_ok_def wallet_db_new_def)

lemma batches_ok_save:
  "batches_ok db \<Longrightarrow> rpb_batch_id batch \<noteq> [] \<Longrightarrow> mp_depth (rpb_multi_proof batch) = 256 \<Longrightarrow>
     batches_ok (save_receipt_proof_batch height batch db)"
  by (auto simp: batches_ok_def save_receipt_proof_batch_def dict_simps)

lemma full_receipt_no_ref: "full_receipt r \<Longrightarrow> rc_batch_ref r = None"
  by (cases "rc_batch_ref r") (auto simp: full_receipt_def receipt_init_def split: if_splits)

lemma materialize_full: "full_receipt r \<Longrightarrow> materialize_receipt C lookup r = Inr r"
  by (auto simp: materialize_receipt_def full_receipt_def split: option.splits)

lemma materialize_proof_total: "length key * 8 = mp_depth mp \<Longrightarrow> \<exists>p. materialize_proof C mp key = Inr p"
  by (simp add: materialize_proof_def Let_def)

lemma addr_key_length: "digests32 C \<Longrightarrow> length (compute_addr_key C a) = 32"
  by (simp add: compute_addr_key_def keccak_length)

lemma compact_receipt_roundtrip:
  assumes "digests32 C" "batches_ok db" "full_receipt r"
  shows "\<exists>c. compact_receipt C sender (db_proof_batch db k) r = Inr c \<and> materialize_receipt C (db_proof_batch db) c = Inr r \<and>
    rc_header c = rc_header r \<and> rc_seq c = rc_seq r"
proof -
  obtain pf where pf: "rc_proof r = Some pf" using assms(3) by (auto simp: full_receipt_def)
  show ?thesis
  proof (cases "db_proof_batch db k")
    case None
    then show ?thesis using materialize_full [OF assms(3)] by (simp add: compact_receipt_def pf)
  next
    case (Some b)
    then obtain h where "dict_get (wd_batches db) k = Some (h, b)" by (auto simp: db_proof_batch_def)
    then have b: "rpb_batch_id b = k" "k \<noteq> []" "mp_depth (rpb_multi_proof b) = 256" using assms(2) by (auto simp: batches_ok_def)
    let ?key = "compute_addr_key C sender"
    have "length ?key * 8 = mp_depth (rpb_multi_proof b)" using addr_key_length [OF assms(1)] b by simp
    then obtain m where m: "materialize_proof C (rpb_multi_proof b) ?key = Inr m" using materialize_proof_total by blast
    let ?c = "r\<lparr>rc_proof := None, rc_batch_ref := Some \<lparr>rpr_batch_id = k, rpr_key = ?key\<rparr>\<rparr>"
    have init: "receipt_init ?c = Inr ?c" "receipt_proof_ref_init \<lparr>rpr_batch_id = k, rpr_key = ?key\<rparr> = Inr \<lparr>rpr_batch_id = k, rpr_key = ?key\<rparr>"
      using assms(3) b addr_key_length [OF assms(1)]
      by (auto simp: receipt_init_def full_receipt_def receipt_proof_ref_init_def hash32_def split: if_splits)
    have r: "r\<lparr>rc_proof := Some pf, rc_batch_ref := None\<rparr> = r" using pf full_receipt_no_ref [OF assms(3)] by simp
    have restored: "materialize_receipt C (db_proof_batch db) ?c = Inr r" if "m = pf" "rpb_state_root b = hl_state_root (rc_header r)"
      using that Some m assms(3) by (simp add: materialize_receipt_def r full_receipt_def)
    show ?thesis
      using Some m init restored materialize_full [OF assms(3)] b by (simp add: compact_receipt_def pf Let_def)
  qed
qed

lemma compact_unit_roundtrip:
  assumes "digests32 C" "batches_ok db" "full_receipt (cu_receipt u)"
  shows "\<exists>c. compact_unit C (db_proof_batch db k) u = Inr c \<and> materialize_unit C (db_proof_batch db) c = Inr u \<and>
    cu_sidecar c = cu_sidecar u \<and> rc_header (cu_receipt c) = rc_header (cu_receipt u) \<and> rc_seq (cu_receipt c) = rc_seq (cu_receipt u)"
  using compact_receipt_roundtrip [OF assms, of "sc_sender (cu_sidecar u)" k]
  by (auto simp: compact_unit_def materialize_unit_def)

lemma res_map_roundtrip:
  assumes "\<And>x. x \<in> set xs \<Longrightarrow> \<exists>y. f x = Inr y \<and> g y = Inr x \<and> P x y"
  shows "\<exists>ys. res_map f xs = Inr ys \<and> res_map g ys = Inr xs \<and> list_all2 P xs ys"
  using assms
proof (induction xs)
  case (Cons x xs)
  then obtain y ys where "f x = Inr y" "g y = Inr x" "P x y" "res_map f xs = Inr ys" "res_map g ys = Inr xs" "list_all2 P xs ys"
    by (metis list.set_intros)
  then show ?case by simp
qed simp

lemma compact_witness_roundtrip:
  assumes "digests32 C" "batches_ok db"
  shows "\<forall>u\<in>set (witness_units w). full_receipt (cu_receipt u) \<Longrightarrow>
      \<exists>c. compact_witness C (db_proof_batch db) w = Inr c \<and> materialize_witness C (db_proof_batch db) c = Inr w \<and>
        collect_bundle_hashes C c = collect_bundle_hashes C w"
    "\<forall>u\<in>set (anchor_units a). full_receipt (cu_receipt u) \<Longrightarrow>
      \<exists>c. compact_anchor C (db_proof_batch db) a = Inr c \<and> materialize_anchor C (db_proof_batch db) c = Inr a \<and>
        collect_anchor_hashes C c = collect_anchor_hashes C a"
proof (induction w and a)
  case (WitnessV2 v owner chain anchor)
  let ?f = "\<lambda>unit. compact_unit C (db_proof_batch db (batch_id_of (rc_header (cu_receipt unit)))) unit"
  have "\<exists>c. ?f u = Inr c \<and> materialize_unit C (db_proof_batch db) c = Inr u \<and> cu_sidecar u = cu_sidecar c" if "u \<in> set chain" for u
    using compact_unit_roundtrip [OF assms, of u] WitnessV2.prems that by fastforce
  from res_map_roundtrip [where P = "\<lambda>u c. cu_sidecar u = cu_sidecar c", OF this] obtain cs where
    "res_map ?f chain = Inr cs" "res_map (materialize_unit C (db_proof_batch db)) cs = Inr chain"
    "list_all2 (\<lambda>u c. cu_sidecar u = cu_sidecar c) chain cs" by blast
  moreover from this have "map (\<lambda>u. compute_bundle_hash C (cu_sidecar u)) cs = map (\<lambda>u. compute_bundle_hash C (cu_sidecar u)) chain"
    by (auto simp: list_all2_conv_all_nth intro: nth_equalityI)
  ultimately show ?case using WitnessV2 by auto
qed auto

lemma compact_record_roundtrip:
  assumes "digests32 C" "batches_ok db" "full_witness (lvr_witness r)"
  shows "\<exists>c. compact_record C (db_proof_batch db) r = Inr c \<and> materialize_record C (db_proof_batch db) c = Inr r \<and>
    lvr_id c = lvr_id r \<and> value_row_key c = value_row_key r \<and>
    collect_bundle_hashes C (lvr_witness c) = collect_bundle_hashes C (lvr_witness r)"
  using compact_witness_roundtrip(1) [OF assms(1,2), of "lvr_witness r"] assms(3)
  by (auto simp: full_witness_def compact_record_def materialize_record_def value_row_key_def)

lemma insert_value_rows_ok:
  assumes "distinct (map lvr_id records)" "\<And>r. r \<in> set records \<Longrightarrow> dict_get rows (lvr_id r) = None"
  shows "insert_value_rows owner records rows = Inr (rows @ map (\<lambda>r. (lvr_id r, owner, r)) records)"
  using assms
proof (induction records arbitrary: rows)
  case (Cons r records)
  have "dict_set (lvr_id r) (owner, r) rows = rows @ [(lvr_id r, owner, r)]"
    using Cons.prems(2) [of r] by (induction rows) (auto split: if_splits)
  moreover have "dict_get (rows @ [(lvr_id r, owner, r)]) (lvr_id r') = None" if "r' \<in> set records" for r'
  proof -
    have "lvr_id r \<notin> lvr_id ` set records" using Cons.prems(1) by simp
    then have "lvr_id r' \<noteq> lvr_id r" using that by (metis imageI)
    then show ?thesis using Cons.prems(2) [of r'] that by (simp add: map_add_def)
  qed
  ultimately show ?case using Cons by simp
qed simp

lemma sort_key_cong: "(\<And>x. x \<in> set xs \<Longrightarrow> f x = g x) \<Longrightarrow> sort_key f xs = sort_key g xs"
proof (induction xs)
  case (Cons x xs)
  have insort: "insort_key f x ys = insort_key g x ys" if "\<And>y. y \<in> set ys \<Longrightarrow> f y = g y" for ys
    using that Cons.prems [of x] by (induction ys) auto
  have "insort_key f x (sort_key g xs) = insort_key g x (sort_key g xs)" by (rule insort) (use Cons.prems in auto)
  then show ?case using Cons by simp
qed simp

lemma sort_key_map: "sort_key k (map f xs) = map f (sort_key (\<lambda>x. k (f x)) xs)"
proof (induction xs)
  case (Cons x xs)
  have "insort_key k (f x) (map f ys) = map f (insort_key (\<lambda>x. k (f x)) x ys)" for ys by (induction ys) auto
  then show ?case using Cons by simp
qed simp

definition storable :: "string \<Rightarrow> local_value_record list \<Rightarrow> wallet_db \<Rightarrow> bool" where
  \<comment> \<open>Records with distinct ids, none of them another owner's, whose witnesses hold full receipts\<close>
  "storable owner records db \<longleftrightarrow> distinct (map lvr_id records) \<and> (\<forall>r\<in>set records. full_witness (lvr_witness r)) \<and>
     (\<forall>r\<in>set records. \<forall>(k, other, _)\<in>set (wd_values db). other \<noteq> owner \<longrightarrow> k \<noteq> lvr_id r)"

text \<open>The rows a successful replacement writes: compact forms with the records' keys that read back as the records.\<close>

lemma replace_value_records_ok:
  assumes C: "digests32 C" and db: "batches_ok db"
    and records: "storable owner records db"
  obtains f where "replace_value_records C owner records db =
      Inr (db\<lparr>wd_values := filter (\<lambda>(_, other, _). other \<noteq> owner) (wd_values db) @ map (\<lambda>r. (lvr_id r, owner, f r)) records\<rparr>)"
    "\<And>r. r \<in> set records \<Longrightarrow> materialize_record C (db_proof_batch db) (f r) = Inr r \<and> value_row_key (f r) = value_row_key r \<and>
       lvr_id (f r) = lvr_id r \<and> collect_bundle_hashes C (lvr_witness (f r)) = collect_bundle_hashes C (lvr_witness r)"
proof
  let ?f = "\<lambda>r. projr (compact_record C (db_proof_batch db) r)"
  have f: "compact_record C (db_proof_batch db) r = Inr (?f r) \<and> materialize_record C (db_proof_batch db) (?f r) = Inr r \<and>
      value_row_key (?f r) = value_row_key r \<and> lvr_id (?f r) = lvr_id r \<and>
      collect_bundle_hashes C (lvr_witness (?f r)) = collect_bundle_hashes C (lvr_witness r)" if "r \<in> set records" for r
    using compact_record_roundtrip [OF C db, of r] records that by (auto simp: storable_def)
  then have compact: "res_map (compact_record C (db_proof_batch db)) records = Inr (map ?f records)"
    by (intro res_map_total) blast
  let ?rows = "filter (\<lambda>(_, other, _). other \<noteq> owner) (wd_values db)"
  have ids: "map lvr_id (map ?f records) = map lvr_id records" using f by simp
  have "dict_get ?rows (lvr_id r) = None" if "r \<in> set records" for r
    using records that by (force simp: map_of_eq_None_iff storable_def)
  then have "insert_value_rows owner (map ?f records) ?rows = Inr (?rows @ map (\<lambda>r. (lvr_id r, owner, r)) (map ?f records))"
    using records ids f by (intro insert_value_rows_ok) (auto simp: storable_def simp del: map_map)
  moreover have "map (\<lambda>r. (lvr_id r, owner, r)) (map ?f records) = map (\<lambda>r. (lvr_id r, owner, ?f r)) records" using f by simp
  ultimately show "replace_value_records C owner records db =
      Inr (db\<lparr>wd_values := ?rows @ map (\<lambda>r. (lvr_id r, owner, ?f r)) records\<rparr>)"
    by (simp add: replace_value_records_def compact)
  show "materialize_record C (db_proof_batch db) (?f r) = Inr r \<and> value_row_key (?f r) = value_row_key r \<and>
      lvr_id (?f r) = lvr_id r \<and> collect_bundle_hashes C (lvr_witness (?f r)) = collect_bundle_hashes C (lvr_witness r)"
    if "r \<in> set records" for r using f [OF that] by blast
qed

lemma recompute_keeps [simp]:
  "wd_values (recompute_sidecar_ref_counts C db) = wd_values db" "wd_batches (recompute_sidecar_ref_counts C db) = wd_batches db"
  "wd_pending (recompute_sidecar_ref_counts C db) = wd_pending db" "wd_receipts (recompute_sidecar_ref_counts C db) = wd_receipts db"
  "wd_units (recompute_sidecar_ref_counts C db) = wd_units db" "wd_headers (recompute_sidecar_ref_counts C db) = wd_headers db"
  "wd_accepted (recompute_sidecar_ref_counts C db) = wd_accepted db"
  "wd_checkpoints (recompute_sidecar_ref_counts C db) = wd_checkpoints db"
  by (simp_all add: recompute_sidecar_ref_counts_def)

lemma replace_and_recompute_ok:
  assumes "digests32 C" "batches_ok db" "storable owner records db"
  obtains db' where "replace_value_records_and_recompute C owner records db = Inr db'"
    "list_value_records C owner db' = Inr (sort_key value_row_key records)"
    "\<And>other. other \<noteq> owner \<Longrightarrow> owner_rows other db' = owner_rows other db"
    "\<And>k other x. (k, other, x) \<in> set (wd_values db') \<Longrightarrow> other \<noteq> owner \<Longrightarrow> (k, other, x) \<in> set (wd_values db)"
    "\<And>k x. (k, owner, x) \<in> set (wd_values db') \<Longrightarrow> k \<in> lvr_id ` set records"
    "wd_batches db' = wd_batches db" "wd_pending db' = wd_pending db" "wd_receipts db' = wd_receipts db"
    "wd_units db' = wd_units db" "wd_headers db' = wd_headers db" "wd_accepted db' = wd_accepted db"
    "wd_checkpoints db' = wd_checkpoints db"
proof -
  obtain f where f: "replace_value_records C owner records db =
      Inr (db\<lparr>wd_values := filter (\<lambda>(_, other, _). other \<noteq> owner) (wd_values db) @ map (\<lambda>r. (lvr_id r, owner, f r)) records\<rparr>)"
    "\<And>r. r \<in> set records \<Longrightarrow> materialize_record C (db_proof_batch db) (f r) = Inr r \<and> value_row_key (f r) = value_row_key r \<and>
       lvr_id (f r) = lvr_id r \<and> collect_bundle_hashes C (lvr_witness (f r)) = collect_bundle_hashes C (lvr_witness r)"
    using replace_value_records_ok [OF assms] by blast
  let ?rows = "filter (\<lambda>(_, other, _). other \<noteq> owner) (wd_values db) @ map (\<lambda>r. (lvr_id r, owner, f r)) records"
  let ?db = "recompute_sidecar_ref_counts C (db\<lparr>wd_values := ?rows\<rparr>)"
  have rows: "owner_rows owner ?db = map f records"
    by (simp add: owner_rows_def filter_map comp_def split_def)
  have "sort_key value_row_key (map f records) = map f (sort_key value_row_key records)"
    using f(2) by (simp add: sort_key_map cong: sort_key_cong)
  moreover have "res_map (materialize_record C (db_proof_batch db)) (map f rs) = Inr rs" if "set rs \<subseteq> set records" for rs
    using that f(2) by (induction rs) auto
  ultimately have "list_value_records C owner ?db = Inr (sort_key value_row_key records)"
    by (simp add: list_value_records_def rows db_proof_batch_def [abs_def])
  moreover have "owner_rows other ?db = owner_rows other db" if "other \<noteq> owner" for other
  proof -
    have "filter (\<lambda>x. fst (snd x) \<noteq> owner \<and> fst (snd x) = other) (wd_values db) = filter (\<lambda>x. fst (snd x) = other) (wd_values db)"
      using that by (intro filter_cong) auto
    then show ?thesis using that by (simp add: owner_rows_def filter_map comp_def split_def conj_commute)
  qed
  ultimately show ?thesis
    using f(1) by (intro that [of ?db]) (auto simp: replace_value_records_and_recompute_def)
qed

text \<open>C35. The wallet's values survive their compact storage. Take a database whose batches are of the 256-level account tree, each
  under its own id, and records whose ids are distinct and not those of another owner's rows (the id alone is the primary key), all
  receipts of whose witnesses carry their proofs. Replacing an owner's records by them does not raise, whether or not batches make
  the receipts compact; reading gives back the same records, proofs included, in the order of their values; and what is read
  for the other owners is unchanged.\<close>

theorem value_records_roundtrip:
  assumes "digests32 C" "batches_ok db" "storable owner records db"
  shows "\<exists>db'. replace_value_records_and_recompute C owner records db = Inr db' \<and>
    list_value_records C owner db' = Inr (sort_key value_row_key records) \<and>
    (\<forall>other. other \<noteq> owner \<longrightarrow> list_value_records C other db' = list_value_records C other db)"
proof -
  obtain db' where db': "replace_value_records_and_recompute C owner records db = Inr db'"
    "list_value_records C owner db' = Inr (sort_key value_row_key records)"
    "\<And>other. other \<noteq> owner \<Longrightarrow> owner_rows other db' = owner_rows other db" "wd_batches db' = wd_batches db"
    by (rule replace_and_recompute_ok [OF assms]) blast
  then show ?thesis by (auto simp: list_value_records_def db_proof_batch_def [abs_def])
qed

subsection \<open>Reference counts\<close>

definition references :: "crypto \<Rightarrow> wallet_db \<Rightarrow> bytes \<Rightarrow> int" where
  \<comment> \<open>The value records whose history contains the bundle, and the pending bundles that are it\<close>
  "references C db h = int (length (filter (\<lambda>(_, _, r). h \<in> set (collect_bundle_hashes C (lvr_witness r))) (wd_values db))) +
     int (length (filter (\<lambda>(_, _, context). pbc_bundle_hash context = h) (wd_pending db)))"

definition count_of :: "(bytes, int) dict \<Rightarrow> bytes \<Rightarrow> int" where
  "count_of counts h = dict_get_default counts h 0"

lemma count_of_count_hash: "count_of (count_hash k counts) h = count_of counts h + (if h = k then 1 else 0)"
  by (simp add: count_of_def count_hash_def dict_get_default_def dict_simps)

lemma distinct_collect: "distinct (collect_bundle_hashes C w)"
  by (cases w) simp

lemma count_of_fold: "distinct hs \<Longrightarrow> count_of (fold count_hash hs counts) h = count_of counts h + (if h \<in> set hs then 1 else 0)"
  by (induction hs arbitrary: counts) (auto simp: count_of_count_hash)

lemma reference_counts_exact: "count_of (reference_counts C db) h = references C db h"
proof -
  have by_records: "count_of (fold (\<lambda>(_, _, r) counts. fold count_hash (collect_bundle_hashes C (lvr_witness r)) counts) rows counts) h =
      count_of counts h + int (length (filter (\<lambda>(_, _, r). h \<in> set (collect_bundle_hashes C (lvr_witness r))) rows))"
    for rows :: "(string \<times> string \<times> local_value_record) list" and counts
    by (induction rows arbitrary: counts) (auto simp: count_of_fold distinct_collect)
  have pending: "count_of (fold (\<lambda>(_, _, context). count_hash (pbc_bundle_hash context)) rows counts) h =
      count_of counts h + int (length (filter (\<lambda>(_, _, context). pbc_bundle_hash context = h) rows))"
    for rows :: "((string \<times> int) \<times> bytes \<times> pending_bundle_context) list" and counts
    by (induction rows arbitrary: counts) (auto simp: count_of_count_hash)
  show ?thesis by (simp add: reference_counts_def references_def by_records pending) (simp add: count_of_def dict_get_default_def)
qed

lemma fold_keeps: "P s \<Longrightarrow> (\<And>x s. P s \<Longrightarrow> P (f x s)) \<Longrightarrow> P (fold f xs s)"
  by (rule fold_invariant [where Q = "\<lambda>_. True"]) simp_all

definition counts_ok :: "(bytes, int) dict \<Rightarrow> bool" where
  "counts_ok d \<longleftrightarrow> dict_ok d \<and> (\<forall>(_, n)\<in>set d. 0 < n)"

lemma counts_ok_count_hash: "counts_ok d \<Longrightarrow> counts_ok (count_hash h d)"
proof -
  assume d: "counts_ok d"
  have "0 < dict_get_default d h 0 + 1"
  proof (cases "dict_get d h")
    case (Some n)
    then show ?thesis using d map_of_SomeD [OF Some] by (auto simp: dict_get_default_def counts_ok_def)
  qed (simp add: dict_get_default_def)
  then show ?thesis
    using d dict_set_subset [of h "dict_get_default d h 0 + 1" d] by (fastforce simp: counts_ok_def count_hash_def)
qed

lemma reference_counts_ok: "counts_ok (reference_counts C db)"
proof -
  have "counts_ok []" by (simp add: counts_ok_def)
  then have "counts_ok (fold (\<lambda>(_, _, r) counts. fold count_hash (collect_bundle_hashes C (lvr_witness r)) counts) (wd_values db) [])"
    by (rule fold_keeps) (auto simp: split_def intro: fold_keeps counts_ok_count_hash)
  then show ?thesis unfolding reference_counts_def by (rule fold_keeps) (auto simp: split_def intro: counts_ok_count_hash)
qed

lemma set_ref_counts:
  assumes "dict_ok counts"
  shows "dict_get (fold set_ref_count counts rows) h =
    (case dict_get counts h of
       None \<Rightarrow> dict_get rows h
     | Some n \<Rightarrow>
         let sidecar = (case dict_get rows h of None \<Rightarrow> None | Some row \<Rightarrow> sr_sidecar row)
         in Some \<lparr>sr_sidecar = sidecar, sr_claims = map_option sidecar_claims_obj sidecar, sr_refs = n\<rparr>)"
  using assms
proof (induction counts arbitrary: rows)
  case (Cons e counts)
  obtain k n where e: "e = (k, n)" by (cases e)
  have k: "dict_get counts k = None" "dict_ok counts" using Cons.prems by (auto simp: e dict_ok_def map_of_eq_None_iff)
  show ?case
    using Cons.IH [OF k(2)] k(1) by (auto simp: e set_ref_count_def Let_def dict_simps split: option.split)
qed simp

lemma recomputed_row:
  "dict_get (wd_sidecars (recompute_sidecar_ref_counts C db)) h =
     (if references C db h = 0 then map_option (\<lambda>row. row\<lparr>sr_refs := 0\<rparr>) (dict_get (wd_sidecars db) h)
      else Some \<lparr>sr_sidecar = get_sidecar db h, sr_claims = map_option sidecar_claims_obj (get_sidecar db h), sr_refs = references C db h\<rparr>)"
proof -
  let ?counts = "reference_counts C db"
  have zeroed: "dict_get (map (\<lambda>(h, row). (h, row\<lparr>sr_refs := 0\<rparr>)) rows) h = map_option (\<lambda>row. row\<lparr>sr_refs := 0\<rparr>) (dict_get rows h)"
    for rows :: "(bytes, sidecar_row) dict" by (induction rows) auto
  have refs: "references C db h = (case dict_get ?counts h of None \<Rightarrow> 0 | Some n \<Rightarrow> n)"
    by (simp add: count_of_def dict_get_default_def flip: reference_counts_exact)
  have pos: "0 < n" if "dict_get ?counts h = Some n" for n
    using map_of_SomeD [OF that] reference_counts_ok [of C db] by (auto simp: counts_ok_def)
  have "dict_get (wd_sidecars (recompute_sidecar_ref_counts C db)) h = (case dict_get ?counts h of
       None \<Rightarrow> map_option (\<lambda>row. row\<lparr>sr_refs := 0\<rparr>) (dict_get (wd_sidecars db) h)
     | Some n \<Rightarrow> Some \<lparr>sr_sidecar = get_sidecar db h, sr_claims = map_option sidecar_claims_obj (get_sidecar db h), sr_refs = n\<rparr>)"
    using reference_counts_ok [of C db]
    by (simp add: counts_ok_def recompute_sidecar_ref_counts_def set_ref_counts zeroed get_sidecar_def Let_def split: option.split)
  then show ?thesis using refs pos by (auto split: option.splits)
qed

lemma dict_get_filter_value:
  "dict_ok d \<Longrightarrow> dict_get (filter (\<lambda>(_, v). P v) d) k = (case dict_get d k of None \<Rightarrow> None | Some v \<Rightarrow> if P v then Some v else None)"
  by (induction d) (auto simp: dict_ok_def split: option.split, auto simp: map_of_eq_None_iff rev_image_eqI)

lemma recomputed_dict_ok: "dict_ok (wd_sidecars db) \<Longrightarrow> dict_ok (wd_sidecars (recompute_sidecar_ref_counts C db))"
proof -
  assume ok: "dict_ok (wd_sidecars db)"
  have "dict_ok (fold set_ref_count counts rows)" if "dict_ok rows" for counts rows
    using that by (induction counts arbitrary: rows) (auto simp: set_ref_count_def Let_def)
  moreover have "dict_ok (map (\<lambda>(h, row). (h, row\<lparr>sr_refs := 0\<rparr>)) (wd_sidecars db))"
    using ok by (simp add: dict_ok_def comp_def split_def)
  ultimately show ?thesis by (simp add: recompute_sidecar_ref_counts_def)
qed

text \<open>Garbage collection drops exactly what is unused. After a recount, the reference count of a stored sidecar is the number of
  value records whose history contains the bundle plus the pending bundles that are it, and collecting keeps every sidecar in use as it
  was and removes all others.\<close>

theorem gc_keeps_referenced:
  assumes "dict_ok (wd_sidecars db)"
  shows "get_sidecar (snd (gc_unused_sidecars (recompute_sidecar_ref_counts C db))) h =
      (if 0 < references C db h then get_sidecar db h else None) \<and>
    (\<forall>row. dict_get (wd_sidecars (recompute_sidecar_ref_counts C db)) h = Some row \<longrightarrow> sr_refs row = references C db h)"
proof -
  have "0 \<le> references C db h" by (simp add: references_def)
  then show ?thesis
    using recomputed_row [of C db h] dict_get_filter_value [OF recomputed_dict_ok [OF assms], where P = "\<lambda>row. \<not> sr_refs row \<le> 0"]
    by (auto simp: get_sidecar_def gc_unused_sidecars_def split: option.splits)
qed

subsection \<open>When a batch is overwritten\<close>

lemma save_receipt_then_get:
  assumes "save_receipt C sender r bundle_hash db = Inr db'" "rc_proof r = Some pf" "full_receipt r" "digests32 C"
    "db_proof_batch db (batch_id_of (rc_header r)) = Some b" "rpb_batch_id b = batch_id_of (rc_header r)"
    "rpb_state_root b = hl_state_root (rc_header r)"
    "materialize_proof C (rpb_multi_proof b) (compute_addr_key C sender) = Inr pf"
  obtains key where "dict_get (wd_receipts db') (sender, rc_seq r) = Some (key, r\<lparr>rc_proof := None, rc_batch_ref :=
      Some \<lparr>rpr_batch_id = batch_id_of (rc_header r), rpr_key = compute_addr_key C sender\<rparr>\<rparr>)" "wd_batches db' = wd_batches db"
proof -
  let ?ref = "\<lparr>rpr_batch_id = batch_id_of (rc_header r), rpr_key = compute_addr_key C sender\<rparr>"
  have "receipt_proof_ref_init ?ref = Inr ?ref"
    using addr_key_length [OF assms(4)] by (simp add: receipt_proof_ref_init_def batch_id_of_def hash32_def)
  moreover have "receipt_init (r\<lparr>rc_proof := None, rc_batch_ref := Some ?ref\<rparr>) = Inr (r\<lparr>rc_proof := None, rc_batch_ref := Some ?ref\<rparr>)"
    using assms(3) by (auto simp: full_receipt_def receipt_init_def split: if_splits)
  ultimately have "compact_receipt C sender (Some b) r = Inr (r\<lparr>rc_proof := None, rc_batch_ref := Some ?ref\<rparr>)"
    using assms by (simp add: compact_receipt_def Let_def)
  then show ?thesis
    using assms(1,5) by (intro that) (auto simp: save_receipt_def Let_def dict_simps split: if_splits)
qed

text \<open>C36. A stored proof is only as good as its batch. Reading a receipt right after saving it gives it back; once another
  batch is saved under the same id with the same state root, as a peer's answer makes the host do before it checks the proof, the same
  read returns the other batch's proof.\<close>

theorem overwritten_batch_alters_receipt:
  assumes "digests32 C" "full_receipt r" "rc_proof r = Some pf"
    "db_proof_batch db (batch_id_of (rc_header r)) = Some b" "rpb_batch_id b = batch_id_of (rc_header r)"
    "rpb_state_root b = hl_state_root (rc_header r)"
    "materialize_proof C (rpb_multi_proof b) (compute_addr_key C sender) = Inr pf"
    "save_receipt C sender r bundle_hash db = Inr db'"
    "rpb_batch_id other = batch_id_of (rc_header r)" "rpb_state_root other = hl_state_root (rc_header r)"
    "materialize_proof C (rpb_multi_proof other) (compute_addr_key C sender) = Inr forged"
  shows "db_get_receipt C sender (rc_seq r) db' = Inr (Some r) \<and>
    db_get_receipt C sender (rc_seq r) (save_receipt_proof_batch height other db') = Inr (Some (r\<lparr>rc_proof := Some forged\<rparr>))"
proof -
  let ?c = "r\<lparr>rc_proof := None, rc_batch_ref :=
      Some \<lparr>rpr_batch_id = batch_id_of (rc_header r), rpr_key = compute_addr_key C sender\<rparr>\<rparr>"
  obtain key where key: "dict_get (wd_receipts db') (sender, rc_seq r) = Some (key, ?c)" "wd_batches db' = wd_batches db"
    using save_receipt_then_get [OF assms(8,3,2,1,4-7)] by blast
  have no_ref: "rc_batch_ref r = None" using full_receipt_no_ref [OF assms(2)] .
  have init: "receipt_init (r\<lparr>rc_proof := Some p\<rparr>) = Inr (r\<lparr>rc_proof := Some p\<rparr>)" for p
    using assms(2) no_ref by (auto simp: full_receipt_def receipt_init_def split: if_splits)
  have same: "r\<lparr>rc_proof := Some p, rc_batch_ref := None\<rparr> = r\<lparr>rc_proof := Some p\<rparr>" for p using no_ref by simp
  have r: "r\<lparr>rc_proof := Some pf\<rparr> = r" using assms(3) by simp
  have read: "db_get_receipt C sender (rc_seq r) d = Inr (Some (r\<lparr>rc_proof := Some p\<rparr>))"
    if "dict_get (wd_receipts d) (sender, rc_seq r) = Some (key, ?c)" "db_proof_batch d (batch_id_of (rc_header r)) = Some batch"
      "rpb_state_root batch = hl_state_root (rc_header r)"
      "materialize_proof C (rpb_multi_proof batch) (compute_addr_key C sender) = Inr p" for d batch p
    using that init by (simp add: db_get_receipt_def materialize_receipt_def same)
  have "db_proof_batch db' (batch_id_of (rc_header r)) = Some b" using assms(4) key(2) by (simp add: db_proof_batch_def)
  from read [OF key(1) this assms(6,7)]
  have "db_get_receipt C sender (rc_seq r) db' = Inr (Some r)" by (simp only: r)
  moreover have "db_get_receipt C sender (rc_seq r) (save_receipt_proof_batch height other db') = Inr (Some (r\<lparr>rc_proof := Some forged\<rparr>))"
    by (rule read [OF _ _ assms(10,11)])
      (use key(1) assms(9) in \<open>simp_all add: save_receipt_proof_batch_def db_proof_batch_def dict_simps\<close>)
  ultimately show ?thesis by blast
qed

subsection \<open>Sequence numbers and pending bundles\<close>

lemma next_sequence_fresh:
  "(s, n) \<in> fst ` set (wd_receipts db) \<union> fst ` set (wd_pending db) \<Longrightarrow> n < next_sequence s db"
proof -
  let ?seqs = "map snd (filter (\<lambda>(sender, _). sender = s) (map fst (wd_receipts db) @ map fst (wd_pending db)))"
  assume "(s, n) \<in> fst ` set (wd_receipts db) \<union> fst ` set (wd_pending db)"
  then have n: "n \<in> set ?seqs" by (force simp: split_def)
  then have "n \<le> Max (set ?seqs)" by (intro Max_ge) simp_all
  moreover have "?seqs \<noteq> []" using length_pos_if_in_set [OF n] unfolding length_greater_0_conv .
  then have "next_sequence s db = Max (set ?seqs) + 1" unfolding next_sequence_def Let_def by (simp only: if_False simp_thms)
  ultimately show ?thesis by linarith
qed

lemma sort_key_empty [simp]: "sort_key f xs = [] \<longleftrightarrow> xs = []"
  by (metis length_0_conv length_sort)

lemma list_pending_bundles_iff:
  "list_pending_bundles s db = [] \<longleftrightarrow> (\<forall>((sender, _), _)\<in>set (wd_pending db). sender \<noteq> s)"
  by (auto simp: list_pending_bundles_def filter_empty_conv)

subsection \<open>Sample stores\<close>

theorem gc_keeps_referenced_witness:
  "get_sidecar (snd (gc_unused_sidecars (recompute_sidecar_ref_counts flat_crypto (snd (save_sidecar flat_crypto sample_sidecar wallet_db_new)))))
     (compute_bundle_hash flat_crypto sample_sidecar) = None \<and>
   get_sidecar (snd (save_sidecar flat_crypto sample_sidecar wallet_db_new)) (compute_bundle_hash flat_crypto sample_sidecar) = Some sample_sidecar"
proof -
  let ?db = "snd (save_sidecar flat_crypto sample_sidecar wallet_db_new)"
  have "dict_ok (wd_sidecars ?db)" by (simp add: save_sidecar_def wallet_db_new_def Let_def dict_ok_def)
  from gc_keeps_referenced [OF this] show ?thesis
    by (simp add: references_def save_sidecar_def wallet_db_new_def Let_def get_sidecar_def)
qed

definition sample_batch :: "bytes list \<Rightarrow> receipt_proof_batch" where
  "sample_batch keys = \<lparr>rpb_batch_id = batch_id_of \<lparr>hl_height = 1, hl_block_hash = replicate 32 0, hl_state_root = replicate 32 0\<rparr>,
     rpb_state_root = replicate 32 0, rpb_multi_proof = \<lparr>mp_depth = 256, mp_keys = keys, mp_nodes = []\<rparr>\<rparr>"

abbreviation sample_key :: bytes where
  "sample_key \<equiv> compute_addr_key flat_crypto ''a''"

definition proved_receipt :: "smt_proof \<Rightarrow> receipt" where
  "proved_receipt pf = \<lparr>rc_header = \<lparr>hl_height = 1, hl_block_hash = replicate 32 0, hl_state_root = replicate 32 0\<rparr>, rc_seq = 1,
     rc_prev_ref = None, rc_claim_set_hash = None, rc_proof = Some pf, rc_batch_ref = None\<rparr>"

definition sample_compact :: receipt where
  "sample_compact = (proved_receipt undefined)\<lparr>rc_proof := None,
     rc_batch_ref := Some \<lparr>rpr_batch_id = rpb_batch_id (sample_batch []), rpr_key = sample_key\<rparr>\<rparr>"

lemma sample_batch_db:
  "batches_ok (save_receipt_proof_batch 1 (sample_batch keys) wallet_db_new)"
  "db_proof_batch (save_receipt_proof_batch 1 (sample_batch keys) wallet_db_new) (batch_id_of (rc_header (proved_receipt pf))) =
     Some (sample_batch keys)"
  by (rule batches_ok_save) (simp_all add: sample_batch_def batch_id_of_def db_proof_batch_def save_receipt_proof_batch_def
      proved_receipt_def dict_simps)

lemma proved_receipt_full: "full_receipt (proved_receipt pf)"
  by (simp add: full_receipt_def proved_receipt_def receipt_init_def hash32_opt_def)

text \<open>A record with a confirmed unit whose receipt the batch of its block makes compact\<close>

definition proved_record :: "smt_proof \<Rightarrow> local_value_record" where
  "proved_record pf = (sample_record ''1'' (ValueRange 0 4))\<lparr>lvr_witness := WitnessV2 (ValueRange 0 4) ''a''
     [\<lparr>cu_receipt = proved_receipt pf, cu_sidecar = sample_sidecar\<lparr>sc_sender := ''a''\<rparr>\<rparr>]
     (w_anchor (lvr_witness (sample_record ''1'' (ValueRange 0 4))))\<rparr>"

lemma proved_record_rows:
  assumes "materialize_proof flat_crypto (rpb_multi_proof (sample_batch [])) sample_key = Inr pf"
    "replace_value_records_and_recompute flat_crypto ''a'' [sample_record ''2'' (ValueRange 5 9), proved_record pf]
       (save_receipt_proof_batch 1 (sample_batch []) wallet_db_new) = Inr db"
  shows "\<exists>r. (''1'', ''a'', r) \<in> set (wd_values db) \<and> map cu_receipt (w_chain (lvr_witness r)) = [sample_compact]"
proof -
  let ?db = "save_receipt_proof_batch 1 (sample_batch []) wallet_db_new"
  have ref: "receipt_proof_ref_init \<lparr>rpr_batch_id = rpb_batch_id (sample_batch []), rpr_key = sample_key\<rparr> =
      Inr \<lparr>rpr_batch_id = rpb_batch_id (sample_batch []), rpr_key = sample_key\<rparr>"
    using addr_key_length [of flat_crypto "''a''"]
    by (simp add: receipt_proof_ref_init_def hash32_def sample_batch_def batch_id_of_def)
  have c: "compact_receipt flat_crypto ''a'' (Some (sample_batch [])) (proved_receipt pf) = Inr sample_compact"
    using assms(1) ref
    by (simp add: compact_receipt_def sample_compact_def proved_receipt_def receipt_init_def hash32_opt_def Let_def)
      (simp add: sample_batch_def)
  define r where "r = (proved_record pf)\<lparr>lvr_witness := WitnessV2 (ValueRange 0 4) ''a''
    [\<lparr>cu_receipt = sample_compact, cu_sidecar = sample_sidecar\<lparr>sc_sender := ''a''\<rparr>\<rparr>] (w_anchor (lvr_witness (proved_record pf)))\<rparr>"
  have "compact_record flat_crypto (db_proof_batch ?db) (proved_record pf) = Inr r"
    unfolding compact_record_def proved_record_def r_def
    by (simp add: compact_unit_def sample_batch_db(2) c sample_record_def res_map.simps)
  moreover have "compact_record flat_crypto (db_proof_batch ?db) (sample_record ''2'' (ValueRange 5 9)) =
      Inr (sample_record ''2'' (ValueRange 5 9))"
    by (simp add: compact_record_def sample_record_def res_map.simps)
  moreover have "wd_values ?db = []" "lvr_id r = ''1''" "lvr_id (sample_record ''2'' (ValueRange 5 9)) = ''2''"
    by (simp_all add: save_receipt_proof_batch_def wallet_db_new_def r_def proved_record_def sample_record_def)
  ultimately have "(''1'', ''a'', r) \<in> set (wd_values db)"
    using assms(2) by (auto simp: replace_value_records_and_recompute_def replace_value_records_def res_map.simps)
  then show ?thesis by (auto simp: r_def intro!: exI [of _ r])
qed

theorem value_records_roundtrip_witness:
  "\<exists>pf db. replace_value_records_and_recompute flat_crypto ''a'' [sample_record ''2'' (ValueRange 5 9), proved_record pf]
      (save_receipt_proof_batch 1 (sample_batch []) wallet_db_new) = Inr db \<and>
     (\<exists>r. (''1'', ''a'', r) \<in> set (wd_values db) \<and> map cu_receipt (w_chain (lvr_witness r)) = [sample_compact]) \<and>
     list_value_records flat_crypto ''a'' db = Inr [proved_record pf, sample_record ''2'' (ValueRange 5 9)]"
proof -
  let ?db = "save_receipt_proof_batch 1 (sample_batch []) wallet_db_new"
  have "length sample_key * 8 = mp_depth (rpb_multi_proof (sample_batch []))"
    using addr_key_length [of flat_crypto "''a''"] by (simp add: sample_batch_def)
  then obtain pf where pf: "materialize_proof flat_crypto (rpb_multi_proof (sample_batch [])) sample_key = Inr pf"
    using materialize_proof_total by blast
  let ?rs = "[sample_record ''2'' (ValueRange 5 9), proved_record pf]"
  have storable: "storable ''a'' ?rs ?db"
    using proved_receipt_full
    by (simp add: storable_def sample_record_def proved_record_def full_witness_def save_receipt_proof_batch_def wallet_db_new_def)
  have sorted: "sort_key value_row_key ?rs = [proved_record pf, sample_record ''2'' (ValueRange 5 9)]"
    by (simp add: value_row_key_def sample_record_def proved_record_def)
  have digests: "digests32 flat_crypto" by simp
  note saved = value_records_roundtrip [OF digests sample_batch_db(1) storable, unfolded sorted]
  from saved obtain db where db: "replace_value_records_and_recompute flat_crypto ''a'' ?rs ?db = Inr db"
      "list_value_records flat_crypto ''a'' db = Inr [proved_record pf, sample_record ''2'' (ValueRange 5 9)]"
    by blast
  note rows = proved_record_rows [OF pf db(1)]
  show ?thesis by (rule exI [of _ pf], rule exI [of _ db], intro conjI) (fact db(1), fact rows, fact db(2))
qed

theorem overwritten_batch_alters_receipt_witness:
  "\<exists>r other db. db_get_receipt flat_crypto ''a'' 1 db = Inr (Some r) \<and>
     (\<exists>r'. r' \<noteq> r \<and> db_get_receipt flat_crypto ''a'' 1 (save_receipt_proof_batch 1 other db) = Inr (Some r'))"
proof -
  let ?key = "compute_addr_key flat_crypto ''a''"
  let ?b = "sample_batch []" and ?other = "sample_batch [?key]"
  have d: "digests32 flat_crypto" by simp
  have k: "length ?key * 8 = 256" using addr_key_length [OF d] by simp
  obtain pf where pf: "materialize_proof flat_crypto (rpb_multi_proof ?b) ?key = Inr pf" "\<not> pf_existence pf"
    using k by (simp add: materialize_proof_def sample_batch_def Let_def)
  obtain forged where forged: "materialize_proof flat_crypto (rpb_multi_proof ?other) ?key = Inr forged" "pf_existence forged"
    using k by (simp add: materialize_proof_def sample_batch_def Let_def)
  let ?r = "\<lparr>rc_header = \<lparr>hl_height = 1, hl_block_hash = replicate 32 0, hl_state_root = replicate 32 0\<rparr>, rc_seq = 1,
     rc_prev_ref = None, rc_claim_set_hash = None, rc_proof = Some pf, rc_batch_ref = None\<rparr>"
  let ?db = "save_receipt_proof_batch 1 ?b wallet_db_new"
  have full: "full_receipt ?r" by (simp add: full_receipt_def receipt_init_def hash32_opt_def)
  have b: "db_proof_batch ?db (batch_id_of (rc_header ?r)) = Some ?b"
    by (simp add: db_proof_batch_def save_receipt_proof_batch_def sample_batch_def dict_simps)
  obtain db' where saved: "save_receipt flat_crypto ''a'' ?r (replicate 32 0) ?db = Inr db'"
  proof -
    have "batches_ok ?db" by (rule batches_ok_save) (simp_all add: sample_batch_def batch_id_of_def)
    from compact_receipt_roundtrip [OF d this full, of "''a''" "batch_id_of (rc_header ?r)"]
    have "\<exists>c. compact_receipt flat_crypto ''a'' (db_proof_batch ?db (batch_id_of (rc_header ?r))) ?r = Inr c" by blast
    then show ?thesis
      using that b by (auto simp: save_receipt_def Let_def save_receipt_proof_batch_def wallet_db_new_def)
  qed
  have "db_get_receipt flat_crypto ''a'' (rc_seq ?r) db' = Inr (Some ?r) \<and>
      db_get_receipt flat_crypto ''a'' (rc_seq ?r) (save_receipt_proof_batch 1 ?other db') = Inr (Some (?r\<lparr>rc_proof := Some forged\<rparr>))"
    by (rule overwritten_batch_alters_receipt [OF d full _ b _ _ pf(1) saved _ _ forged(1)]) (simp_all add: sample_batch_def)
  moreover have "?r\<lparr>rc_proof := Some forged\<rparr> \<noteq> ?r" using pf(2) forged(2) by auto
  ultimately show ?thesis by (metis receipt.select_convs(2))
qed

end
