(* ===== verification/Transfer_Mailbox.thy ===== *)
theory Transfer_Mailbox
  imports Chain_Hash
begin

section \<open>Transfer packages on their way (\<open>EZ_V2/transport.py\<close>)\<close>

text \<open>
  The hash under which a package is known and the mailbox in which it waits for its recipient. The mailbox is one
  table, a dict from the package hash to its other columns. The theory shows that the hash commits to the whole
  package and states the contract of the mailbox: a package is listed for its recipient from its first
  enqueueing until it is claimed, in a fixed order, and a claimed package never comes back.
\<close>

subsection \<open>The package hash\<close>

definition header_lite_obj :: "header_lite \<Rightarrow> pyobj" where
  "header_lite_obj h = PData [(''height'', PInt (hl_height h)), (''block_hash'', PBytes (hl_block_hash h)),
     (''state_root'', PBytes (hl_state_root h))]"

definition smt_proof_opt_obj :: "smt_proof option \<Rightarrow> pyobj" where
  "smt_proof_opt_obj p = (case p of None \<Rightarrow> PNone
     | Some x \<Rightarrow> PData [(''siblings'', PList (map PBytes (pf_siblings x))), (''existence'', PBool (pf_existence x))])"

definition proof_ref_opt_obj :: "receipt_proof_ref option \<Rightarrow> pyobj" where
  "proof_ref_opt_obj r = (case r of None \<Rightarrow> PNone
     | Some x \<Rightarrow> PData [(''batch_id'', PStr (rpr_batch_id x)), (''key'', PBytes (rpr_key x))])"

definition receipt_obj :: "receipt \<Rightarrow> pyobj" where
  "receipt_obj r = PData [(''header_lite'', header_lite_obj (rc_header r)), (''seq'', PInt (rc_seq r)),
     (''prev_ref'', bundle_ref_opt_obj (rc_prev_ref r)), (''claim_set_hash'', bytes_opt_obj (rc_claim_set_hash r)),
     (''account_state_proof'', smt_proof_opt_obj (rc_proof r)), (''proof_batch_ref'', proof_ref_opt_obj (rc_batch_ref r))]"

definition confirmed_unit_obj :: "confirmed_unit \<Rightarrow> pyobj" where
  "confirmed_unit_obj u = PData [(''receipt'', receipt_obj (cu_receipt u)), (''bundle_sidecar'', bundle_sidecar_obj (cu_sidecar u))]"

definition checkpoint_obj :: "checkpoint \<Rightarrow> pyobj" where
  "checkpoint_obj c = PData [(''value_begin'', PInt (cp_value_begin c)), (''value_end'', PInt (cp_value_end c)),
     (''owner_addr'', PStr (cp_owner c)), (''checkpoint_height'', PInt (cp_height c)),
     (''checkpoint_block_hash'', PBytes (cp_block_hash c)), (''checkpoint_bundle_hash'', PBytes (cp_bundle_hash c))]"

definition genesis_anchor_obj :: "genesis_anchor \<Rightarrow> pyobj" where
  "genesis_anchor_obj g = PData [(''genesis_block_hash'', PBytes (ga_block_hash g)), (''first_owner_addr'', PStr (ga_owner g)),
     (''value_begin'', PInt (ga_value_begin g)), (''value_end'', PInt (ga_value_end g))]"

primrec witness_obj :: "witness \<Rightarrow> pyobj"
and anchor_obj :: "anchor \<Rightarrow> pyobj" where
  "witness_obj (WitnessV2 v owner chain anchor) =
     PData [(''value'', PCanonical (value_range_obj v)), (''current_owner_addr'', PStr owner),
       (''confirmed_bundle_chain'', PList (map confirmed_unit_obj chain)), (''anchor'', anchor_obj anchor)]"
| "anchor_obj (GenesisAnchor g) = genesis_anchor_obj g"
| "anchor_obj (CheckpointAnchor c) = PData [(''checkpoint'', checkpoint_obj c)]"
| "anchor_obj (PriorWitnessLink tx prior) = PData [(''acquire_tx'', offchain_tx_obj tx), (''prior_witness'', witness_obj prior)]"

definition transfer_package_obj :: "transfer_package \<Rightarrow> pyobj" where
  "transfer_package_obj p = PData [(''target_tx'', offchain_tx_obj (tp_target_tx p)),
     (''target_value'', PCanonical (value_range_obj (tp_target_value p))), (''witness_v2'', witness_obj (tp_witness p))]"

definition package_hash_input :: "transfer_package \<Rightarrow> bytes" where
  "package_hash_input p = ascii ''EZCHAIN_TRANSFER_PACKAGE_V2'' @ canonical_bytes (transfer_package_obj p)"

definition transfer_package_hash :: "crypto \<Rightarrow> transfer_package \<Rightarrow> bytes" where
  "transfer_package_hash C p = keccak256 C (package_hash_input p)"

subsection \<open>The hash commits to the package\<close>

lemma PBytes_list_inject: "map (canon \<circ> PBytes) xs = map (canon \<circ> PBytes) ys \<Longrightarrow> xs = ys"
  by (erule list_map_inject [rotated]) simp

lemma header_lite_inject: "canon (header_lite_obj a) = canon (header_lite_obj b) \<Longrightarrow> a = b"
  unfolding header_lite_obj_def by (drule canon_data_inject) (simp_all add: header_lite.equality)

lemma smt_proof_inject:
  "canon (PData [(''siblings'', PList (map PBytes s)), (''existence'', PBool e)]) =
     canon (PData [(''siblings'', PList (map PBytes s')), (''existence'', PBool e')]) \<Longrightarrow> s = s' \<and> e = e'"
  by (drule canon_data_inject) (auto intro: PBytes_list_inject simp: comp_def)

lemma smt_proof_opt_inject: "canon (smt_proof_opt_obj a) = canon (smt_proof_opt_obj b) \<Longrightarrow> a = b"
  by (auto simp: smt_proof_opt_obj_def canon_PData split: option.splits intro!: smt_proof.equality
      dest!: smt_proof_inject [unfolded canon_PData] PBytes_list_inject)

lemma proof_ref_inject:
  "canon (PData [(''batch_id'', PStr i), (''key'', PBytes k)]) = canon (PData [(''batch_id'', PStr i'), (''key'', PBytes k')]) \<Longrightarrow>
     i = i' \<and> k = k'"
  by (drule canon_data_inject) simp_all

lemma proof_ref_opt_inject: "canon (proof_ref_opt_obj a) = canon (proof_ref_opt_obj b) \<Longrightarrow> a = b"
  by (auto simp: proof_ref_opt_obj_def canon_PData split: option.splits intro!: receipt_proof_ref.equality
      dest!: proof_ref_inject [unfolded canon_PData])

lemma receipt_inject: "canon (receipt_obj a) = canon (receipt_obj b) \<Longrightarrow> a = b"
  unfolding receipt_obj_def
  by (drule canon_data_inject)
    (auto intro!: receipt.equality dest: header_lite_inject bundle_ref_opt_inject bytes_opt_inject smt_proof_opt_inject proof_ref_opt_inject)

lemma confirmed_unit_inject: "canon (confirmed_unit_obj a) = canon (confirmed_unit_obj b) \<Longrightarrow> a = b"
  unfolding confirmed_unit_obj_def
  by (drule canon_data_inject) (auto intro!: confirmed_unit.equality dest: receipt_inject bundle_sidecar_inject)

lemma checkpoint_inject: "canon (checkpoint_obj a) = canon (checkpoint_obj b) \<Longrightarrow> a = b"
  unfolding checkpoint_obj_def by (drule canon_data_inject) (simp_all add: checkpoint.equality)

lemma genesis_anchor_inject: "canon (genesis_anchor_obj a) = canon (genesis_anchor_obj b) \<Longrightarrow> a = b"
  unfolding genesis_anchor_obj_def by (drule canon_data_inject) (simp_all add: genesis_anchor.equality)

text \<open>The three kinds of anchor have different numbers of fields.\<close>

lemma canon_data_length: "canon (PData d) = canon (PData e) \<Longrightarrow> length d = length e"
  by (auto simp: canon_PData dest: arg_cong [of _ _ length])

lemma witness_inject:
  shows "canon (witness_obj w) = canon (witness_obj w') \<Longrightarrow> w = w'" and "canon (anchor_obj a) = canon (anchor_obj a') \<Longrightarrow> a = a'"
proof (induction w and a arbitrary: w' and a')
  case (WitnessV2 v owner chain anchor)
  then show ?case
    by (cases w')
      (auto dest!: canon_data_inject value_range_inject intro!: list_map_inject [of "canon \<circ> confirmed_unit_obj"]
        dest: confirmed_unit_inject simp: comp_def)
next
  case (GenesisAnchor g)
  then show ?case
    by (cases a') (auto simp: genesis_anchor_obj_def dest: canon_data_length genesis_anchor_inject [unfolded genesis_anchor_obj_def])
next
  case (CheckpointAnchor c)
  show ?case
  proof (cases a')
    case (CheckpointAnchor c')
    with CheckpointAnchor.prems show ?thesis by (auto dest!: canon_data_inject checkpoint_inject)
  qed (use CheckpointAnchor.prems in \<open>auto simp: genesis_anchor_obj_def dest: canon_data_length\<close>)
next
  case (PriorWitnessLink tx prior)
  show ?case
  proof (cases a')
    case (PriorWitnessLink tx' prior')
    with PriorWitnessLink.prems PriorWitnessLink.IH show ?thesis by (auto dest!: canon_data_inject offchain_tx_inject)
  qed (use PriorWitnessLink.prems in \<open>auto simp: genesis_anchor_obj_def dest: canon_data_length\<close>)
qed

lemma transfer_package_inject: "canon (transfer_package_obj a) = canon (transfer_package_obj b) \<Longrightarrow> a = b"
  unfolding transfer_package_obj_def
  by (drule canon_data_inject) (auto intro!: transfer_package.equality dest: offchain_tx_inject value_range_inject witness_inject(1))

lemma transfer_package_hash_inject:
  assumes "transfer_package_hash C p = transfer_package_hash C p'" "encodes (transfer_package_obj p)" "encodes (transfer_package_obj p')"
    and "no_collision C [package_hash_input p] [package_hash_input p']"
  shows "p = p'"
  using assms unfolding transfer_package_hash_def package_hash_input_def by (intro transfer_package_inject prefixed_hash_inject)

subsection \<open>The mailbox\<close>

record mailbox_row =
  mr_sender :: string
  mr_recipient :: string
  mr_created_at :: int
  mr_claimed_at :: "int option"
  mr_package :: transfer_package

type_synonym mailbox = "(bytes, mailbox_row) dict"

definition mailbox_new :: mailbox where
  "mailbox_new = []"

definition enqueue_package :: "crypto \<Rightarrow> string \<Rightarrow> string \<Rightarrow> transfer_package \<Rightarrow> int \<Rightarrow> mailbox \<Rightarrow> bytes \<times> mailbox" where
  \<comment> \<open>The upsert keeps the first row's \<open>created_at\<close> and \<open>claimed_at\<close>.\<close>
  "enqueue_package C sender_addr recipient_addr package created_at m =
     (let package_hash = transfer_package_hash C package;
          row = (case dict_get m package_hash of
              None \<Rightarrow> \<lparr>mr_sender = sender_addr, mr_recipient = recipient_addr, mr_created_at = created_at,
                       mr_claimed_at = None, mr_package = package\<rparr>
            | Some row \<Rightarrow> row\<lparr>mr_sender := sender_addr, mr_recipient := recipient_addr, mr_package := package\<rparr>)
      in (package_hash, dict_set package_hash row m))"

definition waiting_rows :: "string \<Rightarrow> mailbox \<Rightarrow> mailbox" where
  \<comment> \<open>\<open>WHERE recipient_addr = ? AND claimed_at IS NULL\<close>\<close>
  "waiting_rows recipient_addr m = filter (\<lambda>(_, row). mr_recipient row = recipient_addr \<and> mr_claimed_at row = None) m"

definition list_pending_packages :: "string \<Rightarrow> mailbox \<Rightarrow> (bytes \<times> string \<times> int \<times> transfer_package) list" where
  "list_pending_packages recipient_addr m =
     map (\<lambda>(h, row). (h, mr_sender row, mr_created_at row, mr_package row))
       (sort_key (\<lambda>(h, row). (mr_created_at row, h)) (waiting_rows recipient_addr m))"

definition mark_claimed :: "bytes \<Rightarrow> int \<Rightarrow> mailbox \<Rightarrow> mailbox" where
  "mark_claimed package_hash claimed_at m =
     map (\<lambda>(h, row). (h, if h = package_hash then row\<lparr>mr_claimed_at := Some claimed_at\<rparr> else row)) m"

definition pending_count :: "string \<Rightarrow> mailbox \<Rightarrow> int" where
  "pending_count recipient_addr m = int (length (waiting_rows recipient_addr m))"

subsection \<open>What the mailbox promises\<close>

text \<open>
  The abstract mailbox keeps a state for each package hash: unknown; waiting, with the sender, the recipient, the time and the package;
  or claimed. Enqueueing makes an unknown package wait and readdresses one that waits, which keeps the time it was first given; claiming
  is final.
\<close>

datatype mailbox_op = Enqueue string string transfer_package int | Claim bytes int

fun mailbox_apply :: "crypto \<Rightarrow> mailbox_op \<Rightarrow> mailbox \<Rightarrow> mailbox" where
  "mailbox_apply C (Enqueue sender recipient p t) m = snd (enqueue_package C sender recipient p t m)"
| "mailbox_apply C (Claim h t) m = mark_claimed h t m"

definition mailbox_run :: "crypto \<Rightarrow> mailbox_op list \<Rightarrow> mailbox" where
  "mailbox_run C ops = fold (mailbox_apply C) ops mailbox_new"

datatype package_state = Unknown | Waiting string string int transfer_package | Claimed

fun package_step :: "crypto \<Rightarrow> bytes \<Rightarrow> mailbox_op \<Rightarrow> package_state \<Rightarrow> package_state" where
  "package_step C h (Enqueue sender recipient p t) st =
     (if transfer_package_hash C p \<noteq> h then st
      else case st of
          Unknown \<Rightarrow> Waiting sender recipient t p
        | Waiting _ _ first _ \<Rightarrow> Waiting sender recipient first p
        | Claimed \<Rightarrow> Claimed)"
| "package_step C h (Claim h' t) st = (if h' = h \<and> st \<noteq> Unknown then Claimed else st)"

definition package_run :: "crypto \<Rightarrow> mailbox_op list \<Rightarrow> bytes \<Rightarrow> package_state" where
  "package_run C ops h = fold (package_step C h) ops Unknown"

definition row_state :: "mailbox_row option \<Rightarrow> package_state" where
  "row_state row = (case row of None \<Rightarrow> Unknown
     | Some x \<Rightarrow> if mr_claimed_at x \<noteq> None then Claimed else Waiting (mr_sender x) (mr_recipient x) (mr_created_at x) (mr_package x))"

definition mailbox_ok :: "crypto \<Rightarrow> mailbox \<Rightarrow> bool" where
  "mailbox_ok C m \<longleftrightarrow> dict_ok m \<and> (\<forall>(h, row)\<in>set m. transfer_package_hash C (mr_package row) = h)"

lemma dict_get_mark_claimed:
  "dict_get (mark_claimed h t m) k = map_option (\<lambda>row. if k = h then row\<lparr>mr_claimed_at := Some t\<rparr> else row) (dict_get m k)"
  by (induction m) (auto simp: mark_claimed_def)

lemma mailbox_apply_ok: "mailbox_ok C m \<Longrightarrow> mailbox_ok C (mailbox_apply C op m)"
proof (cases op)
  case (Enqueue s r p t)
  assume "mailbox_ok C m"
  then show ?thesis
    using dict_set_subset [of "transfer_package_hash C p" _ m]
    by (fastforce simp: Enqueue mailbox_ok_def enqueue_package_def Let_def split: option.split)
next
  case (Claim h t)
  assume "mailbox_ok C m"
  then show ?thesis by (auto simp: Claim mailbox_ok_def mark_claimed_def dict_ok_def comp_def split_def)
qed

lemma mailbox_apply_refines:
  "row_state (dict_get (mailbox_apply C op m) h) = package_step C h op (row_state (dict_get m h))"
  by (cases op) (auto simp: enqueue_package_def Let_def dict_simps dict_get_mark_claimed row_state_def split: option.splits package_state.splits)

lemma mailbox_run_ok:
  "mailbox_ok C (mailbox_run C ops) \<and> row_state (dict_get (mailbox_run C ops) h) = package_run C ops h"
proof (induction ops rule: rev_induct)
  case Nil
  then show ?case by (simp add: mailbox_run_def package_run_def mailbox_new_def mailbox_ok_def row_state_def)
next
  case (snoc op ops)
  then show ?case using mailbox_apply_ok by (simp add: mailbox_run_def package_run_def mailbox_apply_refines)
qed

lemma waiting_row_of:
  "package_run C ops h = Waiting sender r created p \<longleftrightarrow>
     (\<exists>row. (h, row) \<in> set (waiting_rows r (mailbox_run C ops)) \<and> mr_sender row = sender \<and> mr_created_at row = created \<and> mr_package row = p)"
proof -
  have state: "package_run C ops h = row_state (dict_get (mailbox_run C ops) h)" and ok: "dict_ok (mailbox_run C ops)"
    using mailbox_run_ok [of C ops h] by (simp_all add: mailbox_ok_def)
  have "(h, row) \<in> set (mailbox_run C ops) \<longleftrightarrow> dict_get (mailbox_run C ops) h = Some row" for row
    using ok by (simp add: dict_ok_def)
  then show ?thesis
    unfolding state by (cases "dict_get (mailbox_run C ops) h") (auto simp: waiting_rows_def row_state_def)
qed

text \<open>C39. The mailbox delivers each package until it is claimed, and never again. After any sequence of enqueueings and claims
  from the empty mailbox, the list for a recipient holds exactly the packages that the abstract mailbox has waiting for them: each hash
  once, with the package it is the hash of, the sender it was last enqueued by and the time it was first enqueued with. They are ordered by
  these times, which the senders choose, and by hash among equal ones. \<open>pending_count\<close> is the list's length.\<close>

theorem mailbox_delivers_until_claimed:
  defines "listed \<equiv> \<lambda>C ops r. list_pending_packages r (mailbox_run C ops)"
  shows "set (listed C ops r) = {(h, sender, created, p). package_run C ops h = Waiting sender r created p} \<and>
    distinct (map fst (listed C ops r)) \<and> (\<forall>(h, sender, created, p)\<in>set (listed C ops r). transfer_package_hash C p = h) \<and>
    sorted (map (\<lambda>(h, sender, created, p). (created, h)) (listed C ops r)) \<and>
    pending_count r (mailbox_run C ops) = int (length (listed C ops r))"
proof -
  let ?m = "mailbox_run C ops"
  have ok: "dict_ok ?m" "\<forall>(h, row)\<in>set ?m. transfer_package_hash C (mr_package row) = h"
    using mailbox_run_ok [of C ops] by (auto simp: mailbox_ok_def)
  let ?k = "\<lambda>(h, row). (mr_created_at row, h)"
  have "distinct (map fst (waiting_rows r ?m))" using ok(1) by (simp add: waiting_rows_def dict_ok_def distinct_map_filter)
  moreover have "map fst (listed C ops r) = map fst (sort_key ?k (waiting_rows r ?m))"
    by (simp add: listed_def list_pending_packages_def comp_def split_def)
  ultimately have "distinct (map fst (listed C ops r))" by (simp only: distinct_map_sort_key)
  moreover have "map (\<lambda>(h, sender, created, p). (created, h)) (listed C ops r) = map ?k (sort_key ?k (waiting_rows r ?m))"
    by (simp add: listed_def list_pending_packages_def comp_def split_def)
  then have "sorted (map (\<lambda>(h, sender, created, p). (created, h)) (listed C ops r))" by (simp only: sorted_sort_key)
  moreover have "set (listed C ops r) = {(h, sender, created, p). package_run C ops h = Waiting sender r created p}"
    by (auto simp: waiting_row_of listed_def list_pending_packages_def image_iff)
  moreover have "\<forall>(h, sender, created, p)\<in>set (listed C ops r). transfer_package_hash C p = h"
    using ok(2) by (auto simp: listed_def list_pending_packages_def waiting_rows_def)
  moreover have "pending_count r ?m = int (length (listed C ops r))"
    by (simp add: listed_def list_pending_packages_def pending_count_def)
  ultimately show ?thesis by blast
qed

theorem mailbox_delivers_until_claimed_witness:
  "\<exists>p. set (list_pending_packages ''bob'' (mailbox_run flat_crypto [Enqueue ''alice'' ''bob'' p 1, Enqueue ''carol'' ''bob'' p 3])) =
       {(replicate 32 0, ''carol'', 1, p)} \<and>
     list_pending_packages ''bob'' (mailbox_run flat_crypto
       [Enqueue ''alice'' ''bob'' p 1, Claim (replicate 32 0) 2, Enqueue ''alice'' ''bob'' p 3]) = []"
proof -
  let ?p = "\<lparr>tp_target_tx = sample_tx, tp_target_value = ValueRange 0 4, tp_witness = WitnessV2 (ValueRange 0 4) ''alice'' []
    (GenesisAnchor \<lparr>ga_block_hash = ZERO_HASH32, ga_owner = ''alice'', ga_value_begin = 0, ga_value_end = 9\<rparr>)\<rparr>"
  have h: "transfer_package_hash flat_crypto p = replicate 32 0" for p by (simp add: transfer_package_hash_def)
  let ?twice = "[Enqueue ''alice'' ''bob'' ?p 1, Enqueue ''carol'' ''bob'' ?p 3]"
    and ?again = "[Enqueue ''alice'' ''bob'' ?p 1, Claim (replicate 32 0) 2, Enqueue ''alice'' ''bob'' ?p 3]"
  have twice: "{(k, sender, created, p). package_run flat_crypto ?twice k = Waiting sender ''bob'' created p} = {(replicate 32 0, ''carol'', 1, ?p)}"
    by (auto simp: package_run_def h split: if_splits)
  have again: "{(k, sender, created, p). package_run flat_crypto ?again k = Waiting sender ''bob'' created p} = {}"
    by (auto simp: package_run_def h split: if_splits)
  note lists = conjunct1 [OF mailbox_delivers_until_claimed [where C = flat_crypto and r = "''bob''"]]
  have "set (list_pending_packages ''bob'' (mailbox_run flat_crypto ?again)) = {}" by (rule trans [OF lists again])
  then show ?thesis by (intro exI [of _ ?p] conjI trans [OF lists twice]) simp
qed

end
