(* ===== verification/Wallet.thy ===== *)
theory Wallet
  imports Wallet_Store Validator Effects Transfer_Mailbox
begin

section \<open>The account's wallet (\<open>EZ_V2/wallet.py\<close>)\<close>

text \<open>
  \<open>WalletAccountV2\<close> as a record: its address, its database and the value records and checkpoints it holds in
  memory, which are reloaded from the database after every change. A method returns its result, or what it raises,
  with the wallet as it is then; each transaction that has been committed stays. Fresh record ids come from
  \<open>uuid4\<close>, a parameter \<open>uuid\<close> that yields the n-th id drawn; the clock and the random nonce are arguments.
\<close>

datatype account_error =
    RangeProblem wallet_error
  | DbProblem db_error
  | CryptoProblem crypto_error
  | ObjectProblem type_error
  | ValidatorProblem validator_raise
  | RejectedTransfer "reject option"
  | PublicKeyMismatch
  | PendingBundleExists
  | EmptyTxList
  | NoCoveringRecord
  | NoPendingBundle
  | HeaderNotCanonical
  | PrevRefMismatch
  | MissingPreviousUnit
  | SingleProofRequired
  | ProofNotVerified
  | NoArchivedRecord
  | TxSenderMismatch
  | PackageAlreadyAccepted
  | CheckpointNeedsUnit
  | RecordNotFound
  | EmptyAddress

record wallet =
  wa_address :: string
  wa_genesis_hash :: bytes
  wa_db :: wallet_db
  wa_records :: "local_value_record list"
  wa_checkpoints :: "checkpoint list"
  wa_drawn :: nat

type_synonym 'a wallet_outcome = "(account_error, 'a, wallet) outcome"

definition db_do :: "(wallet_db \<Rightarrow> db_error + wallet_db) \<Rightarrow> wallet \<Rightarrow> unit wallet_outcome" where
  \<comment> \<open>One transaction: committed, or rolled back and raised\<close>
  "db_do f w = (case f (wa_db w) of Inl e \<Rightarrow> (Inl (DbProblem e), w) | Inr db \<Rightarrow> (Inr (), w\<lparr>wa_db := db\<rparr>))"

subsection \<open>Witnesses and checkpoints\<close>

definition append_confirmed_unit :: "witness \<Rightarrow> value_range \<Rightarrow> confirmed_unit \<Rightarrow> witness" where
  "append_confirmed_unit w v unit = WitnessV2 v (w_owner w) (unit # w_chain w) (w_anchor w)"

definition clone_witness_for_value :: "witness \<Rightarrow> value_range \<Rightarrow> witness" where
  "clone_witness_for_value w v = WitnessV2 v (w_owner w) (w_chain w) (w_anchor w)"

definition iter_witness_sidecars :: "witness \<Rightarrow> bundle_sidecar list" where
  "iter_witness_sidecars w = map cu_sidecar (witness_units w)"

definition checkpoint_matches_witness :: "crypto \<Rightarrow> checkpoint \<Rightarrow> witness \<Rightarrow> bool" where
  "checkpoint_matches_witness C cp w \<longleftrightarrow> checkpoint_matches cp (w_value w) (w_owner w) \<and>
     list_ex (\<lambda>unit. hl_height (rc_header (cu_receipt unit)) = cp_height cp \<and>
        hl_block_hash (rc_header (cu_receipt unit)) = cp_block_hash cp \<and>
        compute_bundle_hash C (cu_sidecar unit) = cp_bundle_hash cp) (w_chain w)"

definition set_anchor :: "witness \<Rightarrow> anchor \<Rightarrow> witness" where
  \<comment> \<open>\<open>replace(witness, anchor=...)\<close>\<close>
  "set_anchor w a = WitnessV2 (w_value w) (w_owner w) (w_chain w) a"

text \<open>
  The three walks along the anchors return the witness itself when the recursion changed nothing, which is
  the same value.
\<close>

fun trim_witness_to_known_checkpoint :: "crypto \<Rightarrow> checkpoint list \<Rightarrow> witness \<Rightarrow> witness" where
  "trim_witness_to_known_checkpoint C cps (WitnessV2 v owner chain (PriorWitnessLink tx prior)) =
     (let w = WitnessV2 v owner chain (PriorWitnessLink tx prior)
      in case find (\<lambda>cp. checkpoint_matches_witness C cp w) cps of
           Some cp \<Rightarrow> set_anchor w (CheckpointAnchor cp)
         | None \<Rightarrow>
             let trimmed_prior = trim_witness_to_known_checkpoint C cps prior
             in if trimmed_prior = prior then w else set_anchor w (PriorWitnessLink tx trimmed_prior))"
| "trim_witness_to_known_checkpoint C cps w =
     (case find (\<lambda>cp. checkpoint_matches_witness C cp w) cps of
        Some cp \<Rightarrow> set_anchor w (CheckpointAnchor cp)
      | None \<Rightarrow> w)"

definition checkpoint_of_unit :: "crypto \<Rightarrow> value_range \<Rightarrow> string \<Rightarrow> confirmed_unit \<Rightarrow> checkpoint" where
  \<comment> \<open>Its parts come from objects that passed their checks, so \<open>Checkpoint\<close> raises nothing.\<close>
  "checkpoint_of_unit C v owner latest = \<lparr>cp_value_begin = vr_begin v, cp_value_end = vr_end v, cp_owner = owner,
     cp_height = hl_height (rc_header (cu_receipt latest)), cp_block_hash = hl_block_hash (rc_header (cu_receipt latest)),
     cp_bundle_hash = compute_bundle_hash C (cu_sidecar latest)\<rparr>"

definition checkpoint_from_witness :: "crypto \<Rightarrow> witness \<Rightarrow> checkpoint option" where
  "checkpoint_from_witness C w =
     (case w_chain w of [] \<Rightarrow> None | latest # _ \<Rightarrow> Some (checkpoint_of_unit C (w_value w) (w_owner w) latest))"

fun trim_witness_for_recipient :: "crypto \<Rightarrow> string \<Rightarrow> value_range \<Rightarrow> witness \<Rightarrow> witness" where
  "trim_witness_for_recipient C recipient target (WitnessV2 v owner chain (PriorWitnessLink tx prior)) =
     (let w = WitnessV2 v owner chain (PriorWitnessLink tx prior)
      in case (if owner = recipient \<and> v = target then checkpoint_from_witness C w else None) of
           Some cp \<Rightarrow> set_anchor w (CheckpointAnchor cp)
         | None \<Rightarrow>
             let trimmed_prior = trim_witness_for_recipient C recipient target prior
             in if trimmed_prior = prior then w else set_anchor w (PriorWitnessLink tx trimmed_prior))"
| "trim_witness_for_recipient C recipient target w =
     (case (if w_owner w = recipient \<and> w_value w = target then checkpoint_from_witness C w else None) of
        Some cp \<Rightarrow> set_anchor w (CheckpointAnchor cp)
      | None \<Rightarrow> w)"

definition local_witness_for_checkpoint :: "crypto \<Rightarrow> wallet \<Rightarrow> checkpoint \<Rightarrow> witness option" where
  \<comment> \<open>The code searches the same way whether or not the checkpoint is one of the wallet's.\<close>
  "local_witness_for_checkpoint C w cp =
     (if cp_owner cp \<noteq> wa_address w then None
      else map_option lvr_witness
        (find (\<lambda>r. lvr_value r = ValueRange (cp_value_begin cp) (cp_value_end cp) \<and> checkpoint_matches_witness C cp (lvr_witness r))
          (wa_records w)))"

definition has_local_checkpoint :: "crypto \<Rightarrow> wallet \<Rightarrow> checkpoint \<Rightarrow> bool" where
  "has_local_checkpoint C w cp \<longleftrightarrow> local_witness_for_checkpoint C w cp \<noteq> None"

fun trusted_checkpoints_for_witness :: "crypto \<Rightarrow> wallet \<Rightarrow> witness \<Rightarrow> checkpoint list" where
  \<comment> \<open>\<open>_walk\<close> meets at most one checkpoint, so \<open>seen\<close> is empty when it does.\<close>
  "trusted_checkpoints_for_witness C w (WitnessV2 _ _ _ (CheckpointAnchor cp)) = (if has_local_checkpoint C w cp then [cp] else [])"
| "trusted_checkpoints_for_witness C w (WitnessV2 _ _ _ (PriorWitnessLink tx prior)) = trusted_checkpoints_for_witness C w prior"
| "trusted_checkpoints_for_witness C w (WitnessV2 _ _ _ (GenesisAnchor g)) = []"

fun rehydrate_local_checkpoint_anchors :: "crypto \<Rightarrow> wallet \<Rightarrow> witness \<Rightarrow> witness" where
  "rehydrate_local_checkpoint_anchors C w (WitnessV2 v owner chain (CheckpointAnchor cp)) =
     (case local_witness_for_checkpoint C w cp of
        Some local_witness \<Rightarrow> local_witness
      | None \<Rightarrow> WitnessV2 v owner chain (CheckpointAnchor cp))"
| "rehydrate_local_checkpoint_anchors C w (WitnessV2 v owner chain (PriorWitnessLink tx prior)) =
     (let rehydrated_prior = rehydrate_local_checkpoint_anchors C w prior
      in if rehydrated_prior = prior then WitnessV2 v owner chain (PriorWitnessLink tx prior)
         else WitnessV2 v owner chain (PriorWitnessLink tx rehydrated_prior))"
| "rehydrate_local_checkpoint_anchors C w (WitnessV2 v owner chain (GenesisAnchor g)) = WitnessV2 v owner chain (GenesisAnchor g)"

subsection \<open>Opening, reloading and reading\<close>

definition reload_state :: "crypto \<Rightarrow> wallet \<Rightarrow> unit wallet_outcome" where
  "reload_state C w =
     (case list_value_records C (wa_address w) (wa_db w) of
        Inl e \<Rightarrow> (Inl (DbProblem e), w)
      | Inr records \<Rightarrow> (Inr (), w\<lparr>wa_records := records, wa_checkpoints := db_list_checkpoints (wa_address w) (wa_db w)\<rparr>))"

definition wallet_open :: "crypto \<Rightarrow> string \<Rightarrow> bytes \<Rightarrow> wallet_db \<Rightarrow> nat \<Rightarrow> unit wallet_outcome" where
  "wallet_open C address genesis_block_hash db drawn =
     reload_state C \<lparr>wa_address = address, wa_genesis_hash = genesis_block_hash, wa_db = db, wa_records = [], wa_checkpoints = [],
       wa_drawn = drawn\<rparr>"

definition persist_records :: "crypto \<Rightarrow> local_value_record list \<Rightarrow> wallet \<Rightarrow> unit wallet_outcome" where
  "persist_records C records w =
     st_bind (db_do (replace_value_records_and_recompute C (wa_address w) records) w) (\<lambda>_. reload_state C)"

definition observe_canonical_header :: "header_lite \<Rightarrow> wallet \<Rightarrow> wallet" where
  "observe_canonical_header header w = w\<lparr>wa_db := save_canonical_header (wa_address w) header (wa_db w)\<rparr>"

definition observe_canonical_block :: "block \<Rightarrow> wallet \<Rightarrow> wallet" where
  "observe_canonical_block b w =
     observe_canonical_header \<lparr>hl_height = bh_height (blk_header b), hl_block_hash = blk_hash b, hl_state_root = bh_state_root (blk_header b)\<rparr> w"

definition knows_canonical_header :: "header_lite \<Rightarrow> wallet \<Rightarrow> bool" where
  "knows_canonical_header header w = has_canonical_header (wa_address w) header (wa_db w)"

definition balance_breakdown :: "wallet \<Rightarrow> (local_value_status, int) dict" where
  "balance_breakdown w =
     foldl (\<lambda>totals r. dict_set (lvr_status r) (dict_get_default totals (lvr_status r) 0 + vr_size (lvr_value r)) totals)
       (map (\<lambda>status. (status, 0)) all_statuses) (wa_records w)"

definition get_balance :: "wallet \<Rightarrow> local_value_status option \<Rightarrow> int" where
  "get_balance w status =
     (case status of
        Some s \<Rightarrow> dict_get_default (balance_breakdown w) s 0
      | None \<Rightarrow> sum_list (map snd (filter (\<lambda>(s, _). s \<noteq> ARCHIVED) (balance_breakdown w))))"

definition available_balance :: "wallet \<Rightarrow> int" where
  "available_balance w = get_balance w (Some VERIFIED_SPENDABLE)"

definition pending_balance :: "wallet \<Rightarrow> int" where
  "pending_balance w =
     sum_list (map (\<lambda>s. get_balance w (Some s))
       [PENDING_BUNDLE, PENDING_CONFIRMATION, RECEIPT_PENDING, RECEIPT_MISSING, LOCKED_FOR_VERIFICATION])"

definition total_balance :: "wallet \<Rightarrow> int" where
  "total_balance w = get_balance w None"

definition wallet_next_sequence :: "wallet \<Rightarrow> int" where
  "wallet_next_sequence w = next_sequence (wa_address w) (wa_db w)"

definition list_records :: "wallet \<Rightarrow> local_value_status option \<Rightarrow> local_value_record list" where
  "list_records w status = (case status of None \<Rightarrow> wa_records w | Some s \<Rightarrow> filter (\<lambda>r. lvr_status r = s) (wa_records w))"

definition wallet_pending_bundles :: "wallet \<Rightarrow> pending_bundle_context list" where
  "wallet_pending_bundles w = list_pending_bundles (wa_address w) (wa_db w)"

definition wallet_receipts :: "crypto \<Rightarrow> wallet \<Rightarrow> db_error + receipt list" where
  "wallet_receipts C w = list_receipts C (wa_address w) (wa_db w)"

definition wallet_select_payment_ranges :: "wallet \<Rightarrow> int \<Rightarrow> wallet_error + value_range list" where
  "wallet_select_payment_ranges w amount = select_payment_ranges (wa_address w) (wa_records w) (wa_checkpoints w) amount"

fun has_genesis_record :: "string \<Rightarrow> value_range \<Rightarrow> local_value_record list \<Rightarrow> account_error + bool" where
  "has_genesis_record address v [] = Inr False"
| "has_genesis_record address v (r # records) =
     (case w_anchor (lvr_witness r) of
        GenesisAnchor g \<Rightarrow>
          if ga_owner g \<noteq> address then has_genesis_record address v records
          else
            (case make_value_range (ga_value_begin g) (ga_value_end g) of
               Inl e \<Rightarrow> Inl (RangeProblem (BadRange e))
             | Inr anchor_range \<Rightarrow> if anchor_range = v then Inr True else has_genesis_record address v records)
      | _ \<Rightarrow> has_genesis_record address v records)"

definition has_genesis_value :: "wallet \<Rightarrow> value_range \<Rightarrow> account_error + bool" where
  "has_genesis_value w v = has_genesis_record (wa_address w) v (wa_records w)"

subsection \<open>Building a bundle\<close>

fun assign_targets ::
    "local_value_record list \<Rightarrow> value_range list \<Rightarrow> (string, value_range list) dict \<Rightarrow>
       account_error + (string, value_range list) dict" where
  "assign_targets eligible [] assignments = Inr assignments"
| "assign_targets eligible (target # targets) assignments =
     (case find (\<lambda>r. vr_contains_range (lvr_value r) target \<and>
         \<not> list_ex (\<lambda>existing. vr_intersects existing target) (dict_get_default assignments (lvr_id r) [])) eligible of
        None \<Rightarrow> Inl NoCoveringRecord
      | Some selected \<Rightarrow>
          assign_targets eligible targets
            (dict_set (lvr_id selected) (dict_get_default assignments (lvr_id selected) [] @ [target]) assignments))"

definition assign_targets_to_records ::
    "local_value_record list \<Rightarrow> value_range list \<Rightarrow> account_error + (string, value_range list) dict" where
  "assign_targets_to_records records targets =
     assign_targets (filter (\<lambda>r. lvr_status r = VERIFIED_SPENDABLE) records) targets []"

record split_result =
  spl_records :: "local_value_record list"
  spl_pending_ids :: "string list"
  spl_outgoing_ids :: "string list"
  spl_drawn :: nat

definition segment_records ::
    "(nat \<Rightarrow> string) \<Rightarrow> local_value_record \<Rightarrow> nat \<Rightarrow> (value_range \<times> bool) list \<Rightarrow> local_value_record list" where
  \<comment> \<open>The records of the segments of one record, with the ids drawn from position \<open>drawn\<close> on\<close>
  "segment_records uuid r drawn segments =
     map (\<lambda>(i, segment, _). \<lparr>lvr_id = uuid i, lvr_value = segment, lvr_witness = clone_witness_for_value (lvr_witness r) segment,
         lvr_status = PENDING_BUNDLE, lvr_height = lvr_height r\<rparr>) (List.enumerate drawn segments)"

fun split_records ::
    "(nat \<Rightarrow> string) \<Rightarrow> (string, value_range list) dict \<Rightarrow> local_value_record list \<Rightarrow> nat \<Rightarrow> wallet_error + split_result" where
  \<comment> \<open>The loop over \<open>self.records\<close> in \<open>build_bundle\<close>\<close>
  "split_records uuid assignments [] drawn = Inr \<lparr>spl_records = [], spl_pending_ids = [], spl_outgoing_ids = [], spl_drawn = drawn\<rparr>"
| "split_records uuid assignments (r # records) drawn =
     (let assigned_targets = sort_key vr_key (dict_get_default assignments (lvr_id r) [])
      in if assigned_targets = [] then
           res_bind (split_records uuid assignments records drawn) (\<lambda>rest. Inr (rest\<lparr>spl_records := r # spl_records rest\<rparr>))
         else
           res_bind (partition_range (lvr_value r) assigned_targets) (\<lambda>segments.
           res_bind (split_records uuid assignments records (drawn + length segments)) (\<lambda>rest.
           Inr (rest\<lparr>spl_records := segment_records uuid r drawn segments @ spl_records rest,
             spl_pending_ids := map (\<lambda>(i, _). uuid i) (List.enumerate drawn segments) @ spl_pending_ids rest,
             spl_outgoing_ids := map (\<lambda>(i, _). uuid i) (filter (\<lambda>(_, _, is_outgoing). is_outgoing) (List.enumerate drawn segments))
               @ spl_outgoing_ids rest\<rparr>))))"

record bundle_params =
  bp_private_key :: bytes
  bp_public_key :: bytes
  bp_chain_id :: int
  bp_expiry_height :: int
  bp_fee :: int
  bp_nonce :: int
  bp_created_at :: int

definition prepare_bundle ::
    "crypto \<Rightarrow> string \<Rightarrow> offchain_tx list \<Rightarrow> bundle_params \<Rightarrow> int \<Rightarrow> value_range list \<Rightarrow> split_result \<Rightarrow>
       account_error + bundle_submission \<times> pending_bundle_context" where
  \<comment> \<open>The sidecar, the signed envelope and the context, before anything is saved\<close>
  "prepare_bundle C address txs p seq outgoing_values split =
     res_bind (map_sum ObjectProblem id (bundle_sidecar_init \<lparr>sc_sender = address, sc_txs = txs, sc_tx_count = 0\<rparr>)) (\<lambda>sidecar.
     res_bind (map_sum ObjectProblem id (bundle_envelope_init \<lparr>env_version = 2, env_chain_id = bp_chain_id p, env_seq = seq,
         env_expiry_height = bp_expiry_height p, env_fee = bp_fee p, env_nonce = bp_nonce p,
         env_bundle_hash = compute_bundle_hash C sidecar,
         env_claim_set_hash = Some (claim_range_set_hash C (claim_range_set_from_sidecar sidecar)), env_sig = []\<rparr>)) (\<lambda>unsigned.
     res_bind (map_sum CryptoProblem id (sign_bundle_envelope C unsigned (bp_private_key p))) (\<lambda>envelope.
     res_bind (map_sum ObjectProblem id (pending_bundle_context_init \<lparr>pbc_sender = address, pbc_bundle_hash = env_bundle_hash envelope,
         pbc_seq = seq, pbc_envelope = envelope, pbc_sidecar = sidecar, pbc_pubkey = bp_public_key p,
         pbc_pending_ids = spl_pending_ids split, pbc_outgoing_ids = spl_outgoing_ids split,
         pbc_outgoing_values = outgoing_values, pbc_created_at = bp_created_at p\<rparr>)) (\<lambda>context.
     Inr (\<lparr>sub_envelope = envelope, sub_sidecar = sidecar, sub_pubkey = bp_public_key p\<rparr>, context)))))"

definition plan_bundle ::
    "crypto \<Rightarrow> (nat \<Rightarrow> string) \<Rightarrow> offchain_tx list \<Rightarrow> bundle_params \<Rightarrow> int \<Rightarrow> wallet \<Rightarrow>
       account_error + bundle_submission \<times> pending_bundle_context \<times> split_result" where
  \<comment> \<open>\<open>build_bundle\<close> up to its first write\<close>
  "plan_bundle C uuid txs p seq w =
     res_bind (map_sum CryptoProblem id (address_from_public_key_pem C (bp_public_key p))) (\<lambda>sender_addr.
     if sender_addr \<noteq> wa_address w then Inl PublicKeyMismatch
     else if wallet_pending_bundles w \<noteq> [] then Inl PendingBundleExists
     else if txs = [] then Inl EmptyTxList
     else
       res_bind (map_sum RangeProblem id (ensure_non_overlapping_targets (concat (map tx_values txs)))) (\<lambda>outgoing_values.
       res_bind (assign_targets_to_records (wa_records w) outgoing_values) (\<lambda>assignments.
       res_bind (map_sum RangeProblem id (split_records uuid assignments (wa_records w) (wa_drawn w))) (\<lambda>split.
       res_bind (prepare_bundle C (wa_address w) txs p seq outgoing_values split) (\<lambda>(submission, context).
       Inr (submission, context, split))))))"

definition build_bundle ::
    "crypto \<Rightarrow> (nat \<Rightarrow> string) \<Rightarrow> offchain_tx list \<Rightarrow> bundle_params \<Rightarrow> int \<Rightarrow> wallet \<Rightarrow>
       (bundle_submission \<times> pending_bundle_context) wallet_outcome" where
  "build_bundle C uuid txs p seq w =
     (case plan_bundle C uuid txs p seq w of
        Inl e \<Rightarrow> (Inl e, w)
      | Inr (submission, context, split) \<Rightarrow>
          let w = w\<lparr>wa_drawn := spl_drawn split, wa_db := snd (save_sidecar C (sub_sidecar submission) (wa_db w))\<rparr>
          in st_bind (db_do (save_pending_bundle context) w) (\<lambda>_ w.
             st_bind (persist_records C (spl_records split) w) (\<lambda>_ w.
             (Inr (submission, context), w))))"

definition build_payment_bundle ::
    "crypto \<Rightarrow> (nat \<Rightarrow> string) \<Rightarrow> string \<Rightarrow> int \<Rightarrow> bundle_params \<Rightarrow> int \<Rightarrow> int option \<Rightarrow> bytes \<Rightarrow> wallet \<Rightarrow>
       (bundle_submission \<times> pending_bundle_context \<times> offchain_tx) wallet_outcome" where
  "build_payment_bundle C uuid recipient_addr amount p now seq extra_data w =
     (if amount \<le> 0 then (Inl (RangeProblem AmountNotPositive), w)
      else if wallet_pending_bundles w \<noteq> [] then (Inl PendingBundleExists, w)
      else
        case res_bind (map_sum RangeProblem id (wallet_select_payment_ranges w amount)) (\<lambda>payment_values.
          map_sum ObjectProblem id (offchain_tx_init \<lparr>tx_sender = wa_address w, tx_recipient = recipient_addr,
            tx_values = payment_values, tx_local_index = 0, tx_time = now, tx_extra = extra_data\<rparr>)) of
          Inl e \<Rightarrow> (Inl e, w)
        | Inr tx \<Rightarrow>
            st_bind (build_bundle C uuid [tx] p (case seq of None \<Rightarrow> wallet_next_sequence w | Some n \<Rightarrow> n) w)
              (\<lambda>(submission, context) w. (Inr (submission, context, tx), w)))"

subsection \<open>Confirmation, rollback and the other changes of the records\<close>

definition confirmed_segments ::
    "(nat \<Rightarrow> string) \<Rightarrow> string \<Rightarrow> local_value_record \<Rightarrow> witness \<Rightarrow> nat \<Rightarrow> (value_range \<times> bool) list \<Rightarrow> local_value_record list" where
  "confirmed_segments uuid address r appended_template drawn segments =
     map (\<lambda>(i, segment, is_outgoing). \<lparr>lvr_id = uuid i, lvr_value = segment,
         lvr_witness = WitnessV2 segment address (w_chain appended_template) (w_anchor appended_template),
         lvr_status = (if is_outgoing then ARCHIVED else VERIFIED_SPENDABLE), lvr_height = lvr_height r\<rparr>)
       (List.enumerate drawn segments)"

definition confirm_record ::
    "(nat \<Rightarrow> string) \<Rightarrow> string \<Rightarrow> confirmed_unit \<Rightarrow> value_range list \<Rightarrow> string list \<Rightarrow> string list \<Rightarrow> local_value_record \<Rightarrow> nat \<Rightarrow>
       wallet_error + local_value_record list \<times> nat" where
  \<comment> \<open>The body of the loop of \<open>_apply_confirmed_unit_to_records\<close>\<close>
  "confirm_record uuid address unit outgoing_values pending_ids outgoing_ids r drawn =
     (let appended = append_confirmed_unit (lvr_witness r) (lvr_value r) unit
      in if lvr_status r = ARCHIVED then Inr ([r], drawn)
         else if lvr_id r \<in> set pending_ids then
           Inr ([r\<lparr>lvr_witness := appended,
             lvr_status := (if lvr_id r \<in> set outgoing_ids then ARCHIVED else VERIFIED_SPENDABLE)\<rparr>], drawn)
         else if lvr_status r = PENDING_BUNDLE then Inr ([r], drawn)
         else if lvr_height r \<ge> hl_height (rc_header (cu_receipt unit)) then Inr ([r], drawn)
         else
           let contained_targets = filter (vr_contains_range (lvr_value r)) outgoing_values
           in if contained_targets = [] then Inr ([r\<lparr>lvr_witness := appended, lvr_status := VERIFIED_SPENDABLE\<rparr>], drawn)
              else res_bind (partition_range (lvr_value r) contained_targets) (\<lambda>segments.
                Inr (confirmed_segments uuid address r appended drawn segments, drawn + length segments)))"

fun confirm_records ::
    "(nat \<Rightarrow> string) \<Rightarrow> string \<Rightarrow> confirmed_unit \<Rightarrow> value_range list \<Rightarrow> string list \<Rightarrow> string list \<Rightarrow> local_value_record list \<Rightarrow> nat \<Rightarrow>
       wallet_error + local_value_record list \<times> nat" where
  "confirm_records uuid address unit outgoing_values pending_ids outgoing_ids [] drawn = Inr ([], drawn)"
| "confirm_records uuid address unit outgoing_values pending_ids outgoing_ids (r # records) drawn =
     res_bind (confirm_record uuid address unit outgoing_values pending_ids outgoing_ids r drawn) (\<lambda>(rs, drawn).
     res_bind (confirm_records uuid address unit outgoing_values pending_ids outgoing_ids records drawn) (\<lambda>(rest, drawn).
     Inr (rs @ rest, drawn)))"

definition apply_confirmed_unit_to_records ::
    "(nat \<Rightarrow> string) \<Rightarrow> confirmed_unit \<Rightarrow> value_range list \<Rightarrow> string list \<Rightarrow> string list \<Rightarrow> wallet \<Rightarrow>
       wallet_error + local_value_record list \<times> nat" where
  "apply_confirmed_unit_to_records uuid unit outgoing_values pending_ids outgoing_ids w =
     confirm_records uuid (wa_address w) unit (sort_key vr_key outgoing_values) pending_ids outgoing_ids (wa_records w) (wa_drawn w)"

definition check_receipt :: "crypto \<Rightarrow> receipt \<Rightarrow> wallet \<Rightarrow> account_error + pending_bundle_context" where
  \<comment> \<open>The checks of \<open>on_receipt_confirmed\<close>\<close>
  "check_receipt C r w =
     (case get_pending_bundle (wa_address w) (rc_seq r) (wa_db w) of
        None \<Rightarrow> Inl NoPendingBundle
      | Some context \<Rightarrow>
          if \<not> knows_canonical_header (rc_header r) w then Inl HeaderNotCanonical
          else
            let unit = \<lparr>cu_receipt = r, cu_sidecar = pbc_sidecar context\<rparr>
            in res_bind
                 (if rc_seq r = 1 then (if rc_prev_ref r \<noteq> None then Inl PrevRefMismatch else Inr ())
                  else
                    res_bind (map_sum DbProblem id (get_confirmed_unit C (wa_address w) (rc_seq r - 1) (wa_db w))) (\<lambda>previous_unit.
                    case previous_unit of
                      None \<Rightarrow> Inl MissingPreviousUnit
                    | Some previous \<Rightarrow> if Some (confirmed_ref C previous) \<noteq> rc_prev_ref r then Inl PrevRefMismatch else Inr ()))
                 (\<lambda>_.
                  case rc_proof r of
                    None \<Rightarrow> Inl SingleProofRequired
                  | Some proof \<Rightarrow>
                      if \<not> verify_proof C (hl_state_root (rc_header r)) (compute_addr_key C (wa_address w))
                           (hash_account_leaf C (reconstructed_leaf C unit)) proof 256
                      then Inl ProofNotVerified
                      else Inr context))"

definition on_receipt_confirmed :: "crypto \<Rightarrow> (nat \<Rightarrow> string) \<Rightarrow> receipt \<Rightarrow> wallet \<Rightarrow> confirmed_unit wallet_outcome" where
  "on_receipt_confirmed C uuid r w =
     (case check_receipt C r w of
        Inl e \<Rightarrow> (Inl e, w)
      | Inr context \<Rightarrow>
          let unit = \<lparr>cu_receipt = r, cu_sidecar = pbc_sidecar context\<rparr>
          in case apply_confirmed_unit_to_records uuid unit [] (pbc_pending_ids context) (pbc_outgoing_ids context) w of
               Inl e \<Rightarrow> (Inl (RangeProblem e), w)
             | Inr (updated_records, drawn) \<Rightarrow>
                 st_bind (db_do (save_receipt C (wa_address w) r (pbc_bundle_hash context)) (w\<lparr>wa_drawn := drawn\<rparr>)) (\<lambda>_ w.
                 st_bind (db_do (save_confirmed_unit C unit) w) (\<lambda>_ w.
                 st_bind (persist_records C updated_records
                   (w\<lparr>wa_db := delete_pending_bundle (wa_address w) (rc_seq r) (wa_db w)\<rparr>)) (\<lambda>_ w.
                 (Inr unit, w)))))"

definition mark_receipt_missing :: "crypto \<Rightarrow> int \<Rightarrow> wallet \<Rightarrow> pending_bundle_context wallet_outcome" where
  "mark_receipt_missing C seq w =
     (case get_pending_bundle (wa_address w) seq (wa_db w) of
        None \<Rightarrow> (Inl NoPendingBundle, w)
      | Some context \<Rightarrow>
          st_bind (persist_records C (map (\<lambda>r. if lvr_id r \<in> set (pbc_pending_ids context) \<and> lvr_status r = PENDING_BUNDLE
              then r\<lparr>lvr_status := RECEIPT_MISSING\<rparr> else r) (wa_records w)) w) (\<lambda>_ w.
          (Inr context, w)))"

definition apply_sender_confirmed_unit ::
    "crypto \<Rightarrow> (nat \<Rightarrow> string) \<Rightarrow> confirmed_unit \<Rightarrow> value_range list \<Rightarrow> wallet \<Rightarrow> local_value_record list wallet_outcome" where
  "apply_sender_confirmed_unit C uuid unit outgoing_values w =
     (case apply_confirmed_unit_to_records uuid unit outgoing_values [] [] w of
        Inl e \<Rightarrow> (Inl (RangeProblem e), w)
      | Inr (updated_records, drawn) \<Rightarrow>
          st_bind (persist_records C updated_records (w\<lparr>wa_drawn := drawn\<rparr>)) (\<lambda>_ w. (Inr (wa_records w), w)))"

definition rollback_pending_bundle :: "crypto \<Rightarrow> int \<Rightarrow> wallet \<Rightarrow> pending_bundle_context wallet_outcome" where
  "rollback_pending_bundle C seq w =
     (case get_pending_bundle (wa_address w) seq (wa_db w) of
        None \<Rightarrow> (Inl NoPendingBundle, w)
      | Some context \<Rightarrow>
          let updated_records = map (\<lambda>r. if lvr_id r \<in> set (pbc_pending_ids context)
              then r\<lparr>lvr_status := VERIFIED_SPENDABLE\<rparr> else r) (wa_records w)
          in st_bind (persist_records C updated_records
               (w\<lparr>wa_db := delete_pending_bundle (wa_address w) seq (wa_db w)\<rparr>)) (\<lambda>_ w.
             (Inr context, w)))"

definition clear_pending_bundles :: "crypto \<Rightarrow> wallet \<Rightarrow> int wallet_outcome" where
  "clear_pending_bundles C w =
     (let pending = wallet_pending_bundles w
      in st_bind (st_each (\<lambda>context w. st_bind (rollback_pending_bundle C (pbc_seq context) w) (\<lambda>_ w. (Inr (), w))) pending w)
           (\<lambda>_ w. (Inr (int (length pending)), w)))"

definition add_record :: "crypto \<Rightarrow> local_value_record \<Rightarrow> wallet \<Rightarrow> unit wallet_outcome" where
  \<comment> \<open>\<open>self._persist_records(self.records + [record])\<close>\<close>
  "add_record C r w = persist_records C (wa_records w @ [r]) w"

definition find_record :: "string \<Rightarrow> wallet \<Rightarrow> local_value_record wallet_outcome" where
  \<comment> \<open>\<open>next(item for item in self.records if item.record_id == record_id)\<close>, which can raise \<open>StopIteration\<close>\<close>
  "find_record record_id w =
     (case find (\<lambda>r. lvr_id r = record_id) (wa_records w) of None \<Rightarrow> (Inl RecordNotFound, w) | Some r \<Rightarrow> (Inr r, w))"

definition add_genesis_value :: "crypto \<Rightarrow> (nat \<Rightarrow> string) \<Rightarrow> value_range \<Rightarrow> wallet \<Rightarrow> local_value_record wallet_outcome" where
  "add_genesis_value C uuid v w =
     (case genesis_anchor_init \<lparr>ga_block_hash = wa_genesis_hash w, ga_owner = wa_address w,
        ga_value_begin = vr_begin v, ga_value_end = vr_end v\<rparr> of
        Inl e \<Rightarrow> (Inl (ObjectProblem e), w)
      | Inr anchor \<Rightarrow>
          let record_id = uuid (wa_drawn w);
              r = \<lparr>lvr_id = record_id, lvr_value = v, lvr_witness = WitnessV2 v (wa_address w) [] (GenesisAnchor anchor),
                lvr_status = VERIFIED_SPENDABLE, lvr_height = 0\<rparr>
          in st_bind (add_record C r (w\<lparr>wa_drawn := Suc (wa_drawn w)\<rparr>)) (\<lambda>_. find_record record_id))"

subsection \<open>Sending and receiving\<close>

fun export_from_records ::
    "crypto \<Rightarrow> string \<Rightarrow> offchain_tx \<Rightarrow> value_range \<Rightarrow> local_value_record list \<Rightarrow> account_error + transfer_package" where
  \<comment> \<open>The loop of \<open>export_transfer_package\<close>\<close>
  "export_from_records C address tx v [] = Inl NoArchivedRecord"
| "export_from_records C address tx v (r # records) =
     (if lvr_status r = ARCHIVED \<and> lvr_value r = v \<and> w_owner (lvr_witness r) = address
      then
        if tx_sender tx \<noteq> address then Inl TxSenderMismatch
        else
          case w_chain (lvr_witness r) of
            [] \<Rightarrow> export_from_records C address tx v records
          | latest_unit # _ \<Rightarrow>
              if length (filter (\<lambda>t. t = tx) (sc_txs (cu_sidecar latest_unit))) \<noteq> 1
              then export_from_records C address tx v records
              else Inr \<lparr>tp_target_tx = tx, tp_target_value = v,
                tp_witness = trim_witness_for_recipient C (tx_recipient tx) v (lvr_witness r)\<rparr>
      else export_from_records C address tx v records)"

definition export_transfer_package :: "crypto \<Rightarrow> offchain_tx \<Rightarrow> value_range \<Rightarrow> wallet \<Rightarrow> account_error + transfer_package" where
  "export_transfer_package C tx v w = export_from_records C (wa_address w) tx v (wa_records w)"

definition judge_transfer :: "crypto \<Rightarrow> validation_context \<Rightarrow> transfer_package \<Rightarrow> wallet \<Rightarrow> account_error + witness" where
  \<comment> \<open>The checks of \<open>receive_transfer\<close>; \<open>ctx\<close> is the validator's context\<close>
  "judge_transfer C ctx package w =
     (if has_accepted_transfer_package (wa_address w) (transfer_package_hash C package) (wa_db w) then Inl PackageAlreadyAccepted
      else
        res_bind (map_sum ValidatorProblem id (validate_transfer_package C ctx package (Some (wa_address w)))) (\<lambda>result.
        case vres_accepted_witness result of
          None \<Rightarrow> Inl (RejectedTransfer (vres_error result))
        | Some accepted \<Rightarrow> if \<not> vres_ok result then Inl (RejectedTransfer (vres_error result)) else Inr accepted))"

definition receive_transfer ::
    "crypto \<Rightarrow> (nat \<Rightarrow> string) \<Rightarrow> validation_context \<Rightarrow> transfer_package \<Rightarrow> int \<Rightarrow> wallet \<Rightarrow> local_value_record wallet_outcome" where
  "receive_transfer C uuid ctx package now w =
     (case judge_transfer C ctx package w of
        Inl e \<Rightarrow> (Inl e, w)
      | Inr accepted \<Rightarrow>
          let accepted_witness = rehydrate_local_checkpoint_anchors C w accepted;
              w = w\<lparr>wa_db := fold (\<lambda>sidecar db. snd (save_sidecar C sidecar db)) (iter_witness_sidecars (tp_witness package)) (wa_db w)\<rparr>;
              record_id = uuid (wa_drawn w);
              r = \<lparr>lvr_id = record_id, lvr_value = tp_target_value package, lvr_witness = accepted_witness,
                lvr_status = VERIFIED_SPENDABLE,
                lvr_height = hl_height (rc_header (cu_receipt (hd (w_chain (tp_witness package)))))\<rparr>
          in st_bind (add_record C r (w\<lparr>wa_drawn := Suc (wa_drawn w)\<rparr>)) (\<lambda>_ w.
             find_record record_id
               (w\<lparr>wa_db := save_accepted_transfer_package (wa_address w) (transfer_package_hash C package) now (wa_db w)\<rparr>)))"

definition create_exact_checkpoint :: "crypto \<Rightarrow> string \<Rightarrow> wallet \<Rightarrow> checkpoint wallet_outcome" where
  "create_exact_checkpoint C record_id w =
     st_bind (find_record record_id w) (\<lambda>r w.
     case w_chain (lvr_witness r) of
       [] \<Rightarrow> (Inl CheckpointNeedsUnit, w)
     | latest # _ \<Rightarrow>
         let cp = checkpoint_of_unit C (lvr_value r) (wa_address w) latest
         in st_bind (reload_state C (w\<lparr>wa_db := save_checkpoint cp (wa_db w)\<rparr>)) (\<lambda>_ w. (Inr cp, w)))"

definition wallet_gc_unused_sidecars :: "crypto \<Rightarrow> wallet \<Rightarrow> int \<times> wallet" where
  "wallet_gc_unused_sidecars C w =
     (let (n, db) = gc_unused_sidecars (recompute_sidecar_ref_counts C (wa_db w)) in (n, w\<lparr>wa_db := db\<rparr>))"

end
