(* ===== verification/Wallet_Safety.thy ===== *)
theory Wallet_Safety
  imports Wallet
begin

section \<open>The wallet keeps its money (\<open>EZ_V2/wallet.py\<close>)\<close>

text \<open>
  The invariant of the wallet and what its operations do to the units it owns. The coverage of a list of
  values is the set of their units with the sum of their sizes: the two agree exactly when no two values
  overlap, and both are what building, rolling back and confirming a bundle must keep or change by exactly the
  outgoing values.
\<close>

subsection \<open>Coverage\<close>

definition disjoint_values :: "value_range list \<Rightarrow> bool" where
  "disjoint_values vs \<longleftrightarrow> sorted_wrt (\<lambda>v w. \<not> vr_intersects v w) vs"

definition total_size :: "value_range list \<Rightarrow> int" where
  "total_size vs = sum_list (map vr_size vs)"

lemma total_size_simps [simp]:
  "total_size [] = 0" "total_size (v # vs) = vr_size v + total_size vs" "total_size (vs @ ws) = total_size vs + total_size ws"
  by (simp_all add: total_size_def)

lemma total_size_mset: "mset vs = mset ws \<Longrightarrow> total_size vs = total_size ws"
  by (metis mset_map sum_mset_sum_list total_size_def)

lemma card_units_le: "list_all vr_ok vs \<Longrightarrow> int (card (units vs)) \<le> total_size vs"
proof (induction vs)
  case (Cons v vs)
  have "int (card (vr_set v \<union> units vs)) \<le> int (card (vr_set v)) + int (card (units vs))"
    using card_Un_le [of "vr_set v" "units vs"] by linarith
  then show ?case using Cons card_vr_set [of v] by simp
qed simp

lemma disjoint_values_iff: "list_all vr_ok vs \<Longrightarrow> disjoint_values vs \<longleftrightarrow> int (card (units vs)) = total_size vs"
proof (induction vs)
  case (Cons v vs)
  have v: "vr_ok v" "list_all vr_ok vs" using Cons.prems by simp_all
  have meet: "(\<forall>w\<in>set vs. \<not> vr_intersects v w) \<longleftrightarrow> vr_set v \<inter> units vs = {}"
    using v by (auto simp: vr_intersects_iff list_all_iff units_def)
  have card: "int (card (vr_set v \<union> units vs)) + int (card (vr_set v \<inter> units vs)) = vr_size v + int (card (units vs))"
    using card_Un_Int [of "vr_set v" "units vs"] card_vr_set [OF v(1)] by simp
  have "vr_set v \<inter> units vs = {} \<longleftrightarrow> int (card (vr_set v \<inter> units vs)) = 0" by simp
  then have "vr_set v \<inter> units vs = {} \<and> int (card (units vs)) = total_size vs \<longleftrightarrow>
      int (card (vr_set v \<union> units vs)) = vr_size v + total_size vs"
    using card card_units_le [OF v(2)] by linarith
  moreover have "disjoint_values (v # vs) \<longleftrightarrow> vr_set v \<inter> units vs = {} \<and> disjoint_values vs"
    using meet by (simp add: disjoint_values_def)
  ultimately show ?case using Cons.IH [OF v(2)] by simp
qed (simp add: disjoint_values_def)

lemma disjoint_values_mset: "mset vs = mset ws \<Longrightarrow> disjoint_values vs \<longleftrightarrow> disjoint_values ws"
  unfolding disjoint_values_def by (rule sorted_wrt_sym_perm) (simp_all add: vr_intersects_sym)

definition same_coverage :: "value_range list \<Rightarrow> value_range list \<Rightarrow> bool" where
  "same_coverage vs ws \<longleftrightarrow> units vs = units ws \<and> total_size vs = total_size ws"

lemma same_coverage_refl [simp]: "same_coverage vs vs"
  by (simp add: same_coverage_def)

lemma same_coverage_append: "same_coverage a b \<Longrightarrow> same_coverage c d \<Longrightarrow> same_coverage (a @ c) (b @ d)"
  by (simp add: same_coverage_def)

lemma same_coverage_mset: "mset vs = mset ws \<Longrightarrow> same_coverage vs ws"
  unfolding same_coverage_def using units_mset total_size_mset by blast

lemma same_coverage_trans: "same_coverage a b \<Longrightarrow> same_coverage b c \<Longrightarrow> same_coverage a c"
  by (simp add: same_coverage_def)

lemma same_coverage_disjoint:
  "same_coverage vs ws \<Longrightarrow> list_all vr_ok vs \<Longrightarrow> list_all vr_ok ws \<Longrightarrow> disjoint_values vs \<Longrightarrow> disjoint_values ws"
  using disjoint_values_iff by (metis same_coverage_def)

lemma tiles_coverage: "tiles source segments \<Longrightarrow> same_coverage segments [source] \<and> list_all vr_ok segments"
  by (simp add: tiles_def same_coverage_def units_def total_size_def)

subsection \<open>Balances\<close>

definition live :: "local_value_record list \<Rightarrow> local_value_record list" where
  \<comment> \<open>The records the wallet still owns\<close>
  "live rs = filter (\<lambda>r. lvr_status r \<noteq> ARCHIVED) rs"

definition live_values :: "local_value_record list \<Rightarrow> value_range list" where
  "live_values rs = map lvr_value (live rs)"

lemma live_simps [simp]:
  "live [] = []" "live (r # rs) = (if lvr_status r = ARCHIVED then live rs else r # live rs)" "live (rs @ ss) = live rs @ live ss"
  "live_values [] = []" "live_values (r # rs) = (if lvr_status r = ARCHIVED then live_values rs else lvr_value r # live_values rs)"
  "live_values (rs @ ss) = live_values rs @ live_values ss"
  by (simp_all add: live_def live_values_def)

definition status_size :: "local_value_record list \<Rightarrow> local_value_status \<Rightarrow> int" where
  "status_size rs s = total_size (map lvr_value (filter (\<lambda>r. lvr_status r = s) rs))"

lemma all_statuses_all: "s \<in> set all_statuses" "distinct all_statuses"
  by (cases s) (simp_all add: all_statuses_def)

lemma dict_set_map: "k \<in> set ks \<Longrightarrow> distinct ks \<Longrightarrow> dict_set k v (map (\<lambda>s. (s, f s)) ks) = map (\<lambda>s. (s, if s = k then v else f s)) ks"
  by (induction ks) auto

lemma balance_breakdown_eq: "balance_breakdown w = map (\<lambda>s. (s, status_size (wa_records w) s)) all_statuses"
proof -
  have "foldl (\<lambda>totals r. dict_set (lvr_status r) (dict_get_default totals (lvr_status r) 0 + vr_size (lvr_value r)) totals)
      (map (\<lambda>s. (s, f s)) all_statuses) rs = map (\<lambda>s. (s, f s + status_size rs s)) all_statuses" for f and rs
  proof (induction rs arbitrary: f)
    case (Cons r rs)
    have "dict_get_default (map (\<lambda>s. (s, f s)) all_statuses) (lvr_status r) 0 = f (lvr_status r)"
      using all_statuses_all(1) [of "lvr_status r"] by (simp add: dict_get_default_def map_of_map_keys map_of_map_restrict)
    moreover have "dict_set (lvr_status r) v (map (\<lambda>s. (s, f s)) all_statuses) =
        map (\<lambda>s. (s, if s = lvr_status r then v else f s)) all_statuses" for v
      by (rule dict_set_map [OF all_statuses_all])
    ultimately show ?case using Cons.IH by (simp add: status_size_def)
  qed (simp add: status_size_def)
  from this [of "\<lambda>_. 0"] show ?thesis by (simp add: balance_breakdown_def)
qed

lemma status_balance: "get_balance w (Some s) = status_size (wa_records w) s"
  using all_statuses_all(1) [of s]
  by (simp add: get_balance_def balance_breakdown_eq dict_get_default_def map_of_map_restrict)

lemma total_balance_eq: "total_balance w = total_size (live_values (wa_records w))"
proof -
  have "sum_list (map (status_size rs) (filter (\<lambda>s. s \<noteq> ARCHIVED) all_statuses)) = total_size (live_values rs)" for rs
  proof (induction rs)
    case (Cons r rs)
    then show ?case by (cases "lvr_status r") (simp_all add: status_size_def all_statuses_def)
  qed (simp add: status_size_def all_statuses_def)
  then show ?thesis
    by (simp add: total_balance_def get_balance_def balance_breakdown_eq filter_map comp_def)
qed

subsection \<open>Assigning and splitting\<close>

lemma assigned_invariant:
  assumes "assign_targets eligible targets asg = Inr asg'" "distinct (map lvr_id eligible)"
    "\<forall>r\<in>set eligible. \<forall>t\<in>set (dict_get_default asg (lvr_id r) []). vr_contains_range (lvr_value r) t"
    "\<And>k. dict_get_default asg k [] \<noteq> [] \<Longrightarrow> k \<in> lvr_id ` set eligible"
  shows "(\<forall>r\<in>set eligible. \<forall>t\<in>set (dict_get_default asg' (lvr_id r) []). vr_contains_range (lvr_value r) t) \<and>
    (\<forall>k. dict_get_default asg' k [] \<noteq> [] \<longrightarrow> k \<in> lvr_id ` set eligible) \<and>
    mset (concat (map (\<lambda>r. dict_get_default asg' (lvr_id r) []) eligible)) =
      mset (concat (map (\<lambda>r. dict_get_default asg (lvr_id r) []) eligible)) + mset targets"
  using assms
proof (induction targets arbitrary: asg)
  case (Cons t ts)
  let ?ok = "\<lambda>r. vr_contains_range (lvr_value r) t \<and>
         \<not> list_ex (\<lambda>existing. vr_intersects existing t) (dict_get_default asg (lvr_id r) [])"
  obtain r where r: "find ?ok eligible = Some r" using Cons.prems(1) by (auto split: option.splits)
  then have re: "r \<in> set eligible" "vr_contains_range (lvr_value r) t"
    by (auto simp: find_Some_iff)
  let ?asg = "dict_set (lvr_id r) (dict_get_default asg (lvr_id r) [] @ [t]) asg"
  have get: "dict_get_default ?asg k [] = (if k = lvr_id r then dict_get_default asg k [] @ [t] else dict_get_default asg k [])" for k
    by (simp add: dict_get_default_def dict_simps)
  have one: "r' = r" if "r' \<in> set eligible" "lvr_id r' = lvr_id r" for r'
    using that re(1) Cons.prems(2) by (meson distinct_map inj_onD)
  have ms: "mset (concat (map (\<lambda>r'. dict_get_default ?asg (lvr_id r') []) rs)) =
      mset (concat (map (\<lambda>r'. dict_get_default asg (lvr_id r') []) rs)) + (if r \<in> set rs then {#t#} else {#})"
    if "distinct (map lvr_id rs)" "set rs \<subseteq> set eligible" for rs
    using that
  proof (induction rs)
    case (Cons x xs)
    then show ?case using one [of x] by (auto simp: get)
  qed simp
  have "assign_targets eligible ts ?asg = Inr asg'" using Cons.prems(1) r by simp
  moreover have "\<forall>r'\<in>set eligible. \<forall>t'\<in>set (dict_get_default ?asg (lvr_id r') []). vr_contains_range (lvr_value r') t'"
    using Cons.prems(3) re(2) one by (auto simp: get dest: one)
  moreover have "k \<in> lvr_id ` set eligible" if "dict_get_default ?asg k [] \<noteq> []" for k
    using that Cons.prems(4) [of k] re(1) by (cases "k = lvr_id r") (simp_all add: get)
  moreover have "mset (concat (map (\<lambda>r'. dict_get_default ?asg (lvr_id r') []) eligible)) =
      mset (concat (map (\<lambda>r'. dict_get_default asg (lvr_id r') []) eligible)) + {#t#}"
    using ms [OF Cons.prems(2)] re(1) by simp
  ultimately show ?case using Cons.IH [OF _ Cons.prems(2), of ?asg] by simp
qed simp

lemma assign_targets_ok:
  assumes "assign_targets_to_records records targets = Inr asg" "distinct (map lvr_id records)"
  shows "\<And>r t. r \<in> set records \<Longrightarrow> t \<in> set (dict_get_default asg (lvr_id r) []) \<Longrightarrow>
      vr_contains_range (lvr_value r) t \<and> t \<in> set targets \<and> lvr_status r = VERIFIED_SPENDABLE"
    "mset (concat (map (\<lambda>r. dict_get_default asg (lvr_id r) []) records)) = mset targets"
proof -
  let ?eligible = "filter (\<lambda>r. lvr_status r = VERIFIED_SPENDABLE) records"
  have d: "distinct (map lvr_id ?eligible)" using assms(2) by (simp add: distinct_map_filter)
  have a: "(\<forall>r\<in>set ?eligible. \<forall>t\<in>set (dict_get_default asg (lvr_id r) []). vr_contains_range (lvr_value r) t)"
    "\<forall>k. dict_get_default asg k [] \<noteq> [] \<longrightarrow> k \<in> lvr_id ` set ?eligible"
    "mset (concat (map (\<lambda>r. dict_get_default asg (lvr_id r) []) ?eligible)) = mset targets"
    using assigned_invariant [OF assms(1) [unfolded assign_targets_to_records_def] d] by (simp_all add: dict_get_default_def)
  have unassigned: "lvr_status r = VERIFIED_SPENDABLE" if r: "r \<in> set records" "dict_get_default asg (lvr_id r) [] \<noteq> []" for r
  proof -
    obtain r' where "r' \<in> set records" "lvr_status r' = VERIFIED_SPENDABLE" "lvr_id r' = lvr_id r" using a(2) r(2) by force
    then show ?thesis using r(1) assms(2) by (metis distinct_map inj_onD)
  qed
  have "concat (map (\<lambda>r. dict_get_default asg (lvr_id r) []) rs) =
      concat (map (\<lambda>r. dict_get_default asg (lvr_id r) []) (filter (\<lambda>r. lvr_status r = VERIFIED_SPENDABLE) rs))"
    if "set rs \<subseteq> set records" for rs
    using that
  proof (induction rs)
    case (Cons r rs)
    then show ?case using unassigned [of r] by (cases "lvr_status r = VERIFIED_SPENDABLE"; cases "dict_get_default asg (lvr_id r) []") simp_all
  qed simp
  from this [of records] show ms: "mset (concat (map (\<lambda>r. dict_get_default asg (lvr_id r) []) records)) = mset targets" using a(3) by simp
  show "vr_contains_range (lvr_value r) t \<and> t \<in> set targets \<and> lvr_status r = VERIFIED_SPENDABLE"
    if "r \<in> set records" "t \<in> set (dict_get_default asg (lvr_id r) [])" for r t
  proof -
    have s: "lvr_status r = VERIFIED_SPENDABLE" by (rule unassigned [OF that(1)]) (use that(2) in \<open>metis empty_iff empty_set\<close>)
    have "t \<in> set (concat (map (\<lambda>r. dict_get_default asg (lvr_id r) []) records))" using that by auto
    then have "t \<in> set targets" using ms by (metis set_mset_mset)
    then show ?thesis using s a(1) that by auto
  qed
qed

lemma filter_enumerate: "map (f \<circ> snd) (filter (P \<circ> snd) (List.enumerate n xs)) = map f (filter P xs)"
  by (induction xs arbitrary: n) simp_all

text \<open>One record cut into segments: valid values that make up its own, new consecutive ids, and the outgoing segments among them.\<close>

lemma segment_records_ok:
  fixes uuid :: "nat \<Rightarrow> string" and drawn :: nat
  assumes "partition_range (lvr_value r) targets = Inr segments" "vr_ok (lvr_value r)" "list_all vr_ok targets"
  defines "new \<equiv> segment_records uuid r drawn segments"
  shows "tiles (lvr_value r) (map lvr_value new)" "map lvr_id new = map uuid [drawn..<drawn + length segments]"
    "map (\<lambda>(i, _). uuid i) (List.enumerate drawn segments) = map lvr_id new"
    "\<And>r'. r' \<in> set new \<Longrightarrow> lvr_status r' = PENDING_BUNDLE \<and> lvr_height r' = lvr_height r \<and>
       lvr_witness r' = clone_witness_for_value (lvr_witness r) (lvr_value r')"
    "\<exists>outs. map lvr_id outs = map (\<lambda>(i, _). uuid i) (filter (\<lambda>(_, _, is_outgoing). is_outgoing) (List.enumerate drawn segments)) \<and>
       mset outs \<subseteq># mset new \<and> mset (map lvr_value outs) = mset targets"
proof -
  let ?rec = "\<lambda>(i, segment, _ :: bool). \<lparr>lvr_id = uuid i, lvr_value = segment, lvr_witness = clone_witness_for_value (lvr_witness r) segment,
         lvr_status = PENDING_BUNDLE, lvr_height = lvr_height r\<rparr>"
  have new: "new = map ?rec (List.enumerate drawn segments)" by (simp add: new_def segment_records_def)
  have segs: "tiles (lvr_value r) (map fst segments)" "map fst (filter snd segments) = sort targets"
    using partition_range_exact [OF assms(2,3)] assms(1) by auto
  have snd_enum: "map (f \<circ> snd) (List.enumerate n xs) = map f xs" for f :: "value_range \<times> bool \<Rightarrow> 'b" and n xs
    by (metis map_map map_snd_enumerate)
  have "map lvr_value new = map (fst \<circ> snd) (List.enumerate drawn segments)" by (auto simp: new)
  then show "tiles (lvr_value r) (map lvr_value new)" using segs(1) snd_enum [of fst] by simp
  have "map lvr_id new = map (uuid \<circ> fst) (List.enumerate drawn segments)" by (auto simp: new)
  then show "map lvr_id new = map uuid [drawn..<drawn + length segments]" by (metis map_map map_fst_enumerate)
  show "map (\<lambda>(i, _). uuid i) (List.enumerate drawn segments) = map lvr_id new" by (auto simp: new)
  show "lvr_status r' = PENDING_BUNDLE \<and> lvr_height r' = lvr_height r \<and>
       lvr_witness r' = clone_witness_for_value (lvr_witness r) (lvr_value r')" if "r' \<in> set new" for r'
    using that by (auto simp: new)
  let ?outs = "map ?rec (filter (\<lambda>(_, _, is_outgoing). is_outgoing) (List.enumerate drawn segments))"
  have "map lvr_id ?outs = map (\<lambda>(i, _). uuid i) (filter (\<lambda>(_, _, is_outgoing). is_outgoing) (List.enumerate drawn segments))" by auto
  moreover have "mset ?outs \<subseteq># mset new" by (simp add: new image_mset_subseteq_mono)
  moreover have "map lvr_value ?outs = map fst (filter snd segments)"
    using filter_enumerate [of fst snd drawn segments] by (simp add: comp_def split_def)
  ultimately show "\<exists>outs. map lvr_id outs = map (\<lambda>(i, _). uuid i) (filter (\<lambda>(_, _, is_outgoing). is_outgoing) (List.enumerate drawn segments)) \<and>
       mset outs \<subseteq># mset new \<and> mset (map lvr_value outs) = mset targets"
    using segs(2) by (intro exI [of _ ?outs]) simp
qed

abbreviation assigned :: "(string, value_range list) dict \<Rightarrow> local_value_record \<Rightarrow> value_range list" where
  "assigned asg r \<equiv> dict_get_default asg (lvr_id r) []"

definition split_of :: "(nat \<Rightarrow> string) \<Rightarrow> (string, value_range list) dict \<Rightarrow> local_value_record list \<Rightarrow> nat \<Rightarrow> split_result \<Rightarrow> bool" where
  "split_of uuid asg rs n s \<longleftrightarrow> n \<le> spl_drawn s \<and> spl_pending_ids s = map uuid [n..<spl_drawn s] \<and>
     same_coverage (live_values (spl_records s)) (live_values rs) \<and>
     list_all vr_ok (map lvr_value (spl_records s)) \<and>
     filter (\<lambda>r. lvr_status r = ARCHIVED) (spl_records s) = filter (\<lambda>r. lvr_status r = ARCHIVED) rs \<and>
     mset (map lvr_id (spl_records s)) =
       mset (map lvr_id (filter (\<lambda>r. assigned asg r = []) rs)) + mset (map uuid [n..<spl_drawn s]) \<and>
     (\<forall>r\<in>set (spl_records s). r \<in> set rs \<and> assigned asg r = [] \<or>
        lvr_id r \<in> set (spl_pending_ids s) \<and> lvr_status r = PENDING_BUNDLE \<and>
        (\<exists>source\<in>set rs. assigned asg source \<noteq> [] \<and> lvr_height r = lvr_height source \<and> vr_set (lvr_value r) \<subseteq> vr_set (lvr_value source) \<and>
           lvr_witness r = clone_witness_for_value (lvr_witness source) (lvr_value r))) \<and>
     (\<exists>outs. map lvr_id outs = spl_outgoing_ids s \<and> mset outs \<subseteq># mset (spl_records s) \<and>
        mset (map lvr_value outs) = mset (concat (map (assigned asg) rs)))"

lemma split_of_keep:
  assumes IH: "split_of uuid asg rs n rest" and True: "assigned asg r = []" and r: "vr_ok (lvr_value r)"
    and rest: "s = rest\<lparr>spl_records := r # spl_records rest\<rparr>"
  shows "split_of uuid asg (r # rs) n s"
proof -
  from IH obtain outs where outs: "map lvr_id outs = spl_outgoing_ids rest" "mset outs \<subseteq># mset (spl_records rest)"
      "mset (map lvr_value outs) = mset (concat (map (assigned asg) rs))" by (auto simp: split_of_def)
  have "mset outs \<subseteq># mset (r # spl_records rest)" using outs(2) by (auto intro: subset_mset.trans)
  then have "\<exists>outs. map lvr_id outs = spl_outgoing_ids s \<and> mset outs \<subseteq># mset (spl_records s) \<and>
      mset (map lvr_value outs) = mset (concat (map (assigned asg) (r # rs)))"
    using outs True by (intro exI [of _ outs]) (simp add: rest)
  moreover have "same_coverage (live_values (spl_records s)) (live_values (r # rs))"
    using IH by (simp add: rest split_of_def same_coverage_def)
  moreover have "\<forall>r'\<in>set (spl_records s). r' \<in> set (r # rs) \<and> assigned asg r' = [] \<or>
      lvr_id r' \<in> set (spl_pending_ids s) \<and> lvr_status r' = PENDING_BUNDLE \<and>
      (\<exists>source\<in>set (r # rs). assigned asg source \<noteq> [] \<and> lvr_height r' = lvr_height source \<and> vr_set (lvr_value r') \<subseteq> vr_set (lvr_value source) \<and>
         lvr_witness r' = clone_witness_for_value (lvr_witness source) (lvr_value r'))"
    using IH True by (auto simp: rest split_of_def)
  moreover have "n \<le> spl_drawn s \<and> spl_pending_ids s = map uuid [n..<spl_drawn s] \<and> list_all vr_ok (map lvr_value (spl_records s)) \<and>
      filter (\<lambda>r. lvr_status r = ARCHIVED) (spl_records s) = filter (\<lambda>r. lvr_status r = ARCHIVED) (r # rs)"
    using IH r by (simp add: rest split_of_def)
  moreover have "mset (map lvr_id (spl_records s)) =
     mset (map lvr_id (filter (\<lambda>r. assigned asg r = []) (r # rs))) + mset (map uuid [n..<spl_drawn s])"
    using IH True by (simp add: rest split_of_def)
  ultimately show ?thesis unfolding split_of_def by blast
qed

lemma split_of_cut:
  assumes seg: "partition_range (lvr_value r) (sort_key vr_key (assigned asg r)) = Inr segments"
    and IH: "split_of uuid asg rs (n + length segments) rest" and False: "assigned asg r \<noteq> []"
    and r: "vr_ok (lvr_value r)" "list_all vr_ok (assigned asg r)" "lvr_status r \<noteq> ARCHIVED"
    and s: "s = rest\<lparr>spl_records := segment_records uuid r n segments @ spl_records rest,
             spl_pending_ids := map (\<lambda>(i, _). uuid i) (List.enumerate n segments) @ spl_pending_ids rest,
             spl_outgoing_ids := map (\<lambda>(i, _). uuid i) (filter (\<lambda>(_, _, is_outgoing). is_outgoing) (List.enumerate n segments))
               @ spl_outgoing_ids rest\<rparr>"
  shows "split_of uuid asg (r # rs) n s"
proof -
  let ?targets = "sort_key vr_key (assigned asg r)"
  have targets: "list_all vr_ok ?targets" "mset ?targets = mset (assigned asg r)" using r(2) by (simp_all add: list_all_iff)
  note new = segment_records_ok [OF seg r(1) targets(1), where uuid = uuid and drawn = n]
  let ?new = "segment_records uuid r n segments" and ?n = "n + length segments"
  have m: "?n \<le> spl_drawn rest" and pend: "spl_pending_ids rest = map uuid [?n..<spl_drawn rest]"
    using IH by (simp_all add: split_of_def)
  have ids: "map uuid [n..<spl_drawn rest] = map lvr_id ?new @ spl_pending_ids rest"
    using m upt_add_eq_append [of n "spl_drawn rest - n" 0] unfolding new(2) pend map_append [symmetric]
    by (metis le_add1 le_Suc_ex le_add_diff_inverse le_trans upt_add_eq_append)
  have s_simps: "spl_records s = ?new @ spl_records rest" "spl_drawn s = spl_drawn rest"
      "spl_pending_ids s = map uuid [n..<spl_drawn rest]"
    by (simp_all add: s new(3) ids)
  have pending: "\<forall>r'\<in>set ?new. lvr_status r' = PENDING_BUNDLE" using new(4) by blast
  then have parts: "live_values ?new = map lvr_value ?new" "filter (\<lambda>r. lvr_status r = ARCHIVED) ?new = []"
    by (auto simp: live_values_def live_def filter_id_conv filter_empty_conv)
  obtain outs where outs: "map lvr_id outs = map (\<lambda>(i, _). uuid i) (filter (\<lambda>(_, _, is_outgoing). is_outgoing) (List.enumerate n segments))"
      "mset outs \<subseteq># mset ?new" "mset (map lvr_value outs) = mset ?targets" using new(5) by blast
  obtain outs' where outs': "map lvr_id outs' = spl_outgoing_ids rest" "mset outs' \<subseteq># mset (spl_records rest)"
      "mset (map lvr_value outs') = mset (concat (map (assigned asg) rs))" using IH by (auto simp: split_of_def)
  have "map lvr_id (outs @ outs') = spl_outgoing_ids s \<and> mset (outs @ outs') \<subseteq># mset (spl_records s) \<and>
      mset (map lvr_value (outs @ outs')) = mset (concat (map (assigned asg) (r # rs)))"
    using outs outs' targets(2) by (simp add: s subset_mset.add_mono)
  then have "\<exists>outs. map lvr_id outs = spl_outgoing_ids s \<and> mset outs \<subseteq># mset (spl_records s) \<and>
      mset (map lvr_value outs) = mset (concat (map (assigned asg) (r # rs)))" by blast
  moreover have "same_coverage (live_values (spl_records s)) (live_values (r # rs))"
    using IH r(3) tiles_coverage [OF new(1)] by (simp add: s_simps parts split_of_def same_coverage_def units_def total_size_def)
  moreover have "list_all vr_ok (map lvr_value (spl_records s))"
    using IH tiles_coverage [OF new(1)] by (simp add: s_simps split_of_def)
  moreover have "filter (\<lambda>r. lvr_status r = ARCHIVED) (spl_records s) = filter (\<lambda>r. lvr_status r = ARCHIVED) (r # rs)"
    using IH r(3) by (simp add: s_simps parts split_of_def)
  moreover have "mset (map lvr_id (spl_records s)) =
     mset (map lvr_id (filter (\<lambda>r. assigned asg r = []) (r # rs))) + mset (map uuid [n..<spl_drawn s])"
  proof -
    have "mset (map lvr_id (spl_records rest)) =
       mset (map lvr_id (filter (\<lambda>r. assigned asg r = []) rs)) + mset (spl_pending_ids rest)"
      using IH unfolding split_of_def pend by blast
    then show ?thesis using False unfolding s_simps ids by simp
  qed
  moreover have "r' \<in> set (r # rs) \<and> assigned asg r' = [] \<or>
      lvr_id r' \<in> set (spl_pending_ids s) \<and> lvr_status r' = PENDING_BUNDLE \<and>
      (\<exists>source\<in>set (r # rs). assigned asg source \<noteq> [] \<and> lvr_height r' = lvr_height source \<and> vr_set (lvr_value r') \<subseteq> vr_set (lvr_value source) \<and>
         lvr_witness r' = clone_witness_for_value (lvr_witness source) (lvr_value r'))" if "r' \<in> set (spl_records s)" for r'
  proof (cases "r' \<in> set ?new")
    case True
    then have "lvr_id r' \<in> set (spl_pending_ids s)" unfolding s_simps ids by simp
    moreover have "vr_set (lvr_value r') \<subseteq> vr_set (lvr_value r)" using new(1) True by (auto simp: tiles_def)
    ultimately show ?thesis using new(4) [OF True] False by auto
  next
    case old: False
    then have "r' \<in> set (spl_records rest)" using that by (simp add: s_simps)
    then have "r' \<in> set rs \<and> assigned asg r' = [] \<or>
      lvr_id r' \<in> set (spl_pending_ids rest) \<and> lvr_status r' = PENDING_BUNDLE \<and>
      (\<exists>source\<in>set rs. assigned asg source \<noteq> [] \<and> lvr_height r' = lvr_height source \<and> vr_set (lvr_value r') \<subseteq> vr_set (lvr_value source) \<and>
         lvr_witness r' = clone_witness_for_value (lvr_witness source) (lvr_value r'))"
      using IH unfolding split_of_def by blast
    moreover have "set (spl_pending_ids rest) \<subseteq> set (spl_pending_ids s)" unfolding s_simps ids by simp
    ultimately show ?thesis by auto
  qed
  ultimately show ?thesis
    using m unfolding split_of_def s_simps(2,3) by simp
qed

lemma split_records_of:
  assumes "split_records uuid asg rs n = Inr s" "\<forall>r\<in>set rs. vr_ok (lvr_value r) \<and> list_all vr_ok (assigned asg r)"
    "\<forall>r\<in>set rs. assigned asg r \<noteq> [] \<longrightarrow> lvr_status r \<noteq> ARCHIVED"
  shows "split_of uuid asg rs n s"
  using assms
proof (induction rs arbitrary: n s)
  case Nil
  then show ?case by (auto simp: split_of_def)
next
  case (Cons r rs)
  have r: "vr_ok (lvr_value r)" "list_all vr_ok (assigned asg r)" "assigned asg r \<noteq> [] \<longrightarrow> lvr_status r \<noteq> ARCHIVED"
    using Cons.prems(2,3) by simp_all
  have IH: "split_of uuid asg rs m rest" if "split_records uuid asg rs m = Inr rest" for m rest
    using Cons.IH [OF that] Cons.prems by simp
  show ?case
  proof (cases "assigned asg r = []")
    case True
    then obtain rest where "split_records uuid asg rs n = Inr rest" "s = rest\<lparr>spl_records := r # spl_records rest\<rparr>"
      using Cons.prems(1) by (auto simp: res_bind_Inr)
    then show ?thesis using split_of_keep [OF IH True r(1)] by blast
  next
    case False
    then have "sort_key vr_key (assigned asg r) \<noteq> []" by (metis set_empty set_sort)
    then show ?thesis
      using Cons.prems(1) split_of_cut [OF _ IH False r(1,2)] r(3) False by (auto simp: res_bind_Inr Let_def)
  qed
qed

subsection \<open>The invariant\<close>

definition records_ok :: "(nat \<Rightarrow> string) \<Rightarrow> string \<Rightarrow> wallet_db \<Rightarrow> nat \<Rightarrow> local_value_record list \<Rightarrow> bool" where
  \<comment> \<open>Records that can be stored: valid values, the ones still owned pairwise disjoint, and no id that is still to be drawn\<close>
  "records_ok uuid address db drawn rs \<longleftrightarrow> storable address rs db \<and> list_all vr_ok (map lvr_value rs) \<and>
     disjoint_values (live_values rs) \<and> (\<forall>i\<ge>drawn. uuid i \<notin> lvr_id ` set rs \<and> uuid i \<notin> fst ` set (wd_values db))"

definition bundle_ok :: "local_value_record list \<Rightarrow> pending_bundle_context \<Rightarrow> bool" where
  \<comment> \<open>The context names records that are still owned, and its outgoing ids are the records of its outgoing values.\<close>
  "bundle_ok rs context \<longleftrightarrow> set (pbc_outgoing_ids context) \<subseteq> set (pbc_pending_ids context) \<and>
     set (pbc_pending_ids context) \<subseteq> lvr_id ` set rs \<and>
     (\<forall>r\<in>set rs. lvr_id r \<in> set (pbc_pending_ids context) \<longrightarrow> lvr_status r \<noteq> ARCHIVED) \<and>
     mset (map lvr_value (filter (\<lambda>r. lvr_id r \<in> set (pbc_outgoing_ids context)) rs)) = mset (pbc_outgoing_values context)"

fun pending_ok :: "local_value_record list \<Rightarrow> pending_bundle_context list \<Rightarrow> bool" where
  "pending_ok rs [] \<longleftrightarrow> True"
| "pending_ok rs [context] \<longleftrightarrow> bundle_ok rs context"
| "pending_ok rs _ \<longleftrightarrow> False"

definition wallet_ok :: "crypto \<Rightarrow> (nat \<Rightarrow> string) \<Rightarrow> wallet \<Rightarrow> bool" where
  "wallet_ok C uuid w \<longleftrightarrow> batches_ok (wa_db w) \<and> list_value_records C (wa_address w) (wa_db w) = Inr (wa_records w) \<and>
     records_ok uuid (wa_address w) (wa_db w) (wa_drawn w) (wa_records w) \<and> pending_ok (wa_records w) (wallet_pending_bundles w)"

definition same_rows :: "wallet_db \<Rightarrow> wallet_db \<Rightarrow> bool" where
  \<comment> \<open>The tables the invariant reads\<close>
  "same_rows db db' \<longleftrightarrow> wd_values db = wd_values db' \<and> wd_batches db = wd_batches db' \<and> wd_pending db = wd_pending db'"

definition same_history :: "wallet_db \<Rightarrow> wallet_db \<Rightarrow> bool" where
  \<comment> \<open>The tables of the chain's history\<close>
  "same_history db db' \<longleftrightarrow> wd_receipts db' = wd_receipts db \<and> wd_units db' = wd_units db \<and> wd_headers db' = wd_headers db \<and>
     wd_accepted db' = wd_accepted db \<and> wd_batches db' = wd_batches db"

lemma records_ok_cong: "wd_values db = wd_values db' \<Longrightarrow> records_ok uuid address db n rs \<longleftrightarrow> records_ok uuid address db' n rs"
  by (simp add: records_ok_def storable_def)

lemma same_rows_reads:
  assumes "same_rows db db'"
  shows "batches_ok db' = batches_ok db" "list_value_records C a db' = list_value_records C a db"
    "records_ok uuid a db' n rs = records_ok uuid a db n rs" "list_pending_bundles a db' = list_pending_bundles a db"
    "get_pending_bundle a seq db' = get_pending_bundle a seq db"
  using assms records_ok_cong [of db db' uuid a n rs]
  by (simp_all add: same_rows_def batches_ok_def list_value_records_def owner_rows_def db_proof_batch_def [abs_def]
      list_pending_bundles_def get_pending_bundle_def)

lemma wallet_ok_same_rows:
  "wallet_ok C uuid w \<Longrightarrow> same_rows (wa_db w) db \<Longrightarrow> wallet_ok C uuid (w\<lparr>wa_db := db\<rparr>)"
  by (simp add: wallet_ok_def same_rows_reads wallet_pending_bundles_def)

lemma records_ok_mset:
  assumes m: "mset rs = mset ss" and ok: "records_ok uuid a db n rs"
  shows "records_ok uuid a db n ss"
proof -
  have same: "set rs = set ss" using m by (rule mset_eq_setD)
  have "mset (map lvr_id rs) = mset (map lvr_id ss)" by (simp add: m)
  then have "distinct (map lvr_id rs) = distinct (map lvr_id ss)" by (rule mset_eq_imp_distinct_iff)
  moreover have "mset (live_values rs) = mset (live_values ss)" by (simp add: live_values_def live_def m)
  then have "disjoint_values (live_values rs) = disjoint_values (live_values ss)" by (rule disjoint_values_mset)
  ultimately show ?thesis using ok by (simp add: records_ok_def storable_def list_all_iff same)
qed

lemma bundle_ok_mset:
  assumes m: "mset rs = mset ss"
  shows "bundle_ok rs context \<longleftrightarrow> bundle_ok ss context"
proof -
  have same: "set rs = set ss" using m by (rule mset_eq_setD)
  have "mset (map lvr_value (filter P rs)) = mset (map lvr_value (filter P ss))" for P by (simp add: m)
  then show ?thesis unfolding bundle_ok_def same by metis
qed

lemma pending_ok_mset:
  assumes m: "mset rs = mset ss"
  shows "pending_ok rs contexts \<longleftrightarrow> pending_ok ss contexts"
  by (cases "(rs, contexts)" rule: pending_ok.cases) (simp_all add: bundle_ok_mset [OF m])

text \<open>Writing records that can be stored always succeeds and establishes the invariant.\<close>

lemma commit_ok:
  assumes "digests32 C" "batches_ok (wa_db w)" "records_ok uuid (wa_address w) (wa_db w) (wa_drawn w) rs"
    "pending_ok rs (wallet_pending_bundles w)"
  obtains w' where "persist_records C rs w = (Inr (), w')" "wallet_ok C uuid w'" "wa_records w' = sort_key value_row_key rs"
    "wallet_pending_bundles w' = wallet_pending_bundles w" "wa_address w' = wa_address w" "wa_drawn w' = wa_drawn w"
    "same_history (wa_db w) (wa_db w')"
    "wa_genesis_hash w' = wa_genesis_hash w" "wd_pending (wa_db w') = wd_pending (wa_db w)"
proof -
  have st: "storable (wa_address w) rs (wa_db w)" using assms(3) by (simp add: records_ok_def)
  obtain db where db: "replace_value_records_and_recompute C (wa_address w) rs (wa_db w) = Inr db"
      "list_value_records C (wa_address w) db = Inr (sort_key value_row_key rs)"
      "\<And>k other x. (k, other, x) \<in> set (wd_values db) \<Longrightarrow> other \<noteq> wa_address w \<Longrightarrow> (k, other, x) \<in> set (wd_values (wa_db w))"
      "\<And>k x. (k, wa_address w, x) \<in> set (wd_values db) \<Longrightarrow> k \<in> lvr_id ` set rs"
      "wd_batches db = wd_batches (wa_db w)" "wd_pending db = wd_pending (wa_db w)" "wd_receipts db = wd_receipts (wa_db w)"
      "wd_units db = wd_units (wa_db w)" "wd_headers db = wd_headers (wa_db w)" "wd_accepted db = wd_accepted (wa_db w)"
    using replace_and_recompute_ok [OF assms(1,2) st] by metis
  let ?w = "w\<lparr>wa_db := db, wa_records := sort_key value_row_key rs, wa_checkpoints := db_list_checkpoints (wa_address w) db\<rparr>"
  have p: "persist_records C rs w = (Inr (), ?w)"
    by (simp add: persist_records_def db_do_def db(1) reload_state_def db(2))
  have pend: "wallet_pending_bundles ?w = wallet_pending_bundles w"
    by (simp add: wallet_pending_bundles_def list_pending_bundles_def db(6))
  have keys: "k \<in> fst ` set (wd_values (wa_db w)) \<union> lvr_id ` set rs" if k: "k \<in> fst ` set (wd_values db)" for k
  proof -
    obtain other x where kx: "(k, other, x) \<in> set (wd_values db)" using k by (metis imageE prod.collapse)
    show ?thesis
    proof (cases "other = wa_address w")
      case True
      then show ?thesis using db(4) kx by blast
    next
      case False
      then show ?thesis using imageI [OF db(3) [OF kx], of fst] by simp
    qed
  qed
  have "\<forall>(k, other, _)\<in>set (wd_values db). other \<noteq> wa_address w \<longrightarrow> k \<noteq> lvr_id r" if r: "r \<in> set rs" for r
    using st r db(3) unfolding storable_def by fast
  moreover have "uuid i \<notin> fst ` set (wd_values db)" if i: "wa_drawn w \<le> i" for i
    using assms(3) keys [of "uuid i"] i unfolding records_ok_def by blast
  ultimately have "records_ok uuid (wa_address w) db (wa_drawn w) rs"
    using assms(3) unfolding records_ok_def storable_def by blast
  then have "records_ok uuid (wa_address w) db (wa_drawn w) (sort_key value_row_key rs)"
    by (rule records_ok_mset [rotated]) simp
  moreover have "pending_ok (sort_key value_row_key rs) (wallet_pending_bundles w)"
    using assms(4) pending_ok_mset [of "sort_key value_row_key rs" rs] by simp
  ultimately have "wallet_ok C uuid ?w"
    using assms(2) db(2) pend by (simp add: wallet_ok_def batches_ok_def db(5))
  then show ?thesis by (rule that [OF p]) (use pend db in \<open>simp_all add: same_history_def\<close>)
qed

subsection \<open>Building keeps the invariant\<close>

lemma submultiset_by_key:
  assumes "distinct (map f rs)" "mset outs \<subseteq># mset rs"
  shows "mset (filter (\<lambda>r. f r \<in> f ` set outs) rs) = mset outs"
proof -
  have sub: "set outs \<subseteq> set rs" using assms(2) by (metis mset_subset_eqD set_mset_mset subsetI)
  have "distinct rs" using assms(1) by (simp add: distinct_map)
  then have d: "distinct outs" using assms(2) by (metis distinct_count_atmost_1 mset_subset_eq_count le_antisym count_greater_zero_iff
      in_multiset_in_set le_0_eq linorder_not_le nat_less_le less_one mset_subset_eqD)
  have "set (filter (\<lambda>r. f r \<in> f ` set outs) rs) = set outs"
    using sub assms(1) by (auto simp: distinct_map dest: inj_onD)
  then show ?thesis using d \<open>distinct rs\<close> by (metis distinct_filter set_eq_iff_mset_eq_distinct)
qed

lemma distinct_mset_ids: "mset xs = mset ys + mset zs \<Longrightarrow> distinct ys \<Longrightarrow> distinct zs \<Longrightarrow> set ys \<inter> set zs = {} \<Longrightarrow> distinct xs"
  by (metis distinct_append mset_append mset_eq_imp_distinct_iff)

lemma witness_units_clone [simp]: "witness_units (clone_witness_for_value w v) = witness_units w"
  by (cases w) (simp add: clone_witness_for_value_def)

lemma split_records_ok:
  assumes split: "split_of uuid asg rs n s" and ok: "records_ok uuid a db n rs" and inj: "inj uuid"
  shows "records_ok uuid a db (spl_drawn s) (spl_records s)"
proof -
  have m: "n \<le> spl_drawn s" using split by (simp add: split_of_def)
  have kept: "r \<in> set rs \<or> lvr_id r \<in> uuid ` {n..<spl_drawn s} \<and> (\<exists>source\<in>set rs.
      lvr_witness r = clone_witness_for_value (lvr_witness source) (lvr_value r))" if r: "r \<in> set (spl_records s)" for r
    using split r unfolding split_of_def by (metis atLeastLessThan_upt image_set)
  have ids: "mset (map lvr_id (spl_records s)) =
      mset (map lvr_id (filter (\<lambda>r. assigned asg r = []) rs)) + mset (map uuid [n..<spl_drawn s])"
    using split by (simp add: split_of_def)
  have "distinct (map lvr_id (spl_records s))"
  proof (rule distinct_mset_ids [OF ids])
    show "distinct (map lvr_id (filter (\<lambda>r. assigned asg r = []) rs))"
      using ok by (simp add: records_ok_def storable_def distinct_map_filter)
    show "distinct (map uuid [n..<spl_drawn s])" using inj by (auto simp: distinct_map intro: inj_on_subset)
    show "set (map lvr_id (filter (\<lambda>r. assigned asg r = []) rs)) \<inter> set (map uuid [n..<spl_drawn s]) = {}"
      using ok by (auto simp: records_ok_def) (metis image_eqI)
  qed
  moreover have "full_witness (lvr_witness r)" if r: "r \<in> set (spl_records s)" for r
    using kept [OF r] ok by (auto simp: records_ok_def storable_def full_witness_def)
  moreover have "\<forall>(k, other, _)\<in>set (wd_values db). other \<noteq> a \<longrightarrow> k \<noteq> lvr_id r" if r: "r \<in> set (spl_records s)" for r
    using kept [OF r] ok unfolding records_ok_def storable_def by (auto simp: rev_image_eqI)
  moreover have "disjoint_values (live_values (spl_records s))"
    using split ok by (intro same_coverage_disjoint [of "live_values rs" "live_values (spl_records s)"])
      (auto simp: split_of_def records_ok_def same_coverage_def live_values_def live_def list_all_iff)
  moreover have "uuid i \<notin> lvr_id ` set (spl_records s)" if i: "spl_drawn s \<le> i" for i
  proof
    assume "uuid i \<in> lvr_id ` set (spl_records s)"
    then obtain r where r: "r \<in> set (spl_records s)" "lvr_id r = uuid i" by auto
    then have "i \<in> {n..<spl_drawn s} \<or> uuid i \<in> lvr_id ` set rs" using kept [OF r(1)] inj by (auto simp: inj_eq rev_image_eqI)
    then show False using ok i m by (auto simp: records_ok_def)
  qed
  ultimately show ?thesis using split ok m unfolding records_ok_def storable_def split_of_def by auto
qed

lemma split_outgoing_ids:
  "split_records uuid asg rs n = Inr s \<Longrightarrow> set (spl_outgoing_ids s) \<subseteq> set (spl_pending_ids s)"
proof (induction rs arbitrary: n s)
  case (Cons r rs)
  show ?case
  proof (cases "sort_key vr_key (assigned asg r) = []")
    case True
    then obtain rest where "split_records uuid asg rs n = Inr rest" "s = rest\<lparr>spl_records := r # spl_records rest\<rparr>"
      using Cons.prems by (auto simp: res_bind_Inr)
    then show ?thesis using Cons.IH [of n rest] by simp
  next
    case False
    then obtain segments rest where rest: "split_records uuid asg rs (n + length segments) = Inr rest"
      and s: "s = rest\<lparr>spl_records := segment_records uuid r n segments @ spl_records rest,
             spl_pending_ids := map (\<lambda>(i, _). uuid i) (List.enumerate n segments) @ spl_pending_ids rest,
             spl_outgoing_ids := map (\<lambda>(i, _). uuid i) (filter (\<lambda>(_, _, is_outgoing). is_outgoing) (List.enumerate n segments))
               @ spl_outgoing_ids rest\<rparr>"
      using Cons.prems by (auto simp: res_bind_Inr Let_def)
    show ?thesis using Cons.IH [OF rest] by (auto simp: s)
  qed
qed auto

lemma split_pending_status:
  assumes split: "split_of uuid asg rs n s" and ok: "records_ok uuid a db n rs"
  shows "\<forall>r\<in>set (spl_records s). lvr_id r \<in> set (spl_pending_ids s) \<longrightarrow> lvr_status r = PENDING_BUNDLE"
proof (intro ballI impI)
  fix r assume r: "r \<in> set (spl_records s)" "lvr_id r \<in> set (spl_pending_ids s)"
  then obtain i where "n \<le> i" "lvr_id r = uuid i" using split by (auto simp: split_of_def)
  then have "r \<notin> set rs" using ok unfolding records_ok_def by (metis image_eqI)
  then show "lvr_status r = PENDING_BUNDLE" using split r(1) unfolding split_of_def by blast
qed

lemma bundle_of_split:
  assumes split: "split_of uuid asg rs n s" and ok: "records_ok uuid a db n rs" and inj: "inj uuid"
    and assigned: "mset (concat (map (assigned asg) rs)) = mset (pbc_outgoing_values context)"
    and ctx: "pbc_pending_ids context = spl_pending_ids s" "pbc_outgoing_ids context = spl_outgoing_ids s"
    and out_sub: "set (spl_outgoing_ids s) \<subseteq> set (spl_pending_ids s)"
  shows "bundle_ok (spl_records s) context"
    "\<forall>r\<in>set (spl_records s). lvr_id r \<in> set (spl_pending_ids s) \<longrightarrow> lvr_status r = PENDING_BUNDLE"
proof -
  have new: "records_ok uuid a db (spl_drawn s) (spl_records s)" by (rule split_records_ok [OF split ok inj])
  have distinct: "distinct (map lvr_id (spl_records s))" using new by (simp add: records_ok_def storable_def)
  obtain outs where outs: "map lvr_id outs = spl_outgoing_ids s" "mset outs \<subseteq># mset (spl_records s)"
      "mset (map lvr_value outs) = mset (concat (map (assigned asg) rs))" "mset outs \<subseteq># mset (spl_records s)"
    using split by (auto simp: split_of_def)
  have out_ids: "set (spl_outgoing_ids s) = lvr_id ` set outs" by (metis outs(1) set_map)
  have ids: "mset (map lvr_id (spl_records s)) =
      mset (map lvr_id (filter (\<lambda>r. assigned asg r = []) rs)) + mset (spl_pending_ids s)"
    using split by (simp add: split_of_def)
  then have sub: "set (spl_pending_ids s) \<subseteq> lvr_id ` set (spl_records s)"
    by (metis Un_iff list.set_map set_mset_mset set_mset_union subsetI)
  show pending: "\<forall>r\<in>set (spl_records s). lvr_id r \<in> set (spl_pending_ids s) \<longrightarrow> lvr_status r = PENDING_BUNDLE"
    by (rule split_pending_status [OF split ok])
  have "mset (filter (\<lambda>r. lvr_id r \<in> set (spl_outgoing_ids s)) (spl_records s)) = mset outs"
    using submultiset_by_key [OF distinct outs(2)] by (simp only: out_ids)
  then have "mset (map lvr_value (filter (\<lambda>r. lvr_id r \<in> set (spl_outgoing_ids s)) (spl_records s))) = mset (pbc_outgoing_values context)"
    using outs(3) assigned by (metis mset_map)
  then show "bundle_ok (spl_records s) context" using pending sub out_sub by (auto simp: bundle_ok_def ctx)
qed

lemma records_ok_later: "records_ok uuid a db n rs \<Longrightarrow> n \<le> m \<Longrightarrow> records_ok uuid a db m rs"
  by (auto simp: records_ok_def)

definition bundle_split ::
    "(nat \<Rightarrow> string) \<Rightarrow> offchain_tx list \<Rightarrow> wallet \<Rightarrow> pending_bundle_context \<Rightarrow> split_result \<Rightarrow> bool" where
  \<comment> \<open>The split cuts the wallet's records for the transactions' values, all from spendable records, and the context is about it.\<close>
  "bundle_split uuid txs w context s \<longleftrightarrow> (\<exists>asg. split_of uuid asg (wa_records w) (wa_drawn w) s \<and>
       mset (concat (map (assigned asg) (wa_records w))) = mset (pbc_outgoing_values context) \<and>
       (\<forall>r\<in>set (wa_records w). assigned asg r \<noteq> [] \<longrightarrow> lvr_status r = VERIFIED_SPENDABLE)) \<and>
     set (spl_outgoing_ids s) \<subseteq> set (spl_pending_ids s) \<and> pbc_sender context = wa_address w \<and>
     pbc_pending_ids context = spl_pending_ids s \<and> pbc_outgoing_ids context = spl_outgoing_ids s \<and>
     mset (pbc_outgoing_values context) = mset (concat (map tx_values txs))"

lemma map_sum_id_Inr: "map_sum f id r = Inr a \<longleftrightarrow> r = Inr a"
  by (cases r) simp_all

lemma prepare_bundle_context:
  "prepare_bundle C address txs p seq outgoing_values split = Inr (submission, ctx) \<Longrightarrow>
   pbc_sender ctx = address \<and> pbc_pending_ids ctx = spl_pending_ids split \<and> pbc_outgoing_ids ctx = spl_outgoing_ids split \<and>
   pbc_outgoing_values ctx = outgoing_values \<and> pbc_seq ctx = seq \<and> 0 < seq \<and> pbc_sidecar ctx = sub_sidecar submission"
  by (auto simp: prepare_bundle_def res_bind_Inr pending_bundle_context_init_def map_sum_id_Inr split: if_splits)

lemma plan_bundle_split:
  assumes plan: "plan_bundle C uuid txs p seq w = Inr (submission, ctx, s)" and ok: "wallet_ok C uuid w"
    and vals: "\<forall>tx\<in>set txs. list_all vr_ok (tx_values tx)"
  shows "bundle_split uuid txs w ctx s \<and> wallet_pending_bundles w = [] \<and> pbc_seq ctx = seq"
proof -
  let ?vs = "concat (map tx_values txs)"
  obtain outs asg where outs: "ensure_non_overlapping_targets ?vs = Inr outs"
      and asg: "assign_targets_to_records (wa_records w) outs = Inr asg"
      and s: "split_records uuid asg (wa_records w) (wa_drawn w) = Inr s"
      and prep: "prepare_bundle C (wa_address w) txs p seq outs s = Inr (submission, ctx)" and none: "wallet_pending_bundles w = []"
    using plan by (auto simp: plan_bundle_def res_bind_Inr map_sum_id_Inr split: if_splits)
  have m: "mset outs = mset ?vs"
    using outs by (auto simp: ensure_non_overlapping_targets_def Let_def split: if_splits)
  have ids: "distinct (map lvr_id (wa_records w))" using ok by (simp add: wallet_ok_def records_ok_def storable_def)
  have given: "\<forall>r\<in>set (wa_records w). \<forall>t\<in>set (assigned asg r). t \<in> set outs \<and> lvr_status r = VERIFIED_SPENDABLE"
    using assign_targets_ok(1) [OF asg ids] by blast
  then have spendable: "\<forall>r\<in>set (wa_records w). assigned asg r \<noteq> [] \<longrightarrow> lvr_status r = VERIFIED_SPENDABLE"
    by (metis last_in_set)
  have "vr_ok t" if "t \<in> set outs" for t
    using that vals mset_eq_setD [OF m] by (auto simp: list_all_iff)
  then have "split_of uuid asg (wa_records w) (wa_drawn w) s"
    using ok given spendable by (intro split_records_of [OF s]) (auto simp: wallet_ok_def records_ok_def list_all_iff)
  then have "bundle_split uuid txs w ctx s"
    unfolding bundle_split_def
    using assign_targets_ok(2) [OF asg ids] split_outgoing_ids [OF s] prepare_bundle_context [OF prep] m spendable by metis
  then show ?thesis using none prepare_bundle_context [OF prep] by simp
qed

lemma save_pending_lists:
  assumes "save_pending_bundle ctx db = Inr db'" "list_pending_bundles (pbc_sender ctx) db = []"
  shows "list_pending_bundles (pbc_sender ctx) db' = [ctx]" "wd_values db' = wd_values db" "wd_batches db' = wd_batches db"
proof -
  have none: "\<forall>((sender, _), _)\<in>set (wd_pending db). sender \<noteq> pbc_sender ctx"
    using assms(2) list_pending_bundles_iff by blast
  have d: "dict_set k v d = d @ [(k, v)]" if "k \<notin> fst ` set d" for k :: "string \<times> int" and v :: "bytes \<times> pending_bundle_context" and d
    using that by (induction d) auto
  have absent: "(pbc_sender ctx, pbc_seq ctx) \<notin> fst ` set (wd_pending db)" using none by auto
  have db': "db' = db\<lparr>wd_pending := wd_pending db @ [((pbc_sender ctx, pbc_seq ctx), pbc_bundle_hash ctx, ctx)]\<rparr>"
    using assms(1) d [OF absent] by (simp add: save_pending_bundle_def Let_def split: if_splits)
  have "filter (\<lambda>((sender, _), _). sender = pbc_sender ctx) (wd_pending db) = []"
    using none by (auto simp: filter_empty_conv)
  then show "list_pending_bundles (pbc_sender ctx) db' = [ctx]" by (simp add: db' list_pending_bundles_def)
  show "wd_values db' = wd_values db" "wd_batches db' = wd_batches db" by (simp_all add: db')
qed

lemma build_bundle_cases:
  assumes C: "digests32 C" and inj: "inj uuid" and ok: "wallet_ok C uuid w" and vals: "\<forall>tx\<in>set txs. list_all vr_ok (tx_values tx)"
  obtains (raised) e w' where "build_bundle C uuid txs p seq w = (Inl e, w')" "wallet_ok C uuid w'" "wa_records w' = wa_records w"
      "wallet_pending_bundles w' = wallet_pending_bundles w" "wa_address w' = wa_address w"
      "plan_bundle C uuid txs p seq w = Inl e \<or> wd_pending (wa_db w) \<noteq> []"
    | (built) submission ctx s w' where "build_bundle C uuid txs p seq w = (Inr (submission, ctx), w')" "wallet_ok C uuid w'"
      "bundle_split uuid txs w ctx s" "wa_records w' = sort_key value_row_key (spl_records s)"
      "wallet_pending_bundles w = []" "wallet_pending_bundles w' = [ctx]" "wa_address w' = wa_address w" "pbc_seq ctx = seq"
      "get_pending_bundle (wa_address w) seq (wa_db w') = Some ctx" "same_history (wa_db w) (wa_db w')"
proof (cases "plan_bundle C uuid txs p seq w")
  case (Inl e)
  then show ?thesis using raised ok by (simp add: build_bundle_def)
next
  case (Inr planned)
  obtain submission ctx s where plan: "plan_bundle C uuid txs p seq w = Inr (submission, ctx, s)"
    using Inr by (metis prod.exhaust)
  note b = plan_bundle_split [OF plan ok vals]
  let ?w = "w\<lparr>wa_drawn := spl_drawn s, wa_db := snd (save_sidecar C (sub_sidecar submission) (wa_db w))\<rparr>"
  have later: "wa_drawn w \<le> spl_drawn s" using b by (auto simp: bundle_split_def split_of_def)
  have same: "same_rows (wa_db w) (wa_db ?w)" by (simp add: same_rows_def save_sidecar_def Let_def)
  have ok': "wallet_ok C uuid ?w"
    using ok records_ok_later [OF _ later] by (simp add: wallet_ok_def same_rows_reads [OF same [simplified]] wallet_pending_bundles_def)
  have none: "wallet_pending_bundles ?w = []" using b by (simp add: wallet_pending_bundles_def same_rows_reads [OF same [simplified]])
  show ?thesis
  proof (cases "save_pending_bundle ctx (wa_db ?w)")
    case (Inl e)
    then have "build_bundle C uuid txs p seq w = (Inl (DbProblem e), ?w)" by (simp add: build_bundle_def plan db_do_def)
    moreover have "wd_pending (wa_db w) \<noteq> []"
      using Inl same by (auto simp: save_pending_bundle_def same_rows_def Let_def split: if_splits)
    ultimately show ?thesis using raised ok' none b by simp
  next
    case saved: (Inr db)
    have sender: "pbc_sender ctx = wa_address w" using b by (simp add: bundle_split_def)
    have "list_pending_bundles (pbc_sender ctx) (wa_db ?w) = []" using none sender by (simp add: wallet_pending_bundles_def)
    note pend = save_pending_lists [OF saved this]
    obtain asg where split: "split_of uuid asg (wa_records w) (wa_drawn w) s"
        "mset (concat (map (assigned asg) (wa_records w))) = mset (pbc_outgoing_values ctx)"
      using b by (auto simp: bundle_split_def)
    have "records_ok uuid (wa_address w) (wa_db w) (wa_drawn w) (wa_records w)" using ok by (simp add: wallet_ok_def)
    note new = split_records_ok [OF split(1) this inj] and held = bundle_of_split(1) [OF split(1) this inj split(2)]
    let ?w1 = "?w\<lparr>wa_db := db\<rparr>"
    have "bundle_ok (spl_records s) ctx" using b by (intro held) (simp_all add: bundle_split_def)
    moreover have pend1: "wallet_pending_bundles ?w1 = [ctx]" using pend(1) sender by (simp add: wallet_pending_bundles_def)
    ultimately have p1: "pending_ok (spl_records s) (wallet_pending_bundles ?w1)" by simp
    have recs: "records_ok uuid (wa_address ?w1) (wa_db ?w1) (wa_drawn ?w1) (spl_records s)"
      using new records_ok_cong [of db "wa_db w"] pend(2) same by (simp add: same_rows_def)
    have bat: "batches_ok (wa_db ?w1)"
      using ok pend(3) same by (simp add: wallet_ok_def batches_ok_def same_rows_def)
    obtain w' where w': "persist_records C (spl_records s) ?w1 = (Inr (), w')" "wallet_ok C uuid w'"
        "wa_records w' = sort_key value_row_key (spl_records s)" "wallet_pending_bundles w' = wallet_pending_bundles ?w1"
        "wa_address w' = wa_address ?w1" "wd_pending (wa_db w') = wd_pending (wa_db ?w1)" "same_history (wa_db ?w1) (wa_db w')"
      by (rule commit_ok [OF C bat recs p1]) blast
    have "get_pending_bundle (wa_address w) seq (wa_db w') = Some ctx"
      using saved w'(6) sender b by (auto simp: save_pending_bundle_def get_pending_bundle_def Let_def dict_simps split: if_splits)
    moreover have "same_history (wa_db w) (wa_db w')"
      using saved w'(7) by (auto simp: save_pending_bundle_def same_history_def save_sidecar_def Let_def split: if_splits)
    moreover have "build_bundle C uuid txs p seq w = (Inr (submission, ctx), w')"
      using saved w'(1) by (simp add: build_bundle_def plan db_do_def)
    ultimately show ?thesis using built [of submission ctx w' s] w'(2-5) b pend1 by simp
  qed
qed

subsection \<open>Confirming and rolling back\<close>

lemma pending_found:
  assumes "pending_ok rs (list_pending_bundles a db)" "get_pending_bundle a seq db = Some ctx"
  shows "list_pending_bundles a db = [ctx]" "bundle_ok rs ctx" "list_pending_bundles a (delete_pending_bundle a seq db) = []"
proof -
  let ?own = "filter (\<lambda>((sender, _), _). sender = a) (wd_pending db)"
  have len: "length ?own \<le> 1"
  proof -
    have "length (list_pending_bundles a db) = length ?own" by (simp add: list_pending_bundles_def)
    moreover have "length (list_pending_bundles a db) \<le> 1"
      using assms(1) by (cases "(rs, list_pending_bundles a db)" rule: pending_ok.cases) simp_all
    ultimately show ?thesis by simp
  qed
  obtain h where "((a, seq), h, ctx) \<in> set (wd_pending db)"
    using assms(2) by (auto simp: get_pending_bundle_def dest!: map_of_SomeD)
  then have "((a, seq), h, ctx) \<in> set ?own" by simp
  then have own: "?own = [((a, seq), h, ctx)]"
    using len by (cases ?own) (auto simp: length_Suc_conv le_Suc_eq)
  then show pend: "list_pending_bundles a db = [ctx]" by (simp add: list_pending_bundles_def)
  show "bundle_ok rs ctx" using assms(1) by (simp add: pend)
  have "filter (\<lambda>((sender, _), _). sender = a) (dict_pop (a, seq) (wd_pending db)) = filter (\<lambda>(k, _). k \<noteq> (a, seq)) ?own"
    by (simp add: AList.delete_eq split_def conj_commute eq_commute)
  then show "list_pending_bundles a (delete_pending_bundle a seq db) = []"
    by (simp add: own delete_pending_bundle_def list_pending_bundles_def)
qed

lemma delete_keeps [simp]:
  "wd_values (delete_pending_bundle a seq db) = wd_values db" "wd_batches (delete_pending_bundle a seq db) = wd_batches db"
  by (simp_all add: delete_pending_bundle_def)

lemma records_ok_map:
  assumes "records_ok uuid a db n rs" "\<And>r. r \<in> set rs \<Longrightarrow> lvr_id (f r) = lvr_id r \<and> lvr_value (f r) = lvr_value r"
    "\<And>r. r \<in> set rs \<Longrightarrow> full_witness (lvr_witness (f r))" "disjoint_values (live_values (map f rs))"
  shows "records_ok uuid a db n (map f rs)"
proof -
  have maps: "map lvr_id (map f rs) = map lvr_id rs" "map lvr_value (map f rs) = map lvr_value rs" using assms(2) by simp_all
  then have ids: "lvr_id ` set (map f rs) = lvr_id ` set rs" by (metis list.set_map)
  show ?thesis using assms unfolding records_ok_def storable_def maps ids by (auto simp: assms(2))
qed

lemma rollback_ok:
  assumes C: "digests32 C" and ok: "wallet_ok C uuid w" and found: "get_pending_bundle (wa_address w) seq (wa_db w) = Some ctx"
  obtains w' where "rollback_pending_bundle C seq w = (Inr ctx, w')" "wallet_ok C uuid w'" "wallet_pending_bundles w' = []"
    "wa_address w' = wa_address w"
    "wa_records w' = sort_key value_row_key (map (\<lambda>r. if lvr_id r \<in> set (pbc_pending_ids ctx) then r\<lparr>lvr_status := VERIFIED_SPENDABLE\<rparr> else r) (wa_records w))"
proof -
  let ?f = "\<lambda>r. if lvr_id r \<in> set (pbc_pending_ids ctx) then r\<lparr>lvr_status := VERIFIED_SPENDABLE\<rparr> else r"
  let ?rs = "wa_records w" and ?w = "w\<lparr>wa_db := delete_pending_bundle (wa_address w) seq (wa_db w)\<rparr>"
  have pend: "pending_ok ?rs (list_pending_bundles (wa_address w) (wa_db w))"
    using ok by (simp add: wallet_ok_def wallet_pending_bundles_def)
  note found' = pending_found [OF pend found]
  have recs: "records_ok uuid (wa_address w) (wa_db w) (wa_drawn w) ?rs" using ok by (simp add: wallet_ok_def)
  have "live_values (map ?f rs) = live_values rs" if "set rs \<subseteq> set ?rs" for rs
    using that found'(2) by (induction rs) (auto simp: bundle_ok_def)
  then have "live_values (map ?f ?rs) = live_values ?rs" by simp
  then have "records_ok uuid (wa_address w) (wa_db w) (wa_drawn w) (map ?f ?rs)"
    using recs by (intro records_ok_map) (simp_all add: records_ok_def storable_def)
  then have r: "records_ok uuid (wa_address ?w) (wa_db ?w) (wa_drawn ?w) (map ?f ?rs)"
    using records_ok_cong [of "wa_db w" "delete_pending_bundle (wa_address w) seq (wa_db w)"] by simp
  have b: "batches_ok (wa_db ?w)" using ok by (simp add: wallet_ok_def batches_ok_def)
  have none: "wallet_pending_bundles ?w = []" using found'(3) by (simp add: wallet_pending_bundles_def)
  have p: "pending_ok (map ?f ?rs) (wallet_pending_bundles ?w)" by (simp add: none)
  obtain w' where w': "persist_records C (map ?f ?rs) ?w = (Inr (), w')" "wallet_ok C uuid w'"
      "wa_records w' = sort_key value_row_key (map ?f ?rs)" "wallet_pending_bundles w' = wallet_pending_bundles ?w"
      "wa_address w' = wa_address ?w"
    by (rule commit_ok [OF C b r p]) blast
  have "rollback_pending_bundle C seq w = (Inr ctx, w')"
    using found w'(1) by (simp add: rollback_pending_bundle_def)
  then show ?thesis using that w'(2-5) none by simp
qed

definition confirmed ::
    "confirmed_unit \<Rightarrow> string list \<Rightarrow> string list \<Rightarrow> local_value_record \<Rightarrow> local_value_record" where
  \<comment> \<open>What a confirmed unit without outgoing values of its own does to one record\<close>
  "confirmed unit pending_ids outgoing_ids r =
     (let appended = append_confirmed_unit (lvr_witness r) (lvr_value r) unit
      in if lvr_status r = ARCHIVED then r
         else if lvr_id r \<in> set pending_ids then
           r\<lparr>lvr_witness := appended, lvr_status := (if lvr_id r \<in> set outgoing_ids then ARCHIVED else VERIFIED_SPENDABLE)\<rparr>
         else if lvr_status r = PENDING_BUNDLE \<or> lvr_height r \<ge> hl_height (rc_header (cu_receipt unit)) then r
         else r\<lparr>lvr_witness := appended, lvr_status := VERIFIED_SPENDABLE\<rparr>)"

lemma confirm_records_map:
  "confirm_records uuid a unit [] pending_ids outgoing_ids rs n = Inr (map (confirmed unit pending_ids outgoing_ids) rs, n)"
  by (induction rs) (simp_all add: confirm_record_def confirmed_def Let_def)

lemma confirmed_keeps [simp]:
  "lvr_id (confirmed unit ps os r) = lvr_id r" "lvr_value (confirmed unit ps os r) = lvr_value r"
  by (simp_all add: confirmed_def Let_def)

lemma witness_units_append [simp]: "witness_units (append_confirmed_unit w v unit) = unit # witness_units w"
  by (cases w) (simp add: append_confirmed_unit_def)

lemma confirmed_full:
  "full_receipt (cu_receipt unit) \<Longrightarrow> full_witness (lvr_witness r) \<Longrightarrow> full_witness (lvr_witness (confirmed unit ps os r))"
  by (simp add: confirmed_def Let_def full_witness_def)

lemma confirmed_live:
  assumes "bundle_ok rs ctx"
  shows "mset (live_values (map (confirmed unit (pbc_pending_ids ctx) (pbc_outgoing_ids ctx)) rs)) + mset (pbc_outgoing_values ctx) =
    mset (live_values rs)"
proof -
  let ?f = "confirmed unit (pbc_pending_ids ctx) (pbc_outgoing_ids ctx)" and ?out = "set (pbc_outgoing_ids ctx)"
  have "mset (live_values (map ?f ss)) + mset (map lvr_value (filter (\<lambda>r. lvr_id r \<in> ?out) ss)) = mset (live_values ss)"
    if "set ss \<subseteq> set rs" for ss
    using that
  proof (induction ss)
    case (Cons r ss)
    have "lvr_id r \<in> ?out \<longrightarrow> lvr_status r \<noteq> ARCHIVED \<and> lvr_id r \<in> set (pbc_pending_ids ctx)"
      using assms Cons.prems by (auto simp: bundle_ok_def)
    then have "lvr_status (?f r) = ARCHIVED \<longleftrightarrow> lvr_status r = ARCHIVED \<or> lvr_id r \<in> ?out"
      by (auto simp: confirmed_def Let_def)
    then show ?case
      using Cons \<open>lvr_id r \<in> ?out \<longrightarrow> _\<close> by auto
  qed simp
  from this [of rs] show ?thesis using assms by (simp add: bundle_ok_def)
qed

lemma disjoint_values_part: "mset vs + mset ws = mset us \<Longrightarrow> disjoint_values us \<Longrightarrow> disjoint_values vs"
  using disjoint_values_mset [of "vs @ ws" us] by (simp add: disjoint_values_def sorted_wrt_append)

lemma check_receipt_found:
  assumes "check_receipt C r w = Inr ctx"
  shows "get_pending_bundle (wa_address w) (rc_seq r) (wa_db w) = Some ctx" "rc_proof r \<noteq> None"
    "knows_canonical_header (rc_header r) w"
    "\<exists>proof. rc_proof r = Some proof \<and> verify_proof C (hl_state_root (rc_header r)) (compute_addr_key C (wa_address w))
        (hash_account_leaf C (reconstructed_leaf C \<lparr>cu_receipt = r, cu_sidecar = pbc_sidecar ctx\<rparr>)) proof 256"
  using assms by (auto simp: check_receipt_def Let_def res_bind_Inr split: option.splits if_splits)

lemma db_do_cases:
  obtains (failed) e where "db_do f w = (Inl (DbProblem e), w)" "f (wa_db w) = Inl e"
    | (committed) db where "db_do f w = (Inr (), w\<lparr>wa_db := db\<rparr>)" "f (wa_db w) = Inr db"
  by (cases "f (wa_db w)") (simp_all add: db_do_def)

lemma save_receipt_rows: "save_receipt C a r h db = Inr db' \<Longrightarrow> same_rows db db'"
  by (auto simp: save_receipt_def same_rows_def res_bind_Inr Let_def split: if_splits)

lemma save_unit_rows: "save_confirmed_unit C unit db = Inr db' \<Longrightarrow> same_rows db db'"
  by (auto simp: save_confirmed_unit_def same_rows_def res_bind_Inr Let_def)

lemma commit_confirmed:
  assumes C: "digests32 C" and ok: "wallet_ok C uuid w" and full: "full_receipt (cu_receipt unit)"
    and found: "get_pending_bundle (wa_address w) seq (wa_db w) = Some ctx"
  obtains w' where "persist_records C (map (confirmed unit (pbc_pending_ids ctx) (pbc_outgoing_ids ctx)) (wa_records w))
      (w\<lparr>wa_db := delete_pending_bundle (wa_address w) seq (wa_db w)\<rparr>) = (Inr (), w')" "wallet_ok C uuid w'"
    "wa_records w' = sort_key value_row_key (map (confirmed unit (pbc_pending_ids ctx) (pbc_outgoing_ids ctx)) (wa_records w))"
    "wallet_pending_bundles w' = []" "wa_address w' = wa_address w" "same_history (wa_db w) (wa_db w')"
proof -
  let ?f = "confirmed unit (pbc_pending_ids ctx) (pbc_outgoing_ids ctx)"
  let ?rs = "wa_records w" and ?w = "w\<lparr>wa_db := delete_pending_bundle (wa_address w) seq (wa_db w)\<rparr>"
  have pend: "pending_ok ?rs (list_pending_bundles (wa_address w) (wa_db w))"
    using ok by (simp add: wallet_ok_def wallet_pending_bundles_def)
  note found' = pending_found [OF pend found]
  have recs: "records_ok uuid (wa_address w) (wa_db w) (wa_drawn w) ?rs" using ok by (simp add: wallet_ok_def)
  have "disjoint_values (live_values (map ?f ?rs))"
    by (rule disjoint_values_part [OF confirmed_live [OF found'(2)]]) (use recs in \<open>simp add: records_ok_def\<close>)
  then have "records_ok uuid (wa_address w) (wa_db w) (wa_drawn w) (map ?f ?rs)"
    using recs by (intro records_ok_map) (simp_all add: records_ok_def storable_def confirmed_full [OF full])
  then have r: "records_ok uuid (wa_address ?w) (wa_db ?w) (wa_drawn ?w) (map ?f ?rs)"
    using records_ok_cong [of "wa_db w" "delete_pending_bundle (wa_address w) seq (wa_db w)"] by simp
  have b: "batches_ok (wa_db ?w)" using ok by (simp add: wallet_ok_def batches_ok_def)
  have none: "wallet_pending_bundles ?w = []" using found'(3) by (simp add: wallet_pending_bundles_def)
  have p: "pending_ok (map ?f ?rs) (wallet_pending_bundles ?w)" by (simp add: none)
  obtain w' where w': "persist_records C (map ?f ?rs) ?w = (Inr (), w')" "wallet_ok C uuid w'"
      "wa_records w' = sort_key value_row_key (map ?f ?rs)" "wallet_pending_bundles w' = wallet_pending_bundles ?w"
      "wa_address w' = wa_address ?w" "same_history (wa_db ?w) (wa_db w')"
    by (rule commit_ok [OF C b r p]) blast
  then show ?thesis using that none by (simp add: same_history_def delete_pending_bundle_def)
qed

definition receipt_clash :: "string \<Rightarrow> receipt \<Rightarrow> bytes \<Rightarrow> wallet_db \<Rightarrow> bool" where
  \<comment> \<open>Another row of the table has the reference key under which the receipt is to be saved.\<close>
  "receipt_clash address r bundle_hash db \<longleftrightarrow> (\<exists>(k, key, _)\<in>set (wd_receipts db). k \<noteq> (address, rc_seq r) \<and>
     key = bundle_ref_key_from_fields (hl_height (rc_header r)) (hl_block_hash (rc_header r)) bundle_hash (rc_seq r))"

lemma save_receipt_total:
  assumes "digests32 C" "batches_ok db" "full_receipt r" "\<not> receipt_clash a r h db"
  obtains db' where "save_receipt C a r h db = Inr db'"
  using compact_receipt_roundtrip [OF assms(1-3), of a "batch_id_of (rc_header r)"] assms(4) that
  by (fastforce simp: save_receipt_def Let_def receipt_clash_def)

lemma save_unit_total:
  assumes "digests32 C" "batches_ok db" "full_receipt (cu_receipt unit)"
  obtains db' where "save_confirmed_unit C unit db = Inr db'"
  using compact_unit_roundtrip [OF assms, of "batch_id_of (rc_header (cu_receipt unit))"] that
  by (fastforce simp: save_confirmed_unit_def Let_def)

lemma on_receipt_confirmed_cases:
  assumes C: "digests32 C" and ok: "wallet_ok C uuid w" and r: "receipt_init r = Inr r"
  obtains (raised) e w' where "on_receipt_confirmed C uuid r w = (Inl e, w')" "wallet_ok C uuid w'" "wa_records w' = wa_records w"
      "wallet_pending_bundles w' = wallet_pending_bundles w" "wa_address w' = wa_address w"
      "check_receipt C r w = Inl e \<or>
         (\<exists>ctx. check_receipt C r w = Inr ctx \<and> receipt_clash (wa_address w) r (pbc_bundle_hash ctx) (wa_db w))"
    | (confirmed) ctx unit w' where "on_receipt_confirmed C uuid r w = (Inr unit, w')" "check_receipt C r w = Inr ctx"
      "unit = \<lparr>cu_receipt = r, cu_sidecar = pbc_sidecar ctx\<rparr>" "wallet_ok C uuid w'"
      "wa_records w' = sort_key value_row_key (map (confirmed unit (pbc_pending_ids ctx) (pbc_outgoing_ids ctx)) (wa_records w))"
      "wallet_pending_bundles w = [ctx]" "bundle_ok (wa_records w) ctx" "wallet_pending_bundles w' = []" "wa_address w' = wa_address w"
      "\<exists>db1 db2. save_receipt C (wa_address w) r (pbc_bundle_hash ctx) (wa_db w) = Inr db1 \<and> save_confirmed_unit C unit db1 = Inr db2 \<and>
         same_history db2 (wa_db w')"
proof (cases "check_receipt C r w")
  case (Inl e)
  then show ?thesis using raised ok by (simp add: on_receipt_confirmed_def)
next
  case (Inr ctx)
  let ?unit = "\<lparr>cu_receipt = r, cu_sidecar = pbc_sidecar ctx\<rparr>"
  let ?rs = "map (Wallet_Safety.confirmed ?unit (pbc_pending_ids ctx) (pbc_outgoing_ids ctx)) (wa_records w)"
  note found = check_receipt_found [OF Inr]
  have full: "full_receipt (cu_receipt ?unit)" using r found(2) by (simp add: full_receipt_def)
  have pend: "pending_ok (wa_records w) (list_pending_bundles (wa_address w) (wa_db w))"
    using ok by (simp add: wallet_ok_def wallet_pending_bundles_def)
  have applied: "apply_confirmed_unit_to_records uuid ?unit [] (pbc_pending_ids ctx) (pbc_outgoing_ids ctx) w = Inr (?rs, wa_drawn w)"
    by (simp add: apply_confirmed_unit_to_records_def confirm_records_map)
  show ?thesis
  proof (cases rule: db_do_cases [of "save_receipt C (wa_address w) r (pbc_bundle_hash ctx)" w])
    case (failed e)
    moreover have "receipt_clash (wa_address w) r (pbc_bundle_hash ctx) (wa_db w)"
      using save_receipt_total [OF C _ full] ok failed(2) by (metis Inl_Inr_False confirmed_unit.select_convs(1) wallet_ok_def)
    ultimately show ?thesis using raised ok by (simp add: on_receipt_confirmed_def Inr applied)
  next
    case saved: (committed db1)
    have ok1: "wallet_ok C uuid (w\<lparr>wa_db := db1\<rparr>)" using wallet_ok_same_rows [OF ok save_receipt_rows [OF saved(2)]] .
    show ?thesis
    proof (cases rule: db_do_cases [of "save_confirmed_unit C ?unit" "w\<lparr>wa_db := db1\<rparr>"])
      case (failed e)
      have "batches_ok db1" using ok1 by (simp add: wallet_ok_def)
      then show ?thesis using save_unit_total [OF C _ full] failed(2) by force
    next
      case unit: (committed db2)
      have same: "same_rows (wa_db w) db2" using save_receipt_rows [OF saved(2)] save_unit_rows [OF unit(2)] by (simp add: same_rows_def)
      have ok2: "wallet_ok C uuid (w\<lparr>wa_db := db2\<rparr>)" using wallet_ok_same_rows [OF ok same] .
      have found2: "get_pending_bundle (wa_address (w\<lparr>wa_db := db2\<rparr>)) (rc_seq r) (wa_db (w\<lparr>wa_db := db2\<rparr>)) = Some ctx"
        using found(1) same_rows_reads(5) [OF same] by simp
      obtain w' where w': "persist_records C ?rs (w\<lparr>wa_db := delete_pending_bundle (wa_address w) (rc_seq r) db2\<rparr>) = (Inr (), w')"
          "wallet_ok C uuid w'" "wa_records w' = sort_key value_row_key ?rs" "wallet_pending_bundles w' = []" "wa_address w' = wa_address w"
          "same_history db2 (wa_db w')"
        by (rule commit_confirmed [OF C ok2 full found2]) simp
      have "on_receipt_confirmed C uuid r w = (Inr ?unit, w')"
        using saved unit w'(1) by (simp add: on_receipt_confirmed_def Inr applied)
      then show ?thesis
        using confirmed [OF _ Inr refl] w'(2-6) saved(2) unit(2) pending_found(1,2) [OF pend found(1)]
        by (simp add: wallet_pending_bundles_def)
    qed
  qed
qed

end
