(* ===== verification/Wallet_Money.thy ===== *)
theory Wallet_Money
  imports Wallet_Safety
begin

section \<open>What the wallet's operations do to its money\<close>

text \<open>
  The properties of the wallet: a bundle reserves the values it sends and changes no balance, a rollback gives
  back every balance, a confirmed receipt takes away exactly the values sent, a payment moves exactly its amount,
  and the invariant of the wallet holds in every state its operations can reach.
\<close>

lemma total_balance_sorted: "wa_records w = sort_key k rs \<Longrightarrow> total_balance w = total_size (live_values rs)"
proof -
  assume r: "wa_records w = sort_key k rs"
  have "mset (live_values (sort_key k rs)) = mset (live_values rs)" by (simp add: live_values_def live_def)
  then show ?thesis unfolding total_balance_eq r by (rule total_size_mset)
qed

lemma status_size_mset: "mset rs = mset ss \<Longrightarrow> status_size rs s = status_size ss s"
  unfolding status_size_def by (intro total_size_mset) simp

lemma units_sorted: "units (live_values (sort_key k rs)) = units (live_values rs)"
  by (auto simp: units_def live_values_def live_def)

subsection \<open>Building and confirming\<close>

lemma built_money:
  assumes "digests32 C" "inj uuid" "wallet_ok C uuid w" "\<forall>tx\<in>set txs. list_all vr_ok (tx_values tx)"
    "build_bundle C uuid txs p seq w = (Inr (submission, ctx), w')"
  shows "wallet_ok C uuid w'" "wallet_pending_bundles w' = [ctx]" "mset (pbc_outgoing_values ctx) = mset (concat (map tx_values txs))"
    "total_balance w' = total_balance w" "units (live_values (wa_records w')) = units (live_values (wa_records w))"
    "\<forall>r\<in>set (wa_records w'). lvr_id r \<in> set (pbc_pending_ids ctx) \<longrightarrow> lvr_status r = PENDING_BUNDLE"
proof -
  from assms(1-4) obtain s where built: "bundle_split uuid txs w ctx s" "wa_records w' = sort_key value_row_key (spl_records s)"
      "wallet_ok C uuid w'" "wallet_pending_bundles w' = [ctx]"
    by (cases rule: build_bundle_cases [of C uuid w txs p seq]) (use assms(5) in simp_all)
  then obtain asg where split: "split_of uuid asg (wa_records w) (wa_drawn w) s" and ids: "pbc_pending_ids ctx = spl_pending_ids s"
    by (auto simp: bundle_split_def)
  have ok: "records_ok uuid (wa_address w) (wa_db w) (wa_drawn w) (wa_records w)" using assms(3) by (simp add: wallet_ok_def)
  have cov: "same_coverage (live_values (spl_records s)) (live_values (wa_records w))" using split by (simp add: split_of_def)
  show "wallet_ok C uuid w'" "wallet_pending_bundles w' = [ctx]" by (rule built)+
  show "mset (pbc_outgoing_values ctx) = mset (concat (map tx_values txs))" using built(1) by (simp add: bundle_split_def)
  show "total_balance w' = total_balance w" "units (live_values (wa_records w')) = units (live_values (wa_records w))"
    using cov total_balance_sorted [OF built(2)] by (simp_all add: built(2) same_coverage_def total_balance_eq units_sorted)
  show "\<forall>r\<in>set (wa_records w'). lvr_id r \<in> set (pbc_pending_ids ctx) \<longrightarrow> lvr_status r = PENDING_BUNDLE"
    using split_pending_status [OF split ok] by (simp add: built(2) ids)
qed

text \<open>Building a bundle moves nothing. With distinct drawn ids, a bundle that is built leaves the wallet's invariant in force,
  keeps the units the wallet owns and its total balance, and is its one pending bundle; its outgoing values are the values of the
  given transactions, and exactly one pending record holds each of them.\<close>

theorem bundle_reserves_values:
  assumes "digests32 C" "inj uuid" "wallet_ok C uuid w" "\<forall>tx\<in>set txs. list_all vr_ok (tx_values tx)"
    "build_bundle C uuid txs p seq w = (Inr (submission, ctx), w')"
  shows "wallet_ok C uuid w' \<and> total_balance w' = total_balance w \<and>
    units (live_values (wa_records w')) = units (live_values (wa_records w)) \<and> wallet_pending_bundles w' = [ctx] \<and>
    mset (map lvr_value (filter (\<lambda>r. lvr_id r \<in> set (pbc_outgoing_ids ctx) \<and> lvr_status r = PENDING_BUNDLE) (wa_records w'))) =
      mset (concat (map tx_values txs))"
proof -
  note built = built_money [OF assms]
  have held: "bundle_ok (wa_records w') ctx" using built(1,2) by (simp add: wallet_ok_def)
  have "filter (\<lambda>r. lvr_id r \<in> set (pbc_outgoing_ids ctx) \<and> lvr_status r = PENDING_BUNDLE) (wa_records w') =
      filter (\<lambda>r. lvr_id r \<in> set (pbc_outgoing_ids ctx)) (wa_records w')"
    using built(6) held by (intro filter_cong) (auto simp: bundle_ok_def)
  then show ?thesis using built held by (simp add: bundle_ok_def)
qed

lemma confirmed_money:
  assumes "digests32 C" "wallet_ok C uuid w" "receipt_init r = Inr r" "on_receipt_confirmed C uuid r w = (Inr unit, w')"
  obtains ctx where "check_receipt C r w = Inr ctx" "unit = \<lparr>cu_receipt = r, cu_sidecar = pbc_sidecar ctx\<rparr>" "wallet_ok C uuid w'"
    "wallet_pending_bundles w = [ctx]" "wallet_pending_bundles w' = []"
    "mset (live_values (wa_records w)) = mset (live_values (wa_records w') @ pbc_outgoing_values ctx)"
    "total_balance w = total_balance w' + total_size (pbc_outgoing_values ctx)"
proof -
  from assms(1-3) obtain ctx where ctx: "check_receipt C r w = Inr ctx" "unit = \<lparr>cu_receipt = r, cu_sidecar = pbc_sidecar ctx\<rparr>"
      "wallet_ok C uuid w'" "wallet_pending_bundles w = [ctx]" "bundle_ok (wa_records w) ctx" "wallet_pending_bundles w' = []"
      "wa_records w' = sort_key value_row_key (map (confirmed unit (pbc_pending_ids ctx) (pbc_outgoing_ids ctx)) (wa_records w))"
    by (cases rule: on_receipt_confirmed_cases [of C uuid w r]) (use assms(4) in simp_all)
  have live: "mset (live_values (wa_records w)) = mset (live_values (wa_records w') @ pbc_outgoing_values ctx)"
    using confirmed_live [OF ctx(5), of unit] by (simp add: ctx(7) live_values_def live_def)
  moreover from this have "total_balance w = total_balance w' + total_size (pbc_outgoing_values ctx)"
    unfolding total_balance_eq total_size_simps(3) [symmetric] by (rule total_size_mset)
  ultimately show ?thesis using that ctx(1-4,6) by blast
qed

text \<open>C14. A confirmed receipt spends exactly what was sent. When the receipt of the pending bundle is accepted, its header is one the
  wallet has seen in the chain and its proof verifies there; the values still owned before are those owned after plus the
  bundle's outgoing values, the total balance falls by their size, nothing is pending any more and the invariant stays in force.\<close>

theorem confirmation_spends_exactly:
  assumes "digests32 C" "wallet_ok C uuid w" "receipt_init r = Inr r" "on_receipt_confirmed C uuid r w = (Inr unit, w')"
  shows "wallet_ok C uuid w' \<and> wallet_pending_bundles w' = [] \<and> knows_canonical_header (rc_header r) w \<and>
    (\<exists>ctx proof. wallet_pending_bundles w = [ctx] \<and> unit = \<lparr>cu_receipt = r, cu_sidecar = pbc_sidecar ctx\<rparr> \<and> rc_proof r = Some proof \<and>
       verify_proof C (hl_state_root (rc_header r)) (compute_addr_key C (wa_address w))
         (hash_account_leaf C (reconstructed_leaf C unit)) proof 256 \<and>
       mset (live_values (wa_records w)) = mset (live_values (wa_records w') @ pbc_outgoing_values ctx) \<and>
       total_balance w = total_balance w' + total_size (pbc_outgoing_values ctx))"
  by (rule confirmed_money [OF assms]) (use check_receipt_found(3,4) in metis)

subsection \<open>Rolling back\<close>

lemma unassigned_kept:
  assumes split: "split_of uuid asg rs n s" and ok: "records_ok uuid a db n rs" and inj: "inj uuid"
  shows "mset (filter (\<lambda>r. lvr_id r \<notin> set (spl_pending_ids s)) (spl_records s)) = mset (filter (\<lambda>r. assigned asg r = []) rs)"
    (is "mset ?new = mset ?old")
proof -
  have d: "distinct (map lvr_id (spl_records s))" "distinct (map lvr_id rs)"
    using split_records_ok [OF split ok inj] ok by (simp_all add: records_ok_def storable_def)
  have pend: "set (spl_pending_ids s) = uuid ` {n..<spl_drawn s}" using split by (simp add: split_of_def)
  have ids: "mset (map lvr_id (spl_records s)) = mset (map lvr_id ?old) + mset (map uuid [n..<spl_drawn s])"
    using split by (simp add: split_of_def)
  then have sets: "lvr_id ` set (spl_records s) = lvr_id ` set ?old \<union> uuid ` {n..<spl_drawn s}"
    by (metis list.set_map set_mset_mset set_mset_union set_upt)
  have sub: "set ?new \<subseteq> set ?old" using split unfolding split_of_def by auto
  have "set ?old \<subseteq> set ?new"
  proof
    fix r assume r: "r \<in> set ?old"
    then have "lvr_id r \<in> lvr_id ` set (spl_records s)" using sets by blast
    then obtain r' where r': "r' \<in> set (spl_records s)" "lvr_id r' = lvr_id r" by (metis imageE)
    have "\<forall>i\<ge>n. uuid i \<noteq> lvr_id r" using ok r by (auto simp: records_ok_def)
    then have "lvr_id r' \<notin> set (spl_pending_ids s)" using r' pend by auto
    then have new: "r' \<in> set ?new" using r' by simp
    then have "r' \<in> set ?old" using sub by blast
    then show "r \<in> set ?new" using new r r'(2) d(2) by (auto simp: distinct_map dest: inj_onD)
  qed
  then have same: "set ?new = set ?old" using sub by blast
  have "distinct ?new" "distinct ?old" using d by (simp_all add: distinct_map)
  then show ?thesis using same set_eq_iff_mset_eq_distinct [of ?new ?old] by blast
qed

lemma total_by_status: "total_size (live_values rs) = sum_list (map (status_size rs) (filter (\<lambda>s. s \<noteq> ARCHIVED) all_statuses))"
proof (induction rs)
  case (Cons r rs)
  then show ?case by (cases "lvr_status r") (simp_all add: status_size_def all_statuses_def)
qed (simp add: status_size_def all_statuses_def)

lemma status_size_part: "(\<forall>r\<in>set rs. lvr_status r = s \<longrightarrow> P r) \<Longrightarrow> status_size (filter P rs) s = status_size rs s"
  by (induction rs) (auto simp: status_size_def)

lemma status_size_respent:
  "t \<noteq> VERIFIED_SPENDABLE \<Longrightarrow>
   status_size (map (\<lambda>r. if P r then r\<lparr>lvr_status := VERIFIED_SPENDABLE\<rparr> else r) rs) t = status_size (filter (\<lambda>r. \<not> P r) rs) t"
  by (induction rs) (auto simp: status_size_def)

lemma same_statuses:
  assumes "total_size (live_values rs) = total_size (live_values ss)" "\<And>s. s \<noteq> VERIFIED_SPENDABLE \<Longrightarrow> status_size rs s = status_size ss s"
  shows "status_size rs s = status_size ss s"
proof (cases "s = VERIFIED_SPENDABLE")
  case True
  then show ?thesis using assms(1) assms(2) unfolding total_by_status by (simp add: all_statuses_def)
qed (rule assms(2))

text \<open>C13. A rollback undoes a bundle. After a bundle is built, rolling it back always succeeds; nothing is pending then, the balance
  of every status, spendable and otherwise, is what it was before the bundle, and the wallet owns the same units.\<close>

theorem rollback_restores_balances:
  assumes "digests32 C" "inj uuid" "wallet_ok C uuid w" "\<forall>tx\<in>set txs. list_all vr_ok (tx_values tx)"
    "build_bundle C uuid txs p seq w = (Inr (submission, ctx), w')"
  shows "\<exists>w''. rollback_pending_bundle C seq w' = (Inr ctx, w'') \<and> wallet_ok C uuid w'' \<and> wallet_pending_bundles w'' = [] \<and>
    balance_breakdown w'' = balance_breakdown w \<and> units (live_values (wa_records w'')) = units (live_values (wa_records w))"
  using assms(1-4)
proof (cases rule: build_bundle_cases [of C uuid w txs p seq])
  case (built submission' ctx' s x)
  then have same: "ctx' = ctx" "x = w'" using assms(5) by simp_all
  obtain asg where split: "split_of uuid asg (wa_records w) (wa_drawn w) s"
      and spendable: "\<forall>r\<in>set (wa_records w). assigned asg r \<noteq> [] \<longrightarrow> lvr_status r = VERIFIED_SPENDABLE"
      and ids: "pbc_pending_ids ctx = spl_pending_ids s"
    using built(3) by (auto simp: bundle_split_def same)
  let ?f = "\<lambda>r. if lvr_id r \<in> set (pbc_pending_ids ctx) then r\<lparr>lvr_status := VERIFIED_SPENDABLE\<rparr> else r"
  have ok: "records_ok uuid (wa_address w) (wa_db w) (wa_drawn w) (wa_records w)" using assms(3) by (simp add: wallet_ok_def)
  have found: "get_pending_bundle (wa_address w') seq (wa_db w') = Some ctx" using built by (simp add: same)
  obtain w'' where w'': "rollback_pending_bundle C seq w' = (Inr ctx, w'')" "wallet_ok C uuid w''" "wallet_pending_bundles w'' = []"
      "wa_records w'' = sort_key value_row_key (map ?f (wa_records w'))"
    by (rule rollback_ok [OF assms(1) _ found]) (use built(2) same in simp_all)
  have ms: "mset (wa_records w'') = mset (map ?f (spl_records s))" using w''(4) built(4) by (simp add: same)
  have live: "live_values (map ?f (spl_records s)) = live_values (spl_records s)"
    using split_pending_status [OF split ok]
    by (auto simp: live_values_def live_def filter_map comp_def ids intro!: map_cong filter_cong)
  have cov: "same_coverage (live_values (map ?f (spl_records s))) (live_values (wa_records w))"
    using split by (simp add: live split_of_def)
  have others: "status_size (map ?f (spl_records s)) t = status_size (wa_records w) t" if t: "t \<noteq> VERIFIED_SPENDABLE" for t
  proof -
    have "status_size (map ?f (spl_records s)) t = status_size (filter (\<lambda>r. lvr_id r \<notin> set (spl_pending_ids s)) (spl_records s)) t"
      unfolding ids by (rule status_size_respent [OF t])
    also have "\<dots> = status_size (filter (\<lambda>r. assigned asg r = []) (wa_records w)) t"
      by (rule status_size_mset [OF unassigned_kept [OF split ok assms(2)]])
    also have "\<dots> = status_size (wa_records w) t" using spendable t by (intro status_size_part) auto
    finally show ?thesis .
  qed
  have total: "total_size (live_values (map ?f (spl_records s))) = total_size (live_values (wa_records w))"
    using cov by (simp only: same_coverage_def)
  have "status_size (map ?f (spl_records s)) t = status_size (wa_records w) t" for t
    by (rule same_statuses [OF total others])
  then have "balance_breakdown w'' = balance_breakdown w"
    by (simp only: balance_breakdown_eq status_size_mset [OF ms])
  moreover have lms: "mset (live_values (wa_records w'')) = mset (live_values (map ?f (spl_records s)))"
    unfolding live_values_def live_def mset_map mset_filter ms ..
  have "units (live_values (wa_records w'')) = units (live_values (wa_records w))"
    unfolding units_mset [OF lms] using cov by (simp only: same_coverage_def)
  ultimately show ?thesis using w''(1-3) by blast
qed (use assms(5) in simp)

subsection \<open>A payment\<close>

lemma spendable_live: "disjoint_values (live_values rs) \<Longrightarrow> disjoint_values (spendable_values rs)"
proof -
  assume d: "disjoint_values (live_values rs)"
  have "spendable_values rs = map lvr_value (filter (\<lambda>r. lvr_status r = VERIFIED_SPENDABLE) (live rs))"
    by (auto simp: spendable_values_def live_def intro!: map_cong filter_cong)
  then show ?thesis using d by (simp add: disjoint_values_def live_values_def sorted_wrt_map sorted_wrt_filter)
qed

lemma selected_exact:
  assumes "wallet_ok C uuid w" "wallet_select_payment_ranges w amount = Inr vs"
  shows "0 < amount" "total_size vs = amount" "list_all vr_ok vs"
proof -
  have ok: "list_all vr_ok (map lvr_value (wa_records w))" "disjoint_values (live_values (wa_records w))"
    using assms(1) by (simp_all add: wallet_ok_def records_ok_def)
  have "vr_ok v" if "v \<in> set (spendable_values (wa_records w))" for v
    using that ok(1) by (auto simp: spendable_values_def list_all_iff)
  from select_payment_exact [OF this spendable_live [OF ok(2), unfolded disjoint_values_def],
      where address = "wa_address w" and checkpoints = "wa_checkpoints w" and amount = amount] assms(2)
  show "0 < amount" "total_size vs = amount" "list_all vr_ok vs"
    by (simp_all add: wallet_select_payment_ranges_def total_size_def)
qed

lemma payment_built:
  assumes "wallet_ok C uuid w" "build_payment_bundle C uuid recipient_addr amount p now seq extra_data w = (Inr (submission, ctx, tx), w')"
  shows "0 < amount" "total_size (tx_values tx) = amount" "list_all vr_ok (tx_values tx)" "tx_recipient tx = recipient_addr"
    "tx_sender tx = wa_address w"
    "\<exists>n. build_bundle C uuid [tx] p n w = (Inr (submission, ctx), w')"
proof -
  let ?n = "case seq of None \<Rightarrow> wallet_next_sequence w | Some n \<Rightarrow> n"
  obtain vs where vs: "wallet_select_payment_ranges w amount = Inr vs"
      and tx: "offchain_tx_init \<lparr>tx_sender = wa_address w, tx_recipient = recipient_addr, tx_values = vs, tx_local_index = 0,
        tx_time = now, tx_extra = extra_data\<rparr> = Inr tx"
      and built: "build_bundle C uuid [tx] p ?n w = (Inr (submission, ctx), w')"
    using assms(2) by (auto simp: build_payment_bundle_def res_bind_Inr map_sum_id_Inr st_bind_Inr split: if_splits sum.splits)
  have fields: "tx_values tx = vs" "tx_recipient tx = recipient_addr" "tx_sender tx = wa_address w"
    using tx by (auto simp: offchain_tx_init_def split: if_splits)
  from selected_exact [OF assms(1) vs]
  show "0 < amount" "total_size (tx_values tx) = amount" "list_all vr_ok (tx_values tx)" by (simp_all add: fields)
  show "tx_recipient tx = recipient_addr" "tx_sender tx = wa_address w" by (rule fields)+
  show "\<exists>n. build_bundle C uuid [tx] p n w = (Inr (submission, ctx), w')" using built by blast
qed

lemma disjoint_units: "disjoint_values (vs @ ws) \<Longrightarrow> list_all vr_ok (vs @ ws) \<Longrightarrow> units vs \<inter> units ws = {}"
  unfolding disjoint_values_def sorted_wrt_append list_all_iff units_def using vr_intersects_iff by fastforce

lemma wallet_live_ok:
  "wallet_ok C uuid w \<Longrightarrow> list_all vr_ok (live_values (wa_records w)) \<and> disjoint_values (live_values (wa_records w))"
  by (auto simp: wallet_ok_def records_ok_def live_values_def live_def list_all_iff)

text \<open>C11. A payment moves exactly its amount, for a wallet that keeps its invariant: in particular no two of the values it owns
  overlap, as they do once a value has been credited twice. Building a payment of an amount keeps the total balance while it
  waits, and when the wallet then confirms a receipt the total balance is lower by exactly that amount: the values of the one
  transaction to the recipient, which are no longer among the wallet's units, while all other units stay.\<close>

theorem payment_moves_amount:
  assumes "digests32 C" "inj uuid" "wallet_ok C uuid w" "receipt_init r = Inr r"
    "build_payment_bundle C uuid recipient_addr amount p now seq extra_data w = (Inr (submission, ctx, tx), w1)"
    "on_receipt_confirmed C uuid r w1 = (Inr unit, w2)"
  shows "tx_recipient tx = recipient_addr \<and> 0 < amount \<and> total_size (tx_values tx) = amount \<and>
    total_balance w1 = total_balance w \<and> total_balance w2 = total_balance w - amount \<and>
    units (live_values (wa_records w2)) = units (live_values (wa_records w)) - units (tx_values tx)"
proof -
  note paid = payment_built [OF assms(3,5)]
  have vals: "\<forall>t\<in>set [tx]. list_all vr_ok (tx_values t)" using paid(3) by simp
  obtain n where built: "build_bundle C uuid [tx] p n w = (Inr (submission, ctx), w1)" using paid(6) by blast
  note w1 = built_money [OF assms(1-3) vals built]
  from assms(1) w1(1) assms(4,6) obtain ctx' where ctx': "wallet_pending_bundles w1 = [ctx']"
      "mset (live_values (wa_records w1)) = mset (live_values (wa_records w2) @ pbc_outgoing_values ctx')"
      "total_balance w1 = total_balance w2 + total_size (pbc_outgoing_values ctx')"
    by (rule confirmed_money)
  have same: "ctx' = ctx" using ctx'(1) w1(2) by simp
  have out: "mset (pbc_outgoing_values ctx) = mset (tx_values tx)" using w1(3) by simp
  have live: "mset (live_values (wa_records w1)) = mset (live_values (wa_records w2) @ tx_values tx)"
    using ctx'(2) out by (simp add: same)
  have "disjoint_values (live_values (wa_records w2) @ tx_values tx)"
    using wallet_live_ok [OF w1(1)] disjoint_values_mset [OF live] by blast
  moreover have "list_all vr_ok (live_values (wa_records w2) @ tx_values tx)"
    using wallet_live_ok [OF w1(1)] mset_eq_setD [OF live] unfolding list_all_iff by metis
  ultimately have "units (live_values (wa_records w2)) \<inter> units (tx_values tx) = {}"
    by (rule disjoint_units)
  moreover have "units (live_values (wa_records w1)) = units (live_values (wa_records w2)) \<union> units (tx_values tx)"
    using units_mset [OF live] by simp
  ultimately show ?thesis
    using paid w1(4,5) ctx'(3) total_size_mset [OF out] by (auto simp: same)
qed

end
