(* ===== verification/Wallet_Run.thy ===== *)
theory Wallet_Run
  imports Wallet_Money
begin

section \<open>Every state the wallet can reach\<close>

text \<open>
  The wallet as a transition system: one step is one call of a method, whether it returns or raises, and the
  state is what the call leaves behind. The invariant holds in every reachable state. The arguments of a call are
  what the constructors of their classes allow; values that arrive from a transfer or from the genesis block do not
  overlap those the wallet owns, which the wallet itself does not check.
\<close>

subsection \<open>Changes of status and new records\<close>

lemma restatus:
  assumes "\<forall>r\<in>set rs. lvr_id (f r) = lvr_id r \<and> lvr_value (f r) = lvr_value r \<and> lvr_witness (f r) = lvr_witness r \<and>
    (lvr_status (f r) = ARCHIVED \<longleftrightarrow> lvr_status r = ARCHIVED)"
  shows "live_values (map f rs) = live_values rs" "records_ok uuid a db n rs \<Longrightarrow> records_ok uuid a db n (map f rs)"
    "pending_ok rs ctxs \<Longrightarrow> pending_ok (map f rs) ctxs"
proof -
  show live: "live_values (map f rs) = live_values rs" using assms by (induction rs) auto
  show "records_ok uuid a db n (map f rs)" if "records_ok uuid a db n rs"
    using assms that live by (intro records_ok_map) (auto simp: records_ok_def storable_def)
  have "map lvr_value (filter (\<lambda>r. lvr_id r \<in> X) (map f rs)) = map lvr_value (filter (\<lambda>r. lvr_id r \<in> X) rs)" for X
    using assms by (induction rs) auto
  moreover have "lvr_id ` set (map f rs) = lvr_id ` set rs"
    unfolding set_map image_image by (rule image_cong) (use assms in simp_all)
  ultimately have "bundle_ok (map f rs) ctx" if "bundle_ok rs ctx" for ctx
    using assms that unfolding bundle_ok_def by auto
  then show "pending_ok (map f rs) ctxs" if "pending_ok rs ctxs"
    using that by (cases "(rs, ctxs)" rule: pending_ok.cases) simp_all
qed

lemma mark_receipt_missing_keeps:
  assumes C: "digests32 C" and ok: "wallet_ok C uuid w"
  shows "wallet_ok C uuid (snd (mark_receipt_missing C seq w))"
proof (cases "get_pending_bundle (wa_address w) seq (wa_db w)")
  case (Some ctx)
  let ?f = "\<lambda>r. if lvr_id r \<in> set (pbc_pending_ids ctx) \<and> lvr_status r = PENDING_BUNDLE then r\<lparr>lvr_status := RECEIPT_MISSING\<rparr> else r"
  have f: "\<forall>r\<in>set (wa_records w). lvr_id (?f r) = lvr_id r \<and> lvr_value (?f r) = lvr_value r \<and> lvr_witness (?f r) = lvr_witness r \<and>
    (lvr_status (?f r) = ARCHIVED \<longleftrightarrow> lvr_status r = ARCHIVED)" by simp
  have b: "batches_ok (wa_db w)" and r: "records_ok uuid (wa_address w) (wa_db w) (wa_drawn w) (map ?f (wa_records w))"
    and p: "pending_ok (map ?f (wa_records w)) (wallet_pending_bundles w)"
    using ok restatus(2,3) [OF f] by (simp_all add: wallet_ok_def)
  obtain w' where "persist_records C (map ?f (wa_records w)) w = (Inr (), w')" "wallet_ok C uuid w'"
    by (rule commit_ok [OF C b r p])
  then show ?thesis by (simp add: mark_receipt_missing_def Some)
qed (simp add: mark_receipt_missing_def ok)

lemma rollback_keeps:
  assumes C: "digests32 C" and ok: "wallet_ok C uuid w"
  shows "wallet_ok C uuid (snd (rollback_pending_bundle C seq w))"
proof (cases "get_pending_bundle (wa_address w) seq (wa_db w)")
  case None
  then show ?thesis using ok by (simp add: rollback_pending_bundle_def)
next
  case (Some ctx)
  show ?thesis by (rule rollback_ok [OF C ok Some]) simp
qed

lemma st_each_keeps: "P s \<Longrightarrow> (\<And>x s. P s \<Longrightarrow> P (snd (f x s))) \<Longrightarrow> P (snd (st_each f xs s))"
  by (induction xs arbitrary: s) (simp_all add: st_bind_keeps)

lemma clear_keeps:
  assumes "digests32 C" "wallet_ok C uuid w"
  shows "wallet_ok C uuid (snd (clear_pending_bundles C w))"
proof -
  have "wallet_ok C uuid (snd (st_bind (rollback_pending_bundle C seq s) (\<lambda>_ w. (Inr (), w))))" if "wallet_ok C uuid s" for seq s
    by (rule st_bind_keeps [where P = "wallet_ok C uuid"]) (simp_all add: rollback_keeps [OF assms(1) that])
  then have "wallet_ok C uuid (snd (st_each (\<lambda>context w. st_bind (rollback_pending_bundle C (pbc_seq context) w) (\<lambda>_ w. (Inr (), w))) xs w))" for xs
    using assms(2) by (intro st_each_keeps [where P = "wallet_ok C uuid"])
  then show ?thesis unfolding clear_pending_bundles_def Let_def by (intro st_bind_keeps [where P = "wallet_ok C uuid"]) simp_all
qed

lemma build_keeps:
  assumes "digests32 C" "inj uuid" "wallet_ok C uuid w" "\<forall>tx\<in>set txs. list_all vr_ok (tx_values tx)"
  shows "wallet_ok C uuid (snd (build_bundle C uuid txs p seq w))"
  by (rule build_bundle_cases [OF assms, of p seq]) simp_all

lemma receipt_keeps:
  assumes "digests32 C" "wallet_ok C uuid w" "receipt_init r = Inr r"
  shows "wallet_ok C uuid (snd (on_receipt_confirmed C uuid r w))"
  by (rule on_receipt_confirmed_cases [OF assms]) simp_all

lemma payment_keeps:
  assumes C: "digests32 C" and inj: "inj uuid" and ok: "wallet_ok C uuid w"
  shows "wallet_ok C uuid (snd (build_payment_bundle C uuid recipient_addr amount p now seq extra_data w))"
proof -
  let ?tx = "res_bind (map_sum RangeProblem id (wallet_select_payment_ranges w amount)) (\<lambda>vs.
    map_sum ObjectProblem id (offchain_tx_init \<lparr>tx_sender = wa_address w, tx_recipient = recipient_addr, tx_values = vs,
      tx_local_index = 0, tx_time = now, tx_extra = extra_data\<rparr>))"
  show ?thesis
  proof (cases ?tx)
    case (Inl e)
    then show ?thesis using ok by (simp add: build_payment_bundle_def)
  next
    case (Inr tx)
    then obtain vs where "wallet_select_payment_ranges w amount = Inr vs" "tx_values tx = vs"
      by (auto simp: res_bind_Inr map_sum_id_Inr offchain_tx_init_def split: if_splits)
    then have "\<forall>t\<in>set [tx]. list_all vr_ok (tx_values t)" using selected_exact(3) [OF ok] by simp
    note kept = build_keeps [OF C inj ok this]
    have "wallet_ok C uuid (snd (st_bind (build_bundle C uuid [tx] p n w) (\<lambda>(submission, ctx) w. (Inr (submission, ctx, tx), w))))" for n
      by (rule st_bind_keeps [where P = "wallet_ok C uuid"]) (simp_all add: kept split_def)
    then show ?thesis using ok Inr by (simp add: build_payment_bundle_def)
  qed
qed

lemma find_distinct_key: "distinct (map f xs) \<Longrightarrow> x \<in> set xs \<Longrightarrow> find (\<lambda>y. f y = f x) xs = Some x"
  by (induction xs) auto

lemma find_record_keeps [simp]: "snd (find_record i w) = w"
  by (simp add: find_record_def split: option.split)

lemma add_record_ok:
  assumes C: "digests32 C" and inj: "inj uuid" and ok: "wallet_ok C uuid w" and same: "same_rows (wa_db w) db"
    and r: "lvr_id r = uuid (wa_drawn w)" "vr_ok (lvr_value r)" "full_witness (lvr_witness r)"
    and apart: "\<forall>v\<in>set (live_values (wa_records w)). \<not> vr_intersects v (lvr_value r)"
  obtains w' where "add_record C r (w\<lparr>wa_db := db, wa_drawn := Suc (wa_drawn w)\<rparr>) = (Inr (), w')" "wallet_ok C uuid w'"
    "wa_records w' = sort_key value_row_key (wa_records w @ [r])" "wa_address w' = wa_address w" "same_history db (wa_db w')"
    "wd_pending (wa_db w') = wd_pending db"
proof -
  let ?w = "w\<lparr>wa_db := db, wa_drawn := Suc (wa_drawn w)\<rparr>" and ?rs = "wa_records w"
  have recs: "records_ok uuid (wa_address w) (wa_db w) (wa_drawn w) ?rs" using ok by (simp add: wallet_ok_def)
  have new: "lvr_id r \<notin> lvr_id ` set ?rs" "lvr_id r \<notin> fst ` set (wd_values (wa_db w))"
    using recs by (simp_all add: records_ok_def r(1))
  have "uuid i \<noteq> lvr_id r" if "Suc (wa_drawn w) \<le> i" for i using that inj by (simp add: r(1) inj_eq)
  moreover have "disjoint_values (live_values (?rs @ [r]))"
    using recs apart by (simp add: records_ok_def disjoint_values_def sorted_wrt_append)
  moreover have "\<forall>(k, other, _)\<in>set (wd_values (wa_db w)). k \<noteq> lvr_id r" using new(2) by force
  then have "storable (wa_address w) (?rs @ [r]) (wa_db w)"
    using recs r(3) new(1) unfolding records_ok_def storable_def by auto
  ultimately have "records_ok uuid (wa_address w) (wa_db w) (Suc (wa_drawn w)) (?rs @ [r])"
    using recs r(2) by (simp add: records_ok_def)
  then have rr: "records_ok uuid (wa_address ?w) (wa_db ?w) (wa_drawn ?w) (?rs @ [r])"
    using same_rows_reads(3) [OF same] by simp
  have b: "batches_ok (wa_db ?w)" using ok same_rows_reads(1) [OF same] by (simp add: wallet_ok_def)
  have "pending_ok ?rs (wallet_pending_bundles w)" using ok by (simp add: wallet_ok_def)
  moreover have "bundle_ok (?rs @ [r]) ctx" if "bundle_ok ?rs ctx" for ctx
    using that new(1) unfolding bundle_ok_def by auto
  ultimately have p: "pending_ok (wa_records ?w @ [r]) (wallet_pending_bundles ?w)"
    using same_rows_reads(4) [OF same]
    by (cases "(?rs, wallet_pending_bundles w)" rule: pending_ok.cases) (simp_all add: wallet_pending_bundles_def)
  obtain w' where "persist_records C (wa_records ?w @ [r]) ?w = (Inr (), w')" "wallet_ok C uuid w'"
      "wa_records w' = sort_key value_row_key (?rs @ [r])" "wa_address w' = wa_address ?w" "same_history (wa_db ?w) (wa_db w')"
      "wd_pending (wa_db w') = wd_pending (wa_db ?w)"
    by (rule commit_ok [OF C b _ p]) (use rr in simp_all)
  then show ?thesis using that by (simp add: add_record_def)
qed

subsection \<open>Values that arrive\<close>

lemma local_witness_full:
  "\<forall>r\<in>set (wa_records w). full_witness (lvr_witness r) \<Longrightarrow> local_witness_for_checkpoint C w cp = Some x \<Longrightarrow> full_witness x"
  by (auto simp: local_witness_for_checkpoint_def find_Some_iff split: if_splits)

lemma rehydrate_full:
  "\<forall>r\<in>set (wa_records w). full_witness (lvr_witness r) \<Longrightarrow> full_witness x \<Longrightarrow> full_witness (rehydrate_local_checkpoint_anchors C w x)"
proof (induction C w x rule: rehydrate_local_checkpoint_anchors.induct)
  case (1 C w v owner chain cp)
  then show ?case using local_witness_full [OF 1(1)] by (auto split: option.split)
qed (auto simp: full_witness_def Let_def)

lemma judged_full:
  assumes "judge_transfer C ctx package w = Inr accepted" "full_witness (tp_witness package)"
  shows "full_witness accepted"
proof -
  obtain owner where "accepted = accepted_witness package owner"
    using assms(1) by (auto simp: judge_transfer_def res_bind_Inr map_sum_id_Inr validate_transfer_package_def Let_def
        split: if_splits option.splits)
  then show ?thesis using assms(2) by (cases "tp_witness package") (auto simp: accepted_witness_def full_witness_def)
qed

lemma save_sidecars_rows: "same_rows db (fold (\<lambda>sidecar db. snd (save_sidecar C sidecar db)) sidecars db)"
  by (rule fold_keeps) (auto simp: same_rows_def save_sidecar_def Let_def)

lemma same_rows_trans: "same_rows a b \<Longrightarrow> same_rows b c \<Longrightarrow> same_rows a c"
  by (simp add: same_rows_def)

lemma accepted_rows: "same_rows db (save_accepted_transfer_package a h now db)"
  by (simp add: save_accepted_transfer_package_def same_rows_def)

definition received_record :: "crypto \<Rightarrow> (nat \<Rightarrow> string) \<Rightarrow> transfer_package \<Rightarrow> witness \<Rightarrow> wallet \<Rightarrow> local_value_record" where
  \<comment> \<open>The record of an accepted package\<close>
  "received_record C uuid package accepted w = \<lparr>lvr_id = uuid (wa_drawn w), lvr_value = tp_target_value package,
     lvr_witness = rehydrate_local_checkpoint_anchors C w accepted, lvr_status = VERIFIED_SPENDABLE,
     lvr_height = hl_height (rc_header (cu_receipt (hd (w_chain (tp_witness package)))))\<rparr>"

lemma receive_transfer_cases:
  assumes C: "digests32 C" and inj: "inj uuid" and ok: "wallet_ok C uuid w" and full: "full_witness (tp_witness package)"
    and v: "vr_ok (tp_target_value package)"
    and apart: "\<forall>v\<in>set (live_values (wa_records w)). \<not> vr_intersects v (tp_target_value package)"
  obtains (refused) e where "receive_transfer C uuid ctx package now w = (Inl e, w)" "judge_transfer C ctx package w = Inl e"
    | (received) accepted w' where "receive_transfer C uuid ctx package now w = (Inr (received_record C uuid package accepted w), w')"
      "judge_transfer C ctx package w = Inr accepted" "wallet_ok C uuid w'"
      "wa_records w' = sort_key value_row_key (wa_records w @ [received_record C uuid package accepted w])"
      "wa_address w' = wa_address w"
      "\<forall>h. has_accepted_transfer_package (wa_address w) h (wa_db w') \<longleftrightarrow>
         h = transfer_package_hash C package \<or> has_accepted_transfer_package (wa_address w) h (wa_db w)"
      "wallet_pending_bundles w' = wallet_pending_bundles w" "wd_receipts (wa_db w') = wd_receipts (wa_db w)"
      "wd_units (wa_db w') = wd_units (wa_db w)" "wd_batches (wa_db w') = wd_batches (wa_db w)"
proof (cases "judge_transfer C ctx package w")
  case (Inl e)
  then show ?thesis using refused by (simp add: receive_transfer_def)
next
  case (Inr accepted)
  let ?r = "received_record C uuid package accepted w"
  let ?db = "fold (\<lambda>sidecar db. snd (save_sidecar C sidecar db)) (iter_witness_sidecars (tp_witness package)) (wa_db w)"
  have "\<forall>r\<in>set (wa_records w). full_witness (lvr_witness r)"
    using ok by (simp add: wallet_ok_def records_ok_def storable_def)
  then have r: "lvr_id ?r = uuid (wa_drawn w)" "vr_ok (lvr_value ?r)" "full_witness (lvr_witness ?r)"
    "\<forall>v\<in>set (live_values (wa_records w)). \<not> vr_intersects v (lvr_value ?r)"
    using v apart rehydrate_full judged_full [OF Inr full] by (simp_all add: received_record_def)
  obtain w' where w': "add_record C ?r (w\<lparr>wa_db := ?db, wa_drawn := Suc (wa_drawn w)\<rparr>) = (Inr (), w')" "wallet_ok C uuid w'"
      "wa_records w' = sort_key value_row_key (wa_records w @ [?r])" "wa_address w' = wa_address w" "same_history ?db (wa_db w')"
      "wd_pending (wa_db w') = wd_pending ?db"
    by (rule add_record_ok [OF C inj ok save_sidecars_rows r])
  let ?w = "w'\<lparr>wa_db := save_accepted_transfer_package (wa_address w') (transfer_package_hash C package) now (wa_db w')\<rparr>"
  have kept: "wallet_ok C uuid ?w" by (rule wallet_ok_same_rows [OF w'(2) accepted_rows])
  have "distinct (map lvr_id (wa_records w'))" using w'(2) by (simp add: wallet_ok_def records_ok_def storable_def)
  then have "find (\<lambda>r. lvr_id r = lvr_id ?r) (wa_records w') = Some ?r"
    using w'(3) by (intro find_distinct_key) simp_all
  then have "receive_transfer C uuid ctx package now w = (Inr ?r, ?w)"
    using w'(1,4) r(1) by (simp add: receive_transfer_def Inr received_record_def Let_def find_record_def)
  moreover have "wd_accepted ?db = wd_accepted (wa_db w)"
    by (rule fold_keeps) (auto simp: save_sidecar_def Let_def)
  then have "\<forall>h. has_accepted_transfer_package (wa_address w) h (wa_db ?w) \<longleftrightarrow>
      h = transfer_package_hash C package \<or> has_accepted_transfer_package (wa_address w) h (wa_db w)"
    using w'(4,5) by (auto simp: has_accepted_transfer_package_def save_accepted_transfer_package_def same_history_def dict_simps)
  moreover have "wallet_pending_bundles ?w = wallet_pending_bundles w"
    using w'(4,6) save_sidecars_rows [of "wa_db w" C "iter_witness_sidecars (tp_witness package)"]
    by (simp add: wallet_pending_bundles_def list_pending_bundles_def same_rows_def save_accepted_transfer_package_def)
  moreover have "wd_receipts ?db = wd_receipts (wa_db w) \<and> wd_units ?db = wd_units (wa_db w) \<and> wd_batches ?db = wd_batches (wa_db w)"
    by (rule fold_keeps) (auto simp: save_sidecar_def Let_def)
  then have "wd_receipts (wa_db ?w) = wd_receipts (wa_db w)" "wd_units (wa_db ?w) = wd_units (wa_db w)" "wd_batches (wa_db ?w) = wd_batches (wa_db w)"
    using w'(5) by (simp_all add: same_history_def save_accepted_transfer_package_def)
  ultimately show ?thesis using received [OF _ Inr kept] w'(3,4) by simp
qed

lemma genesis_keeps:
  assumes C: "digests32 C" and inj: "inj uuid" and ok: "wallet_ok C uuid w" and v: "vr_ok v"
    and apart: "\<forall>x\<in>set (live_values (wa_records w)). \<not> vr_intersects x v"
  shows "wallet_ok C uuid (snd (add_genesis_value C uuid v w))"
proof (cases "genesis_anchor_init \<lparr>ga_block_hash = wa_genesis_hash w, ga_owner = wa_address w,
    ga_value_begin = vr_begin v, ga_value_end = vr_end v\<rparr>")
  case (Inl e)
  then show ?thesis using ok by (simp add: add_genesis_value_def)
next
  case (Inr anchor)
  let ?r = "\<lparr>lvr_id = uuid (wa_drawn w), lvr_value = v, lvr_witness = WitnessV2 v (wa_address w) [] (GenesisAnchor anchor),
    lvr_status = VERIFIED_SPENDABLE, lvr_height = 0\<rparr>"
  have r: "lvr_id ?r = uuid (wa_drawn w)" "vr_ok (lvr_value ?r)" "full_witness (lvr_witness ?r)"
    "\<forall>x\<in>set (live_values (wa_records w)). \<not> vr_intersects x (lvr_value ?r)"
    using v apart by (simp_all add: full_witness_def)
  have same: "same_rows (wa_db w) (wa_db w)" by (simp add: same_rows_def)
  obtain w' where "add_record C ?r (w\<lparr>wa_db := wa_db w, wa_drawn := Suc (wa_drawn w)\<rparr>) = (Inr (), w')" "wallet_ok C uuid w'"
    by (rule add_record_ok [OF C inj ok same r])
  then show ?thesis by (simp add: add_genesis_value_def Inr Let_def)
qed

lemma checkpoint_keeps:
  assumes ok: "wallet_ok C uuid w"
  shows "wallet_ok C uuid (snd (create_exact_checkpoint C record_id w))"
proof -
  have "wallet_ok C uuid (snd (reload_state C (w\<lparr>wa_db := save_checkpoint cp (wa_db w)\<rparr>)))" for cp
  proof -
    have same: "same_rows (wa_db w) (save_checkpoint cp (wa_db w))" by (simp add: same_rows_def save_checkpoint_def Let_def)
    note kept = wallet_ok_same_rows [OF ok same]
    then have "list_value_records C (wa_address w) (save_checkpoint cp (wa_db w)) = Inr (wa_records w)" by (simp add: wallet_ok_def)
    then show ?thesis using kept by (simp add: reload_state_def wallet_ok_def wallet_pending_bundles_def)
  qed
  then show ?thesis
    using ok by (auto simp: create_exact_checkpoint_def find_record_def Let_def st_bind_def split: option.split list.split prod.split sum.split)
      (metis snd_conv)+
qed

subsection \<open>Reachable wallets\<close>

inductive wallet_step :: "crypto \<Rightarrow> (nat \<Rightarrow> string) \<Rightarrow> wallet \<Rightarrow> wallet \<Rightarrow> bool" for C uuid w where
  build: "wallet_step C uuid w (snd (build_bundle C uuid txs p seq w))" if "\<forall>tx\<in>set txs. list_all vr_ok (tx_values tx)"
| pay: "wallet_step C uuid w (snd (build_payment_bundle C uuid recipient_addr amount p now seq extra_data w))"
| receipt: "wallet_step C uuid w (snd (on_receipt_confirmed C uuid r w))" if "receipt_init r = Inr r"
| missing: "wallet_step C uuid w (snd (mark_receipt_missing C seq w))"
| rollback: "wallet_step C uuid w (snd (rollback_pending_bundle C seq w))"
| clear: "wallet_step C uuid w (snd (clear_pending_bundles C w))"
| receive: "wallet_step C uuid w (snd (receive_transfer C uuid ctx package now w))"
    if "full_witness (tp_witness package)" "vr_ok (tp_target_value package)"
       "\<forall>v\<in>set (live_values (wa_records w)). \<not> vr_intersects v (tp_target_value package)"
| genesis: "wallet_step C uuid w (snd (add_genesis_value C uuid v w))"
    if "vr_ok v" "\<forall>x\<in>set (live_values (wa_records w)). \<not> vr_intersects x v"
| header: "wallet_step C uuid w (observe_canonical_header h w)"
| observed_block: "wallet_step C uuid w (observe_canonical_block b w)"
| checkpoint: "wallet_step C uuid w (snd (create_exact_checkpoint C record_id w))"
| collect: "wallet_step C uuid w (snd (wallet_gc_unused_sidecars C w))"

inductive wallet_run :: "crypto \<Rightarrow> (nat \<Rightarrow> string) \<Rightarrow> string \<Rightarrow> bytes \<Rightarrow> wallet \<Rightarrow> bool" for C uuid address genesis where
  opened: "wallet_run C uuid address genesis (snd (wallet_open C address genesis wallet_db_new 0))"
| stepped: "wallet_run C uuid address genesis w'" if "wallet_run C uuid address genesis w" "wallet_step C uuid w w'"

lemma opened_ok: "wallet_ok C uuid (snd (wallet_open C address genesis wallet_db_new n))"
proof -
  have "list_value_records C address wallet_db_new = Inr []"
    by (simp add: list_value_records_def owner_rows_def wallet_db_new_def)
  moreover have "list_pending_bundles address wallet_db_new = []" by (simp add: list_pending_bundles_def wallet_db_new_def)
  ultimately show ?thesis
    by (simp add: wallet_open_def reload_state_def wallet_ok_def records_ok_def storable_def disjoint_values_def wallet_pending_bundles_def)
      (simp add: wallet_db_new_def)
qed

lemma header_keeps: "wallet_ok C uuid w \<Longrightarrow> wallet_ok C uuid (observe_canonical_header h w)"
  unfolding observe_canonical_header_def by (rule wallet_ok_same_rows) (simp_all add: same_rows_def save_canonical_header_def)

lemma collect_keeps: "wallet_ok C uuid w \<Longrightarrow> wallet_ok C uuid (snd (wallet_gc_unused_sidecars C w))"
  unfolding wallet_gc_unused_sidecars_def Let_def split_def snd_conv
  by (rule wallet_ok_same_rows) (simp_all add: same_rows_def gc_unused_sidecars_def)

lemma wallet_step_keeps:
  assumes "wallet_step C uuid w w'" "digests32 C" "inj uuid" "wallet_ok C uuid w"
  shows "wallet_ok C uuid w'"
  using assms
proof (cases rule: wallet_step.cases)
  case (receive package ctx now)
  show ?thesis unfolding receive(1)
    by (rule receive_transfer_cases [OF assms(2-4) receive(2-4), of ctx now]) (use assms(4) in simp_all)
qed (simp_all add: build_keeps payment_keeps receipt_keeps mark_receipt_missing_keeps rollback_keeps clear_keeps genesis_keeps
    header_keeps observe_canonical_block_def checkpoint_keeps collect_keeps)

lemma wallet_run_ok:
  assumes "wallet_run C uuid address genesis w" "digests32 C" "inj uuid"
  shows "wallet_ok C uuid w"
  using assms(1)
proof (induction rule: wallet_run.induct)
  case opened
  show ?case by (rule opened_ok)
next
  case (stepped w w')
  then show ?case using wallet_step_keeps assms(2,3) by blast
qed

text \<open>In every reachable wallet the books are right. From an empty database, after any sequence of calls, returning or raising, the
  database reads back as the records in memory, at most one bundle is pending, no two values the wallet owns overlap, and the total
  balance it shows is the number of units it owns.\<close>

theorem reachable_wallet_accounts:
  assumes "wallet_run C uuid address genesis w" "digests32 C" "inj uuid"
  shows "list_value_records C (wa_address w) (wa_db w) = Inr (wa_records w) \<and> length (wallet_pending_bundles w) \<le> 1 \<and>
    disjoint_values (live_values (wa_records w)) \<and> total_balance w = int (card (units (live_values (wa_records w))))"
proof -
  have ok: "wallet_ok C uuid w" by (rule wallet_run_ok [OF assms])
  then have "length (wallet_pending_bundles w) \<le> 1"
    by (cases "(wa_records w, wallet_pending_bundles w)" rule: pending_ok.cases) (simp_all add: wallet_ok_def)
  moreover have "total_balance w = int (card (units (live_values (wa_records w))))"
    using wallet_live_ok [OF ok] disjoint_values_iff [of "live_values (wa_records w)"] by (simp add: total_balance_eq)
  ultimately show ?thesis using ok wallet_live_ok [OF ok] by (simp add: wallet_ok_def)
qed

subsection \<open>No call forgets an accepted package\<close>

definition recalls :: "wallet \<Rightarrow> wallet \<Rightarrow> bool" where
  \<comment> \<open>The same account, with every package that was accepted\<close>
  "recalls w w' \<longleftrightarrow> wa_address w' = wa_address w \<and> dom (dict_get (wd_accepted (wa_db w))) \<subseteq> dom (dict_get (wd_accepted (wa_db w')))"

lemma recalls_simps [simp]:
  "recalls w w" "recalls w (w'\<lparr>wa_drawn := n\<rparr>) \<longleftrightarrow> recalls w w'"
  "recalls w (w'\<lparr>wa_records := rs, wa_checkpoints := cps\<rparr>) \<longleftrightarrow> recalls w w'"
  "wd_accepted db = wd_accepted (wa_db w') \<Longrightarrow> recalls w (w'\<lparr>wa_db := db\<rparr>) \<longleftrightarrow> recalls w w'"
  "wd_accepted db = wd_accepted (wa_db w') \<Longrightarrow> recalls w (w'\<lparr>wa_db := db, wa_drawn := n\<rparr>) \<longleftrightarrow> recalls w w'"
  by (simp_all add: recalls_def)

lemma recalls_trans: "recalls w w' \<Longrightarrow> recalls w' w'' \<Longrightarrow> recalls w w''"
  by (auto simp: recalls_def)

lemma accepted_tables [simp]:
  "wd_accepted (snd (save_sidecar C sidecar db)) = wd_accepted db" "wd_accepted (delete_pending_bundle a seq db) = wd_accepted db"
  "wd_accepted (save_checkpoint cp db) = wd_accepted db" "wd_accepted (save_canonical_header a h db) = wd_accepted db"
  "wd_accepted (snd (gc_unused_sidecars db)) = wd_accepted db"
  by (simp_all add: save_sidecar_def delete_pending_bundle_def save_checkpoint_def save_canonical_header_def gc_unused_sidecars_def Let_def)

lemma accepted_sidecars [simp]: "wd_accepted (fold (\<lambda>sidecar db. snd (save_sidecar C sidecar db)) sidecars db) = wd_accepted db"
  by (induction sidecars arbitrary: db) simp_all

lemma accepted_saves:
  "save_pending_bundle ctx db = Inr db' \<Longrightarrow> wd_accepted db' = wd_accepted db"
  "save_receipt C a r h db = Inr db' \<Longrightarrow> wd_accepted db' = wd_accepted db"
  "save_confirmed_unit C unit db = Inr db' \<Longrightarrow> wd_accepted db' = wd_accepted db"
  "replace_value_records_and_recompute C a rs db = Inr db' \<Longrightarrow> wd_accepted db' = wd_accepted db"
  by (auto simp: save_pending_bundle_def save_receipt_def save_confirmed_unit_def replace_value_records_and_recompute_def
      replace_value_records_def res_bind_Inr Let_def split: if_splits option.splits sum.splits)

lemma recalls_bind:
  "recalls w (snd r) \<Longrightarrow> (\<And>x w'. recalls w w' \<Longrightarrow> recalls w (snd (f x w'))) \<Longrightarrow> recalls w (snd (st_bind r f))"
  by (rule st_bind_keeps [where P = "recalls w"])

lemma recalls_calls:
  assumes "recalls w w'"
  shows "(\<And>db. f (wa_db w') = Inr db \<Longrightarrow> wd_accepted db = wd_accepted (wa_db w')) \<Longrightarrow> recalls w (snd (db_do f w'))"
    and "recalls w (snd (reload_state C w'))" "recalls w (snd (find_record i w'))" "recalls w (observe_canonical_header h w')"
    and "recalls w (snd (wallet_gc_unused_sidecars C w'))"
  using assms
  by (auto simp: db_do_def reload_state_def find_record_def observe_canonical_header_def wallet_gc_unused_sidecars_def split_def Let_def
      split: sum.split option.split)

lemma recalls_persist: "recalls w w' \<Longrightarrow> recalls w (snd (persist_records C rs w'))"
  unfolding persist_records_def by (intro recalls_bind) (auto intro!: recalls_calls dest: accepted_saves)

lemma recalls_build: "recalls w w' \<Longrightarrow> recalls w (snd (build_bundle C uuid txs p seq w'))"
  unfolding build_bundle_def Let_def
  by (auto split: sum.split intro!: recalls_bind recalls_calls(1) recalls_persist dest: accepted_saves)

lemma recalls_pay: "recalls w w' \<Longrightarrow> recalls w (snd (build_payment_bundle C uuid recipient amount p now seq extra w'))"
  unfolding build_payment_bundle_def Let_def by (auto split: sum.split intro!: recalls_bind recalls_build)

lemma recalls_receipt: "recalls w w' \<Longrightarrow> recalls w (snd (on_receipt_confirmed C uuid r w'))"
  unfolding on_receipt_confirmed_def Let_def
  by (auto split: sum.split intro!: recalls_bind recalls_calls(1) recalls_persist dest: accepted_saves)

lemma recalls_unit: "recalls w w' \<Longrightarrow> recalls w (snd (apply_sender_confirmed_unit C uuid unit vs w'))"
  unfolding apply_sender_confirmed_unit_def by (auto split: sum.split intro!: recalls_bind recalls_persist)

lemma recalls_missing: "recalls w w' \<Longrightarrow> recalls w (snd (mark_receipt_missing C seq w'))"
  unfolding mark_receipt_missing_def by (auto split: option.split intro!: recalls_bind recalls_persist)

lemma recalls_rollback: "recalls w w' \<Longrightarrow> recalls w (snd (rollback_pending_bundle C seq w'))"
  unfolding rollback_pending_bundle_def Let_def by (auto split: option.split intro!: recalls_bind recalls_persist)

lemma recalls_each: "(\<And>x w'. recalls w w' \<Longrightarrow> recalls w (snd (f x w'))) \<Longrightarrow> recalls w w' \<Longrightarrow> recalls w (snd (st_each f xs w'))"
  by (induction xs arbitrary: w') (auto intro!: recalls_bind)

lemma recalls_clear: "recalls w w' \<Longrightarrow> recalls w (snd (clear_pending_bundles C w'))"
  unfolding clear_pending_bundles_def Let_def by (auto intro!: recalls_bind recalls_each recalls_rollback)

lemma recalls_accepted: "recalls w w' \<Longrightarrow> recalls w (w'\<lparr>wa_db := save_accepted_transfer_package a h now (wa_db w')\<rparr>)"
  by (auto simp: recalls_def save_accepted_transfer_package_def dict_simps)

lemma recalls_receive: "recalls w w' \<Longrightarrow> recalls w (snd (receive_transfer C uuid ctx package now w'))"
  unfolding receive_transfer_def Let_def add_record_def
  by (auto split: sum.split intro!: recalls_bind recalls_persist recalls_calls(3) recalls_accepted)

lemma recalls_genesis: "recalls w w' \<Longrightarrow> recalls w (snd (add_genesis_value C uuid v w'))"
  unfolding add_genesis_value_def Let_def add_record_def
  by (auto split: sum.split intro!: recalls_bind recalls_persist recalls_calls(3))

lemma recalls_checkpoint: "recalls w w' \<Longrightarrow> recalls w (snd (create_exact_checkpoint C i w'))"
  unfolding create_exact_checkpoint_def Let_def by (auto split: list.split intro!: recalls_bind recalls_calls(2,3))

lemmas recalls_all = recalls_build recalls_pay recalls_receipt recalls_unit recalls_missing recalls_rollback recalls_clear
  recalls_receive recalls_genesis recalls_calls(4,5) recalls_checkpoint

inductive wallet_call :: "crypto \<Rightarrow> (nat \<Rightarrow> string) \<Rightarrow> wallet \<Rightarrow> wallet \<Rightarrow> bool" for C uuid w where
  \<comment> \<open>A call of a method with any arguments, a batch saved in its database, or the database closed and opened again\<close>
  "wallet_call C uuid w (snd (build_bundle C uuid txs p seq w))"
| "wallet_call C uuid w (snd (build_payment_bundle C uuid recipient_addr amount p now seq extra_data w))"
| "wallet_call C uuid w (snd (on_receipt_confirmed C uuid r w))"
| "wallet_call C uuid w (snd (apply_sender_confirmed_unit C uuid unit vs w))"
| "wallet_call C uuid w (snd (mark_receipt_missing C seq w))"
| "wallet_call C uuid w (snd (rollback_pending_bundle C seq w))"
| "wallet_call C uuid w (snd (clear_pending_bundles C w))"
| "wallet_call C uuid w (snd (receive_transfer C uuid ctx package now w))"
| "wallet_call C uuid w (snd (add_genesis_value C uuid v w))"
| "wallet_call C uuid w (observe_canonical_header h w)"
| "wallet_call C uuid w (observe_canonical_block b w)"
| "wallet_call C uuid w (snd (create_exact_checkpoint C record_id w))"
| gc: "wallet_call C uuid w (snd (wallet_gc_unused_sidecars C w))"
| "wallet_call C uuid w (w\<lparr>wa_db := save_receipt_proof_batch height batch (wa_db w)\<rparr>)"
| reopened: "wallet_call C uuid w (snd (wallet_open C (wa_address w) genesis (wa_db w) (wa_drawn w)))"

lemma wallet_call_recalls: "wallet_call C uuid w w' \<Longrightarrow> recalls w w'"
  by (induction rule: wallet_call.induct)
    (simp_all add: recalls_all observe_canonical_block_def wallet_open_def save_receipt_proof_batch_def, simp add: reload_state_def recalls_def split: sum.split)

lemma wallet_calls_remember: "(wallet_call C uuid)\<^sup>*\<^sup>* w w' \<Longrightarrow> recalls w w'"
  by (induction rule: rtranclp_induct) (auto intro: recalls_trans dest: wallet_call_recalls)

lemma wallet_step_is_call: "wallet_step C uuid w w' \<Longrightarrow> wallet_call C uuid w w'"
  by (induction rule: wallet_step.induct) (rule wallet_call.intros)+

lemma wallet_step_address: "wallet_step C uuid w w' \<Longrightarrow> wa_address w' = wa_address w"
  using wallet_call_recalls [OF wallet_step_is_call] by (simp add: recalls_def)

lemma wallet_run_address: "wallet_run C uuid a h w \<Longrightarrow> wa_address w = a"
  by (induction rule: wallet_run.induct) (simp_all add: wallet_open_def reload_state_def wallet_step_address split: sum.split)

subsection \<open>Receiving a value\<close>

text \<open>C37. A transfer is credited once. Take a wallet that keeps its invariant and a package with full receipts whose value does not
  overlap the wallet's. When the wallet accepts it, its total balance grows by the size of the value and its units by those of the value.
  From then on, whatever calls are made on the wallet with whatever arguments, returning or raising, and however often its database is
  opened again, it refuses the same package, with nothing changed.\<close>

theorem transfer_credited_once:
  assumes "digests32 C" "inj uuid" "wallet_ok C uuid w" "full_witness (tp_witness p)" "vr_ok (tp_target_value p)"
    "\<forall>v\<in>set (live_values (wa_records w)). \<not> vr_intersects v (tp_target_value p)"
    "receive_transfer C uuid ctx p now w = (Inr r, w1)" "(wallet_call C uuid)\<^sup>*\<^sup>* w1 w2"
  shows "wallet_ok C uuid w1 \<and> total_balance w1 = total_balance w + vr_size (tp_target_value p) \<and>
    units (live_values (wa_records w1)) = units (live_values (wa_records w)) \<union> vr_set (tp_target_value p) \<and>
    receive_transfer C uuid ctx' p later w2 = (Inl PackageAlreadyAccepted, w2)"
  using assms(1-6)
proof (cases rule: receive_transfer_cases [of C uuid w p ctx now])
  case (received accepted w')
  then have w1: "w' = w1" using assms(7) by simp
  have "total_balance w1 = total_balance w + vr_size (tp_target_value p)"
    using total_balance_sorted [OF received(4)] by (simp add: w1 total_balance_eq received_record_def)
  moreover have "units (live_values (wa_records w1)) = units (live_values (wa_records w)) \<union> vr_set (tp_target_value p)"
    using received(4) by (auto simp: w1 units_sorted received_record_def)
  moreover have "has_accepted_transfer_package (wa_address w1) (transfer_package_hash C p) (wa_db w1)"
    using received(5,6) by (simp add: w1)
  then have "judge_transfer C ctx' p w2 = Inl PackageAlreadyAccepted"
    using wallet_calls_remember [OF assms(8)] by (auto simp: judge_transfer_def recalls_def has_accepted_transfer_package_def)
  ultimately show ?thesis using received(3) by (simp add: w1 receive_transfer_def)
qed (use assms(7) in simp)

lemma validate_ignores_value:
  "validate_transfer C ctx tx v (clone_witness_for_value w u) a = validate_transfer C ctx tx v w a"
  by (cases w) (simp add: clone_witness_for_value_def validate_transfer.simps)

lemma judge_altered:
  assumes "judge_transfer C ctx p w = Inr accepted" "\<not> has_accepted_transfer_package (wa_address w') (transfer_package_hash C p') (wa_db w')"
    "p' = p\<lparr>tp_witness := clone_witness_for_value (tp_witness p) u\<rparr>" "wa_address w' = wa_address w"
  obtains accepted' where "judge_transfer C ctx p' w' = Inr accepted'"
  using assms
  by (auto simp: judge_transfer_def res_bind_Inr map_sum_id_Inr validate_transfer_package_def validate_ignores_value Let_def
      split: if_splits option.splits)

lemma receive_stores:
  assumes "digests32 C" "inj uuid" "wallet_ok C uuid w" "judge_transfer C ctx p w = Inr accepted" "full_witness (tp_witness p)"
  obtains w' where "receive_transfer C uuid ctx p now w = (Inr (received_record C uuid p accepted w), w')"
    "wa_records w' = sort_key value_row_key (wa_records w @ [received_record C uuid p accepted w])"
proof -
  let ?r = "received_record C uuid p accepted w"
  let ?db = "fold (\<lambda>sidecar db. snd (save_sidecar C sidecar db)) (iter_witness_sidecars (tp_witness p)) (wa_db w)"
  have recs: "records_ok uuid (wa_address w) (wa_db w) (wa_drawn w) (wa_records w)" using assms(3) by (simp add: wallet_ok_def)
  have "full_witness (lvr_witness ?r)"
    using recs rehydrate_full judged_full [OF assms(4,5)] by (simp add: received_record_def records_ok_def storable_def)
  moreover have i: "lvr_id ?r = uuid (wa_drawn w)" by (simp add: received_record_def)
  moreover have "\<forall>(k, _)\<in>set (wd_values (wa_db w)). k \<noteq> uuid (wa_drawn w)" using recs by (force simp: records_ok_def)
  ultimately have st: "storable (wa_address w) (wa_records w @ [?r]) ?db"
    using recs save_sidecars_rows [of "wa_db w" C "iter_witness_sidecars (tp_witness p)"]
    by (auto simp: records_ok_def storable_def same_rows_def)
  have b: "batches_ok ?db"
    using assms(3) same_rows_reads(1) [OF save_sidecars_rows, of C "iter_witness_sidecars (tp_witness p)" "wa_db w"]
    by (simp add: wallet_ok_def)
  obtain db where db: "replace_value_records_and_recompute C (wa_address w) (wa_records w @ [?r]) ?db = Inr db"
      "list_value_records C (wa_address w) db = Inr (sort_key value_row_key (wa_records w @ [?r]))"
    by (rule replace_and_recompute_ok [OF assms(1) b st])
  have "distinct (map lvr_id (sort_key value_row_key (wa_records w @ [?r])))"
    using st mset_eq_imp_distinct_iff [of "map lvr_id (sort_key value_row_key (wa_records w @ [?r]))" "map lvr_id (wa_records w @ [?r])"]
    by (simp add: storable_def)
  then have "find (\<lambda>r. lvr_id r = lvr_id ?r) (sort_key value_row_key (wa_records w @ [?r])) = Some ?r"
    by (rule find_distinct_key) simp
  then have "find (\<lambda>r. lvr_id r = uuid (wa_drawn w)) (sort_key value_row_key (wa_records w @ [?r])) = Some ?r" by (simp only: i)
  then show ?thesis
    using db by (intro that, simp add: receive_transfer_def assms(4) Let_def add_record_def persist_records_def db_do_def
        reload_state_def find_record_def received_record_def [symmetric]) simp
qed

text \<open>C38. A copy of a transfer is credited again. The validator does not look at the value the witness names, but the hash that marks a
  package as accepted covers it: after a package was accepted, the same package with another value in its witness and another hash is
  accepted too, and the total balance counts the one value twice although the wallet owns no more units.\<close>

theorem altered_copy_credited_again:
  assumes "digests32 C" "inj uuid" "wallet_ok C uuid w" "full_witness (tp_witness p)" "vr_ok (tp_target_value p)"
    "\<forall>v\<in>set (live_values (wa_records w)). \<not> vr_intersects v (tp_target_value p)"
    "receive_transfer C uuid ctx p now w = (Inr r, w1)"
    "p' = p\<lparr>tp_witness := clone_witness_for_value (tp_witness p) u\<rparr>" "transfer_package_hash C p' \<noteq> transfer_package_hash C p"
    "\<not> has_accepted_transfer_package (wa_address w) (transfer_package_hash C p') (wa_db w)"
  shows "\<exists>r' w2. receive_transfer C uuid ctx p' later w1 = (Inr r', w2) \<and>
    total_balance w2 = total_balance w + 2 * vr_size (tp_target_value p) \<and>
    units (live_values (wa_records w2)) = units (live_values (wa_records w)) \<union> vr_set (tp_target_value p)"
  using assms(1-6)
proof (cases rule: receive_transfer_cases [of C uuid w p ctx now])
  case (received accepted w')
  then have w1: "w' = w1" using assms(7) by simp
  have "\<not> has_accepted_transfer_package (wa_address w1) (transfer_package_hash C p') (wa_db w1)"
    using received(5,6) assms(9,10) by (simp add: w1)
  then obtain accepted' where judged: "judge_transfer C ctx p' w1 = Inr accepted'"
    using judge_altered [OF received(2) _ assms(8)] received(5) by (metis w1)
  have "full_witness (tp_witness p')" using assms(4) by (simp add: assms(8) full_witness_def)
  then obtain w2 where w2: "receive_transfer C uuid ctx p' later w1 = (Inr (received_record C uuid p' accepted' w1), w2)"
      "wa_records w2 = sort_key value_row_key (wa_records w1 @ [received_record C uuid p' accepted' w1])"
    using receive_stores [OF assms(1,2) received(3) [unfolded w1] judged] by metis
  have "total_balance w2 = total_balance w + 2 * vr_size (tp_target_value p)"
    using total_balance_sorted [OF w2(2)] total_balance_sorted [OF received(4)]
    by (simp add: w1 total_balance_eq received_record_def assms(8))
  moreover have "units (live_values (wa_records w2)) = units (live_values (wa_records w)) \<union> vr_set (tp_target_value p)"
    using w2(2) received(4) by (auto simp: w1 units_sorted received_record_def assms(8))
  ultimately show ?thesis using w2(1) by blast
qed (use assms(7) in simp)

end
