(* ===== verification/Wallet_Samples.thy ===== *)
theory Wallet_Samples
  imports Wallet_Run
begin

section \<open>A wallet to try the properties on\<close>

text \<open>
  A wallet that owns the range 0 to 9 of the genesis block, the payment of three units from it, and a receipt of
  the payment under the digests of \<open>flat_crypto\<close>: the concrete states on which the wallet's properties are applied.
\<close>

definition sample_uuid :: "nat \<Rightarrow> string" where
  "sample_uuid n = replicate n (CHR ''x'')"

lemma sample_uuid_inj [simp]: "inj sample_uuid"
  by (rule injI) (metis length_replicate sample_uuid_def)

definition payer_address :: string where
  "payer_address = ''0x'' @ hex (replicate 20 0)"

definition sample_anchor0 :: genesis_anchor where
  "sample_anchor0 = \<lparr>ga_block_hash = ZERO_HASH32, ga_owner = payer_address, ga_value_begin = 0, ga_value_end = 9\<rparr>"

definition sample_record0 :: local_value_record where
  "sample_record0 = \<lparr>lvr_id = sample_uuid 0, lvr_value = ValueRange 0 9,
     lvr_witness = WitnessV2 (ValueRange 0 9) payer_address [] (GenesisAnchor sample_anchor0),
     lvr_status = VERIFIED_SPENDABLE, lvr_height = 0\<rparr>"

definition sample_opened :: wallet where
  "sample_opened = snd (wallet_open flat_crypto payer_address ZERO_HASH32 wallet_db_new 0)"

definition sample_wallet :: wallet where
  "sample_wallet = snd (add_genesis_value flat_crypto sample_uuid (ValueRange 0 9) sample_opened)"

lemma sample_opened_simps:
  "wa_address sample_opened = payer_address" "wa_records sample_opened = []" "wa_drawn sample_opened = 0"
  "wa_db sample_opened = wallet_db_new" "wa_genesis_hash sample_opened = ZERO_HASH32"
  by (simp_all add: sample_opened_def wallet_open_def reload_state_def list_value_records_def owner_rows_def wallet_db_new_def)

lemma sample_opened_ok: "wallet_ok flat_crypto sample_uuid sample_opened"
  unfolding sample_opened_def by (rule opened_ok)

lemma sample_wallet_ok:
  "wallet_ok flat_crypto sample_uuid sample_wallet" "wa_records sample_wallet = [sample_record0]"
  "wa_address sample_wallet = payer_address" "same_history wallet_db_new (wa_db sample_wallet)" "wd_pending (wa_db sample_wallet) = []"
  "wa_genesis_hash sample_wallet = ZERO_HASH32" "wa_checkpoints sample_wallet = db_list_checkpoints payer_address (wa_db sample_wallet)"
proof -
  have C: "digests32 flat_crypto" by simp
  have same: "same_rows (wa_db sample_opened) (wa_db sample_opened)" by (simp add: same_rows_def)
  have r: "lvr_id sample_record0 = sample_uuid (wa_drawn sample_opened)" "vr_ok (lvr_value sample_record0)"
    "full_witness (lvr_witness sample_record0)"
    "\<forall>x\<in>set (live_values (wa_records sample_opened)). \<not> vr_intersects x (lvr_value sample_record0)"
    by (simp_all add: sample_record0_def sample_opened_simps vr_ok_def full_witness_def)
  obtain w' where w': "add_record flat_crypto sample_record0 (sample_opened\<lparr>wa_db := wa_db sample_opened, wa_drawn := Suc (wa_drawn sample_opened)\<rparr>) = (Inr (), w')"
      "wallet_ok flat_crypto sample_uuid w'" "wa_records w' = sort_key value_row_key (wa_records sample_opened @ [sample_record0])"
      "wa_address w' = wa_address sample_opened" "same_history (wa_db sample_opened) (wa_db w')" "wd_pending (wa_db w') = wd_pending (wa_db sample_opened)"
    by (rule add_record_ok [OF C sample_uuid_inj sample_opened_ok same r])
  have "genesis_anchor_init sample_anchor0 = Inr sample_anchor0"
    by (simp add: sample_anchor0_def genesis_anchor_init_def hash32_def ZERO_HASH32_def payer_address_def)
  moreover have "sample_opened\<lparr>wa_db := wa_db sample_opened, wa_drawn := Suc (wa_drawn sample_opened)\<rparr> = sample_opened\<lparr>wa_drawn := Suc 0\<rparr>"
    by (simp add: sample_opened_simps(3))
  note w1 = w'(1) [unfolded this]
  ultimately have "sample_wallet = w'"
    using w1 by (simp add: sample_wallet_def add_genesis_value_def sample_opened_simps sample_record0_def sample_anchor0_def Let_def)
  then show "wallet_ok flat_crypto sample_uuid sample_wallet" "wa_records sample_wallet = [sample_record0]"
    "wa_address sample_wallet = payer_address" "same_history wallet_db_new (wa_db sample_wallet)" "wd_pending (wa_db sample_wallet) = []"
    using w'(2-6) by (simp_all add: sample_opened_simps wallet_db_new_def)
  show "wa_genesis_hash sample_wallet = ZERO_HASH32" "wa_checkpoints sample_wallet = db_list_checkpoints payer_address (wa_db sample_wallet)"
    using w'(1) by (auto simp: \<open>sample_wallet = w'\<close> add_record_def persist_records_def st_bind_Inr db_do_def reload_state_def sample_opened_simps
        split: sum.splits)
qed

subsection \<open>A payment of three units\<close>

definition sample_header :: header_lite where
  "sample_header = \<lparr>hl_height = 5, hl_block_hash = ZERO_HASH32, hl_state_root = ZERO_HASH32\<rparr>"

definition sample_params :: bundle_params where
  "sample_params = \<lparr>bp_private_key = [1], bp_public_key = [65], bp_chain_id = 1, bp_expiry_height = 100, bp_fee = 0,
     bp_nonce = 0, bp_created_at = 7\<rparr>"

definition sample_payer :: wallet where
  \<comment> \<open>The wallet has seen the header of the block that will confirm the payment.\<close>
  "sample_payer = observe_canonical_header sample_header sample_wallet"

definition sample_payment :: offchain_tx where
  "sample_payment = \<lparr>tx_sender = payer_address, tx_recipient = ''bob'', tx_values = [ValueRange 0 2], tx_local_index = 0,
     tx_time = 7, tx_extra = []\<rparr>"

lemma sample_payer_ok:
  "wallet_ok flat_crypto sample_uuid sample_payer" "wa_records sample_payer = [sample_record0]" "wa_address sample_payer = payer_address"
  "wd_pending (wa_db sample_payer) = []" "wd_receipts (wa_db sample_payer) = []" "wd_batches (wa_db sample_payer) = []"
  "has_canonical_header payer_address sample_header (wa_db sample_payer)"
  using sample_wallet_ok header_keeps [OF sample_wallet_ok(1), of sample_header]
  by (simp_all add: sample_payer_def observe_canonical_header_def save_canonical_header_def same_history_def wallet_db_new_def
      has_canonical_header_def dict_simps)

lemma sample_selected: "wallet_select_payment_ranges sample_payer 3 = Inr [ValueRange 0 2]"
proof -
  have vals: "spendable_values [sample_record0] = [ValueRange 0 9]" by (simp add: spendable_values_def sample_record0_def)
  have ok: "vr_ok v" if "v \<in> set (spendable_values [sample_record0])" for v using that by (simp add: vals vr_ok_def)
  have d: "sorted_wrt (\<lambda>v w. \<not> vr_intersects v w) (spendable_values [sample_record0])" by (simp add: vals)
  from select_payment_exact [OF ok d, where address = payer_address and checkpoints = "wa_checkpoints sample_payer" and amount = 3]
  obtain vs where vs: "select_payment_ranges payer_address [sample_record0] (wa_checkpoints sample_payer) 3 = Inr vs"
      "sum_list (map vr_size vs) = 3" "list_all vr_ok vs" "sorted_wrt (\<lambda>v w. vr_end v < vr_begin w) vs" "\<forall>v\<in>set vs. vr_begin v = 0"
    by (auto simp: vals vr_size_def split: sum.splits)
  have "vs = [ValueRange 0 2]"
  proof (cases vs)
    case (Cons v us)
    have "us = []" using vs(3-5) by (cases us) (auto simp: Cons vr_ok_def)
    then show ?thesis using vs(2,5) by (cases v) (simp add: Cons vr_size_def)
  qed (use vs(2) in simp)
  then show ?thesis using vs(1) by (simp add: wallet_select_payment_ranges_def sample_payer_ok)
qed

lemma sample_prepared:
  "\<exists>submission ctx. prepare_bundle flat_crypto payer_address [sample_payment] sample_params 1 [ValueRange 0 2] s = Inr (submission, ctx)"
proof -
  have "parse_ecdsa_der (encode_ecdsa_der 1 1) = Inr (1, 1)" using ecdsa_der_roundtrip_aux [of 1 1] by simp
  then have "sign_bundle_envelope flat_crypto e key = Inr (with_signature e (encode_ecdsa_der 1 1))" for e key
    by (simp add: sign_bundle_envelope_def sign_digest_secp256k1_def compute_bundle_sighash_def normalize_low_s_def
        flat_crypto_def LOW_S_MAX_def SECP256K1_ORDER_def)
  then show ?thesis
    by (simp add: prepare_bundle_def bundle_sidecar_init_def sample_payment_def payer_address_def bundle_envelope_init_def
        sample_params_def hash32_def hash32_opt_def compute_bundle_hash_def claim_range_set_hash_def with_signature_def
        pending_bundle_context_init_def)
qed

lemma sample_planned: "\<exists>submission ctx s. plan_bundle flat_crypto sample_uuid [sample_payment] sample_params 1 sample_payer = Inr (submission, ctx, s)"
proof -
  have "address_from_public_key_pem flat_crypto [65] = Inr payer_address"
    by (simp add: address_from_public_key_pem_def pem_to_der_def strip_bytes_def is_space_def startswith_def ascii_def
        last_bytes_def payer_address_def flat_crypto_def)
  moreover have "wallet_pending_bundles sample_payer = []"
    by (simp add: wallet_pending_bundles_def list_pending_bundles_def sample_payer_ok)
  moreover have "ensure_non_overlapping_targets [ValueRange 0 2] = Inr [ValueRange 0 2]"
    by (simp add: ensure_non_overlapping_targets_def)
  moreover have "assign_targets_to_records [sample_record0] [ValueRange 0 2] = Inr [(sample_uuid 0, [ValueRange 0 2])]"
    by (simp add: assign_targets_to_records_def sample_record0_def vr_contains_range_def dict_get_default_def)
  moreover have given: "assigned [(sample_uuid 0, [ValueRange 0 2])] sample_record0 = [ValueRange 0 2]"
    by (simp add: dict_get_default_def sample_record0_def)
  moreover have "partition_range (lvr_value sample_record0) [ValueRange 0 2] = Inr [(ValueRange 0 2, True), (ValueRange 3 9, False)]"
    by (simp add: partition_range_def Let_def vr_contains_range_def make_value_range_def sample_record0_def)
  moreover have fields: "bp_public_key sample_params = [65]" "tx_values sample_payment = [ValueRange 0 2]"
    by (simp_all add: sample_params_def sample_payment_def)
  ultimately show ?thesis
    using sample_prepared by (simp add: plan_bundle_def sample_payer_ok fields res_bind_Inr)
qed

lemma sample_payment_values: "\<forall>t\<in>set [sample_payment]. list_all vr_ok (tx_values t)"
  by (simp add: sample_payment_def vr_ok_def)

lemma sample_built:
  obtains submission ctx w1 where
    "build_bundle flat_crypto sample_uuid [sample_payment] sample_params 1 sample_payer = (Inr (submission, ctx), w1)"
    "build_payment_bundle flat_crypto sample_uuid ''bob'' 3 sample_params 7 (Some 1) [] sample_payer =
       (Inr (submission, ctx, sample_payment), w1)"
    "wallet_ok flat_crypto sample_uuid w1" "wa_address w1 = payer_address"
    "get_pending_bundle payer_address 1 (wa_db w1) = Some ctx" "same_history (wa_db sample_payer) (wa_db w1)"
proof -
  have C: "digests32 flat_crypto" by simp
  obtain submission ctx w1 where built: "build_bundle flat_crypto sample_uuid [sample_payment] sample_params 1 sample_payer = (Inr (submission, ctx), w1)"
      "wallet_ok flat_crypto sample_uuid w1" "wa_address w1 = payer_address"
      "get_pending_bundle payer_address 1 (wa_db w1) = Some ctx" "same_history (wa_db sample_payer) (wa_db w1)"
    by (rule build_bundle_cases [OF C sample_uuid_inj sample_payer_ok(1) sample_payment_values, of sample_params 1])
      (use sample_planned in \<open>auto simp: sample_payer_ok\<close>)
  have "wallet_pending_bundles sample_payer = []"
    by (simp add: wallet_pending_bundles_def list_pending_bundles_def sample_payer_ok)
  moreover have "offchain_tx_init sample_payment = Inr sample_payment"
    by (simp add: offchain_tx_init_def sample_payment_def payer_address_def)
  ultimately have "build_payment_bundle flat_crypto sample_uuid ''bob'' 3 sample_params 7 (Some 1) [] sample_payer =
       (Inr (submission, ctx, sample_payment), w1)"
    using built(1) by (simp add: build_payment_bundle_def sample_selected sample_payer_ok sample_payment_def)
  then show ?thesis using that built by blast
qed

definition payment_receipt :: receipt where
  "payment_receipt = \<lparr>rc_header = sample_header, rc_seq = 1, rc_prev_ref = None, rc_claim_set_hash = None,
     rc_proof = Some flat_proof, rc_batch_ref = None\<rparr>"

lemma payment_receipt_init: "receipt_init payment_receipt = Inr payment_receipt"
  by (simp add: receipt_init_def payment_receipt_def hash32_opt_def)

lemma sample_confirmed:
  assumes "wallet_ok flat_crypto sample_uuid w1" "wa_address w1 = payer_address"
    "get_pending_bundle payer_address 1 (wa_db w1) = Some ctx" "same_history (wa_db sample_payer) (wa_db w1)"
  shows "\<exists>unit w2. on_receipt_confirmed flat_crypto sample_uuid payment_receipt w1 = (Inr unit, w2)"
proof -
  have C: "digests32 flat_crypto" by simp
  have known: "knows_canonical_header sample_header w1"
    using assms(2,4) sample_payer_ok(7) by (simp add: knows_canonical_header_def has_canonical_header_def same_history_def)
  have "verify_proof flat_crypto ZERO_HASH32 (compute_addr_key flat_crypto a) (hash_account_leaf flat_crypto l) flat_proof 256" for a l
    by (rule flat_proof_verifies) (simp_all add: compute_addr_key_def hash_account_leaf_def)
  then have "check_receipt flat_crypto payment_receipt w1 = Inr ctx"
    using known assms(2,3) by (simp add: check_receipt_def payment_receipt_def) (simp add: sample_header_def)
  moreover have "wd_receipts (wa_db w1) = []"
    using assms(4) sample_payer_ok(5) by (simp_all add: same_history_def)
  ultimately show ?thesis
    by (cases rule: on_receipt_confirmed_cases [OF C assms(1) payment_receipt_init]) (auto simp: receipt_clash_def)
qed

subsection \<open>The properties at the sample wallet\<close>

lemma sample_balance: "total_balance sample_payer = 10" "total_balance sample_wallet = 10"
  by (simp_all add: total_balance_eq sample_payer_ok sample_wallet_ok) (simp_all add: sample_record0_def vr_size_def)

theorem bundle_reserves_values_witness:
  "\<exists>submission ctx w1. build_bundle flat_crypto sample_uuid [sample_payment] sample_params 1 sample_payer = (Inr (submission, ctx), w1) \<and>
     total_balance w1 = 10 \<and> wallet_pending_bundles w1 = [ctx]"
proof -
  have C: "digests32 flat_crypto" by simp
  obtain submission ctx w1 where b: "build_bundle flat_crypto sample_uuid [sample_payment] sample_params 1 sample_payer = (Inr (submission, ctx), w1)"
    by (rule sample_built)
  show ?thesis
    using bundle_reserves_values [OF C sample_uuid_inj sample_payer_ok(1) sample_payment_values b] b sample_balance(1) by auto
qed

theorem rollback_restores_balances_witness:
  "\<exists>submission ctx w1 w2. build_bundle flat_crypto sample_uuid [sample_payment] sample_params 1 sample_payer = (Inr (submission, ctx), w1) \<and>
     rollback_pending_bundle flat_crypto 1 w1 = (Inr ctx, w2) \<and> balance_breakdown w2 = balance_breakdown sample_payer"
proof -
  have C: "digests32 flat_crypto" by simp
  obtain submission ctx w1 where b: "build_bundle flat_crypto sample_uuid [sample_payment] sample_params 1 sample_payer = (Inr (submission, ctx), w1)"
    by (rule sample_built)
  show ?thesis
    using rollback_restores_balances [OF C sample_uuid_inj sample_payer_ok(1) sample_payment_values b] b by blast
qed

theorem confirmation_spends_exactly_witness:
  "\<exists>w1 unit w2 ctx. on_receipt_confirmed flat_crypto sample_uuid payment_receipt w1 = (Inr unit, w2) \<and>
     wallet_pending_bundles w1 = [ctx] \<and> wallet_pending_bundles w2 = [] \<and>
     total_balance w1 = total_balance w2 + total_size (pbc_outgoing_values ctx)"
proof -
  have C: "digests32 flat_crypto" by simp
  obtain ctx w1 where w1: "wallet_ok flat_crypto sample_uuid w1" "wa_address w1 = payer_address"
      "get_pending_bundle payer_address 1 (wa_db w1) = Some ctx" "same_history (wa_db sample_payer) (wa_db w1)"
    by (rule sample_built)
  obtain unit w2 where "on_receipt_confirmed flat_crypto sample_uuid payment_receipt w1 = (Inr unit, w2)"
    using sample_confirmed [OF w1] by blast
  then show ?thesis using confirmation_spends_exactly [OF C w1(1) payment_receipt_init] by blast
qed

theorem payment_moves_amount_witness:
  "\<exists>submission ctx w1 unit w2. build_payment_bundle flat_crypto sample_uuid ''bob'' 3 sample_params 7 (Some 1) [] sample_payer =
       (Inr (submission, ctx, sample_payment), w1) \<and>
     on_receipt_confirmed flat_crypto sample_uuid payment_receipt w1 = (Inr unit, w2) \<and> total_balance w1 = 10 \<and> total_balance w2 = 7"
proof -
  have C: "digests32 flat_crypto" by simp
  obtain submission ctx w1 where b: "build_payment_bundle flat_crypto sample_uuid ''bob'' 3 sample_params 7 (Some 1) [] sample_payer =
        (Inr (submission, ctx, sample_payment), w1)"
      and w1: "wallet_ok flat_crypto sample_uuid w1" "wa_address w1 = payer_address"
        "get_pending_bundle payer_address 1 (wa_db w1) = Some ctx" "same_history (wa_db sample_payer) (wa_db w1)"
    by (rule sample_built)
  obtain unit w2 where c: "on_receipt_confirmed flat_crypto sample_uuid payment_receipt w1 = (Inr unit, w2)"
    using sample_confirmed [OF w1] by blast
  show ?thesis
    using payment_moves_amount [OF C sample_uuid_inj sample_payer_ok(1) payment_receipt_init b c] b c sample_balance(1) by auto
qed

theorem reachable_wallet_accounts_witness:
  "wallet_run flat_crypto sample_uuid payer_address ZERO_HASH32 sample_wallet \<and>
   total_balance sample_wallet = int (card (units (live_values [sample_record0])))"
proof -
  have "wallet_run flat_crypto sample_uuid payer_address ZERO_HASH32 sample_opened"
    unfolding sample_opened_def by (rule wallet_run.opened)
  moreover have "wallet_step flat_crypto sample_uuid sample_opened sample_wallet"
    unfolding sample_wallet_def by (rule wallet_step.genesis) (simp_all add: vr_ok_def sample_opened_simps)
  ultimately have run: "wallet_run flat_crypto sample_uuid payer_address ZERO_HASH32 sample_wallet" by (rule wallet_run.stepped)
  show ?thesis using reachable_wallet_accounts [OF run] run by (simp add: sample_wallet_ok)
qed

subsection \<open>A transfer that arrives, and its copy\<close>

definition altered_package :: transfer_package where
  "altered_package = sample_package\<lparr>tp_witness := clone_witness_for_value (tp_witness sample_package) (ValueRange 0 0)\<rparr>"

definition marking_crypto :: crypto where
  \<comment> \<open>Digests that tell the copy from everything else\<close>
  "marking_crypto = flat_crypto\<lparr>keccak256 := \<lambda>x. if x = package_hash_input altered_package then replicate 32 1 else replicate 32 0\<rparr>"

definition sample_bob :: wallet where
  "sample_bob = snd (wallet_open marking_crypto ''bob'' ZERO_HASH32 wallet_db_new 0)"

lemma marking_digests [simp]: "digests32 marking_crypto"
  by (simp add: digests32_def marking_crypto_def flat_crypto_def)

lemma sample_bob_ok: "wallet_ok marking_crypto sample_uuid sample_bob" "wa_address sample_bob = ''bob''" "wa_records sample_bob = []"
  "wd_accepted (wa_db sample_bob) = []"
  using opened_ok [of marking_crypto sample_uuid "''bob''" ZERO_HASH32 0]
  by (simp_all add: sample_bob_def wallet_open_def reload_state_def list_value_records_def owner_rows_def wallet_db_new_def)

lemma marking_node: "node_hash marking_crypto l r = replicate 32 0"
  by (simp add: node_hash_def node_input_def marking_crypto_def package_hash_input_def ascii_def)

lemma marking_fold: "fold_siblings marking_crypto k l c ss = (if ss = [] then c else replicate 32 0)"
  by (induction ss arbitrary: l c) (auto simp: marking_node)

lemma marking_unit_proven: "proven_unit marking_crypto (sample_unit h s)"
proof -
  have "verify_proof marking_crypto ZERO_HASH32 key v flat_proof 256" if "length key = 32" "length v = 32" for key v
    using that by (simp add: verify_proof_def flat_proof_def marking_fold ZERO_HASH32_def)
  then show ?thesis
    by (simp add: proven_unit_def sample_unit_def compute_addr_key_def hash_account_leaf_def keccak_length)
qed

lemma marking_accepted:
  "validate_transfer_package marking_crypto sample_context sample_package (Some ''bob'') =
     Inr \<lparr>vres_ok = True, vres_error = None, vres_accepted_witness = Some (accepted_witness sample_package ''bob'')\<rparr>"
proof -
  have seg: "segment_valid marking_crypto sample_tx (ValueRange 0 4) [sample_unit 3 sample_sidecar]"
    using marking_unit_proven [of 3 sample_sidecar]
    by (simp add: segment_valid_def sole_spend_def) (simp add: sample_unit_def sample_sidecar_def sample_tx_def vr_set_def)
  have anchor: "validate_anchor marking_crypto sample_context (ValueRange 0 4) ''alice'' chain sample_anchor = Inr None" for chain
    unfolding sample_anchor_def validate_genesis_anchor
    by (simp add: sample_context_def dict_get_default_def vr_ok_def vr_contains_range_def)
  have "tx_sender sample_tx = ''alice''" "tx_recipient sample_tx = ''bob''" by (simp_all add: sample_tx_def)
  then have "validate_transfer marking_crypto sample_context sample_tx (ValueRange 0 4)
     (WitnessV2 (ValueRange 0 4) ''alice'' [sample_unit 3 sample_sidecar] sample_anchor) ''bob'' = Inr None"
    using validate_segment [of "[sample_unit 3 sample_sidecar]" "ValueRange 0 4"] seg anchor sample_tx_ok(2)
    by (simp add: vr_ok_def) (simp add: sample_unit_def)
  then show ?thesis by (simp add: package_result sample_package_def)
qed

lemma altered_hash:
  "transfer_package_hash marking_crypto altered_package = replicate 32 1"
  "transfer_package_hash marking_crypto sample_package = replicate 32 0"
proof -
  have enc: "encodes (transfer_package_obj sample_package)" "encodes (transfer_package_obj altered_package)"
    by (simp_all add: encodes_simps transfer_package_obj_def altered_package_def sample_package_def clone_witness_for_value_def
        sample_anchor_def sample_unit_def flat_proof_def ZERO_HASH32_def confirmed_unit_obj_def genesis_anchor_obj_def receipt_obj_def
        header_lite_obj_def bundle_ref_opt_obj_def bytes_opt_obj_def smt_proof_opt_obj_def proof_ref_opt_obj_def)
  have "sample_package \<noteq> altered_package"
    by (simp add: altered_package_def sample_package_def clone_witness_for_value_def)
  then have "package_hash_input sample_package \<noteq> package_hash_input altered_package"
    using enc unfolding package_hash_input_def by (auto simp: encodes_def dest: canonical_bytes_inject transfer_package_inject)
  then show "transfer_package_hash marking_crypto altered_package = replicate 32 1"
    "transfer_package_hash marking_crypto sample_package = replicate 32 0"
    by (simp_all add: transfer_package_hash_def marking_crypto_def)
qed

lemma sample_package_full: "full_witness (tp_witness sample_package)" "vr_ok (tp_target_value sample_package)"
  by (simp_all add: full_witness_def sample_package_def sample_anchor_def sample_unit_def full_receipt_def receipt_init_def
      hash32_opt_def vr_ok_def)

lemma sample_received: "\<exists>r w1. receive_transfer marking_crypto sample_uuid sample_context sample_package 7 sample_bob = (Inr r, w1)"
proof -
  have "judge_transfer marking_crypto sample_context sample_package sample_bob = Inr (accepted_witness sample_package ''bob'')"
    by (simp add: judge_transfer_def sample_bob_ok marking_accepted has_accepted_transfer_package_def)
  then show ?thesis
    using receive_stores [OF marking_digests sample_uuid_inj sample_bob_ok(1) _ sample_package_full(1)] by metis
qed

theorem transfer_credited_once_witness:
  "\<exists>r w1 w2. receive_transfer marking_crypto sample_uuid sample_context sample_package 7 sample_bob = (Inr r, w1) \<and> total_balance w1 = 5 \<and>
     w2 = snd (wallet_gc_unused_sidecars marking_crypto (snd (wallet_open marking_crypto (wa_address w1) ZERO_HASH32 (wa_db w1) (wa_drawn w1)))) \<and>
     receive_transfer marking_crypto sample_uuid sample_context sample_package 8 w2 = (Inl PackageAlreadyAccepted, w2)"
proof -
  obtain r w1 where r: "receive_transfer marking_crypto sample_uuid sample_context sample_package 7 sample_bob = (Inr r, w1)"
    using sample_received by blast
  have d: "\<forall>v\<in>set (live_values (wa_records sample_bob)). \<not> vr_intersects v (tp_target_value sample_package)" by (simp add: sample_bob_ok)
  let ?w = "snd (wallet_open marking_crypto (wa_address w1) ZERO_HASH32 (wa_db w1) (wa_drawn w1))"
  have "(wallet_call marking_crypto sample_uuid)\<^sup>*\<^sup>* w1 (snd (wallet_gc_unused_sidecars marking_crypto ?w))"
    by (meson r_into_rtranclp rtranclp.rtrancl_into_rtrancl wallet_call.gc wallet_call.reopened)
  from transfer_credited_once [OF marking_digests sample_uuid_inj sample_bob_ok(1) sample_package_full d r this] r
  show ?thesis by (simp add: total_balance_eq sample_bob_ok) (simp add: sample_package_def vr_size_def)
qed

theorem altered_copy_credited_again_witness:
  "\<exists>r w1 r' w2. receive_transfer marking_crypto sample_uuid sample_context sample_package 7 sample_bob = (Inr r, w1) \<and>
     receive_transfer marking_crypto sample_uuid sample_context altered_package 8 w1 = (Inr r', w2) \<and> total_balance w2 = 10"
proof -
  obtain r w1 where r: "receive_transfer marking_crypto sample_uuid sample_context sample_package 7 sample_bob = (Inr r, w1)"
    using sample_received by blast
  have d: "\<forall>v\<in>set (live_values (wa_records sample_bob)). \<not> vr_intersects v (tp_target_value sample_package)" by (simp add: sample_bob_ok)
  have h: "transfer_package_hash marking_crypto altered_package \<noteq> transfer_package_hash marking_crypto sample_package"
    by (simp add: altered_hash)
  have "\<not> has_accepted_transfer_package (wa_address sample_bob) (transfer_package_hash marking_crypto altered_package) (wa_db sample_bob)"
    by (simp add: has_accepted_transfer_package_def sample_bob_ok)
  from altered_copy_credited_again [OF marking_digests sample_uuid_inj sample_bob_ok(1) sample_package_full d r altered_package_def h this, of 8] r
  show ?thesis by (simp add: total_balance_eq sample_bob_ok) (auto simp add: sample_package_def vr_size_def)
qed

end
