(* ===== verification/Runtime.thy ===== *)
theory Runtime
  imports Chain_Steps Wallet_Samples
begin

section \<open>The node runtime (\<open>EZ_V2/runtime_v2.py\<close>)\<close>

text \<open>
  \<open>V2Runtime\<close> puts a chain and the wallets of its accounts together: it shows every block to every registered
  wallet, hands each receipt to the wallet of its sender and a transfer package to the wallet of its recipient.
  The runtime is a record; the registered wallets are the entries of its dict, so a call on a registered wallet
  object is an update of its entry. Every wallet draws its record ids from a stream of its own, \<open>uuid address\<close>.
\<close>

datatype runtime_error =
    ChainRaised chain_error
  | NothingToPackage
  | UnknownWallet
  | WalletProblem account_error
  | AllocationRange value_error

datatype delivery_error =
    WalletNotRegistered
  | AutoConfirmDisabled
  | MissingReceipt
  | WalletRaised account_error

record runtime =
  rt_chain :: chain_state
  rt_auto :: bool
  rt_wallets :: "(string, wallet) dict"
  rt_auto_confirm :: "(string, bool) dict"
  rt_allocations :: "(string, value_range list) dict"

type_synonym 'a runtime_outcome = "(runtime_error, 'a, runtime) outcome"

record receipt_delivery =
  rd_sender :: string
  rd_seq :: int
  rd_receipt :: "receipt option"
  rd_applied :: bool
  rd_unit :: "confirmed_unit option"
  rd_error :: "delivery_error option"

record transfer_delivery =
  td_recipient :: string
  td_package :: transfer_package
  td_accepted :: bool
  td_record :: "local_value_record option"
  td_error :: "delivery_error option"

definition runtime_new :: "chain_state \<Rightarrow> bool \<Rightarrow> runtime" where
  "runtime_new chain auto = \<lparr>rt_chain = chain, rt_auto = auto, rt_wallets = [], rt_auto_confirm = [], rt_allocations = []\<rparr>"

definition set_wallet :: "string \<Rightarrow> wallet \<Rightarrow> runtime \<Rightarrow> runtime" where
  \<comment> \<open>The wallet object registered under an address after a call on it\<close>
  "set_wallet address w rt = rt\<lparr>rt_wallets := dict_set address w (rt_wallets rt)\<rparr>"

subsection \<open>Wallets and allocations\<close>

definition register_genesis_allocation :: "string \<Rightarrow> value_range \<Rightarrow> runtime \<Rightarrow> runtime" where
  "register_genesis_allocation owner_addr v rt =
     (let existing = dict_get_default (rt_allocations rt) owner_addr []
      in if v \<in> set existing then rt
         else rt\<lparr>rt_allocations := dict_set owner_addr (sort_key vr_key (existing @ [v])) (rt_allocations rt)\<rparr>)"

fun ingest_wallet_genesis_allocations :: "local_value_record list \<Rightarrow> runtime \<Rightarrow> unit runtime_outcome" where
  "ingest_wallet_genesis_allocations [] rt = (Inr (), rt)"
| "ingest_wallet_genesis_allocations (r # records) rt =
     (case w_anchor (lvr_witness r) of
        GenesisAnchor g \<Rightarrow>
          (case make_value_range (ga_value_begin g) (ga_value_end g) of
             Inl e \<Rightarrow> (Inl (AllocationRange e), rt)
           | Inr v \<Rightarrow> ingest_wallet_genesis_allocations records (register_genesis_allocation (ga_owner g) v rt))
      | _ \<Rightarrow> ingest_wallet_genesis_allocations records rt)"

definition share_canonical_chain_headers :: "chain_state \<Rightarrow> wallet \<Rightarrow> wallet" where
  "share_canonical_chain_headers chain w = fold observe_canonical_block (cs_blocks chain) w"

definition register_wallet :: "wallet \<Rightarrow> bool option \<Rightarrow> runtime \<Rightarrow> unit runtime_outcome" where
  "register_wallet w auto_confirm_receipts rt =
     (let rt = rt\<lparr>rt_wallets := dict_set (wa_address w) w (rt_wallets rt),
                  rt_auto_confirm := dict_set (wa_address w)
                    (case auto_confirm_receipts of None \<Rightarrow> rt_auto rt | Some b \<Rightarrow> b) (rt_auto_confirm rt)\<rparr>
      in st_bind (ingest_wallet_genesis_allocations (list_records w None) rt) (\<lambda>_ rt.
         (Inr (), set_wallet (wa_address w) (share_canonical_chain_headers (rt_chain rt) w) rt)))"

definition unregister_wallet :: "string \<Rightarrow> runtime \<Rightarrow> runtime" where
  "unregister_wallet sender_addr rt =
     rt\<lparr>rt_wallets := dict_pop sender_addr (rt_wallets rt), rt_auto_confirm := dict_pop sender_addr (rt_auto_confirm rt)\<rparr>"

definition build_validation_context :: "runtime \<Rightarrow> checkpoint list \<Rightarrow> validation_context" where
  "build_validation_context rt trusted_checkpoints =
     \<lparr>vc_genesis_allocations = rt_allocations rt, vc_trusted_checkpoints = trusted_checkpoints\<rparr>"

subsection \<open>Bundles, blocks and receipts\<close>

record submit_result =
  sur_sender :: string
  sur_seq :: int
  sur_bundle_hash :: bytes

definition rt_submit_bundle :: "crypto \<Rightarrow> bundle_submission \<Rightarrow> runtime \<Rightarrow> submit_result runtime_outcome" where
  "rt_submit_bundle C sub rt =
     (case submit_bundle C (rt_chain rt) sub of
        Inl e \<Rightarrow> (Inl (ChainRaised e), rt)
      | Inr (chain, sender) \<Rightarrow>
          (Inr \<lparr>sur_sender = sender, sur_seq = env_seq (sub_envelope sub), sur_bundle_hash = compute_bundle_hash C (sub_sidecar sub)\<rparr>,
           rt\<lparr>rt_chain := chain\<rparr>))"

definition apply_receipt_to_wallet ::
    "crypto \<Rightarrow> (string \<Rightarrow> nat \<Rightarrow> string) \<Rightarrow> string \<Rightarrow> receipt \<Rightarrow> wallet \<Rightarrow> runtime \<Rightarrow> receipt_delivery \<times> runtime" where
  \<comment> \<open>\<open>address\<close> is the key under which the wallet is registered.\<close>
  "apply_receipt_to_wallet C uuid address r w rt =
     (case on_receipt_confirmed C (uuid (wa_address w)) r w of
        (Inl e, w') \<Rightarrow>
          (\<lparr>rd_sender = wa_address w, rd_seq = rc_seq r, rd_receipt = Some r, rd_applied = False, rd_unit = None,
             rd_error = Some (WalletRaised e)\<rparr>, set_wallet address w' rt)
      | (Inr unit, w') \<Rightarrow>
          (\<lparr>rd_sender = wa_address w, rd_seq = rc_seq r, rd_receipt = Some r, rd_applied = True, rd_unit = Some unit,
             rd_error = None\<rparr>, set_wallet address w' rt))"

definition deliver_receipt ::
    "crypto \<Rightarrow> (string \<Rightarrow> nat \<Rightarrow> string) \<Rightarrow> string \<Rightarrow> receipt \<Rightarrow> runtime \<Rightarrow> receipt_delivery \<times> runtime" where
  "deliver_receipt C uuid sender_addr r rt =
     (case dict_get (rt_wallets rt) sender_addr of
        None \<Rightarrow>
          (\<lparr>rd_sender = sender_addr, rd_seq = rc_seq r, rd_receipt = Some r, rd_applied = False, rd_unit = None,
             rd_error = Some WalletNotRegistered\<rparr>, rt)
      | Some w \<Rightarrow>
          if \<not> dict_get_default (rt_auto_confirm rt) sender_addr (rt_auto rt)
          then (\<lparr>rd_sender = sender_addr, rd_seq = rc_seq r, rd_receipt = Some r, rd_applied = False, rd_unit = None,
                  rd_error = Some AutoConfirmDisabled\<rparr>, rt)
          else apply_receipt_to_wallet C uuid sender_addr r w rt)"

fun deliver_receipts ::
    "crypto \<Rightarrow> (string \<Rightarrow> nat \<Rightarrow> string) \<Rightarrow> receipts \<Rightarrow> runtime \<Rightarrow> (string, receipt_delivery) dict \<times> runtime" where
  \<comment> \<open>The keys of \<open>receipts\<close> are distinct, so the comprehension keeps one entry for each.\<close>
  "deliver_receipts C uuid [] rt = ([], rt)"
| "deliver_receipts C uuid ((sender_addr, r) # receipts) rt =
     (let (delivery, rt) = deliver_receipt C uuid sender_addr r rt;
          (deliveries, rt) = deliver_receipts C uuid receipts rt
      in ((sender_addr, delivery) # deliveries, rt))"

definition share_block_with_wallets :: "block \<Rightarrow> runtime \<Rightarrow> runtime" where
  "share_block_with_wallets b rt = rt\<lparr>rt_wallets := map (\<lambda>(a, w). (a, observe_canonical_block b w)) (rt_wallets rt)\<rparr>"

record block_result =
  bre_block :: block
  bre_receipts :: receipts
  bre_deliveries :: "(string, receipt_delivery) dict"

definition settle_block :: "crypto \<Rightarrow> (string \<Rightarrow> nat \<Rightarrow> string) \<Rightarrow> block \<Rightarrow> receipts \<Rightarrow> runtime \<Rightarrow> block_result \<times> runtime" where
  \<comment> \<open>What \<open>produce_block\<close> and \<open>apply_block\<close> do once the chain has the block\<close>
  "settle_block C uuid b receipts rt =
     (let (deliveries, rt) = deliver_receipts C uuid receipts (share_block_with_wallets b rt)
      in (\<lparr>bre_block = b, bre_receipts = receipts, bre_deliveries = deliveries\<rparr>, rt))"

definition rt_produce_block ::
    "crypto \<Rightarrow> (string \<Rightarrow> nat \<Rightarrow> string) \<Rightarrow> int \<Rightarrow> bytes \<Rightarrow> bytes \<Rightarrow> int option \<Rightarrow> runtime \<Rightarrow> block_result runtime_outcome" where
  "rt_produce_block C uuid timestamp proposer_sig consensus_extra limit rt =
     (if pool_snapshot C (cs_pool (rt_chain rt)) limit = [] then (Inl NothingToPackage, rt)
      else
        case build_block C (rt_chain rt) timestamp proposer_sig consensus_extra limit of
          Inl e \<Rightarrow> (Inl (ChainRaised e), rt)
        | Inr (b, receipts, chain) \<Rightarrow>
            let (result, rt) = settle_block C uuid b receipts (rt\<lparr>rt_chain := chain\<rparr>) in (Inr result, rt))"

definition rt_apply_block ::
    "crypto \<Rightarrow> (string \<Rightarrow> nat \<Rightarrow> string) \<Rightarrow> block \<Rightarrow> runtime \<Rightarrow> block_result runtime_outcome" where
  "rt_apply_block C uuid b rt =
     (case apply_block C (rt_chain rt) b of
        Inl e \<Rightarrow> (Inl (ChainRaised e), rt)
      | Inr (receipts, chain) \<Rightarrow>
          let (result, rt) = settle_block C uuid b receipts (rt\<lparr>rt_chain := chain\<rparr>) in (Inr result, rt))"

definition rt_get_receipt :: "string \<Rightarrow> int \<Rightarrow> runtime \<Rightarrow> receipt_response" where
  "rt_get_receipt sender_addr seq rt = get_receipt (cs_cache (rt_chain rt)) sender_addr seq"

definition rt_get_receipt_by_ref :: "bundle_ref \<Rightarrow> runtime \<Rightarrow> receipt_response" where
  "rt_get_receipt_by_ref ref rt = get_receipt_by_ref (cs_cache (rt_chain rt)) ref"

fun sync_contexts ::
    "crypto \<Rightarrow> (string \<Rightarrow> nat \<Rightarrow> string) \<Rightarrow> string \<Rightarrow> pending_bundle_context list \<Rightarrow> runtime \<Rightarrow> receipt_delivery list runtime_outcome" where
  \<comment> \<open>The loop of \<open>sync_wallet_receipts\<close>; the wallet is read again after each of its calls.\<close>
  "sync_contexts C uuid sender_addr [] rt = (Inr [], rt)"
| "sync_contexts C uuid sender_addr (context # contexts) rt =
     (case dict_get (rt_wallets rt) sender_addr of
        None \<Rightarrow> (Inl UnknownWallet, rt)
      | Some w \<Rightarrow>
          st_bind
            (case rr_receipt (rt_get_receipt sender_addr (pbc_seq context) rt) of
               None \<Rightarrow>
                 (case mark_receipt_missing C (pbc_seq context) w of
                    (Inl e, w') \<Rightarrow> (Inl (WalletProblem e), set_wallet sender_addr w' rt)
                  | (Inr _, w') \<Rightarrow>
                      (Inr \<lparr>rd_sender = sender_addr, rd_seq = pbc_seq context, rd_receipt = None, rd_applied = False,
                         rd_unit = None, rd_error = Some MissingReceipt\<rparr>, set_wallet sender_addr w' rt))
             | Some r \<Rightarrow> let (delivery, rt) = apply_receipt_to_wallet C uuid sender_addr r w rt in (Inr delivery, rt))
            (\<lambda>delivery rt. st_bind (sync_contexts C uuid sender_addr contexts rt) (\<lambda>rest rt. (Inr (delivery # rest), rt))))"

definition sync_wallet_receipts ::
    "crypto \<Rightarrow> (string \<Rightarrow> nat \<Rightarrow> string) \<Rightarrow> string \<Rightarrow> runtime \<Rightarrow> receipt_delivery list runtime_outcome" where
  "sync_wallet_receipts C uuid sender_addr rt =
     (case dict_get (rt_wallets rt) sender_addr of
        None \<Rightarrow> (Inl UnknownWallet, rt)
      | Some w \<Rightarrow> sync_contexts C uuid sender_addr (wallet_pending_bundles w) rt)"

definition deliver_transfer_package ::
    "crypto \<Rightarrow> (string \<Rightarrow> nat \<Rightarrow> string) \<Rightarrow> transfer_package \<Rightarrow> string option \<Rightarrow> checkpoint list \<Rightarrow> int \<Rightarrow> runtime \<Rightarrow>
       transfer_delivery \<times> runtime" where
  "deliver_transfer_package C uuid package recipient_addr trusted_checkpoints now rt =
     (let recipient = (case recipient_addr of None \<Rightarrow> tx_recipient (tp_target_tx package)
                       | Some addr \<Rightarrow> if addr = [] then tx_recipient (tp_target_tx package) else addr)
      in case dict_get (rt_wallets rt) recipient of
           None \<Rightarrow>
             (\<lparr>td_recipient = recipient, td_package = package, td_accepted = False, td_record = None,
                td_error = Some WalletNotRegistered\<rparr>, rt)
         | Some w \<Rightarrow>
             let trusted = (if trusted_checkpoints = [] then trusted_checkpoints_for_witness C w (tp_witness package)
                            else trusted_checkpoints)
             in case receive_transfer C (uuid (wa_address w)) (build_validation_context rt trusted) package now w of
                  (Inl e, w') \<Rightarrow>
                    (\<lparr>td_recipient = recipient, td_package = package, td_accepted = False, td_record = None,
                       td_error = Some (WalletRaised e)\<rparr>, set_wallet recipient w' rt)
                | (Inr r, w') \<Rightarrow>
                    (\<lparr>td_recipient = recipient, td_package = package, td_accepted = True, td_record = Some r,
                       td_error = None\<rparr>, set_wallet recipient w' rt))"

end
