(* ===== verification/Node_Store.thy ===== *)
theory Node_Store
  imports Runtime
begin

section \<open>A node that keeps its chain (\<open>EZ_V2/consensus_store.py\<close> and \<open>V2ConsensusNode\<close> of \<open>EZ_V2/localnet.py\<close>)\<close>

text \<open>
  \<open>ConsensusStateStore\<close> keeps the blocks a node has applied, a window of receipts with the proof batches of their blocks,
  the genesis allocations and one row about the current state. A node that starts applies all stored blocks to an
  empty chain and compares the result with that row. A table is a dict from its primary key to the other columns, in
  row order; a JSON column holds the object, and \<open>with self._conn\<close> is one update that happens or raises.
\<close>

datatype node_error =
    MissingReceipts
  | ReceiptWithoutEntry
  | EntryWithoutRef
  | ConflictingHistory
  | StoredProblem db_error
  | VersionChanged
  | ChainIdChanged
  | HeightChanged
  | BlockHashChanged
  | StateRootChanged
  | StoredRange value_error
  | NodeChain chain_error
  | NodeRuntime runtime_error

subsection \<open>The store\<close>

record node_metadata =
  nm_version :: int
  nm_chain_id :: int
  nm_cache_blocks :: int
  nm_genesis :: bytes
  nm_height :: int
  nm_block_hash :: bytes
  nm_state_root :: bytes

record window_row =
  wr_height :: int
  wr_key :: string
  wr_receipt :: receipt

record node_store =
  ns_state :: "node_metadata option"
  ns_blocks :: "(int, bytes \<times> block) dict"
  ns_receipts :: "(string \<times> int, window_row) dict"
  ns_batches :: "(string, int \<times> receipt_proof_batch) dict"
  ns_allocations :: "(string \<times> int \<times> int) list"

definition node_store_new :: node_store where
  \<comment> \<open>The tables after \<open>_init_schema\<close> on a new file\<close>
  "node_store_new = \<lparr>ns_state = None, ns_blocks = [], ns_receipts = [], ns_batches = [], ns_allocations = []\<rparr>"

definition load_metadata :: "node_store \<Rightarrow> node_metadata option" where
  "load_metadata s = ns_state s"

definition list_blocks :: "node_store \<Rightarrow> block list" where
  "list_blocks s = map (snd \<circ> snd) (sort_key fst (ns_blocks s))"

definition get_block_by_height :: "int \<Rightarrow> node_store \<Rightarrow> block option" where
  "get_block_by_height height s = map_option snd (dict_get (ns_blocks s) height)"

definition get_block_by_hash :: "bytes \<Rightarrow> node_store \<Rightarrow> block option" where
  "get_block_by_hash block_hash s = map_option (snd \<circ> snd) (find (\<lambda>(_, h, _). h = block_hash) (ns_blocks s))"

definition node_proof_batch :: "node_store \<Rightarrow> batch_lookup" where
  \<comment> \<open>\<open>get_receipt_proof_batch\<close> of the store\<close>
  "node_proof_batch s i = map_option snd (dict_get (ns_batches s) i)"

definition compact_receipt_with_batch :: "crypto \<Rightarrow> string \<Rightarrow> receipt_proof_batch option \<Rightarrow> receipt \<Rightarrow> node_error + receipt" where
  \<comment> \<open>The function of the same shape in \<open>storage.py\<close>\<close>
  "compact_receipt_with_batch C sender_addr proof_batch r = map_sum StoredProblem id (compact_receipt C sender_addr proof_batch r)"

definition materialize_with_lookup :: "crypto \<Rightarrow> batch_lookup \<Rightarrow> receipt \<Rightarrow> node_error + receipt" where
  \<comment> \<open>The function of the same shape in \<open>storage.py\<close>\<close>
  "materialize_with_lookup C lookup r = map_sum StoredProblem id (materialize_receipt C lookup r)"

definition entry_refs :: "block \<Rightarrow> (string, bundle_ref option) dict" where
  "entry_refs b = fold (\<lambda>e. dict_set (leaf_addr (de_new_leaf e)) (leaf_head_ref (de_new_leaf e))) (dp_entries (blk_diff b)) []"

fun save_window ::
    "crypto \<Rightarrow> receipt_proof_batch option \<Rightarrow> (string, bundle_ref option) dict \<Rightarrow> receipts \<Rightarrow>
       (string \<times> int, window_row) dict \<Rightarrow> node_error + (string \<times> int, window_row) dict" where
  \<comment> \<open>The loop over \<open>receipts\<close>: an upsert whose reference key must be unique\<close>
  "save_window C proof_batch refs [] rows = Inr rows"
| "save_window C proof_batch refs ((sender_addr, r) # receipts) rows =
     (case dict_get refs sender_addr of
        None \<Rightarrow> Inl ReceiptWithoutEntry
      | Some bundle_ref \<Rightarrow>
          res_bind (compact_receipt_with_batch C sender_addr proof_batch r) (\<lambda>compact.
          case bundle_ref of
            None \<Rightarrow> Inl EntryWithoutRef
          | Some ref \<Rightarrow>
              let k = (sender_addr, rc_seq compact); key = bundle_ref_key ref
              in if \<exists>(k', row)\<in>set rows. k' \<noteq> k \<and> wr_key row = key then Inl ConflictingHistory
                 else save_window C proof_batch refs receipts
                   (dict_set k \<lparr>wr_height = hl_height (rc_header compact), wr_key = key, wr_receipt = compact\<rparr> rows)))"

definition save_applied_block ::
    "crypto \<Rightarrow> block \<Rightarrow> receipts \<Rightarrow> int \<Rightarrow> int \<Rightarrow> int \<Rightarrow> bytes \<Rightarrow> receipt_proof_batch option \<Rightarrow> node_store \<Rightarrow>
       node_error + node_store" where
  "save_applied_block C b receipts version chain_id receipt_cache_blocks genesis_block_hash proof_batch s =
     (let refs = entry_refs b; height = bh_height (blk_header b);
          min_height = max 1 (height - receipt_cache_blocks + 1)
      in if \<exists>(addr, _)\<in>set refs. dict_get receipts addr = None then Inl MissingReceipts
         else if \<exists>(h, block_hash, _)\<in>set (ns_blocks s). h = height \<or> block_hash = blk_hash b then Inl ConflictingHistory
         else
           res_bind (save_window C proof_batch refs receipts (ns_receipts s)) (\<lambda>rows.
           let batches = (case proof_batch of
                 None \<Rightarrow> ns_batches s
               | Some batch \<Rightarrow> dict_set (rpb_batch_id batch) (height, batch) (ns_batches s))
           in Inr (s\<lparr>ns_blocks := dict_set height (blk_hash b, b) (ns_blocks s),
                ns_receipts := filter (\<lambda>(_, row). \<not> wr_height row < min_height) rows,
                ns_batches := filter (\<lambda>(_, h, _). \<not> h < min_height) batches,
                ns_state := Some \<lparr>nm_version = version, nm_chain_id = chain_id, nm_cache_blocks = receipt_cache_blocks,
                  nm_genesis = genesis_block_hash, nm_height = height, nm_block_hash = blk_hash b,
                  nm_state_root = bh_state_root (blk_header b)\<rparr>\<rparr>)))"

definition stored_response :: "crypto \<Rightarrow> node_store \<Rightarrow> receipt option \<Rightarrow> node_error + receipt_response" where
  "stored_response C s found =
     (case found of
        None \<Rightarrow> Inr (receipt_response_of None)
      | Some r \<Rightarrow> map_sum id (\<lambda>r. receipt_response_of (Some r)) (materialize_with_lookup C (node_proof_batch s) r))"

definition store_get_receipt :: "crypto \<Rightarrow> string \<Rightarrow> int \<Rightarrow> node_store \<Rightarrow> node_error + receipt_response" where
  "store_get_receipt C sender_addr seq s =
     stored_response C s (map_option wr_receipt (dict_get (ns_receipts s) (sender_addr, seq)))"

definition store_get_receipt_by_ref :: "crypto \<Rightarrow> bundle_ref \<Rightarrow> node_store \<Rightarrow> node_error + receipt_response" where
  "store_get_receipt_by_ref C ref s =
     stored_response C s (map_option (wr_receipt \<circ> snd) (find (\<lambda>(_, row). wr_key row = bundle_ref_key ref) (ns_receipts s)))"

definition save_genesis_allocation :: "string \<Rightarrow> value_range \<Rightarrow> node_store \<Rightarrow> node_store" where
  "save_genesis_allocation owner_addr v s =
     (let row = (owner_addr, vr_begin v, vr_end v)
      in if row \<in> set (ns_allocations s) then s else s\<lparr>ns_allocations := ns_allocations s @ [row]\<rparr>)"

fun group_allocations ::
    "(string \<times> int \<times> int) list \<Rightarrow> (string, value_range list) dict \<Rightarrow> node_error + (string, value_range list) dict" where
  "group_allocations [] grouped = Inr grouped"
| "group_allocations ((owner_addr, value_begin, value_end) # rows) grouped =
     res_bind (map_sum StoredRange id (make_value_range value_begin value_end)) (\<lambda>v.
     group_allocations rows (dict_set owner_addr (dict_get_default grouped owner_addr [] @ [v]) grouped))"

definition list_genesis_allocations :: "node_store \<Rightarrow> node_error + (string, value_range list) dict" where
  "list_genesis_allocations s = group_allocations (sort_key id (ns_allocations s)) []"

fun replay_blocks :: "crypto \<Rightarrow> chain_state \<Rightarrow> block list \<Rightarrow> node_error + chain_state" where
  "replay_blocks C chain [] = Inr chain"
| "replay_blocks C chain (b # blocks) =
     res_bind (map_sum NodeChain id (apply_block C chain b)) (\<lambda>(_, chain). replay_blocks C chain blocks)"

definition load_chain_state :: "crypto \<Rightarrow> int \<Rightarrow> int \<Rightarrow> int \<Rightarrow> bytes \<Rightarrow> node_store \<Rightarrow> node_error + chain_state" where
  \<comment> \<open>32768, 128 and 64 are the limits \<open>ChainStateV2\<close> gives its pool by default.\<close>
  "load_chain_state C version chain_id receipt_cache_blocks genesis_block_hash s =
     (case load_metadata s of
        None \<Rightarrow> Inr (chain_new C version chain_id receipt_cache_blocks 32768 128 64 genesis_block_hash)
      | Some m \<Rightarrow>
          if nm_version m \<noteq> version then Inl VersionChanged
          else if nm_chain_id m \<noteq> chain_id then Inl ChainIdChanged
          else
            res_bind (replay_blocks C
              (chain_new C (nm_version m) (nm_chain_id m) (nm_cache_blocks m) 32768 128 64 (nm_genesis m)) (list_blocks s)) (\<lambda>chain.
            if cs_height chain \<noteq> nm_height m then Inl HeightChanged
            else if cs_block_hash chain \<noteq> nm_block_hash m then Inl BlockHashChanged
            else
              res_bind (map_sum (NodeChain \<circ> ChainSmt) id (smt_root C (cs_tree chain))) (\<lambda>root.
              if root \<noteq> nm_state_root m then Inl StateRootChanged else Inr chain)))"

subsection \<open>The node\<close>

record consensus_node =
  cn_store :: node_store
  cn_runtime :: runtime
  cn_genesis :: bytes

type_synonym 'a node_outcome = "(node_error, 'a, consensus_node) outcome"

definition node_open :: "crypto \<Rightarrow> node_store \<Rightarrow> int \<Rightarrow> int \<Rightarrow> bool \<Rightarrow> bytes \<Rightarrow> node_error + consensus_node" where
  "node_open C s chain_id receipt_cache_blocks auto genesis_block_hash =
     res_bind (load_chain_state C 2 chain_id receipt_cache_blocks genesis_block_hash s) (\<lambda>chain.
     res_bind (list_genesis_allocations s) (\<lambda>allocations.
     Inr \<lparr>cn_store = s,
       cn_runtime = fold (\<lambda>(owner_addr, values). fold (register_genesis_allocation owner_addr) values) allocations (runtime_new chain auto),
       cn_genesis = (case load_metadata s of None \<Rightarrow> genesis_block_hash | Some m \<Rightarrow> nm_genesis m)\<rparr>))"

definition node_chain :: "consensus_node \<Rightarrow> chain_state" where
  "node_chain node = rt_chain (cn_runtime node)"

definition node_register_wallet :: "wallet \<Rightarrow> bool option \<Rightarrow> consensus_node \<Rightarrow> unit node_outcome" where
  "node_register_wallet w auto_confirm node =
     (case register_wallet w auto_confirm (cn_runtime node) of
        (Inl e, rt) \<Rightarrow> (Inl (NodeRuntime e), node\<lparr>cn_runtime := rt\<rparr>)
      | (Inr _, rt) \<Rightarrow> (Inr (), node\<lparr>cn_runtime := rt\<rparr>))"

definition node_unregister_wallet :: "string \<Rightarrow> consensus_node \<Rightarrow> consensus_node" where
  "node_unregister_wallet sender_addr node = node\<lparr>cn_runtime := unregister_wallet sender_addr (cn_runtime node)\<rparr>"

definition node_register_allocation :: "string \<Rightarrow> value_range \<Rightarrow> consensus_node \<Rightarrow> consensus_node" where
  "node_register_allocation owner_addr v node =
     node\<lparr>cn_store := save_genesis_allocation owner_addr v (cn_store node),
          cn_runtime := register_genesis_allocation owner_addr v (cn_runtime node)\<rparr>"

definition node_submit_bundle :: "crypto \<Rightarrow> bundle_submission \<Rightarrow> consensus_node \<Rightarrow> submit_result node_outcome" where
  "node_submit_bundle C sub node =
     (case rt_submit_bundle C sub (cn_runtime node) of
        (Inl e, rt) \<Rightarrow> (Inl (NodeRuntime e), node\<lparr>cn_runtime := rt\<rparr>)
      | (Inr result, rt) \<Rightarrow> (Inr result, node\<lparr>cn_runtime := rt\<rparr>))"

definition node_settle ::
    "crypto \<Rightarrow> (string \<Rightarrow> nat \<Rightarrow> string) \<Rightarrow> block \<Rightarrow> receipts \<Rightarrow> chain_state \<Rightarrow> consensus_node \<Rightarrow> block_result node_outcome" where
  \<comment> \<open>What \<open>produce_block\<close> and \<open>apply_block\<close> do once the chain in memory has moved on\<close>
  "node_settle C uuid b receipts chain node =
     (let rt = (cn_runtime node)\<lparr>rt_chain := chain\<rparr>;
          proof_batch = get_proof_batch (cs_cache chain) (batch_id (bh_height (blk_header b)) (blk_hash b))
      in case save_applied_block C b receipts (cs_version chain) (cs_chain_id chain) (rca_max_blocks (cs_cache chain))
             (cn_genesis node) proof_batch (cn_store node) of
           Inl e \<Rightarrow> (Inl e, node\<lparr>cn_runtime := rt\<rparr>)
         | Inr s \<Rightarrow>
             let (result, rt) = settle_block C uuid b receipts rt
             in (Inr result, node\<lparr>cn_store := s, cn_runtime := rt\<rparr>))"

definition node_produce_block ::
    "crypto \<Rightarrow> (string \<Rightarrow> nat \<Rightarrow> string) \<Rightarrow> int \<Rightarrow> bytes \<Rightarrow> bytes \<Rightarrow> int option \<Rightarrow> consensus_node \<Rightarrow> block_result node_outcome" where
  "node_produce_block C uuid timestamp proposer_sig consensus_extra limit node =
     (if pool_snapshot C (cs_pool (node_chain node)) limit = [] then (Inl (NodeRuntime NothingToPackage), node)
      else
        case build_block C (node_chain node) timestamp proposer_sig consensus_extra limit of
          Inl e \<Rightarrow> (Inl (NodeChain e), node)
        | Inr (b, receipts, chain) \<Rightarrow> node_settle C uuid b receipts chain node)"

definition node_preview_block ::
    "crypto \<Rightarrow> int \<Rightarrow> bytes \<Rightarrow> bytes \<Rightarrow> int option \<Rightarrow> consensus_node \<Rightarrow> node_error + (block \<times> receipts)" where
  "node_preview_block C timestamp proposer_sig consensus_extra limit node =
     (if pool_snapshot C (cs_pool (node_chain node)) limit = [] then Inl (NodeRuntime NothingToPackage)
      else map_sum NodeChain id (preview_block C (node_chain node) timestamp proposer_sig consensus_extra limit))"

definition node_apply_block ::
    "crypto \<Rightarrow> (string \<Rightarrow> nat \<Rightarrow> string) \<Rightarrow> block \<Rightarrow> consensus_node \<Rightarrow> block_result node_outcome" where
  "node_apply_block C uuid b node =
     (case apply_block C (node_chain node) b of
        Inl e \<Rightarrow> (Inl (NodeChain e), node)
      | Inr (receipts, chain) \<Rightarrow> node_settle C uuid b receipts chain node)"

definition node_get_receipt :: "crypto \<Rightarrow> string \<Rightarrow> int \<Rightarrow> consensus_node \<Rightarrow> node_error + receipt_response" where
  "node_get_receipt C sender_addr seq node =
     (let response = rt_get_receipt sender_addr seq (cn_runtime node)
      in if rr_receipt response \<noteq> None then Inr response else store_get_receipt C sender_addr seq (cn_store node))"

definition node_get_receipt_by_ref :: "crypto \<Rightarrow> bundle_ref \<Rightarrow> consensus_node \<Rightarrow> node_error + receipt_response" where
  "node_get_receipt_by_ref C ref node =
     (let response = rt_get_receipt_by_ref ref (cn_runtime node)
      in if rr_receipt response \<noteq> None then Inr response else store_get_receipt_by_ref C ref (cn_store node))"

definition node_get_proof_batch :: "string \<Rightarrow> consensus_node \<Rightarrow> receipt_proof_batch option" where
  "node_get_proof_batch i node =
     (case get_proof_batch (cs_cache (node_chain node)) i of
        Some proof_batch \<Rightarrow> Some proof_batch
      | None \<Rightarrow> node_proof_batch (cn_store node) i)"

definition node_list_allocations :: "string \<Rightarrow> consensus_node \<Rightarrow> node_error + value_range list" where
  \<comment> \<open>With an owner; without one it is \<open>list_genesis_allocations\<close> of the store.\<close>
  "node_list_allocations owner_addr node =
     map_sum id (\<lambda>allocations. dict_get_default allocations owner_addr []) (list_genesis_allocations (cn_store node))"

definition node_sync_wallet_receipts ::
    "crypto \<Rightarrow> (string \<Rightarrow> nat \<Rightarrow> string) \<Rightarrow> string \<Rightarrow> consensus_node \<Rightarrow> receipt_delivery list node_outcome" where
  "node_sync_wallet_receipts C uuid sender_addr node =
     (case sync_wallet_receipts C uuid sender_addr (cn_runtime node) of
        (Inl e, rt) \<Rightarrow> (Inl (NodeRuntime e), node\<lparr>cn_runtime := rt\<rparr>)
      | (Inr deliveries, rt) \<Rightarrow> (Inr deliveries, node\<lparr>cn_runtime := rt\<rparr>))"

definition node_deliver_transfer_package ::
    "crypto \<Rightarrow> (string \<Rightarrow> nat \<Rightarrow> string) \<Rightarrow> transfer_package \<Rightarrow> string option \<Rightarrow> checkpoint list \<Rightarrow> int \<Rightarrow> consensus_node \<Rightarrow>
       transfer_delivery \<times> consensus_node" where
  "node_deliver_transfer_package C uuid package recipient_addr trusted_checkpoints now node =
     (let (delivery, rt) = deliver_transfer_package C uuid package recipient_addr trusted_checkpoints now (cn_runtime node)
      in (delivery, node\<lparr>cn_runtime := rt\<rparr>))"

end
