(* ===== verification/Runtime_Safety.thy ===== *)
theory Runtime_Safety
  imports Runtime
begin

section \<open>A payment from the wallet through the chain and back\<close>

text \<open>
  What the chain and a wallet promise each other. A wallet is in step with the chain when the reference of its last confirmed bundle is
  the one in its leaf and its history lies below the chain's height. Then the receipt of its pending bundle passes every check
  of the wallet, and the wallet is in step with the next state.
\<close>

subsection \<open>Reference keys\<close>

lemma minus_notin_str_nat [simp]: "CHR ''-'' \<notin> set (str_nat n)"
proof (induction n rule: str_nat.induct)
  case (1 n)
  have *: "(char_of (48 + k) :: char) \<noteq> CHR ''-''" if "k < 10" for k :: nat
  proof
    assume "(char_of (48 + k) :: char) = CHR ''-''"
    then have "(of_char (char_of (48 + k) :: char) :: nat) = of_char (CHR ''-'')" by (rule arg_cong)
    with that show False by (simp only: of_char_decimal [OF that]) simp
  qed
  show ?case
    using * [of n] * [of "n mod 10"] "1.IH"
    by (subst str_nat.simps) (auto simp: eq_commute [of "CHR ''-''"] simp del: char_of_eq_iff)
qed

lemma colon_notin_str_int [simp]: "CHR '':'' \<notin> set (str_int n)"
  by (simp add: str_int_def)

lemma str_int_inject [simp]: "str_int m = str_int n \<longleftrightarrow> m = n"
proof
  have "str_nat (nat i) \<noteq> CHR ''-'' # s" for i s using minus_notin_str_nat [of "nat i"] by (metis list.set_intros(1))
  then show "str_int m = str_int n \<Longrightarrow> m = n" by (auto simp: str_int_def split: if_splits dest: sym)
qed simp

lemma ref_key_height:
  assumes "bundle_ref_key_from_fields h b x s = bundle_ref_key_from_fields h' b' x' s'"
  shows "h = h'"
  using colon_split_unique [OF assms [unfolded bundle_ref_key_from_fields_def append_Cons append_Nil]] by simp

subsection \<open>A wallet in step with the chain\<close>

definition keys_below :: "int \<Rightarrow> string set \<Rightarrow> bool" where
  \<comment> \<open>Every key is that of a bundle at a height of at most \<open>h\<close>.\<close>
  "keys_below h ks \<longleftrightarrow> (\<forall>key\<in>ks. \<exists>height block_hash bundle_hash seq. height \<le> h \<and>
     key = bundle_ref_key_from_fields height block_hash bundle_hash seq)"

lemma keys_below_mono: "keys_below h ks \<Longrightarrow> h \<le> h' \<Longrightarrow> ls \<subseteq> ks \<Longrightarrow> keys_below h' ls"
  unfolding keys_below_def by (meson order_trans subsetD)

lemma keys_below_fresh: "keys_below h ks \<Longrightarrow> h < height \<Longrightarrow> bundle_ref_key_from_fields height b x s \<notin> ks"
  unfolding keys_below_def using ref_key_height by fastforce

lemma keys_below_insert: "height \<le> h \<Longrightarrow> keys_below h (insert (bundle_ref_key_from_fields height b x s) ks) \<longleftrightarrow> keys_below h ks"
  by (auto simp: keys_below_def)

definition receipt_keys :: "wallet_db \<Rightarrow> string set" where
  "receipt_keys db = (\<lambda>(_, key, _). key) ` set (wd_receipts db)"

definition units_known :: "string \<Rightarrow> int \<Rightarrow> wallet_db \<Rightarrow> bool" where
  \<comment> \<open>No unit of the account has a later sequence number.\<close>
  "units_known address seq db \<longleftrightarrow> (\<forall>(_, row)\<in>set (wd_units db). ur_sender row = address \<longrightarrow> ur_seq row \<le> seq)"

definition in_step :: "crypto \<Rightarrow> chain_state \<Rightarrow> wallet \<Rightarrow> bool" where
  "in_step C st w \<longleftrightarrow> keys_below (cs_height st) (receipt_keys (wa_db w) \<union> fst ` set (wd_units (wa_db w))) \<and>
     units_known (wa_address w) (confirmed_seq st (wa_address w)) (wa_db w) \<and>
     (case head_ref_of (dict_get (cs_leaves st) (wa_address w)) of
        None \<Rightarrow> True
      | Some ref \<Rightarrow> 0 < br_seq ref \<and>
          (\<exists>unit. get_confirmed_unit C (wa_address w) (br_seq ref) (wa_db w) = Inr (Some unit) \<and> confirmed_ref C unit = ref))"

lemma in_step_seq: "in_step C st w \<Longrightarrow> 0 \<le> confirmed_seq st (wa_address w)"
  by (auto simp: in_step_def confirmed_seq_def split: option.splits)

lemma get_unit_cong:
  assumes "wd_units db' = wd_units db" "wd_batches db' = wd_batches db"
  shows "get_confirmed_unit C a n db' = get_confirmed_unit C a n db"
proof -
  have "db_proof_batch db' = db_proof_batch db" by (rule ext) (simp add: db_proof_batch_def assms(2))
  then show ?thesis unfolding get_confirmed_unit_def assms(1) by (simp only:)
qed

lemma in_step_cong:
  assumes "wa_address w' = wa_address w" "wd_receipts (wa_db w') = wd_receipts (wa_db w)"
    "wd_units (wa_db w') = wd_units (wa_db w)" "wd_batches (wa_db w') = wd_batches (wa_db w)"
  shows "in_step C st w' \<longleftrightarrow> in_step C st w"
  unfolding in_step_def receipt_keys_def units_known_def get_unit_cong [OF assms(3,4)] assms(1-3) ..

lemma in_step_history:
  "in_step C st w \<Longrightarrow> same_history (wa_db w) (wa_db w') \<Longrightarrow> wa_address w' = wa_address w \<Longrightarrow> in_step C st w'"
  by (simp add: in_step_cong [of w' w] same_history_def)

lemma in_step_header: "in_step C st (observe_canonical_header h w) \<longleftrightarrow> in_step C st w"
  by (rule in_step_cong) (simp_all add: observe_canonical_header_def save_canonical_header_def)

lemma receipt_checked:
  assumes "in_step C st w" "get_pending_bundle (wa_address w) (rc_seq r) (wa_db w) = Some ctx"
    "knows_canonical_header (rc_header r) w" "rc_seq r = confirmed_seq st (wa_address w) + 1"
    "rc_prev_ref r = head_ref_of (dict_get (cs_leaves st) (wa_address w))" "rc_proof r = Some p"
    "verify_proof C (hl_state_root (rc_header r)) (compute_addr_key C (wa_address w))
      (hash_account_leaf C (reconstructed_leaf C \<lparr>cu_receipt = r, cu_sidecar = pbc_sidecar ctx\<rparr>)) p 256"
  shows "check_receipt C r w = Inr ctx"
proof (cases "head_ref_of (dict_get (cs_leaves st) (wa_address w))")
  case None
  then have "rc_seq r = 1" "rc_prev_ref r = None" using assms(4,5) by (simp_all add: confirmed_seq_def)
  then show ?thesis using assms(2,3,6,7) by (simp add: check_receipt_def Let_def)
next
  case (Some ref)
  then obtain unit where "get_confirmed_unit C (wa_address w) (br_seq ref) (wa_db w) = Inr (Some unit)" "confirmed_ref C unit = ref"
      "rc_seq r = br_seq ref + 1" "rc_seq r \<noteq> 1"
    using assms(1,4) by (auto simp: in_step_def confirmed_seq_def)
  then show ?thesis using assms(2,3,5-7) Some by (simp add: check_receipt_def Let_def)
qed

lemma update_absent: "k \<notin> fst ` set d \<Longrightarrow> dict_set k v d = d @ [(k, v)]"
  by (induction d) auto

lemma get_saved_unit:
  assumes C: "digests32 C" and b: "batches_ok db" and full: "full_receipt (cu_receipt unit)"
    and saved: "save_confirmed_unit C unit db = Inr db'" and key: "bundle_ref_key (confirmed_ref C unit) \<notin> fst ` set (wd_units db)"
    and seq: "units_known a n db" "n < rc_seq (cu_receipt unit)" and a: "sc_sender (cu_sidecar unit) = a"
  shows "get_confirmed_unit C a (rc_seq (cu_receipt unit)) db' = Inr (Some unit)" "units_known a (rc_seq (cu_receipt unit)) db'"
    "fst ` set (wd_units db') = insert (bundle_ref_key (confirmed_ref C unit)) (fst ` set (wd_units db))"
    "wd_receipts db' = wd_receipts db" "wd_batches db' = wd_batches db"
proof -
  let ?k = "bundle_ref_key (confirmed_ref C unit)"
  obtain c where c: "compact_unit C (db_proof_batch db (batch_id_of (rc_header (cu_receipt unit)))) unit = Inr c"
      "materialize_unit C (db_proof_batch db) c = Inr unit" "cu_sidecar c = cu_sidecar unit" "rc_seq (cu_receipt c) = rc_seq (cu_receipt unit)"
    using compact_unit_roundtrip [OF C b full] by blast
  have absent: "dict_get (wd_units db) ?k = None" using key by (simp add: map_of_eq_None_iff)
  let ?row = "\<lparr>ur_sender = a, ur_seq = rc_seq (cu_receipt unit), ur_bundle_hash = br_bundle_hash (confirmed_ref C unit), ur_unit = c\<rparr>"
  have "db' = db\<lparr>wd_units := dict_set ?k ?row (wd_units db)\<rparr>"
    using saved c a by (simp add: save_confirmed_unit_def Let_def absent)
  then have db': "db' = db\<lparr>wd_units := wd_units db @ [(?k, ?row)]\<rparr>" by (simp add: update_absent [OF key])
  have none: "find (\<lambda>(_, row). ur_sender row = a \<and> ur_seq row = rc_seq (cu_receipt unit)) (wd_units db) = None"
    using seq by (fastforce simp: find_None_iff units_known_def)
  have found: "find P (xs @ [x]) = Some x" if "find P xs = None" "P x" for P x and xs :: "'b list" using that by (induction xs) (auto split: if_splits)
  have "find (\<lambda>(_, row). ur_sender row = a \<and> ur_seq row = rc_seq (cu_receipt unit)) (wd_units db') = Some (?k, ?row)"
    unfolding db' by (simp add: found [OF none])
  moreover have batches: "db_proof_batch db' = db_proof_batch db" by (rule ext) (simp add: db' db_proof_batch_def)
  ultimately show "get_confirmed_unit C a (rc_seq (cu_receipt unit)) db' = Inr (Some unit)"
    using c(2) by (simp add: get_confirmed_unit_def)
  show "units_known a (rc_seq (cu_receipt unit)) db'" using seq by (force simp: db' units_known_def)
  show "fst ` set (wd_units db') = insert ?k (fst ` set (wd_units db))" by (simp add: db')
  show "wd_receipts db' = wd_receipts db" "wd_batches db' = wd_batches db" by (simp_all add: db')
qed

lemma set_update_subset: "set (dict_set k v d) \<subseteq> insert (k, v) (set d)"
  by (induction d) auto

lemma receipt_keys_set: "receipt_keys (db\<lparr>wd_receipts := dict_set k (key, c) (wd_receipts db)\<rparr>) \<subseteq> insert key (receipt_keys db)"
proof -
  have "(\<lambda>(_, key, _). key) ` set (dict_set k (key, c) (wd_receipts db)) \<subseteq> (\<lambda>(_, key, _). key) ` insert (k, key, c) (set (wd_receipts db))"
    by (rule image_mono [OF set_update_subset])
  then show ?thesis by (simp add: receipt_keys_def)
qed

lemma confirmed_in_step:
  assumes C: "digests32 C" and ok: "wallet_ok C uuid w" and step: "in_step C st w" and full: "full_receipt r"
    and saved: "save_receipt C (wa_address w) r h (wa_db w) = Inr db1" "save_confirmed_unit C unit db1 = Inr db2"
    and w': "same_history db2 (wa_db w')" "wa_address w' = wa_address w" and unit: "cu_receipt unit = r" "sc_sender (cu_sidecar unit) = wa_address w"
    and st': "cs_height st' = cs_height st + 1" "hl_height (rc_header r) = cs_height st'" "rc_seq r = confirmed_seq st (wa_address w) + 1"
      "dict_get (cs_leaves st') (wa_address w) = Some (reconstructed_leaf C unit)"
  shows "in_step C st' w'"
proof -
  let ?a = "wa_address w"
  have full': "full_receipt (cu_receipt unit)" using full by (simp add: unit(1))
  have b1: "batches_ok db1" using ok save_receipt_rows [OF saved(1)] same_rows_reads(1) by (simp add: wallet_ok_def)
  have b: "batches_ok (wa_db w)" using ok by (simp add: wallet_ok_def)
  obtain c where "compact_receipt C ?a (db_proof_batch (wa_db w) (batch_id_of (rc_header r))) r = Inr c" "rc_header c = rc_header r"
      "rc_seq c = rc_seq r"
    using compact_receipt_roundtrip [OF C b full] by metis
  then have d: "db1 = (wa_db w)\<lparr>wd_receipts := dict_set (?a, rc_seq r)
      (bundle_ref_key_from_fields (cs_height st') (hl_block_hash (rc_header r)) h (rc_seq r), c) (wd_receipts (wa_db w))\<rparr>"
    using saved(1) st'(2) by (auto simp: save_receipt_def Let_def split: if_splits)
  have db1: "wd_units db1 = wd_units (wa_db w)" by (simp add: d)
  have keys1: "receipt_keys db1 \<subseteq> insert (bundle_ref_key_from_fields (cs_height st') (hl_block_hash (rc_header r)) h (rc_seq r)) (receipt_keys (wa_db w))"
    unfolding d by (rule receipt_keys_set)
  let ?key = "bundle_ref_key (confirmed_ref C unit)"
  have below: "keys_below (cs_height st) (receipt_keys (wa_db w) \<union> fst ` set (wd_units (wa_db w)))" using step by (simp add: in_step_def)
  have key: "?key = bundle_ref_key_from_fields (cs_height st') (hl_block_hash (rc_header r)) (compute_bundle_hash C (cu_sidecar unit)) (rc_seq r)"
    using st'(2) by (simp add: bundle_ref_key_def confirmed_ref_def unit(1))
  have "keys_below (cs_height st) (fst ` set (wd_units db1))" using keys_below_mono [OF below order_refl] by (simp add: db1)
  then have fresh: "?key \<notin> fst ` set (wd_units db1)" unfolding key by (rule keys_below_fresh) (simp add: st'(1))
  have known: "units_known ?a (confirmed_seq st ?a) db1" using step by (simp add: in_step_def units_known_def db1)
  note got = get_saved_unit [OF C b1 full' saved(2) fresh known _ unit(2), unfolded unit(1), simplified st'(3)]
  have ref: "head_ref_of (dict_get (cs_leaves st') ?a) = Some (confirmed_ref C unit)" "br_seq (confirmed_ref C unit) = confirmed_seq st ?a + 1"
    using st'(3,4) by (simp_all add: head_ref_of_def reconstructed_leaf_def confirmed_ref_def unit(1))
  have "receipt_keys db2 \<union> fst ` set (wd_units db2) \<subseteq> {?key, bundle_ref_key_from_fields (cs_height st') (hl_block_hash (rc_header r)) h (rc_seq r)}
      \<union> (receipt_keys (wa_db w) \<union> fst ` set (wd_units (wa_db w)))"
    using keys1 got(3,4) by (auto simp: db1 receipt_keys_def)
  moreover have "keys_below (cs_height st') ({?key, bundle_ref_key_from_fields (cs_height st') (hl_block_hash (rc_header r)) h (rc_seq r)}
      \<union> (receipt_keys (wa_db w) \<union> fst ` set (wd_units (wa_db w))))"
    using keys_below_mono [OF below _ order_refl, of "cs_height st'"] by (simp add: key keys_below_insert st'(1))
  ultimately have "keys_below (cs_height st') (receipt_keys db2 \<union> fst ` set (wd_units db2))" by (rule keys_below_mono [OF _ order_refl, rotated])
  then have "in_step C st' (w\<lparr>wa_db := db2\<rparr>)"
    using got(1,2) ref in_step_seq [OF step] by (simp add: in_step_def confirmed_seq_def)
  then show ?thesis by (rule in_step_history) (use w' in simp_all)
qed


subsection \<open>Delivering the receipts of a block\<close>

lemma receipt_settles:
  assumes C: "digests32 C" and ok: "wallet_ok C uuid w" and step: "in_step C st w" and init: "receipt_init r = Inr r"
    and ctx: "get_pending_bundle (wa_address w) (rc_seq r) (wa_db w) = Some ctx" "sc_sender (pbc_sidecar ctx) = wa_address w"
    and known: "knows_canonical_header (rc_header r) w"
    and r: "rc_seq r = confirmed_seq st (wa_address w) + 1" "rc_prev_ref r = head_ref_of (dict_get (cs_leaves st) (wa_address w))"
      "rc_proof r = Some p" "hl_height (rc_header r) = cs_height st'"
    and verified: "verify_proof C (hl_state_root (rc_header r)) (compute_addr_key C (wa_address w))
      (hash_account_leaf C (reconstructed_leaf C \<lparr>cu_receipt = r, cu_sidecar = pbc_sidecar ctx\<rparr>)) p 256"
    and st': "cs_height st' = cs_height st + 1"
      "dict_get (cs_leaves st') (wa_address w) = Some (reconstructed_leaf C \<lparr>cu_receipt = r, cu_sidecar = pbc_sidecar ctx\<rparr>)"
  obtains unit w' where "on_receipt_confirmed C uuid r w = (Inr unit, w')" "wallet_ok C uuid w'" "in_step C st' w'"
    "wa_address w' = wa_address w" "wallet_pending_bundles w' = []"
    "total_balance w = total_balance w' + total_size (pbc_outgoing_values ctx)"
    "unit = \<lparr>cu_receipt = r, cu_sidecar = pbc_sidecar ctx\<rparr>"
    "wa_records w' = sort_key value_row_key (map (confirmed unit (pbc_pending_ids ctx) (pbc_outgoing_ids ctx)) (wa_records w))"
proof -
  have checked: "check_receipt C r w = Inr ctx" by (rule receipt_checked [OF step ctx(1) known r(1-3) verified])
  have full: "full_receipt r" using init r(3) by (simp add: full_receipt_def)
  have below: "keys_below (cs_height st) (receipt_keys (wa_db w))"
    using step keys_below_mono [OF _ order_refl] by (fastforce simp: in_step_def)
  have fresh: "\<not> receipt_clash (wa_address w) r h (wa_db w)" for h
    using keys_below_fresh [OF below, of "hl_height (rc_header r)"] st'(1) r(4)
    by (force simp: receipt_clash_def receipt_keys_def)
  from C ok init show ?thesis
  proof (cases rule: on_receipt_confirmed_cases)
    case (confirmed ctx' unit w')
    obtain db1 db2 where db: "save_receipt C (wa_address w) r (pbc_bundle_hash ctx') (wa_db w) = Inr db1"
        "save_confirmed_unit C unit db1 = Inr db2" "same_history db2 (wa_db w')" using confirmed(10) by blast
    have "ctx' = ctx" using confirmed(2) checked by simp
    then have unit: "cu_receipt unit = r" "sc_sender (cu_sidecar unit) = wa_address w" "unit = \<lparr>cu_receipt = r, cu_sidecar = pbc_sidecar ctx\<rparr>"
      using confirmed(3) ctx(2) by simp_all
    have "in_step C st' w'"
      by (rule confirmed_in_step [OF C ok step full db(1,2,3) confirmed(9) unit(1,2) st'(1) r(4,1)]) (simp add: st'(2) unit(3))
    moreover obtain ctx2 where "check_receipt C r w = Inr ctx2" "total_balance w = total_balance w' + total_size (pbc_outgoing_values ctx2)"
      by (rule confirmed_money [OF C ok init confirmed(1)])
    ultimately show ?thesis
      using that [OF confirmed(1,4) _ confirmed(9,8) _ unit(3)] confirmed(5) \<open>ctx' = ctx\<close> checked by simp
  qed (use checked fresh in auto)
qed

lemma set_wallet_simps [simp]:
  "dict_get (rt_wallets (set_wallet a w rt)) b = (if b = a then Some w else dict_get (rt_wallets rt) b)"
  "rt_chain (set_wallet a w rt) = rt_chain rt" "rt_auto (set_wallet a w rt) = rt_auto rt"
  "rt_auto_confirm (set_wallet a w rt) = rt_auto_confirm rt" "rt_allocations (set_wallet a w rt) = rt_allocations rt"
  by (simp_all add: set_wallet_def dict_simps)

text \<open>A delivery changes at most the wallet of its address.\<close>

lemma apply_receipt_keeps:
  "rt_chain (snd (apply_receipt_to_wallet C uuid a r w rt)) = rt_chain rt"
  "rt_auto (snd (apply_receipt_to_wallet C uuid a r w rt)) = rt_auto rt"
  "rt_auto_confirm (snd (apply_receipt_to_wallet C uuid a r w rt)) = rt_auto_confirm rt"
  "b \<noteq> a \<Longrightarrow> dict_get (rt_wallets (snd (apply_receipt_to_wallet C uuid a r w rt))) b = dict_get (rt_wallets rt) b"
  "rt_allocations (snd (apply_receipt_to_wallet C uuid a r w rt)) = rt_allocations rt"
  by (auto simp: apply_receipt_to_wallet_def split: prod.split sum.split)

lemma deliver_receipt_keeps:
  "rt_chain (snd (deliver_receipt C uuid a r rt)) = rt_chain rt" "rt_auto (snd (deliver_receipt C uuid a r rt)) = rt_auto rt"
  "rt_auto_confirm (snd (deliver_receipt C uuid a r rt)) = rt_auto_confirm rt"
  "b \<noteq> a \<Longrightarrow> dict_get (rt_wallets (snd (deliver_receipt C uuid a r rt))) b = dict_get (rt_wallets rt) b"
  "rt_allocations (snd (deliver_receipt C uuid a r rt)) = rt_allocations rt"
  by (simp_all add: deliver_receipt_def apply_receipt_keeps split: option.split)

lemma deliver_receipts_keeps:
  "rt_chain (snd (deliver_receipts C uuid rs rt)) = rt_chain rt" "rt_auto (snd (deliver_receipts C uuid rs rt)) = rt_auto rt"
  "rt_auto_confirm (snd (deliver_receipts C uuid rs rt)) = rt_auto_confirm rt"
  "b \<notin> fst ` set rs \<Longrightarrow> dict_get (rt_wallets (snd (deliver_receipts C uuid rs rt))) b = dict_get (rt_wallets rt) b"
  "rt_allocations (snd (deliver_receipts C uuid rs rt)) = rt_allocations rt"
  by (induction rs arbitrary: rt) (auto simp: split_def Let_def deliver_receipt_keeps)

lemma deliver_receipts_applies:
  assumes "dict_ok rs" "dict_get rs a = Some r" "dict_get (rt_wallets rt) a = Some w" "wa_address w = a"
    "dict_get_default (rt_auto_confirm rt) a (rt_auto rt)" "on_receipt_confirmed C (uuid a) r w = (Inr unit, w')"
  shows "dict_get (fst (deliver_receipts C uuid rs rt)) a = Some \<lparr>rd_sender = a, rd_seq = rc_seq r, rd_receipt = Some r,
      rd_applied = True, rd_unit = Some unit, rd_error = None\<rparr> \<and>
    dict_get (rt_wallets (snd (deliver_receipts C uuid rs rt))) a = Some w'"
  using assms(1-3,5)
proof (induction rs arbitrary: rt)
  case (Cons x rs)
  obtain b s where x: "x = (b, s)" by (cases x)
  show ?case
  proof (cases "b = a")
    case True
    then have "a \<notin> fst ` set rs" "s = r" using Cons.prems(1,2) by (simp_all add: x dict_ok_def)
    then show ?thesis
      using Cons.prems assms(4,6)
      by (simp add: x True split_def Let_def deliver_receipts_keeps deliver_receipt_def apply_receipt_to_wallet_def)
  next
    case False
    then show ?thesis using Cons.IH [of "snd (deliver_receipt C uuid b s rt)"] Cons.prems
      by (simp add: x split_def Let_def deliver_receipt_keeps dict_ok_def)
  qed
qed simp


subsection \<open>Producing a block\<close>

lemma share_block_simps [simp]:
  "dict_get (rt_wallets (share_block_with_wallets b rt)) a = map_option (observe_canonical_block b) (dict_get (rt_wallets rt) a)"
  "rt_chain (share_block_with_wallets b rt) = rt_chain rt" "rt_auto (share_block_with_wallets b rt) = rt_auto rt"
  "rt_auto_confirm (share_block_with_wallets b rt) = rt_auto_confirm rt"
  "rt_allocations (share_block_with_wallets b rt) = rt_allocations rt"
  by (simp_all add: share_block_with_wallets_def map_of_map)

lemma observed_header: "observe_canonical_block b w = observe_canonical_header (block_header_lite b) w"
  by (simp add: observe_canonical_block_def block_header_lite_def)

lemma observed_block:
  "wa_address (observe_canonical_block b w) = wa_address w" "wa_records (observe_canonical_block b w) = wa_records w"
  "knows_canonical_header (block_header_lite b) (observe_canonical_block b w)"
  "get_pending_bundle a n (wa_db (observe_canonical_block b w)) = get_pending_bundle a n (wa_db w)"
  by (simp_all add: observed_header observe_canonical_header_def knows_canonical_header_def
      has_canonical_header_def save_canonical_header_def dict_simps get_pending_bundle_def)

definition payer_ready :: "crypto \<Rightarrow> (string \<Rightarrow> nat \<Rightarrow> string) \<Rightarrow> string \<Rightarrow> wallet \<Rightarrow> runtime \<Rightarrow> bool" where
  \<comment> \<open>The wallet is registered, confirms by itself, keeps its invariant and is in step with the chain.\<close>
  "payer_ready C uuid a w rt \<longleftrightarrow> dict_get (rt_wallets rt) a = Some w \<and> wa_address w = a \<and>
     dict_get_default (rt_auto_confirm rt) a (rt_auto rt) \<and> wallet_ok C (uuid a) w \<and> in_step C (rt_chain rt) w"

lemma admissible_claims:
  "digests32 C \<Longrightarrow> admissible C pool a sub \<Longrightarrow> hash32_opt (env_claim_set_hash (sub_envelope sub))"
  by (auto simp: admissible_def hash32_opt_def hash32_def computed_claim_set_hash_def claim_range_set_hash_def keccak_length)

definition extends_history :: "crypto \<Rightarrow> chain_state \<Rightarrow> chain_state \<Rightarrow> string \<Rightarrow> confirmed_unit \<Rightarrow> bool" where
  \<comment> \<open>The unit is the account's part of the block between the two states, and proves itself.\<close>
  "extends_history C st st' a unit \<longleftrightarrow> proven_unit C unit \<and> cs_height st' = cs_height st + 1 \<and>
     hl_height (rc_header (cu_receipt unit)) = cs_height st' \<and>
     rc_prev_ref (cu_receipt unit) = head_ref_of (dict_get (cs_leaves st) a) \<and>
     head_ref_of (dict_get (cs_leaves st') a) = Some (confirmed_ref C unit)"

lemma produce_settles:
  assumes C: "digests32 C" and chain: "chain_ok C (rt_chain rt)" and ts: "0 \<le> ts"
    and keys: "inj_on (compute_addr_key C) (accounts (rt_chain rt))"
    and sub: "sub \<in> set (pool_snapshot C (cs_pool (rt_chain rt)) limit)" "sc_sender (sub_sidecar sub) = a"
    and ready: "payer_ready C uuid a w rt"
    and ctx: "get_pending_bundle a (env_seq (sub_envelope sub)) (wa_db w) = Some ctx" "pbc_sidecar ctx = sub_sidecar sub"
  obtains result rt' d w' unit where "rt_produce_block C uuid ts sg x limit rt = (Inr result, rt')"
    "dict_get (bre_deliveries result) a = Some d" "rd_applied d" "payer_ready C uuid a w' rt'" "wallet_pending_bundles w' = []"
    "total_balance w = total_balance w' + total_size (pbc_outgoing_values ctx)"
    "confirmed_seq (rt_chain rt') a = confirmed_seq (rt_chain rt) a + 1"
    "extends_history C (rt_chain rt) (rt_chain rt') a unit" "cu_sidecar unit = sub_sidecar sub"
    "wa_records w' = sort_key value_row_key (map (confirmed unit (pbc_pending_ids ctx) (pbc_outgoing_ids ctx)) (wa_records w))"
    "rt_allocations rt' = rt_allocations rt"
proof -
  let ?st = "rt_chain rt"
  obtain b rs c r p where built: "build_block C ?st ts sg x limit = Inr (b, rs, applied_state C ?st b c)" "dict_get rs a = Some r" "dict_ok rs"
      "rc_proof r = Some p" "rc_header r = block_header_lite b" "rc_prev_ref r = head_ref_of (dict_get (cs_leaves ?st) a)"
      "rc_seq r = env_seq (sub_envelope sub)" "rc_batch_ref r = None" "rc_claim_set_hash r = env_claim_set_hash (sub_envelope sub)"
      "dict_get (cs_leaves (applied_state C ?st b c)) a = Some (reconstructed_leaf C \<lparr>cu_receipt = r, cu_sidecar = sub_sidecar sub\<rparr>)"
      "verify_proof C (hl_state_root (rc_header r)) (compute_addr_key C a)
        (hash_account_leaf C (reconstructed_leaf C \<lparr>cu_receipt = r, cu_sidecar = sub_sidecar sub\<rparr>)) p 256"
      "bh_height (blk_header b) = cs_height ?st + 1"
    by (rule built_receipt [OF C chain ts keys sub(1) sub(2) [symmetric], of sg x]) blast
  let ?st' = "applied_state C ?st b c" and ?w = "observe_canonical_block b w"
  note pend = pending_of_snapshot [OF chain sub(1), unfolded sub(2)]
  have w: "wa_address w = a" "wallet_ok C (uuid a) w" "in_step C ?st w" "dict_get (rt_wallets rt) a = Some w"
      "dict_get_default (rt_auto_confirm rt) a (rt_auto rt)" using ready by (simp_all add: payer_ready_def)
  have "0 \<le> confirmed_seq ?st a" using in_step_seq [OF w(3)] w(1) by simp
  then have init: "receipt_init r = Inr r"
    using admissible_claims [OF C pend(1)] pend(3) built(4,7-9) by (simp add: receipt_init_def)
  have ok: "wallet_ok C (uuid a) ?w" "in_step C ?st ?w" using w(2,3) by (simp_all add: observed_header header_keeps in_step_header)
  have height: "hl_height (rc_header r) = cs_height ?st'" "cs_height ?st' = cs_height ?st + 1"
    using built(5,12) by (simp_all add: block_header_lite_def applied_state_def)
  obtain unit w' where w': "on_receipt_confirmed C (uuid a) r ?w = (Inr unit, w')" "wallet_ok C (uuid a) w'" "in_step C ?st' w'"
      "wa_address w' = a" "wallet_pending_bundles w' = []" "total_balance ?w = total_balance w' + total_size (pbc_outgoing_values ctx)"
      "unit = \<lparr>cu_receipt = r, cu_sidecar = sub_sidecar sub\<rparr>"
      "wa_records w' = sort_key value_row_key (map (confirmed unit (pbc_pending_ids ctx) (pbc_outgoing_ids ctx)) (wa_records w))"
    by (rule receipt_settles [OF C ok init, of ctx p ?st'])
      (use built ctx pend(3) sub(2) w(1) height in \<open>simp_all add: observed_block\<close>)
  let ?rt = "share_block_with_wallets b (rt\<lparr>rt_chain := ?st'\<rparr>)"
  obtain ds rt' where ds: "deliver_receipts C uuid rs ?rt = (ds, rt')" by fastforce
  have reg: "dict_get (rt_wallets ?rt) a = Some ?w" "wa_address ?w = a" "dict_get_default (rt_auto_confirm ?rt) a (rt_auto ?rt)"
    using w(1,4,5) by (simp_all add: observed_block)
  from deliver_receipts_applies [where uuid = uuid, OF built(3,2) reg w'(1)] have d: "\<exists>d. dict_get ds a = Some d \<and> rd_applied d"
      "dict_get (rt_wallets rt') a = Some w'" by (simp_all add: ds)
  have kept: "rt_chain rt' = ?st'" "rt_auto_confirm rt' = rt_auto_confirm rt" "rt_auto rt' = rt_auto rt" "rt_allocations rt' = rt_allocations rt"
    using deliver_receipts_keeps(1-3,5) [of C uuid rs ?rt] by (simp_all add: ds)
  have "pool_snapshot C (cs_pool ?st) limit \<noteq> []" using sub(1) by auto
  then have "rt_produce_block C uuid ts sg x limit rt = (Inr \<lparr>bre_block = b, bre_receipts = rs, bre_deliveries = ds\<rparr>, rt')"
    by (simp add: rt_produce_block_def built(1) settle_block_def ds)
  moreover have "payer_ready C uuid a w' rt'" using w' d(2) w(5) kept by (simp add: payer_ready_def)
  moreover have "confirmed_seq ?st' a = confirmed_seq ?st a + 1"
    using built(7,10) pend(3) by (simp add: confirmed_seq_def head_ref_of_def reconstructed_leaf_def confirmed_ref_def)
  moreover have "total_balance ?w = total_balance w" by (simp add: total_balance_eq observed_block)
  moreover have "proven_unit C unit"
    using built(4,9,11) pend(1) sub(2) by (auto simp: proven_unit_def w'(7) admissible_def computed_claim_set_hash_def)
  then have "extends_history C ?st ?st' a unit"
    using height built(6,10) by (simp add: extends_history_def w'(7) head_ref_of_def reconstructed_leaf_def confirmed_ref_def)
  moreover have "cu_sidecar unit = sub_sidecar sub" by (simp add: w'(7))
  ultimately show ?thesis using that d(1) w'(5,6,8) kept(1,4) by auto
qed


subsection \<open>Submitting a bundle\<close>

lemma prepared_submission:
  assumes "prepare_bundle C address txs p seq vs split = Inr (submission, ctx)"
  obtains sidecar unsigned signature where "sidecar = \<lparr>sc_sender = address, sc_txs = txs, sc_tx_count = int (length txs)\<rparr>"
    "unsigned = \<lparr>env_version = 2, env_chain_id = bp_chain_id p, env_seq = seq, env_expiry_height = bp_expiry_height p,
       env_fee = bp_fee p, env_nonce = bp_nonce p, env_bundle_hash = compute_bundle_hash C sidecar,
       env_claim_set_hash = Some (computed_claim_set_hash C sidecar), env_sig = []\<rparr>"
    "sign_digest_secp256k1 C (bp_private_key p) (compute_bundle_sighash C unsigned) = Inr signature"
    "submission = \<lparr>sub_envelope = with_signature unsigned signature, sub_sidecar = sidecar, sub_pubkey = bp_public_key p\<rparr>"
    "pbc_sidecar ctx = sidecar"
  using assms by (auto simp: prepare_bundle_def res_bind_Inr map_sum_id_Inr bundle_sidecar_init_def bundle_envelope_init_def
      sign_bundle_envelope_def pending_bundle_context_init_def computed_claim_set_hash_def Let_def split: if_splits)

lemma built_prepared:
  assumes "build_bundle C uuid txs p seq w = (Inr (submission, ctx), w')"
  obtains split vs where "prepare_bundle C (wa_address w) txs p seq vs split = Inr (submission, ctx)"
  using assms by (auto simp: build_bundle_def plan_bundle_def res_bind_Inr map_sum_id_Inr st_bind_Inr Let_def split: sum.splits if_splits)

lemma built_submission:
  assumes "build_bundle C uuid txs p seq w = (Inr (submission, ctx), w')"
  shows "pbc_sidecar ctx = sub_sidecar submission" "sc_sender (sub_sidecar submission) = wa_address w"
    "env_seq (sub_envelope submission) = seq"
  by (rule built_prepared [OF assms], erule prepared_submission, simp add: with_signature_def)+

lemma submitted:
  assumes "digests32 C" "chain_ok C (rt_chain rt)" "rt_submit_bundle C sub rt = (Inr result, rt')"
  shows "chain_ok C (rt_chain rt')" "sub \<in> set (pool_snapshot C (cs_pool (rt_chain rt')) None)"
    "\<exists>pool. rt' = rt\<lparr>rt_chain := (rt_chain rt)\<lparr>cs_pool := pool\<rparr>\<rparr>"
proof -
  obtain st s where st: "submit_bundle C (rt_chain rt) sub = Inr (st, s)" "rt' = rt\<lparr>rt_chain := st\<rparr>"
    using assms(3) by (auto simp: rt_submit_bundle_def split: sum.splits)
  have "chain_step C (rt_chain rt) st" using st(1) by (rule chain_step.submit)
  with assms(1,2) show "chain_ok C (rt_chain rt')" by (cases rule: chain_step_cases) (simp_all add: st(2))
  obtain a pool where p: "pool_submit C (cs_pool (rt_chain rt)) sub (cs_height (rt_chain rt)) (confirmed_seq (rt_chain rt) a) = Inr (pool, s)"
      "st = (rt_chain rt)\<lparr>cs_pool := pool\<rparr>"
    using st(1) by (auto simp: submit_bundle_def res_bind_Inr map_err_Inr)
  have "pool_ok C (cs_pool (rt_chain rt))" using assms(2) by (simp add: chain_ok_def)
  from pool_submit_spec [OF this p(1)] have "dict_get (bp_pending pool) s = Some sub" by simp
  then have "sub \<in> snd ` set (bp_pending pool)" by (force dest: map_of_SomeD)
  then show "sub \<in> set (pool_snapshot C (cs_pool (rt_chain rt')) None)" by (simp add: st(2) p(2) pool_snapshot_def)
  show "\<exists>pool. rt' = rt\<lparr>rt_chain := (rt_chain rt)\<lparr>cs_pool := pool\<rparr>\<rparr>" using st(2) p(2) by auto
qed

text \<open>A payment from the wallet through the pool, the next block and the receipt back to the wallet.\<close>

lemma payment_confirmed:
  assumes C: "digests32 C" and chain: "chain_ok C (rt_chain rt)" and inj: "inj (uuid a)" and ready: "payer_ready C uuid a w rt" and ts: "0 \<le> ts"
    and paid: "build_payment_bundle C (uuid a) recipient_addr amount p now n extra_data w = (Inr (submission, ctx, tx), w1)"
    and submit: "rt_submit_bundle C submission (set_wallet a w1 rt) = (Inr receipt, rt1)"
    and keys: "inj_on (compute_addr_key C) (accounts (rt_chain rt1))"
  obtains result rt2 d w2 unit s where "rt_produce_block C uuid ts sg x None rt1 = (Inr result, rt2)"
    "dict_get (bre_deliveries result) a = Some d" "rd_applied d" "payer_ready C uuid a w2 rt2" "wallet_pending_bundles w2 = []"
    "total_balance w2 = total_balance w - amount" "confirmed_seq (rt_chain rt2) a = confirmed_seq (rt_chain rt) a + 1"
    "bundle_split (uuid a) [tx] w ctx s" "wallet_pending_bundles w = []"
    "wallet_ok C (uuid a) w1" "wallet_pending_bundles w1 = [ctx]" "wa_records w1 = sort_key value_row_key (spl_records s)"
    "wa_records w2 = sort_key value_row_key (map (confirmed unit (pbc_pending_ids ctx) (pbc_outgoing_ids ctx)) (wa_records w1))"
    "extends_history C (rt_chain rt) (rt_chain rt2) a unit" "cu_sidecar unit = sub_sidecar submission"
    "rt_allocations rt2 = rt_allocations rt"
proof -
  have w: "wa_address w = a" "wallet_ok C (uuid a) w" "in_step C (rt_chain rt) w"
      "dict_get_default (rt_auto_confirm rt) a (rt_auto rt)" using ready by (simp_all add: payer_ready_def)
  note facts = payment_built [OF w(2) paid]
  have vals: "\<forall>tx\<in>set [tx]. list_all vr_ok (tx_values tx)" using facts(3) by simp
  obtain seq where built: "build_bundle C (uuid a) [tx] p seq w = (Inr (submission, ctx), w1)" using facts(6) by blast
  note sub = built_submission [OF built]
  note money = built_money [OF C inj w(2) vals built]
  from C inj w(2) vals obtain s where w1: "wallet_ok C (uuid a) w1" "get_pending_bundle a seq (wa_db w1) = Some ctx" "wa_address w1 = a"
      "same_history (wa_db w) (wa_db w1)" "bundle_split (uuid a) [tx] w ctx s" "wa_records w1 = sort_key value_row_key (spl_records s)"
      "wallet_pending_bundles w = []" "wallet_pending_bundles w1 = [ctx]"
    by (cases rule: build_bundle_cases [of C "uuid a" w "[tx]" p seq]) (use built w(1) in auto)
  have "chain_ok C (rt_chain (set_wallet a w1 rt))" using chain by simp
  note rt1 = submitted [OF C this submit]
  obtain pool where pool: "rt1 = (set_wallet a w1 rt)\<lparr>rt_chain := (rt_chain rt)\<lparr>cs_pool := pool\<rparr>\<rparr>" using rt1(3) by auto
  have same: "cs_leaves (rt_chain rt1) = cs_leaves (rt_chain rt)" "cs_height (rt_chain rt1) = cs_height (rt_chain rt)"
      "rt_allocations rt1 = rt_allocations rt" by (simp_all add: pool)
  have "in_step C (rt_chain rt) w1" by (rule in_step_history [OF w(3) w1(4)]) (simp add: w(1) w1(3))
  then have "in_step C (rt_chain rt1) w1" by (simp add: pool in_step_def confirmed_seq_def)
  then have ready1: "payer_ready C uuid a w1 rt1" using w1 w(4) by (simp add: payer_ready_def pool)
  obtain result rt2 d w2 unit where produced: "rt_produce_block C uuid ts sg x None rt1 = (Inr result, rt2)"
      "dict_get (bre_deliveries result) a = Some d" "rd_applied d" "payer_ready C uuid a w2 rt2" "wallet_pending_bundles w2 = []"
      "total_balance w1 = total_balance w2 + total_size (pbc_outgoing_values ctx)"
      "confirmed_seq (rt_chain rt2) a = confirmed_seq (rt_chain rt1) a + 1"
      "extends_history C (rt_chain rt1) (rt_chain rt2) a unit" "cu_sidecar unit = sub_sidecar submission"
      "wa_records w2 = sort_key value_row_key (map (confirmed unit (pbc_pending_ids ctx) (pbc_outgoing_ids ctx)) (wa_records w1))"
      "rt_allocations rt2 = rt_allocations rt1"
    by (rule produce_settles [OF C rt1(1) ts keys rt1(2) _ ready1]) (use sub w w1 in simp_all)
  have "total_size (pbc_outgoing_values ctx) = amount"
    using money(3) facts(2) total_size_mset [of "pbc_outgoing_values ctx" "tx_values tx"] by simp
  then have "total_balance w2 = total_balance w - amount" using produced(6) money(4) by simp
  moreover have "confirmed_seq (rt_chain rt2) a = confirmed_seq (rt_chain rt) a + 1"
    using produced(7) by (simp add: confirmed_seq_def same)
  moreover have "extends_history C (rt_chain rt) (rt_chain rt2) a unit"
    using produced(8) by (simp add: extends_history_def same)
  ultimately show ?thesis using that [OF produced(1-5)] w1(1,5-8) produced(9-11) by (simp add: same)
qed

text \<open>C1. A payment settles with the next block. When a registered wallet that confirms by itself and is in step with the chain builds a
  payment and the node admits its bundle, then the next block the node produces includes it and delivers the receipt, which the wallet
  applies: the wallet's total balance falls by exactly the amount, nothing is pending any more, the account's confirmed sequence
  number is one higher, and the wallet is ready for its next payment.\<close>

theorem payment_settles:
  assumes "digests32 C" "chain_ok C (rt_chain rt)" "inj (uuid a)" "payer_ready C uuid a w rt" "0 \<le> ts"
    and paid: "build_payment_bundle C (uuid a) recipient_addr amount p now n extra_data w = (Inr (submission, ctx, tx), w1)"
    and submit: "rt_submit_bundle C submission (set_wallet a w1 rt) = (Inr receipt, rt1)"
    and keys: "inj_on (compute_addr_key C) (accounts (rt_chain rt1))"
  shows "\<exists>result rt2 d w2. rt_produce_block C uuid ts sg x None rt1 = (Inr result, rt2) \<and>
    dict_get (bre_deliveries result) a = Some d \<and> rd_applied d \<and> payer_ready C uuid a w2 rt2 \<and>
    total_balance w2 = total_balance w - amount \<and> wallet_pending_bundles w2 = [] \<and>
    confirmed_seq (rt_chain rt2) a = confirmed_seq (rt_chain rt) a + 1"
  by (rule payment_confirmed [OF assms, of sg x]) blast


subsection \<open>A payment of three units at the first block\<close>

definition sample_sidecar0 :: bundle_sidecar where
  "sample_sidecar0 = \<lparr>sc_sender = payer_address, sc_txs = [sample_payment], sc_tx_count = 1\<rparr>"

definition sample_ledger :: chain_state where
  \<comment> \<open>An empty chain with the bounds a node gives it\<close>
  "sample_ledger = chain_new flat_crypto 2 1 32 32768 128 64 ZERO_HASH32"

definition sample_runtime :: runtime where
  "sample_runtime = (runtime_new sample_ledger True)\<lparr>rt_wallets := [(payer_address, sample_payer)], rt_auto_confirm := [(payer_address, True)]\<rparr>"

lemma sample_ready: "payer_ready flat_crypto (\<lambda>_. sample_uuid) payer_address sample_payer sample_runtime"
proof -
  have "wd_units (wa_db sample_payer) = []"
    using sample_wallet_ok(4) by (simp add: sample_payer_def observe_canonical_header_def save_canonical_header_def same_history_def wallet_db_new_def)
  then have "in_step flat_crypto sample_ledger sample_payer"
    by (simp add: in_step_def receipt_keys_def sample_payer_ok keys_below_def units_known_def head_ref_of_def sample_ledger_def chain_new_def)
  then show ?thesis
    by (simp add: payer_ready_def sample_runtime_def runtime_new_def sample_payer_ok dict_get_default_def)
qed

lemma sample_ledger_ok: "chain_ok flat_crypto sample_ledger"
  unfolding sample_ledger_def by (rule chain_new_ok) (simp_all add: hash32_def ZERO_HASH32_def)

lemma sample_admitted:
  assumes "build_bundle flat_crypto sample_uuid [sample_payment] sample_params 1 sample_payer = (Inr (submission, ctx), w1)"
  shows "\<exists>st. submit_bundle flat_crypto sample_ledger submission = Inr (st, payer_address) \<and> accounts st = {payer_address} \<and> cs_blocks st = []"
proof -
  obtain split vs where "prepare_bundle flat_crypto (wa_address sample_payer) [sample_payment] sample_params 1 vs split = Inr (submission, ctx)"
    by (rule built_prepared [OF assms])
  then obtain unsigned signature where sub: "unsigned = \<lparr>env_version = 2, env_chain_id = 1, env_seq = 1, env_expiry_height = 100,
       env_fee = 0, env_nonce = 0, env_bundle_hash = compute_bundle_hash flat_crypto sample_sidecar0,
       env_claim_set_hash = Some (computed_claim_set_hash flat_crypto sample_sidecar0), env_sig = []\<rparr>"
    "sign_digest_secp256k1 flat_crypto [1] (compute_bundle_sighash flat_crypto unsigned) = Inr signature"
    "submission = \<lparr>sub_envelope = with_signature unsigned signature, sub_sidecar = sample_sidecar0, sub_pubkey = [65]\<rparr>"
    by (rule prepared_submission) (simp add: sample_payer_ok sample_params_def sample_sidecar0_def)
  have der: "parse_ecdsa_der (encode_ecdsa_der 1 1) = Inr (1, 1)" using ecdsa_der_roundtrip_aux [of 1 1] by simp
  then have "signature = encode_ecdsa_der 1 1"
    using sub(2) by (simp add: sign_digest_secp256k1_def compute_bundle_sighash_def normalize_low_s_def flat_crypto_def LOW_S_MAX_def
        SECP256K1_ORDER_def)
  moreover have "encode_ecdsa_der 1 1 \<noteq> []" by (simp add: encode_ecdsa_der_def)
  ultimately have signed: "verify_bundle_envelope flat_crypto (with_signature unsigned signature) [65] = Inr True"
    using der by (simp add: verify_bundle_envelope_def verify_digest_secp256k1_def compute_bundle_sighash_def is_low_s_signature_def
        with_signature_def LOW_S_MAX_def SECP256K1_ORDER_def) (simp add: flat_crypto_def)
  have key: "address_from_public_key_pem flat_crypto [65] = Inr payer_address"
    by (simp add: address_from_public_key_pem_def pem_to_der_def strip_bytes_def is_space_def startswith_def ascii_def
        last_bytes_def payer_address_def flat_crypto_def)
  have "length (utf8 (hex (replicate 20 0))) = 40" "bit_length (Suc 0) = 1" "bit_length 7 = 3" "bit_length 2 = 2" by code_simp+
  then have "int (length (canonical_bytes (bundle_sidecar_obj sample_sidecar0))) \<le> 32768"
    by (simp add: canonical_bytes_def bundle_sidecar_obj_def sample_sidecar0_def sample_payment_def offchain_tx_obj_def value_range_obj_def
        payer_address_def encode_str_def encode_int_def magnitude_bytes_def utf8_char_def)
  then have "pool_check_limits (cs_pool sample_ledger) submission = Inr ()"
    by (simp add: pool_check_limits_def sub(3) sample_ledger_def chain_new_def bundle_pool_new_def)
      (simp add: sample_sidecar0_def sample_payment_def)
  then have "pool_submit flat_crypto (cs_pool sample_ledger) submission 0 0 =
      Inr ((cs_pool sample_ledger)\<lparr>bp_pending := [(payer_address, submission)]\<rparr>, payer_address)"
    using signed by (simp add: pool_submit_def Let_def sub(3) key pool_enter_def)
      (simp add: sub(1) with_signature_def sample_ledger_def chain_new_def bundle_pool_new_def sample_sidecar0_def)
  then have "submit_bundle flat_crypto sample_ledger submission =
      Inr (sample_ledger\<lparr>cs_pool := (cs_pool sample_ledger)\<lparr>bp_pending := [(payer_address, submission)]\<rparr>\<rparr>, payer_address)"
    by (simp add: submit_bundle_def sub(3) key confirmed_seq_def head_ref_of_def) (simp add: sample_ledger_def chain_new_def sub(3))
  moreover have "cs_leaves sample_ledger = []" "cs_blocks sample_ledger = []" by (simp_all add: sample_ledger_def chain_new_def)
  ultimately show ?thesis by (auto simp: accounts_def)
qed

theorem payment_settles_witness:
  "\<exists>submission ctx tx w1 receipt rt1 result rt2 w2.
     build_payment_bundle flat_crypto sample_uuid ''bob'' 3 sample_params 7 (Some 1) [] sample_payer = (Inr (submission, ctx, tx), w1) \<and>
     rt_submit_bundle flat_crypto submission (set_wallet payer_address w1 sample_runtime) = (Inr receipt, rt1) \<and>
     rt_produce_block flat_crypto (\<lambda>_. sample_uuid) 7 [] [] None rt1 = (Inr result, rt2) \<and>
     dict_get (rt_wallets rt2) payer_address = Some w2 \<and> total_balance w2 = 7"
proof -
  obtain submission ctx w1 where b: "build_bundle flat_crypto sample_uuid [sample_payment] sample_params 1 sample_payer = (Inr (submission, ctx), w1)"
      "build_payment_bundle flat_crypto sample_uuid ''bob'' 3 sample_params 7 (Some 1) [] sample_payer = (Inr (submission, ctx, sample_payment), w1)"
    by (rule sample_built)
  obtain receipt rt1 where s: "rt_submit_bundle flat_crypto submission (set_wallet payer_address w1 sample_runtime) = (Inr receipt, rt1)"
      "accounts (rt_chain rt1) = {payer_address}"
    using sample_admitted [OF b(1)] by (auto simp: rt_submit_bundle_def sample_runtime_def runtime_new_def)
  have "chain_ok flat_crypto (rt_chain sample_runtime)" using sample_ledger_ok by (simp add: sample_runtime_def runtime_new_def)
  then obtain result rt2 w2 where "rt_produce_block flat_crypto (\<lambda>_. sample_uuid) 7 [] [] None rt1 = (Inr result, rt2)"
      "payer_ready flat_crypto (\<lambda>_. sample_uuid) payer_address w2 rt2" "total_balance w2 = total_balance sample_payer - 3"
    using payment_settles [OF digests32_instances(1) _ _ sample_ready _ b(2) s(1), of 7 "[]" "[]"] s(2) by auto
  then show ?thesis using b(2) s(1) sample_balance(1) by (auto simp: payer_ready_def)
qed

end
