(* ===== verification/Node_Safety.thy ===== *)
theory Node_Safety
  imports Node_Store Runtime_Safety
begin

section \<open>A restarted node\<close>

text \<open>
  What a node keeps across a restart. The chain in memory is the result of applying the stored blocks to an empty chain, up to the
  pool of pending bundles, which is not stored; so a node that is opened again is in the same state, receipts and
  proof batches included. A block that the node built but no replica would apply makes every later start fail.
\<close>

subsection \<open>Applying a block does not look at the pool\<close>

lemma pool_fields:
  "cs_leaves (st\<lparr>cs_pool := p\<rparr>) = cs_leaves st" "cs_tree (st\<lparr>cs_pool := p\<rparr>) = cs_tree st" "cs_cache (st\<lparr>cs_pool := p\<rparr>) = cs_cache st"
  "cs_version (st\<lparr>cs_pool := p\<rparr>) = cs_version st" "cs_chain_id (st\<lparr>cs_pool := p\<rparr>) = cs_chain_id st"
  "cs_height (st\<lparr>cs_pool := p\<rparr>) = cs_height st" "cs_block_hash (st\<lparr>cs_pool := p\<rparr>) = cs_block_hash st"
  "cs_blocks (st\<lparr>cs_pool := p\<rparr>) = cs_blocks st" "cs_pool (st\<lparr>cs_pool := p\<rparr>) = p"
  by simp_all

lemma check_entry_pool: "check_entry C (st\<lparr>cs_pool := p\<rparr>) b seen e s pk = check_entry C st b seen e s pk"
  unfolding check_entry_def pool_fields ..

lemma apply_entries_pool: "apply_entries C (st\<lparr>cs_pool := p\<rparr>) b es seen t leaves = apply_entries C st b es seen t leaves"
proof (induction es arbitrary: seen t leaves)
  case (Cons x es)
  obtain e s pk where x: "x = (e, s, pk)" by (cases x)
  show ?case unfolding x apply_entries.simps check_entry_pool Cons.IH ..
qed simp

lemma apply_receipts_pool: "apply_receipts C (st\<lparr>cs_pool := p\<rparr>) t h es rs c = apply_receipts C st t h es rs c"
proof (induction es arbitrary: rs c)
  case (Cons e es)
  show ?case unfolding apply_receipts.simps Let_def Cons.IH pool_fields ..
qed simp

definition pool_after :: "block \<Rightarrow> bundle_pool \<Rightarrow> bundle_pool" where
  "pool_after b pool = finalize_all (map (\<lambda>e. (leaf_addr (de_new_leaf e), env_seq (de_envelope e), de_bundle_hash e))
     (dp_entries (blk_diff b))) pool"

lemma apply_block_pool:
  assumes "apply_block C st b = Inr (rs, st')"
  shows "apply_block C (st\<lparr>cs_pool := p\<rparr>) b = Inr (rs, st'\<lparr>cs_pool := pool_after b p\<rparr>)"
proof -
  note go = assms [unfolded apply_block_def Let_def if_Inl_Inr res_bind_Inr case_prod_unfold]
  show ?thesis
    unfolding apply_block_def Let_def if_Inl_Inr res_bind_Inr case_prod_unfold pool_fields apply_entries_pool apply_receipts_pool
    using go by (auto simp: pool_after_def)
qed

lemma pool_after_new: "pool_after b (bundle_pool_new c n t v) = bundle_pool_new c n t v"
proof -
  have "finalize_all fs (bundle_pool_new c n t v) = bundle_pool_new c n t v" for fs
    unfolding finalize_all_def by (induction fs) (auto simp: pool_remove_finalized_def bundle_pool_new_def)
  then show ?thesis by (simp add: pool_after_def)
qed

subsection \<open>What an applied block leaves\<close>

lemma prune_max [simp]: "rca_max_blocks (receipt_cache_prune c) = rca_max_blocks c"
proof -
  have "rca_max_blocks (prune_heights hs c) = rca_max_blocks c" for hs
    by (induction hs arbitrary: c) (simp_all add: prune_height_def Let_def)
  then show ?thesis by (simp add: receipt_cache_prune_def)
qed

lemma receipt_cache_add_max [simp]:
  "rca_max_blocks (receipt_cache_add c a r ref) = rca_max_blocks c"
  "rca_max_blocks (receipt_cache_add_proof_batch c h batch) = rca_max_blocks c"
  by (simp_all add: receipt_cache_add_def receipt_cache_add_proof_batch_def Let_def)

lemma apply_receipts_max: "apply_receipts C st t h es rs c = Inr (rs', c') \<Longrightarrow> rca_max_blocks c' = rca_max_blocks c"
  by (induction es arbitrary: rs c) (auto simp: res_bind_Inr Let_def split: if_splits option.splits)

lemma add_batch_max: "add_batch C t h bh sr es c = Inr c' \<Longrightarrow> rca_max_blocks c' = rca_max_blocks c"
  by (auto simp: add_batch_def res_bind_Inr split: if_splits)

lemma apply_block_leaves:
  assumes "apply_block C st b = Inr (rs, st')"
  shows "cs_version st' = cs_version st" "cs_chain_id st' = cs_chain_id st" "cs_blocks st' = cs_blocks st @ [b]"
    "cs_height st' = bh_height (blk_header b)" "bh_height (blk_header b) = cs_height st + 1" "cs_block_hash st' = blk_hash b"
    "smt_root C (cs_tree st') = Inr (bh_state_root (blk_header b))" "rca_max_blocks (cs_cache st') = rca_max_blocks (cs_cache st)"
proof -
  note go = assms [unfolded apply_block_def Let_def if_Inl_Inr res_bind_Inr case_prod_unfold]
  then show "rca_max_blocks (cs_cache st') = rca_max_blocks (cs_cache st)"
    by (auto dest!: apply_receipts_max add_batch_max)
  show "cs_version st' = cs_version st" "cs_chain_id st' = cs_chain_id st" "cs_blocks st' = cs_blocks st @ [b]"
    "cs_height st' = bh_height (blk_header b)" "bh_height (blk_header b) = cs_height st + 1" "cs_block_hash st' = blk_hash b"
    "smt_root C (cs_tree st') = Inr (bh_state_root (blk_header b))"
    using go by (auto simp: map_err_Inr)
qed

text \<open>The node that builds a block would also apply it, with the same receipts and the same state.\<close>

lemma build_applies:
  assumes "digests32 C" "chain_ok C st" "0 \<le> ts" "inj_on (compute_addr_key C) (accounts st)"
    and "\<forall>sub\<in>set (pool_snapshot C (cs_pool st) limit). cs_height st < env_expiry_height (sub_envelope sub)"
    and "build_block C st ts sg x limit = Inr (b, rs, st')"
  shows "apply_block C st b = Inr (rs, st')" "keys32 (dp_entries (blk_diff b))" "block_valid C st b"
proof -
  let ?subs = "pool_snapshot C (cs_pool st) limit"
  let ?b = "built_block C st ?subs ts sg x"
  have st: "tree_ok C (cs_tree st)" "numbers_ok st" using assms(2) by (simp_all add: chain_ok_def)
  note keys = snapshot_keys [OF assms(2,4), of limit]
  have inc: "\<forall>sub\<in>set ?subs. includable C st sub"
    using pending_of_snapshot [OF assms(2)] assms(5) by (auto simp: includable_def)
  have self: "same_ledger st st" by (simp add: same_ledger_def)
  note bv = built_block_valid [OF assms(1,2) st(1) self keys inc, of ts sg x]
  have k: "keys32 (dp_entries (blk_diff ?b))" using built_entries_facts(4) assms(1) by simp
  have built: "b = ?b" "rs = built_receipts C st ?subs ts sg x" "st' = applied_state C st ?b (block_cache C st (applied_tree C st ?b) ?b)"
    using trans [OF sym [OF assms(6) [unfolded build_block_def]] execute_submissions_applied [OF assms(1) st assms(3) keys, of sg x]]
    by (simp_all only: sum.inject prod.inject)
  have "block_receipts C st ?b = built_receipts C st ?subs ts sg x"
    by (simp add: block_receipts_def built_receipts_def applied_tree_def built_tree_def)
  then show "apply_block C st b = Inr (rs, st')"
    using apply_block_accepts [OF assms(1) st(1) k bv] by (simp add: built)
  show "keys32 (dp_entries (blk_diff b))" "block_valid C st b" using k bv by (simp_all only: built)
qed

subsection \<open>Operations that leave the chain alone\<close>

lemma register_allocation_chain [simp]: "rt_chain (register_genesis_allocation owner v rt) = rt_chain rt"
  by (simp add: register_genesis_allocation_def Let_def)

lemma ingest_chain: "rt_chain (snd (ingest_wallet_genesis_allocations rs rt)) = rt_chain rt"
  by (induction rs rt rule: ingest_wallet_genesis_allocations.induct) (auto split: anchor.split sum.split)

lemma register_wallet_chain: "rt_chain (snd (register_wallet w auto rt)) = rt_chain rt"
  unfolding register_wallet_def Let_def
  by (rule st_bind_keeps [where P = "\<lambda>r. rt_chain r = rt_chain rt"]) (simp_all add: ingest_chain)

lemma sync_contexts_chain: "rt_chain (snd (sync_contexts C uuid a ctxs rt)) = rt_chain rt"
proof (induction ctxs arbitrary: rt)
  case (Cons ctx ctxs)
  have chain: "rt_chain r = rt_chain rt" if "apply_receipt_to_wallet C uuid a x w rt = (d, r)" for x w d r
    using apply_receipt_keeps(1) [of C uuid a x w rt] that by simp
  show ?case
    by (auto simp: st_bind_def Cons.IH chain split: option.split prod.split sum.split)
      (metis Cons.IH chain set_wallet_simps(2) snd_conv)+
qed simp

lemma sync_chain: "rt_chain (snd (sync_wallet_receipts C uuid a rt)) = rt_chain rt"
  by (simp add: sync_wallet_receipts_def sync_contexts_chain split: option.split)

lemma deliver_package_chain: "rt_chain (snd (deliver_transfer_package C uuid package recipient trusted now rt)) = rt_chain rt"
  by (auto simp: deliver_transfer_package_def Let_def split: option.split prod.split sum.split)

subsection \<open>The window of receipts\<close>

definition batches256 :: "receipt_cache \<Rightarrow> bool" where
  \<comment> \<open>The proof batches a cache holds are those of the account tree.\<close>
  "batches256 c \<longleftrightarrow> (\<forall>(k, batch)\<in>set (rca_batches c). rpb_batch_id batch = k \<and> k \<noteq> [] \<and> mp_depth (rpb_multi_proof batch) = 256)"

lemma set_pops: "set (fold dict_pop ks d) \<subseteq> set d"
proof (induction ks arbitrary: d)
  case (Cons k ks)
  then show ?case using dict_pop_subset [of k d] by (simp, blast)
qed simp

lemma prune_batches: "set (rca_batches (receipt_cache_prune c)) \<subseteq> set (rca_batches c)"
proof -
  have "set (rca_batches (prune_heights hs c)) \<subseteq> set (rca_batches c)" for hs
  proof (induction hs arbitrary: c)
    case (Cons h hs)
    have "set (rca_batches (prune_height h c)) \<subseteq> set (rca_batches c)" by (simp add: prune_height_def Let_def set_pops)
    then show ?case using Cons [of "prune_height h c"] by (simp, blast)
  qed simp
  then show ?thesis by (auto simp: receipt_cache_prune_def)
qed

lemma batches256_subset: "set (rca_batches c') \<subseteq> set (rca_batches c) \<Longrightarrow> batches256 c \<Longrightarrow> batches256 c'"
  unfolding batches256_def by blast

lemma batches256_add: "batches256 c \<Longrightarrow> batches256 (receipt_cache_add c a r ref)"
  by (rule batches256_subset [of _ c]) (auto simp: receipt_cache_add_def Let_def dest!: prune_batches [THEN subsetD])

lemma batches256_add_batch:
  assumes "batches256 c" "rpb_batch_id batch \<noteq> []" "mp_depth (rpb_multi_proof batch) = 256"
  shows "batches256 (receipt_cache_add_proof_batch c h batch)"
  using assms unfolding batches256_def receipt_cache_add_proof_batch_def Let_def
  by (fastforce dest!: prune_batches [THEN subsetD] dict_set_subset [THEN subsetD])

lemma block_cache_keeps:
  assumes "tree_ok C t" "keys32 (dp_entries (blk_diff b))"
  shows "batches256 (cs_cache st) \<Longrightarrow> batches256 (block_cache C st t b)"
    "rca_max_blocks (block_cache C st t b) = rca_max_blocks (cs_cache st)"
proof -
  have fold: "batches256 c \<Longrightarrow> batches256 (receipts_cache C t h prev es c)"
    "rca_max_blocks (receipts_cache C t h prev es c) = rca_max_blocks c" for h prev es c
    unfolding receipts_cache_def by (induction es arbitrary: c) (simp_all add: batches256_add)
  have "list_all (\<lambda>key. length key * 8 = smt_depth t) (map de_addr_key (dp_entries (blk_diff b)))"
    using assms by (simp add: list_all_iff)
  then obtain mp where mp: "build_multiproof C t (map de_addr_key (dp_entries (blk_diff b))) = Inr mp" "mp_depth mp = smt_depth t"
    using build_multiproof_ok [of C t] assms(1) by blast
  show "rca_max_blocks (block_cache C st t b) = rca_max_blocks (cs_cache st)"
    using mp by (simp add: block_cache_def add_batch_def fold(2))
  show "batches256 (cs_cache st) \<Longrightarrow> batches256 (block_cache C st t b)"
    unfolding block_cache_def add_batch_def using assms(1) mp
    by (auto intro!: fold(1) batches256_add_batch simp: batch_id_def)
qed

lemma stored_batch:
  assumes "batches256 c" "get_proof_batch c k = Some batch"
  shows "rpb_batch_id batch = k" "k \<noteq> []" "mp_depth (rpb_multi_proof batch) = 256"
  using assms map_of_SomeD unfolding batches256_def get_proof_batch_def by fastforce+

text \<open>A full receipt is always stored, compact or not.\<close>

lemma compact_total:
  assumes "digests32 C" "full_receipt r"
    and "\<And>b. batch = Some b \<Longrightarrow> rpb_batch_id b \<noteq> [] \<and> mp_depth (rpb_multi_proof b) = 256"
  obtains c where "compact_receipt C a batch r = Inr c" "rc_seq c = rc_seq r" "rc_header c = rc_header r"
proof (cases batch)
  case None
  then have "compact_receipt C a batch r = Inr r" by (simp add: compact_receipt_def split: option.split)
  then show ?thesis using that by blast
next
  case (Some b)
  define db where "db = wallet_db_new\<lparr>wd_batches := [(rpb_batch_id b, (0, b))]\<rparr>"
  have "batches_ok db" "db_proof_batch db (rpb_batch_id b) = batch"
    using assms(3) Some by (simp_all add: db_def batches_ok_def db_proof_batch_def)
  then show ?thesis using compact_receipt_roundtrip [OF assms(1) _ assms(2), of db a "rpb_batch_id b"] that by auto
qed

lemma save_window_total:
  assumes "digests32 C" "\<And>b. batch = Some b \<Longrightarrow> rpb_batch_id b \<noteq> [] \<and> mp_depth (rpb_multi_proof b) = 256"
    and "dict_ok rs" "\<forall>(a, r)\<in>set rs. full_receipt r \<and> (\<exists>ref. dict_get refs a = Some (Some ref) \<and> bundle_ref_key ref = key a)"
    and "inj_on key (fst ` set rs)" "\<forall>(_, row)\<in>set rows. wr_key row \<notin> key ` fst ` set rs"
  shows "\<exists>rows'. save_window C batch refs rs rows = Inr rows'"
  using assms(3-)
proof (induction rs arbitrary: rows)
  case (Cons x rs)
  obtain a r where x: "x = (a, r)" by (cases x)
  obtain ref where ref: "dict_get refs a = Some (Some ref)" "bundle_ref_key ref = key a" and full: "full_receipt r"
    using Cons.prems(2) by (auto simp: x)
  obtain c where c: "compact_receipt C a batch r = Inr c" by (rule compact_total [OF assms(1) full assms(2)])
  define row where "row = \<lparr>wr_height = hl_height (rc_header c), wr_key = key a, wr_receipt = c\<rparr>"
  have new: "key a \<notin> key ` fst ` set rs"
    using Cons.prems(1,3) by (auto simp: x dict_ok_def inj_on_def)
  have "wr_key row' \<notin> key ` fst ` set rs" if "(k, row') \<in> set (dict_set (a, rc_seq c) row rows)" for k row'
  proof -
    from that have "row' = row \<or> (k, row') \<in> set rows" using dict_set_subset [of "(a, rc_seq c)" row rows] by blast
    then show ?thesis
    proof
      assume "row' = row"
      then show ?thesis using new by (simp add: row_def)
    next
      assume "(k, row') \<in> set rows"
      with Cons.prems(4) show ?thesis by (fastforce simp: x)
    qed
  qed
  then have rest: "\<forall>(_, row')\<in>set (dict_set (a, rc_seq c) row rows). wr_key row' \<notin> key ` fst ` set rs" by blast
  have "\<exists>rows'. save_window C batch refs rs (dict_set (a, rc_seq c) row rows) = Inr rows'"
    by (rule Cons.IH [OF _ _ _ rest]) (use Cons.prems in \<open>auto simp: x dict_ok_def inj_on_def\<close>)
  moreover have "\<not> (\<exists>(k', row')\<in>set rows. k' \<noteq> (a, rc_seq c) \<and> wr_key row' = key a)"
    using Cons.prems(4) by (auto simp: x)
  ultimately show ?case
    by (simp add: x ref c compact_receipt_with_batch_def Let_def row_def)
qed simp

lemma save_window_keys:
  "save_window C batch refs rs rows = Inr rows' \<Longrightarrow> (k, row) \<in> set rows' \<Longrightarrow>
     wr_key row \<in> wr_key ` snd ` set rows \<or> (\<exists>a ref. dict_get refs a = Some (Some ref) \<and> wr_key row = bundle_ref_key ref)"
proof (induction rs arbitrary: rows)
  case (Cons x rs)
  obtain a r where x: "x = (a, r)" by (cases x)
  obtain ref c where ref: "dict_get refs a = Some (Some ref)"
    and c: "save_window C batch refs rs (dict_set (a, rc_seq c) \<lparr>wr_height = hl_height (rc_header c), wr_key = bundle_ref_key ref, wr_receipt = c\<rparr> rows)
      = Inr rows'"
    using Cons.prems(1) by (auto simp: x res_bind_Inr Let_def split: option.splits if_splits)
  from Cons.IH [OF c Cons.prems(2)] ref show ?case
    by (force dest!: dict_set_subset [THEN subsetD])
qed (auto intro: image_eqI [where x = "(k, row)"] simp: image_image)

subsection \<open>The stored chain\<close>

lemma replay_snoc:
  "replay_blocks C st (bs @ [b]) = res_bind (replay_blocks C st bs) (\<lambda>st. replay_blocks C st [b])"
  by (induction bs arbitrary: st) (auto simp: res_bind_def split: sum.split)

definition empty_pool :: "int \<Rightarrow> bundle_pool" where
  "empty_pool chain_id = bundle_pool_new chain_id 32768 128 64"

definition block_row :: "block \<Rightarrow> int \<times> bytes \<times> block" where
  "block_row b = (bh_height (blk_header b), blk_hash b, b)"

definition key_of_block :: "string \<Rightarrow> (int, bytes \<times> block) dict \<Rightarrow> bool" where
  \<comment> \<open>A reference to a bundle of one of these blocks\<close>
  "key_of_block key blocks \<longleftrightarrow> (\<exists>ref. key = bundle_ref_key ref \<and> br_block_hash ref \<in> fst ` snd ` set blocks)"

lemma ref_key_hash:
  assumes "bundle_ref_key ref = bundle_ref_key ref'"
  shows "br_block_hash ref = br_block_hash ref'" "br_bundle_hash ref = br_bundle_hash ref'"
proof -
  note eq = assms [unfolded bundle_ref_key_def bundle_ref_key_from_fields_def append_Cons append_Nil]
  from colon_split_unique [OF eq] have "hex (br_block_hash ref) @ CHR '':'' # hex (br_bundle_hash ref) @ CHR '':'' # str_int (br_seq ref) =
      hex (br_block_hash ref') @ CHR '':'' # hex (br_bundle_hash ref') @ CHR '':'' # str_int (br_seq ref')" by simp
  from colon_split_unique [OF this] have "br_block_hash ref = br_block_hash ref'"
      "hex (br_bundle_hash ref) @ CHR '':'' # str_int (br_seq ref) = hex (br_bundle_hash ref') @ CHR '':'' # str_int (br_seq ref')" by simp_all
  with colon_split_unique [OF this(2)] show "br_block_hash ref = br_block_hash ref'" "br_bundle_hash ref = br_bundle_hash ref'" by simp_all
qed

lemma entry_refs_get:
  assumes "distinct (map (\<lambda>e. leaf_addr (de_new_leaf e)) (dp_entries (blk_diff b)))"
  shows "dict_get (entry_refs b) a = Some ref \<longleftrightarrow> (\<exists>e\<in>set (dp_entries (blk_diff b)). leaf_addr (de_new_leaf e) = a \<and> leaf_head_ref (de_new_leaf e) = ref)"
proof -
  let ?kvs = "map (\<lambda>e. (leaf_addr (de_new_leaf e), leaf_head_ref (de_new_leaf e))) (dp_entries (blk_diff b))"
  have d: "distinct (map fst ?kvs)" using assms by (simp add: comp_def)
  have "entry_refs b = fold (\<lambda>(k, v). dict_set k v) ?kvs []" by (simp add: entry_refs_def fold_map comp_def)
  then have "dict_get (entry_refs b) a = Some ref \<longleftrightarrow> map_of ?kvs a = Some ref" using map_of_fold_set [OF d, of "[]"]
    by (simp split: option.split)
  also have "\<dots> \<longleftrightarrow> (a, ref) \<in> set ?kvs" by (rule map_of_eq_Some_iff [OF d])
  finally show ?thesis by auto
qed

definition stored :: "crypto \<Rightarrow> int \<Rightarrow> int \<Rightarrow> bytes \<Rightarrow> consensus_node \<Rightarrow> bool" where
  \<comment> \<open>The store of a node opened with these parameters holds the chain in memory, up to the pool.\<close>
  "stored C chain_id cache_blocks genesis node \<longleftrightarrow>
     (let st = node_chain node; s = cn_store node
      in run_ok C genesis st \<and> cs_version st = 2 \<and> cs_chain_id st = chain_id \<and> cn_genesis node = genesis \<and>
         rca_max_blocks (cs_cache st) = max 1 cache_blocks \<and> ns_blocks s = map block_row (cs_blocks st) \<and>
         sorted (map fst (ns_blocks s)) \<and> (\<forall>h\<in>fst ` set (ns_blocks s). h \<le> cs_height st) \<and>
         (case ns_state s of
            None \<Rightarrow> cs_blocks st = []
          | Some m \<Rightarrow> nm_version m = 2 \<and> nm_chain_id m = chain_id \<and> nm_cache_blocks m = max 1 cache_blocks \<and> nm_genesis m = genesis \<and>
              nm_height m = cs_height st \<and> nm_block_hash m = cs_block_hash st \<and> smt_root C (cs_tree st) = Inr (nm_state_root m)) \<and>
         replay_blocks C (chain_new C 2 chain_id cache_blocks 32768 128 64 genesis) (cs_blocks st) =
           Inr (st\<lparr>cs_pool := empty_pool chain_id\<rparr>) \<and>
         (\<forall>(_, value_begin, value_end)\<in>set (ns_allocations s). is_ok (make_value_range value_begin value_end)) \<and>
         batches256 (cs_cache st) \<and> (\<forall>key\<in>wr_key ` snd ` set (ns_receipts s). key_of_block key (ns_blocks s)))"

lemma chain_new_max: "chain_new C v c (max 1 n) b t m g = chain_new C v c n b t m g"
  by (simp add: chain_new_def receipt_cache_new_def)

lemma listed_blocks: "stored C chain_id n g node \<Longrightarrow> list_blocks (cn_store node) = cs_blocks (node_chain node)"
  by (auto simp: stored_def Let_def list_blocks_def sort_key_sorted block_row_def comp_def)

lemma grouped_total:
  "\<forall>(_, value_begin, value_end)\<in>set rows. is_ok (make_value_range value_begin value_end) \<Longrightarrow> \<exists>g. group_allocations rows d = Inr g"
proof (induction rows d rule: group_allocations.induct)
  case (2 owner value_begin value_end rows grouped)
  then obtain v where "make_value_range value_begin value_end = Inr v" by (cases "make_value_range value_begin value_end") auto
  then show ?case using 2 by simp
qed simp

lemma loaded:
  assumes "stored C chain_id n g node"
  shows "load_chain_state C 2 chain_id n g (cn_store node) = Inr ((node_chain node)\<lparr>cs_pool := empty_pool chain_id\<rparr>)"
  using assms listed_blocks [OF assms]
  by (auto simp: load_chain_state_def load_metadata_def stored_def Let_def chain_new_max split: option.splits)

subsection \<open>Every operation keeps it\<close>

lemma stored_same_chain:
  assumes "stored C chain_id n g node" "node_chain node' = (node_chain node)\<lparr>cs_pool := pool\<rparr>" "run_ok C g (node_chain node')"
    "cn_store node' = cn_store node" "cn_genesis node' = cn_genesis node"
  shows "stored C chain_id n g node'"
  using assms(1,3) unfolding stored_def Let_def assms(2,4,5) pool_fields by (elim conjE) simp

lemma saved_block:
  assumes "save_applied_block C b rs v c m g batch s = Inr s'"
  shows "ns_blocks s' = ns_blocks s @ [block_row b]" "ns_allocations s' = ns_allocations s"
    "ns_state s' = Some \<lparr>nm_version = v, nm_chain_id = c, nm_cache_blocks = m, nm_genesis = g, nm_height = bh_height (blk_header b),
       nm_block_hash = blk_hash b, nm_state_root = bh_state_root (blk_header b)\<rparr>"
proof -
  have "bh_height (blk_header b) \<notin> fst ` set (ns_blocks s)"
    using assms by (fastforce simp: save_applied_block_def Let_def split: if_splits)
  then have put: "dict_set (bh_height (blk_header b)) (blk_hash b, b) (ns_blocks s) = ns_blocks s @ [block_row b]"
    by (simp add: update_absent block_row_def)
  let ?batches = "case batch of None \<Rightarrow> ns_batches s
    | Some x \<Rightarrow> dict_set (rpb_batch_id x) (bh_height (blk_header b), x) (ns_batches s)"
  obtain rows where "s\<lparr>ns_blocks := dict_set (bh_height (blk_header b)) (blk_hash b, b) (ns_blocks s),
      ns_receipts := filter (\<lambda>(_, row). \<not> wr_height row < max 1 (bh_height (blk_header b) - m + 1)) rows,
      ns_batches := filter (\<lambda>(_, h, _). \<not> h < max 1 (bh_height (blk_header b) - m + 1)) ?batches,
      ns_state := Some \<lparr>nm_version = v, nm_chain_id = c, nm_cache_blocks = m, nm_genesis = g, nm_height = bh_height (blk_header b),
       nm_block_hash = blk_hash b, nm_state_root = bh_state_root (blk_header b)\<rparr>\<rparr> = s'"
    using assms unfolding save_applied_block_def Let_def if_Inl_Inr res_bind_Inr sum.inject by blast
  from this [symmetric] show "ns_blocks s' = ns_blocks s @ [block_row b]" "ns_allocations s' = ns_allocations s"
    "ns_state s' = Some \<lparr>nm_version = v, nm_chain_id = c, nm_cache_blocks = m, nm_genesis = g, nm_height = bh_height (blk_header b),
       nm_block_hash = blk_hash b, nm_state_root = bh_state_root (blk_header b)\<rparr>"
    by (simp_all add: put)
qed

lemma saved_keys:
  assumes "save_applied_block C b rs v c m g batch s = Inr s'" "key \<in> wr_key ` snd ` set (ns_receipts s')"
    and "\<And>e ref. e \<in> set (dp_entries (blk_diff b)) \<Longrightarrow> leaf_head_ref (de_new_leaf e) = Some ref \<Longrightarrow> br_block_hash ref = blk_hash b"
    and "distinct (map (\<lambda>e. leaf_addr (de_new_leaf e)) (dp_entries (blk_diff b)))"
  shows "key \<in> wr_key ` snd ` set (ns_receipts s) \<or> key_of_block key [block_row b]"
proof -
  obtain rows k row where rows: "save_window C batch (entry_refs b) rs (ns_receipts s) = Inr rows" "(k, row) \<in> set rows" "key = wr_key row"
    using assms(1,2) unfolding save_applied_block_def Let_def if_Inl_Inr res_bind_Inr sum.inject by force
  from save_window_keys [OF rows(1,2)] show ?thesis
    using assms(3) by (auto simp: rows(3) entry_refs_get [OF assms(4)] key_of_block_def block_row_def)
qed

lemma settled_node:
  assumes "node_settle C uuid b rs chain node = (Inr result, node')"
  obtains s where "save_applied_block C b rs (cs_version chain) (cs_chain_id chain) (rca_max_blocks (cs_cache chain)) (cn_genesis node)
      (get_proof_batch (cs_cache chain) (batch_id (bh_height (blk_header b)) (blk_hash b))) (cn_store node) = Inr s"
    "cn_store node' = s" "node_chain node' = chain" "cn_genesis node' = cn_genesis node"
proof -
  have "rt_chain (snd (settle_block C uuid b rs (rt\<lparr>rt_chain := chain\<rparr>))) = chain" for rt
    using deliver_receipts_keeps(1) [of C uuid rs "share_block_with_wallets b (rt\<lparr>rt_chain := chain\<rparr>)"]
    by (simp add: settle_block_def split_def Let_def)
  then show ?thesis
    using that assms by (auto simp: node_settle_def Let_def node_chain_def split: sum.splits prod.splits) (metis snd_conv)
qed

lemma valid_refs:
  assumes "block_valid C st b" "e \<in> set (dp_entries (blk_diff b))"
  shows "\<exists>ref. leaf_head_ref (de_new_leaf e) = Some ref \<and> br_block_hash ref = blk_hash b \<and> br_bundle_hash ref = de_bundle_hash e"
proof -
  obtain s pk where "entry_valid C st b e s pk" using assms by (rule block_entry_valid)
  then show ?thesis by (auto simp: entry_valid_def Let_def)
qed

lemma stored_settle:
  assumes C: "digests32 C" and inv: "stored C chain_id n g node" and applied: "apply_block C (node_chain node) b = Inr (rs, chain)"
    and keys: "keys32 (dp_entries (blk_diff b))" and ok: "run_ok C g chain"
    and settled: "node_settle C uuid b rs chain node = (Inr result, node')"
  shows "stored C chain_id n g node'"
proof -
  let ?st = "node_chain node"
  note f = apply_block_leaves [OF applied]
  obtain s where s: "save_applied_block C b rs (cs_version chain) (cs_chain_id chain) (rca_max_blocks (cs_cache chain)) (cn_genesis node)
      (get_proof_batch (cs_cache chain) (batch_id (bh_height (blk_header b)) (blk_hash b))) (cn_store node) = Inr s"
    "cn_store node' = s" "node_chain node' = chain" "cn_genesis node' = cn_genesis node"
    by (rule settled_node [OF settled])
  note saved = saved_block [OF s(1)]
  note old = inv [unfolded stored_def Let_def]
  have t: "tree_ok C (cs_tree ?st)" using old by (simp add: run_ok_def chain_ok_def)
  note valid = apply_block_valid [OF C t keys applied]
  have "replay_blocks C (chain_new C 2 chain_id n 32768 128 64 g) (cs_blocks chain) = Inr (chain\<lparr>cs_pool := empty_pool chain_id\<rparr>)"
    using old apply_block_pool [OF applied, of "empty_pool chain_id"]
    by (simp add: f(3) replay_snoc) (simp add: empty_pool_def pool_after_new)
  moreover have "sorted (map fst (ns_blocks s)) \<and> (\<forall>h\<in>fst ` set (ns_blocks s). h \<le> cs_height chain)"
    using old f(4,5) by (fastforce simp: saved(1) sorted_append block_row_def)
  moreover have "batches256 (cs_cache chain)"
    using apply_block_accepts [OF C t keys valid] applied old tree_after [OF C t keys]
    by (auto simp: applied_state_def applied_tree_def intro!: block_cache_keeps(1) [OF _ keys])
  moreover have "key_of_block key (ns_blocks s)" if "key \<in> wr_key ` snd ` set (ns_receipts s)" for key
  proof -
    have "key \<in> wr_key ` snd ` set (ns_receipts (cn_store node)) \<or> key_of_block key [block_row b]"
      by (rule saved_keys [OF s(1) that]) (use valid valid_refs [OF valid] in \<open>fastforce simp: block_valid_def Let_def\<close>)+
    then have "key_of_block key (ns_blocks (cn_store node)) \<or> key_of_block key [block_row b]" using old by blast
    then show ?thesis by (auto simp: saved(1) key_of_block_def)
  qed
  ultimately show ?thesis
    using old saved(2,3) f ok unfolding stored_def Let_def s(2-4) by (simp add: saved(1))
qed

text \<open>What a node does with its chain, and everything else: any wallet may be registered, any package delivered, and whoever holds
  a registered wallet may change it at any time.\<close>

inductive node_op :: "crypto \<Rightarrow> (string \<Rightarrow> nat \<Rightarrow> string) \<Rightarrow> consensus_node \<Rightarrow> consensus_node \<Rightarrow> bool" for C uuid node where
  submit: "node_op C uuid node (snd (node_submit_bundle C sub node))"
| produce: "node_op C uuid node node'" if "node_produce_block C uuid ts sg x limit node = (Inr result, node')" "0 \<le> ts"
    "inj_on (compute_addr_key C) (accounts (node_chain node))"
    "\<forall>sub\<in>set (pool_snapshot C (cs_pool (node_chain node)) limit). cs_height (node_chain node) < env_expiry_height (sub_envelope sub)"
| apply_b: "node_op C uuid node node'" if "node_apply_block C uuid b node = (Inr result, node')"
    "entries_faithful C (dp_entries (blk_diff b))"
    "inj_on (compute_addr_key C) (dom (dict_get (cs_leaves (node_chain node))) \<union> entry_accounts (dp_entries (blk_diff b)))"
| unregister: "node_op C uuid node (node_unregister_wallet a node)"
| allocate: "node_op C uuid node (node_register_allocation a v node)" if "vr_ok v"
| sync: "node_op C uuid node (snd (node_sync_wallet_receipts C uuid a node))"

inductive node_step :: "crypto \<Rightarrow> (string \<Rightarrow> nat \<Rightarrow> string) \<Rightarrow> consensus_node \<Rightarrow> consensus_node \<Rightarrow> bool" for C uuid node where
  operation: "node_op C uuid node node' \<Longrightarrow> node_step C uuid node node'"
| register: "node_step C uuid node (snd (node_register_wallet w auto node))"
| deliver: "node_step C uuid node (snd (node_deliver_transfer_package C uuid package recipient trusted now node))"
| wallet: "node_step C uuid node (node\<lparr>cn_runtime := set_wallet a w (cn_runtime node)\<rparr>)"

lemma node_outcomes [simp]:
  "snd (node_sync_wallet_receipts C uuid a node) = node\<lparr>cn_runtime := snd (sync_wallet_receipts C uuid a (cn_runtime node))\<rparr>"
  "snd (node_register_wallet w auto node) = node\<lparr>cn_runtime := snd (register_wallet w auto (cn_runtime node))\<rparr>"
  "snd (node_deliver_transfer_package C uuid package recipient trusted now node) =
     node\<lparr>cn_runtime := snd (deliver_transfer_package C uuid package recipient trusted now (cn_runtime node))\<rparr>"
  by (auto simp: node_sync_wallet_receipts_def node_register_wallet_def node_deliver_transfer_package_def split: prod.split sum.split)

text \<open>An operation adds at most one valid block to the chain.\<close>

lemma node_op_cases [consumes 3, case_names same pool block]:
  assumes "node_op C uuid node node'" "digests32 C" "run_ok C g (node_chain node)"
  obtains "node_chain node' = node_chain node" "cn_genesis node' = cn_genesis node"
      "cn_store node' = cn_store node \<or> (\<exists>a v. vr_ok v \<and> cn_store node' = save_genesis_allocation a v (cn_store node))"
      "cn_runtime node' = cn_runtime node \<or> (\<exists>a. cn_runtime node' = unregister_wallet a (cn_runtime node)) \<or>
        (\<exists>a v. cn_runtime node' = register_genesis_allocation a v (cn_runtime node)) \<or>
        (\<exists>a. cn_runtime node' = snd (sync_wallet_receipts C uuid a (cn_runtime node)))"
  | pool where "node_chain node' = (node_chain node)\<lparr>cs_pool := pool\<rparr>" "run_ok C g (node_chain node')"
      "rt_wallets (cn_runtime node') = rt_wallets (cn_runtime node)" "cn_store node' = cn_store node" "cn_genesis node' = cn_genesis node"
  | b rs result where "apply_block C (node_chain node) b = Inr (rs, node_chain node')" "keys32 (dp_entries (blk_diff b))"
      "block_valid C (node_chain node) b" "run_ok C g (node_chain node')"
      "node_settle C uuid b rs (node_chain node') node = (Inr result, node')"
proof -
  have ok: "chain_ok C (node_chain node)" using assms(3) by (simp add: run_ok_def)
  from assms(1) show ?thesis
  proof (cases rule: node_op.cases)
    case (submit sub)
    show ?thesis
    proof (cases "submit_bundle C (node_chain node) sub")
      case (Inl e)
      then show ?thesis using that(1) by (simp add: submit node_submit_bundle_def rt_submit_bundle_def node_chain_def)
    next
      case (Inr r)
      then obtain st a where r: "submit_bundle C (node_chain node) sub = Inr (st, a)" by (cases r) simp
      then obtain pool where pool: "st = (node_chain node)\<lparr>cs_pool := pool\<rparr>"
        by (auto simp: submit_bundle_def res_bind_Inr map_err_Inr)
      have "chain_step C (node_chain node) st" using r by (rule chain_step.submit)
      with assms(2,3) have "run_ok C g st" by (rule chain_step_run_ok)
      then show ?thesis using that(2) [of pool] r pool
        by (simp add: submit node_submit_bundle_def rt_submit_bundle_def node_chain_def)
    qed
  next
    case (produce ts sg x limit result)
    obtain b rs chain where b: "build_block C (node_chain node) ts sg x limit = Inr (b, rs, chain)"
        "node_settle C uuid b rs chain node = (Inr result, node')"
      using produce(1) by (auto simp: node_produce_block_def split: sum.splits if_splits)
    note built = build_applies [OF assms(2) ok produce(2-4) b(1)]
    have chain: "node_chain node' = chain" by (rule settled_node [OF b(2)]) simp
    have "chain_step C (node_chain node) chain" by (rule chain_step.build [OF b(1) produce(3,4,2)])
    with assms(2,3) have "run_ok C g chain" by (rule chain_step_run_ok)
    then show ?thesis using that(3) built b(2) chain by blast
  next
    case (apply_b b result)
    obtain rs chain where b: "apply_block C (node_chain node) b = Inr (rs, chain)" "node_settle C uuid b rs chain node = (Inr result, node')"
      using apply_b(1) by (auto simp: node_apply_block_def split: sum.splits)
    have k: "keys32 (dp_entries (blk_diff b))" by (rule faithful_keys [OF assms(2) apply_b(2)])
    have "tree_ok C (cs_tree (node_chain node))" using ok by (simp add: chain_ok_def)
    note valid = apply_block_valid [OF assms(2) this k b(1)]
    have chain: "node_chain node' = chain" by (rule settled_node [OF b(2)]) simp
    have "chain_step C (node_chain node) chain" by (rule chain_step.apply_b [OF b(1) apply_b(2,3)])
    with assms(2,3) have "run_ok C g chain" by (rule chain_step_run_ok)
    then show ?thesis using that(3) valid b k chain by blast
  next
    case (unregister a)
    show ?thesis by (rule that(1)) (auto simp: unregister node_unregister_wallet_def node_chain_def unregister_wallet_def)
  next
    case (allocate v a)
    then show ?thesis by (intro that(1)) (auto simp: node_register_allocation_def node_chain_def)
  next
    case (sync a)
    show ?thesis by (rule that(1)) (auto simp: sync node_chain_def sync_chain)
  qed
qed

lemma stored_op:
  assumes "node_op C uuid node node'" "digests32 C" "stored C chain_id n g node"
  shows "stored C chain_id n g node'"
proof -
  have "run_ok C g (node_chain node)" using assms(3) by (simp add: stored_def Let_def)
  with assms(1,2) show ?thesis
  proof (cases rule: node_op_cases)
    case same
    note old = assms(3) [unfolded stored_def Let_def]
    have rows: "ns_blocks (cn_store node') = ns_blocks (cn_store node)" "ns_receipts (cn_store node') = ns_receipts (cn_store node)"
      "ns_state (cn_store node') = ns_state (cn_store node)"
      using same(3) by (auto simp: save_genesis_allocation_def Let_def)
    have "is_ok (make_value_range (vr_begin v) (vr_end v))" if "vr_ok v" for v
      using that by (simp add: make_value_range_def vr_ok_def)
    moreover have "\<forall>(_, value_begin, value_end)\<in>set (ns_allocations (cn_store node)). is_ok (make_value_range value_begin value_end)"
      using old by (elim conjE)
    ultimately have "\<forall>(_, value_begin, value_end)\<in>set (ns_allocations (cn_store node')). is_ok (make_value_range value_begin value_end)"
      using same(3) by (auto simp: save_genesis_allocation_def Let_def split: if_splits)
    then show ?thesis using old unfolding stored_def Let_def same(1,2) rows by (elim conjE) (intro conjI)
  next
    case (pool pool)
    then show ?thesis using stored_same_chain [OF assms(3)] by blast
  next
    case (block b rs result)
    then show ?thesis using stored_settle [OF assms(2,3)] by blast
  qed
qed

lemma stored_step:
  assumes "node_step C uuid node node'" "digests32 C" "stored C chain_id n g node"
  shows "stored C chain_id n g node'"
proof -
  have run: "run_ok C g (node_chain node)" using assms(3) by (simp add: stored_def Let_def)
  have same: "stored C chain_id n g (node\<lparr>cn_runtime := rt\<rparr>)" if "rt_chain rt = rt_chain (cn_runtime node)" for rt
    by (rule stored_same_chain [OF assms(3), where pool = "cs_pool (node_chain node)"]) (use that run in \<open>simp_all add: node_chain_def\<close>)
  from assms(1) show ?thesis
    by (cases rule: node_step.cases)
      (simp_all add: stored_op [OF _ assms(2,3)] same register_wallet_chain deliver_package_chain)
qed

end
