(* ===== verification/Node_Restart.thy ===== *)
theory Node_Restart
  imports Node_Safety
begin

section \<open>What a node finds when it starts again\<close>

text \<open>
  A block that a node builds is always written to its store, whether or not another node would apply it, as long as hashes do not
  collide. After a restart the node is where it was, without its pool, unless it has built a block with an expired bundle: then it
  never starts again.
\<close>

subsection \<open>Saving a block that was built does not raise\<close>

lemma folded_get:
  assumes "distinct (map k es)"
  shows "dict_get (fold (\<lambda>e. dict_set (k e) (v e)) es []) a = Some y \<longleftrightarrow> (\<exists>e\<in>set es. k e = a \<and> v e = y)"
proof -
  let ?kvs = "map (\<lambda>e. (k e, v e)) es"
  have d: "distinct (map fst ?kvs)" using assms by (simp add: comp_def)
  have "fold (\<lambda>e. dict_set (k e) (v e)) es [] = fold (\<lambda>(k, v). dict_set k v) ?kvs []" by (simp add: fold_map comp_def)
  then have "dict_get (fold (\<lambda>e. dict_set (k e) (v e)) es []) a = Some y \<longleftrightarrow> map_of ?kvs a = Some y"
    using map_of_fold_set [OF d, of "[]"] by (simp split: option.split)
  also have "\<dots> \<longleftrightarrow> (a, y) \<in> set ?kvs" by (rule map_of_eq_Some_iff [OF d])
  finally show ?thesis by auto
qed


lemma receipts_full:
  assumes "distinct (map (\<lambda>e. leaf_addr (de_new_leaf e)) es)"
    and "\<forall>e\<in>set es. 0 < env_seq (de_envelope e) \<and> hash32_opt (leaf_claim_set_hash (de_new_leaf e))"
  shows "fst ` set (all_receipts C t h prev es []) = entry_accounts es" "\<forall>(a, r)\<in>set (all_receipts C t h prev es []). full_receipt r"
proof -
  let ?rs = "all_receipts C t h prev es []"
  have get: "dict_get ?rs a = Some r \<longleftrightarrow> (\<exists>e\<in>set es. leaf_addr (de_new_leaf e) = a \<and> receipt_for C t h prev e = r)" for a r
    unfolding all_receipts_def by (rule folded_get [OF assms(1)])
  have member: "(a, r) \<in> set ?rs \<longleftrightarrow> (\<exists>e\<in>set es. leaf_addr (de_new_leaf e) = a \<and> receipt_for C t h prev e = r)" for a r
    using get [of a r] all_receipts_dict_ok [of C t h prev es] map_of_eq_Some_iff [of ?rs a r] by (simp add: dict_ok_def)
  show "fst ` set ?rs = entry_accounts es"
  proof (intro set_eqI iffI)
    fix a assume "a \<in> fst ` set ?rs"
    then show "a \<in> entry_accounts es" using member by fastforce
  next
    fix a assume "a \<in> entry_accounts es"
    then obtain e where "e \<in> set es" "leaf_addr (de_new_leaf e) = a" by blast
    then have "(a, receipt_for C t h prev e) \<in> set ?rs" using member by blast
    then show "a \<in> fst ` set ?rs" by force
  qed
  have "full_receipt (receipt_for C t h prev e)" if "e \<in> set es" for e
    using bspec [OF assms(2) that] by (simp add: full_receipt_def receipt_for_def make_receipt_def receipt_init_def)
  then show "\<forall>(a, r)\<in>set ?rs. full_receipt r" using member by fastforce
qed

definition savable :: "block \<Rightarrow> receipts \<Rightarrow> bool" where
  \<comment> \<open>What the store relies on: one entry and one receipt per sender, references to the block itself, distinct bundles.\<close>
  "savable b rs \<longleftrightarrow> (let es = dp_entries (blk_diff b) in
     distinct (map (\<lambda>e. leaf_addr (de_new_leaf e)) es) \<and> inj_on de_bundle_hash (set es) \<and>
     (\<forall>e\<in>set es. \<exists>ref. leaf_head_ref (de_new_leaf e) = Some ref \<and> br_block_hash ref = blk_hash b \<and> br_bundle_hash ref = de_bundle_hash e) \<and>
     dict_ok rs \<and> fst ` set rs = entry_accounts es \<and> (\<forall>(a, r)\<in>set rs. full_receipt r))"

lemma savable_ref:
  assumes "savable b rs" "a \<in> fst ` set rs"
  obtains e ref where "e \<in> set (dp_entries (blk_diff b))" "leaf_addr (de_new_leaf e) = a" "dict_get (entry_refs b) a = Some (Some ref)"
    "br_block_hash ref = blk_hash b" "br_bundle_hash ref = de_bundle_hash e"
proof -
  have d: "distinct (map (\<lambda>e. leaf_addr (de_new_leaf e)) (dp_entries (blk_diff b)))" using assms(1) by (simp add: savable_def Let_def)
  from assms obtain e where e: "e \<in> set (dp_entries (blk_diff b))" "leaf_addr (de_new_leaf e) = a" by (auto simp: savable_def Let_def)
  with assms(1) obtain ref where ref: "leaf_head_ref (de_new_leaf e) = Some ref" "br_block_hash ref = blk_hash b"
      "br_bundle_hash ref = de_bundle_hash e" by (auto simp: savable_def Let_def)
  have "dict_get (entry_refs b) a = Some (Some ref)" using e ref(1) by (auto simp: entry_refs_get [OF d])
  then show ?thesis using that e ref by blast
qed

definition entry_key :: "block \<Rightarrow> string \<Rightarrow> string" where
  "entry_key b a = bundle_ref_key (the (the (dict_get (entry_refs b) a)))"

lemma entry_key_inj:
  assumes "savable b rs"
  shows "inj_on (entry_key b) (fst ` set rs)"
proof (rule inj_onI)
  fix a a' assume a: "a \<in> fst ` set rs" "a' \<in> fst ` set rs" "entry_key b a = entry_key b a'"
  from assms a(1) obtain e ref where e: "e \<in> set (dp_entries (blk_diff b))" "leaf_addr (de_new_leaf e) = a"
    "dict_get (entry_refs b) a = Some (Some ref)" "br_bundle_hash ref = de_bundle_hash e" by (rule savable_ref)
  from assms a(2) obtain e' ref' where e': "e' \<in> set (dp_entries (blk_diff b))" "leaf_addr (de_new_leaf e') = a'"
    "dict_get (entry_refs b) a' = Some (Some ref')" "br_bundle_hash ref' = de_bundle_hash e'" by (rule savable_ref)
  have "de_bundle_hash e = de_bundle_hash e'" using a(3) e(3,4) e'(3,4) ref_key_hash(2) [of ref ref'] by (simp add: entry_key_def)
  then show "a = a'" using assms e(1,2) e'(1,2) by (auto simp: savable_def Let_def inj_on_def)
qed

lemma save_total:
  assumes C: "digests32 C" and inv: "stored C chain_id n g node" and b: "savable b rs" "bh_height (blk_header b) = cs_height (node_chain node) + 1"
    and batches: "batches256 cache" and new: "blk_hash b \<notin> blk_hash ` set (cs_blocks (node_chain node))"
  shows "\<exists>s. save_applied_block C b rs v c m g' (get_proof_batch cache k) (cn_store node) = Inr s"
proof -
  let ?st = "node_chain node" and ?s = "cn_store node"
  note old = inv [unfolded stored_def Let_def]
  have rs: "dict_ok rs" using b(1) by (simp add: savable_def Let_def)
  have "full_receipt r \<and> (\<exists>ref. dict_get (entry_refs b) a = Some (Some ref) \<and> bundle_ref_key ref = entry_key b a)" if r: "(a, r) \<in> set rs" for a r
  proof -
    have "a \<in> fst ` set rs" using r by (metis fst_conv image_eqI)
    with b(1) obtain ref where "dict_get (entry_refs b) a = Some (Some ref)" by (rule savable_ref)
    then show ?thesis using b(1) r by (auto simp: entry_key_def savable_def Let_def)
  qed
  then have receipts: "\<forall>(a, r)\<in>set rs. full_receipt r \<and> (\<exists>ref. dict_get (entry_refs b) a = Some (Some ref) \<and> bundle_ref_key ref = entry_key b a)"
    by blast
  have "wr_key row \<noteq> entry_key b a" if row: "(x, row) \<in> set (ns_receipts ?s)" and a: "a \<in> fst ` set rs" for x row a
  proof -
    from b(1) a obtain ref where r: "dict_get (entry_refs b) a = Some (Some ref)" "br_block_hash ref = blk_hash b" by (rule savable_ref)
    have "key_of_block (wr_key row) (ns_blocks ?s)" using old row by force
    then obtain ref' where "wr_key row = bundle_ref_key ref'" "br_block_hash ref' \<in> blk_hash ` set (cs_blocks ?st)"
      using old by (auto simp: key_of_block_def block_row_def)
    then show ?thesis using new r ref_key_hash(1) [of ref ref'] by (auto simp: entry_key_def)
  qed
  then have rows: "\<forall>(_, row)\<in>set (ns_receipts ?s). wr_key row \<notin> entry_key b ` fst ` set rs" by fastforce
  have "rpb_batch_id x \<noteq> [] \<and> mp_depth (rpb_multi_proof x) = 256" if "get_proof_batch cache k = Some x" for x
    using stored_batch [OF batches that] by simp
  then obtain rows' where w: "save_window C (get_proof_batch cache k) (entry_refs b) rs (ns_receipts ?s) = Inr rows'"
    using save_window_total [OF C _ rs receipts entry_key_inj [OF b(1)] rows] by blast
  have d: "distinct (map (\<lambda>e. leaf_addr (de_new_leaf e)) (dp_entries (blk_diff b)))" using b(1) by (simp add: savable_def Let_def)
  have "dict_get rs a \<noteq> None" if "(a, y) \<in> set (entry_refs b)" for a y
    using weak_map_of_SomeI [OF that] b(1) by (auto simp: entry_refs_get [OF d] map_of_eq_None_iff savable_def Let_def)
  moreover have "\<not> (\<exists>(h, block_hash, _)\<in>set (ns_blocks ?s). h = bh_height (blk_header b) \<or> block_hash = blk_hash b)"
    using old new b(2) by (fastforce simp: block_row_def)
  ultimately show ?thesis using w unfolding save_applied_block_def Let_def if_Inl_Inr res_bind_Inr by auto
qed

text \<open>A block that the node builds, whether or not its bundles have expired\<close>

lemma built_savable:
  assumes C: "digests32 C" and run: "run_ok C g st" and ts: "0 \<le> ts" and inj: "inj_on (compute_addr_key C) (accounts st)"
    and bundles: "inj_on (\<lambda>sub. env_bundle_hash (sub_envelope sub)) (set (pool_snapshot C (cs_pool st) limit))" and batches: "batches256 (cs_cache st)"
  obtains b rs chain where "build_block C st ts sg x limit = Inr (b, rs, chain)" "savable b rs" "bh_height (blk_header b) = cs_height st + 1"
    "batches256 (cs_cache chain)" "rca_max_blocks (cs_cache chain) = rca_max_blocks (cs_cache st)" "cs_version chain = cs_version st"
    "cs_chain_id chain = cs_chain_id st"
proof -
  let ?subs = "pool_snapshot C (cs_pool st) limit"
  let ?b = "built_block C st ?subs ts sg x" and ?es = "built_entries C st ?subs ts sg x"
  have ok: "chain_ok C st" using run by (simp add: run_ok_def)
  then have st: "tree_ok C (cs_tree st)" "numbers_ok st" by (simp_all add: chain_ok_def)
  have k: "keys32 (dp_entries (blk_diff ?b))" using built_entries_facts(4) C by simp
  have d: "distinct (map (\<lambda>e. leaf_addr (de_new_leaf e)) ?es)"
    using ok unfolding built_entries_facts(2) by (simp add: chain_ok_def snapshot_senders_distinct)
  have "0 < env_seq (sub_envelope sub) \<and> hash32_opt (env_claim_set_hash (sub_envelope sub))" if "sub \<in> set ?subs" for sub
    using pending_of_snapshot(1,3) [OF ok that] admissible_claims [OF C] run by (fastforce simp: run_ok_def intro: le_less_trans)
  then have full: "\<forall>e\<in>set ?es. 0 < env_seq (de_envelope e) \<and> hash32_opt (leaf_claim_set_hash (de_new_leaf e))"
    by (simp add: built_entries_def prepare_entry_def new_leaf_def)
  have "inj_on de_bundle_hash (set ?es)"
    using bundles by (auto simp: built_entries_def prepare_entry_def inj_on_def)
  moreover have "\<exists>ref. leaf_head_ref (de_new_leaf e) = Some ref \<and> br_block_hash ref = blk_hash ?b \<and> br_bundle_hash ref = de_bundle_hash e"
    if "e \<in> set ?es" for e
    using that by (auto simp: built_entries_def prepare_entry_def new_leaf_def)
  ultimately have "savable ?b (built_receipts C st ?subs ts sg x)"
    using d receipts_full [OF d full] by (simp add: savable_def built_receipts_def all_receipts_dict_ok Let_def)
  moreover have "tree_ok C (applied_tree C st ?b)" unfolding applied_tree_def by (rule tree_after [OF C st(1) k])
  ultimately show ?thesis
    using that [of ?b] block_cache_keeps [OF _ k, where st = st] batches execute_submissions_applied [OF C st ts snapshot_keys [OF ok inj, of limit], of sg x]
    by (simp add: build_block_def applied_state_def)
qed


lemma produced:
  assumes C: "digests32 C" and inv: "stored C chain_id n g node" and ts: "0 \<le> ts" and inj: "inj_on (compute_addr_key C) (accounts (node_chain node))"
    and bundles: "inj_on (\<lambda>sub. env_bundle_hash (sub_envelope sub)) (set (pool_snapshot C (cs_pool (node_chain node)) limit))"
    and some: "pool_snapshot C (cs_pool (node_chain node)) limit \<noteq> []"
    and fresh: "\<And>b rs chain. build_block C (node_chain node) ts sg x limit = Inr (b, rs, chain) \<Longrightarrow>
      blk_hash b \<notin> blk_hash ` set (cs_blocks (node_chain node))"
  obtains b rs chain result node' batch where "build_block C (node_chain node) ts sg x limit = Inr (b, rs, chain)"
    "node_produce_block C uuid ts sg x limit node = (Inr result, node')" "bre_block result = b" "node_chain node' = chain"
    "save_applied_block C b rs 2 chain_id (max 1 n) g batch (cn_store node) = Inr (cn_store node')"
    "bh_height (blk_header b) = cs_height (node_chain node) + 1"
proof -
  have run: "run_ok C g (node_chain node)" and batches: "batches256 (cs_cache (node_chain node))"
    and old: "cs_version (node_chain node) = 2" "cs_chain_id (node_chain node) = chain_id" "rca_max_blocks (cs_cache (node_chain node)) = max 1 n"
      "cn_genesis node = g"
    using inv by (simp_all add: stored_def Let_def)
  obtain b rs chain where b: "build_block C (node_chain node) ts sg x limit = Inr (b, rs, chain)" "savable b rs"
      "bh_height (blk_header b) = cs_height (node_chain node) + 1" "batches256 (cs_cache chain)"
      "rca_max_blocks (cs_cache chain) = max 1 n" "cs_version chain = 2" "cs_chain_id chain = chain_id"
    by (rule built_savable [OF C run ts inj bundles batches, of sg x]) (simp add: old)
  let ?batch = "get_proof_batch (cs_cache chain) (batch_id (bh_height (blk_header b)) (blk_hash b))"
  from save_total [OF C inv b(2,3,4) fresh [OF b(1)]]
  obtain s where s: "save_applied_block C b rs 2 chain_id (max 1 n) g ?batch (cn_store node) = Inr s" by blast
  obtain result rt where settle: "settle_block C uuid b rs ((cn_runtime node)\<lparr>rt_chain := chain\<rparr>) = (result, rt)" by fastforce
  let ?node = "node\<lparr>cn_store := s, cn_runtime := rt\<rparr>"
  have ok: "node_settle C uuid b rs chain node = (Inr result, ?node)"
    by (simp add: node_settle_def Let_def s settle b(5-7) old(4))
  then have "node_produce_block C uuid ts sg x limit node = (Inr result, ?node)" using some by (simp add: node_produce_block_def b(1))
  moreover have "bre_block result = b" using settle by (auto simp: settle_block_def split: prod.splits)
  moreover have "node_chain ?node = chain" by (rule settled_node [OF ok]) simp
  ultimately show ?thesis using that b(1,3) s by simp
qed

subsection \<open>Starting a node\<close>

lemma registered_fold_chain [simp]: "rt_chain (fold (register_genesis_allocation a) vs rt) = rt_chain rt"
  by (induction vs arbitrary: rt) simp_all

lemma registered_all_chain [simp]: "rt_chain (fold (\<lambda>(a, vs). fold (register_genesis_allocation a) vs) allocations rt) = rt_chain rt"
  by (induction allocations arbitrary: rt) (auto simp: split_def)

definition allocated :: "(string, value_range list) dict \<Rightarrow> (string \<times> int \<times> int) set" where
  "allocated d = {(a, x, y). ValueRange x y \<in> set (dict_get_default d a [])}"

lemma allocated_register:
  "(b, x, y) \<in> allocated (rt_allocations (register_genesis_allocation a v rt)) \<longleftrightarrow>
     b = a \<and> ValueRange x y = v \<or> (b, x, y) \<in> allocated (rt_allocations rt)"
  by (auto simp: allocated_def register_genesis_allocation_def Let_def dict_get_default_def dict_simps split: option.splits if_splits)

lemma allocated_fold:
  "(b, x, y) \<in> allocated (rt_allocations (fold (register_genesis_allocation a) vs rt)) \<longleftrightarrow>
     b = a \<and> ValueRange x y \<in> set vs \<or> (b, x, y) \<in> allocated (rt_allocations rt)"
  by (induction vs arbitrary: rt) (auto simp: allocated_register)

lemma allocated_all:
  "(b, x, y) \<in> allocated (rt_allocations (fold (\<lambda>(a, vs). fold (register_genesis_allocation a) vs) d rt)) \<longleftrightarrow>
     (\<exists>vs. (b, vs) \<in> set d \<and> ValueRange x y \<in> set vs) \<or> (b, x, y) \<in> allocated (rt_allocations rt)"
  by (induction d arbitrary: rt) (auto simp: allocated_fold)

lemma allocated_dict: "dict_ok d \<Longrightarrow> (b, x, y) \<in> allocated d \<longleftrightarrow> (\<exists>vs. (b, vs) \<in> set d \<and> ValueRange x y \<in> set vs)"
  by (force simp: allocated_def dict_ok_def dict_get_default_def split: option.splits dest: map_of_SomeD)

lemma allocated_Nil [simp]: "allocated [] = {}"
  by (simp add: allocated_def dict_get_default_def)

lemma grouped_allocated:
  "group_allocations rows d = Inr d' \<Longrightarrow> dict_ok d \<Longrightarrow> dict_ok d' \<and> allocated d' = set rows \<union> allocated d"
proof (induction rows d rule: group_allocations.induct)
  case (2 a value_begin value_end rows d)
  have v: "make_value_range value_begin value_end = Inr (ValueRange value_begin value_end)"
    using 2(2) by (cases "make_value_range value_begin value_end") (auto simp: make_value_range_def split: if_splits)
  have "allocated (dict_set a (dict_get_default d a [] @ [ValueRange value_begin value_end]) d) = insert (a, value_begin, value_end) (allocated d)"
    by (auto simp: allocated_def dict_get_default_def dict_simps split: option.splits if_splits)
  then show ?case using 2 v by simp
qed simp

lemma opened:
  assumes "stored C chain_id n g node"
  obtains node' where "node_open C (cn_store node) chain_id n auto g = Inr node'" "cn_store node' = cn_store node"
    "node_chain node' = (node_chain node)\<lparr>cs_pool := empty_pool chain_id\<rparr>" "cn_genesis node' = g"
    "allocated (rt_allocations (cn_runtime node')) = set (ns_allocations (cn_store node))"
proof -
  have "\<forall>(_, value_begin, value_end)\<in>set (sort_key id (ns_allocations (cn_store node))). is_ok (make_value_range value_begin value_end)"
    using assms by (simp add: stored_def Let_def)
  from grouped_total [OF this] obtain d where d: "list_genesis_allocations (cn_store node) = Inr d"
    by (auto simp: list_genesis_allocations_def)
  have "dict_ok d" "allocated d = set (ns_allocations (cn_store node))"
    using grouped_allocated [OF d [unfolded list_genesis_allocations_def]] by simp_all
  moreover have "(case load_metadata (cn_store node) of None \<Rightarrow> g | Some m \<Rightarrow> nm_genesis m) = g"
    using assms by (auto simp: stored_def Let_def load_metadata_def split: option.splits)
  moreover have "allocated (rt_allocations (fold (\<lambda>(a, vs). fold (register_genesis_allocation a) vs) d (runtime_new chain auto))) = allocated d" for chain
    using allocated_all [of _ _ _ d "runtime_new chain auto"] allocated_dict [OF \<open>dict_ok d\<close>] by (auto simp: runtime_new_def)
  ultimately show ?thesis
    using that loaded [OF assms] d by (simp add: node_open_def node_chain_def) (simp add: runtime_new_def)
qed

lemma stored_new:
  assumes "0 \<le> chain_id" "hash32 g" "node_open C node_store_new chain_id n auto g = Inr node"
  shows "stored C chain_id n g node"
proof -
  let ?st = "chain_new C 2 chain_id n 32768 128 64 g"
  have "run_ok C g ?st"
    using chain_new_ok [of 2, OF _ assms(1,2)]
    by (simp add: run_ok_def) (simp add: chain_new_def linked_def sent_seqs_def confirmed_seq_def head_ref_of_def)
  moreover have "node_chain node = ?st" "cn_store node = node_store_new" "cn_genesis node = g"
    using assms(3) by (auto simp: node_open_def load_chain_state_def load_metadata_def list_genesis_allocations_def node_store_new_def
        node_chain_def runtime_new_def)
  ultimately show ?thesis
    by (simp add: stored_def Let_def node_store_new_def batches256_def)
      (simp add: chain_new_def receipt_cache_new_def empty_pool_def)
qed

lemma stored_run:
  assumes "(node_step C uuid)\<^sup>*\<^sup>* node node'" "digests32 C" "stored C chain_id n g node"
  shows "stored C chain_id n g node'"
  using assms by (induction rule: rtranclp_induct) (blast intro: stored_step)+

subsection \<open>Restarting\<close>

text \<open>C9. A restart loses the pool and nothing else. Take a node that was opened on a new store and then ran, submitting, producing and
  applying blocks, registering wallets and allocations, syncing and delivering, as long as it packed no expired bundle and the blocks it
  applied have their entries under the keys of their accounts, as an honest proposer writes them. Opening another node on its store succeeds, and the
  new node's chain is the old one's in every field but the pool of pending bundles, which is empty; it knows the allocations in the store.\<close>

theorem restart_recovers:
  assumes "digests32 C" "0 \<le> chain_id" "hash32 g" "node_open C node_store_new chain_id n auto g = Inr node0"
    and "(node_step C uuid)\<^sup>*\<^sup>* node0 node"
  shows "\<exists>node'. node_open C (cn_store node) chain_id n auto' g = Inr node' \<and> cn_store node' = cn_store node \<and>
    node_chain node' = (node_chain node)\<lparr>cs_pool := empty_pool chain_id\<rparr> \<and>
    allocated (rt_allocations (cn_runtime node')) = set (ns_allocations (cn_store node))"
  by (rule opened [OF stored_run [OF assms(5,1) stored_new [OF assms(2-4)]], of auto']) blast

text \<open>C10. A produced block is durable. Such a node with pending bundles, none of them expired, produces a block whenever
  hashes do not collide (the keys of its accounts, the bundles it packs, the new block with earlier ones): writing it to the store
  never raises, and a node that is opened on the store has the block and everything that follows from it.\<close>

theorem produced_block_is_durable:
  assumes "digests32 C" "0 \<le> chain_id" "hash32 g" "node_open C node_store_new chain_id n auto g = Inr node0"
    and "(node_step C uuid)\<^sup>*\<^sup>* node0 node" "0 \<le> ts" "pool_snapshot C (cs_pool (node_chain node)) limit \<noteq> []"
    and "\<forall>sub\<in>set (pool_snapshot C (cs_pool (node_chain node)) limit). cs_height (node_chain node) < env_expiry_height (sub_envelope sub)"
    and "inj_on (compute_addr_key C) (accounts (node_chain node))"
    and "inj_on (\<lambda>sub. env_bundle_hash (sub_envelope sub)) (set (pool_snapshot C (cs_pool (node_chain node)) limit))"
    and "\<And>b rs chain. build_block C (node_chain node) ts sg x limit = Inr (b, rs, chain) \<Longrightarrow>
      blk_hash b \<notin> blk_hash ` set (cs_blocks (node_chain node))"
  shows "\<exists>result node' node''. node_produce_block C uuid ts sg x limit node = (Inr result, node') \<and>
    cs_blocks (node_chain node') = cs_blocks (node_chain node) @ [bre_block result] \<and>
    node_open C (cn_store node') chain_id n auto' g = Inr node'' \<and> node_chain node'' = (node_chain node')\<lparr>cs_pool := empty_pool chain_id\<rparr>"
proof -
  have inv: "stored C chain_id n g node" by (rule stored_run [OF assms(5,1) stored_new [OF assms(2-4)]])
  then have ok: "chain_ok C (node_chain node)" by (simp add: stored_def Let_def run_ok_def)
  obtain b rs chain result node' where b: "build_block C (node_chain node) ts sg x limit = Inr (b, rs, chain)"
      "node_produce_block C uuid ts sg x limit node = (Inr result, node')" "bre_block result = b" "node_chain node' = chain"
    by (rule produced [OF assms(1) inv assms(6,9,10,7,11), of sg x]) blast+
  have "node_step C uuid node node'" by (intro node_step.operation node_op.produce [OF b(2) assms(6,9,8)])
  from opened [OF stored_step [OF this assms(1) inv], of auto'] obtain node'' where
    "node_open C (cn_store node') chain_id n auto' g = Inr node''" "node_chain node'' = (node_chain node')\<lparr>cs_pool := empty_pool chain_id\<rparr>"
    by blast
  moreover have "cs_blocks chain = cs_blocks (node_chain node) @ [b]"
    using apply_block_leaves(3) build_applies(1) [OF assms(1) ok assms(6,9,8) b(1)] by blast
  ultimately show ?thesis using b by blast
qed

text \<open>C23. An expired bundle stops the node for good. When a bundle in the pool of such a node has expired, or expires at the
  current height, then producing a block succeeds: the bundle, which the pool never drops, is packed, the chain moves on and the block is written to
  the store. But no node on the same ledger applies the block, and from then on no node can be opened on that store: applying the
  stored blocks raises, whatever the arguments.\<close>

theorem expired_block_stops_restart:
  assumes C: "digests32 C" and g: "0 \<le> chain_id" "hash32 g" "node_open C node_store_new chain_id n auto g = Inr node0"
    and run: "(node_step C uuid)\<^sup>*\<^sup>* node0 node" and ts: "0 \<le> ts"
    and late: "dict_get (bp_pending (cs_pool (node_chain node))) a = Some sub" "env_expiry_height (sub_envelope sub) \<le> cs_height (node_chain node)"
    and keys: "inj_on (compute_addr_key C) (accounts (node_chain node))"
    and bundles: "inj_on (\<lambda>sub. env_bundle_hash (sub_envelope sub)) (set (pool_snapshot C (cs_pool (node_chain node)) None))"
    and fresh: "\<And>b rs chain. build_block C (node_chain node) ts sg x None = Inr (b, rs, chain) \<Longrightarrow>
      blk_hash b \<notin> blk_hash ` set (cs_blocks (node_chain node))"
  shows "\<exists>result node'. node_produce_block C uuid ts sg x None node = (Inr result, node') \<and>
    cs_height (node_chain node') = cs_height (node_chain node) + 1 \<and>
    (\<forall>st r. chain_ok C st \<and> same_ledger (node_chain node) st \<longrightarrow> apply_block C st (bre_block result) \<noteq> Inr r) \<and>
    (\<forall>chain_id' n' auto' g' node''. node_open C (cn_store node') chain_id' n' auto' g' \<noteq> Inr node'')"
proof -
  let ?st = "node_chain node" and ?e = "(node_chain node)\<lparr>cs_pool := empty_pool chain_id\<rparr>"
  have inv: "stored C chain_id n g node" by (rule stored_run [OF run C stored_new [OF g]])
  note old = inv [unfolded stored_def Let_def]
  have ok: "chain_ok C ?st" using old by (simp add: run_ok_def)
  then have e: "chain_ok C ?e"
    using old pool_new_ok [of C chain_id 32768 128 64]
    by (simp add: chain_ok_def empty_pool_def numbers_ok_def pending_next_def) (simp add: bundle_pool_new_def)
  have same: "same_ledger ?st ?e" by (simp add: same_ledger_def)
  obtain b rs st1 where b: "build_block C ?st ts sg x None = Inr (b, rs, st1)" "cs_height st1 = cs_height ?st + 1" "\<And>r. apply_block C ?e b \<noteq> Inr r"
    by (rule expired_built [of C ?st ?e ts a sub sg x, OF C ok e same ts keys late]) blast
  have some: "pool_snapshot C (cs_pool ?st) None \<noteq> []" using late(1) by (auto simp: pool_snapshot_def)
  obtain b' rs' chain result node' batch where q: "build_block C ?st ts sg x None = Inr (b', rs', chain)"
      "node_produce_block C uuid ts sg x None node = (Inr result, node')" "bre_block result = b'" "node_chain node' = chain"
      "save_applied_block C b' rs' 2 chain_id (max 1 n) g batch (cn_store node) = Inr (cn_store node')"
      "bh_height (blk_header b') = cs_height ?st + 1"
    by (rule produced [OF C inv ts keys bundles some fresh]) blast+
  then have p: "node_produce_block C uuid ts sg x None node = (Inr result, node')" "node_chain node' = st1" "bre_block result = b"
      "save_applied_block C b rs 2 chain_id (max 1 n) g batch (cn_store node) = Inr (cn_store node')"
      "bh_height (blk_header b) = cs_height ?st + 1"
    using b(1) by simp_all
  note saved = saved_block [OF p(4)]
  have "sorted (map fst (ns_blocks (cn_store node')))"
    using old p(5) by (fastforce simp: saved(1) sorted_append block_row_def)
  then have blocks: "list_blocks (cn_store node') = cs_blocks ?st @ [b]"
    using old by (simp add: list_blocks_def sort_key_sorted saved(1)) (simp add: block_row_def comp_def)
  have "replay_blocks C (chain_new C 2 chain_id n 32768 128 64 g) (cs_blocks ?st) = Inr ?e" using old by simp
  moreover obtain err where "apply_block C ?e b = Inl err" using b(3) by (cases "apply_block C ?e b") auto
  ultimately have "replay_blocks C (chain_new C 2 chain_id n 32768 128 64 g) (cs_blocks ?st @ [b]) \<noteq> Inr st" for st
    by (simp add: replay_snoc)
  then have "load_chain_state C 2 chain_id' n' g' (cn_store node') \<noteq> Inr st" for chain_id' n' g' st
    by (auto simp: load_chain_state_def load_metadata_def saved(3) blocks chain_new_max res_bind_Inr)
  then have "node_open C (cn_store node') chain_id' n' auto' g' \<noteq> Inr node''" for chain_id' n' auto' g' node''
    by (auto simp: node_open_def res_bind_Inr)
  moreover have "apply_block C st b \<noteq> Inr r" if "chain_ok C st" "same_ledger ?st st" for st r
    by (rule expired_built [of C ?st st ts a sub sg x, OF C ok that ts keys late]) (use b(1) in simp)
  ultimately show ?thesis using p(1-3) b(2) by blast
qed

subsection \<open>A node with one bundle\<close>

definition dated :: "int \<Rightarrow> bundle_submission" where
  "dated h = (sample_submission 3)\<lparr>sub_envelope := (sub_envelope (sample_submission 3))\<lparr>env_expiry_height := h\<rparr>\<rparr>"

lemma dated_simps [simp]:
  "sub_sidecar (dated h) = sub_sidecar (sample_submission 3)" "sub_pubkey (dated h) = sample_pem"
  "env_expiry_height (sub_envelope (dated h)) = h" "env_seq (sub_envelope (dated h)) = 1" "env_chain_id (sub_envelope (dated h)) = 1"
  "env_claim_set_hash (sub_envelope (dated h)) = None" "env_bundle_hash (sub_envelope (dated h)) = replicate 32 0"
  "env_version (sub_envelope (dated h)) = 2" "sc_sender (sub_sidecar (dated h)) = zero_addr"
  by (simp_all add: dated_def sample_submission_def)

definition first_node :: consensus_node where
  "first_node = \<lparr>cn_store = node_store_new, cn_runtime = runtime_new (chain_new flat_crypto 2 1 32 32768 128 64 ZERO_HASH32) True,
     cn_genesis = ZERO_HASH32\<rparr>"

definition waiting_node :: "int \<Rightarrow> consensus_node" where
  "waiting_node h = first_node\<lparr>cn_runtime := (cn_runtime first_node)\<lparr>rt_chain :=
     (chain_new flat_crypto 2 1 32 32768 128 64 ZERO_HASH32)\<lparr>cs_pool := sample_pool\<lparr>bp_pending := [(zero_addr, dated h)]\<rparr>\<rparr>\<rparr>\<rparr>"

lemma first_node_open: "node_open flat_crypto node_store_new 1 32 True ZERO_HASH32 = Inr first_node"
  by (simp add: node_open_def load_chain_state_def load_metadata_def list_genesis_allocations_def node_store_new_def first_node_def)

lemma dated_submit:
  assumes "0 \<le> h"
  shows "pool_submit flat_crypto sample_pool (dated h) 0 0 = Inr (sample_pool\<lparr>bp_pending := [(zero_addr, dated h)]\<rparr>, zero_addr)"
proof -
  have "verify_bundle_envelope flat_crypto (sub_envelope (dated h)) sample_pem = Inr True"
    using sample_submission_verifies [of 3 sample_pem]
    by (simp add: verify_bundle_envelope_def dated_def sample_submission_def verify_digest_secp256k1_def compute_bundle_sighash_def flat_crypto_def)
  moreover have "int (length (canonical_bytes (bundle_sidecar_obj (sub_sidecar (sample_submission 3))))) \<le> 32768"
    by (simp add: canonical_bytes_def bundle_sidecar_obj_def sample_submission_def zero_addr_def encode_str_def
        encode_int_def magnitude_bytes_def utf8_char_def)
  ultimately show ?thesis
    using assms
    by (simp add: pool_submit_def sample_address pool_check_limits_def pool_enter_def sample_pool_def bundle_pool_new_def
        compute_bundle_hash_def Let_def) (simp add: sample_submission_def)
qed

lemma waiting_node_step: "0 \<le> h \<Longrightarrow> node_step flat_crypto uuid first_node (waiting_node h)"
  using node_step.operation [OF node_op.submit [of flat_crypto uuid first_node "dated h"]] dated_submit [of h]
  by (simp add: node_submit_bundle_def rt_submit_bundle_def submit_bundle_def first_node_def waiting_node_def runtime_new_def chain_new_def
      sample_address confirmed_seq_def head_ref_of_def sample_pool_def)

lemma waiting_node_facts:
  "pool_snapshot flat_crypto (cs_pool (node_chain (waiting_node h))) limit = (case limit of None \<Rightarrow> [dated h] | Some k \<Rightarrow> py_take k [dated h])"
  "cs_blocks (node_chain (waiting_node h)) = []" "cs_height (node_chain (waiting_node h)) = 0"
  "accounts (node_chain (waiting_node h)) = {zero_addr}"
  "dict_get (bp_pending (cs_pool (node_chain (waiting_node h)))) zero_addr = Some (dated h)"
  by (auto simp: waiting_node_def node_chain_def chain_new_def pool_snapshot_def accounts_def split: option.split if_splits)

theorem produced_block_is_durable_witness:
  "\<exists>result node' node''. node_produce_block flat_crypto (\<lambda>_ _. []) 7 [] [] None (waiting_node 9) = (Inr result, node') \<and>
    cs_blocks (node_chain node') = [bre_block result] \<and> node_open flat_crypto (cn_store node') 1 32 False ZERO_HASH32 = Inr node''"
proof -
  have "(node_step flat_crypto (\<lambda>_ _. []))\<^sup>*\<^sup>* first_node (waiting_node 9)" using waiting_node_step [of 9] by auto
  from produced_block_is_durable [OF _ _ _ first_node_open this, of 7 None "[]" "[]" False] show ?thesis
    by (auto simp: waiting_node_facts hash32_def ZERO_HASH32_def)
qed

theorem restart_recovers_witness:
  "\<exists>node node'. cs_height (node_chain node) = 1 \<and> node_open flat_crypto (cn_store node) 1 32 False ZERO_HASH32 = Inr node' \<and>
    node_chain node' = (node_chain node)\<lparr>cs_pool := empty_pool 1\<rparr>"
proof -
  have inv: "stored flat_crypto 1 32 ZERO_HASH32 (waiting_node 9)"
    by (rule stored_step [OF waiting_node_step _ stored_new [OF _ _ first_node_open]]) (simp_all add: hash32_def ZERO_HASH32_def)
  obtain b rs chain result node where b: "node_produce_block flat_crypto (\<lambda>_ _. []) 7 [] [] None (waiting_node 9) = (Inr result, node)"
      "build_block flat_crypto (node_chain (waiting_node 9)) 7 [] [] None = Inr (b, rs, chain)" "node_chain node = chain"
    by (rule produced [OF _ inv, of 7 None "[]" "[]" "\<lambda>_ _. []"]) (simp_all add: waiting_node_facts)
  have step: "node_step flat_crypto (\<lambda>_ _. []) (waiting_node 9) node"
    by (rule node_step.operation, rule node_op.produce [OF b(1)]) (simp_all add: waiting_node_facts)
  then have run: "(node_step flat_crypto (\<lambda>_ _. []))\<^sup>*\<^sup>* first_node node" using waiting_node_step [of 9] by (meson r_into_rtranclp rtranclp.rtrancl_into_rtrancl zero_le_numeral)
  have ok: "chain_ok flat_crypto (node_chain (waiting_node 9))" using inv by (simp add: stored_def Let_def run_ok_def)
  have "apply_block flat_crypto (node_chain (waiting_node 9)) b = Inr (rs, node_chain node)"
    using build_applies(1) [OF _ ok _ _ _ b(2)] b(3) by (simp add: waiting_node_facts)
  then have "cs_height (node_chain node) = 1" using apply_block_leaves(4,5) by (fastforce simp: waiting_node_facts)
  then show ?thesis
    using restart_recovers [OF _ _ _ first_node_open run, of False] by (auto simp: hash32_def ZERO_HASH32_def)
qed

theorem expired_block_stops_restart_witness:
  "\<exists>result node'. node_produce_block flat_crypto (\<lambda>_ _. []) 7 [] [] None (waiting_node 0) = (Inr result, node') \<and>
    (\<forall>node''. node_open flat_crypto (cn_store node') 1 32 True ZERO_HASH32 \<noteq> Inr node'')"
proof -
  have "(node_step flat_crypto (\<lambda>_ _. []))\<^sup>*\<^sup>* first_node (waiting_node 0)" using waiting_node_step [of 0] by auto
  from expired_block_stops_restart [OF _ _ _ first_node_open this _ waiting_node_facts(5), of 7 "[]" "[]"] show ?thesis
    by (auto simp: waiting_node_facts hash32_def ZERO_HASH32_def)
qed

end
