(* ===== verification/Node_Wallets.thy ===== *)
theory Node_Wallets
  imports Node_Restart
begin

section \<open>The wallets of a node\<close>

text \<open>
  What the runtime does to a wallet it holds is a run of that wallet: each header it shares, each receipt it delivers or syncs and each
  package it hands over is a call of the wallet's own methods, with receipts that pass their constructor. The locale
  \<open>wallet_keeper\<close> is what the runtime needs of these calls. So what holds of every reachable wallet holds of the wallets of every
  reachable node.
\<close>

subsection \<open>What the runtime needs of a wallet's calls\<close>

locale wallet_keeper =
  fixes C :: crypto and uuid :: "string \<Rightarrow> nat \<Rightarrow> string" and sound :: "string \<Rightarrow> wallet \<Rightarrow> bool"
  assumes observe: "sound a w \<Longrightarrow> sound a (observe_canonical_block b w)"
    and confirm: "sound a w \<Longrightarrow> receipt_init r = Inr r \<Longrightarrow> sound a (snd (on_receipt_confirmed C (uuid (wa_address w)) r w))"
    and missing: "sound a w \<Longrightarrow> sound a (snd (mark_receipt_missing C seq w))"
    and receive: "sound a w \<Longrightarrow> full_witness (tp_witness package) \<Longrightarrow> vr_ok (tp_target_value package) \<Longrightarrow>
      \<forall>v\<in>set (live_values (wa_records w)). \<not> vr_intersects v (tp_target_value package) \<Longrightarrow>
      sound a (snd (receive_transfer C (uuid (wa_address w)) ctx package now w))"
begin

lemma kept:
  assumes "\<forall>(a, w)\<in>set (rt_wallets rt). sound a w"
  shows "sound a w \<Longrightarrow> \<forall>(a, w)\<in>set (rt_wallets (set_wallet a w rt)). sound a w"
    and "dict_get (rt_wallets rt) a = Some w \<Longrightarrow> sound a w"
    and "\<forall>(a, w)\<in>set (rt_wallets (unregister_wallet a rt)). sound a w"
    and "\<forall>(a, w)\<in>set (rt_wallets (share_block_with_wallets b rt)). sound a w"
proof -
  show "sound a w \<Longrightarrow> \<forall>(a, w)\<in>set (rt_wallets (set_wallet a w rt)). sound a w"
    using assms dict_set_subset [of a w "rt_wallets rt"] unfolding set_wallet_def by fastforce
  show "dict_get (rt_wallets rt) a = Some w \<Longrightarrow> sound a w" using assms by (blast dest: map_of_SomeD)
  show "\<forall>(a, w)\<in>set (rt_wallets (unregister_wallet a rt)). sound a w"
    using assms dict_pop_subset [of a "rt_wallets rt"] by (auto simp: unregister_wallet_def)
  show "\<forall>(a, w)\<in>set (rt_wallets (share_block_with_wallets b rt)). sound a w"
    using assms by (auto simp: share_block_with_wallets_def intro: observe)
qed

lemma confirmed_kept:
  assumes "\<forall>(a, w)\<in>set (rt_wallets rt). sound a w" "sound a w" "receipt_init r = Inr r"
  shows "\<forall>(a, w)\<in>set (rt_wallets (snd (apply_receipt_to_wallet C uuid a r w rt))). sound a w"
proof -
  obtain x w' where x: "on_receipt_confirmed C (uuid (wa_address w)) r w = (x, w')" by fastforce
  have "\<forall>(a, w)\<in>set (rt_wallets (set_wallet a w' rt)). sound a w"
    using kept(1) [OF assms(1)] confirm [OF assms(2,3)] x by simp
  then show ?thesis using x by (cases x) (simp_all add: apply_receipt_to_wallet_def)
qed

lemma delivered_kept:
  "\<forall>(a, w)\<in>set (rt_wallets rt). sound a w \<Longrightarrow> \<forall>(a, r)\<in>set rs. receipt_init r = Inr r \<Longrightarrow>
     \<forall>(a, w)\<in>set (rt_wallets (snd (deliver_receipts C uuid rs rt))). sound a w"
proof (induction rs arbitrary: rt)
  case (Cons x rs)
  obtain a r where x: "x = (a, r)" by (cases x)
  have "\<forall>(a, w)\<in>set (rt_wallets (snd (deliver_receipt C uuid a r rt))). sound a w"
  proof (cases "dict_get (rt_wallets rt) a")
    case None
    then show ?thesis using Cons.prems(1) by (simp add: deliver_receipt_def)
  next
    case (Some w)
    have "sound a w" by (rule kept(2) [OF Cons.prems(1) Some])
    then show ?thesis
      using Cons.prems confirmed_kept [OF Cons.prems(1), of a w r] Some by (simp add: deliver_receipt_def x)
  qed
  then show ?case using Cons.IH Cons.prems(2) by (simp add: x split_def Let_def)
qed simp

lemma settled_kept:
  "\<forall>(a, w)\<in>set (rt_wallets rt). sound a w \<Longrightarrow> \<forall>(a, r)\<in>set rs. receipt_init r = Inr r \<Longrightarrow>
     \<forall>(a, w)\<in>set (rt_wallets (snd (settle_block C uuid b rs rt))). sound a w"
  using delivered_kept [OF kept(4), of rt rs b] by (simp add: settle_block_def split_def Let_def)

lemma synced_kept:
  "\<forall>(a, w)\<in>set (rt_wallets rt). sound a w \<Longrightarrow> \<forall>r\<in>snd ` set (rca_by_addr_seq (cs_cache (rt_chain rt))). receipt_init r = Inr r \<Longrightarrow>
     \<forall>(a, w)\<in>set (rt_wallets (snd (sync_contexts C uuid a ctxs rt))). sound a w"
proof (induction ctxs arbitrary: rt)
  case (Cons ctx ctxs)
  note ok = Cons.prems(1) and cache = Cons.prems(2)
  show ?case
  proof (cases "dict_get (rt_wallets rt) a")
    case (Some w)
    note w = kept(2) [OF ok Some]
    show ?thesis
    proof (cases "rr_receipt (rt_get_receipt a (pbc_seq ctx) rt)")
      case None
      obtain x w' where x: "mark_receipt_missing C (pbc_seq ctx) w = (x, w')" by fastforce
      have "\<forall>(a, w)\<in>set (rt_wallets (set_wallet a w' rt)). sound a w" using kept(1) [OF ok] missing [OF w, of "pbc_seq ctx"] x by simp
      then show ?thesis using None Some x Cons.IH [of "set_wallet a w' rt"] cache
        by (cases x) (auto simp: st_bind_def split: prod.split sum.split dest: snd_conv [THEN subst])
    next
      case r: (Some r)
      then have "receipt_init r = Inr r"
        using cache map_of_SomeD by (force simp: rt_get_receipt_def get_receipt_def receipt_response_of_def)
      then have k: "\<forall>(a, w)\<in>set (rt_wallets (snd (apply_receipt_to_wallet C uuid a r w rt))). sound a w" by (rule confirmed_kept [OF ok w])
      obtain d rt' where d: "apply_receipt_to_wallet C uuid a r w rt = (d, rt')" by fastforce
      then have "rt_chain rt' = rt_chain rt" using apply_receipt_keeps(1) [of C uuid a r w rt] by simp
      then show ?thesis using Some r k d Cons.IH [of rt'] cache
        by (auto simp: st_bind_def split: prod.split sum.split dest: snd_conv [THEN subst])
    qed
  qed (use ok in simp)
qed simp

lemma handed_kept:
  assumes "\<forall>(a, w)\<in>set (rt_wallets rt). sound a w" "full_witness (tp_witness package)" "vr_ok (tp_target_value package)"
    and "\<And>w v. dict_get (rt_wallets rt) (td_recipient (fst (deliver_transfer_package C uuid package recipient trusted now rt))) = Some w \<Longrightarrow>
      v \<in> set (live_values (wa_records w)) \<Longrightarrow> \<not> vr_intersects v (tp_target_value package)"
  shows "\<forall>(a, w)\<in>set (rt_wallets (snd (deliver_transfer_package C uuid package recipient trusted now rt))). sound a w"
proof -
  define a where "a = (case recipient of None \<Rightarrow> tx_recipient (tp_target_tx package)
    | Some addr \<Rightarrow> if addr = [] then tx_recipient (tp_target_tx package) else addr)"
  have a: "td_recipient (fst (deliver_transfer_package C uuid package recipient trusted now rt)) = a"
    by (simp add: deliver_transfer_package_def Let_def a_def [symmetric] split: option.split prod.split sum.split)
  show ?thesis
  proof (cases "dict_get (rt_wallets rt) a")
    case None
    then show ?thesis using assms(1) by (simp add: deliver_transfer_package_def Let_def a_def [symmetric])
  next
    case (Some w)
    let ?ctx = "build_validation_context rt (if trusted = [] then trusted_checkpoints_for_witness C w (tp_witness package) else trusted)"
    obtain x w' where x: "receive_transfer C (uuid (wa_address w)) ?ctx package now w = (x, w')" by fastforce
    have "sound a (snd (receive_transfer C (uuid (wa_address w)) ?ctx package now w))"
      by (rule receive [OF kept(2) [OF assms(1) Some] assms(2,3)]) (use assms(4) a Some in blast)
    then have "\<forall>(a, w)\<in>set (rt_wallets (set_wallet a w' rt)). sound a w" using kept(1) [OF assms(1)] x by simp
    then show ?thesis using Some x by (cases x) (simp_all add: deliver_transfer_package_def Let_def a_def [symmetric])
  qed
qed

lemma registered_kept:
  assumes "\<forall>(a, w)\<in>set (rt_wallets rt). sound a w" "sound (wa_address w) w"
  shows "\<forall>(a, w)\<in>set (rt_wallets (snd (register_wallet w auto rt))). sound a w"
proof -
  have shared: "sound (wa_address w) (share_canonical_chain_headers chain w)" for chain
  proof -
    have "sound (wa_address w) x \<Longrightarrow> sound (wa_address w) (fold observe_canonical_block bs x)" for bs x
      by (induction bs arbitrary: x) (simp_all add: observe)
    then show ?thesis using assms(2) by (simp add: share_canonical_chain_headers_def)
  qed
  have same: "rt_wallets (snd (ingest_wallet_genesis_allocations rs rt)) = rt_wallets rt" for rs rt
    by (induction rs rt rule: ingest_wallet_genesis_allocations.induct)
      (auto simp: register_genesis_allocation_def Let_def split: anchor.split sum.split)
  let ?rt = "rt\<lparr>rt_wallets := dict_set (wa_address w) w (rt_wallets rt),
    rt_auto_confirm := dict_set (wa_address w) (case auto of None \<Rightarrow> rt_auto rt | Some b \<Rightarrow> b) (rt_auto_confirm rt)\<rparr>"
  have "\<forall>(a, w)\<in>set (rt_wallets ?rt). sound a w"
    using kept(1) [OF assms] by (simp add: set_wallet_def)
  then have "\<forall>(a, w)\<in>set (rt_wallets (snd (ingest_wallet_genesis_allocations (list_records w None) ?rt))). sound a w" by (simp add: same)
  then show ?thesis
    unfolding register_wallet_def Let_def
    by (rule st_bind_keeps [where P = "\<lambda>rt. \<forall>(a, w)\<in>set (rt_wallets rt). sound a w"]) (simp_all add: kept(1) [OF _ shared] del: set_wallet_simps)
qed

end

interpretation wallets: wallet_keeper C uuid "\<lambda>a w. \<exists>h. wallet_run C (uuid a) a h w" for C uuid
proof
  fix a w r
  assume "\<exists>h. wallet_run C (uuid a) a h w" "receipt_init r = Inr r"
  then obtain h where w: "wallet_run C (uuid a) a h w" "receipt_init r = Inr r" by blast
  have "wallet_run C (uuid a) a h (snd (on_receipt_confirmed C (uuid a) r w))"
    by (rule wallet_run.stepped [OF w(1) wallet_step.receipt [OF w(2)]])
  then show "\<exists>h. wallet_run C (uuid a) a h (snd (on_receipt_confirmed C (uuid (wa_address w)) r w))"
    using wallet_run_address [OF w(1)] by auto
next
  fix a w ctx now and package :: transfer_package
  assume "\<exists>h. wallet_run C (uuid a) a h w" "full_witness (tp_witness package)" "vr_ok (tp_target_value package)"
    "\<forall>v\<in>set (live_values (wa_records w)). \<not> vr_intersects v (tp_target_value package)"
  then obtain h where w: "wallet_run C (uuid a) a h w" and p: "full_witness (tp_witness package)" "vr_ok (tp_target_value package)"
    "\<forall>v\<in>set (live_values (wa_records w)). \<not> vr_intersects v (tp_target_value package)" by blast
  have "wallet_run C (uuid a) a h (snd (receive_transfer C (uuid a) ctx package now w))"
    by (rule wallet_run.stepped [OF w wallet_step.receive [OF p]])
  then show "\<exists>h. wallet_run C (uuid a) a h (snd (receive_transfer C (uuid (wa_address w)) ctx package now w))"
    using wallet_run_address [OF w] by auto
qed (blast intro: wallet_run.stepped wallet_step.observed_block wallet_step.missing)+

subsection \<open>The receipts of valid blocks pass their constructor\<close>

definition cache_init :: "receipt_cache \<Rightarrow> bool" where
  "cache_init c \<longleftrightarrow> (\<forall>r\<in>snd ` set (rca_by_addr_seq c). receipt_init r = Inr r)"

lemma prune_receipts: "set (rca_by_addr_seq (receipt_cache_prune c)) \<subseteq> set (rca_by_addr_seq c)"
proof -
  have pops: "set (fold (\<lambda>e. dict_pop (addr_seq_key e)) es d) \<subseteq> set d" for es d
    using set_pops [of "map addr_seq_key es" d] by (simp add: fold_map comp_def)
  have "set (rca_by_addr_seq (prune_heights hs c)) \<subseteq> set (rca_by_addr_seq c)" for hs
  proof (induction hs arbitrary: c)
    case (Cons h hs)
    have "set (rca_by_addr_seq (prune_height h c)) \<subseteq> set (rca_by_addr_seq c)" by (simp add: prune_height_def Let_def pops)
    then show ?case using Cons [of "prune_height h c"] by (simp, blast)
  qed simp
  then show ?thesis by (auto simp: receipt_cache_prune_def)
qed

lemma cache_init_add:
  assumes "cache_init c" "receipt_init r = Inr r"
  shows "cache_init (receipt_cache_add c a r ref)"
proof -
  have "set (rca_by_addr_seq (receipt_cache_add c a r ref)) \<subseteq> insert ((a, rc_seq r), r) (set (rca_by_addr_seq c))"
    using prune_receipts dict_set_subset [of "(a, rc_seq r)" r "rca_by_addr_seq c"]
    by (fastforce simp: receipt_cache_add_def Let_def)
  then show ?thesis using assms unfolding cache_init_def by fastforce
qed

lemma cache_init_batch: "cache_init c \<Longrightarrow> cache_init (receipt_cache_add_proof_batch c h batch)"
  using prune_receipts unfolding cache_init_def receipt_cache_add_proof_batch_def Let_def by fastforce

lemma valid_block_receipts:
  assumes "digests32 C" "run_ok C g st" "block_valid C st b" "keys32 (dp_entries (blk_diff b))"
    and "apply_block C st b = Inr (rs, chain)" "cache_init (cs_cache st)"
  shows "\<forall>(a, r)\<in>set rs. receipt_init r = Inr r" "cache_init (cs_cache chain)"
proof -
  let ?es = "dp_entries (blk_diff b)" and ?t = "applied_tree C st b"
  let ?prev = "\<lambda>a. head_ref_of (dict_get (cs_leaves st) a)"
  have t: "tree_ok C (cs_tree st)" using assms(2) by (simp add: run_ok_def chain_ok_def)
  have eq: "rs = block_receipts C st b" "cs_cache chain = block_cache C st ?t b"
    using apply_block_accepts [OF assms(1) t assms(4,3)] assms(5) by (simp_all add: applied_state_def)
  have d: "distinct (map (\<lambda>e. leaf_addr (de_new_leaf e)) ?es)" using assms(3) by (simp add: block_valid_def Let_def)
  have e: "0 < env_seq (de_envelope e) \<and> hash32_opt (leaf_claim_set_hash (de_new_leaf e))" if e: "e \<in> set ?es" for e
  proof -
    obtain s pk where ev: "entry_valid C st b e s pk" using assms(3) e by (rule block_entry_valid)
    have "0 \<le> confirmed_seq st (leaf_addr (de_new_leaf e))" using assms(2) by (simp add: run_ok_def)
    then have "0 < env_seq (de_envelope e)" using entry_valid_seq [OF ev] by simp
    then show ?thesis using ev assms(1)
      by (auto simp: entry_valid_def Let_def hash32_opt_def hash32_def computed_claim_set_hash_def claim_range_set_hash_def keccak_length)
  qed
  then show "\<forall>(a, r)\<in>set rs. receipt_init r = Inr r"
    using receipts_full(2) [OF d, of C ?t "block_header_lite b" ?prev] unfolding eq(1) block_receipts_def by (auto simp: full_receipt_def)
  have r: "receipt_init (receipt_for C ?t (block_header_lite b) ?prev e) = Inr (receipt_for C ?t (block_header_lite b) ?prev e)" if "e \<in> set ?es" for e
    using e [OF that] by (simp add: receipt_for_def make_receipt_def receipt_init_def)
  have fold: "cache_init c \<Longrightarrow> set es \<subseteq> set ?es \<Longrightarrow> cache_init (receipts_cache C ?t (block_header_lite b) ?prev es c)" for es c
    unfolding receipts_cache_def using r by (induction es arbitrary: c) (simp_all add: cache_init_add)
  have "tree_ok C ?t" unfolding applied_tree_def by (rule tree_after [OF assms(1) t assms(4)])
  then have "\<exists>c. add_batch C ?t (bh_height (blk_header b)) (blk_hash b) (bh_state_root (blk_header b)) ?es (cs_cache st) = Inr c \<and> cache_init c"
    using build_multiproof_ok [of C ?t "map de_addr_key ?es"] assms(4,6)
    by (auto simp: add_batch_def list_all_iff cache_init_batch)
  then show "cache_init (cs_cache chain)" unfolding eq(2) block_cache_def by (auto intro: fold)
qed

subsection \<open>A node and the wallets registered with it\<close>

inductive account_step :: "crypto \<Rightarrow> (string \<Rightarrow> nat \<Rightarrow> string) \<Rightarrow> consensus_node \<Rightarrow> consensus_node \<Rightarrow> bool" for C uuid node where
  operation: "node_op C uuid node node' \<Longrightarrow> account_step C uuid node node'"
| register: "account_step C uuid node (snd (node_register_wallet w auto node))" if "wallet_run C (uuid (wa_address w)) (wa_address w) h w"
| deliver: "account_step C uuid node (snd (node_deliver_transfer_package C uuid package recipient trusted now node))"
    if "full_witness (tp_witness package)" "vr_ok (tp_target_value package)"
      "\<forall>w v. dict_get (rt_wallets (cn_runtime node))
          (td_recipient (fst (node_deliver_transfer_package C uuid package recipient trusted now node))) = Some w \<and>
        v \<in> set (live_values (wa_records w)) \<longrightarrow> \<not> vr_intersects v (tp_target_value package)"
| wallet: "account_step C uuid node (node\<lparr>cn_runtime := set_wallet a w' (cn_runtime node)\<rparr>)"
    if "dict_get (rt_wallets (cn_runtime node)) a = Some w" "wallet_step C (uuid a) w w'"

lemma account_step_is_step: "account_step C uuid node node' \<Longrightarrow> node_step C uuid node node'"
  by (induction rule: account_step.induct) (blast intro: node_step.intros)+

definition accounts_sound :: "crypto \<Rightarrow> (string \<Rightarrow> nat \<Rightarrow> string) \<Rightarrow> consensus_node \<Rightarrow> bool" where
  "accounts_sound C uuid node \<longleftrightarrow> cache_init (cs_cache (node_chain node)) \<and>
     (\<forall>(a, w)\<in>set (rt_wallets (cn_runtime node)). \<exists>h. wallet_run C (uuid a) a h w)"

lemma settled_runtime:
  "node_settle C uuid b rs chain node = (Inr result, node') \<Longrightarrow>
     cn_runtime node' = snd (settle_block C uuid b rs ((cn_runtime node)\<lparr>rt_chain := chain\<rparr>))"
  by (auto simp: node_settle_def Let_def split: sum.splits prod.splits)

lemma accounts_sound_op:
  assumes "node_op C uuid node node'" "digests32 C" "run_ok C g (node_chain node)" "accounts_sound C uuid node"
  shows "accounts_sound C uuid node'"
proof -
  have old: "cache_init (cs_cache (node_chain node))" "\<forall>(a, w)\<in>set (rt_wallets (cn_runtime node)). \<exists>h. wallet_run C (uuid a) a h w"
    using assms(4) by (simp_all add: accounts_sound_def)
  from assms(1-3) show ?thesis
  proof (cases rule: node_op_cases)
    case same
    have "\<forall>(a, w)\<in>set (rt_wallets (cn_runtime node')). \<exists>h. wallet_run C (uuid a) a h w"
      using same(4) old
    proof (elim disjE exE)
      fix a assume "cn_runtime node' = unregister_wallet a (cn_runtime node)"
      then show ?thesis using wallets.kept(3) [OF old(2)] by simp
    next
      fix a assume s: "cn_runtime node' = snd (sync_wallet_receipts C uuid a (cn_runtime node))"
      have "\<forall>r\<in>snd ` set (rca_by_addr_seq (cs_cache (rt_chain (cn_runtime node)))). receipt_init r = Inr r"
        using old(1) by (simp add: cache_init_def node_chain_def)
      from wallets.synced_kept [OF old(2) this] show ?thesis using old(2) by (simp add: s sync_wallet_receipts_def split: option.split)
    qed (auto simp: register_genesis_allocation_def Let_def)
    then show ?thesis using old(1) same(1) by (simp add: accounts_sound_def)
  next
    case (pool pool)
    then show ?thesis using old by (simp add: accounts_sound_def)
  next
    case (block b rs result)
    note rs = valid_block_receipts [OF assms(2,3) block(3,2,1) old(1)]
    have "\<forall>(a, w)\<in>set (rt_wallets (snd (settle_block C uuid b rs ((cn_runtime node)\<lparr>rt_chain := node_chain node'\<rparr>)))).
        \<exists>h. wallet_run C (uuid a) a h w"
      by (rule wallets.settled_kept) (use rs(1) old(2) in simp_all)
    then show ?thesis using rs(2) by (simp add: accounts_sound_def settled_runtime [OF block(5)])
  qed
qed

lemma accounts_sound_step:
  assumes "account_step C uuid node node'" "digests32 C" "run_ok C g (node_chain node)" "accounts_sound C uuid node"
  shows "accounts_sound C uuid node'"
proof -
  have old: "cache_init (cs_cache (node_chain node))" "\<forall>(a, w)\<in>set (rt_wallets (cn_runtime node)). \<exists>h. wallet_run C (uuid a) a h w"
    using assms(4) by (simp_all add: accounts_sound_def)
  from assms(1) show ?thesis
  proof (cases rule: account_step.cases)
    case operation
    then show ?thesis using accounts_sound_op assms(2-4) by blast
  next
    case (register w h auto)
    have "\<exists>h. wallet_run C (uuid (wa_address w)) (wa_address w) h w" using register(2) by blast
    from wallets.registered_kept [OF old(2) this, of auto] show ?thesis
      using old(1) by (simp add: register(1) accounts_sound_def node_chain_def register_wallet_chain)
  next
    case (deliver package recipient trusted now)
    have "fst (node_deliver_transfer_package C uuid package recipient trusted now node) =
        fst (deliver_transfer_package C uuid package recipient trusted now (cn_runtime node))"
      by (simp add: node_deliver_transfer_package_def split: prod.split)
    then have "\<forall>(a, w)\<in>set (rt_wallets (snd (deliver_transfer_package C uuid package recipient trusted now (cn_runtime node)))).
        \<exists>h. wallet_run C (uuid a) a h w"
      using deliver(4) by (intro wallets.handed_kept [OF old(2) deliver(2,3)]) auto
    then show ?thesis using old(1) by (simp add: deliver(1) accounts_sound_def node_chain_def deliver_package_chain)
  next
    case (wallet a w w')
    from wallets.kept(2) [OF old(2) wallet(2)] obtain h where "wallet_run C (uuid a) a h w" by blast
    then have "\<exists>h. wallet_run C (uuid a) a h w'" using wallet(3) wallet_run.stepped by blast
    from wallets.kept(1) [OF old(2) this] show ?thesis
      using old(1) by (simp add: wallet(1) accounts_sound_def node_chain_def del: set_wallet_simps)
        (simp add: set_wallet_def)
  qed
qed

lemma accounts_run:
  assumes "(account_step C uuid)\<^sup>*\<^sup>* node node'" "digests32 C" "stored C chain_id n g node" "accounts_sound C uuid node"
  shows "stored C chain_id n g node' \<and> accounts_sound C uuid node'"
  using assms(1)
proof (induction rule: rtranclp_induct)
  case (step x y)
  then have "run_ok C g (node_chain x)" by (simp add: stored_def Let_def)
  with step show ?case using accounts_sound_step stored_step account_step_is_step assms(2) by blast
qed (use assms in simp)

lemma accounts_sound_new:
  assumes "node_open C node_store_new chain_id n auto g = Inr node"
  shows "accounts_sound C uuid node"
  using assms by (auto simp: node_open_def load_chain_state_def load_metadata_def list_genesis_allocations_def node_store_new_def
      accounts_sound_def cache_init_def node_chain_def runtime_new_def chain_new_def receipt_cache_new_def)

text \<open>
  Every wallet of a node is in a state it can reach by calls of its own. The node was opened on a new store, its wallets are registered in
  a reachable state, and its steps are those of \<open>account_step\<close>: applied blocks carry entries that say what their bundles do,
  built blocks pack no expired bundle, and a package handed over has full receipts and a value that does not overlap the receiving
  wallet's.
\<close>

lemma node_wallets_in_order:
  assumes "digests32 C" "0 \<le> chain_id" "hash32 g" "node_open C node_store_new chain_id n auto g = Inr node0" "\<forall>a. inj (uuid a)"
    and "(account_step C uuid)\<^sup>*\<^sup>* node0 node" "dict_get (rt_wallets (cn_runtime node)) a = Some w"
  shows "\<exists>h. wallet_run C (uuid a) a h w \<and> wa_address w = a \<and> list_value_records C a (wa_db w) = Inr (wa_records w) \<and>
    length (wallet_pending_bundles w) \<le> 1 \<and> disjoint_values (live_values (wa_records w)) \<and>
    total_balance w = int (card (units (live_values (wa_records w))))"
proof -
  have "accounts_sound C uuid node"
    using accounts_run [OF assms(6,1) stored_new [OF assms(2-4)] accounts_sound_new [OF assms(4)]] by blast
  then obtain h where run: "wallet_run C (uuid a) a h w"
    using assms(7) by (force simp: accounts_sound_def dest: map_of_SomeD)
  have "inj (uuid a)" using assms(5) by blast
  from reachable_wallet_accounts [OF run assms(1) this] show ?thesis using run wallet_run_address [OF run] by auto
qed

end
