(* ===== verification/App_Session.thy ===== *)
theory App_Session
  imports Node_Store
begin

section \<open>A wallet application on a local backend (\<open>EZ_V2/app_client.py\<close> and \<open>V2AccountNode\<close> of \<open>EZ_V2/localnet.py\<close>)\<close>

text \<open>
  \<open>V2AccountNode\<close> puts an account's keys, its wallet and a consensus node together; \<open>V2LocalAppSession\<close> adds the mailbox of the
  backend directory and is the whole program on one machine: it opens the wallet's database and the backend's store, registers the
  wallet with the node, pays, queues the packages of a payment and takes in those that wait for it. A wallet object is the entry of the
  node's runtime under its address, where the session's constructor registers it and nothing takes it away; a call on it
  updates the entry. \<open>WalletElsewhere\<close> stands for an account node whose wallet was never registered, which no session has. A
  method raises by returning \<open>Inl\<close>, with the session as it is then; what is read from the clock and the random nonce are arguments.
\<close>

datatype session_error =
    ConsensusNotAttached
  | AccountRaised account_error
  | NodeRaised node_error
  | DeliveryMissing
  | ReceiptNotApplied "delivery_error option"
  | WalletElsewhere

subsection \<open>An account and its node\<close>

record account_node =
  an_name :: string
  an_private_key :: bytes
  an_public_key :: bytes
  an_address :: string
  an_chain_id :: int
  an_attached :: bool

type_synonym 'a account_outcome = "(session_error, 'a, consensus_node) outcome"

definition from_node :: "'a node_outcome \<Rightarrow> 'a account_outcome" where
  "from_node r = (map_sum NodeRaised id (fst r), snd r)"

definition read_wallet :: "account_node \<Rightarrow> (wallet \<Rightarrow> account_error + 'a) \<Rightarrow> consensus_node \<Rightarrow> session_error + 'a" where
  "read_wallet acct f node =
     (case dict_get (rt_wallets (cn_runtime node)) (an_address acct) of
        None \<Rightarrow> Inl WalletElsewhere
      | Some w \<Rightarrow> map_sum AccountRaised id (f w))"

definition on_wallet :: "account_node \<Rightarrow> (wallet \<Rightarrow> 'a wallet_outcome) \<Rightarrow> consensus_node \<Rightarrow> 'a account_outcome" where
  "on_wallet acct f node =
     (case dict_get (rt_wallets (cn_runtime node)) (an_address acct) of
        None \<Rightarrow> (Inl WalletElsewhere, node)
      | Some w \<Rightarrow>
          let (r, w') = f w
          in (map_sum AccountRaised id r, node\<lparr>cn_runtime := set_wallet (an_address acct) w' (cn_runtime node)\<rparr>))"

definition attach_consensus :: "account_node \<Rightarrow> account_node" where
  "attach_consensus acct = acct\<lparr>an_attached := True\<rparr>"

record submitted_payment =
  sp_sender_name :: string
  sp_recipient :: string
  sp_submission :: bundle_submission
  sp_tx :: offchain_tx

definition payment_params :: "account_node \<Rightarrow> int \<Rightarrow> int \<Rightarrow> int \<Rightarrow> int \<Rightarrow> bundle_params" where
  "payment_params acct fee expiry_height nonce now = \<lparr>bp_private_key = an_private_key acct, bp_public_key = an_public_key acct,
     bp_chain_id = an_chain_id acct, bp_expiry_height = expiry_height, bp_fee = fee, bp_nonce = nonce, bp_created_at = now\<rparr>"

definition account_submit_payment ::
    "crypto \<Rightarrow> (string \<Rightarrow> nat \<Rightarrow> string) \<Rightarrow> account_node \<Rightarrow> string \<Rightarrow> int \<Rightarrow> int \<Rightarrow> int \<Rightarrow> int \<Rightarrow> int \<Rightarrow> consensus_node \<Rightarrow>
       submitted_payment account_outcome" where
  "account_submit_payment C uuid acct recipient_addr amount fee expiry_height nonce now node =
     (if \<not> an_attached acct then (Inl ConsensusNotAttached, node)
      else
        st_bind (on_wallet acct (build_payment_bundle C (uuid (an_address acct)) recipient_addr amount
            (payment_params acct fee expiry_height nonce now) now None []) node) (\<lambda>(submission, _, tx) node.
        st_bind (from_node (node_submit_bundle C submission node)) (\<lambda>_ node.
        (Inr \<lparr>sp_sender_name = an_name acct, sp_recipient = recipient_addr, sp_submission = submission, sp_tx = tx\<rparr>, node))))"

definition account_sync_receipts ::
    "crypto \<Rightarrow> (string \<Rightarrow> nat \<Rightarrow> string) \<Rightarrow> account_node \<Rightarrow> consensus_node \<Rightarrow> receipt_delivery list account_outcome" where
  "account_sync_receipts C uuid acct node =
     (if \<not> an_attached acct then (Inl ConsensusNotAttached, node)
      else from_node (node_sync_wallet_receipts C uuid (an_address acct) node))"

definition account_export_package ::
    "crypto \<Rightarrow> account_node \<Rightarrow> offchain_tx \<Rightarrow> value_range \<Rightarrow> consensus_node \<Rightarrow> session_error + transfer_package" where
  "account_export_package C acct tx v node = read_wallet acct (export_transfer_package C tx v) node"

definition account_deliver_outgoing ::
    "crypto \<Rightarrow> (string \<Rightarrow> nat \<Rightarrow> string) \<Rightarrow> account_node \<Rightarrow> offchain_tx \<Rightarrow> value_range \<Rightarrow> string option \<Rightarrow> checkpoint list \<Rightarrow> int \<Rightarrow>
       consensus_node \<Rightarrow> transfer_delivery account_outcome" where
  "account_deliver_outgoing C uuid acct tx v recipient_addr trusted_checkpoints now node =
     (if \<not> an_attached acct then (Inl ConsensusNotAttached, node)
      else
        case account_export_package C acct tx v node of
          Inl e \<Rightarrow> (Inl e, node)
        | Inr package \<Rightarrow>
            let (delivery, node) = node_deliver_transfer_package C uuid package recipient_addr trusted_checkpoints now node
            in (Inr delivery, node))"

definition account_receive_package ::
    "crypto \<Rightarrow> (string \<Rightarrow> nat \<Rightarrow> string) \<Rightarrow> account_node \<Rightarrow> transfer_package \<Rightarrow> checkpoint list \<Rightarrow> int \<Rightarrow> consensus_node \<Rightarrow>
       transfer_delivery account_outcome" where
  "account_receive_package C uuid acct package trusted_checkpoints now node =
     (if \<not> an_attached acct then (Inl ConsensusNotAttached, node)
      else
        let (delivery, node) = node_deliver_transfer_package C uuid package (Some (an_address acct)) trusted_checkpoints now node
        in (Inr delivery, node))"

subsection \<open>A session\<close>

record app_session =
  as_account :: account_node
  as_node :: consensus_node
  as_mailbox :: mailbox

type_synonym 'a session_outcome = "(session_error, 'a, app_session) outcome"

definition session_open ::
    "crypto \<Rightarrow> account_node \<Rightarrow> bytes \<Rightarrow> bool \<Rightarrow> wallet_db \<Rightarrow> nat \<Rightarrow> node_store \<Rightarrow> mailbox \<Rightarrow> session_error + app_session" where
  \<comment> \<open>The account's name, keys, address and chain id are those of the identity; 32 is the node's default window of receipts.\<close>
  "session_open C acct genesis_block_hash auto_confirm db drawn store mailbox =
     (case wallet_open C (an_address acct) genesis_block_hash db drawn of
        (Inl e, _) \<Rightarrow> Inl (AccountRaised e)
      | (Inr _, w) \<Rightarrow>
          res_bind (map_sum NodeRaised id (node_open C store (an_chain_id acct) 32 auto_confirm genesis_block_hash)) (\<lambda>node.
          case node_register_wallet w (Some auto_confirm) node of
            (Inl e, _) \<Rightarrow> Inl (NodeRaised e)
          | (Inr _, node) \<Rightarrow> Inr \<lparr>as_account = attach_consensus acct, as_node = node, as_mailbox = mailbox\<rparr>))"

definition session_address :: "app_session \<Rightarrow> string" where
  "session_address s = an_address (as_account s)"

definition on_node :: "(account_node \<Rightarrow> consensus_node \<Rightarrow> 'a account_outcome) \<Rightarrow> app_session \<Rightarrow> 'a session_outcome" where
  "on_node f s = (let (r, node) = f (as_account s) (as_node s) in (r, s\<lparr>as_node := node\<rparr>))"

definition session_sync_receipts :: "crypto \<Rightarrow> (string \<Rightarrow> nat \<Rightarrow> string) \<Rightarrow> app_session \<Rightarrow> receipt_delivery list session_outcome" where
  "session_sync_receipts C uuid s =
     (case read_wallet (as_account s) (\<lambda>w. Inr (wallet_pending_bundles w)) (as_node s) of
        Inl e \<Rightarrow> (Inl e, s)
      | Inr [] \<Rightarrow> (Inr [], s)
      | Inr _ \<Rightarrow> on_node (account_sync_receipts C uuid) s)"

record received_event =
  ev_package_hash :: bytes
  ev_sender :: string
  ev_recipient :: string
  ev_tx :: offchain_tx
  ev_value :: value_range

definition package_height :: "transfer_package \<Rightarrow> int" where
  "package_height p = (case w_chain (tp_witness p) of [] \<Rightarrow> - 1 | latest # _ \<Rightarrow> hl_height (rc_header (cu_receipt latest)))"

fun receive_each ::
    "crypto \<Rightarrow> (string \<Rightarrow> nat \<Rightarrow> string) \<Rightarrow> int \<Rightarrow> (bytes \<times> string \<times> int \<times> transfer_package) list \<Rightarrow> app_session \<Rightarrow>
       received_event list session_outcome" where
  \<comment> \<open>The loop of \<open>sync_incoming_transfers\<close>\<close>
  "receive_each C uuid now [] s = (Inr [], s)"
| "receive_each C uuid now ((h, sender_addr, _, package) # rest) s =
     st_bind (on_node (\<lambda>acct. account_receive_package C uuid acct package [] now) s) (\<lambda>result s.
     let claimed = s\<lparr>as_mailbox := mark_claimed h now (as_mailbox s)\<rparr>
     in if td_accepted result \<and> td_record result \<noteq> None then
          st_bind (receive_each C uuid now rest claimed) (\<lambda>events s.
          (Inr (\<lparr>ev_package_hash = h, ev_sender = sender_addr, ev_recipient = session_address s, ev_tx = tp_target_tx package,
             ev_value = tp_target_value package\<rparr> # events), s))
        else receive_each C uuid now rest (if td_error result = Some (WalletRaised PackageAlreadyAccepted) then claimed else s))"

definition sync_incoming_transfers :: "crypto \<Rightarrow> (string \<Rightarrow> nat \<Rightarrow> string) \<Rightarrow> int \<Rightarrow> app_session \<Rightarrow> received_event list session_outcome" where
  "sync_incoming_transfers C uuid now s =
     receive_each C uuid now
       (sort_key (\<lambda>(h, _, created_at, package). (package_height package, created_at, h))
         (list_pending_packages (session_address s) (as_mailbox s))) s"

record wallet_recovery =
  wre_receipts :: "receipt_delivery list"
  wre_events :: "received_event list"
  wre_height :: int
  wre_pending :: int
  wre_incoming :: int
  wre_receipt_count :: int

definition pending_incoming_transfer_count :: "app_session \<Rightarrow> int" where
  "pending_incoming_transfer_count s = pending_count (session_address s) (as_mailbox s)"

definition recover_wallet_state :: "crypto \<Rightarrow> (string \<Rightarrow> nat \<Rightarrow> string) \<Rightarrow> int \<Rightarrow> app_session \<Rightarrow> wallet_recovery session_outcome" where
  "recover_wallet_state C uuid now s =
     st_bind (session_sync_receipts C uuid s) (\<lambda>receipt_results s.
     st_bind (sync_incoming_transfers C uuid now s) (\<lambda>received_events s.
     (res_bind (read_wallet (as_account s) (\<lambda>w. Inr (int (length (wallet_pending_bundles w)))) (as_node s)) (\<lambda>pending.
      res_bind (read_wallet (as_account s) (\<lambda>w. map_sum DbProblem (\<lambda>rs. int (length rs)) (wallet_receipts C w)) (as_node s)) (\<lambda>receipts.
      Inr \<lparr>wre_receipts = receipt_results, wre_events = received_events, wre_height = cs_height (node_chain (as_node s)),
        wre_pending = pending, wre_incoming = pending_incoming_transfer_count s, wre_receipt_count = receipts\<rparr>)), s)))"

definition sync_wallet_state :: "crypto \<Rightarrow> (string \<Rightarrow> nat \<Rightarrow> string) \<Rightarrow> int \<Rightarrow> app_session \<Rightarrow> received_event list session_outcome" where
  "sync_wallet_state C uuid now s = st_bind (recover_wallet_state C uuid now s) (\<lambda>r s. (Inr (wre_events r), s))"

fun queue_packages :: "crypto \<Rightarrow> offchain_tx \<Rightarrow> value_range list \<Rightarrow> app_session \<Rightarrow> unit session_outcome" where
  "queue_packages C tx [] s = (Inr (), s)"
| "queue_packages C tx (v # vs) s =
     (case account_export_package C (as_account s) tx v (as_node s) of
        Inl e \<Rightarrow> (Inl e, s)
      | Inr package \<Rightarrow>
          queue_packages C tx vs
            (s\<lparr>as_mailbox := snd (enqueue_package C (session_address s) (tx_recipient tx) package (tx_time tx) (as_mailbox s))\<rparr>))"

definition queue_outgoing_transfer_packages :: "crypto \<Rightarrow> offchain_tx \<Rightarrow> app_session \<Rightarrow> unit session_outcome" where
  "queue_outgoing_transfer_packages C tx s = queue_packages C tx (tx_values tx) s"

record confirmed_payment =
  cpa_submitted :: submitted_payment
  cpa_receipt :: "receipt option"

definition settled_receipt ::
    "crypto \<Rightarrow> submitted_payment \<Rightarrow> receipt_delivery \<Rightarrow> app_session \<Rightarrow> session_error + receipt option" where
  "settled_receipt C submitted delivery s =
     (case rd_receipt delivery of
        Some r \<Rightarrow> Inr (Some r)
      | None \<Rightarrow> map_sum NodeRaised rr_receipt
          (node_get_receipt C (session_address s) (env_seq (sub_envelope (sp_submission submitted))) (as_node s)))"

definition submit_confirmed_payment ::
    "crypto \<Rightarrow> (string \<Rightarrow> nat \<Rightarrow> string) \<Rightarrow> string \<Rightarrow> int \<Rightarrow> int \<Rightarrow> int \<Rightarrow> int \<Rightarrow> int \<Rightarrow> int \<Rightarrow> app_session \<Rightarrow>
       confirmed_payment session_outcome" where
  \<comment> \<open>\<open>now\<close> is read when the payment is built, \<open>later\<close> when the block is.\<close>
  "submit_confirmed_payment C uuid recipient_addr amount expiry_height fee nonce now later s =
     st_bind (on_node (\<lambda>acct. account_submit_payment C uuid acct recipient_addr amount fee expiry_height nonce now) s) (\<lambda>submitted s.
     st_bind (on_node (\<lambda>_ node. from_node (node_produce_block C uuid later [] [] None node)) s) (\<lambda>made s.
     case dict_get (bre_deliveries made) (session_address s) of
       None \<Rightarrow> (Inl DeliveryMissing, s)
     | Some delivery \<Rightarrow>
         st_bind
           (if rd_applied delivery then (Inr (), s)
            else
              st_bind (session_sync_receipts C uuid s) (\<lambda>_ s.
              case read_wallet (as_account s) (\<lambda>w. Inr (wallet_pending_bundles w)) (as_node s) of
                Inl e \<Rightarrow> (Inl e, s)
              | Inr pending \<Rightarrow> if pending \<noteq> [] then (Inl (ReceiptNotApplied (rd_error delivery)), s) else (Inr (), s)))
           (\<lambda>_ s.
            case settled_receipt C submitted delivery s of
              Inl e \<Rightarrow> (Inl e, s)
            | Inr r \<Rightarrow>
                st_bind (queue_outgoing_transfer_packages C (sp_tx submitted) s) (\<lambda>_ s.
                (Inr \<lparr>cpa_submitted = submitted, cpa_receipt = r\<rparr>, s)))))"

definition register_genesis_value :: "crypto \<Rightarrow> (string \<Rightarrow> nat \<Rightarrow> string) \<Rightarrow> value_range \<Rightarrow> app_session \<Rightarrow> unit session_outcome" where
  "register_genesis_value C uuid v s =
     st_bind (on_node (\<lambda>acct. on_wallet acct (add_genesis_value C (uuid (an_address acct)) v)) s) (\<lambda>_ s.
     (Inr (), s\<lparr>as_node := node_register_allocation (session_address s) v (as_node s)\<rparr>))"

end
