(* ===== verification/Payments.thy ===== *)
theory Payments
  imports Node_Restart
begin

section \<open>A payment reaches its recipient\<close>

text \<open>
  The way of a value through the whole program: the sender's wallet cuts and sends it, a block confirms it, the sender exports a
  package and the recipient's wallet checks and credits it. What makes the package acceptable is a property of the sender's records
  that every step keeps: each value it holds rests on a genesis allocation or on an accepted package, and the bundles of the account
  since then, which the record carries, are proven, linked and do not touch the value.
\<close>

subsection \<open>The provenance of a part of a value\<close>

lemma spends_part: "spends t v \<Longrightarrow> vr_set v \<subseteq> vr_set w \<Longrightarrow> spends t w"
  by (auto simp: spends_def)

lemma segment_part:
  assumes "segment_valid C tx w chain" "vr_set v \<subseteq> vr_set w"
  shows "segment_valid C tx v chain"
proof -
  have "spends t w" if "spends t v" for t using spends_part [OF that assms(2)] .
  with assms show ?thesis unfolding segment_valid_def sole_spend_def by blast
qed

lemma provenance_part:
  assumes "provenance C ctx w tx x" "vc_trusted_checkpoints ctx = []" "vr_set v \<subseteq> vr_set w" "vr_ok v" "vr_ok w"
  shows "provenance C ctx v tx x"
  using assms(1)
proof induction
  case (from_genesis tx chain g wv)
  then show ?case
    using assms(3-5) by (intro provenance.from_genesis segment_part [OF _ assms(3)]) (auto simp: vr_contains_range_iff)
next
  case (from_owner tx chain acquire prior wv)
  then show ?case by (intro provenance.from_owner segment_part [OF _ assms(3)])
qed (use assms(2) in simp)

text \<open>Without trusted checkpoints there are none in the witness, so nothing is trusted or put back in its place.\<close>

lemma provenance_no_checkpoint:
  assumes "provenance C ctx v tx x" "vc_trusted_checkpoints ctx = []"
  shows "trusted_checkpoints_for_witness C w x = []" "rehydrate_local_checkpoint_anchors C w x = x"
proof -
  have "trusted_checkpoints_for_witness C w x = [] \<and> rehydrate_local_checkpoint_anchors C w x = x"
    using assms(1) by induction (use assms(2) in simp_all)
  then show "trusted_checkpoints_for_witness C w x = []" "rehydrate_local_checkpoint_anchors C w x = x" by simp_all
qed

primrec witness_owners :: "witness \<Rightarrow> string list" and anchor_owners :: "anchor \<Rightarrow> string list" where
  \<comment> \<open>The owners of a witness, newest first\<close>
  "witness_owners (WitnessV2 v owner chain anchor) = owner # anchor_owners anchor"
| "anchor_owners (GenesisAnchor g) = []"
| "anchor_owners (CheckpointAnchor cp) = []"
| "anchor_owners (PriorWitnessLink tx prior) = witness_owners prior"

lemma trim_new_owner: "recipient \<notin> set (witness_owners x) \<Longrightarrow> trim_witness_for_recipient C recipient v x = x"
  by (induction C recipient v x rule: trim_witness_for_recipient.induct) auto

text \<open>More genesis allocations do no harm.\<close>

definition ledger_context :: "(string, value_range list) dict \<Rightarrow> validation_context" where
  "ledger_context allocations = \<lparr>vc_genesis_allocations = allocations, vc_trusted_checkpoints = []\<rparr>"

lemma provenance_more:
  "provenance C (ledger_context d) v tx x \<Longrightarrow> allocated d \<subseteq> allocated d' \<Longrightarrow> provenance C (ledger_context d') v tx x"
proof (induction rule: provenance.induct)
  case (from_genesis tx chain g wv)
  then show ?case by (intro provenance.from_genesis) (auto simp: ledger_context_def allocated_def)
qed (auto simp: ledger_context_def intro: provenance.from_owner)

subsection \<open>The history a record carries\<close>

definition own_history :: "crypto \<Rightarrow> value_range \<Rightarrow> confirmed_unit list \<Rightarrow> bool" where
  \<comment> \<open>Proven, linked units that do not touch the value\<close>
  "own_history C v us \<longleftrightarrow> continuous C us \<and> (\<forall>u\<in>set us. proven_unit C u \<and> bundle_sidecar_ok (cu_sidecar u) \<and>
     (\<forall>other\<in>set (sc_txs (cu_sidecar u)). \<not> spends other v))"

definition rooted :: "crypto \<Rightarrow> validation_context \<Rightarrow> string \<Rightarrow> local_value_record \<Rightarrow> bool" where
  \<comment> \<open>The account's history of the value starts after its acquisition, which is a genesis allocation or an accepted package.\<close>
  "rooted C ctx a r \<longleftrightarrow> w_owner (lvr_witness r) = a \<and> vr_ok (lvr_value r) \<and>
     (\<forall>u\<in>set (w_chain (lvr_witness r)). lvr_height r < hl_height (rc_header (cu_receipt u))) \<and>
     (case w_anchor (lvr_witness r) of
        GenesisAnchor g \<Rightarrow> ga_owner g = a \<and> vr_ok (ValueRange (ga_value_begin g) (ga_value_end g)) \<and>
          vr_contains_range (ValueRange (ga_value_begin g) (ga_value_end g)) (lvr_value r) \<and>
          ValueRange (ga_value_begin g) (ga_value_end g) \<in> set (dict_get_default (vc_genesis_allocations ctx) a [])
      | CheckpointAnchor cp \<Rightarrow> False
      | PriorWitnessLink acquire prior \<Rightarrow> provenance C ctx (lvr_value r) acquire prior \<and> tx_recipient acquire = a \<and>
          witness_sidecars_ok prior \<and> hl_height (rc_header (cu_receipt (hd (w_chain prior)))) \<le> lvr_height r)"

definition held :: "crypto \<Rightarrow> validation_context \<Rightarrow> string \<Rightarrow> int \<Rightarrow> bundle_ref option \<Rightarrow> local_value_record \<Rightarrow> bool" where
  \<comment> \<open>A value of the account, when the chain has the given height and the account's leaf the given head reference\<close>
  "held C ctx a h ref r \<longleftrightarrow> rooted C ctx a r \<and> own_history C (lvr_value r) (w_chain (lvr_witness r)) \<and> lvr_height r \<le> h \<and>
     (w_chain (lvr_witness r) \<noteq> [] \<longrightarrow> ref = Some (confirmed_ref C (hd (w_chain (lvr_witness r)))))"

definition sent :: "crypto \<Rightarrow> validation_context \<Rightarrow> string \<Rightarrow> int \<Rightarrow> local_value_record \<Rightarrow> bool" where
  \<comment> \<open>A value the account gave away in the newest unit, each value of which one transaction spends\<close>
  "sent C ctx a h r \<longleftrightarrow> rooted C ctx a r \<and> w_chain (lvr_witness r) \<noteq> [] \<and> continuous C (w_chain (lvr_witness r)) \<and>
     own_history C (lvr_value r) (tl (w_chain (lvr_witness r))) \<and>
     (let u = hd (w_chain (lvr_witness r))
      in proven_unit C u \<and> bundle_sidecar_ok (cu_sidecar u) \<and> hl_height (rc_header (cu_receipt u)) \<le> h \<and>
         (\<forall>tx\<in>set (sc_txs (cu_sidecar u)). \<forall>v\<in>set (tx_values tx). \<forall>other\<in>set (sc_txs (cu_sidecar u)). spends other v \<longrightarrow> other = tx))"

definition keeps_history :: "crypto \<Rightarrow> validation_context \<Rightarrow> chain_state \<Rightarrow> wallet \<Rightarrow> bool" where
  "keeps_history C ctx st w \<longleftrightarrow> (\<forall>r\<in>set (wa_records w).
       (if lvr_status r = ARCHIVED then sent C ctx (wa_address w) (cs_height st) r
        else held C ctx (wa_address w) (cs_height st) (head_ref_of (dict_get (cs_leaves st) (wa_address w))) r) \<and>
       (lvr_status r = PENDING_BUNDLE \<longrightarrow> (\<exists>context\<in>set (wallet_pending_bundles w). lvr_id r \<in> set (pbc_pending_ids context))))"

lemma continuous_tl: "continuous C us \<Longrightarrow> continuous C (tl us)"
  by (cases us) (auto elim: continuous.elims)

lemma own_history_part: "own_history C w us \<Longrightarrow> vr_set v \<subseteq> vr_set w \<Longrightarrow> own_history C v us"
  unfolding own_history_def using spends_part by blast

lemma contains_part:
  "vr_contains_range x w \<Longrightarrow> vr_ok w \<Longrightarrow> vr_ok v \<Longrightarrow> vr_set v \<subseteq> vr_set w \<Longrightarrow> vr_contains_range x v"
  unfolding vr_contains_range_iff by blast

lemma held_part:
  assumes "held C ctx a h ref source" "vc_trusted_checkpoints ctx = []" "vr_ok (lvr_value r)"
    "vr_set (lvr_value r) \<subseteq> vr_set (lvr_value source)" "lvr_height r = lvr_height source"
    "lvr_witness r = clone_witness_for_value (lvr_witness source) (lvr_value r)"
  shows "held C ctx a h ref r"
proof -
  have ok: "vr_ok (lvr_value source)" using assms(1) by (simp add: held_def rooted_def)
  have w: "w_owner (lvr_witness r) = w_owner (lvr_witness source)" "w_chain (lvr_witness r) = w_chain (lvr_witness source)"
      "w_anchor (lvr_witness r) = w_anchor (lvr_witness source)"
    by (simp_all add: assms(6) clone_witness_for_value_def)
  have "rooted C ctx a source" using assms(1) by (simp add: held_def)
  then have "rooted C ctx a r"
    unfolding rooted_def w assms(5)
    using assms(3) contains_part [OF _ ok assms(3,4)] provenance_part [OF _ assms(2,4,3) ok]
    by (auto split: anchor.splits simp del: mem_vr_set)
  then show ?thesis using assms(1,5) own_history_part [OF _ assms(4)] by (simp add: held_def w)
qed

text \<open>A value that was sent has a provenance for the transaction that sent it.\<close>

lemma sent_provenance:
  assumes "sent C ctx a h r" "tx_sender tx = a" "lvr_value r \<in> set (tx_values tx)"
    "count_list (sc_txs (cu_sidecar (hd (w_chain (lvr_witness r))))) tx = 1"
  shows "provenance C ctx (lvr_value r) tx (lvr_witness r)" "witness_sidecars_ok (lvr_witness r)"
proof -
  obtain v chain anchor where w: "lvr_witness r = WitnessV2 v a chain anchor"
    using assms(1) by (cases "lvr_witness r") (auto simp: sent_def rooted_def)
  have s: "chain \<noteq> []" "continuous C chain" "own_history C (lvr_value r) (tl chain)" "proven_unit C (hd chain)"
      "bundle_sidecar_ok (cu_sidecar (hd chain))"
      "\<forall>other\<in>set (sc_txs (cu_sidecar (hd chain))). spends other (lvr_value r) \<longrightarrow> other = tx" and rooted: "rooted C ctx a r"
    using assms count_notin [of tx "sc_txs (cu_sidecar (hd chain))"] by (auto simp: sent_def w Let_def)
  have units: "\<forall>u\<in>set chain. proven_unit C u \<and> bundle_sidecar_ok (cu_sidecar u)"
    using s(1,3-5) by (cases chain) (auto simp: own_history_def)
  have "sole_spend (cu_sidecar (hd chain)) tx (lvr_value r)" using s(6) assms(3,4) by (auto simp: sole_spend_def w)
  then have seg: "segment_valid C tx (lvr_value r) chain"
    using s units by (auto simp: segment_valid_def own_history_def)
  have last: "lvr_height r < hl_height (rc_header (cu_receipt (last chain)))" using rooted s(1) by (simp add: rooted_def w)
  show "provenance C ctx (lvr_value r) tx (lvr_witness r)"
    using rooted seg last by (auto simp: rooted_def w assms(2) [symmetric] provenance_simps split: anchor.splits)
  show "witness_sidecars_ok (lvr_witness r)"
    using rooted units by (auto simp: rooted_def w sidecars_ok_def split: anchor.splits)
qed

subsection \<open>Building and confirming keep the history\<close>

lemma pending_record: "keeps_history C ctx st w \<Longrightarrow> wallet_pending_bundles w = [] \<Longrightarrow> r \<in> set (wa_records w) \<Longrightarrow> lvr_status r \<noteq> PENDING_BUNDLE"
  by (auto simp: keeps_history_def)

lemma built_history:
  assumes "keeps_history C ctx st w" "vc_trusted_checkpoints ctx = []" "bundle_split uuid txs w context s"
    "wallet_pending_bundles w = []" "wallet_ok C uuid w1" "wa_address w1 = wa_address w" "wallet_pending_bundles w1 = [context]"
    "wa_records w1 = sort_key value_row_key (spl_records s)"
  shows "keeps_history C ctx st w1"
proof -
  obtain asg where split: "split_of uuid asg (wa_records w) (wa_drawn w) s" and ids: "pbc_pending_ids context = spl_pending_ids s"
      and spendable: "\<forall>r\<in>set (wa_records w). assigned asg r \<noteq> [] \<longrightarrow> lvr_status r = VERIFIED_SPENDABLE"
    using assms(3) by (auto simp: bundle_split_def)
  let ?ref = "head_ref_of (dict_get (cs_leaves st) (wa_address w))"
  have "(if lvr_status r = ARCHIVED then sent C ctx (wa_address w) (cs_height st) r else held C ctx (wa_address w) (cs_height st) ?ref r) \<and>
      (lvr_status r = PENDING_BUNDLE \<longrightarrow> lvr_id r \<in> set (pbc_pending_ids context))" if r: "r \<in> set (spl_records s)" for r
  proof (cases "r \<in> set (wa_records w)")
    case True
    then show ?thesis using assms(1) pending_record [OF assms(1,4)] by (simp add: keeps_history_def)
  next
    case False
    then obtain source where source: "source \<in> set (wa_records w)" "assigned asg source \<noteq> []" "lvr_height r = lvr_height source"
        "vr_set (lvr_value r) \<subseteq> vr_set (lvr_value source)" "lvr_witness r = clone_witness_for_value (lvr_witness source) (lvr_value r)"
        and new: "lvr_id r \<in> set (spl_pending_ids s)" "lvr_status r = PENDING_BUNDLE"
      using split r unfolding split_of_def by blast
    have "vr_ok (lvr_value r)" using split r by (simp add: split_of_def list_all_iff)
    moreover have "held C ctx (wa_address w) (cs_height st) ?ref source"
      using assms(1) source(1,2) spendable by (simp add: keeps_history_def)
    ultimately show ?thesis using held_part [OF _ assms(2) _ source(4,3,5)] new by (simp add: ids)
  qed
  then show ?thesis by (simp add: keeps_history_def assms(6-8))
qed

lemma distinct_pairwise:
  "disjoint_values (live_values rs) \<Longrightarrow> r \<in> set rs \<Longrightarrow> o' \<in> set rs \<Longrightarrow> r \<noteq> o' \<Longrightarrow> lvr_status r \<noteq> ARCHIVED \<Longrightarrow>
   lvr_status o' \<noteq> ARCHIVED \<Longrightarrow> \<not> vr_intersects (lvr_value r) (lvr_value o')"
proof (induction rs)
  case (Cons x rs)
  then show ?case by (auto simp: disjoint_values_def live_values_def live_def vr_intersects_sym split: if_splits)
qed simp

lemma kept_unspent:
  \<comment> \<open>The transactions of a bundle do not touch a value that is kept.\<close>
  assumes "wallet_ok C uuid w" "bundle_ok (wa_records w) context" "r \<in> set (wa_records w)" "lvr_status r \<noteq> ARCHIVED"
    "lvr_id r \<notin> set (pbc_outgoing_ids context)" "mset (pbc_outgoing_values context) = mset (concat (map tx_values txs))" "tx \<in> set txs"
  shows "\<not> spends tx (lvr_value r)"
proof
  assume "spends tx (lvr_value r)"
  then obtain v where v: "v \<in> set (tx_values tx)" "vr_set v \<inter> vr_set (lvr_value r) \<noteq> {}" by (auto simp: spends_def units_def)
  let ?out = "filter (\<lambda>r. lvr_id r \<in> set (pbc_outgoing_ids context)) (wa_records w)"
  have "v \<in> set (concat (map tx_values txs))" using v(1) assms(7) by auto
  then have "v \<in> set (pbc_outgoing_values context)" using mset_eq_setD [OF assms(6)] by simp
  moreover have "mset (map lvr_value ?out) = mset (pbc_outgoing_values context)" using assms(2) by (simp add: bundle_ok_def)
  ultimately have "v \<in> set (map lvr_value ?out)" using mset_eq_setD by blast
  then obtain o' where o': "o' \<in> set (wa_records w)" "lvr_id o' \<in> set (pbc_outgoing_ids context)" "lvr_value o' = v" by auto
  have "lvr_status o' \<noteq> ARCHIVED" using assms(2) o'(1,2) by (auto simp: bundle_ok_def)
  moreover have "r \<noteq> o'" using assms(5) o'(2) by auto
  ultimately have "\<not> vr_intersects (lvr_value r) v"
    using distinct_pairwise [of "wa_records w" r o'] assms(1,3,4) o' by (simp add: wallet_ok_def records_ok_def)
  moreover have "vr_ok (lvr_value r)" "vr_ok v" using assms(1,3) o' by (auto simp: wallet_ok_def records_ok_def list_all_iff)
  ultimately show False using v(2) vr_intersects_iff by blast
qed

lemma appended_rooted:
  assumes "held C ctx a h ref r" "hl_height (rc_header (cu_receipt unit)) = h + 1"
  shows "rooted C ctx a (r\<lparr>lvr_witness := append_confirmed_unit (lvr_witness r) (lvr_value r) unit, lvr_status := s\<rparr>)"
  using assms by (auto simp: held_def rooted_def append_confirmed_unit_def split: anchor.splits)

lemma appended_continuous:
  "continuous C us \<Longrightarrow> (us \<noteq> [] \<longrightarrow> rc_prev_ref (cu_receipt u) = Some (confirmed_ref C (hd us))) \<Longrightarrow> continuous C (u # us)"
  by (cases us) simp_all

lemma confirmed_history:
  assumes hist: "keeps_history C ctx st w" and ok: "wallet_ok C uuid w" and pend: "wallet_pending_bundles w = [context]"
    and ext: "extends_history C st st' (wa_address w) unit" and sidecar: "bundle_sidecar_ok (cu_sidecar unit)"
    and outs: "mset (pbc_outgoing_values context) = mset (concat (map tx_values (sc_txs (cu_sidecar unit))))"
    and apart: "\<forall>tx\<in>set (sc_txs (cu_sidecar unit)). \<forall>v\<in>set (tx_values tx). \<forall>other\<in>set (sc_txs (cu_sidecar unit)).
      spends other v \<longrightarrow> other = tx"
    and w': "wa_address w' = wa_address w"
      "wa_records w' = sort_key value_row_key (map (confirmed unit (pbc_pending_ids context) (pbc_outgoing_ids context)) (wa_records w))"
  shows "keeps_history C ctx st' w'"
proof -
  let ?a = "wa_address w" and ?f = "confirmed unit (pbc_pending_ids context) (pbc_outgoing_ids context)"
  let ?ref = "\<lambda>st. head_ref_of (dict_get (cs_leaves st) ?a)"
  have named: "bundle_ok (wa_records w) context" using ok by (simp add: wallet_ok_def pend)
  have "(if lvr_status (?f r) = ARCHIVED then sent C ctx ?a (cs_height st') (?f r) else held C ctx ?a (cs_height st') (?ref st') (?f r)) \<and>
      lvr_status (?f r) \<noteq> PENDING_BUNDLE" if r: "r \<in> set (wa_records w)" for r
  proof (cases "lvr_status r = ARCHIVED")
    case True
    then show ?thesis using hist r ext by (auto simp: keeps_history_def confirmed_def sent_def Let_def extends_history_def)
  next
    case False
    let ?out = "lvr_id r \<in> set (pbc_outgoing_ids context)"
    let ?r = "r\<lparr>lvr_witness := append_confirmed_unit (lvr_witness r) (lvr_value r) unit,
      lvr_status := (if ?out then ARCHIVED else VERIFIED_SPENDABLE)\<rparr>"
    have held: "held C ctx ?a (cs_height st) (?ref st) r" and p: "lvr_status r = PENDING_BUNDLE \<longrightarrow> lvr_id r \<in> set (pbc_pending_ids context)"
      using hist r False by (simp_all add: keeps_history_def pend)
    have h: "hl_height (rc_header (cu_receipt unit)) = cs_height st + 1" "lvr_height r \<le> cs_height st"
      using ext held by (simp_all add: extends_history_def held_def)
    have "?out \<longrightarrow> lvr_id r \<in> set (pbc_pending_ids context)" using named by (auto simp: bundle_ok_def)
    then have f: "?f r = ?r" using False p h by (auto simp: confirmed_def Let_def)
    have rooted: "rooted C ctx ?a ?r" by (rule appended_rooted [OF held h(1)])
    have own: "own_history C (lvr_value r) (w_chain (lvr_witness r))"
        "continuous C (unit # w_chain (lvr_witness r))"
      using held ext by (auto simp: held_def own_history_def extends_history_def intro!: appended_continuous)
    have u: "proven_unit C unit" "?ref st' = Some (confirmed_ref C unit)" "cs_height st' = cs_height st + 1"
      using ext by (simp_all add: extends_history_def)
    show ?thesis
    proof (cases ?out)
      case True
      then have "sent C ctx ?a (cs_height st') ?r"
        using rooted own u(1) sidecar apart ext by (simp add: sent_def append_confirmed_unit_def Let_def extends_history_def)
      then show ?thesis using True by (simp add: f)
    next
      case kept: False
      have "\<forall>tx\<in>set (sc_txs (cu_sidecar unit)). \<not> spends tx (lvr_value r)"
        using kept_unspent [OF ok named r False kept outs] by blast
      then have "own_history C (lvr_value r) (unit # w_chain (lvr_witness r))"
        using own u(1) sidecar by (simp add: own_history_def)
      then have "held C ctx ?a (cs_height st') (?ref st') ?r"
        using rooted u h by (simp add: held_def append_confirmed_unit_def kept)
      then show ?thesis using kept by (simp add: f)
    qed
  qed
  then show ?thesis by (auto simp: keeps_history_def w')
qed

lemma history_later:
  assumes "keeps_history C ctx st w" "cs_height st \<le> cs_height st'"
    "head_ref_of (dict_get (cs_leaves st') (wa_address w)) = head_ref_of (dict_get (cs_leaves st) (wa_address w))"
  shows "keeps_history C ctx st' w"
  using assms(1,2) unfolding keeps_history_def assms(3) by (fastforce simp: held_def sent_def Let_def)

subsection \<open>Exporting and crediting\<close>

lemma export_found:
  assumes "r \<in> set rs" "lvr_status r = ARCHIVED" "lvr_value r = v" "w_owner (lvr_witness r) = a" "tx_sender tx = a"
    "w_chain (lvr_witness r) \<noteq> []" "count_list (sc_txs (cu_sidecar (hd (w_chain (lvr_witness r))))) tx = 1"
  shows "\<exists>r'\<in>set rs. lvr_status r' = ARCHIVED \<and> lvr_value r' = v \<and>
    count_list (sc_txs (cu_sidecar (hd (w_chain (lvr_witness r'))))) tx = 1 \<and>
    export_from_records C a tx v rs = Inr \<lparr>tp_target_tx = tx, tp_target_value = v,
      tp_witness = trim_witness_for_recipient C (tx_recipient tx) v (lvr_witness r')\<rparr>"
  using assms(1)
proof (induction rs)
  case (Cons x rs)
  show ?case
  proof (cases "lvr_status x = ARCHIVED \<and> lvr_value x = v \<and> w_owner (lvr_witness x) = a \<and> w_chain (lvr_witness x) \<noteq> [] \<and>
      count_list (sc_txs (cu_sidecar (hd (w_chain (lvr_witness x))))) tx = 1")
    case True
    then show ?thesis using assms(5) by (cases "w_chain (lvr_witness x)") (auto simp: filter_eq_count)
  next
    case False
    then have "x \<noteq> r" using assms by auto
    then obtain r' where "r' \<in> set rs" "lvr_status r' = ARCHIVED" "lvr_value r' = v"
        "count_list (sc_txs (cu_sidecar (hd (w_chain (lvr_witness r'))))) tx = 1"
        "export_from_records C a tx v rs = Inr \<lparr>tp_target_tx = tx, tp_target_value = v,
           tp_witness = trim_witness_for_recipient C (tx_recipient tx) v (lvr_witness r')\<rparr>"
      using Cons by auto
    moreover have "export_from_records C a tx v (x # rs) = export_from_records C a tx v rs"
      using False assms(5) by (cases "w_chain (lvr_witness x)") (auto simp: filter_eq_count)
    ultimately show ?thesis by (intro bexI [of _ r']) simp_all
  qed
qed simp

definition new_owner :: "string \<Rightarrow> wallet \<Rightarrow> bool" where
  \<comment> \<open>No value of the wallet has ever been the address's.\<close>
  "new_owner b w \<longleftrightarrow> (\<forall>r\<in>set (wa_records w). b \<notin> set (witness_owners (lvr_witness r)))"

lemma owners_kept [simp]:
  "witness_owners (clone_witness_for_value x v) = witness_owners x" "witness_owners (append_confirmed_unit x v unit) = witness_owners x"
  by (cases x; simp add: clone_witness_for_value_def append_confirmed_unit_def)+

lemma sent_package:
  assumes hist: "keeps_history C ctx st w" and ok: "wallet_ok C uuid w" and new: "new_owner (tx_recipient tx) w"
    and tx: "tx_sender tx = wa_address w" "v \<in> set (tx_values tx)"
    and r: "r \<in> set (wa_records w)" "lvr_status r = ARCHIVED" "lvr_value r = v"
      "count_list (sc_txs (cu_sidecar (hd (w_chain (lvr_witness r))))) tx = 1"
  obtains x where "export_transfer_package C tx v w = Inr \<lparr>tp_target_tx = tx, tp_target_value = v, tp_witness = x\<rparr>"
    "provenance C ctx v tx x" "witness_sidecars_ok x" "full_witness x"
    "hl_height (rc_header (cu_receipt (hd (w_chain x)))) \<le> cs_height st"
proof -
  have sent: "sent C ctx (wa_address w) (cs_height st) r'" if "r' \<in> set (wa_records w)" "lvr_status r' = ARCHIVED" for r'
    using hist that by (simp add: keeps_history_def)
  obtain r' where r': "r' \<in> set (wa_records w)" "lvr_status r' = ARCHIVED" "lvr_value r' = v"
      "count_list (sc_txs (cu_sidecar (hd (w_chain (lvr_witness r'))))) tx = 1"
      "export_from_records C (wa_address w) tx v (wa_records w) = Inr \<lparr>tp_target_tx = tx, tp_target_value = v,
        tp_witness = trim_witness_for_recipient C (tx_recipient tx) v (lvr_witness r')\<rparr>"
    using export_found [of r "wa_records w" v "wa_address w" tx C] r tx(1) sent [OF r(1,2)] by (auto simp: sent_def rooted_def)
  have "trim_witness_for_recipient C (tx_recipient tx) v (lvr_witness r') = lvr_witness r'"
    using new r'(1) by (intro trim_new_owner) (simp add: new_owner_def)
  moreover have "full_witness (lvr_witness r')" using ok r'(1) by (simp add: wallet_ok_def records_ok_def storable_def)
  ultimately show ?thesis
    using that r'(5) sent_provenance [OF sent [OF r'(1,2)] tx(1) _ r'(4)] tx(2) sent [OF r'(1,2)]
    by (simp add: export_transfer_package_def r'(3) sent_def Let_def)
qed

lemma judged_provenance:
  assumes "provenance C ctx v tx x" "witness_sidecars_ok x" "vr_ok v" "tx_recipient tx = wa_address w" "wa_address w \<noteq> []"
    "\<not> has_accepted_transfer_package (wa_address w)
       (transfer_package_hash C \<lparr>tp_target_tx = tx, tp_target_value = v, tp_witness = x\<rparr>) (wa_db w)"
  shows "judge_transfer C ctx \<lparr>tp_target_tx = tx, tp_target_value = v, tp_witness = x\<rparr> w =
    Inr (WitnessV2 v (wa_address w) [] (PriorWitnessLink tx x))"
proof -
  have "validate_transfer C ctx tx v x (wa_address w) = Inr None"
    using validate_transfer_iff(1) [OF assms(3,2)] assms(1,4) by blast
  then show ?thesis
    using assms(5,6) by (simp add: judge_transfer_def package_result accepted_witness_def)
qed

lemma credited:
  assumes C: "digests32 C" and inj: "inj uuid" and ok: "wallet_ok C uuid w" and trusted: "vc_trusted_checkpoints ctx = []"
    and x: "provenance C ctx v tx x" "witness_sidecars_ok x" "full_witness x" "vr_ok v"
    and to: "tx_recipient tx = wa_address w" "wa_address w \<noteq> []"
    and fresh: "\<not> has_accepted_transfer_package (wa_address w)
       (transfer_package_hash C \<lparr>tp_target_tx = tx, tp_target_value = v, tp_witness = x\<rparr>) (wa_db w)"
    and apart: "\<forall>u\<in>set (live_values (wa_records w)). \<not> vr_intersects u v"
  obtains rec w' where "receive_transfer C uuid ctx \<lparr>tp_target_tx = tx, tp_target_value = v, tp_witness = x\<rparr> now w = (Inr rec, w')"
    "wallet_ok C uuid w'" "wa_address w' = wa_address w" "mset (live_values (wa_records w')) = add_mset v (mset (live_values (wa_records w)))"
    "\<forall>h. has_accepted_transfer_package (wa_address w) h (wa_db w') \<longleftrightarrow>
       h = transfer_package_hash C \<lparr>tp_target_tx = tx, tp_target_value = v, tp_witness = x\<rparr> \<or> has_accepted_transfer_package (wa_address w) h (wa_db w)"
    "\<And>st. in_step C st w \<Longrightarrow> in_step C st w'"
    "\<And>ctx st. keeps_history C ctx st w \<Longrightarrow> provenance C ctx v tx x \<Longrightarrow>
       hl_height (rc_header (cu_receipt (hd (w_chain x)))) \<le> cs_height st \<Longrightarrow> keeps_history C ctx st w'"
proof -
  let ?p = "\<lparr>tp_target_tx = tx, tp_target_value = v, tp_witness = x\<rparr>"
  let ?acc = "WitnessV2 v (wa_address w) [] (PriorWitnessLink tx x)"
  have judged: "judge_transfer C ctx ?p w = Inr ?acc" by (rule judged_provenance [OF x(1,2,4) to fresh])
  have "full_witness (tp_witness ?p)" "vr_ok (tp_target_value ?p)"
    "\<forall>u\<in>set (live_values (wa_records w)). \<not> vr_intersects u (tp_target_value ?p)"
    using x(3,4) apart by simp_all
  from C inj ok this show ?thesis
  proof (cases rule: receive_transfer_cases [of C uuid w ?p ctx now])
    case (received accepted w')
    have r: "accepted = ?acc" "received_record C uuid ?p ?acc w = \<lparr>lvr_id = uuid (wa_drawn w), lvr_value = v, lvr_witness = ?acc,
        lvr_status = VERIFIED_SPENDABLE, lvr_height = hl_height (rc_header (cu_receipt (hd (w_chain x))))\<rparr>" (is "_ = ?r")
    proof -
      show "accepted = ?acc" using received(2) judged by simp
      show "received_record C uuid ?p ?acc w = ?r"
        by (simp add: received_record_def provenance_no_checkpoint(2) [OF x(1) trusted])
    qed
    have records: "wa_records w' = sort_key value_row_key (wa_records w @ [?r])" using received(4) by (simp only: r)
    have "mset (live_values (wa_records w')) = add_mset v (mset (live_values (wa_records w)))"
      by (simp add: records live_values_def live_def)
    moreover have "keeps_history C ctx st w'" if "keeps_history C ctx st w" "provenance C ctx v tx x"
      "hl_height (rc_header (cu_receipt (hd (w_chain x)))) \<le> cs_height st" for ctx st
    proof -
      have "held C ctx (wa_address w) (cs_height st) ref ?r" for ref
        using x(2,4) to that(2,3) by (simp add: held_def rooted_def own_history_def)
      then show ?thesis using that(1) by (auto simp: keeps_history_def records received(5,7))
    qed
    moreover have "in_step C st w'" if "in_step C st w" for st
      using that in_step_cong [of w' w C st] received(5,8-10) by simp
    ultimately show ?thesis using that received(1,3,5,6) by blast
  qed (use judged in simp)
qed

subsection \<open>A payment and the sender's history\<close>

lemma payment_tx:
  assumes "wallet_ok C uuid w" "build_payment_bundle C uuid recipient_addr amount p now seq extra_data w = (Inr (submission, ctx, tx), w')"
  shows "offchain_tx_ok tx" "tx_recipient tx \<noteq> []"
proof -
  obtain vs where "offchain_tx_init \<lparr>tx_sender = wa_address w, tx_recipient = recipient_addr, tx_values = vs, tx_local_index = 0,
      tx_time = now, tx_extra = extra_data\<rparr> = Inr tx"
    using assms(2) by (auto simp: build_payment_bundle_def res_bind_Inr map_sum_id_Inr st_bind_Inr split: if_splits sum.splits)
  then have "is_ok (offchain_tx_init tx)" "tx_recipient tx \<noteq> []" by (auto simp: offchain_tx_init_def split: if_splits)
  then show "offchain_tx_ok tx" "tx_recipient tx \<noteq> []" using payment_built(3) [OF assms] by (simp_all add: offchain_tx_ok_def)
qed

lemma payment_sidecar:
  assumes "wallet_ok C uuid w" "build_payment_bundle C uuid recipient_addr amount p now seq extra_data w = (Inr (submission, ctx, tx), w')"
  shows "sc_txs (sub_sidecar submission) = [tx]" "bundle_sidecar_ok (sub_sidecar submission)"
proof -
  obtain n where built: "build_bundle C uuid [tx] p n w = (Inr (submission, ctx), w')" using payment_built(6) [OF assms] by blast
  obtain split vs where prep: "prepare_bundle C (wa_address w) [tx] p n vs split = Inr (submission, ctx)" by (rule built_prepared [OF built])
  then show txs: "sc_txs (sub_sidecar submission) = [tx]" by (rule prepared_submission) simp
  from prep have "sub_sidecar submission = \<lparr>sc_sender = wa_address w, sc_txs = [tx], sc_tx_count = 1\<rparr>"
    by (rule prepared_submission) simp
  moreover have "tx_sender tx = wa_address w" by (rule payment_built(5) [OF assms])
  moreover have "wa_address w \<noteq> []" using payment_tx(1) [OF assms] \<open>tx_sender tx = wa_address w\<close> by (auto simp: offchain_tx_ok_def offchain_tx_init_def)
  ultimately show "bundle_sidecar_ok (sub_sidecar submission)" using payment_tx(1) [OF assms] by (simp add: bundle_sidecar_ok_iff)
qed

lemma new_owner_built:
  assumes "bundle_split uuid txs w context s" "new_owner b w" "wa_records w1 = sort_key value_row_key (spl_records s)"
  shows "new_owner b w1"
proof -
  obtain asg where split: "split_of uuid asg (wa_records w) (wa_drawn w) s" using assms(1) by (auto simp: bundle_split_def)
  have "b \<notin> set (witness_owners (lvr_witness r))" if r: "r \<in> set (spl_records s)" for r
  proof -
    have "\<exists>source\<in>set (wa_records w). witness_owners (lvr_witness r) = witness_owners (lvr_witness source)"
      using split r unfolding split_of_def by (metis owners_kept(1))
    then show ?thesis using assms(2) by (auto simp: new_owner_def)
  qed
  then show ?thesis by (simp add: new_owner_def assms(3))
qed

lemma new_owner_confirmed:
  "new_owner b w \<Longrightarrow> wa_records w' = sort_key value_row_key (map (confirmed unit ps os) (wa_records w)) \<Longrightarrow> new_owner b w'"
  by (auto simp: new_owner_def confirmed_def Let_def)

lemma payment_history:
  assumes C: "digests32 C" and chain: "chain_ok C (rt_chain rt)" and inj: "inj (uuid a)" and ready: "payer_ready C uuid a w rt" and ts: "0 \<le> ts"
    and paid: "build_payment_bundle C (uuid a) recipient_addr amount p now n extra_data w = (Inr (submission, context, tx), w1)"
    and submit: "rt_submit_bundle C submission (set_wallet a w1 rt) = (Inr receipt, rt1)"
    and keys: "inj_on (compute_addr_key C) (accounts (rt_chain rt1))"
    and hist: "keeps_history C ctx (rt_chain rt) w" and trusted: "vc_trusted_checkpoints ctx = []"
  obtains result rt2 d w2 where "rt_produce_block C uuid ts sg x None rt1 = (Inr result, rt2)"
    "dict_get (bre_deliveries result) a = Some d" "rd_applied d" "payer_ready C uuid a w2 rt2" "total_balance w2 = total_balance w - amount"
    "keeps_history C ctx (rt_chain rt2) w2" "cs_height (rt_chain rt2) = cs_height (rt_chain rt) + 1"
    "\<forall>v\<in>set (tx_values tx). \<exists>r\<in>set (wa_records w2). lvr_status r = ARCHIVED \<and> lvr_value r = v \<and>
       count_list (sc_txs (cu_sidecar (hd (w_chain (lvr_witness r))))) tx = 1"
    "\<forall>b. new_owner b w \<longrightarrow> new_owner b w2" "rt_allocations rt2 = rt_allocations rt"
    "units (live_values (wa_records w)) = units (live_values (wa_records w2)) \<union> units (tx_values tx)"
proof (rule payment_confirmed [OF C chain inj ready ts paid submit keys, of sg x])
  fix result rt2 d w2 unit s
  assume rt2: "rt_produce_block C uuid ts sg x None rt1 = (Inr result, rt2)" "dict_get (bre_deliveries result) a = Some d" "rd_applied d"
    "payer_ready C uuid a w2 rt2" "total_balance w2 = total_balance w - amount" "rt_allocations rt2 = rt_allocations rt"
    and split: "bundle_split (uuid a) [tx] w context s" "wallet_pending_bundles w = []"
    and w1: "wallet_ok C (uuid a) w1" "wallet_pending_bundles w1 = [context]" "wa_records w1 = sort_key value_row_key (spl_records s)"
    and w2: "wa_records w2 = sort_key value_row_key (map (confirmed unit (pbc_pending_ids context) (pbc_outgoing_ids context)) (wa_records w1))"
    and unit: "extends_history C (rt_chain rt) (rt_chain rt2) a unit" "cu_sidecar unit = sub_sidecar submission"
  have w: "wallet_ok C (uuid a) w" "wa_address w = a" "wa_address w2 = a" using ready rt2(4) by (simp_all add: payer_ready_def)
  obtain seq where built: "build_bundle C (uuid a) [tx] p seq w = (Inr (submission, context), w1)" using payment_built(6) [OF w(1) paid] by blast
  have vals: "\<forall>tx\<in>set [tx]. list_all vr_ok (tx_values tx)" using payment_built(3) [OF w(1) paid] by simp
  have a1: "wa_address w1 = a"
    by (rule build_bundle_cases [OF C inj w(1) vals, of p seq]) (use built w(2) in simp_all)
  note money = built_money [OF C inj w(1) vals built]
  have outs: "mset (pbc_outgoing_values context) = mset (concat (map tx_values (sc_txs (cu_sidecar unit))))"
    using money(3) payment_sidecar(1) [OF w(1) paid] by (simp add: unit(2))
  have hist1: "keeps_history C ctx (rt_chain rt) w1"
    by (rule built_history [OF hist trusted split w1(1)]) (use w a1 w1 in simp_all)
  have hist2: "keeps_history C ctx (rt_chain rt2) w2"
    by (rule confirmed_history [OF hist1 w1(1,2) _ _ outs _ _ w2])
      (use unit a1 w(3) payment_sidecar [OF w(1) paid] in simp_all)
  have named: "bundle_ok (wa_records w1) context" using w1(1,2) by (simp add: wallet_ok_def)
  have gone: "\<exists>r\<in>set (wa_records w2). lvr_status r = ARCHIVED \<and> lvr_value r = v \<and>
       count_list (sc_txs (cu_sidecar (hd (w_chain (lvr_witness r))))) tx = 1" if v: "v \<in> set (tx_values tx)" for v
  proof -
    have "v \<in> set (pbc_outgoing_values context)" using v mset_eq_setD [OF money(3)] by simp
    moreover have "mset (map lvr_value (filter (\<lambda>r. lvr_id r \<in> set (pbc_outgoing_ids context)) (wa_records w1))) = mset (pbc_outgoing_values context)"
      using named by (simp add: bundle_ok_def)
    ultimately have "v \<in> set (map lvr_value (filter (\<lambda>r. lvr_id r \<in> set (pbc_outgoing_ids context)) (wa_records w1)))"
      using mset_eq_setD by blast
    then obtain r where r: "r \<in> set (wa_records w1)" "lvr_id r \<in> set (pbc_outgoing_ids context)" "lvr_value r = v" by auto
    have "lvr_status r \<noteq> ARCHIVED" "lvr_id r \<in> set (pbc_pending_ids context)" using named r(1,2) by (auto simp: bundle_ok_def)
    then have r': "confirmed unit (pbc_pending_ids context) (pbc_outgoing_ids context) r =
        r\<lparr>lvr_witness := append_confirmed_unit (lvr_witness r) v unit, lvr_status := ARCHIVED\<rparr>"
      using r(2,3) by (simp add: confirmed_def Let_def)
    have "confirmed unit (pbc_pending_ids context) (pbc_outgoing_ids context) r \<in> set (wa_records w2)" using r(1) by (simp add: w2)
    then show ?thesis
      unfolding r' by (rule rev_bexI) (use r(3) payment_sidecar(1) [OF w(1) paid] in \<open>simp add: append_confirmed_unit_def unit(2)\<close>)
  qed
  have "mset (live_values (wa_records w1)) = mset (live_values (wa_records w2) @ pbc_outgoing_values context)"
    using confirmed_live [OF named, of unit] by (simp add: w2 live_values_def live_def)
  from units_mset [OF this] have "units (live_values (wa_records w1)) = units (live_values (wa_records w2)) \<union> units (pbc_outgoing_values context)"
    by simp
  moreover have "units (pbc_outgoing_values context) = units (tx_values tx)" by (rule units_mset) (use money(3) in simp)
  ultimately have "units (live_values (wa_records w)) = units (live_values (wa_records w2)) \<union> units (tx_values tx)"
    using money(5) by metis
  moreover have "\<forall>b. new_owner b w \<longrightarrow> new_owner b w2" using new_owner_built [OF split(1) _ w1(3)] new_owner_confirmed [OF _ w2] by blast
  ultimately show thesis using that rt2 hist2 gone unit(1) by (simp add: extends_history_def)
qed

end
