(* ===== verification/Payment_Session.thy ===== *)
theory Payment_Session
  imports App_Session Payments
begin

section \<open>A payment from one session to another\<close>

text \<open>
  The whole program end to end: one account's session pays another, ends, and the other account's session on the same backend takes
  the payment in. Between the sessions only the store, the mailbox and the two wallets' databases remain.
\<close>

subsection \<open>An account between its sessions\<close>

definition account_in_order ::
    "crypto \<Rightarrow> (string \<Rightarrow> nat \<Rightarrow> string) \<Rightarrow> (string, value_range list) dict \<Rightarrow> chain_state \<Rightarrow> string \<Rightarrow> wallet \<Rightarrow> bool" where
  \<comment> \<open>The account's wallet keeps its invariant, is in step with the chain and holds values that can be spent.\<close>
  "account_in_order C uuid d st a w \<longleftrightarrow> wa_address w = a \<and> a \<noteq> [] \<and> wallet_ok C (uuid a) w \<and> in_step C st w \<and>
     keeps_history C (ledger_context d) st w"

lemma in_step_later:
  assumes "in_step C st w" "cs_height st \<le> cs_height st'"
    "head_ref_of (dict_get (cs_leaves st') (wa_address w)) = head_ref_of (dict_get (cs_leaves st) (wa_address w))"
  shows "in_step C st' w"
  using assms(1) keys_below_mono [OF _ assms(2) order_refl] unfolding in_step_def confirmed_seq_def assms(3) by blast

lemma in_order_later:
  assumes "account_in_order C uuid d st a w" "cs_height st \<le> cs_height st'"
    "head_ref_of (dict_get (cs_leaves st') a) = head_ref_of (dict_get (cs_leaves st) a)"
  shows "account_in_order C uuid d st' a w"
  using assms in_step_later history_later unfolding account_in_order_def by metis

text \<open>What a wallet's invariants read of it\<close>

lemma history_same:
  "wa_records w' = wa_records w \<Longrightarrow> wa_address w' = wa_address w \<Longrightarrow> wallet_pending_bundles w' = wallet_pending_bundles w \<Longrightarrow>
   keeps_history C ctx st w' \<longleftrightarrow> keeps_history C ctx st w"
  by (simp add: keeps_history_def)

lemma in_order_header: "account_in_order C uuid d st a w \<Longrightarrow> account_in_order C uuid d st a (observe_canonical_block b w)"
  using history_same [of "observe_canonical_block b w" w]
  by (simp add: account_in_order_def observed_block in_step_header observed_header header_keeps wallet_pending_bundles_def)
    (simp add: observe_canonical_header_def save_canonical_header_def list_pending_bundles_def)

lemma observed_accepted: "wd_accepted (wa_db (observe_canonical_block b w)) = wd_accepted (wa_db w)"
  by (simp add: observe_canonical_block_def observe_canonical_header_def save_canonical_header_def)

lemma in_order_headers:
  "account_in_order C uuid d st a w \<Longrightarrow> account_in_order C uuid d st a (share_canonical_chain_headers st' w) \<and>
     wa_records (share_canonical_chain_headers st' w) = wa_records w \<and>
     wd_accepted (wa_db (share_canonical_chain_headers st' w)) = wd_accepted (wa_db w)"
proof -
  have "account_in_order C uuid d st a w \<Longrightarrow> account_in_order C uuid d st a (fold observe_canonical_block bs w) \<and>
     wa_records (fold observe_canonical_block bs w) = wa_records w \<and>
     wd_accepted (wa_db (fold observe_canonical_block bs w)) = wd_accepted (wa_db w)" for bs
    by (induction bs arbitrary: w) (simp_all add: in_order_header observed_block observed_accepted)
  then show "account_in_order C uuid d st a w \<Longrightarrow> account_in_order C uuid d st a (share_canonical_chain_headers st' w) \<and>
     wa_records (share_canonical_chain_headers st' w) = wa_records w \<and>
     wd_accepted (wa_db (share_canonical_chain_headers st' w)) = wd_accepted (wa_db w)"
    by (simp add: share_canonical_chain_headers_def)
qed

lemma wallet_reopened:
  assumes "account_in_order C uuid d st a w"
  obtains w' where "wallet_open C a g (wa_db w) (wa_drawn w) = (Inr (), w')" "account_in_order C uuid d st a w'" "wa_records w' = wa_records w"
    "wa_db w' = wa_db w"
proof -
  have w: "wa_address w = a" "list_value_records C a (wa_db w) = Inr (wa_records w)"
    using assms by (auto simp: account_in_order_def wallet_ok_def)
  let ?w = "w\<lparr>wa_genesis_hash := g, wa_checkpoints := db_list_checkpoints a (wa_db w)\<rparr>"
  have "wallet_open C a g (wa_db w) (wa_drawn w) = (Inr (), ?w)"
    using w by (simp add: wallet_open_def reload_state_def)
  moreover have "account_in_order C uuid d st a ?w"
    using assms history_same [of ?w w] in_step_cong [of ?w w C st] w(1)
    by (simp add: account_in_order_def wallet_ok_def wallet_pending_bundles_def)
  ultimately show ?thesis using that by simp
qed

subsection \<open>Opening a session\<close>

lemma ingested:
  assumes "\<And>r g. r \<in> set rs \<Longrightarrow> w_anchor (lvr_witness r) = GenesisAnchor g \<Longrightarrow> vr_ok (ValueRange (ga_value_begin g) (ga_value_end g))"
  shows "\<exists>rt'. ingest_wallet_genesis_allocations rs rt = (Inr (), rt') \<and> rt_chain rt' = rt_chain rt \<and> rt_wallets rt' = rt_wallets rt \<and>
    rt_auto rt' = rt_auto rt \<and> rt_auto_confirm rt' = rt_auto_confirm rt \<and> allocated (rt_allocations rt) \<subseteq> allocated (rt_allocations rt')"
  using assms
proof (induction rs arbitrary: rt)
  case (Cons r rs)
  have IH: "\<exists>rt'. ingest_wallet_genesis_allocations rs rt = (Inr (), rt') \<and> rt_chain rt' = rt_chain rt \<and> rt_wallets rt' = rt_wallets rt \<and>
    rt_auto rt' = rt_auto rt \<and> rt_auto_confirm rt' = rt_auto_confirm rt \<and> allocated (rt_allocations rt) \<subseteq> allocated (rt_allocations rt')" for rt
    by (rule Cons.IH, rule Cons.prems) simp_all
  show ?case
  proof (cases "w_anchor (lvr_witness r)")
    case (GenesisAnchor g)
    have v: "make_value_range (ga_value_begin g) (ga_value_end g) = Inr (ValueRange (ga_value_begin g) (ga_value_end g))"
      using Cons.prems [OF _ GenesisAnchor] by (simp add: make_value_range_Inr)
    let ?rt = "register_genesis_allocation (ga_owner g) (ValueRange (ga_value_begin g) (ga_value_end g)) rt"
    have "rt_wallets ?rt = rt_wallets rt" "rt_auto ?rt = rt_auto rt" "rt_auto_confirm ?rt = rt_auto_confirm rt" "rt_chain ?rt = rt_chain rt"
      "allocated (rt_allocations rt) \<subseteq> allocated (rt_allocations ?rt)"
      by (simp_all add: register_genesis_allocation_def Let_def) (auto simp: allocated_def dict_get_default_def dict_simps split: option.splits)
    then show ?thesis using IH [of ?rt] by (simp add: GenesisAnchor v) blast
  qed (use IH in simp_all)
qed simp

lemma registered:
  assumes "account_in_order C uuid d (rt_chain rt) a w"
  obtains rt' w' where "register_wallet w (Some True) rt = (Inr (), rt')" "rt_chain rt' = rt_chain rt" "payer_ready C uuid a w' rt'"
    "account_in_order C uuid d (rt_chain rt) a w'" "wa_records w' = wa_records w" "allocated (rt_allocations rt) \<subseteq> allocated (rt_allocations rt')"
    "wd_accepted (wa_db w') = wd_accepted (wa_db w)"
proof -
  let ?rt = "rt\<lparr>rt_wallets := dict_set a w (rt_wallets rt), rt_auto_confirm := dict_set a True (rt_auto_confirm rt)\<rparr>"
  have w: "wa_address w = a" using assms by (simp add: account_in_order_def)
  have anchors: "vr_ok (ValueRange (ga_value_begin g) (ga_value_end g))" if "r \<in> set (wa_records w)" "w_anchor (lvr_witness r) = GenesisAnchor g" for r g
    using assms that by (auto simp: account_in_order_def keeps_history_def held_def sent_def rooted_def split: if_splits)
  obtain rt1 where rt1: "ingest_wallet_genesis_allocations (wa_records w) ?rt = (Inr (), rt1)" "rt_chain rt1 = rt_chain rt"
      "rt_wallets rt1 = rt_wallets ?rt" "rt_auto_confirm rt1 = rt_auto_confirm ?rt" "allocated (rt_allocations rt) \<subseteq> allocated (rt_allocations rt1)"
    using ingested [of "wa_records w" ?rt] anchors by auto
  let ?w = "share_canonical_chain_headers (rt_chain rt) w"
  note kept = in_order_headers [OF assms, of "rt_chain rt"]
  have "register_wallet w (Some True) rt = (Inr (), set_wallet a ?w rt1)"
    using rt1(1,2) w by (simp add: register_wallet_def list_records_def)
  moreover have "payer_ready C uuid a ?w (set_wallet a ?w rt1)"
    using kept rt1(2,4) by (simp add: payer_ready_def account_in_order_def dict_get_default_def dict_simps)
  ultimately show ?thesis using that kept rt1(2,5) by simp
qed

lemma reopened_stored:
  assumes "stored C chain_id n g node" "node_chain node' = (node_chain node)\<lparr>cs_pool := empty_pool chain_id\<rparr>"
    "cn_store node' = cn_store node" "cn_genesis node' = g"
  shows "stored C chain_id n g node'"
proof (rule stored_same_chain [OF assms(1,2) _ assms(3)])
  have run: "run_ok C g (node_chain node)" and g: "cn_genesis node = g" using assms(1) by (simp_all add: stored_def Let_def)
  have "bp_pending (empty_pool chain_id) = []" by (simp add: empty_pool_def bundle_pool_new_def)
  moreover have "chain_ok C (node_chain node)" using run by (simp add: run_ok_def)
  ultimately have "chain_ok C (node_chain node')"
    using pool_new_ok [of C chain_id 32768 128 64] unfolding assms(2)
    by (simp add: chain_ok_def empty_pool_def [symmetric] numbers_ok_def pending_next_def)
  then show "run_ok C g (node_chain node')" using run by (simp add: run_ok_def assms(2) confirmed_seq_def)
  show "cn_genesis node' = cn_genesis node" using assms(4) g by simp
qed

lemma session_opens:
  assumes inv: "stored C (an_chain_id acct) 32 g node" and d: "list_genesis_allocations (cn_store node) = Inr d"
    and w: "account_in_order C uuid d (node_chain node) (an_address acct) w"
  obtains s w' where "session_open C acct g True (wa_db w) (wa_drawn w) (cn_store node) m = Inr s"
    "as_account s = attach_consensus acct" "as_mailbox s = m" "stored C (an_chain_id acct) 32 g (as_node s)" "cn_store (as_node s) = cn_store node"
    "node_chain (as_node s) = (node_chain node)\<lparr>cs_pool := empty_pool (an_chain_id acct)\<rparr>"
    "payer_ready C uuid (an_address acct) w' (cn_runtime (as_node s))" "wa_records w' = wa_records w"
    "account_in_order C uuid d (node_chain (as_node s)) (an_address acct) w'"
    "allocated d \<subseteq> allocated (rt_allocations (cn_runtime (as_node s)))" "wd_accepted (wa_db w') = wd_accepted (wa_db w)"
proof -
  let ?a = "an_address acct"
  obtain w0 where w0: "wallet_open C ?a g (wa_db w) (wa_drawn w) = (Inr (), w0)" "account_in_order C uuid d (node_chain node) ?a w0"
      "wa_records w0 = wa_records w" "wa_db w0 = wa_db w" by (rule wallet_reopened [OF w])
  obtain node0 where node0: "node_open C (cn_store node) (an_chain_id acct) 32 True g = Inr node0" "cn_store node0 = cn_store node"
      "node_chain node0 = (node_chain node)\<lparr>cs_pool := empty_pool (an_chain_id acct)\<rparr>" "cn_genesis node0 = g"
      "allocated (rt_allocations (cn_runtime node0)) = set (ns_allocations (cn_store node))"
    by (rule opened [OF inv])
  have "account_in_order C uuid d (rt_chain (cn_runtime node0)) ?a w0"
    by (rule in_order_later [OF w0(2)]) (use node0(3) in \<open>simp_all add: node_chain_def\<close>)
  then obtain rt w1 where rt: "register_wallet w0 (Some True) (cn_runtime node0) = (Inr (), rt)" "rt_chain rt = rt_chain (cn_runtime node0)"
      "payer_ready C uuid ?a w1 rt" "account_in_order C uuid d (rt_chain (cn_runtime node0)) ?a w1" "wa_records w1 = wa_records w0"
      "allocated (rt_allocations (cn_runtime node0)) \<subseteq> allocated (rt_allocations rt)" "wd_accepted (wa_db w1) = wd_accepted (wa_db w0)"
    by (rule registered)
  let ?node = "node0\<lparr>cn_runtime := rt\<rparr>"
  have chain: "node_chain ?node = (node_chain node)\<lparr>cs_pool := empty_pool (an_chain_id acct)\<rparr>"
    using rt(2) node0(3) by (simp add: node_chain_def)
  have "allocated d = set (ns_allocations (cn_store node))"
    using grouped_allocated [OF d [unfolded list_genesis_allocations_def]] by simp
  then have "allocated d \<subseteq> allocated (rt_allocations rt)" using rt(6) node0(5) by simp
  moreover have "stored C (an_chain_id acct) 32 g ?node"
    by (rule reopened_stored [OF inv chain]) (simp_all add: node0)
  moreover have "session_open C acct g True (wa_db w) (wa_drawn w) (cn_store node) m =
      Inr \<lparr>as_account = attach_consensus acct, as_node = ?node, as_mailbox = m\<rparr>"
    by (simp add: session_open_def w0(1) node0(1) node_register_wallet_def rt(1))
  moreover have "account_in_order C uuid d (node_chain ?node) ?a w1" using rt(2,4) by (simp add: node_chain_def)
  ultimately show ?thesis using that chain rt(3,5,7) w0(3,4) node0(2) by simp
qed

subsection \<open>Paying\<close>

lemma node_produces_like_runtime:
  assumes "node_produce_block C uuid ts sg x limit node = (Inr result, node')"
  shows "rt_produce_block C uuid ts sg x limit (cn_runtime node) = (Inr result, cn_runtime node')"
  using assms
  by (auto simp: node_produce_block_def rt_produce_block_def node_settle_def node_chain_def Let_def split: if_splits sum.splits prod.splits)

lemma submitted_alone:
  assumes "pool_ok C (cs_pool (rt_chain rt))" "bp_pending (cs_pool (rt_chain rt)) = []"
    "rt_submit_bundle C sub rt = (Inr receipt, rt1)"
  shows "pool_snapshot C (cs_pool (rt_chain rt1)) None = [sub]" "bp_pending (cs_pool (rt_chain rt1)) = [(sc_sender (sub_sidecar sub), sub)]"
proof -
  obtain st s where st: "submit_bundle C (rt_chain rt) sub = Inr (st, s)" "rt1 = rt\<lparr>rt_chain := st\<rparr>"
    using assms(3) by (auto simp: rt_submit_bundle_def split: sum.splits)
  obtain seq pool where p: "pool_submit C (cs_pool (rt_chain rt)) sub (cs_height (rt_chain rt)) seq = Inr (pool, s)"
      "st = (rt_chain rt)\<lparr>cs_pool := pool\<rparr>"
    using st(1) by (auto simp: submit_bundle_def res_bind_Inr map_err_Inr)
  note spec = pool_submit_spec [OF assms(1) p(1)]
  have s: "s = sc_sender (sub_sidecar sub)" using spec by (simp add: admissible_def)
  have only: "dict_get (bp_pending pool) k = (if k = s then Some sub else None)" for k using spec assms(2) by simp
  have "dict_ok (bp_pending pool)" using spec by (simp add: pool_ok_def)
  then have "bp_pending pool = [(s, sub)]"
  proof (cases "bp_pending pool")
    case (Cons e es)
    obtain k y where e: "e = (k, y)" by (cases e)
    have k: "k = s" "y = sub" using only [of k] by (auto simp: Cons e split: if_splits)
    have "es = []"
    proof (cases es)
      case (Cons e' es')
      obtain k' y' where e': "e' = (k', y')" by (cases e')
      have "k' \<noteq> s" using \<open>dict_ok (bp_pending pool)\<close> by (auto simp: \<open>bp_pending pool = e # es\<close> Cons e e' k dict_ok_def)
      then show ?thesis using only [of k'] by (simp add: \<open>bp_pending pool = e # es\<close> Cons e e' k)
    qed
    then show ?thesis by (simp add: Cons e k)
  qed (use only [of s] in simp)
  then show "bp_pending (cs_pool (rt_chain rt1)) = [(sc_sender (sub_sidecar sub), sub)]"
    "pool_snapshot C (cs_pool (rt_chain rt1)) None = [sub]" by (simp_all add: st(2) p(2) s pool_snapshot_def)
qed

lemma delivered_receipts: "(a, d) \<in> set (fst (deliver_receipts C uuid rs rt)) \<Longrightarrow> rd_receipt d \<noteq> None"
proof (induction rs arbitrary: rt)
  case (Cons x rs)
  have "rd_receipt (fst (deliver_receipt C uuid a r rt)) \<noteq> None" for a r
    by (auto simp: deliver_receipt_def apply_receipt_to_wallet_def split: option.split prod.split sum.split)
  then show ?case using Cons by (cases x) (auto simp: split_def Let_def)
qed simp

lemma produced_receipts:
  assumes "rt_produce_block C uuid ts sg x limit rt = (Inr result, rt')" "dict_get (bre_deliveries result) a = Some d"
  shows "rd_receipt d \<noteq> None"
proof -
  obtain b rs st where "settle_block C uuid b rs (rt\<lparr>rt_chain := st\<rparr>) = (result, rt')"
    using assms(1) by (auto simp: rt_produce_block_def split: if_splits sum.splits prod.splits)
  then have "bre_deliveries result = fst (deliver_receipts C uuid rs (share_block_with_wallets b (rt\<lparr>rt_chain := st\<rparr>)))"
    by (auto simp: settle_block_def Let_def split: prod.splits)
  then show ?thesis using delivered_receipts [OF map_of_SomeD] assms(2) by metis
qed

lemma from_node_Inr [simp]: "from_node r = (Inr y, node) \<longleftrightarrow> r = (Inr y, node)"
  by (cases r) (auto simp: from_node_def map_sum_id_Inr)

lemma on_wallet_Inr:
  "on_wallet acct f node = (Inr y, node') \<longleftrightarrow> (\<exists>w w'. dict_get (rt_wallets (cn_runtime node)) (an_address acct) = Some w \<and>
     f w = (Inr y, w') \<and> node' = node\<lparr>cn_runtime := set_wallet (an_address acct) w' (cn_runtime node)\<rparr>)"
  by (auto simp: on_wallet_def map_sum_id_Inr split: option.split prod.split)

lemma built_leaves:
  assumes C: "digests32 C" and ok: "chain_ok C st" and ts: "0 \<le> ts" and keys: "inj_on (compute_addr_key C) (accounts st)"
    and only: "pool_snapshot C (cs_pool st) None = [sub]"
    and b: "build_block C st ts sg x None = Inr (b, rs, st')" and c: "c \<noteq> sc_sender (sub_sidecar sub)"
  shows "dict_get (cs_leaves st') c = dict_get (cs_leaves st) c"
proof -
  have st: "tree_ok C (cs_tree st)" "numbers_ok st" using ok by (simp_all add: chain_ok_def)
  obtain cache where "st' = applied_state C st (built_block C st [sub] ts sg x) cache"
    using b execute_submissions_applied [OF C st ts snapshot_keys [OF ok keys, of None], of sg x]
    by (simp add: build_block_def only)
  moreover have "entry_accounts (built_entries C st [sub] ts sg x) = {sc_sender (sub_sidecar sub)}"
    using built_accounts [of C st "[sub]"] by simp
  ultimately show ?thesis using c by (simp add: applied_state_def put_leaves_other)
qed

lemma account_pays:
  assumes C: "digests32 C" and uuid: "inj (uuid a)" and inv: "stored C chain_id n g node"
    and ready: "payer_ready C uuid a w (cn_runtime node)" and empty: "bp_pending (cs_pool (node_chain node)) = []"
    and hist: "keeps_history C ctx (node_chain node) w" and trusted: "vc_trusted_checkpoints ctx = []"
    and acct: "an_address acct = a" "an_attached acct" and ts: "0 \<le> ts"
    and submit: "account_submit_payment C uuid acct b amount fee expiry nonce now node = (Inr payment, node1)"
    and expiry: "cs_height (node_chain node) < expiry" and keys: "inj_on (compute_addr_key C) (accounts (node_chain node1))"
    and fresh: "\<And>b rs chain. build_block C (node_chain node1) ts [] [] None = Inr (b, rs, chain) \<Longrightarrow>
      blk_hash b \<notin> blk_hash ` set (cs_blocks (node_chain node1))"
  obtains result node2 d w2 where "node_produce_block C uuid ts [] [] None node1 = (Inr result, node2)"
    "dict_get (bre_deliveries result) a = Some d" "rd_applied d" "rd_receipt d \<noteq> None" "payer_ready C uuid a w2 (cn_runtime node2)"
    "keeps_history C ctx (node_chain node2) w2" "stored C chain_id n g node2" "total_balance w2 = total_balance w - amount"
    "ns_allocations (cn_store node2) = ns_allocations (cn_store node)" "cs_height (node_chain node2) = cs_height (node_chain node) + 1"
    "\<forall>c. c \<noteq> a \<longrightarrow> dict_get (cs_leaves (node_chain node2)) c = dict_get (cs_leaves (node_chain node)) c"
    "\<forall>v\<in>set (tx_values (sp_tx payment)). \<exists>r\<in>set (wa_records w2). lvr_status r = ARCHIVED \<and> lvr_value r = v \<and>
       count_list (sc_txs (cu_sidecar (hd (w_chain (lvr_witness r))))) (sp_tx payment) = 1"
    "\<forall>b. new_owner b w \<longrightarrow> new_owner b w2"
    "units (live_values (wa_records w)) = units (live_values (wa_records w2)) \<union> units (tx_values (sp_tx payment))"
    "tx_sender (sp_tx payment) = a" "tx_recipient (sp_tx payment) = b" "offchain_tx_ok (sp_tx payment)"
    "total_size (tx_values (sp_tx payment)) = amount"
proof -
  let ?rt = "cn_runtime node" and ?p = "payment_params acct fee expiry nonce now"
  have w: "dict_get (rt_wallets ?rt) a = Some w" "wa_address w = a" "wallet_ok C (uuid a) w" using ready by (simp_all add: payer_ready_def)
  obtain submission bc tx w1 receipt where paid: "build_payment_bundle C (uuid a) b amount ?p now None [] w = (Inr (submission, bc, tx), w1)"
      and sub: "node_submit_bundle C submission (node\<lparr>cn_runtime := set_wallet a w1 ?rt\<rparr>) = (Inr receipt, node1)"
      and payment: "sp_tx payment = tx"
    using submit w(1)
    by (auto simp: account_submit_payment_def acct on_wallet_Inr st_bind_Inr)
  obtain rt1 where rt1: "rt_submit_bundle C submission (set_wallet a w1 ?rt) = (Inr receipt, rt1)" "node1 = node\<lparr>cn_runtime := rt1\<rparr>"
    using sub by (auto simp: node_submit_bundle_def split: prod.splits sum.splits)
  have run: "run_ok C g (node_chain node)" using inv by (simp add: stored_def Let_def)
  then have chain: "chain_ok C (rt_chain ?rt)" by (simp add: run_ok_def node_chain_def)
  have step1: "node_step C uuid node (node\<lparr>cn_runtime := set_wallet a w1 ?rt\<rparr>)" by (rule node_step.wallet)
  have "node_step C uuid (node\<lparr>cn_runtime := set_wallet a w1 ?rt\<rparr>) node1"
    using node_op.submit [of C uuid "node\<lparr>cn_runtime := set_wallet a w1 ?rt\<rparr>" submission] sub by (simp add: node_step.operation)
  then have inv1: "stored C chain_id n g node1" using stored_step [OF _ C stored_step [OF step1 C inv]] by blast
  have "pool_ok C (cs_pool (rt_chain (set_wallet a w1 ?rt)))" using chain by (simp add: chain_ok_def)
  note alone = submitted_alone [OF this _ rt1(1)]
  have only: "pool_snapshot C (cs_pool (node_chain node1)) None = [submission]"
    using alone(1) empty by (simp add: rt1(2) node_chain_def)
  obtain n' where built: "build_bundle C (uuid a) [tx] ?p n' w = (Inr (submission, bc), w1)" using payment_built(6) [OF w(3) paid] by blast
  obtain split vs where prep: "prepare_bundle C (wa_address w) [tx] ?p n' vs split = Inr (submission, bc)" by (rule built_prepared [OF built])
  have sender: "sc_sender (sub_sidecar submission) = a" by (rule prepared_submission [OF prep]) (simp add: w(2))
  have env: "env_expiry_height (sub_envelope submission) = expiry"
    by (rule prepared_submission [OF prep]) (simp add: with_signature_def payment_params_def)
  have "chain_ok C (rt_chain (set_wallet a w1 ?rt))" using chain by simp
  from submitted(3) [OF C this rt1(1)] obtain pool where pool: "rt1 = (set_wallet a w1 ?rt)\<lparr>rt_chain := (rt_chain ?rt)\<lparr>cs_pool := pool\<rparr>\<rparr>" by auto
  have same: "cs_height (node_chain node1) = cs_height (node_chain node)" "cs_leaves (node_chain node1) = cs_leaves (node_chain node)"
    by (simp_all add: rt1(2) pool node_chain_def)
  obtain bl rs st2 result node2 batch where made: "build_block C (node_chain node1) ts [] [] None = Inr (bl, rs, st2)"
      "node_produce_block C uuid ts [] [] None node1 = (Inr result, node2)" "node_chain node2 = st2"
      "save_applied_block C bl rs 2 chain_id (max 1 n) g batch (cn_store node1) = Inr (cn_store node2)"
    by (rule produced [OF C inv1 ts keys, of None "[]" "[]" uuid]) (use only fresh in simp_all)
  have unexpired: "\<forall>s\<in>set (pool_snapshot C (cs_pool (node_chain node1)) None). cs_height (node_chain node1) < env_expiry_height (sub_envelope s)"
    using expiry by (simp add: only env same)
  have "node_step C uuid node1 node2" by (intro node_step.operation node_op.produce [OF made(2) ts keys unexpired])
  then have inv2: "stored C chain_id n g node2" using stored_step [OF _ C inv1] by blast
  have keys': "inj_on (compute_addr_key C) (accounts (rt_chain rt1))" and hist': "keeps_history C ctx (rt_chain ?rt) w"
    using keys hist by (simp_all add: rt1(2) node_chain_def)
  obtain result' rt2 d w2 where r: "rt_produce_block C uuid ts [] [] None rt1 = (Inr result', rt2)"
      "dict_get (bre_deliveries result') a = Some d" "rd_applied d" "payer_ready C uuid a w2 rt2" "total_balance w2 = total_balance w - amount"
      "keeps_history C ctx (rt_chain rt2) w2" "cs_height (rt_chain rt2) = cs_height (rt_chain ?rt) + 1"
      "\<forall>v\<in>set (tx_values tx). \<exists>r\<in>set (wa_records w2). lvr_status r = ARCHIVED \<and> lvr_value r = v \<and>
         count_list (sc_txs (cu_sidecar (hd (w_chain (lvr_witness r))))) tx = 1"
      "\<forall>b. new_owner b w \<longrightarrow> new_owner b w2"
      "units (live_values (wa_records w)) = units (live_values (wa_records w2)) \<union> units (tx_values tx)"
    by (rule payment_history [OF C chain uuid ready ts paid rt1(1) keys' hist' trusted, of "[]" "[]"]) blast
  have eq: "result' = result" "rt2 = cn_runtime node2"
    using node_produces_like_runtime [OF made(2)] r(1) by (simp_all add: rt1(2))
  have ok1: "chain_ok C (node_chain node1)" using inv1 by (simp add: stored_def Let_def run_ok_def)
  have "dict_get (cs_leaves (node_chain node2)) c = dict_get (cs_leaves (node_chain node)) c" if "c \<noteq> a" for c
    using built_leaves [OF C ok1 ts keys only made(1), of c] that by (simp add: same made(3) sender)
  moreover have "ns_allocations (cn_store node2) = ns_allocations (cn_store node)"
    using saved_block(2) [OF made(4)] by (simp add: rt1(2))
  ultimately show ?thesis
    using that [OF made(2)] r inv2 produced_receipts [OF r(1,2)] payment_built [OF w(3) paid] payment_tx [OF w(3) paid] w(2)
    by (simp add: eq payment node_chain_def)
qed

subsection \<open>Packages on their way\<close>

definition waiting_row :: "string \<Rightarrow> transfer_package \<Rightarrow> mailbox_row" where
  \<comment> \<open>The row of a package that its sender has put into the mailbox\<close>
  "waiting_row sender_addr p = \<lparr>mr_sender = sender_addr, mr_recipient = tx_recipient (tp_target_tx p),
     mr_created_at = tx_time (tp_target_tx p), mr_claimed_at = None, mr_package = p\<rparr>"

lemma queued:
  assumes "\<And>v. v \<in> set vs \<Longrightarrow> account_export_package C (as_account s) tx v (as_node s) = Inr (P v) \<and> tp_target_tx (P v) = tx"
    "distinct (map (\<lambda>v. transfer_package_hash C (P v)) vs)" "\<forall>v\<in>set vs. transfer_package_hash C (P v) \<notin> fst ` set (as_mailbox s)"
  shows "queue_packages C tx vs s = (Inr (), s\<lparr>as_mailbox := as_mailbox s @
     map (\<lambda>v. (transfer_package_hash C (P v), waiting_row (session_address s) (P v))) vs\<rparr>)"
  using assms
proof (induction vs arbitrary: s)
  case (Cons v vs)
  let ?h = "\<lambda>v. transfer_package_hash C (P v)" and ?row = "\<lambda>v. waiting_row (session_address s) (P v)"
  have export: "account_export_package C (as_account s) tx v (as_node s) = Inr (P v)" "tp_target_tx (P v) = tx"
    using Cons.prems(1) [of v] by simp_all
  have new: "?h v \<notin> fst ` set (as_mailbox s)" using Cons.prems(3) by simp
  then have "dict_get (as_mailbox s) (?h v) = None" by (simp add: map_of_eq_None_iff)
  then have put: "snd (enqueue_package C (session_address s) (tx_recipient tx) (P v) (tx_time tx) (as_mailbox s)) =
      as_mailbox s @ [(?h v, ?row v)]"
    using update_absent [OF new] by (simp add: enqueue_package_def waiting_row_def export(2) Let_def)
  let ?s = "s\<lparr>as_mailbox := as_mailbox s @ [(?h v, ?row v)]\<rparr>"
  have "queue_packages C tx vs ?s = (Inr (), ?s\<lparr>as_mailbox := as_mailbox ?s @ map (\<lambda>v. (?h v, waiting_row (session_address ?s) (P v))) vs\<rparr>)"
  proof (rule Cons.IH)
    have "?h u \<noteq> ?h v" if "u \<in> set vs" for u using Cons.prems(2) imageI [OF that, of ?h] by auto
    then show "\<forall>v\<in>set vs. ?h v \<notin> fst ` set (as_mailbox ?s)" using Cons.prems(3) by simp
  qed (use Cons.prems(1,2) in simp_all)
  then show ?case by (simp add: export(1) put) (simp add: session_address_def)
qed simp

lemma listed_alone:
  assumes "waiting_rows b m = []" "\<forall>p\<in>set ps. tx_recipient (tp_target_tx p) = b"
  shows "mset (list_pending_packages b (m @ map (\<lambda>p. (transfer_package_hash C p, waiting_row a p)) ps)) =
    mset (map (\<lambda>p. (transfer_package_hash C p, a, tx_time (tp_target_tx p), p)) ps)"
proof -
  have rows: "waiting_rows b (map (\<lambda>p. (transfer_package_hash C p, waiting_row a p)) ps) =
      map (\<lambda>p. (transfer_package_hash C p, waiting_row a p)) ps"
    using assms(2) by (simp add: waiting_rows_def waiting_row_def filter_id_conv)
  have "waiting_rows b (m @ m') = waiting_rows b m' " for m' using assms(1) by (simp add: waiting_rows_def)
  then show ?thesis by (simp add: list_pending_packages_def rows comp_def) (simp add: waiting_row_def image_mset.compositionality comp_def)
qed

definition acceptable :: "crypto \<Rightarrow> (string, value_range list) dict \<Rightarrow> chain_state \<Rightarrow> string \<Rightarrow> transfer_package \<Rightarrow> bool" where
  \<comment> \<open>The package proves its value to the recipient, from the allocations in the store and nothing that is not on the chain.\<close>
  "acceptable C d st b p \<longleftrightarrow> provenance C (ledger_context d) (tp_target_value p) (tp_target_tx p) (tp_witness p) \<and>
     witness_sidecars_ok (tp_witness p) \<and> full_witness (tp_witness p) \<and> vr_ok (tp_target_value p) \<and>
     tx_recipient (tp_target_tx p) = b \<and> hl_height (rc_header (cu_receipt (hd (w_chain (tp_witness p))))) \<le> cs_height st"

definition receiving ::
    "crypto \<Rightarrow> (string \<Rightarrow> nat \<Rightarrow> string) \<Rightarrow> (string, value_range list) dict \<Rightarrow> app_session \<Rightarrow> wallet \<Rightarrow> bool" where
  \<comment> \<open>The session's account is in order and its node knows the allocations.\<close>
  "receiving C uuid d s w \<longleftrightarrow> an_attached (as_account s) \<and>
     dict_get (rt_wallets (cn_runtime (as_node s))) (session_address s) = Some w \<and>
     account_in_order C uuid d (node_chain (as_node s)) (session_address s) w \<and>
     allocated d \<subseteq> allocated (rt_allocations (cn_runtime (as_node s)))"

definition with_wallet :: "wallet \<Rightarrow> app_session \<Rightarrow> app_session" where
  "with_wallet w s = s\<lparr>as_node := (as_node s)\<lparr>cn_runtime := set_wallet (session_address s) w (cn_runtime (as_node s))\<rparr>\<rparr>"

lemma with_wallet_simps [simp]:
  "as_account (with_wallet w s) = as_account s" "as_mailbox (with_wallet w s) = as_mailbox s" "session_address (with_wallet w s) = session_address s"
  "node_chain (as_node (with_wallet w s)) = node_chain (as_node s)" "cn_store (as_node (with_wallet w s)) = cn_store (as_node s)"
  "rt_allocations (cn_runtime (as_node (with_wallet w s))) = rt_allocations (cn_runtime (as_node s))"
  "dict_get (rt_wallets (cn_runtime (as_node (with_wallet w s)))) (session_address s) = Some w"
  by (simp_all add: with_wallet_def session_address_def node_chain_def set_wallet_def dict_simps)

lemma received_one:
  assumes C: "digests32 C" and uuid: "inj (uuid (session_address s))" and s: "receiving C uuid d s w"
    and p: "acceptable C d (node_chain (as_node s)) (session_address s) p"
    and fresh: "\<not> has_accepted_transfer_package (session_address s) (transfer_package_hash C p) (wa_db w)"
    and apart: "units (live_values (wa_records w)) \<inter> vr_set (tp_target_value p) = {}"
  obtains delivery w' where
    "on_node (\<lambda>acct. account_receive_package C uuid acct p [] now) s = (Inr delivery, with_wallet w' s)"
    "td_accepted delivery" "td_record delivery \<noteq> None" "receiving C uuid d (with_wallet w' s) w'"
    "mset (live_values (wa_records w')) = add_mset (tp_target_value p) (mset (live_values (wa_records w)))"
    "\<forall>h. has_accepted_transfer_package (session_address s) h (wa_db w') \<longleftrightarrow>
       h = transfer_package_hash C p \<or> has_accepted_transfer_package (session_address s) h (wa_db w)"
proof -
  let ?b = "session_address s" and ?rt = "cn_runtime (as_node s)"
  obtain tx v x where px: "p = \<lparr>tp_target_tx = tx, tp_target_value = v, tp_witness = x\<rparr>" by (cases p)
  have w: "dict_get (rt_wallets ?rt) ?b = Some w" "wa_address w = ?b" "?b \<noteq> []" "wallet_ok C (uuid ?b) w"
      "in_step C (node_chain (as_node s)) w" "keeps_history C (ledger_context d) (node_chain (as_node s)) w" "an_attached (as_account s)"
      "allocated d \<subseteq> allocated (rt_allocations ?rt)"
    using s by (simp_all add: receiving_def account_in_order_def)
  have x: "provenance C (ledger_context d) v tx x" "witness_sidecars_ok x" "full_witness x" "vr_ok v" "tx_recipient tx = ?b"
      "hl_height (rc_header (cu_receipt (hd (w_chain x)))) \<le> cs_height (node_chain (as_node s))"
    using p by (simp_all add: acceptable_def px)
  have prov: "provenance C (ledger_context (rt_allocations ?rt)) v tx x" by (rule provenance_more [OF x(1) w(8)])
  have "\<not> vr_intersects u v" if "u \<in> set (live_values (wa_records w))" for u
  proof -
    have "vr_ok u" using that w(4) by (auto simp: wallet_ok_def records_ok_def list_all_iff live_values_def live_def)
    moreover have "vr_set u \<inter> vr_set v = {}" using apart that by (auto simp: units_def px)
    ultimately show ?thesis using vr_intersects_iff x(4) by blast
  qed
  then have apart': "\<forall>u\<in>set (live_values (wa_records w)). \<not> vr_intersects u v" by blast
  have to: "tx_recipient tx = wa_address w" "wa_address w \<noteq> []" using x(5) w(2,3) by simp_all
  have trusted: "vc_trusted_checkpoints (ledger_context (rt_allocations ?rt)) = []" by (simp add: ledger_context_def)
  have fresh': "\<not> has_accepted_transfer_package (wa_address w)
      (transfer_package_hash C \<lparr>tp_target_tx = tx, tp_target_value = v, tp_witness = x\<rparr>) (wa_db w)" using fresh by (simp add: px w(2))
  obtain rec w' where w': "receive_transfer C (uuid ?b) (ledger_context (rt_allocations ?rt)) p now w = (Inr rec, w')"
    "wallet_ok C (uuid ?b) w'" "wa_address w' = ?b" "mset (live_values (wa_records w')) = add_mset v (mset (live_values (wa_records w)))"
    "\<forall>h. has_accepted_transfer_package ?b h (wa_db w') \<longleftrightarrow>
       h = transfer_package_hash C p \<or> has_accepted_transfer_package ?b h (wa_db w)"
    "in_step C (node_chain (as_node s)) w'" "keeps_history C (ledger_context d) (node_chain (as_node s)) w'"
    by (rule credited [OF C uuid w(4) trusted prov x(2-4) to fresh' apart', of now]) (use x(1,6) w(2,5,6) px in auto)
  have "trusted_checkpoints_for_witness C w (tp_witness p) = []"
    using provenance_no_checkpoint(1) [OF prov trusted] by (simp add: px)
  then have "on_node (\<lambda>acct. account_receive_package C uuid acct p [] now) s = (Inr \<lparr>td_recipient = ?b, td_package = p, td_accepted = True,
      td_record = Some rec, td_error = None\<rparr>, with_wallet w' s)"
    using w'(1) w(1-3,7) by (simp add: on_node_def account_receive_package_def node_deliver_transfer_package_def deliver_transfer_package_def
        build_validation_context_def ledger_context_def session_address_def with_wallet_def Let_def)
  moreover have "receiving C uuid d (with_wallet w' s) w'"
    using w(3,7,8) w'(2,3,6,7) by (simp add: receiving_def account_in_order_def)
  ultimately show ?thesis using that w'(4,5) by (simp add: px)
qed

lemma received_all:
  assumes C: "digests32 C" and uuid: "inj (uuid b)" and s: "receiving C uuid d s w" "session_address s = b"
    and L: "\<forall>(h, sd, t, p)\<in>set L. h = transfer_package_hash C p \<and> acceptable C d (node_chain (as_node s)) b p \<and>
        \<not> has_accepted_transfer_package b h (wa_db w) \<and> units (live_values (wa_records w)) \<inter> vr_set (tp_target_value p) = {}"
      "distinct (map fst L)" "sorted_wrt (\<lambda>(_, _, _, p) (_, _, _, q). vr_set (tp_target_value p) \<inter> vr_set (tp_target_value q) = {}) L"
  shows "\<exists>s' w'. receive_each C uuid now L s = (Inr (map (\<lambda>(h, sd, _, p). \<lparr>ev_package_hash = h, ev_sender = sd, ev_recipient = b,
        ev_tx = tp_target_tx p, ev_value = tp_target_value p\<rparr>) L), s') \<and> receiving C uuid d s' w' \<and> session_address s' = b \<and>
      node_chain (as_node s') = node_chain (as_node s) \<and> cn_store (as_node s') = cn_store (as_node s) \<and>
      (stored C chain_id n g (as_node s) \<longrightarrow> stored C chain_id n g (as_node s')) \<and>
      as_mailbox s' = fold (\<lambda>e. mark_claimed (fst e) now) L (as_mailbox s) \<and>
      mset (live_values (wa_records w')) = mset (live_values (wa_records w)) + mset (map (\<lambda>(_, _, _, p). tp_target_value p) L)"
  using s L
proof (induction L arbitrary: s w)
  case (Cons e L)
  obtain h sd t p where e: "e = (h, sd, t, p)" by (cases e)
  have b: "session_address s = b" by (rule Cons.prems(2))
  have p: "h = transfer_package_hash C p" "acceptable C d (node_chain (as_node s)) b p" "\<not> has_accepted_transfer_package b h (wa_db w)"
      "units (live_values (wa_records w)) \<inter> vr_set (tp_target_value p) = {}"
    using bspec [OF Cons.prems(3) list.set_intros(1)] unfolding e prod.case by blast+
  obtain delivery w1 where w1: "on_node (\<lambda>acct. account_receive_package C uuid acct p [] now) s = (Inr delivery, with_wallet w1 s)"
    "td_accepted delivery" "td_record delivery \<noteq> None" "receiving C uuid d (with_wallet w1 s) w1"
    "mset (live_values (wa_records w1)) = add_mset (tp_target_value p) (mset (live_values (wa_records w)))"
    "\<forall>h. has_accepted_transfer_package b h (wa_db w1) \<longleftrightarrow> h = transfer_package_hash C p \<or> has_accepted_transfer_package b h (wa_db w)"
    by (rule received_one [OF C _ Cons.prems(1), of p now]) (use uuid p b in simp_all)
  let ?s = "(with_wallet w1 s)\<lparr>as_mailbox := mark_claimed h now (as_mailbox s)\<rparr>"
  have at: "session_address ?s = b" "node_chain (as_node ?s) = node_chain (as_node s)" using b by (simp_all add: session_address_def)
  have "mset (live_values (wa_records w1)) = mset (tp_target_value p # live_values (wa_records w))" using w1(5) by simp
  from units_mset [OF this] have units: "units (live_values (wa_records w1)) = vr_set (tp_target_value p) \<union> units (live_values (wa_records w))"
    by (simp add: units_def)
  have next1: "receiving C uuid d ?s w1" using w1(4) by (simp add: receiving_def session_address_def)
  have rest: "\<forall>(h', sd', t', q)\<in>set L. h' = transfer_package_hash C q \<and> acceptable C d (node_chain (as_node ?s)) b q \<and>
      \<not> has_accepted_transfer_package b h' (wa_db w1) \<and> units (live_values (wa_records w1)) \<inter> vr_set (tp_target_value q) = {}"
  proof (intro ballI, clarify)
    fix h' sd' t' q assume q: "(h', sd', t', q) \<in> set L"
    have "h' = transfer_package_hash C q \<and> acceptable C d (node_chain (as_node s)) b q \<and> \<not> has_accepted_transfer_package b h' (wa_db w) \<and>
        units (live_values (wa_records w)) \<inter> vr_set (tp_target_value q) = {}" using Cons.prems(3) q by auto
    moreover have "h' \<noteq> h" using Cons.prems(4) q by (force simp: e)
    moreover have "vr_set (tp_target_value p) \<inter> vr_set (tp_target_value q) = {}" using Cons.prems(5) q by (fastforce simp: e)
    ultimately show "h' = transfer_package_hash C q \<and> acceptable C d (node_chain (as_node ?s)) b q \<and>
        \<not> has_accepted_transfer_package b h' (wa_db w1) \<and> units (live_values (wa_records w1)) \<inter> vr_set (tp_target_value q) = {}"
      using w1(6) p(1) by (auto simp: units at(2))
  qed
  obtain s' w' where s': "receive_each C uuid now L ?s = (Inr (map (\<lambda>(h, sd, _, p). \<lparr>ev_package_hash = h, ev_sender = sd, ev_recipient = b,
        ev_tx = tp_target_tx p, ev_value = tp_target_value p\<rparr>) L), s')" "receiving C uuid d s' w'" "session_address s' = b"
      "node_chain (as_node s') = node_chain (as_node ?s)" "cn_store (as_node s') = cn_store (as_node ?s)"
      "stored C chain_id n g (as_node ?s) \<longrightarrow> stored C chain_id n g (as_node s')"
      "as_mailbox s' = fold (\<lambda>e. mark_claimed (fst e) now) L (as_mailbox ?s)"
      "mset (live_values (wa_records w')) = mset (live_values (wa_records w1)) + mset (map (\<lambda>(_, _, _, p). tp_target_value p) L)"
    using Cons.IH [OF next1 at(1) rest] Cons.prems(4,5) by auto
  have run: "receive_each C uuid now (e # L) s = (Inr (map (\<lambda>(h, sd, _, p). \<lparr>ev_package_hash = h, ev_sender = sd, ev_recipient = b,
        ev_tx = tp_target_tx p, ev_value = tp_target_value p\<rparr>) (e # L)), s')"
    using w1(1-3) s'(1,3) by (simp add: e)
  have kept: "stored C chain_id n g (as_node s) \<longrightarrow> stored C chain_id n g (as_node s')"
    using s'(6) stored_step [OF node_step.wallet C, of chain_id n g "as_node s"] by (simp add: with_wallet_def)
  show ?case
    by (intro exI [of _ s'] exI [of _ w'] conjI run kept s'(2,3)) (use s'(4,5,7,8) w1(5) in \<open>simp_all add: e\<close>)
qed (auto simp: receiving_def)

lemma waiting_after_claims:
  assumes "\<forall>(h, row)\<in>set (waiting_rows b m). h \<in> set hs"
  shows "waiting_rows b (fold (\<lambda>h. mark_claimed h now) hs m) = []"
  using assms
proof (induction hs arbitrary: m)
  case (Cons h hs)
  have "\<forall>(k, row)\<in>set (waiting_rows b (mark_claimed h now m)). k \<in> set hs"
    using Cons.prems by (fastforce simp: waiting_rows_def mark_claimed_def split: if_splits)
  from Cons.IH [OF this] show ?case by simp
qed (fastforce simp: waiting_rows_def filter_empty_conv)

subsection \<open>The sender's session\<close>

definition packages_fresh :: "crypto \<Rightarrow> account_node \<Rightarrow> offchain_tx \<Rightarrow> consensus_node \<Rightarrow> mailbox \<Rightarrow> string \<Rightarrow> wallet_db \<Rightarrow> bool" where
  \<comment> \<open>The hashes of the packages of a transaction collide neither with each other nor with one the mailbox or the recipient has.\<close>
  "packages_fresh C acct tx node m b db \<longleftrightarrow>
     inj_on (\<lambda>v. map_sum id (transfer_package_hash C) (account_export_package C acct tx v node)) (set (tx_values tx)) \<and>
     (\<forall>v\<in>set (tx_values tx). \<forall>p. account_export_package C acct tx v node = Inr p \<longrightarrow>
        transfer_package_hash C p \<notin> fst ` set m \<and> \<not> has_accepted_transfer_package b (transfer_package_hash C p) db)"

lemma tx_values_apart: "offchain_tx_ok tx \<Longrightarrow> distinct (tx_values tx) \<and> sorted_wrt (\<lambda>v w. vr_set v \<inter> vr_set w = {}) (tx_values tx)"
proof -
  assume ok: "offchain_tx_ok tx"
  have apart: "sorted_wrt (\<lambda>v w. vr_end v < vr_begin w) (tx_values tx)" by (rule offchain_tx_ok_disjoint [OF ok])
  have "sorted_wrt (\<lambda>v w. vr_end v < vr_begin w) vs \<Longrightarrow> list_all vr_ok vs \<Longrightarrow> distinct vs" for vs
    by (induction vs) (auto simp: vr_ok_def)
  with ok apart gaps_imp_disjoint show ?thesis by (auto simp: offchain_tx_ok_def)
qed

lemma packages_exported:
  assumes hist: "keeps_history C (ledger_context d) (node_chain node) w" and ok: "wallet_ok C uuid w" and new: "new_owner (tx_recipient tx) w"
    and tx: "tx_sender tx = wa_address w" "offchain_tx_ok tx"
    and w: "dict_get (rt_wallets (cn_runtime node)) (an_address acct) = Some w"
    and gone: "\<forall>v\<in>set (tx_values tx). \<exists>r\<in>set (wa_records w). lvr_status r = ARCHIVED \<and> lvr_value r = v \<and>
       count_list (sc_txs (cu_sidecar (hd (w_chain (lvr_witness r))))) tx = 1"
  shows "\<exists>P. \<forall>v\<in>set (tx_values tx). account_export_package C acct tx v node = Inr (P v) \<and> tp_target_tx (P v) = tx \<and>
    tp_target_value (P v) = v \<and> acceptable C d (node_chain node) (tx_recipient tx) (P v)"
proof -
  have "\<exists>p. account_export_package C acct tx v node = Inr p \<and> tp_target_tx p = tx \<and> tp_target_value p = v \<and>
      acceptable C d (node_chain node) (tx_recipient tx) p" if v: "v \<in> set (tx_values tx)" for v
  proof -
    obtain r where r: "r \<in> set (wa_records w)" "lvr_status r = ARCHIVED" "lvr_value r = v"
        "count_list (sc_txs (cu_sidecar (hd (w_chain (lvr_witness r))))) tx = 1" using gone v by blast
    obtain x where x: "export_transfer_package C tx v w = Inr \<lparr>tp_target_tx = tx, tp_target_value = v, tp_witness = x\<rparr>"
      "provenance C (ledger_context d) v tx x" "witness_sidecars_ok x" "full_witness x"
      "hl_height (rc_header (cu_receipt (hd (w_chain x)))) \<le> cs_height (node_chain node)"
      by (rule sent_package [OF hist ok new tx(1) v r])
    have "vr_ok v" using tx(2) v by (simp add: offchain_tx_ok_def list_all_iff)
    then show ?thesis using x w by (simp add: account_export_package_def read_wallet_def acceptable_def)
  qed
  then show ?thesis by metis
qed

lemma payment_queued:
  assumes C: "digests32 C" and uuid: "inj (uuid a)" and inv: "stored C chain_id n g (as_node s)"
    and ready: "payer_ready C uuid a w (cn_runtime (as_node s))" and empty: "bp_pending (cs_pool (node_chain (as_node s))) = []"
    and order: "account_in_order C uuid d (node_chain (as_node s)) a w" and new: "new_owner b w"
    and acct: "session_address s = a" "an_attached (as_account s)" and ts: "0 \<le> later"
    and submit: "account_submit_payment C uuid (as_account s) b amount fee expiry nonce now (as_node s) = (Inr payment, node1)"
    and expiry: "cs_height (node_chain (as_node s)) < expiry" and keys: "inj_on (compute_addr_key C) (accounts (node_chain node1))"
    and fresh: "\<And>b rs chain. build_block C (node_chain node1) later [] [] None = Inr (b, rs, chain) \<Longrightarrow>
      blk_hash b \<notin> blk_hash ` set (cs_blocks (node_chain node1))"
    and packages: "\<And>result node2. node_produce_block C uuid later [] [] None node1 = (Inr result, node2) \<Longrightarrow>
      packages_fresh C (as_account s) (sp_tx payment) node2 (as_mailbox s) b db"
  obtains confirmed s1 w2 ps where "submit_confirmed_payment C uuid b amount expiry fee nonce now later s = (Inr confirmed, s1)"
    "as_mailbox s1 = as_mailbox s @ map (\<lambda>p. (transfer_package_hash C p, waiting_row a p)) ps"
    "map tp_target_value ps = tx_values (sp_tx payment)" "offchain_tx_ok (sp_tx payment)" "distinct (map (transfer_package_hash C) ps)"
    "\<forall>p\<in>set ps. acceptable C d (node_chain (as_node s1)) b p \<and> \<not> has_accepted_transfer_package b (transfer_package_hash C p) db"
    "stored C chain_id n g (as_node s1)" "ns_allocations (cn_store (as_node s1)) = ns_allocations (cn_store (as_node s))"
    "dict_get (rt_wallets (cn_runtime (as_node s1))) a = Some w2" "account_in_order C uuid d (node_chain (as_node s1)) a w2"
    "total_balance w2 = total_balance w - amount" "total_size (tx_values (sp_tx payment)) = amount"
    "units (live_values (wa_records w)) = units (live_values (wa_records w2)) \<union> units (tx_values (sp_tx payment))"
    "cs_height (node_chain (as_node s)) \<le> cs_height (node_chain (as_node s1))"
    "\<forall>c. c \<noteq> a \<longrightarrow> dict_get (cs_leaves (node_chain (as_node s1))) c = dict_get (cs_leaves (node_chain (as_node s))) c"
proof -
  let ?tx = "sp_tx payment" and ?acct = "as_account s"
  have hist: "keeps_history C (ledger_context d) (node_chain (as_node s)) w" using order by (simp add: account_in_order_def)
  have trusted: "vc_trusted_checkpoints (ledger_context d) = []" by (simp add: ledger_context_def)
  have addr: "an_address ?acct = a" using acct(1) by (simp add: session_address_def)
  obtain result node2 del w2 where made: "node_produce_block C uuid later [] [] None node1 = (Inr result, node2)"
    "dict_get (bre_deliveries result) a = Some del" "rd_applied del" "rd_receipt del \<noteq> None" "payer_ready C uuid a w2 (cn_runtime node2)"
    "keeps_history C (ledger_context d) (node_chain node2) w2" "stored C chain_id n g node2" "total_balance w2 = total_balance w - amount"
    "ns_allocations (cn_store node2) = ns_allocations (cn_store (as_node s))" "cs_height (node_chain node2) = cs_height (node_chain (as_node s)) + 1"
    "\<forall>c. c \<noteq> a \<longrightarrow> dict_get (cs_leaves (node_chain node2)) c = dict_get (cs_leaves (node_chain (as_node s))) c"
    "\<forall>v\<in>set (tx_values ?tx). \<exists>r\<in>set (wa_records w2). lvr_status r = ARCHIVED \<and> lvr_value r = v \<and>
       count_list (sc_txs (cu_sidecar (hd (w_chain (lvr_witness r))))) ?tx = 1"
    "\<forall>b. new_owner b w \<longrightarrow> new_owner b w2"
    "units (live_values (wa_records w)) = units (live_values (wa_records w2)) \<union> units (tx_values ?tx)"
    "tx_sender ?tx = a" "tx_recipient ?tx = b" "offchain_tx_ok ?tx" "total_size (tx_values ?tx) = amount"
    by (rule account_pays [OF C uuid inv ready empty hist trusted addr acct(2) ts submit expiry keys fresh]) blast+
  have w2: "dict_get (rt_wallets (cn_runtime node2)) a = Some w2" "wa_address w2 = a" "wallet_ok C (uuid a) w2" "in_step C (node_chain node2) w2"
    using made(5) by (simp_all add: payer_ready_def node_chain_def)
  have "\<exists>P. \<forall>v\<in>set (tx_values ?tx). account_export_package C ?acct ?tx v node2 = Inr (P v) \<and> tp_target_tx (P v) = ?tx \<and>
      tp_target_value (P v) = v \<and> acceptable C d (node_chain node2) (tx_recipient ?tx) (P v)"
    by (rule packages_exported [OF made(6) w2(3) _ _ made(17) _ made(12)]) (use made(13,15,16) new w2 addr in simp_all)
  then obtain P where P: "\<forall>v\<in>set (tx_values ?tx). account_export_package C ?acct ?tx v node2 = Inr (P v) \<and> tp_target_tx (P v) = ?tx \<and>
      tp_target_value (P v) = v \<and> acceptable C d (node_chain node2) b (P v)" unfolding made(16) by blast
  let ?h = "transfer_package_hash C" and ?s = "s\<lparr>as_node := node2\<rparr>"
  have f: "packages_fresh C ?acct ?tx node2 (as_mailbox s) b db" by (rule packages [OF made(1)])
  then have absent: "\<forall>v\<in>set (tx_values ?tx). ?h (P v) \<notin> fst ` set (as_mailbox s) \<and> \<not> has_accepted_transfer_package b (?h (P v)) db"
    using P by (simp add: packages_fresh_def)
  have "inj_on (\<lambda>v. ?h (P v)) (set (tx_values ?tx))"
  proof (rule inj_onI)
    fix v v' assume v: "v \<in> set (tx_values ?tx)" "v' \<in> set (tx_values ?tx)" "?h (P v) = ?h (P v')"
    then show "v = v'" using f P unfolding packages_fresh_def inj_on_def by simp
  qed
  then have dist: "distinct (map (\<lambda>v. ?h (P v)) (tx_values ?tx))" using tx_values_apart [OF made(17)] by (simp add: distinct_map)
  let ?s1 = "?s\<lparr>as_mailbox := as_mailbox s @ map (\<lambda>p. (?h p, waiting_row a p)) (map P (tx_values ?tx))\<rparr>"
  have "queue_packages C ?tx (tx_values ?tx) ?s = (Inr (), ?s1)"
    using queued [of "tx_values ?tx" C ?s ?tx P] P dist absent acct(1) by (simp add: session_address_def comp_def)
  moreover have "on_node (\<lambda>acct. account_submit_payment C uuid acct b amount fee expiry nonce now) s = (Inr payment, s\<lparr>as_node := node1\<rparr>)"
    by (simp add: on_node_def submit)
  moreover have "on_node (\<lambda>_ node. from_node (node_produce_block C uuid later [] [] None node)) (s\<lparr>as_node := node1\<rparr>) = (Inr result, ?s)"
    by (simp add: on_node_def made(1) from_node_def)
  moreover have "settled_receipt C payment del ?s = Inr (rd_receipt del)" using made(4) by (auto simp: settled_receipt_def)
  ultimately have run: "submit_confirmed_payment C uuid b amount expiry fee nonce now later s =
      (Inr \<lparr>cpa_submitted = payment, cpa_receipt = rd_receipt del\<rparr>, ?s1)"
    using made(2,3) acct(1) by (simp add: submit_confirmed_payment_def queue_outgoing_transfer_packages_def session_address_def)
  have "account_in_order C uuid d (node_chain node2) a w2"
    using order made(6) w2 by (simp add: account_in_order_def)
  moreover have "\<forall>p\<in>set (map P (tx_values ?tx)). acceptable C d (node_chain node2) b p \<and> \<not> has_accepted_transfer_package b (?h p) db"
    using P absent by auto
  moreover have "map tp_target_value (map P (tx_values ?tx)) = tx_values ?tx" using P by (simp add: comp_def map_idI)
  ultimately show ?thesis using that [OF run, of "map P (tx_values ?tx)" w2] made dist w2(1) by (simp add: comp_def)
qed

subsection \<open>The recipient's session\<close>

lemma payment_received:
  assumes C: "digests32 C" and uuid: "inj (uuid b)" and inv: "stored C (an_chain_id acct) 32 g node"
    and d: "list_genesis_allocations (cn_store node) = Inr d"
    and w: "account_in_order C uuid d (node_chain node) b w" and acct: "an_address acct = b" and m: "waiting_rows b m = []"
    and ps: "\<forall>p\<in>set ps. acceptable C d (node_chain node) b p \<and> \<not> has_accepted_transfer_package b (transfer_package_hash C p) (wa_db w)"
      "distinct (map (transfer_package_hash C) ps)" "sorted_wrt (\<lambda>v w. vr_set v \<inter> vr_set w = {}) (map tp_target_value ps)"
      "units (live_values (wa_records w)) \<inter> units (map tp_target_value ps) = {}"
  obtains s events s2 w2 where
    "session_open C acct g True (wa_db w) (wa_drawn w) (cn_store node) (m @ map (\<lambda>p. (transfer_package_hash C p, waiting_row a p)) ps) = Inr s"
    "sync_incoming_transfers C uuid now s = (Inr events, s2)" "mset (map ev_value events) = mset (map tp_target_value ps)"
    "dict_get (rt_wallets (cn_runtime (as_node s2))) b = Some w2" "account_in_order C uuid d (node_chain (as_node s2)) b w2"
    "mset (live_values (wa_records w2)) = mset (live_values (wa_records w)) + mset (map tp_target_value ps)"
    "stored C (an_chain_id acct) 32 g (as_node s2)" "cn_store (as_node s2) = cn_store node"
    "node_chain (as_node s2) = (node_chain node)\<lparr>cs_pool := empty_pool (an_chain_id acct)\<rparr>"
    "\<forall>c. waiting_rows c m = [] \<longrightarrow> waiting_rows c (as_mailbox s2) = []"
proof -
  let ?h = "transfer_package_hash C" and ?st = "(node_chain node)\<lparr>cs_pool := empty_pool (an_chain_id acct)\<rparr>"
  let ?rows = "map (\<lambda>p. (?h p, waiting_row a p)) ps"
  have "account_in_order C uuid d (node_chain node) (an_address acct) w" using w acct by simp
  from inv d this obtain s w1 where s: "session_open C acct g True (wa_db w) (wa_drawn w) (cn_store node) (m @ ?rows) = Inr s"
    "as_account s = attach_consensus acct" "as_mailbox s = m @ ?rows" "stored C (an_chain_id acct) 32 g (as_node s)" "cn_store (as_node s) = cn_store node"
    "node_chain (as_node s) = ?st" "payer_ready C uuid (an_address acct) w1 (cn_runtime (as_node s))" "wa_records w1 = wa_records w"
    "account_in_order C uuid d (node_chain (as_node s)) (an_address acct) w1"
    "allocated d \<subseteq> allocated (rt_allocations (cn_runtime (as_node s)))" "wd_accepted (wa_db w1) = wd_accepted (wa_db w)"
    by (rule session_opens)
  have at: "session_address s = b" "an_attached (as_account s)" using acct by (simp_all add: s(2) session_address_def attach_consensus_def)
  define L where "L = sort_key (\<lambda>(h, _, created_at, package). (package_height package, created_at, h)) (list_pending_packages b (m @ ?rows))"
  have to: "\<forall>p\<in>set ps. tx_recipient (tp_target_tx p) = b" using ps(1) by (simp add: acceptable_def)
  have L: "mset L = mset (map (\<lambda>p. (?h p, a, tx_time (tp_target_tx p), p)) ps)"
    unfolding L_def mset_sort by (rule listed_alone [OF m to])
  have vals: "mset (map (\<lambda>(_, _, _, p). tp_target_value p) L) = mset (map tp_target_value ps)"
  proof -
    have "mset (map (\<lambda>(_, _, _, p). tp_target_value p) L) =
        mset (map (\<lambda>(_, _, _, p). tp_target_value p) (map (\<lambda>p. (?h p, a, tx_time (tp_target_tx p), p)) ps))"
      by (simp only: mset_map L)
    then show ?thesis by (simp only: map_map comp_def prod.case)
  qed
  have recv: "receiving C uuid d s w1" using s(7,9,10) at acct by (simp add: receiving_def payer_ready_def)
  have each: "\<forall>(h, sd, t, p)\<in>set L. h = ?h p \<and> acceptable C d (node_chain (as_node s)) b p \<and>
      \<not> has_accepted_transfer_package b h (wa_db w1) \<and> units (live_values (wa_records w1)) \<inter> vr_set (tp_target_value p) = {}"
  proof -
    have "set L = set (map (\<lambda>p. (?h p, a, tx_time (tp_target_tx p), p)) ps)" by (rule mset_eq_setD [OF L])
    moreover have "units (live_values (wa_records w)) \<inter> vr_set (tp_target_value p) = {}" if "p \<in> set ps" for p
      using ps(4) that by (auto simp: units_def)
    ultimately show ?thesis using ps(1) s(6,8,11) by (auto simp: acceptable_def has_accepted_transfer_package_def)
  qed
  have dist: "distinct (map fst L)"
  proof -
    have "mset (map fst L) = mset (map fst (map (\<lambda>p. (?h p, a, tx_time (tp_target_tx p), p)) ps))" by (simp only: mset_map L)
    then have "mset (map fst L) = mset (map ?h ps)" by (simp only: map_map comp_def fst_conv)
    then show ?thesis using ps(2) mset_eq_imp_distinct_iff by blast
  qed
  have apart: "sorted_wrt (\<lambda>(_, _, _, p) (_, _, _, q). vr_set (tp_target_value p) \<inter> vr_set (tp_target_value q) = {}) L"
  proof -
    have "sorted_wrt (\<lambda>v w. vr_set v \<inter> vr_set w = {}) (map (\<lambda>(_, _, _, p). tp_target_value p) L)"
      using ps(3) sorted_wrt_sym_perm [OF vals, of "\<lambda>v w. vr_set v \<inter> vr_set w = {}"] by blast
    then show ?thesis by (simp add: sorted_wrt_map split_def)
  qed
  obtain s2 w2 where s2: "receive_each C uuid now L s = (Inr (map (\<lambda>(h, sd, _, p). \<lparr>ev_package_hash = h, ev_sender = sd,
        ev_recipient = b, ev_tx = tp_target_tx p, ev_value = tp_target_value p\<rparr>) L), s2)" "receiving C uuid d s2 w2" "session_address s2 = b"
      "node_chain (as_node s2) = node_chain (as_node s)" "cn_store (as_node s2) = cn_store (as_node s)"
      "stored C (an_chain_id acct) 32 g (as_node s) \<longrightarrow> stored C (an_chain_id acct) 32 g (as_node s2)"
      "as_mailbox s2 = fold (\<lambda>e. mark_claimed (fst e) now) L (as_mailbox s)"
      "mset (live_values (wa_records w2)) = mset (live_values (wa_records w1)) + mset (map (\<lambda>(_, _, _, p). tp_target_value p) L)"
    using received_all [where uuid = uuid, OF C uuid recv at(1) each dist apart, of now "an_chain_id acct" 32 g] by blast
  have sync: "sync_incoming_transfers C uuid now s = (Inr (map (\<lambda>(h, sd, _, p). \<lparr>ev_package_hash = h, ev_sender = sd,
        ev_recipient = b, ev_tx = tp_target_tx p, ev_value = tp_target_value p\<rparr>) L), s2)"
    using s2(1) by (simp add: sync_incoming_transfers_def at(1) s(3) L_def)
  have claimed: "waiting_rows c (as_mailbox s2) = []" if c: "waiting_rows c m = []" for c
  proof -
    have "\<forall>(h, row)\<in>set (waiting_rows c (m @ ?rows)). h \<in> set (map fst L)"
    proof -
      have "set (map fst L) = ?h ` set ps" using mset_eq_setD [OF L] by (force simp: image_image)
      moreover have "waiting_rows c (m @ ?rows) = waiting_rows c ?rows" using c by (simp add: waiting_rows_def)
      ultimately show ?thesis by (auto simp: waiting_rows_def)
    qed
    from waiting_after_claims [OF this, of now] show ?thesis by (simp add: s2(7) s(3) fold_map comp_def)
  qed
  have "mset (map ev_value (map (\<lambda>(h, sd, _, p). \<lparr>ev_package_hash = h, ev_sender = sd, ev_recipient = b, ev_tx = tp_target_tx p,
      ev_value = tp_target_value p\<rparr>) L)) = mset (map tp_target_value ps)"
    using vals by (simp add: comp_def split_def)
  then show ?thesis
    using that [OF s(1) sync] s2(2-6,8) s(4-6,8) vals claimed by (simp add: receiving_def)
qed

subsection \<open>From one account to another\<close>

definition at_rest ::
    "crypto \<Rightarrow> (string \<Rightarrow> nat \<Rightarrow> string) \<Rightarrow> int \<Rightarrow> bytes \<Rightarrow> string \<Rightarrow> string \<Rightarrow> consensus_node \<Rightarrow> mailbox \<Rightarrow> wallet \<Rightarrow> wallet \<Rightarrow> bool" where
  \<comment> \<open>Two accounts between their sessions on a backend: the store stands for the chain, both wallets are in order, nothing waits for
    either and no unit of value is in both.\<close>
  "at_rest C uuid chain_id g a b node m wa wb \<longleftrightarrow> stored C chain_id 32 g node \<and> a \<noteq> b \<and>
     (\<exists>d. list_genesis_allocations (cn_store node) = Inr d \<and>
        account_in_order C uuid d (node_chain node) a wa \<and> account_in_order C uuid d (node_chain node) b wb) \<and>
     waiting_rows a m = [] \<and> waiting_rows b m = [] \<and> units (live_values (wa_records wa)) \<inter> units (live_values (wa_records wb)) = {}"

lemma parts_apart:
  assumes "list_all vr_ok vs" "disjoint_values vs" "list_all vr_ok ws" "list_all vr_ok us"
    "units vs = units ws \<union> units us" "total_size vs = total_size ws + total_size us"
  shows "units ws \<inter> units us = {}"
proof -
  have "int (card (units ws \<union> units us)) = total_size ws + total_size us"
    using disjoint_values_iff [OF assms(1)] assms(2,5,6) by simp
  then have "card (units ws \<inter> units us) = 0"
    using card_Un_Int [OF finite_units finite_units, of ws us] card_units_le [OF assms(3)] card_units_le [OF assms(4)] by linarith
  then show ?thesis by simp
qed

lemma order_live: "account_in_order C uuid d st a w \<Longrightarrow>
    list_all vr_ok (live_values (wa_records w)) \<and> disjoint_values (live_values (wa_records w))"
  by (auto simp: account_in_order_def wallet_ok_def records_ok_def live_values_def live_def list_all_iff)

text \<open>C12. A payment between two sessions reaches its recipient. Take two accounts at rest on a backend: its store stands for the chain,
  both wallets keep their invariants, are in step with the chain and hold values whose histories lead back to the store's allocations,
  no unit of value is in both, and no package waits for either. Let the payer's session open on the store, its payment of an amount be
  built and submitted there before it expires, and the recipient have owned none of the payer's values before (the witness of a
  value that comes back is trimmed on export); and let nothing collide: the keys of the accounts, the hash of the new block, the
  hashes of the new packages. Then \<open>submit_confirmed_payment\<close>
  returns, and the payer's balance is lower by exactly the amount. On the store and mailbox left behind the recipient's session
  opens, and \<open>sync_incoming_transfers\<close> returns one event for each value of the payment's transaction and raises the recipient's
  balance by exactly the amount. Both accounts are at rest again.\<close>

theorem payment_reaches_recipient:
  assumes C: "digests32 C" and uuid: "\<forall>c. inj (uuid c)"
    and rest: "at_rest C uuid chain_id g a b node m wa wb" and new: "new_owner b wa"
    and acct: "an_address payer = a" "an_chain_id payer = chain_id" "an_address payee = b" "an_chain_id payee = chain_id"
    and opened: "session_open C payer g True (wa_db wa) (wa_drawn wa) (cn_store node) m = Inr s"
    and submit: "account_submit_payment C uuid (as_account s) b amount fee expiry nonce now (as_node s) = (Inr payment, node1)"
    and times: "0 \<le> later" "cs_height (node_chain node) < expiry"
    and keys: "inj_on (compute_addr_key C) (accounts (node_chain node1))"
    and fresh: "\<And>blk rs chain. build_block C (node_chain node1) later [] [] None = Inr (blk, rs, chain) \<Longrightarrow>
      blk_hash blk \<notin> blk_hash ` set (cs_blocks (node_chain node1))"
    and packages: "\<And>result node2. node_produce_block C uuid later [] [] None node1 = (Inr result, node2) \<Longrightarrow>
      packages_fresh C (as_account s) (sp_tx payment) node2 m b (wa_db wb)"
  shows "\<exists>confirmed s1 s' events s2 wa' wb'.
    submit_confirmed_payment C uuid b amount expiry fee nonce now later s = (Inr confirmed, s1) \<and>
    dict_get (rt_wallets (cn_runtime (as_node s1))) a = Some wa' \<and> total_balance wa' = total_balance wa - amount \<and>
    session_open C payee g True (wa_db wb) (wa_drawn wb) (cn_store (as_node s1)) (as_mailbox s1) = Inr s' \<and>
    sync_incoming_transfers C uuid claimed s' = (Inr events, s2) \<and> mset (map ev_value events) = mset (tx_values (sp_tx payment)) \<and>
    dict_get (rt_wallets (cn_runtime (as_node s2))) b = Some wb' \<and> total_balance wb' = total_balance wb + amount \<and>
    at_rest C uuid chain_id g a b (as_node s2) (as_mailbox s2) wa' wb'"
proof -
  obtain d where d: "list_genesis_allocations (cn_store node) = Inr d" and inv: "stored C chain_id 32 g node" and ab: "a \<noteq> b"
      and orders: "account_in_order C uuid d (node_chain node) a wa" "account_in_order C uuid d (node_chain node) b wb"
      and m: "waiting_rows a m = []" "waiting_rows b m = []"
      and apart: "units (live_values (wa_records wa)) \<inter> units (live_values (wa_records wb)) = {}"
    using rest by (auto simp: at_rest_def)
  have "stored C (an_chain_id payer) 32 g node" "account_in_order C uuid d (node_chain node) (an_address payer) wa"
    using inv orders(1) acct by simp_all
  from this(1) d this(2) obtain s' w where s': "session_open C payer g True (wa_db wa) (wa_drawn wa) (cn_store node) m = Inr s'"
    "as_account s' = attach_consensus payer" "as_mailbox s' = m" "stored C (an_chain_id payer) 32 g (as_node s')" "cn_store (as_node s') = cn_store node"
    "node_chain (as_node s') = (node_chain node)\<lparr>cs_pool := empty_pool (an_chain_id payer)\<rparr>"
    "payer_ready C uuid (an_address payer) w (cn_runtime (as_node s'))" "wa_records w = wa_records wa"
    "account_in_order C uuid d (node_chain (as_node s')) (an_address payer) w"
    by (rule session_opens) blast
  have eq: "s' = s" using s'(1) opened by simp
  note s = s' [unfolded eq acct(1,2)]
  have at: "session_address s = a" "an_attached (as_account s)" using acct(1) by (simp_all add: s(2) session_address_def attach_consensus_def)
  have empty: "bp_pending (cs_pool (node_chain (as_node s))) = []" by (simp add: s(6) empty_pool_def bundle_pool_new_def)
  have new': "new_owner b w" using new by (simp add: new_owner_def s(8))
  have expiry: "cs_height (node_chain (as_node s)) < expiry" using times(2) by (simp add: s(6))
  have packages': "packages_fresh C (as_account s) (sp_tx payment) node2 (as_mailbox s) b (wa_db wb)"
    if "node_produce_block C uuid later [] [] None node1 = (Inr result, node2)" for result node2
    using packages [OF that] by (simp add: s(3))
  obtain confirmed s1 w2 ps where paid: "submit_confirmed_payment C uuid b amount expiry fee nonce now later s = (Inr confirmed, s1)"
    "as_mailbox s1 = as_mailbox s @ map (\<lambda>p. (transfer_package_hash C p, waiting_row a p)) ps"
    "map tp_target_value ps = tx_values (sp_tx payment)" "offchain_tx_ok (sp_tx payment)" "distinct (map (transfer_package_hash C) ps)"
    "\<forall>p\<in>set ps. acceptable C d (node_chain (as_node s1)) b p \<and> \<not> has_accepted_transfer_package b (transfer_package_hash C p) (wa_db wb)"
    "stored C chain_id 32 g (as_node s1)" "ns_allocations (cn_store (as_node s1)) = ns_allocations (cn_store (as_node s))"
    "dict_get (rt_wallets (cn_runtime (as_node s1))) a = Some w2" "account_in_order C uuid d (node_chain (as_node s1)) a w2"
    "total_balance w2 = total_balance w - amount" "total_size (tx_values (sp_tx payment)) = amount"
    "units (live_values (wa_records w)) = units (live_values (wa_records w2)) \<union> units (tx_values (sp_tx payment))"
    "cs_height (node_chain (as_node s)) \<le> cs_height (node_chain (as_node s1))"
    "\<forall>c. c \<noteq> a \<longrightarrow> dict_get (cs_leaves (node_chain (as_node s1))) c = dict_get (cs_leaves (node_chain (as_node s))) c"
    by (rule payment_queued [where db = "wa_db wb", OF C spec [OF uuid, of a] s(4,7) empty s(9) new' at times(1) submit expiry keys fresh packages'])
      blast+
  let ?vs = "tx_values (sp_tx payment)"
  have values_ok: "list_all vr_ok ?vs" "sorted_wrt (\<lambda>v w. vr_set v \<inter> vr_set w = {}) ?vs"
    using paid(4) tx_values_apart by (simp_all add: offchain_tx_ok_def)
  have gone: "units (live_values (wa_records w2)) \<inter> units ?vs = {}"
    using order_live [OF s(9)] order_live [OF paid(10)] values_ok(1) paid(11-13) by (intro parts_apart) (auto simp: total_balance_eq)
  have d1: "list_genesis_allocations (cn_store (as_node s1)) = Inr d"
    using d by (simp add: list_genesis_allocations_def paid(8) s(5))
  have order_b: "account_in_order C uuid d (node_chain (as_node s1)) b wb"
    by (rule in_order_later [OF orders(2)]) (use paid(14,15) ab in \<open>simp_all add: s(6)\<close>)
  have away: "units (live_values (wa_records wb)) \<inter> units (map tp_target_value ps) = {}"
    using apart paid(13) by (auto simp: paid(3) s(8))
  have inv1: "stored C (an_chain_id payee) 32 g (as_node s1)" using paid(7) acct(4) by simp
  have spread: "sorted_wrt (\<lambda>v w. vr_set v \<inter> vr_set w = {}) (map tp_target_value ps)" by (simp add: paid(3) values_ok(2))
  obtain s' events s2 w3 where got:
    "session_open C payee g True (wa_db wb) (wa_drawn wb) (cn_store (as_node s1)) (m @ map (\<lambda>p. (transfer_package_hash C p, waiting_row a p)) ps) = Inr s'"
    "sync_incoming_transfers C uuid claimed s' = (Inr events, s2)" "mset (map ev_value events) = mset (map tp_target_value ps)"
    "dict_get (rt_wallets (cn_runtime (as_node s2))) b = Some w3" "account_in_order C uuid d (node_chain (as_node s2)) b w3"
    "mset (live_values (wa_records w3)) = mset (live_values (wa_records wb)) + mset (map tp_target_value ps)"
    "stored C (an_chain_id payee) 32 g (as_node s2)" "cn_store (as_node s2) = cn_store (as_node s1)"
    "node_chain (as_node s2) = (node_chain (as_node s1))\<lparr>cs_pool := empty_pool (an_chain_id payee)\<rparr>"
    "\<forall>c. waiting_rows c m = [] \<longrightarrow> waiting_rows c (as_mailbox s2) = []"
    by (rule payment_received [where a = a and now = claimed, OF C spec [OF uuid, of b] inv1 d1 order_b acct(3) m(2) paid(6,5) spread away]) blast
  have live: "mset (live_values (wa_records w3)) = mset (live_values (wa_records wb) @ ?vs)" using got(6) by (simp add: paid(3))
  have "total_balance w3 = total_balance wb + amount"
    using total_size_mset [OF live] paid(12) by (simp add: total_balance_eq)
  moreover have "units (live_values (wa_records w2)) \<inter> units (live_values (wa_records w3)) = {}"
    using units_mset [OF live] gone apart paid(13) by (auto simp: s(8))
  moreover have "account_in_order C uuid d (node_chain (as_node s2)) a w2"
    by (rule in_order_later [OF paid(10)]) (simp_all add: got(9))
  ultimately have "at_rest C uuid chain_id g a b (as_node s2) (as_mailbox s2) w2 w3"
    using got(5,7,10) d1 m ab acct(4) by (auto simp: at_rest_def got(8))
  moreover have "total_balance w2 = total_balance wa - amount" using paid(11) by (simp add: total_balance_eq s(8))
  moreover have "mset (map ev_value events) = mset ?vs" using got(3) by (simp add: paid(3))
  moreover have "session_open C payee g True (wa_db wb) (wa_drawn wb) (cn_store (as_node s1)) (as_mailbox s1) = Inr s'"
    using got(1) by (simp add: paid(2) s(3))
  ultimately show ?thesis using paid(1,9) got(2,4) \<open>total_balance w3 = total_balance wb + amount\<close> by blast
qed

subsection \<open>A payment on an empty chain\<close>

definition payer_account :: account_node where
  "payer_account = \<lparr>an_name = ''payer'', an_private_key = [1], an_public_key = [65], an_address = payer_address, an_chain_id = 1, an_attached = False\<rparr>"

definition payee_account :: account_node where
  "payee_account = \<lparr>an_name = ''payee'', an_private_key = [2], an_public_key = [66], an_address = ''bob'', an_chain_id = 1, an_attached = False\<rparr>"

definition payee_wallet :: wallet where
  "payee_wallet = snd (wallet_open flat_crypto ''bob'' ZERO_HASH32 wallet_db_new 0)"

definition backend_node :: consensus_node where
  "backend_node = \<lparr>cn_store = node_store_new\<lparr>ns_allocations := [(payer_address, 0, 9)]\<rparr>,
     cn_runtime = (runtime_new sample_ledger True)\<lparr>rt_allocations := [(payer_address, [ValueRange 0 9])]\<rparr>, cn_genesis = ZERO_HASH32\<rparr>"

lemma backend_node_allocated: "backend_node = node_register_allocation payer_address (ValueRange 0 9) first_node"
  by (simp add: backend_node_def node_register_allocation_def save_genesis_allocation_def register_genesis_allocation_def first_node_def
      node_store_new_def runtime_new_def sample_ledger_def dict_get_default_def)

lemma backend_stored: "stored flat_crypto 1 32 ZERO_HASH32 backend_node"
proof -
  have "node_step flat_crypto (\<lambda>_. sample_uuid) first_node backend_node"
    unfolding backend_node_allocated by (intro node_step.operation node_op.allocate) (simp add: vr_ok_def)
  then show ?thesis by (rule stored_step [OF _ _ stored_new [OF _ _ first_node_open]]) (simp_all add: hash32_def ZERO_HASH32_def)
qed

lemma backend_allocations: "list_genesis_allocations (cn_store backend_node) = Inr [(payer_address, [ValueRange 0 9])]"
  by (simp add: list_genesis_allocations_def backend_node_def make_value_range_def dict_get_default_def)

lemma backend_opens: "node_open flat_crypto (cn_store backend_node) 1 32 True ZERO_HASH32 = Inr backend_node"
  using backend_allocations
  by (simp add: node_open_def) (simp add: backend_node_def load_chain_state_def load_metadata_def node_store_new_def sample_ledger_def
      runtime_new_def register_genesis_allocation_def dict_get_default_def)

lemma payee_wallet_simps:
  "wa_address payee_wallet = ''bob''" "wa_records payee_wallet = []" "wa_drawn payee_wallet = 0" "wa_db payee_wallet = wallet_db_new"
  by (simp_all add: payee_wallet_def wallet_open_def reload_state_def list_value_records_def owner_rows_def wallet_db_new_def)

lemma sample_at_rest: "at_rest flat_crypto (\<lambda>_. sample_uuid) 1 ZERO_HASH32 payer_address ''bob'' backend_node [] sample_payer payee_wallet"
proof -
  let ?d = "[(payer_address, [ValueRange 0 9])]"
  have chain: "node_chain backend_node = sample_ledger" by (simp add: backend_node_def node_chain_def runtime_new_def)
  have names: "payer_address \<noteq> ''bob''" "payer_address \<noteq> []" by (simp_all add: payer_address_def)
  have "keeps_history flat_crypto (ledger_context ?d) sample_ledger sample_payer"
    by (simp add: keeps_history_def sample_payer_ok sample_record0_def held_def rooted_def own_history_def vr_ok_def vr_contains_range_def
        sample_anchor0_def ledger_context_def dict_get_default_def sample_ledger_def chain_new_def)
  then have payer: "account_in_order flat_crypto (\<lambda>_. sample_uuid) ?d sample_ledger payer_address sample_payer"
    using sample_ready names by (simp add: account_in_order_def payer_ready_def sample_runtime_def runtime_new_def)
  have "wallet_ok flat_crypto sample_uuid payee_wallet" unfolding payee_wallet_def by (rule opened_ok)
  moreover have "in_step flat_crypto sample_ledger payee_wallet"
    by (simp add: in_step_def receipt_keys_def payee_wallet_simps keys_below_def units_known_def head_ref_of_def sample_ledger_def chain_new_def
        wallet_db_new_def)
  ultimately have payee: "account_in_order flat_crypto (\<lambda>_. sample_uuid) ?d sample_ledger ''bob'' payee_wallet"
    by (simp add: account_in_order_def payee_wallet_simps keeps_history_def)
  show ?thesis
    using payer payee backend_stored backend_allocations names
    by (simp add: at_rest_def chain waiting_rows_def payee_wallet_simps live_values_def live_def units_def)
qed

definition payer_session :: app_session where
  "payer_session = \<lparr>as_account = attach_consensus payer_account, as_node = backend_node\<lparr>cn_runtime := (cn_runtime backend_node)
     \<lparr>rt_wallets := [(payer_address, sample_payer)], rt_auto_confirm := [(payer_address, True)]\<rparr>\<rparr>, as_mailbox = []\<rparr>"

lemma payer_session_opens:
  "session_open flat_crypto payer_account ZERO_HASH32 True (wa_db sample_payer) (wa_drawn sample_payer) (cn_store backend_node) [] = Inr payer_session"
proof -
  have list: "list_value_records flat_crypto payer_address (wa_db sample_payer) = Inr (wa_records sample_payer)"
    using sample_payer_ok(1,3) by (simp add: wallet_ok_def)
  have "wa_checkpoints sample_payer = db_list_checkpoints payer_address (wa_db sample_payer)" "wa_genesis_hash sample_payer = ZERO_HASH32"
    by (simp_all add: sample_payer_def observe_canonical_header_def sample_wallet_ok save_canonical_header_def db_list_checkpoints_def)
  then have "wallet_open flat_crypto payer_address ZERO_HASH32 (wa_db sample_payer) (wa_drawn sample_payer) = (Inr (), sample_payer)"
    using list sample_payer_ok(3) by (simp add: wallet_open_def reload_state_def)
  moreover have "register_wallet sample_payer (Some True) (cn_runtime backend_node) = (Inr (), cn_runtime (as_node payer_session))"
    by (simp add: register_wallet_def list_records_def sample_payer_ok sample_record0_def sample_anchor0_def make_value_range_def
        payer_session_def backend_node_def runtime_new_def register_genesis_allocation_def dict_get_default_def
        share_canonical_chain_headers_def sample_ledger_def chain_new_def set_wallet_def Let_def)
  ultimately show ?thesis
    by (simp add: session_open_def payer_account_def backend_opens node_register_wallet_def) (simp add: payer_session_def payer_account_def)
qed

theorem payment_reaches_recipient_witness:
  "\<exists>confirmed s1 s' events s2 wb'.
     submit_confirmed_payment flat_crypto (\<lambda>_. sample_uuid) ''bob'' 3 100 0 0 7 8 payer_session = (Inr confirmed, s1) \<and>
     session_open flat_crypto payee_account ZERO_HASH32 True wallet_db_new 0 (cn_store (as_node s1)) (as_mailbox s1) = Inr s' \<and>
     sync_incoming_transfers flat_crypto (\<lambda>_. sample_uuid) 9 s' = (Inr events, s2) \<and> map ev_value events = [ValueRange 0 2] \<and>
     dict_get (rt_wallets (cn_runtime (as_node s2))) ''bob'' = Some wb' \<and> total_balance wb' = 3"
proof -
  obtain submission bc w1 where b: "build_bundle flat_crypto sample_uuid [sample_payment] sample_params 1 sample_payer = (Inr (submission, bc), w1)"
      "build_payment_bundle flat_crypto sample_uuid ''bob'' 3 sample_params 7 (Some 1) [] sample_payer = (Inr (submission, bc, sample_payment), w1)"
    by (rule sample_built)
  obtain st where st: "submit_bundle flat_crypto sample_ledger submission = Inr (st, payer_address)" "accounts st = {payer_address}" "cs_blocks st = []"
    using sample_admitted [OF b(1)] by blast
  have seq: "wallet_next_sequence sample_payer = 1"
    by (simp add: wallet_next_sequence_def next_sequence_def sample_payer_ok)
  have params: "payment_params (as_account payer_session) 0 100 0 7 = sample_params"
    by (simp add: payment_params_def payer_session_def payer_account_def attach_consensus_def sample_params_def)
  have built: "build_payment_bundle flat_crypto sample_uuid ''bob'' 3 (payment_params (as_account payer_session) 0 100 0 7) 7 None [] sample_payer =
      (Inr (submission, bc, sample_payment), w1)"
    using b(2) unfolding build_payment_bundle_def option.case seq params .
  have at: "an_address (as_account payer_session) = payer_address" "an_attached (as_account payer_session)"
      "dict_get (rt_wallets (cn_runtime (as_node payer_session))) payer_address = Some sample_payer"
      "rt_chain (cn_runtime (as_node payer_session)) = sample_ledger"
    by (simp_all add: payer_session_def payer_account_def attach_consensus_def backend_node_def runtime_new_def)
  obtain payment node1 where p: "account_submit_payment flat_crypto (\<lambda>_. sample_uuid) (as_account payer_session) ''bob'' 3 0 100 0 7 (as_node payer_session) =
      (Inr payment, node1)" "node_chain node1 = st" "sp_tx payment = sample_payment"
    using built st(1) at by (simp add: account_submit_payment_def on_wallet_def node_submit_bundle_def rt_submit_bundle_def from_node_def node_chain_def)
  have new: "new_owner ''bob'' sample_payer"
    by (simp add: new_owner_def sample_payer_ok sample_record0_def) (simp add: payer_address_def)
  have fresh: "packages_fresh flat_crypto (as_account payer_session) (sp_tx payment) node [] ''bob'' (wa_db payee_wallet)" for node
    by (simp add: packages_fresh_def p(3) sample_payment_def has_accepted_transfer_package_def payee_wallet_simps wallet_db_new_def)
  have zero: "cs_height (node_chain backend_node) < 100"
    by (simp add: backend_node_def node_chain_def runtime_new_def sample_ledger_def chain_new_def)
  obtain confirmed s1 s' events s2 wb' where r:
     "submit_confirmed_payment flat_crypto (\<lambda>_. sample_uuid) ''bob'' 3 100 0 0 7 8 payer_session = (Inr confirmed, s1)"
     "session_open flat_crypto payee_account ZERO_HASH32 True (wa_db payee_wallet) (wa_drawn payee_wallet) (cn_store (as_node s1)) (as_mailbox s1) = Inr s'"
     "sync_incoming_transfers flat_crypto (\<lambda>_. sample_uuid) 9 s' = (Inr events, s2)" "mset (map ev_value events) = mset (tx_values (sp_tx payment))"
     "dict_get (rt_wallets (cn_runtime (as_node s2))) ''bob'' = Some wb'" "total_balance wb' = total_balance payee_wallet + 3"
    using payment_reaches_recipient [OF _ _ sample_at_rest new _ _ _ _ payer_session_opens p(1) _ zero, of payee_account 8 9] st(2,3) fresh
    by (auto simp: p(2) payer_account_def payee_account_def)
  have "total_balance payee_wallet = 0" by (simp add: total_balance_eq payee_wallet_simps live_values_def live_def)
  moreover have "mset (map ev_value events) = mset [ValueRange 0 2]" using r(4) by (simp add: p(3) sample_payment_def)
  then have "map ev_value events = [ValueRange 0 2]" by (simp only: mset_single_iff mset.simps add_mset_add_single [symmetric])
  ultimately show ?thesis using r(1-3,5,6) by (auto simp: payee_wallet_simps)
qed

end
