(* ===== verification/Spec2Isabelle.thy ===== *)
theory Spec2Isabelle
  imports Chain_Steps Validator Consensus_Runner Sortition Node_Wallets Payment_Session
begin

text \<open>
  EZchain V2, the protocol core of the repository (the Python package \<open>src/EZ_V2\<close>).

  \<^bold>\<open>What the program is.\<close> An account owns ranges of unit indices (\<open>ValueRange\<close>), handed out at genesis.
  To pay, its wallet cuts the ranges it owns, puts the transactions into a bundle, signs the bundle's envelope and
  submits it to the chain. The chain stores no transactions and no balances: it keeps one leaf per account in a sparse
  Merkle tree, with a reference to the account's last bundle and the hash of the ranges that bundle claims. A
  block carries the envelopes with their sidecars, and each sender gets a receipt: the header, the link to the
  bundle before and a proof that the new leaf is in the tree of the block's state root. The sender's wallet
  confirms its bundle with the receipt and hands the recipient a transfer package, the history of the value as bundles
  with receipts back to an anchor. The recipient's validator accepts it or not by itself. Which block comes
  next is decided by a BFT consensus of equally weighted validators (prepare, precommit and commit votes, quorum
  certificates, a pacemaker with timeouts, a sortition of proposers). \<open>V2Runtime\<close> joins a chain and the wallets of
  its accounts, and \<open>V2ConsensusNode\<close> a runtime and a store of the blocks, from which it starts again. A wallet application
  (\<open>V2LocalAppSession\<close>) opens an account's wallet and such a node on a shared backend, pays, and exchanges packages through the
  backend's mailbox.

  \<^bold>\<open>Theories.\<close> Each names the files it models; the definitions keep the names of the code, with a prefix where
  two classes share a method name.

    \<^item> \<open>Prelude\<close>: bytes, decimal and hexadecimal printing, dicts in insertion order (the locale \<open>dictionary\<close>),
      results with errors, stable sorting. \<open>Effects\<close>: methods of mutable objects, which return a result or an
      error together with the object as it is then.
    \<^item> \<open>Values\<close> (\<open>values.py\<close>), \<open>Types\<close> (\<open>types.py\<close>), \<open>Claim_Set\<close> (\<open>claim_set.py\<close>): the data, each class a record, its
      \<open>__post_init__\<close> a function \<open>..._init\<close>, and the normal form of claimed ranges.
    \<^item> \<open>Encoding\<close> (\<open>encoding.py\<close>): the canonical type-tagged encoding and its injectivity.
    \<^item> \<open>Crypto\<close> (\<open>crypto.py\<close>): DER signatures, low-s form, PEM, addresses, over a record of outside primitives.
    \<^item> \<open>Smt\<close> (\<open>smt.py\<close>): the sparse Merkle tree, single proofs and multiproofs, under the contract
      \<open>authenticated_map\<close>.
    \<^item> \<open>Chain_Hash\<close>, \<open>Receipt_Cache\<close>, \<open>Bundle_Pool\<close>, \<open>Chain_State\<close> (\<open>chain.py\<close>): what is hashed and how, the window of
      receipts, the pool of pending bundles, and building, previewing and applying blocks. \<open>Chain_Safety\<close>
      holds the invariant \<open>chain_ok\<close> and the agreement of proposer and replicas; \<open>Chain_Steps\<close> the soundness of
      accepted blocks, what a receipt proves, and the runs of a ledger.
    \<^item> \<open>Validator\<close> (\<open>validator.py\<close>): the recipient's check, refined to the predicate \<open>acceptable\<close>.
    \<^item> \<open>Consensus_Types\<close>, \<open>Validator_Set\<close>, \<open>Vote_Collector\<close>, \<open>Pacemaker\<close>, \<open>Consensus_Store\<close>, \<open>Consensus_Core\<close>,
      \<open>Consensus_Runner\<close>, \<open>Sortition\<close> (\<open>consensus/types.py, validator_set.py, qc.py, pacemaker.py, store.py, core.py,
      runner.py, sortition.py\<close>): one theory for each file, with the contracts \<open>quorum_system\<close> and \<open>durable_store\<close>;
      \<open>Consensus_Safety\<close> has the transition system of any number of cores and the agreement of their commits.
    \<^item> \<open>Transfer_Mailbox\<close> (\<open>transport.py\<close>): the hash of a package and the mailbox of waiting packages.
    \<^item> \<open>Wallet_Store\<close> (\<open>storage.py\<close>): the wallet's database as a record of tables. \<open>Wallet_Ranges\<close>, \<open>Wallet\<close>
      (\<open>wallet.py\<close>): cutting and choosing values, and every method of the account. \<open>Wallet_Safety\<close> holds the
      invariant \<open>wallet_ok\<close>, \<open>Wallet_Money\<close> what the operations do to balances, \<open>Wallet_Run\<close> the reachable
      wallets (\<open>wallet_run\<close>), the effect of any call (\<open>wallet_call\<close>) and received transfers, \<open>Wallet_Samples\<close> the concrete wallets of the witnesses.
    \<^item> \<open>Runtime\<close> (\<open>runtime_v2.py\<close>): the runtime over a chain and its wallets. \<open>Runtime_Safety\<close>: a payment from the
      wallet through the chain and back, for a wallet that is in step with the chain.
    \<^item> \<open>Node_Store\<close> (\<open>consensus_store.py\<close>, \<open>V2ConsensusNode\<close> of \<open>localnet.py\<close>): the node that keeps its chain in SQLite.
      \<open>Node_Safety\<close> holds the invariant \<open>stored\<close>, that replaying the stored blocks gives the chain in memory, and the
      runs \<open>node_step\<close> of a node; \<open>Node_Restart\<close> that saving a built block never raises, and what a restart finds;
      \<open>Node_Wallets\<close> the contract \<open>wallet_keeper\<close> of runtime and wallet, and a node's wallets in a run.
    \<^item> \<open>App_Session\<close> (\<open>app_client.py\<close>, \<open>V2AccountNode\<close> of \<open>localnet.py\<close>): an account, its node and the mailbox. \<open>Payments\<close>:
      what a wallet's records say of the history of their values, and that payment and receipt keep it, so that the
      packages it exports pass the recipient's check. \<open>Payment_Session\<close>: a payment from one session to the next, end to end.

  \<^bold>\<open>How state and effects are modelled.\<close> A frozen dataclass is a record and its constructor check an explicit
  function; a class with mutable fields is a record of them, and a method a function that returns the new record. A
  method that may raise after it has changed something returns \<open>(error + result) \<times> state\<close>; one that computes first
  and assigns last returns \<open>error + (result \<times> state)\<close>. Every raise of the code is a value of its component's error
  type. Python integers are \<open>int\<close>; a dict is an association list in insertion order, as iteration order reaches
  hashes and receipts; a Python set is a list without repetitions. An SQLite table with a primary key is a dict in
  row order, a transaction one update that happens or raises; a JSON column holds the object itself.

  \<^bold>\<open>Parameters and hypotheses.\<close> The record \<open>crypto\<close>, the first argument \<open>C\<close> of what uses it, stands for the code
  outside the repository: keccak-256, SHA-256, PBKDF2, base64 and the \<open>openssl\<close> command. The theorems use of it
  at most \<open>digests32 C\<close>, that digests have 32 bytes. No theorem assumes that keccak is injective, which
  it is not: a property that needs two hashes to differ either takes that for the objects at hand (\<open>inj_on\<close> on the
  accounts of a state) or concludes with the collision. The instances \<open>flat_crypto\<close>, \<open>level_crypto\<close> and
  \<open>marking_crypto\<close> evaluate in the witnesses. \<open>uuid4\<close> is a parameter that yields the n-th id drawn, with the hypothesis
  \<open>inj\<close> where ids must be fresh. Clock, nonces and timestamps are arguments. The verifier of
  certificates and sortition claims is a parameter, as it is in the code.

  \<^bold>\<open>Bounds and fuel.\<close> No definition needs fuel. Recursion is structural or goes down a list, except for the tree, whose recursion
  is over its depth (256, the hypothesis of the theorems about it), and the loop of \<open>merkle_root\<close>, for which
  the number of rounds is proved. Where code relies on the recursion limit or on SQLite's 64-bit integers, the
  model has no limit.

  \<^bold>\<open>What is proved.\<close> In the order of the manifest: honest blocks are accepted by every replica in the same state, and
  accepted blocks are sound; no two honest validators commit different blocks at one round, through restarts; an accepted
  transfer rests on proved, unspent history; Merkle proofs are complete and sound up to an exhibited collision; a payment
  settles with the next block, moves exactly its amount and reaches its recipient through the packages the payer exports; a node
  that starts again has its chain; rollback restores every balance; a package waits until it is claimed and is credited once, whatever
  calls come after; encodings and hashed messages are injective; certificates, pacemaker and stores keep their invariants. The theorems of kind \<open>error\<close> show where the code falls short of what it means to do: a forged block entry
  that is accepted, an expired bundle after which a node never starts again, a truncated history or an absent sender that a
  recipient accepts, a copy of a package that is credited again, a forged certificate that halts a validator whatever it is
  called with later,
  commits of two blocks at one height, and a proof batch of another that alters a stored receipt.

  \<^bold>\<open>Not modelled.\<close> \<open>network_host.py\<close>, \<open>network_transport.py\<close>, \<open>transport_peer.py\<close>, \<open>networking.py\<close> and
  \<open>control.py\<close> are sockets, threads, timers and process files around the modelled operations. Of \<open>app_client.py\<close>,
  \<open>V2LocalAppClient\<close> makes directories and paths and opens sessions; of \<open>localnet.py\<close>, \<open>V2LocalNetwork\<close> holds any number of
  accounts by name and forwards to them. Accounts share their wallet objects with the runtime by reference, where the model has one
  copy, the runtime's entry. \<open>serde.py\<close> turns objects into JSON text and back. \<open>EZ_App\<close> is an HTTP and command-line front
  end, \<open>EZ_V1\<close> the frozen implementation before this one, and \<open>EZ_Simulation\<close>, \<open>scripts\<close> and \<open>modules\<close> are simulators and
  deployment. Object identity, locks, \<open>ALTER TABLE\<close>, file permissions and the text of error messages are not modelled. \<open>apply_sender_confirmed_unit\<close> and
  \<open>save_receipt_proof_batch\<close> are defined, and are calls in \<open>wallet_call\<close>, but no steps of \<open>wallet_run\<close>, over which the
  invariant is proved: nothing in the package calls the first, and the second is called by the network host with what peers send.
\<close>

end
